(* ===== verification/DVR_Prelude.thy ===== *)
theory DVR_Prelude
  imports Main "HOL-Library.Word"
begin

unbundle bit_operations_syntax

text \<open>
  Shared vocabulary of the development: the machine types of the C++ sources, the
  128-lane bit masks (\<open>std::array<uint64_t, 2>\<close>) that the predicate tracker, the nested
  discovery mode and the vector instruction register all use, counted loops with their
  invariant rule, and two interfaces as locales:

  \<^item> \<open>event_machine\<close>: a component driven by a list of calls that keeps an invariant;
  \<^item> \<open>commit_window\<close>: a controller whose observation window is closed after a bounded
    number of committed instructions.

  Conventions. \<open>uint64_t\<close>, \<open>Addr\<close>, \<open>RegVal\<close> and \<open>InstSeqNum\<close> are \<open>64 word\<close>; \<open>int64_t\<close> is
  \<open>64 word\<close> as well and is read with \<open>sint\<close> where the code compares it as signed;
  \<open>uint32_t\<close> and counters of type \<open>unsigned\<close> are \<open>32 word\<close>. An \<open>unsigned\<close> that is only an
  index, a lane number or an array length is a \<open>nat\<close>, and where such a value is added to
  before it is bounded the reduction modulo \<open>2 ^ 32\<close> is written out.
\<close>

section \<open>Machine types\<close>

type_synonym u8 = "8 word"
type_synonym u16 = "16 word"
type_synonym u32 = "32 word"
type_synonym u64 = "64 word"
type_synonym i64 = "64 word"
type_synonym addr = "64 word"
type_synonym reg_val = "64 word"
type_synonym inst_seq = "64 word"

named_theorems lane_simps \<open>reading and writing single lanes of a mask\<close>
named_theorems inv_intros \<open>operations preserve their component's invariant\<close>

section \<open>Words\<close>

lemma bit_one_shifted: "bit (push_bit n 1 :: 'a::len word) k \<longleftrightarrow> k = n \<and> n < LENGTH('a)"
  unfolding push_bit_of_1 bit_exp_iff by auto

lemma and_one_bit_iff:
  fixes w b :: "'a::len word"
  assumes "\<And>k. bit b k \<longleftrightarrow> k = n"
  shows "(w AND b \<noteq> 0) \<longleftrightarrow> bit w n"
proof
  assume "w AND b \<noteq> 0"
  moreover have "\<not> bit w n \<Longrightarrow> w AND b = 0"
    by (rule bit_eqI) (use assms in \<open>auto simp: bit_and_iff\<close>)
  ultimately show "bit w n" by blast
next
  assume "bit w n"
  with assms have "bit (w AND b) n" by (simp add: bit_and_iff)
  then show "w AND b \<noteq> 0" by (metis bit_0_eq bot_apply bot_bool_def)
qed

lemma unat_add_one:
  fixes w m :: "'a::len word"
  assumes "w < m"
  shows "unat (w + 1) = Suc (unat w)"
proof -
  have "w + 1 \<noteq> 0" using assms by (metis add_0 eq_neg_iff_add_eq_0 word_not_simps(3) diff_add_cancel diff_0)
  then show ?thesis by (metis unatSuc add.commute)
qed

section \<open>Lane masks\<close>

text \<open>\<open>using LaneMask = std::array<uint64_t, 2>\<close>: lane \<open>l\<close> is bit \<open>l % 64\<close> of word \<open>l / 64\<close>.\<close>

type_synonym lane_mask = "u64 list"

definition lane_bit :: "nat \<Rightarrow> u64" where
  "lane_bit l = push_bit (l mod 64) 1"

definition test_lane :: "lane_mask \<Rightarrow> nat \<Rightarrow> bool" where
  "test_lane m l \<longleftrightarrow> m ! (l div 64) AND lane_bit l \<noteq> 0"

definition set_lane :: "nat \<Rightarrow> lane_mask \<Rightarrow> lane_mask" where
  "set_lane l m = m[l div 64 := m ! (l div 64) OR lane_bit l]"

definition clear_lane :: "nat \<Rightarrow> lane_mask \<Rightarrow> lane_mask" where
  "clear_lane l m = m[l div 64 := m ! (l div 64) AND NOT (lane_bit l)]"

definition empty_mask :: lane_mask where
  "empty_mask = [0, 0]"

definition lane_set :: "lane_mask \<Rightarrow> nat set" where
  "lane_set m = {l. l < 128 \<and> test_lane m l}"

lemma length_set_lane [simp]: "length (set_lane l m) = length m"
  by (simp add: set_lane_def)

lemma length_clear_lane [simp]: "length (clear_lane l m) = length m"
  by (simp add: clear_lane_def)

lemma length_empty_mask [simp]: "length empty_mask = 2"
  by (simp add: empty_mask_def)

lemma bit_lane_bit [lane_simps]: "bit (lane_bit l) k \<longleftrightarrow> k = l mod 64"
  unfolding lane_bit_def bit_one_shifted by auto

lemma test_lane_bit: "test_lane m l \<longleftrightarrow> bit (m ! (l div 64)) (l mod 64)"
  unfolding test_lane_def by (rule and_one_bit_iff) (rule bit_lane_bit)

lemma lane_index: "l < 128 \<Longrightarrow> l div 64 < 2" for l :: nat
  by simp

lemma lane_split: "l = l' \<longleftrightarrow> l div 64 = l' div 64 \<and> l mod 64 = l' mod 64" for l l' :: nat
  by (metis div_mult_mod_eq)

lemma test_set_lane [lane_simps]:
  assumes "length m = 2" and "l < 128" and "l' < 128"
  shows "test_lane (set_lane l m) l' \<longleftrightarrow> l' = l \<or> test_lane m l'"
proof -
  have "l div 64 < length m" "l' div 64 < length m"
    using assms by (simp_all add: lane_index)
  then show ?thesis
    by (auto simp: test_lane_bit set_lane_def nth_list_update bit_or_iff bit_lane_bit
        lane_split [of l' l])
qed

lemma test_clear_lane [lane_simps]:
  assumes "length m = 2" and "l < 128" and "l' < 128"
  shows "test_lane (clear_lane l m) l' \<longleftrightarrow> l' \<noteq> l \<and> test_lane m l'"
proof -
  have "l div 64 < length m" "l' div 64 < length m"
    using assms by (simp_all add: lane_index)
  then show ?thesis
    by (auto simp: test_lane_bit clear_lane_def nth_list_update bit_and_iff bit_not_iff
        bit_lane_bit lane_split [of l' l])
qed

text \<open>The same for masks of any number of words, and undoing a write.\<close>

lemma test_set_lane_word:
  assumes "l div 64 < length m"
  shows "test_lane (set_lane l m) l' \<longleftrightarrow> l' = l \<or> test_lane m l'"
  using assms lane_split [of l' l]
  by (cases "l' div 64 = l div 64") (auto simp: test_lane_bit set_lane_def bit_or_iff bit_lane_bit)

lemma test_clear_lane_word:
  assumes "l div 64 < length m"
  shows "test_lane (clear_lane l m) l' \<longleftrightarrow> l' \<noteq> l \<and> test_lane m l'"
  using assms lane_split [of l' l]
  by (cases "l' div 64 = l div 64")
    (auto simp: test_lane_bit clear_lane_def bit_and_iff bit_not_iff bit_lane_bit)

lemma clear_set_lane:
  assumes "\<not> test_lane m l"
  shows "clear_lane l (set_lane l m) = m"
proof (cases "l div 64 < length m")
  case True
  have "(m ! (l div 64) OR lane_bit l) AND NOT (lane_bit l) = m ! (l div 64)"
    by (rule bit_eqI) (use assms in \<open>auto simp: test_lane_bit bit_and_iff bit_or_iff bit_not_iff bit_lane_bit\<close>)
  with True show ?thesis by (simp add: clear_lane_def set_lane_def)
qed (simp add: clear_lane_def set_lane_def list_update_beyond)

lemma test_replicate_zero: "l div 64 < n \<Longrightarrow> \<not> test_lane (replicate n 0) l"
  by (simp add: test_lane_def)

lemma test_empty_mask [lane_simps]: "l < 128 \<Longrightarrow> \<not> test_lane empty_mask l"
  by (auto simp: test_lane_def empty_mask_def nth_Cons' lane_index)

lemma lane_set_empty [lane_simps]: "lane_set empty_mask = {}"
  by (auto simp: lane_set_def lane_simps)

lemma lane_set_set [lane_simps]:
  "length m = 2 \<Longrightarrow> l < 128 \<Longrightarrow> lane_set (set_lane l m) = insert l (lane_set m)"
  by (auto simp: lane_set_def lane_simps)

lemma lane_set_clear [lane_simps]:
  "length m = 2 \<Longrightarrow> l < 128 \<Longrightarrow> lane_set (clear_lane l m) = lane_set m - {l}"
  by (auto simp: lane_set_def lane_simps)

lemma mem_lane_set: "l < 128 \<Longrightarrow> l \<in> lane_set m \<longleftrightarrow> test_lane m l"
  by (simp add: lane_set_def)

lemma lane_set_bound: "lane_set m \<subseteq> {..<128}"
  by (auto simp: lane_set_def)

lemma mask_nonempty_iff:
  assumes "length m = 2"
  shows "(m ! 0 \<noteq> 0 \<or> m ! 1 \<noteq> 0) \<longleftrightarrow> lane_set m \<noteq> {}"
proof
  assume "m ! 0 \<noteq> 0 \<or> m ! 1 \<noteq> 0"
  then obtain w where "w < 2" "m ! w \<noteq> 0" by (auto simp: numeral_2_eq_2 less_Suc_eq)
  then obtain n where "bit (m ! w) n" by (auto simp: bit_eq_iff)
  then have "n < 64" using bit_imp_le_length by fastforce
  have "(64 * w + n) div 64 = w" "(64 * w + n) mod 64 = n" "64 * w + n < 128"
    using \<open>n < 64\<close> \<open>w < 2\<close> by auto
  with \<open>bit (m ! w) n\<close> have "64 * w + n \<in> lane_set m"
    by (simp add: lane_set_def test_lane_bit)
  then show "lane_set m \<noteq> {}" by blast
next
  assume "lane_set m \<noteq> {}"
  then obtain l where "l < 128" "bit (m ! (l div 64)) (l mod 64)"
    by (auto simp: lane_set_def test_lane_bit)
  moreover from \<open>l < 128\<close> have "l div 64 = 0 \<or> l div 64 = 1" by auto
  ultimately show "m ! 0 \<noteq> 0 \<or> m ! 1 \<noteq> 0" by auto
qed

section \<open>Counted loops\<close>

text \<open>
  A C++ loop \<open>for (i = a; i < b; ++i) body\<close> is \<open>fold body [a..<b]\<close>; a search loop that
  leaves at the first hit is \<open>List.find\<close> on the same interval.
\<close>

lemma fold_inv:
  assumes "P s" and "\<And>x s. x \<in> set xs \<Longrightarrow> P s \<Longrightarrow> P (f x s)"
  shows "P (fold f xs s)"
  using assms by (induction xs arbitrary: s) auto

lemma fold_upt_inv:
  assumes "P a s" and "\<And>i s. a \<le> i \<Longrightarrow> i < b \<Longrightarrow> P i s \<Longrightarrow> P (Suc i) (f i s)" and "a \<le> b"
  shows "P b (fold f [a..<b] s)"
  using assms(3,1,2)
proof (induction b rule: dec_induct)
  case base
  then show ?case by simp
next
  case (step n)
  then have "P n (fold f [a..<n] s)" by simp
  with step show ?case by simp
qed

lemma nth_update_if: "j < length xs \<Longrightarrow> xs[i := x] ! j = (if j = i then x else xs ! j)"
  by (auto simp: nth_list_update)

text \<open>A loop that fills a part of an array.\<close>

lemma fold_update_nth:
  assumes "b \<le> length xs"
  shows "length (fold (\<lambda>i ys. ys[i := f i]) [a..<b] xs) = length xs \<and>
    (\<forall>j < length xs. fold (\<lambda>i ys. ys[i := f i]) [a..<b] xs ! j = (if a \<le> j \<and> j < b then f j else xs ! j))"
  using assms
proof (induction b)
  case 0
  then show ?case by simp
next
  case (Suc b)
  show ?case
  proof (cases "a \<le> b")
    case True
    with Suc show ?thesis by (auto simp: nth_list_update less_Suc_eq)
  qed (use Suc in auto)
qed

text \<open>A loop that rewrites some elements in place.\<close>

lemma fold_map_update:
  assumes "n \<le> length us"
  shows "length (fold (\<lambda>i us. if P (us ! i) i then us[i := g i (us ! i)] else us) [0..<n] us) = length us \<and>
    (\<forall>j < length us. fold (\<lambda>i us. if P (us ! i) i then us[i := g i (us ! i)] else us) [0..<n] us ! j =
      (if j < n \<and> P (us ! j) j then g j (us ! j) else us ! j))"
  using assms
proof (induction n)
  case (Suc n)
  then show ?case by (auto simp: nth_update_if less_Suc_eq)
qed simp

text \<open>A loop that remembers its last hit and counts the hits.\<close>

lemma fold_last_count:
  "fold (\<lambda>i (m, c). if P i then (i, Suc c) else (m, c)) [0..<n] (m, 0) =
   (if {i. i < n \<and> P i} = {} then m else Max {i. i < n \<and> P i}, card {i. i < n \<and> P i})"
proof (induction n)
  case 0
  then show ?case by simp
next
  case (Suc n)
  show ?case
  proof (cases "P n")
    case True
    then have "{i. i < Suc n \<and> P i} = insert n {i. i < n \<and> P i}" by (auto simp: less_Suc_eq)
    moreover have "Max (insert n {i. i < n \<and> P i}) = n" by (rule Max_eqI) auto
    ultimately show ?thesis using Suc.IH True by simp
  next
    case False
    then have "{i. i < Suc n \<and> P i} = {i. i < n \<and> P i}" by (auto simp: less_Suc_eq)
    then show ?thesis using Suc.IH False by (auto simp: less_Suc_eq)
  qed
qed

lemma fold_count:
  "fold (\<lambda>i c. if P i then Suc c else c) [0..<n] 0 = card {i. i < n \<and> P i}"
proof (induction n)
  case 0
  then show ?case by simp
next
  case (Suc n)
  have "{i. i < Suc n \<and> P i} = (if P n then insert n {i. i < n \<and> P i} else {i. i < n \<and> P i})"
    by (auto simp: less_Suc_eq)
  then show ?case using Suc.IH by simp
qed

lemma find_upt_Some:
  "List.find P [a..<b] = Some i \<longleftrightarrow> a \<le> i \<and> i < b \<and> P i \<and> (\<forall>j. a \<le> j \<and> j < i \<longrightarrow> \<not> P j)"
proof -
  have "List.find P [a..<b] = Some i \<longleftrightarrow>
      (\<exists>n < b - a. P (a + n) \<and> i = a + n \<and> (\<forall>j < n. \<not> P (a + j)))"
    by (auto simp: find_Some_iff)
  also have "\<dots> \<longleftrightarrow> a \<le> i \<and> i < b \<and> P i \<and> (\<forall>j < i - a. \<not> P (a + j))"
    by (auto intro!: exI [of _ "i - a"])
  also have "\<dots> \<longleftrightarrow> a \<le> i \<and> i < b \<and> P i \<and> (\<forall>j. a \<le> j \<and> j < i \<longrightarrow> \<not> P j)"
    by (metis add.commute add_diff_inverse_nat le_add1 less_diff_conv linorder_not_less)
  finally show ?thesis .
qed

lemma find_upt_None:
  "List.find P [a..<b] = None \<longleftrightarrow> (\<forall>j. a \<le> j \<and> j < b \<longrightarrow> \<not> P j)"
  by (auto simp: find_None_iff)

section \<open>Interfaces\<close>

text \<open>
  A component is a state and a step function over the calls its clients make. What every
  client relies on is that the invariant of the component holds after any sequence of
  calls; this is proved once here.
\<close>

locale event_machine =
  fixes step :: "'ev \<Rightarrow> 's \<Rightarrow> 's" and inv :: "'s \<Rightarrow> bool"
  assumes step_inv: "inv s \<Longrightarrow> inv (step e s)"
begin

lemma run_inv: "inv s \<Longrightarrow> inv (fold step es s)"
  by (induction es arbitrary: s) (auto intro: step_inv)

end

text \<open>
  The same with a ghost measurement: a relation between the state and the number of
  calls made so far, which the step preserves while it advances the count by one.
\<close>

locale counted_machine =
  fixes step :: "'ev \<Rightarrow> 's \<Rightarrow> 's" and inv :: "nat \<Rightarrow> 's \<Rightarrow> bool"
  assumes step_count: "inv n s \<Longrightarrow> inv (Suc n) (step e s)"
begin

lemma run_count: "inv n s \<Longrightarrow> inv (n + length es) (fold step es s)"
proof (induction es arbitrary: n s)
  case Nil
  then show ?case by simp
next
  case (Cons e es)
  from step_count [OF Cons.prems] have "inv (Suc n + length es) (fold step es (step e s))"
    by (rule Cons.IH)
  then show ?case by simp
qed

end

text \<open>
  A discovery controller: while its window is open, every committed instruction either
  closes the window or uses up one unit of a budget. The client's guarantee is that no
  discovery stays open for more commits than the budget it was opened with.
\<close>

locale commit_window =
  fixes commit :: "'ev \<Rightarrow> 's \<Rightarrow> 's" and window_open :: "'s \<Rightarrow> bool" and budget :: "'s \<Rightarrow> nat"
    and ok :: "'ev \<Rightarrow> 's \<Rightarrow> bool" and inv :: "'s \<Rightarrow> bool"
  assumes budget_pos: "inv s \<Longrightarrow> window_open s \<Longrightarrow> 0 < budget s"
    and commit_inv: "inv s \<Longrightarrow> window_open s \<Longrightarrow> ok e s \<Longrightarrow> inv (commit e s)"
    and commit_budget: "inv s \<Longrightarrow> window_open s \<Longrightarrow> ok e s \<Longrightarrow> window_open (commit e s) \<Longrightarrow>
      budget (commit e s) < budget s"
begin

fun all_ok :: "'ev list \<Rightarrow> 's \<Rightarrow> bool" where
  "all_ok [] s = True"
| "all_ok (e # es) s = (ok e s \<and> all_ok es (commit e s))"

fun stays_open :: "'ev list \<Rightarrow> 's \<Rightarrow> bool" where
  "stays_open [] s = window_open s"
| "stays_open (e # es) s = (window_open s \<and> stays_open es (commit e s))"

lemma window_closes:
  "inv s \<Longrightarrow> all_ok es s \<Longrightarrow> stays_open es s \<Longrightarrow> length es < budget s"
proof (induction es arbitrary: s)
  case Nil
  then show ?case by (simp add: budget_pos)
next
  case (Cons e es)
  from Cons.prems have "inv (commit e s)" by (simp add: commit_inv)
  with Cons have "length es < budget (commit e s)" by simp
  moreover have "window_open (commit e s)"
    using Cons.prems(3) by (cases es) auto
  ultimately show ?case
    using Cons.prems commit_budget [of s e] by simp
qed

end

text \<open>
  A component whose dispatch-side updates are logged with their sequence numbers, so that a
  squash can undo those of the removed instructions. From the laws of one update and one
  squash it follows that squashing after a run in sequence order is the run of the surviving
  instructions alone.
\<close>

locale speculative_log =
  fixes exec :: "'ev \<Rightarrow> 's \<Rightarrow> 's" and seq :: "'ev \<Rightarrow> inst_seq" and logged :: "'s \<Rightarrow> inst_seq set"
    and squash :: "inst_seq \<Rightarrow> 's \<Rightarrow> 's"
  assumes squash_none: "(\<And>x. x \<in> logged s \<Longrightarrow> x < q) \<Longrightarrow> squash q s = s"
    and squash_undo: "q \<le> seq e \<Longrightarrow> squash q (exec e s) = squash q s"
    and exec_logged: "logged (exec e s) \<subseteq> insert (seq e) (logged s)"
begin

lemma run_logged: "logged (fold exec es s) \<subseteq> seq ` set es \<union> logged s"
proof (induction es arbitrary: s)
  case (Cons e es)
  have "logged (fold exec es (exec e s)) \<subseteq> seq ` set es \<union> logged (exec e s)" by (rule Cons.IH)
  with exec_logged [of e s] show ?case by auto
qed simp

lemma squash_run:
  assumes "\<And>x. x \<in> logged s \<Longrightarrow> x < q" and "sorted (map seq es)"
  shows "squash q (fold exec es s) = fold exec (filter (\<lambda>e. seq e < q) es) s"
  using assms(2)
proof (induction es rule: rev_induct)
  case Nil
  then show ?case by (simp add: squash_none assms(1))
next
  case (snoc e es)
  show ?case
  proof (cases "seq e < q")
    case True
    with snoc.prems have all: "\<forall>x \<in> set (es @ [e]). seq x < q"
      by (auto simp: sorted_append intro: le_less_trans)
    then have "\<And>x. x \<in> logged (fold exec (es @ [e]) s) \<Longrightarrow> x < q"
      using run_logged [of "es @ [e]" s] assms(1) by blast
    then have "squash q (fold exec (es @ [e]) s) = fold exec (es @ [e]) s" by (rule squash_none)
    moreover have "filter (\<lambda>e. seq e < q) (es @ [e]) = es @ [e]" using all by (simp add: filter_id_conv)
    ultimately show ?thesis by simp
  next
    case False
    with snoc show ?thesis by (simp add: squash_undo sorted_append)
  qed
qed

end

end
