(* ===== verification/DVR_Predicate.thy ===== *)
theory DVR_Predicate
  imports DVR_Prelude
begin

unbundle bit_operations_syntax

text \<open>
  \<open>DVRLanePredicateTracker\<close> (\<open>src/code/gem5-runahead-dev-pre/src/cpu/o3/dvr_predicate.hh\<close> and
  \<open>.cc\<close>): collects the values returned by the source loads of a helper into per-path lane
  masks. A lane is put on a path only when exactly one learned (mask, pattern) pair
  matches the value it received.

  The arrays of the class are lists of their fixed length; \<open>tracker_shape\<close> states it and
  every operation keeps it. The main result characterises the masks after any sequence
  of responses by the first value each lane received.
\<close>

section \<open>Model\<close>

definition Predicate_MaxLanes :: nat where
  "Predicate_MaxLanes = 128"

definition Predicate_MaxPaths :: nat where
  "Predicate_MaxPaths = 4"

datatype observation = Selected | NoMatch | Ambiguous | Duplicate | InvalidLane

record lane_predicate_tracker =
  pt_lanes :: nat
  pt_paths :: nat
  pt_masks :: "u64 list"
  pt_patterns :: "u64 list"
  pt_selected :: "lane_mask list"
  pt_unmatched :: lane_mask
  pt_observed :: lane_mask

definition Predicate_initial :: lane_predicate_tracker where
  "Predicate_initial = \<lparr>
     pt_lanes = 0,
     pt_paths = 0,
     pt_masks = replicate Predicate_MaxPaths 0,
     pt_patterns = replicate Predicate_MaxPaths 0,
     pt_selected = replicate Predicate_MaxPaths empty_mask,
     pt_unmatched = empty_mask,
     pt_observed = empty_mask\<rparr>"

definition Predicate_reset :: "lane_predicate_tracker \<Rightarrow> lane_predicate_tracker" where
  "Predicate_reset t = t\<lparr>
     pt_lanes := 0,
     pt_paths := 0,
     pt_masks := replicate Predicate_MaxPaths 0,
     pt_patterns := replicate Predicate_MaxPaths 0,
     pt_selected := replicate Predicate_MaxPaths empty_mask,
     pt_unmatched := empty_mask,
     pt_observed := empty_mask\<rparr>"

definition Predicate_begin ::
    "nat \<Rightarrow> nat \<Rightarrow> u64 list \<Rightarrow> u64 list \<Rightarrow> lane_predicate_tracker \<Rightarrow> lane_predicate_tracker" where
  "Predicate_begin requested_lanes requested_paths path_masks path_patterns t0 =
     (let t = Predicate_reset t0;
          lanes = min requested_lanes Predicate_MaxLanes;
          paths = min requested_paths Predicate_MaxPaths;
          patterns = fold (\<lambda>path ps. ps[path := ps ! path AND path_masks ! path])
                       [0..<paths] path_patterns
      in t\<lparr>pt_lanes := lanes, pt_paths := paths, pt_masks := path_masks, pt_patterns := patterns\<rparr>)"

text \<open>The matching loop of \<open>observe\<close>: the last matching path and the number of matches.\<close>

definition Predicate_match :: "lane_predicate_tracker \<Rightarrow> u64 \<Rightarrow> nat \<times> nat" where
  "Predicate_match t value =
     fold (\<lambda>path (match, matches).
         if pt_paths t > 1 \<and> pt_masks t ! path = 0 then (match, matches)
         else if value AND pt_masks t ! path = pt_patterns t ! path then (path, Suc matches)
         else (match, matches))
       [0..<pt_paths t] (Predicate_MaxPaths, 0)"

definition Predicate_observe ::
    "nat \<Rightarrow> u64 \<Rightarrow> lane_predicate_tracker \<Rightarrow> observation \<times> lane_predicate_tracker" where
  "Predicate_observe lane value t =
     (if lane \<ge> pt_lanes t then (InvalidLane, t)
      else if test_lane (pt_observed t) lane then (Duplicate, t)
      else
        (let t = t\<lparr>pt_observed := set_lane lane (pt_observed t)\<rparr>;
             (match, matches) = Predicate_match t value
         in if matches \<noteq> 1 then
              (if matches = 0 then NoMatch else Ambiguous,
               t\<lparr>pt_unmatched := set_lane lane (pt_unmatched t)\<rparr>)
            else
              (Selected,
               t\<lparr>pt_selected := (pt_selected t)[match := set_lane lane (pt_selected t ! match)]\<rparr>)))"

text \<open>\<open>pathMask\<close> asserts its argument; a failed assertion is \<open>None\<close>.\<close>

definition Predicate_pathMask :: "lane_predicate_tracker \<Rightarrow> nat \<Rightarrow> lane_mask option" where
  "Predicate_pathMask t path = (if path < pt_paths t then Some (pt_selected t ! path) else None)"

definition Predicate_selectedPaths :: "lane_predicate_tracker \<Rightarrow> nat" where
  "Predicate_selectedPaths t =
     fold (\<lambda>path count.
         if pt_selected t ! path ! 0 \<noteq> 0 \<or> pt_selected t ! path ! 1 \<noteq> 0 then Suc count else count)
       [0..<pt_paths t] 0"

definition Predicate_divergent :: "lane_predicate_tracker \<Rightarrow> bool" where
  "Predicate_divergent t \<longleftrightarrow> Predicate_selectedPaths t > 1"

section \<open>What a value selects\<close>

text \<open>Path \<open>p\<close> matches \<open>v\<close> when its discriminator is usable and agrees with its pattern.\<close>

definition path_matches :: "lane_predicate_tracker \<Rightarrow> u64 \<Rightarrow> nat \<Rightarrow> bool" where
  "path_matches t v p \<longleftrightarrow>
     \<not> (pt_paths t > 1 \<and> pt_masks t ! p = 0) \<and> v AND pt_masks t ! p = pt_patterns t ! p"

definition matching_paths :: "lane_predicate_tracker \<Rightarrow> u64 \<Rightarrow> nat set" where
  "matching_paths t v = {p. p < pt_paths t \<and> path_matches t v p}"

lemma finite_matching_paths [simp]: "finite (matching_paths t v)"
  by (simp add: matching_paths_def)

lemma Predicate_match_eq:
  "Predicate_match t v =
   (if matching_paths t v = {} then Predicate_MaxPaths else Max (matching_paths t v),
    card (matching_paths t v))"
proof -
  have "(\<lambda>path (match, matches).
         if pt_paths t > 1 \<and> pt_masks t ! path = 0 then (match, matches)
         else if v AND pt_masks t ! path = pt_patterns t ! path then (path, Suc matches)
         else (match, matches)) =
       (\<lambda>path (match, matches). if path_matches t v path then (path, Suc matches) else (match, matches))"
    by (auto simp: fun_eq_iff path_matches_def)
  then show ?thesis
    unfolding Predicate_match_def matching_paths_def by (simp only: fold_last_count)
qed

lemma Predicate_match_count: "snd (Predicate_match t v) = card (matching_paths t v)"
  by (simp add: Predicate_match_eq)

lemma Predicate_match_unique: "matching_paths t v = {p} \<Longrightarrow> Predicate_match t v = (p, 1)"
  by (simp add: Predicate_match_eq)

lemma Predicate_match_cong:
  "Predicate_match (t\<lparr>pt_observed := m\<rparr>) v = Predicate_match t v"
  by (simp add: Predicate_match_def cong: if_cong)

lemma matching_paths_frame [simp]:
  "matching_paths (t\<lparr>pt_observed := m\<rparr>) v = matching_paths t v"
  "matching_paths (t\<lparr>pt_selected := ms\<rparr>) v = matching_paths t v"
  "matching_paths (t\<lparr>pt_unmatched := m\<rparr>) v = matching_paths t v"
  by (simp_all add: matching_paths_def path_matches_def)

lemma card_one_matching: "card (matching_paths t v) = 1 \<longleftrightarrow> (\<exists>p. matching_paths t v = {p})"
  by (simp add: card_1_singleton_iff)

section \<open>Shape invariant\<close>

definition tracker_shape :: "lane_predicate_tracker \<Rightarrow> bool" where
  "tracker_shape t \<longleftrightarrow>
     pt_lanes t \<le> 128 \<and> pt_paths t \<le> 4 \<and> length (pt_masks t) = 4 \<and> length (pt_patterns t) = 4 \<and>
     length (pt_selected t) = 4 \<and> (\<forall>p < 4. length (pt_selected t ! p) = 2) \<and>
     length (pt_unmatched t) = 2 \<and> length (pt_observed t) = 2"

lemma length_fold_update: "length (fold (\<lambda>i ps. ps[i := f i ps]) is ps) = length ps"
  by (induction "is" arbitrary: ps) auto

lemma tracker_shape_begin [inv_intros]:
  "length ms = 4 \<Longrightarrow> length ps = 4 \<Longrightarrow> tracker_shape (Predicate_begin l n ms ps t)"
  by (auto simp: tracker_shape_def Predicate_begin_def Predicate_reset_def Let_def
      Predicate_MaxLanes_def Predicate_MaxPaths_def length_fold_update)

lemma matching_paths_less:
  "tracker_shape t \<Longrightarrow> matching_paths t v = {p} \<Longrightarrow> p < pt_paths t \<and> p < 4"
  unfolding tracker_shape_def matching_paths_def by auto

text \<open>The four outcomes of \<open>observe\<close>, with the state each leaves behind.\<close>

lemma Predicate_observe_invalid:
  "pt_lanes t \<le> l \<Longrightarrow> Predicate_observe l v t = (InvalidLane, t)"
  by (simp add: Predicate_observe_def)

lemma Predicate_observe_duplicate:
  "l < pt_lanes t \<Longrightarrow> test_lane (pt_observed t) l \<Longrightarrow> Predicate_observe l v t = (Duplicate, t)"
  by (simp add: Predicate_observe_def)

lemma Predicate_observe_selected:
  assumes "l < pt_lanes t" "\<not> test_lane (pt_observed t) l" "matching_paths t v = {p}"
  shows "Predicate_observe l v t =
    (Selected, t\<lparr>pt_observed := set_lane l (pt_observed t),
                 pt_selected := (pt_selected t)[p := set_lane l (pt_selected t ! p)]\<rparr>)"
  using assms by (simp add: Predicate_observe_def Let_def Predicate_match_cong
      Predicate_match_unique)

lemma Predicate_observe_unmatched:
  assumes "l < pt_lanes t" "\<not> test_lane (pt_observed t) l" "card (matching_paths t v) \<noteq> 1"
  shows "Predicate_observe l v t =
    (if matching_paths t v = {} then NoMatch else Ambiguous,
     t\<lparr>pt_observed := set_lane l (pt_observed t), pt_unmatched := set_lane l (pt_unmatched t)\<rparr>)"
proof -
  have "card (matching_paths t v) = 0 \<longleftrightarrow> matching_paths t v = {}" by simp
  then show ?thesis
    using assms by (simp add: Predicate_observe_def Let_def Predicate_match_cong
        Predicate_match_count case_prod_beta del: card_0_eq)
qed

lemmas Predicate_observe_cases =
  Predicate_observe_invalid Predicate_observe_duplicate
  Predicate_observe_selected Predicate_observe_unmatched

lemma observe_branches:
  obtains "pt_lanes t \<le> l"
  | "l < pt_lanes t" "test_lane (pt_observed t) l"
  | p where "l < pt_lanes t" "\<not> test_lane (pt_observed t) l" "matching_paths t v = {p}"
  | "l < pt_lanes t" "\<not> test_lane (pt_observed t) l" "card (matching_paths t v) \<noteq> 1"
  using card_one_matching [of t v] by (meson not_less)

definition Predicate_response :: "nat \<times> u64 \<Rightarrow> lane_predicate_tracker \<Rightarrow> lane_predicate_tracker" where
  "Predicate_response r t = snd (Predicate_observe (fst r) (snd r) t)"

lemma tracker_shape_response [inv_intros]:
  assumes "tracker_shape t"
  shows "tracker_shape (Predicate_response r t)"
proof (cases rule: observe_branches [where t = t and l = "fst r" and v = "snd r"])
  case (3 p)
  then show ?thesis using assms matching_paths_less [OF assms 3(3)]
    by (auto simp: Predicate_response_def Predicate_observe_cases tracker_shape_def nth_list_update)
qed (use assms in \<open>auto simp: Predicate_response_def Predicate_observe_cases tracker_shape_def\<close>)

interpretation lane_predicate: event_machine Predicate_response tracker_shape
  by unfold_locales (rule tracker_shape_response)

lemma response_config:
  "pt_lanes (Predicate_response r t) = pt_lanes t"
  "pt_paths (Predicate_response r t) = pt_paths t"
  "pt_masks (Predicate_response r t) = pt_masks t"
  "pt_patterns (Predicate_response r t) = pt_patterns t"
  by (cases rule: observe_branches [where t = t and l = "fst r" and v = "snd r"];
      simp add: Predicate_response_def Predicate_observe_cases)+

lemma response_matching_paths: "matching_paths (Predicate_response r t) = matching_paths t"
  by (simp add: matching_paths_def path_matches_def response_config fun_eq_iff)

lemma responses_config:
  "pt_lanes (fold Predicate_response rs t) = pt_lanes t"
  "pt_paths (fold Predicate_response rs t) = pt_paths t"
  "matching_paths (fold Predicate_response rs t) = matching_paths t"
  by (induction rs arbitrary: t) (simp_all add: response_config response_matching_paths)

section \<open>Classification of the lanes\<close>

text \<open>
  \<open>classified t rs\<close>: the masks of \<open>t\<close> are determined by the first response of every lane
  in the response sequence \<open>rs\<close>.
\<close>

definition classified :: "lane_predicate_tracker \<Rightarrow> (nat \<times> u64) list \<Rightarrow> bool" where
  "classified t rs \<longleftrightarrow>
     lane_set (pt_observed t) = {l. l < pt_lanes t \<and> l \<in> dom (map_of rs)} \<and>
     lane_set (pt_unmatched t) =
       {l. l < pt_lanes t \<and> (\<exists>v. map_of rs l = Some v \<and> card (matching_paths t v) \<noteq> 1)} \<and>
     (\<forall>p < 4. lane_set (pt_selected t ! p) =
       {l. l < pt_lanes t \<and> (\<exists>v. map_of rs l = Some v \<and> matching_paths t v = {p})})"

lemma classified_begin:
  "classified (Predicate_begin l n ms ps t) []"
  by (auto simp: classified_def Predicate_begin_def Predicate_reset_def Let_def lane_simps
      Predicate_MaxPaths_def nth_Cons')

lemma map_of_snoc: "map_of (rs @ [(l, v)]) k = (if map_of rs k = None \<and> k = l then Some v else map_of rs k)"
  by (auto simp: map_add_def split: option.split)

lemma classified_skip:
  assumes "classified t rs" and "pt_lanes t \<le> l \<or> l \<in> dom (map_of rs)"
  shows "classified t (rs @ [(l, v)])"
proof -
  have same: "k < pt_lanes t \<Longrightarrow> map_of (rs @ [(l, v)]) k = map_of rs k" for k
    using assms(2) unfolding map_of_snoc by auto
  have "{k. k < pt_lanes t \<and> P (map_of (rs @ [(l, v)]) k)} = {k. k < pt_lanes t \<and> P (map_of rs k)}"
    for P
    using same by (intro Collect_cong) auto
  note eq = this [of "\<lambda>x. x \<noteq> None"] this [of "\<lambda>x. \<exists>v. x = Some v \<and> card (matching_paths t v) \<noteq> 1"]
    this [of "\<lambda>x. \<exists>v. x = Some v \<and> matching_paths t v = {p}" for p]
  show ?thesis
    using assms(1) unfolding classified_def domIff eq .
qed

lemma classified_fresh:
  assumes shape: "tracker_shape t" and cl: "classified t rs"
    and l: "l < pt_lanes t" "\<not> test_lane (pt_observed t) l"
  shows "classified (Predicate_response (l, v) t) (rs @ [(l, v)])"
proof -
  have l128: "l < 128" using shape l(1) by (simp add: tracker_shape_def)
  then have "l \<notin> lane_set (pt_observed t)" using l(2) by (simp add: mem_lane_set)
  then have fresh: "map_of rs l = None" using cl l(1) by (auto simp: classified_def)
  have lookup: "map_of (rs @ [(l, v)]) = (map_of rs)(l \<mapsto> v)"
    using fresh unfolding fun_eq_iff map_of_snoc by auto
  have config: "matching_paths (Predicate_response (l, v) t) = matching_paths t"
    "pt_lanes (Predicate_response (l, v) t) = pt_lanes t"
    using responses_config [of "[(l, v)]" t] by simp_all
  have shape': "length (pt_observed t) = 2" "length (pt_unmatched t) = 2"
    "\<And>p. p < 4 \<Longrightarrow> length (pt_selected t ! p) = 2" "length (pt_selected t) = 4"
    using shape by (auto simp: tracker_shape_def)
  note old = cl [unfolded classified_def]
  note upd = Predicate_response_def l shape' l128 lane_set_set lookup config
  show ?thesis
  proof (cases "\<exists>p. matching_paths t v = {p}")
    case True
    then obtain p where p: "matching_paths t v = {p}" by blast
    then have "p < 4" using matching_paths_less [OF shape p] by simp
    show ?thesis
      unfolding classified_def
    proof (intro conjI allI impI)
      show "lane_set (pt_observed (Predicate_response (l, v) t)) =
          {k. k < pt_lanes (Predicate_response (l, v) t) \<and> k \<in> dom (map_of (rs @ [(l, v)]))}"
        using old p by (auto simp del: map_of_append simp: upd Predicate_observe_selected [OF l p])
      show "lane_set (pt_unmatched (Predicate_response (l, v) t)) =
          {k. k < pt_lanes (Predicate_response (l, v) t) \<and> (\<exists>w. map_of (rs @ [(l, v)]) k = Some w \<and>
            card (matching_paths (Predicate_response (l, v) t) w) \<noteq> 1)}"
        using old p fresh by (auto simp del: map_of_append simp: upd Predicate_observe_selected [OF l p])
      show "lane_set (pt_selected (Predicate_response (l, v) t) ! q) =
          {k. k < pt_lanes (Predicate_response (l, v) t) \<and> (\<exists>w. map_of (rs @ [(l, v)]) k = Some w \<and>
            matching_paths (Predicate_response (l, v) t) w = {q})}" if "q < 4" for q
        using old p \<open>p < 4\<close> that fresh
        by (auto simp del: map_of_append simp: upd Predicate_observe_selected [OF l p] nth_list_update)
    qed
  next
    case False
    then have n1: "card (matching_paths t v) \<noteq> 1" using card_one_matching by blast
    show ?thesis
      unfolding classified_def
    proof (intro conjI allI impI)
      show "lane_set (pt_observed (Predicate_response (l, v) t)) =
          {k. k < pt_lanes (Predicate_response (l, v) t) \<and> k \<in> dom (map_of (rs @ [(l, v)]))}"
        using old by (auto simp del: map_of_append simp: upd Predicate_observe_unmatched [OF l n1])
      show "lane_set (pt_unmatched (Predicate_response (l, v) t)) =
          {k. k < pt_lanes (Predicate_response (l, v) t) \<and> (\<exists>w. map_of (rs @ [(l, v)]) k = Some w \<and>
            card (matching_paths (Predicate_response (l, v) t) w) \<noteq> 1)}"
        using old n1 by (auto simp del: map_of_append simp: upd Predicate_observe_unmatched [OF l n1])
      show "lane_set (pt_selected (Predicate_response (l, v) t) ! q) =
          {k. k < pt_lanes (Predicate_response (l, v) t) \<and> (\<exists>w. map_of (rs @ [(l, v)]) k = Some w \<and>
            matching_paths (Predicate_response (l, v) t) w = {q})}" if "q < 4" for q
        using old False that fresh
        by (auto simp del: map_of_append simp: upd Predicate_observe_unmatched [OF l n1])
    qed
  qed
qed

lemma classified_response:
  assumes shape: "tracker_shape t" and cl: "classified t rs"
  shows "classified (Predicate_response (l, v) t) (rs @ [(l, v)])"
proof (cases "pt_lanes t \<le> l \<or> test_lane (pt_observed t) l")
  case True
  then have "Predicate_response (l, v) t = t"
    by (auto simp: Predicate_response_def Predicate_observe_def)
  moreover have "pt_lanes t \<le> l \<or> l \<in> dom (map_of rs)"
    using True shape cl mem_lane_set [of l "pt_observed t"]
    by (auto simp: classified_def tracker_shape_def)
  ultimately show ?thesis using classified_skip [OF cl] by simp
next
  case False
  then show ?thesis using classified_fresh [OF shape cl] by simp
qed

lemma classified_responses:
  assumes "length ms = 4" and "length ps = 4"
  shows "classified (fold Predicate_response rs (Predicate_begin l n ms ps t)) rs"
proof (induction rs rule: rev_induct)
  case Nil
  then show ?case by (simp add: classified_begin)
next
  case (snoc r rs)
  have "tracker_shape (fold Predicate_response rs (Predicate_begin l n ms ps t))"
    by (rule lane_predicate.run_inv) (rule tracker_shape_begin [OF assms])
  with snoc show ?case by (cases r) (simp add: classified_response)
qed

section \<open>Properties\<close>

text \<open>
  C3. After \<open>begin\<close> and any sequence of source-load responses, a lane is in the mask of path
  \<open>p\<close> exactly when it is one of the tracker's lanes, has been observed, and \<open>p\<close> is the only
  path whose (mask, pattern) pair matches the \<^emph>\<open>first\<close> value returned for it; it is in the
  unmatched mask exactly when that first value matches no path or several.
\<close>

theorem lane_classification:
  fixes ms ps :: "u64 list" and rs :: "(nat \<times> u64) list"
  assumes ms: "length ms = 4" and ps: "length ps = 4"
    and t: "t = fold Predicate_response rs (Predicate_begin lanes paths ms ps t0)"
  shows "lane_set (pt_observed t) = {l. l < pt_lanes t \<and> l \<in> dom (map_of rs)} \<and>
    lane_set (pt_unmatched t) =
      {l. l < pt_lanes t \<and> (\<exists>v. map_of rs l = Some v \<and> card (matching_paths t v) \<noteq> 1)} \<and>
    (\<forall>p < pt_paths t. map_option lane_set (Predicate_pathMask t p) =
      Some {l. l < pt_lanes t \<and> (\<exists>v. map_of rs l = Some v \<and> matching_paths t v = {p})})"
proof -
  have "classified t rs"
    unfolding t by (rule classified_responses [OF ms ps])
  moreover have "tracker_shape t"
    unfolding t by (rule lane_predicate.run_inv) (rule tracker_shape_begin [OF ms ps])
  ultimately show ?thesis
    by (simp add: classified_def Predicate_pathMask_def tracker_shape_def)
qed

theorem lane_classification_witness:
  "map_option lane_set (Predicate_pathMask (fold Predicate_response [(0, 0x134), (1, 0x34), (0, 0)]
      (Predicate_begin 2 2 [0x100, 0x100, 0, 0] [0, 0x100, 0, 0] Predicate_initial)) 1) = Some {0}"
proof -
  let ?t0 = "Predicate_begin 2 2 [0x100, 0x100, 0, 0] [0, 0x100, 0, 0] Predicate_initial"
  have m: "matching_paths ?t0 0x134 = {1}" "matching_paths ?t0 0x34 = {0}"
    by (auto simp: matching_paths_def path_matches_def Predicate_begin_def Predicate_reset_def
        Let_def Predicate_MaxLanes_def Predicate_MaxPaths_def less_2_cases_iff upt_rec)
  have c: "pt_lanes ?t0 = 2" "pt_paths ?t0 = 2"
    by (simp_all add: Predicate_begin_def Predicate_reset_def Let_def Predicate_MaxLanes_def
        Predicate_MaxPaths_def)
  have look: "map_of [(0 :: nat, 0x134 :: u64), (1, 0x34), (0, 0)] 0 = Some 0x134"
    "map_of [(0 :: nat, 0x134 :: u64), (1, 0x34), (0, 0)] 1 = Some 0x34" by simp_all
  have "{l. l < 2 \<and> (\<exists>v. f l = Some v \<and> M v = {1 :: nat})} = {0}"
    if "f 0 = Some a" "f 1 = Some b" "M a = {1}" "M b = {0}" for f :: "nat \<Rightarrow> u64 option" and a b M
  proof -
    have "l < 2 \<and> (\<exists>v. f l = Some v \<and> M v = {1}) \<longleftrightarrow> l = 0" for l
      using that by (cases "l = 0"; cases "l = 1"; simp)
    then show ?thesis by (simp only: singleton_conv)
  qed
  note set = this [OF look m]
  have "map_option lane_set (Predicate_pathMask
      (fold Predicate_response [(0, 0x134), (1, 0x34), (0, 0)] ?t0) 1) =
    Some {l. l < pt_lanes ?t0 \<and> (\<exists>v. map_of [(0, 0x134), (1, 0x34), (0, 0)] l = Some v \<and>
      matching_paths ?t0 v = {1})}"
    using lane_classification [where rs = "[(0, 0x134), (1, 0x34), (0, 0)]" and lanes = 2 and paths = 2
        and ms = "[0x100, 0x100, 0, 0]" and ps = "[0, 0x100, 0, 0]" and ?t0.0 = Predicate_initial,
        OF _ _ refl, THEN conjunct2, THEN conjunct2, rule_format, of 1]
    unfolding responses_config c by simp
  then show ?thesis unfolding c set .
qed

text \<open>
  The result code of \<open>observe\<close> in every state, and its frame: lanes outside the tracker and
  lanes already observed are refused and change nothing; a new lane is \<open>Selected\<close> exactly when
  one path matches, \<open>NoMatch\<close> when none does and \<open>Ambiguous\<close> otherwise, and is then recorded
  as observed, so a second response for it is a \<open>Duplicate\<close>.
\<close>

lemma observe_outcome:
  assumes "tracker_shape t"
  shows "(pt_lanes t \<le> l \<longrightarrow> Predicate_observe l v t = (InvalidLane, t)) \<and>
    (l < pt_lanes t \<and> test_lane (pt_observed t) l \<longrightarrow> Predicate_observe l v t = (Duplicate, t)) \<and>
    (l < pt_lanes t \<and> \<not> test_lane (pt_observed t) l \<longrightarrow>
      fst (Predicate_observe l v t) =
        (if card (matching_paths t v) = 1 then Selected
         else if matching_paths t v = {} then NoMatch else Ambiguous) \<and>
      Predicate_observe l w (snd (Predicate_observe l v t)) = (Duplicate, snd (Predicate_observe l v t)))"
proof (cases rule: observe_branches [where t = t and l = l and v = v])
  case 1
  then show ?thesis by (simp add: Predicate_observe_invalid)
next
  case 2
  then show ?thesis by (simp add: Predicate_observe_duplicate)
next
  case (3 p)
  have "l < 128" "length (pt_observed t) = 2" using assms 3(1) by (auto simp: tracker_shape_def)
  then show ?thesis
    using 3 by (simp add: Predicate_observe_selected Predicate_observe_duplicate test_set_lane)
next
  case 4
  have "l < 128" "length (pt_observed t) = 2" using assms 4(1) by (auto simp: tracker_shape_def)
  then show ?thesis
    using 4 by (simp add: Predicate_observe_unmatched Predicate_observe_duplicate test_set_lane)
qed

text \<open>
  \<open>divergent()\<close> holds after a sequence of responses exactly when two observed lanes have
  selected different paths, and no lane is ever on two paths.
\<close>

lemma Predicate_selectedPaths_card:
  assumes "tracker_shape t"
  shows "Predicate_selectedPaths t = card {p. p < pt_paths t \<and> lane_set (pt_selected t ! p) \<noteq> {}}"
proof -
  have "p < pt_paths t \<Longrightarrow> length (pt_selected t ! p) = 2" for p
    using assms by (simp add: tracker_shape_def)
  then have "{p. p < pt_paths t \<and> lane_set (pt_selected t ! p) \<noteq> {}} =
      {p. p < pt_paths t \<and> (pt_selected t ! p ! 0 \<noteq> 0 \<or> pt_selected t ! p ! 1 \<noteq> 0)}"
    using mask_nonempty_iff by blast
  then show ?thesis unfolding Predicate_selectedPaths_def by (simp only: fold_count)
qed

lemma card_gt_one_iff: "finite A \<Longrightarrow> 1 < card A \<longleftrightarrow> (\<exists>x \<in> A. \<exists>y \<in> A. x \<noteq> y)"
  by (metis One_nat_def card_le_Suc0_iff_eq not_less)

theorem divergent_iff_two_paths:
  fixes ms ps :: "u64 list" and rs :: "(nat \<times> u64) list"
  assumes ms: "length ms = 4" and ps: "length ps = 4"
    and t: "t = fold Predicate_response rs (Predicate_begin lanes paths ms ps t0)"
  shows "(Predicate_divergent t \<longleftrightarrow>
      (\<exists>p q k l. p < pt_paths t \<and> q < pt_paths t \<and> p \<noteq> q \<and>
        k \<in> lane_set (pt_selected t ! p) \<and> l \<in> lane_set (pt_selected t ! q))) \<and>
    (\<forall>p < pt_paths t. \<forall>q < pt_paths t. p \<noteq> q \<longrightarrow>
      lane_set (pt_selected t ! p) \<inter> lane_set (pt_selected t ! q) = {})"
proof
  have cl: "classified t rs"
    unfolding t by (rule classified_responses [OF ms ps])
  have shape: "tracker_shape t"
    unfolding t by (rule lane_predicate.run_inv) (rule tracker_shape_begin [OF ms ps])
  show "Predicate_divergent t \<longleftrightarrow>
      (\<exists>p q k l. p < pt_paths t \<and> q < pt_paths t \<and> p \<noteq> q \<and>
        k \<in> lane_set (pt_selected t ! p) \<and> l \<in> lane_set (pt_selected t ! q))"
    unfolding Predicate_divergent_def Predicate_selectedPaths_card [OF shape]
    by (subst card_gt_one_iff) auto
  show "\<forall>p < pt_paths t. \<forall>q < pt_paths t. p \<noteq> q \<longrightarrow>
      lane_set (pt_selected t ! p) \<inter> lane_set (pt_selected t ! q) = {}"
    using cl shape by (auto simp: classified_def tracker_shape_def)
qed


end
