(* ===== verification/DVR_LRU.thy ===== *)
theory DVR_LRU
  imports DVR_Prelude
begin

text \<open>
  The recency list both LRU structures of the sources implement (the demand-only shadow
  cache of \<open>dvr_quality.cc\<close> and the stalling slice table of \<open>pre.cc\<close>): the most recently used
  key first, at most \<open>cap\<close> keys. The locale \<open>lru_store\<close> is the interface: a structure whose
  observable key list is updated by \<open>lru_touch\<close>. Its client theorem is the reuse-distance
  law of LRU, which every interpretation inherits.
\<close>

definition lru_touch :: "nat \<Rightarrow> 'k \<Rightarrow> 'k list \<Rightarrow> 'k list" where
  "lru_touch cap x xs = take cap (x # remove1 x xs)"

lemma lru_touch_hit:
  "distinct xs \<Longrightarrow> x \<in> set xs \<Longrightarrow> length xs \<le> cap \<Longrightarrow> lru_touch cap x xs = x # remove1 x xs"
  using length_pos_if_in_set [of x xs] by (auto simp: lru_touch_def length_remove1)

lemma lru_touch_miss:
  "x \<notin> set xs \<Longrightarrow> length xs \<le> cap \<Longrightarrow> 0 < cap \<Longrightarrow>
   lru_touch cap x xs = (if length xs < cap then x # xs else x # butlast xs)"
  by (cases cap) (auto simp: lru_touch_def remove1_idem butlast_conv_take)

lemma distinct_lru_touch [simp]: "distinct xs \<Longrightarrow> distinct (lru_touch cap x xs)"
  by (simp add: lru_touch_def)

lemma length_lru_touch: "length (lru_touch cap x xs) \<le> cap"
  by (simp add: lru_touch_def)

lemma set_lru_touch_subset: "set (lru_touch cap x xs) \<subseteq> insert x (set xs)"
  using set_take_subset [of cap "x # remove1 x xs"] set_remove1_subset [of x xs]
  by (auto simp: lru_touch_def)

text \<open>
  Where a key is after later touches: behind exactly the distinct keys touched since.
\<close>

definition behind :: "'k set \<Rightarrow> 'k \<Rightarrow> 'k list \<Rightarrow> bool" where
  "behind Y x l \<longleftrightarrow> distinct l \<and> (\<exists>pre post. l = pre @ x # post \<and> set pre = Y)"

lemma behind_start: "distinct l \<Longrightarrow> 0 < cap \<Longrightarrow> behind {} x (lru_touch cap x l)"
  unfolding behind_def using distinct_lru_touch [of l cap x]
  by (cases cap) (auto simp: lru_touch_def intro!: exI [of _ "[]"])

lemma behind_touch:
  assumes b: "behind Y x l" and y: "y \<noteq> x" and room: "card (insert y Y) < cap"
  shows "behind (insert y Y) x (lru_touch cap y l)"
proof -
  obtain pre post where l: "l = pre @ x # post" and Y: "set pre = Y" and d: "distinct l"
    using b by (auto simp: behind_def)
  let ?pre = "y # remove1 y pre"
  have dpre: "distinct pre" using d l by simp
  then have set: "set ?pre = insert y Y" using Y by auto
  moreover have "distinct ?pre" using dpre by simp
  ultimately have len: "length ?pre = card (insert y Y)" by (metis distinct_card)
  have "\<exists>post'. remove1 y l = remove1 y pre @ x # post'"
    using y l by (cases "y \<in> set pre") (auto simp: remove1_append remove1_idem)
  then obtain post' where "remove1 y l = remove1 y pre @ x # post'" by blast
  then have "lru_touch cap y l = take cap (?pre @ x # post')"
    by (simp add: lru_touch_def)
  also have "\<dots> = ?pre @ x # take (cap - length ?pre - 1) post'"
    using len room by (subst take_append) (auto simp: take_Cons' )
  finally have eq: "lru_touch cap y l = ?pre @ x # take (cap - length ?pre - 1) post'" .
  show ?thesis
    unfolding behind_def using distinct_lru_touch [OF d] set eq by blast
qed

lemma behind_evict:
  assumes b: "behind Y x l" and y: "y \<noteq> x" and full: "cap \<le> card (insert y Y)"
    and room: "card Y < cap"
  shows "x \<notin> set (lru_touch cap y l)"
proof -
  obtain pre post where l: "l = pre @ x # post" and Y: "set pre = Y" and d: "distinct l"
    using b by (auto simp: behind_def)
  have fin: "finite Y" using Y by auto
  then have "y \<notin> Y" using full room by (auto simp: insert_absorb)
  then have "length pre + 1 = card (insert y Y)" using fin Y d l
    by (simp add: distinct_card [symmetric])
  then have "cap \<le> length (y # pre)" using full by simp
  moreover have "remove1 y l = pre @ x # remove1 y post"
    using y l \<open>y \<notin> Y\<close> Y by (auto simp: remove1_append)
  ultimately have "lru_touch cap y l = take cap (y # pre)"
    by (simp add: lru_touch_def) (metis append_Cons append_Nil2 diff_is_0_eq' length_Cons take0 take_append)
  then show ?thesis using y d l set_take_subset [of cap "y # pre"] by auto
qed

lemma absent_stays_absent:
  "x \<notin> set l \<Longrightarrow> x \<notin> set ys \<Longrightarrow> x \<notin> set (fold (lru_touch cap) ys l)"
  by (induction ys arbitrary: l) (use set_lru_touch_subset in \<open>fastforce+\<close>)

lemma lru_fold_behind:
  assumes "distinct l" and "0 < cap" and "x \<notin> set ys"
  shows "(card (set ys) < cap \<longrightarrow> behind (set ys) x (fold (lru_touch cap) ys (lru_touch cap x l))) \<and>
    (cap \<le> card (set ys) \<longrightarrow> x \<notin> set (fold (lru_touch cap) ys (lru_touch cap x l)))"
  using assms(3)
proof (induction ys rule: rev_induct)
  case Nil
  then show ?case using assms by (simp add: behind_start)
next
  case (snoc y ys)
  let ?l = "fold (lru_touch cap) ys (lru_touch cap x l)"
  have y: "y \<noteq> x" and x: "x \<notin> set ys" using snoc.prems by auto
  note IH = snoc.IH [OF x]
  have ins: "set (ys @ [y]) = insert y (set ys)" by auto
  have mono: "card (set ys) \<le> card (insert y (set ys))" by (simp add: card_insert_le)
  show ?case
  proof (intro conjI impI)
    assume "card (set (ys @ [y])) < cap"
    then show "behind (set (ys @ [y])) x (fold (lru_touch cap) (ys @ [y]) (lru_touch cap x l))"
      using IH mono behind_touch [of "set ys" x ?l y cap] y ins by simp
  next
    assume "cap \<le> card (set (ys @ [y]))"
    then have full: "cap \<le> card (insert y (set ys))" by (simp only: ins)
    show "x \<notin> set (fold (lru_touch cap) (ys @ [y]) (lru_touch cap x l))"
    proof (cases "card (set ys) < cap")
      case True
      then show ?thesis using IH behind_evict [of "set ys" x ?l y cap] y full by simp
    next
      case False
      then have "x \<notin> set ?l" using IH by simp
      then show ?thesis using y set_lru_touch_subset [of cap y ?l] by auto
    qed
  qed
qed

theorem lru_reuse_distance:
  assumes "distinct l" and "0 < cap" and "x \<notin> set ys"
  shows "x \<in> set (fold (lru_touch cap) ys (lru_touch cap x l)) \<longleftrightarrow> card (set ys) < cap"
  using lru_fold_behind [OF assms] by (auto simp: behind_def not_less [symmetric])

section \<open>Interface of an LRU structure\<close>

text \<open>
  \<open>keys\<close> is the observable recency list (of one set, for a set-associative structure),
  \<open>relevant\<close> the keys that compete for it.
\<close>

locale lru_store =
  fixes touch :: "'k \<Rightarrow> 's \<Rightarrow> 's" and keys :: "'s \<Rightarrow> 'k list" and cap :: nat
    and relevant :: "'k \<Rightarrow> bool" and inv :: "'s \<Rightarrow> bool"
  assumes inv_touch: "inv s \<Longrightarrow> inv (touch x s)"
    and keys_touch: "inv s \<Longrightarrow>
      keys (touch x s) = (if relevant x then lru_touch cap x (keys s) else keys s)"
    and keys_distinct: "inv s \<Longrightarrow> distinct (keys s)"
    and cap_pos: "inv s \<Longrightarrow> 0 < cap"
begin

lemma inv_touches: "inv s \<Longrightarrow> inv (fold touch xs s)"
  by (induction xs arbitrary: s) (auto intro: inv_touch)

lemma keys_touches:
  "inv s \<Longrightarrow> keys (fold touch xs s) = fold (lru_touch cap) (filter relevant xs) (keys s)"
  by (induction xs arbitrary: s) (auto simp: keys_touch inv_touch)

lemma reuse_distance:
  assumes "inv s" and "relevant x" and "x \<notin> set ys"
  shows "x \<in> set (keys (fold touch ys (touch x s))) \<longleftrightarrow> card {y \<in> set ys. relevant y} < cap"
proof -
  have "keys (fold touch ys (touch x s)) =
      fold (lru_touch cap) (filter relevant ys) (lru_touch cap x (keys s))"
    using assms by (simp add: keys_touches inv_touch keys_touch)
  moreover have "{y \<in> set ys. relevant y} = set (filter relevant ys)" by auto
  ultimately show ?thesis
    using lru_reuse_distance [of "keys s" cap x "filter relevant ys"] assms
    by (simp add: keys_distinct cap_pos)
qed

end

end
