(* ===== verification/DVR_Quality.thy ===== *)
theory DVR_Quality
  imports DVR_LRU
begin

text \<open>
  \<open>DVRQualityTracker\<close> (\<open>src/code/gem5-runahead-dev-pre/src/cpu/o3/dvr_quality.hh\<close> and \<open>.cc\<close>):
  event-driven accounting of the helper's prefetches against a demand-only LRU shadow cache.

  \<open>std::unordered_map\<close> is a map, \<open>std::unordered_set\<close> a set, and the multimap
  \<open>outstandingByLine\<close> a list of (line, id) pairs; the order in which a real multimap keeps
  equal keys is unspecified, and no result below depends on it. Counters are \<open>64 word\<close>.
  Exceptions (\<open>std::logic_error\<close>, \<open>std::invalid_argument\<close>) are values of \<open>quality_error\<close>.
  The five \<open>double\<close> ratios are not modelled; the inequalities that keep them in the unit
  interval are.
\<close>

section \<open>Shadow cache\<close>

datatype quality_error =
    InvalidGeometry | DuplicateRequest | UnknownCompletion | IncompleteVictim

record shadow_cache =
  sc_sets :: "u64 list list"
  sc_ways :: nat
  sc_lineBytes :: u64

definition ShadowCache_new :: "nat \<Rightarrow> nat \<Rightarrow> u64 \<Rightarrow> quality_error + shadow_cache" where
  "ShadowCache_new set_count way_count line_bytes =
     (if set_count = 0 \<or> way_count = 0 \<or> line_bytes = 0 then Inl InvalidGeometry
      else Inr \<lparr>sc_sets = replicate set_count [], sc_ways = way_count, sc_lineBytes = line_bytes\<rparr>)"

definition ShadowCache_index :: "shadow_cache \<Rightarrow> u64 \<Rightarrow> nat" where
  "ShadowCache_index c line = unat (line div sc_lineBytes c) mod length (sc_sets c)"

definition ShadowCache_contains :: "shadow_cache \<Rightarrow> u64 \<Rightarrow> bool" where
  "ShadowCache_contains c line \<longleftrightarrow>
     List.find (\<lambda>candidate. candidate = line) (sc_sets c ! ShadowCache_index c line) \<noteq> None"

definition ShadowCache_access :: "u64 \<Rightarrow> shadow_cache \<Rightarrow> bool \<times> shadow_cache" where
  "ShadowCache_access line c =
     (let i = ShadowCache_index c line; s = sc_sets c ! i
      in if line \<in> set s then
           (True, c\<lparr>sc_sets := (sc_sets c)[i := line # remove1 line s]\<rparr>)
         else
           (let s = line # s;
                s = (if length s > sc_ways c then butlast s else s)
            in (False, c\<lparr>sc_sets := (sc_sets c)[i := s]\<rparr>)))"

definition ShadowCache_erase :: "u64 \<Rightarrow> shadow_cache \<Rightarrow> shadow_cache" where
  "ShadowCache_erase line c =
     (let i = ShadowCache_index c line
      in c\<lparr>sc_sets := (sc_sets c)[i := removeAll line (sc_sets c ! i)]\<rparr>)"

subsection \<open>Geometry invariant\<close>

definition shadow_ok :: "shadow_cache \<Rightarrow> bool" where
  "shadow_ok c \<longleftrightarrow> sc_sets c \<noteq> [] \<and> 0 < sc_ways c \<and> sc_lineBytes c \<noteq> 0 \<and>
     (\<forall>i < length (sc_sets c). distinct (sc_sets c ! i) \<and> length (sc_sets c ! i) \<le> sc_ways c \<and>
        (\<forall>l \<in> set (sc_sets c ! i). ShadowCache_index c l = i))"

lemma shadow_ok_new: "ShadowCache_new n w b = Inr c \<Longrightarrow> shadow_ok c"
  by (auto simp: ShadowCache_new_def shadow_ok_def split: if_splits)

lemma index_less: "shadow_ok c \<Longrightarrow> ShadowCache_index c l < length (sc_sets c)"
  by (simp add: ShadowCache_index_def shadow_ok_def)

lemma index_frame [simp]:
  "length ss = length (sc_sets c) \<Longrightarrow>
   ShadowCache_index (c\<lparr>sc_sets := ss\<rparr>) l = ShadowCache_index c l"
  by (simp add: ShadowCache_index_def)

text \<open>An access is an LRU touch of the set the line maps to, and leaves every other set alone.\<close>

lemma access_eq:
  assumes "shadow_ok c"
  shows "ShadowCache_access l c =
    (l \<in> set (sc_sets c ! ShadowCache_index c l),
     c\<lparr>sc_sets := (sc_sets c)[ShadowCache_index c l :=
        lru_touch (sc_ways c) l (sc_sets c ! ShadowCache_index c l)]\<rparr>)"
proof -
  let ?s = "sc_sets c ! ShadowCache_index c l"
  have s: "distinct ?s" "length ?s \<le> sc_ways c" "0 < sc_ways c"
    using assms index_less [OF assms] by (auto simp: shadow_ok_def)
  show ?thesis
    using s lru_touch_hit [of ?s l "sc_ways c"] lru_touch_miss [of l ?s "sc_ways c"]
    by (cases "?s = []") (auto simp: ShadowCache_access_def Let_def)
qed

lemma shadow_ok_access [inv_intros]:
  assumes "shadow_ok c"
  shows "shadow_ok (snd (ShadowCache_access l c))"
  using assms index_less [OF assms, of l] length_lru_touch [of "sc_ways c" l]
    set_lru_touch_subset [of "sc_ways c" l "sc_sets c ! ShadowCache_index c l"]
  by (auto simp: access_eq shadow_ok_def nth_list_update)

lemma shadow_ok_erase [inv_intros]:
  assumes "shadow_ok c"
  shows "shadow_ok (ShadowCache_erase l c)"
  using assms index_less [OF assms, of l]
  by (auto simp: ShadowCache_erase_def Let_def shadow_ok_def nth_list_update
      removeAll_filter_not_eq intro: order_trans [OF length_filter_le])

lemma contains_iff: "ShadowCache_contains c l \<longleftrightarrow> l \<in> set (sc_sets c ! ShadowCache_index c l)"
  by (auto simp: ShadowCache_contains_def find_None_iff)

subsection \<open>The shadow cache is an LRU store, set by set\<close>

definition shadow_geometry :: "nat \<Rightarrow> nat \<Rightarrow> u64 \<Rightarrow> shadow_cache \<Rightarrow> bool" where
  "shadow_geometry n w b c \<longleftrightarrow>
     shadow_ok c \<and> length (sc_sets c) = n \<and> sc_ways c = w \<and> sc_lineBytes c = b"

interpretation shadow: lru_store
  "\<lambda>l c. snd (ShadowCache_access l c)" "\<lambda>c. sc_sets c ! i" w
  "\<lambda>l. unat (l div b) mod n = i" "\<lambda>c. shadow_geometry n w b c \<and> i < n" for n w b i
proof (unfold_locales, goal_cases)
  case (1 s x)
  then show ?case using shadow_ok_access [of s x] by (simp add: shadow_geometry_def access_eq)
next
  case (2 s x)
  then have "ShadowCache_index s x = unat (x div b) mod n"
    by (simp add: shadow_geometry_def ShadowCache_index_def)
  with 2 show ?case by (auto simp: shadow_geometry_def access_eq nth_list_update)
next
  case (3 s)
  then show ?case by (simp add: shadow_geometry_def shadow_ok_def)
next
  case (4 s)
  then show ?case by (simp add: shadow_geometry_def shadow_ok_def)
qed

section \<open>Tracker\<close>

datatype fill_origin = Demand | DVR

record quality_counters =
  qc_generated :: u64
  qc_issued :: u64
  qc_issuedBytes :: u64
  qc_completed :: u64
  qc_completedBytes :: u64
  qc_fills :: u64
  qc_redundantFills :: u64
  qc_usefulTimely :: u64
  qc_usefulLate :: u64
  qc_coveredMisses :: u64
  qc_unusedEvictions :: u64
  qc_demandAccesses :: u64
  qc_demandAddressesObserved :: u64
  qc_actualDemandMisses :: u64
  qc_shadowDemandMisses :: u64
  qc_pollutionEvictions :: u64
  qc_pollutionMisses :: u64
  qc_leadTime :: u64

definition zero_counters :: quality_counters where
  "zero_counters = \<lparr>qc_generated = 0, qc_issued = 0, qc_issuedBytes = 0, qc_completed = 0,
     qc_completedBytes = 0, qc_fills = 0, qc_redundantFills = 0, qc_usefulTimely = 0,
     qc_usefulLate = 0, qc_coveredMisses = 0, qc_unusedEvictions = 0, qc_demandAccesses = 0,
     qc_demandAddressesObserved = 0, qc_actualDemandMisses = 0, qc_shadowDemandMisses = 0,
     qc_pollutionEvictions = 0, qc_pollutionMisses = 0, qc_leadTime = 0\<rparr>"

record quality_request =
  rq_line :: u64
  rq_bytes :: u64
  rq_issuedAt :: u64

record prefetched_line =
  pl_filledAt :: u64
  pl_used :: bool

record quality_tracker =
  qt_counts :: quality_counters
  qt_shadow :: shadow_cache
  qt_outstanding :: "u64 \<rightharpoonup> quality_request"
  qt_byLine :: "(u64 \<times> u64) list"
  qt_prefetched :: "u64 \<rightharpoonup> prefetched_line"
  qt_late :: "u64 set"
  qt_victims :: "u64 set"

abbreviation count_up :: "(quality_counters \<Rightarrow> quality_counters) \<Rightarrow> quality_tracker \<Rightarrow> quality_tracker" where
  "count_up f q \<equiv> q\<lparr>qt_counts := f (qt_counts q)\<rparr>"

definition Quality_new :: "nat \<Rightarrow> nat \<Rightarrow> u64 \<Rightarrow> quality_error + quality_tracker" where
  "Quality_new set_count way_count line_bytes =
     (case ShadowCache_new set_count way_count line_bytes of
        Inl e \<Rightarrow> Inl e
      | Inr c \<Rightarrow> Inr \<lparr>qt_counts = zero_counters, qt_shadow = c, qt_outstanding = Map.empty,
          qt_byLine = [], qt_prefetched = Map.empty, qt_late = {}, qt_victims = {}\<rparr>)"

definition Quality_generated :: "quality_tracker \<Rightarrow> quality_tracker" where
  "Quality_generated = count_up (\<lambda>c. c\<lparr>qc_generated := qc_generated c + 1\<rparr>)"

definition Quality_demandAddressObserved :: "quality_tracker \<Rightarrow> quality_tracker" where
  "Quality_demandAddressObserved =
     count_up (\<lambda>c. c\<lparr>qc_demandAddressesObserved := qc_demandAddressesObserved c + 1\<rparr>)"

definition Quality_issued ::
    "u64 \<Rightarrow> u64 \<Rightarrow> u64 \<Rightarrow> u64 \<Rightarrow> quality_tracker \<Rightarrow> quality_error + quality_tracker" where
  "Quality_issued rid line bytes now q =
     (if qt_outstanding q rid \<noteq> None then Inl DuplicateRequest
      else Inr (count_up (\<lambda>c. c\<lparr>qc_issued := qc_issued c + 1, qc_issuedBytes := qc_issuedBytes c + bytes\<rparr>)
        (q\<lparr>qt_outstanding := (qt_outstanding q)(rid \<mapsto>
              \<lparr>rq_line = line, rq_bytes = bytes, rq_issuedAt = now\<rparr>),
           qt_byLine := (line, rid) # qt_byLine q\<rparr>)))"

definition Quality_completed ::
    "u64 \<Rightarrow> u64 \<Rightarrow> quality_tracker \<Rightarrow> quality_error + quality_tracker" where
  "Quality_completed rid now q =
     (case qt_outstanding q rid of
        None \<Rightarrow> Inl UnknownCompletion
      | Some request \<Rightarrow>
          Inr (count_up (\<lambda>c. c\<lparr>qc_completed := qc_completed c + 1,
                               qc_completedBytes := qc_completedBytes c + rq_bytes request\<rparr>)
            (q\<lparr>qt_byLine := remove1 (rq_line request, rid) (qt_byLine q),
               qt_outstanding := (qt_outstanding q)(rid := None)\<rparr>)))"

fun Quality_completeAll :: "u64 list \<Rightarrow> u64 \<Rightarrow> quality_tracker \<Rightarrow> quality_error + quality_tracker" where
  "Quality_completeAll [] now q = Inr q"
| "Quality_completeAll (rid # ids) now q =
     (case Quality_completed rid now q of Inl e \<Rightarrow> Inl e | Inr q' \<Rightarrow> Quality_completeAll ids now q')"

definition Quality_completedLine ::
    "u64 \<Rightarrow> u64 \<Rightarrow> quality_tracker \<Rightarrow> quality_error + quality_tracker" where
  "Quality_completedLine line now q =
     (let ids = map snd (filter (\<lambda>p. fst p = line) (qt_byLine q))
      in Quality_completeAll ids now q)"

definition Quality_dropped :: "u64 \<Rightarrow> quality_tracker \<Rightarrow> quality_tracker" where
  "Quality_dropped rid q =
     (case qt_outstanding q rid of
        None \<Rightarrow> q
      | Some request \<Rightarrow>
          q\<lparr>qt_byLine := remove1 (rq_line request, rid) (qt_byLine q),
            qt_outstanding := (qt_outstanding q)(rid := None)\<rparr>)"

text \<open>The \<open>else if\<close> branch of \<open>demandLookup\<close>: a miss on a line still in flight, reported once.\<close>

definition Quality_reportLate :: "u64 \<Rightarrow> bool \<Rightarrow> quality_tracker \<Rightarrow> quality_tracker" where
  "Quality_reportLate line actual_hit q =
     (if \<not> actual_hit \<and> line \<in> fst ` set (qt_byLine q) \<and> line \<notin> qt_late q then
        count_up (\<lambda>c. c\<lparr>qc_usefulLate := qc_usefulLate c + 1\<rparr>)
          (q\<lparr>qt_late := insert line (qt_late q)\<rparr>)
      else q)"

text \<open>The first use of a prefetched line, or the late report.\<close>

definition Quality_useful :: "u64 \<Rightarrow> bool \<Rightarrow> bool \<Rightarrow> u64 \<Rightarrow> quality_tracker \<Rightarrow> quality_tracker" where
  "Quality_useful line actual_hit shadow_hit now q =
     (case qt_prefetched q line of
        Some useful \<Rightarrow>
          if actual_hit \<and> \<not> pl_used useful then
            count_up (\<lambda>c. c\<lparr>qc_usefulTimely := qc_usefulTimely c + 1,
                qc_coveredMisses := (if \<not> shadow_hit then qc_coveredMisses c + 1 else qc_coveredMisses c),
                qc_leadTime := qc_leadTime c + (now - pl_filledAt useful)\<rparr>)
              (q\<lparr>qt_prefetched := (qt_prefetched q)(line \<mapsto> useful\<lparr>pl_used := True\<rparr>)\<rparr>)
          else Quality_reportLate line actual_hit q
      | None \<Rightarrow> Quality_reportLate line actual_hit q)"

text \<open>The end of the attribution window of a displaced demand line.\<close>

definition Quality_pollution :: "u64 \<Rightarrow> bool \<Rightarrow> bool \<Rightarrow> quality_tracker \<Rightarrow> quality_tracker" where
  "Quality_pollution line actual_hit shadow_hit q0 =
     (let q = (if \<not> actual_hit \<and> shadow_hit \<and> line \<in> qt_victims q0
               then count_up (\<lambda>c. c\<lparr>qc_pollutionMisses := qc_pollutionMisses c + 1\<rparr>)
                      (q0\<lparr>qt_victims := qt_victims q0 - {line}\<rparr>)
               else q0)
      in q\<lparr>qt_victims := qt_victims q - {line}\<rparr>)"

definition Quality_demandLookup :: "u64 \<Rightarrow> bool \<Rightarrow> u64 \<Rightarrow> quality_tracker \<Rightarrow> quality_tracker" where
  "Quality_demandLookup line actual_hit now q =
     (let (shadow_hit, shadow) = ShadowCache_access line (qt_shadow q);
          q = count_up (\<lambda>c. c\<lparr>
                qc_demandAccesses := qc_demandAccesses c + 1,
                qc_actualDemandMisses :=
                  (if \<not> actual_hit then qc_actualDemandMisses c + 1 else qc_actualDemandMisses c),
                qc_shadowDemandMisses :=
                  (if \<not> shadow_hit then qc_shadowDemandMisses c + 1 else qc_shadowDemandMisses c)\<rparr>)
              (q\<lparr>qt_shadow := shadow\<rparr>)
      in Quality_pollution line actual_hit shadow_hit
           (Quality_useful line actual_hit shadow_hit now q))"

text \<open>\<open>cacheFill\<close>: first the victim it displaces, then the line it installs.\<close>

definition Quality_victim :: "fill_origin \<Rightarrow> u64 \<Rightarrow> fill_origin \<Rightarrow> quality_tracker \<Rightarrow> quality_tracker" where
  "Quality_victim origin victim victim_origin q0 =
     (let q = (case qt_prefetched q0 victim of
                 None \<Rightarrow> q0
               | Some old_prefetch \<Rightarrow>
                   (if \<not> pl_used old_prefetch
                    then count_up (\<lambda>c. c\<lparr>qc_unusedEvictions := qc_unusedEvictions c + 1\<rparr>) q0 else q0)
                   \<lparr>qt_prefetched := (qt_prefetched q0)(victim := None)\<rparr>);
          q = q\<lparr>qt_victims := qt_victims q - {victim}\<rparr>
      in if origin = DVR \<and> victim_origin = Demand \<and> ShadowCache_contains (qt_shadow q) victim then
           count_up (\<lambda>c. c\<lparr>qc_pollutionEvictions := qc_pollutionEvictions c + 1\<rparr>)
             (q\<lparr>qt_victims := insert victim (qt_victims q)\<rparr>)
         else q)"

definition Quality_install :: "u64 \<Rightarrow> fill_origin \<Rightarrow> u64 \<Rightarrow> quality_tracker \<Rightarrow> quality_tracker" where
  "Quality_install line origin now q0 =
     (case origin of
        DVR \<Rightarrow>
          (let q = count_up (\<lambda>c. c\<lparr>qc_fills := qc_fills c + 1\<rparr>) q0;
               already_used = (line \<in> qt_late q);
               q = q\<lparr>qt_late := qt_late q - {line}\<rparr>
           in if qt_prefetched q line = None
              then q\<lparr>qt_prefetched := (qt_prefetched q)(line \<mapsto> \<lparr>pl_filledAt = now, pl_used = already_used\<rparr>)\<rparr>
              else count_up (\<lambda>c. c\<lparr>qc_redundantFills := qc_redundantFills c + 1\<rparr>) q)
      | Demand \<Rightarrow>
          q0\<lparr>qt_prefetched := (qt_prefetched q0)(line := None),
             qt_victims := qt_victims q0 - {line}\<rparr>)"

definition Quality_cacheFill ::
    "u64 \<Rightarrow> fill_origin \<Rightarrow> u64 \<Rightarrow> u64 option \<Rightarrow> fill_origin option \<Rightarrow> quality_tracker \<Rightarrow>
     quality_error + quality_tracker" where
  "Quality_cacheFill line origin now victim victim_origin q =
     (case (victim, victim_origin) of
        (None, None) \<Rightarrow> Inr (Quality_install line origin now q)
      | (Some v, Some vo) \<Rightarrow> Inr (Quality_install line origin now (Quality_victim origin v vo q))
      | _ \<Rightarrow> Inl IncompleteVictim)"

definition Quality_cacheRemove :: "u64 \<Rightarrow> fill_origin \<Rightarrow> quality_tracker \<Rightarrow> quality_tracker" where
  "Quality_cacheRemove line origin q0 =
     (let q = (if origin = DVR then
                 (case qt_prefetched q0 line of
                    Some p \<Rightarrow>
                      (if \<not> pl_used p
                       then count_up (\<lambda>c. c\<lparr>qc_unusedEvictions := qc_unusedEvictions c + 1\<rparr>) q0 else q0)
                  | None \<Rightarrow> q0)\<lparr>qt_prefetched := (qt_prefetched q0)(line := None)\<rparr>
               else q0)
      in q\<lparr>qt_victims := qt_victims q - {line}, qt_late := qt_late q - {line}\<rparr>)"

section \<open>Calls\<close>

datatype quality_event =
    Generated
  | AddressObserved
  | Issued u64 u64 u64 u64
  | Completed u64 u64
  | CompletedLine u64 u64
  | Dropped u64
  | Lookup u64 bool u64
  | Fill u64 fill_origin u64 "u64 option" "fill_origin option"
  | Remove u64 fill_origin

text \<open>A call that throws leaves the tracker as it was.\<close>

definition or_unchanged :: "quality_tracker \<Rightarrow> quality_error + quality_tracker \<Rightarrow> quality_tracker" where
  "or_unchanged q r = (case r of Inl _ \<Rightarrow> q | Inr q' \<Rightarrow> q')"

fun quality_step :: "quality_event \<Rightarrow> quality_tracker \<Rightarrow> quality_tracker" where
  "quality_step Generated q = Quality_generated q"
| "quality_step AddressObserved q = Quality_demandAddressObserved q"
| "quality_step (Issued rid line bytes now) q = or_unchanged q (Quality_issued rid line bytes now q)"
| "quality_step (Completed rid now) q = or_unchanged q (Quality_completed rid now q)"
| "quality_step (CompletedLine line now) q = or_unchanged q (Quality_completedLine line now q)"
| "quality_step (Dropped rid) q = Quality_dropped rid q"
| "quality_step (Lookup line hit now) q = Quality_demandLookup line hit now q"
| "quality_step (Fill line origin now v vo) q = or_unchanged q (Quality_cacheFill line origin now v vo q)"
| "quality_step (Remove line origin) q = Quality_cacheRemove line origin q"

section \<open>Requests in flight\<close>

text \<open>
  \<open>outstandingByLine\<close> mirrors \<open>outstanding\<close>, and every issued request is completed, dropped
  or still in flight. The witnesses of the existential are ghost counts in \<open>nat\<close>; the
  counters are their images in \<open>64 word\<close>, so the accounting is exact below \<open>2 ^ 64\<close> calls.
\<close>

definition mirrored :: "quality_tracker \<Rightarrow> bool" where
  "mirrored q \<longleftrightarrow> finite (dom (qt_outstanding q)) \<and> distinct (qt_byLine q) \<and>
     (\<forall>line rid. (line, rid) \<in> set (qt_byLine q) \<longleftrightarrow>
        (\<exists>r. qt_outstanding q rid = Some r \<and> rq_line r = line))"

definition requests_count :: "nat \<Rightarrow> quality_tracker \<Rightarrow> nat \<Rightarrow> nat \<Rightarrow> nat \<Rightarrow> bool" where
  "requests_count n q nI nC nD \<longleftrightarrow> mirrored q \<and>
     qc_issued (qt_counts q) = of_nat nI \<and> qc_completed (qt_counts q) = of_nat nC \<and>
     nI = nC + nD + card (dom (qt_outstanding q)) \<and> nI \<le> n"

definition requests_ok :: "nat \<Rightarrow> quality_tracker \<Rightarrow> bool" where
  "requests_ok n q \<longleftrightarrow> (\<exists>nI nC nD. requests_count n q nI nC nD)"

lemma requests_okI: "requests_count n q nI nC nD \<Longrightarrow> requests_ok n q"
  by (auto simp: requests_ok_def)

lemma requests_ok_mono: "requests_ok n q \<Longrightarrow> n \<le> m \<Longrightarrow> requests_ok m q"
proof -
  assume "requests_ok n q" and "n \<le> m"
  then obtain nI nC nD where "requests_count n q nI nC nD" by (auto simp: requests_ok_def)
  with \<open>n \<le> m\<close> have "requests_count m q nI nC nD" by (simp add: requests_count_def)
  then show "requests_ok m q" by (rule requests_okI)
qed

lemma requests_ok_frame:
  "requests_ok n q \<Longrightarrow> qt_outstanding q' = qt_outstanding q \<Longrightarrow> qt_byLine q' = qt_byLine q \<Longrightarrow>
   qc_issued (qt_counts q') = qc_issued (qt_counts q) \<Longrightarrow>
   qc_completed (qt_counts q') = qc_completed (qt_counts q) \<Longrightarrow> requests_ok n q'"
  by (simp add: requests_ok_def requests_count_def mirrored_def)

lemma requests_ok_same:
  "requests_ok n q \<Longrightarrow> qt_outstanding q' = qt_outstanding q \<Longrightarrow> qt_byLine q' = qt_byLine q \<Longrightarrow>
   qc_issued (qt_counts q') = qc_issued (qt_counts q) \<Longrightarrow>
   qc_completed (qt_counts q') = qc_completed (qt_counts q) \<Longrightarrow> requests_ok (Suc n) q'"
  using requests_ok_mono [OF requests_ok_frame] by simp

lemma mirrored_retire:
  assumes "mirrored q" and "qt_outstanding q rid = Some r"
    and "qt_outstanding q' = (qt_outstanding q)(rid := None)"
    and "qt_byLine q' = remove1 (rq_line r, rid) (qt_byLine q)"
  shows "mirrored q'"
  using assms by (auto simp: mirrored_def split: if_splits)

lemma card_retire:
  assumes "finite (dom m)" and "m k = Some v"
  shows "card (dom m) = Suc (card (dom (m(k := None))))"
  using card_Suc_Diff1 [of "dom m" k] assms by (simp add: domI)

lemma requests_ok_issue:
  assumes "requests_ok n q" and "qt_outstanding q rid = None"
    and "qt_outstanding q' = (qt_outstanding q)(rid \<mapsto> r)" and "qt_byLine q' = (rq_line r, rid) # qt_byLine q"
    and "qc_issued (qt_counts q') = qc_issued (qt_counts q) + 1"
    and "qc_completed (qt_counts q') = qc_completed (qt_counts q)"
  shows "requests_ok (Suc n) q'"
proof -
  obtain nI nC nD where g: "qc_issued (qt_counts q) = of_nat nI" "qc_completed (qt_counts q) = of_nat nC"
      "nI = nC + nD + card (dom (qt_outstanding q))" "nI \<le> n" and m: "mirrored q"
    using assms(1) unfolding requests_ok_def requests_count_def by blast
  have "mirrored q'" using m assms(2-4) by (auto simp: mirrored_def)
  moreover have "card (dom (qt_outstanding q')) = Suc (card (dom (qt_outstanding q)))"
    using m assms(2,3) by (simp add: mirrored_def domIff)
  moreover have "qc_issued (qt_counts q') = of_nat (Suc nI)" using g(1) assms(5) by simp
  ultimately have "requests_count (Suc n) q' (Suc nI) nC nD"
    unfolding requests_count_def using g assms(6) by auto
  then show ?thesis by (rule requests_okI)
qed

lemma requests_ok_retire:
  assumes "requests_ok n q" and "qt_outstanding q rid = Some r"
    and "qt_outstanding q' = (qt_outstanding q)(rid := None)"
    and "qt_byLine q' = remove1 (rq_line r, rid) (qt_byLine q)"
    and "qc_issued (qt_counts q') = qc_issued (qt_counts q)"
    and "qc_completed (qt_counts q') = qc_completed (qt_counts q) + (if c then 1 else 0)"
  shows "requests_ok n q'"
proof -
  obtain nI nC nD where g: "qc_issued (qt_counts q) = of_nat nI" "qc_completed (qt_counts q) = of_nat nC"
      "nI = nC + nD + card (dom (qt_outstanding q))" "nI \<le> n" and m: "mirrored q"
    using assms(1) unfolding requests_ok_def requests_count_def by blast
  have "mirrored q'" by (rule mirrored_retire [OF m assms(2-4)])
  moreover have "card (dom (qt_outstanding q)) = Suc (card (dom (qt_outstanding q')))"
    using m assms(2,3) card_retire [of "qt_outstanding q" rid r] by (simp add: mirrored_def)
  ultimately have "requests_count n q' nI (nC + (if c then 1 else 0)) (nD + (if c then 0 else 1))"
    unfolding requests_count_def using g assms(5,6) by auto
  then show ?thesis by (rule requests_okI)
qed

lemma requests_ok_completed:
  "requests_ok n q \<Longrightarrow> Quality_completed rid now q = Inr q' \<Longrightarrow> requests_ok n q'"
proof (cases "qt_outstanding q rid")
  case (Some r)
  assume ok: "requests_ok n q" and "Quality_completed rid now q = Inr q'"
  then have "q' = count_up (\<lambda>c. c\<lparr>qc_completed := qc_completed c + 1,
        qc_completedBytes := qc_completedBytes c + rq_bytes r\<rparr>)
      (q\<lparr>qt_byLine := remove1 (rq_line r, rid) (qt_byLine q),
         qt_outstanding := (qt_outstanding q)(rid := None)\<rparr>)"
    using Some by (simp add: Quality_completed_def)
  then show "requests_ok n q'"
    using requests_ok_retire [OF ok Some, of q' True] by simp
qed (simp add: Quality_completed_def)

lemma requests_ok_completeAll:
  "requests_ok n q \<Longrightarrow> Quality_completeAll ids now q = Inr q' \<Longrightarrow> requests_ok n q'"
  by (induction ids arbitrary: q) (auto split: sum.splits dest: requests_ok_completed)

text \<open>\<open>completedLine\<close> cannot throw: the identifiers it collects are outstanding and distinct.\<close>

lemma completeAll_total:
  assumes "distinct ids" and "\<forall>i \<in> set ids. qt_outstanding q i \<noteq> None"
  shows "\<exists>q'. Quality_completeAll ids now q = Inr q' \<and>
    qt_outstanding q' = (\<lambda>i. if i \<in> set ids then None else qt_outstanding q i)"
  using assms
proof (induction ids arbitrary: q)
  case Nil
  then show ?case by simp
next
  case (Cons i ids)
  then obtain q1 where q1: "Quality_completed i now q = Inr q1"
    "qt_outstanding q1 = (qt_outstanding q)(i := None)"
    by (auto simp: Quality_completed_def)
  then have "\<forall>j \<in> set ids. qt_outstanding q1 j \<noteq> None" using Cons.prems by auto
  with Cons.IH [of q1] Cons.prems obtain q' where
    "Quality_completeAll ids now q1 = Inr q'"
    "qt_outstanding q' = (\<lambda>j. if j \<in> set ids then None else qt_outstanding q1 j)"
    by auto
  with q1 show ?case by (auto simp: fun_eq_iff)
qed

lemma line_ids:
  fixes q :: quality_tracker and line :: u64
  assumes "mirrored q"
  defines "ids \<equiv> map snd (filter (\<lambda>p. fst p = line) (qt_byLine q))"
  shows "distinct ids" and "set ids = {i. \<exists>r. qt_outstanding q i = Some r \<and> rq_line r = line}"
proof -
  show "set ids = {i. \<exists>r. qt_outstanding q i = Some r \<and> rq_line r = line}"
    using assms(1) unfolding mirrored_def ids_def by (force simp: image_iff)
  have "inj_on snd {p \<in> set (qt_byLine q). fst p = line}"
    by (auto simp: inj_on_def)
  then show "distinct ids"
    using assms(1) unfolding mirrored_def ids_def by (simp add: distinct_map)
qed

text \<open>Lookups, fills and removals do not touch the requests in flight.\<close>

lemma fill_frames:
  "qt_outstanding (Quality_reportLate l h q) = qt_outstanding q"
  "qt_byLine (Quality_reportLate l h q) = qt_byLine q"
  "qc_issued (qt_counts (Quality_reportLate l h q)) = qc_issued (qt_counts q)"
  "qc_completed (qt_counts (Quality_reportLate l h q)) = qc_completed (qt_counts q)"
  "qt_outstanding (Quality_install l org now q) = qt_outstanding q"
  "qt_byLine (Quality_install l org now q) = qt_byLine q"
  "qc_issued (qt_counts (Quality_install l org now q)) = qc_issued (qt_counts q)"
  "qc_completed (qt_counts (Quality_install l org now q)) = qc_completed (qt_counts q)"
  "qt_outstanding (Quality_victim org v vo q) = qt_outstanding q"
  "qt_byLine (Quality_victim org v vo q) = qt_byLine q"
  "qc_issued (qt_counts (Quality_victim org v vo q)) = qc_issued (qt_counts q)"
  "qc_completed (qt_counts (Quality_victim org v vo q)) = qc_completed (qt_counts q)"
  "qt_outstanding (Quality_cacheRemove l org q) = qt_outstanding q"
  "qt_byLine (Quality_cacheRemove l org q) = qt_byLine q"
  "qc_issued (qt_counts (Quality_cacheRemove l org q)) = qc_issued (qt_counts q)"
  "qc_completed (qt_counts (Quality_cacheRemove l org q)) = qc_completed (qt_counts q)"
  by (simp_all add: Quality_reportLate_def Quality_install_def Quality_victim_def
      Quality_cacheRemove_def Let_def split: option.split fill_origin.split)

lemma lookup_frames:
  "qt_outstanding (Quality_demandLookup l h now q) = qt_outstanding q"
  "qt_byLine (Quality_demandLookup l h now q) = qt_byLine q"
  "qc_issued (qt_counts (Quality_demandLookup l h now q)) = qc_issued (qt_counts q)"
  "qc_completed (qt_counts (Quality_demandLookup l h now q)) = qc_completed (qt_counts q)"
  by (simp_all add: Quality_demandLookup_def Quality_useful_def Quality_pollution_def Let_def fill_frames
      split: option.split prod.split)

lemma requests_ok_step: "requests_ok n q \<Longrightarrow> requests_ok (Suc n) (quality_step e q)"
proof (cases e)
  case (Issued rid line bytes now)
  assume *: "requests_ok n q"
  then show ?thesis
    using Issued requests_ok_mono [OF *, of "Suc n"]
    by (auto simp: Quality_issued_def or_unchanged_def intro!: requests_ok_issue [OF *, of rid])
next
  case (Completed rid now)
  assume *: "requests_ok n q"
  then show ?thesis
    using Completed requests_ok_mono [OF _ le_SucI [OF order_refl]]
    by (auto simp: or_unchanged_def split: sum.split dest: requests_ok_completed [OF *])
next
  case (CompletedLine line now)
  assume *: "requests_ok n q"
  then show ?thesis
    using CompletedLine requests_ok_mono [OF _ le_SucI [OF order_refl]]
    by (auto simp: or_unchanged_def Quality_completedLine_def Let_def split: sum.split
        dest: requests_ok_completeAll [OF *])
next
  case (Dropped rid)
  assume *: "requests_ok n q"
  show ?thesis
  proof (cases "qt_outstanding q rid")
    case None
    then show ?thesis using Dropped requests_ok_mono [OF *] by (simp add: Quality_dropped_def)
  next
    case (Some r)
    have "requests_ok n (Quality_dropped rid q)"
      using requests_ok_retire [OF * Some, where c = False] Some by (simp add: Quality_dropped_def)
    then show ?thesis using Dropped requests_ok_mono by simp
  qed
qed (use requests_ok_same in \<open>simp_all add: Quality_generated_def Quality_demandAddressObserved_def
    Quality_cacheFill_def or_unchanged_def fill_frames lookup_frames split: option.split\<close>)

section \<open>Fills, uses and evictions\<close>

definition unused_lines :: "(u64 \<rightharpoonup> prefetched_line) \<Rightarrow> u64 set" where
  "unused_lines pf = {l. \<exists>p. pf l = Some p \<and> \<not> pl_used p}"

text \<open>
  Every fill by the helper is redundant, used in time, evicted unused, still waiting to be
  used, or lost to a demand fill or a late report; a covered miss is a timely use of a line
  the shadow cache misses.
\<close>

definition fills_count ::
    "nat \<Rightarrow> quality_counters \<Rightarrow> (u64 \<rightharpoonup> prefetched_line) \<Rightarrow> nat \<Rightarrow> nat \<Rightarrow> nat \<Rightarrow> nat \<Rightarrow> nat \<Rightarrow> nat \<Rightarrow> bool" where
  "fills_count n c pf nF nU nE nR nC nM \<longleftrightarrow> finite (dom pf) \<and>
     qc_fills c = of_nat nF \<and> qc_usefulTimely c = of_nat nU \<and>
     qc_unusedEvictions c = of_nat nE \<and> qc_redundantFills c = of_nat nR \<and>
     qc_coveredMisses c = of_nat nC \<and> qc_shadowDemandMisses c = of_nat nM \<and>
     nU + nE + nR + card (unused_lines pf) \<le> nF \<and> nC \<le> nU \<and> nC \<le> nM \<and> nF \<le> n \<and> nM \<le> n"

definition fills_ok :: "nat \<Rightarrow> quality_counters \<Rightarrow> (u64 \<rightharpoonup> prefetched_line) \<Rightarrow> bool" where
  "fills_ok n c pf \<longleftrightarrow> (\<exists>nF nU nE nR nC nM. fills_count n c pf nF nU nE nR nC nM)"

lemma fills_okI: "fills_count n c pf nF nU nE nR nC nM \<Longrightarrow> fills_ok n c pf"
  unfolding fills_ok_def by blast

lemma fills_okE:
  assumes "fills_ok n c pf"
  obtains nF nU nE nR nC nM where "fills_count n c pf nF nU nE nR nC nM"
  using assms unfolding fills_ok_def by blast

lemma finite_unused_lines: "finite (dom pf) \<Longrightarrow> finite (unused_lines pf)"
  by (rule finite_subset [of _ "dom pf"]) (auto simp: unused_lines_def)

lemma unused_lines_upd:
  "unused_lines (pf(l := None)) = unused_lines pf - {l}"
  "unused_lines (pf(l \<mapsto> p)) = (if pl_used p then unused_lines pf - {l} else insert l (unused_lines pf))"
  by (auto simp: unused_lines_def)

lemma fills_ok_mono: "fills_ok n c pf \<Longrightarrow> n \<le> m \<Longrightarrow> fills_ok m c pf"
  by (elim fills_okE, rule fills_okI) (auto simp: fills_count_def)

lemma fills_ok_frame:
  "fills_ok n c pf \<Longrightarrow> qc_fills c' = qc_fills c \<Longrightarrow> qc_usefulTimely c' = qc_usefulTimely c \<Longrightarrow>
   qc_unusedEvictions c' = qc_unusedEvictions c \<Longrightarrow> qc_redundantFills c' = qc_redundantFills c \<Longrightarrow>
   qc_coveredMisses c' = qc_coveredMisses c \<Longrightarrow> qc_shadowDemandMisses c' = qc_shadowDemandMisses c \<Longrightarrow>
   fills_ok n c' pf"
  by (simp add: fills_ok_def fills_count_def)

lemma card_unused_drop:
  assumes "finite (dom pf)" and "pf l = Some p" and "\<not> pl_used p"
  shows "card (unused_lines pf) = Suc (card (unused_lines pf - {l}))"
  using assms by (intro card_Suc_Diff1 [symmetric] finite_unused_lines) (auto simp: unused_lines_def)

lemma fills_ok_lose:
  assumes "fills_ok n c pf"
  shows "fills_ok n c (pf(l := None))"
  using assms
proof (rule fills_okE)
  fix nF nU nE nR nC nM
  assume g: "fills_count n c pf nF nU nE nR nC nM"
  then have "card (unused_lines pf - {l}) \<le> card (unused_lines pf)"
    using finite_unused_lines by (intro card_mono) (auto simp: fills_count_def)
  with g have "fills_count n c (pf(l := None)) nF nU nE nR nC nM"
    by (auto simp: fills_count_def unused_lines_upd)
  then show ?thesis by (rule fills_okI)
qed

lemma fills_ok_evict:
  assumes "fills_ok n c pf" and "pf l = Some p" and "\<not> pl_used p"
  shows "fills_ok n (c\<lparr>qc_unusedEvictions := qc_unusedEvictions c + 1\<rparr>) (pf(l := None))"
  using assms(1)
proof (rule fills_okE)
  fix nF nU nE nR nC nM
  assume g: "fills_count n c pf nF nU nE nR nC nM"
  then have "fills_count n (c\<lparr>qc_unusedEvictions := qc_unusedEvictions c + 1\<rparr>) (pf(l := None))
      nF nU (Suc nE) nR nC nM"
    using card_unused_drop [of pf l p] assms(2,3) by (auto simp: fills_count_def unused_lines_upd)
  then show ?thesis by (rule fills_okI)
qed

lemma fills_ok_use:
  assumes "fills_ok n c pf" and "pf l = Some p" and "\<not> pl_used p"
  shows "fills_ok (Suc n) (c\<lparr>qc_shadowDemandMisses := qc_shadowDemandMisses c + (if miss then 1 else 0),
      qc_usefulTimely := qc_usefulTimely c + 1,
      qc_coveredMisses := qc_coveredMisses c + (if miss then 1 else 0)\<rparr>) (pf(l \<mapsto> p\<lparr>pl_used := True\<rparr>))"
    (is "fills_ok _ ?c ?pf")
  using assms(1)
proof (rule fills_okE)
  fix nF nU nE nR nC nM
  assume g: "fills_count n c pf nF nU nE nR nC nM"
  then have "fills_count (Suc n) ?c ?pf nF (Suc nU) nE nR
      (nC + (if miss then 1 else 0)) (nM + (if miss then 1 else 0))"
    using card_unused_drop [of pf l p] assms(2,3) by (auto simp: fills_count_def unused_lines_upd)
  then show ?thesis by (rule fills_okI)
qed

lemma fills_ok_lookup:
  assumes "fills_ok n c pf"
  shows "fills_ok (Suc n) (c\<lparr>qc_shadowDemandMisses := qc_shadowDemandMisses c + (if miss then 1 else 0)\<rparr>) pf"
    (is "fills_ok _ ?c _")
  using assms
proof (rule fills_okE)
  fix nF nU nE nR nC nM
  assume g: "fills_count n c pf nF nU nE nR nC nM"
  then have "fills_count (Suc n) ?c pf nF nU nE nR nC (nM + (if miss then 1 else 0))"
    by (auto simp: fills_count_def)
  then show ?thesis by (rule fills_okI)
qed

lemma fills_ok_install_new:
  assumes "fills_ok n c pf" and "pf l = None"
  shows "fills_ok (Suc n) (c\<lparr>qc_fills := qc_fills c + 1\<rparr>) (pf(l \<mapsto> p))"
  using assms(1)
proof (rule fills_okE)
  fix nF nU nE nR nC nM
  assume g: "fills_count n c pf nF nU nE nR nC nM"
  have "l \<notin> unused_lines pf" using assms(2) by (simp add: unused_lines_def)
  then have "card (unused_lines (pf(l \<mapsto> p))) \<le> Suc (card (unused_lines pf))"
    using g finite_unused_lines by (simp add: unused_lines_upd fills_count_def)
  with g have "fills_count (Suc n) (c\<lparr>qc_fills := qc_fills c + 1\<rparr>) (pf(l \<mapsto> p)) (Suc nF) nU nE nR nC nM"
    by (auto simp: fills_count_def)
  then show ?thesis by (rule fills_okI)
qed

lemma fills_ok_install_redundant:
  assumes "fills_ok n c pf"
  shows "fills_ok (Suc n) (c\<lparr>qc_fills := qc_fills c + 1, qc_redundantFills := qc_redundantFills c + 1\<rparr>) pf"
  using assms
proof (rule fills_okE)
  fix nF nU nE nR nC nM
  assume g: "fills_count n c pf nF nU nE nR nC nM"
  then have "fills_count (Suc n) (c\<lparr>qc_fills := qc_fills c + 1, qc_redundantFills := qc_redundantFills c + 1\<rparr>) pf
      (Suc nF) nU nE (Suc nR) nC nM"
    by (auto simp: fills_count_def)
  then show ?thesis by (rule fills_okI)
qed

text \<open>The calls, as far as fills are concerned.\<close>

abbreviation fills_inv :: "nat \<Rightarrow> quality_tracker \<Rightarrow> bool" where
  "fills_inv n q \<equiv> fills_ok n (qt_counts q) (qt_prefetched q)"

definition timely :: "quality_tracker \<Rightarrow> u64 \<Rightarrow> bool \<Rightarrow> bool" where
  "timely q l h \<longleftrightarrow> (\<exists>u. qt_prefetched q l = Some u \<and> h \<and> \<not> pl_used u)"

definition shadow_miss :: "quality_tracker \<Rightarrow> u64 \<Rightarrow> bool" where
  "shadow_miss q l \<longleftrightarrow> \<not> fst (ShadowCache_access l (qt_shadow q))"

definition polluted :: "quality_tracker \<Rightarrow> u64 \<Rightarrow> bool \<Rightarrow> bool" where
  "polluted q l h \<longleftrightarrow> \<not> h \<and> \<not> shadow_miss q l \<and> l \<in> qt_victims q"

lemma useful_effect:
  fixes q l h sh now
  defines "q' \<equiv> Quality_useful l h sh now q"
  shows "qt_shadow q' = qt_shadow q" "qt_victims q' = qt_victims q"
    "qt_prefetched q' = (if timely q l h
       then (qt_prefetched q)(l \<mapsto> (the (qt_prefetched q l))\<lparr>pl_used := True\<rparr>) else qt_prefetched q)"
    "qc_fills (qt_counts q') = qc_fills (qt_counts q)"
    "qc_unusedEvictions (qt_counts q') = qc_unusedEvictions (qt_counts q)"
    "qc_redundantFills (qt_counts q') = qc_redundantFills (qt_counts q)"
    "qc_pollutionEvictions (qt_counts q') = qc_pollutionEvictions (qt_counts q)"
    "qc_pollutionMisses (qt_counts q') = qc_pollutionMisses (qt_counts q)"
    "qc_shadowDemandMisses (qt_counts q') = qc_shadowDemandMisses (qt_counts q)"
    "qc_usefulTimely (qt_counts q') = qc_usefulTimely (qt_counts q) + (if timely q l h then 1 else 0)"
    "qc_coveredMisses (qt_counts q') =
       qc_coveredMisses (qt_counts q) + (if timely q l h \<and> \<not> sh then 1 else 0)"
  unfolding q'_def
  by (simp_all add: Quality_useful_def Quality_reportLate_def timely_def split: option.split)

lemma pollution_effect:
  fixes q l h sh
  defines "q' \<equiv> Quality_pollution l h sh q"
  shows "qt_shadow q' = qt_shadow q" "qt_victims q' = qt_victims q - {l}"
    "qt_prefetched q' = qt_prefetched q"
    "qt_counts q' = (qt_counts q)\<lparr>qc_pollutionMisses :=
       qc_pollutionMisses (qt_counts q) + (if \<not> h \<and> sh \<and> l \<in> qt_victims q then 1 else 0)\<rparr>"
  unfolding q'_def by (auto simp: Quality_pollution_def Let_def)

text \<open>What a demand lookup does to each field, case by case.\<close>

lemma lookup_fields:
  "qt_shadow (Quality_demandLookup l h now q) = snd (ShadowCache_access l (qt_shadow q))"
  "qt_victims (Quality_demandLookup l h now q) = qt_victims q - {l}"
  "qt_prefetched (Quality_demandLookup l h now q) =
     (if timely q l h then (qt_prefetched q)(l \<mapsto> (the (qt_prefetched q l))\<lparr>pl_used := True\<rparr>)
      else qt_prefetched q)"
  by (auto simp: Quality_demandLookup_def Let_def case_prod_beta useful_effect pollution_effect timely_def)

lemma lookup_counts:
  "qc_fills (qt_counts (Quality_demandLookup l h now q)) = qc_fills (qt_counts q)"
  "qc_unusedEvictions (qt_counts (Quality_demandLookup l h now q)) = qc_unusedEvictions (qt_counts q)"
  "qc_redundantFills (qt_counts (Quality_demandLookup l h now q)) = qc_redundantFills (qt_counts q)"
  "qc_pollutionEvictions (qt_counts (Quality_demandLookup l h now q)) = qc_pollutionEvictions (qt_counts q)"
  "qc_usefulTimely (qt_counts (Quality_demandLookup l h now q)) =
     qc_usefulTimely (qt_counts q) + (if timely q l h then 1 else 0)"
  "qc_coveredMisses (qt_counts (Quality_demandLookup l h now q)) =
     qc_coveredMisses (qt_counts q) + (if timely q l h \<and> shadow_miss q l then 1 else 0)"
  "qc_shadowDemandMisses (qt_counts (Quality_demandLookup l h now q)) =
     qc_shadowDemandMisses (qt_counts q) + (if shadow_miss q l then 1 else 0)"
  "qc_pollutionMisses (qt_counts (Quality_demandLookup l h now q)) =
     qc_pollutionMisses (qt_counts q) + (if polluted q l h then 1 else 0)"
  by (simp_all add: Quality_demandLookup_def Let_def case_prod_beta useful_effect pollution_effect
      timely_def shadow_miss_def polluted_def)

lemma victim_fields:
  "qt_shadow (Quality_victim org v vo q) = qt_shadow q"
  "qt_prefetched (Quality_victim org v vo q) = (qt_prefetched q)(v := None)"
  "qt_victims (Quality_victim org v vo q) =
     (if org = DVR \<and> vo = Demand \<and> ShadowCache_contains (qt_shadow q) v
      then insert v (qt_victims q) else qt_victims q - {v})"
  by (cases "qt_prefetched q v"; auto simp: Quality_victim_def Let_def)+

lemma victim_counts:
  "qc_fills (qt_counts (Quality_victim org v vo q)) = qc_fills (qt_counts q)"
  "qc_redundantFills (qt_counts (Quality_victim org v vo q)) = qc_redundantFills (qt_counts q)"
  "qc_usefulTimely (qt_counts (Quality_victim org v vo q)) = qc_usefulTimely (qt_counts q)"
  "qc_coveredMisses (qt_counts (Quality_victim org v vo q)) = qc_coveredMisses (qt_counts q)"
  "qc_shadowDemandMisses (qt_counts (Quality_victim org v vo q)) = qc_shadowDemandMisses (qt_counts q)"
  "qc_pollutionMisses (qt_counts (Quality_victim org v vo q)) = qc_pollutionMisses (qt_counts q)"
  "qc_unusedEvictions (qt_counts (Quality_victim org v vo q)) =
     qc_unusedEvictions (qt_counts q) + (if v \<in> unused_lines (qt_prefetched q) then 1 else 0)"
  "qc_pollutionEvictions (qt_counts (Quality_victim org v vo q)) =
     qc_pollutionEvictions (qt_counts q) +
     (if org = DVR \<and> vo = Demand \<and> ShadowCache_contains (qt_shadow q) v then 1 else 0)"
  by (cases "qt_prefetched q v"; simp add: Quality_victim_def unused_lines_def Let_def)+

lemma fills_inv_lookup:
  assumes ok: "fills_inv n q"
  shows "fills_inv (Suc n) (Quality_demandLookup l h now q)"
proof (cases "timely q l h")
  case True
  then obtain u where u: "qt_prefetched q l = Some u" "\<not> pl_used u" by (auto simp: timely_def)
  have "fills_ok (Suc n) (qt_counts (Quality_demandLookup l h now q))
      ((qt_prefetched q)(l \<mapsto> u\<lparr>pl_used := True\<rparr>))"
    by (rule fills_ok_frame [OF fills_ok_use [OF ok u, of "shadow_miss q l"]])
      (simp_all add: lookup_counts True)
  then show ?thesis unfolding lookup_fields using True u by simp
next
  case False
  have "fills_ok (Suc n) (qt_counts (Quality_demandLookup l h now q)) (qt_prefetched q)"
    by (rule fills_ok_frame [OF fills_ok_lookup [OF ok, of "shadow_miss q l"]])
      (simp_all add: lookup_counts False)
  then show ?thesis unfolding lookup_fields using False by simp
qed

lemma fills_inv_victim:
  assumes ok: "fills_inv n q"
  shows "fills_inv n (Quality_victim org v vo q)"
proof (cases "v \<in> unused_lines (qt_prefetched q)")
  case True
  then obtain p where p: "qt_prefetched q v = Some p" "\<not> pl_used p" by (auto simp: unused_lines_def)
  show ?thesis
    unfolding victim_fields using True
    by (intro fills_ok_frame [OF fills_ok_evict [OF ok p]]) (simp_all add: victim_counts)
next
  case False
  then show ?thesis
    unfolding victim_fields
    by (intro fills_ok_frame [OF fills_ok_lose [OF ok]]) (simp_all add: victim_counts)
qed

lemma fills_inv_install:
  assumes ok: "fills_inv n q"
  shows "fills_inv (Suc n) (Quality_install l org now q)"
proof (cases org)
  case Demand
  then show ?thesis
    using fills_ok_mono [OF fills_ok_lose [OF ok, of l], of "Suc n"] by (simp add: Quality_install_def)
next
  case DVR
  then show ?thesis
    using fills_ok_install_new [OF ok, of l] fills_ok_install_redundant [OF ok]
    by (simp add: Quality_install_def Let_def)
qed

lemma fills_inv_remove:
  assumes ok: "fills_inv n q"
  shows "fills_inv (Suc n) (Quality_cacheRemove l org q)"
  using fills_ok_mono [OF fills_ok_lose [OF ok, of l], of "Suc n"] fills_ok_mono [OF ok, of "Suc n"]
    fills_ok_mono [OF fills_ok_evict [OF ok], of l _ "Suc n"]
  by (auto simp: Quality_cacheRemove_def Let_def split: option.split)

definition same_use :: "quality_tracker \<Rightarrow> quality_tracker \<Rightarrow> bool" where
  "same_use q q' \<longleftrightarrow> qt_prefetched q' = qt_prefetched q \<and> qt_victims q' = qt_victims q \<and>
     qc_fills (qt_counts q') = qc_fills (qt_counts q) \<and>
     qc_usefulTimely (qt_counts q') = qc_usefulTimely (qt_counts q) \<and>
     qc_unusedEvictions (qt_counts q') = qc_unusedEvictions (qt_counts q) \<and>
     qc_redundantFills (qt_counts q') = qc_redundantFills (qt_counts q) \<and>
     qc_coveredMisses (qt_counts q') = qc_coveredMisses (qt_counts q) \<and>
     qc_shadowDemandMisses (qt_counts q') = qc_shadowDemandMisses (qt_counts q) \<and>
     qc_pollutionEvictions (qt_counts q') = qc_pollutionEvictions (qt_counts q) \<and>
     qc_pollutionMisses (qt_counts q') = qc_pollutionMisses (qt_counts q)"

lemma completed_same_use: "Quality_completed i now q = Inr q' \<Longrightarrow> same_use q q'"
  by (cases "qt_outstanding q i") (auto simp: Quality_completed_def same_use_def)

lemma completeAll_same_use: "Quality_completeAll ids now q = Inr q' \<Longrightarrow> same_use q q'"
proof (induction ids arbitrary: q)
  case Nil
  then show ?case by (simp add: same_use_def)
next
  case (Cons i ids)
  then obtain q1 where "Quality_completed i now q = Inr q1" "Quality_completeAll ids now q1 = Inr q'"
    by (auto split: sum.splits)
  with Cons.IH [of q1] completed_same_use have "same_use q q1" "same_use q1 q'" by blast+
  then show ?case by (simp add: same_use_def)
qed

lemma fills_inv_step: "fills_inv n q \<Longrightarrow> fills_inv (Suc n) (quality_step e q)"
proof (cases e)
  case (CompletedLine line now)
  assume *: "fills_inv n q"
  show ?thesis
  proof (cases "Quality_completedLine line now q")
    case (Inl e)
    then show ?thesis using CompletedLine fills_ok_mono [OF *] by (simp add: or_unchanged_def)
  next
    case (Inr q')
    then have "same_use q q'"
      using completeAll_same_use [of _ now q q'] by (simp add: Quality_completedLine_def Let_def)
    then show ?thesis
      using CompletedLine Inr fills_ok_mono [OF fills_ok_frame [OF *], of "qt_counts q'" "Suc n"]
      by (simp add: or_unchanged_def same_use_def)
  qed
next
  case (Fill l org now v vo)
  assume *: "fills_inv n q"
  then show ?thesis
    using Fill fills_inv_install fills_inv_victim fills_ok_mono [OF *, of "Suc n"]
    by (simp add: Quality_cacheFill_def or_unchanged_def split: option.split)
qed (auto simp: Quality_generated_def Quality_demandAddressObserved_def Quality_issued_def
    Quality_completed_def Quality_dropped_def or_unchanged_def fills_inv_lookup fills_inv_remove
    intro!: fills_ok_mono [OF fills_ok_frame, where m = "Suc n" and c1 = "qt_counts q"]
    split: option.split)

section \<open>Pollution\<close>

text \<open>A pollution miss needs its own pollution eviction before it.\<close>

definition victims_count :: "nat \<Rightarrow> quality_counters \<Rightarrow> u64 set \<Rightarrow> nat \<Rightarrow> nat \<Rightarrow> bool" where
  "victims_count n c V nE nM \<longleftrightarrow> finite V \<and> qc_pollutionEvictions c = of_nat nE \<and>
     qc_pollutionMisses c = of_nat nM \<and> nM + card V \<le> nE \<and> nE \<le> n"

definition victims_ok :: "nat \<Rightarrow> quality_counters \<Rightarrow> u64 set \<Rightarrow> bool" where
  "victims_ok n c V \<longleftrightarrow> (\<exists>nE nM. victims_count n c V nE nM)"

lemma victims_ok_same:
  assumes "victims_ok n c V" and "V' \<subseteq> V" and "n \<le> m"
    and "qc_pollutionEvictions c' = qc_pollutionEvictions c" and "qc_pollutionMisses c' = qc_pollutionMisses c"
  shows "victims_ok m c' V'"
proof -
  obtain nE nM where g: "victims_count n c V nE nM" using assms(1) by (auto simp: victims_ok_def)
  then have "finite V'" "card V' \<le> card V"
    using assms(2) by (auto simp: victims_count_def finite_subset card_mono)
  then have "victims_count m c' V' nE nM"
    using g assms(3-5) by (auto simp: victims_count_def)
  then show ?thesis by (auto simp: victims_ok_def)
qed

lemma victims_ok_evict:
  assumes "victims_ok n c V" and "qc_pollutionEvictions c' = qc_pollutionEvictions c + 1"
    and "qc_pollutionMisses c' = qc_pollutionMisses c"
  shows "victims_ok (Suc n) c' (insert v V)"
proof -
  obtain nE nM where g: "victims_count n c V nE nM" using assms(1) by (auto simp: victims_ok_def)
  then have "card (insert v V) \<le> Suc (card V)" by (simp add: victims_count_def card_insert_if)
  then have "victims_count (Suc n) c' (insert v V) (Suc nE) nM"
    using g assms(2,3) by (auto simp: victims_count_def)
  then show ?thesis by (auto simp: victims_ok_def)
qed

lemma victims_ok_miss:
  assumes "victims_ok n c V" and "v \<in> V" and "qc_pollutionMisses c' = qc_pollutionMisses c + 1"
    and "qc_pollutionEvictions c' = qc_pollutionEvictions c"
  shows "victims_ok (Suc n) c' (V - {v})"
proof -
  obtain nE nM where g: "victims_count n c V nE nM" using assms(1) by (auto simp: victims_ok_def)
  then have "card V = Suc (card (V - {v}))"
    using assms(2) by (intro card_Suc_Diff1 [symmetric]) (auto simp: victims_count_def)
  then have "victims_count (Suc n) c' (V - {v}) nE (Suc nM)"
    using g assms(3,4) by (auto simp: victims_count_def)
  then show ?thesis by (auto simp: victims_ok_def)
qed

abbreviation victims_inv :: "nat \<Rightarrow> quality_tracker \<Rightarrow> bool" where
  "victims_inv n q \<equiv> victims_ok n (qt_counts q) (qt_victims q)"

lemma victims_inv_lookup:
  assumes ok: "victims_inv n q"
  shows "victims_inv (Suc n) (Quality_demandLookup l h now q)"
proof (cases "polluted q l h")
  case True
  then have "l \<in> qt_victims q" by (simp add: polluted_def)
  with True show ?thesis
    unfolding lookup_fields by (intro victims_ok_miss [OF ok]) (simp_all add: lookup_counts)
next
  case False
  then show ?thesis
    unfolding lookup_fields by (intro victims_ok_same [OF ok]) (auto simp: lookup_counts)
qed

lemma victims_inv_victim:
  assumes ok: "victims_inv n q"
  shows "victims_inv (Suc n) (Quality_victim org v vo q)"
proof (cases "org = DVR \<and> vo = Demand \<and> ShadowCache_contains (qt_shadow q) v")
  case True
  then show ?thesis
    using victims_ok_evict [OF ok, of "qt_counts (Quality_victim org v vo q)" v]
    by (simp add: victim_fields victim_counts)
next
  case False
  then show ?thesis
    using victims_ok_same [OF ok, of "qt_victims q - {v}" "Suc n" "qt_counts (Quality_victim org v vo q)"]
    by (auto simp: victim_fields victim_counts)
qed

lemma victims_inv_install:
  assumes ok: "victims_inv n q"
  shows "victims_inv n (Quality_install l org now q)"
  by (rule victims_ok_same [OF ok]) (auto simp: Quality_install_def Let_def split: fill_origin.split)

lemma victims_inv_step: "victims_inv n q \<Longrightarrow> victims_inv (Suc n) (quality_step e q)"
proof (cases e)
  case (CompletedLine line now)
  assume *: "victims_inv n q"
  show ?thesis
  proof (cases "Quality_completedLine line now q")
    case (Inl e)
    then show ?thesis using CompletedLine victims_ok_same [OF *] by (simp add: or_unchanged_def)
  next
    case (Inr q')
    then have "same_use q q'"
      using completeAll_same_use [of _ now q q'] by (simp add: Quality_completedLine_def Let_def)
    then show ?thesis
      using CompletedLine Inr victims_ok_same [OF *, of "qt_victims q'" "Suc n" "qt_counts q'"]
      by (simp add: or_unchanged_def same_use_def)
  qed
next
  case (Fill l org now v vo)
  assume *: "victims_inv n q"
  then show ?thesis
    using Fill victims_inv_install victims_inv_victim victims_ok_same [OF *, of "qt_victims q" "Suc n"]
      victims_ok_same [OF victims_inv_install [OF *]]
    by (auto simp: Quality_cacheFill_def or_unchanged_def split: option.split)
qed (auto simp: Quality_generated_def Quality_demandAddressObserved_def Quality_issued_def
    Quality_completed_def Quality_dropped_def Quality_cacheRemove_def or_unchanged_def
    victims_inv_lookup Let_def
    intro!: victims_ok_same [where c = "qt_counts q" and V = "qt_victims q" and n = n]
    split: option.split)

section \<open>Properties\<close>

definition quality_inv :: "nat \<Rightarrow> quality_tracker \<Rightarrow> bool" where
  "quality_inv n q \<longleftrightarrow> requests_ok n q \<and> fills_inv n q \<and> victims_inv n q"

lemma quality_inv_new:
  assumes "Quality_new s w b = Inr q"
  shows "quality_inv 0 q"
proof -
  have "requests_count 0 q 0 0 0" "fills_count 0 (qt_counts q) (qt_prefetched q) 0 0 0 0 0 0"
    "victims_count 0 (qt_counts q) (qt_victims q) 0 0"
    using assms by (auto simp: Quality_new_def requests_count_def mirrored_def fills_count_def
        victims_count_def zero_counters_def unused_lines_def split: sum.splits)
  then show ?thesis
    unfolding quality_inv_def requests_ok_def fills_ok_def victims_ok_def by blast
qed

interpretation quality: counted_machine quality_step quality_inv
  by unfold_locales (simp add: quality_inv_def requests_ok_step fills_inv_step victims_inv_step)

lemma unat_of_nat_small: "k < 2 ^ 64 \<Longrightarrow> unat (of_nat k :: u64) = k"
  by (simp add: unat_of_nat)

text \<open>
  C4. Soundness of the quality metrics. After any sequence of fewer than \<open>2 ^ 64\<close> calls on a new
  tracker, timely uses, unused evictions and redundant fills together do not exceed the helper's
  fills (so both accuracies are at most one), a covered miss is both a timely use and a shadow
  miss (coverage is at most one), pollution misses do not exceed pollution evictions, and the
  requests completed and still in flight do not exceed the requests issued.
\<close>

theorem quality_metrics_sound:
  assumes new: "Quality_new sets ways bytes = Inr q0" and len: "length es < 2 ^ 64"
    and q: "q = fold quality_step es q0"
  shows "unat (qc_usefulTimely (qt_counts q)) + unat (qc_unusedEvictions (qt_counts q)) +
      unat (qc_redundantFills (qt_counts q)) \<le> unat (qc_fills (qt_counts q)) \<and>
    qc_coveredMisses (qt_counts q) \<le> qc_usefulTimely (qt_counts q) \<and>
    qc_coveredMisses (qt_counts q) \<le> qc_shadowDemandMisses (qt_counts q) \<and>
    qc_pollutionMisses (qt_counts q) \<le> qc_pollutionEvictions (qt_counts q) \<and>
    unat (qc_completed (qt_counts q)) + card (dom (qt_outstanding q)) \<le> unat (qc_issued (qt_counts q))"
proof -
  have inv: "quality_inv (length es) q"
    using quality.run_count [OF quality_inv_new [OF new], of es] by (simp add: q)
  obtain nF nU nE nR nC nM where f: "fills_count (length es) (qt_counts q) (qt_prefetched q) nF nU nE nR nC nM"
    using inv by (auto simp: quality_inv_def fills_ok_def)
  obtain vE vM where v: "victims_count (length es) (qt_counts q) (qt_victims q) vE vM"
    using inv by (auto simp: quality_inv_def victims_ok_def)
  obtain nI nD nX where r: "requests_count (length es) q nI nD nX"
    using inv by (auto simp: quality_inv_def requests_ok_def)
  have small: "unat (of_nat k :: u64) = k" if "k \<le> length es" for k
    using that len by (intro unat_of_nat_small) simp
  have "unat (qc_completed (qt_counts q)) + card (dom (qt_outstanding q)) \<le> unat (qc_issued (qt_counts q))"
  proof -
    have "nI \<le> length es" "nD \<le> length es" "nI = nD + nX + card (dom (qt_outstanding q))"
      using r by (auto simp: requests_count_def)
    moreover have "qc_issued (qt_counts q) = of_nat nI" "qc_completed (qt_counts q) = of_nat nD"
      using r by (simp_all only: requests_count_def)
    ultimately show ?thesis using small [of nI] small [of nD] by simp
  qed
  then show ?thesis
    using f v by (auto simp: fills_count_def victims_count_def small word_le_nat_alt)
qed

theorem quality_metrics_sound_witness:
  "\<exists>q0. Quality_new 2 1 64 = Inr q0 \<and>
     qc_pollutionMisses (qt_counts (fold quality_step [Lookup 0 False 1, Fill 128 DVR 2 (Some 0) (Some Demand)] q0))
       \<le> qc_pollutionEvictions (qt_counts (fold quality_step
            [Lookup 0 False 1, Fill 128 DVR 2 (Some 0) (Some Demand)] q0))"
proof -
  obtain q0 where "Quality_new 2 1 64 = Inr q0"
    by (simp add: Quality_new_def ShadowCache_new_def)
  then show ?thesis
    using quality_metrics_sound [of 2 1 64 q0 "[Lookup 0 False 1, Fill 128 DVR 2 (Some 0) (Some Demand)]"]
    by (intro exI [of _ q0]) simp
qed

text \<open>
  \<open>completedLine\<close> never throws in a reachable state: it retires exactly the outstanding requests
  of its line, one \<open>completed\<close> call each, and no other request.
\<close>

theorem completedLine_total:
  assumes new: "Quality_new sets ways bytes = Inr q0" and q: "q = fold quality_step es q0"
  shows "\<exists>q'. Quality_completedLine line now q = Inr q' \<and>
    (\<forall>i. qt_outstanding q' i = (case qt_outstanding q i of None \<Rightarrow> None
        | Some r \<Rightarrow> if rq_line r = line then None else Some r))"
proof -
  have m: "mirrored q"
    using quality.run_count [OF quality_inv_new [OF new], of es]
    by (auto simp: q quality_inv_def requests_ok_def requests_count_def)
  let ?ids = "map snd (filter (\<lambda>p. fst p = line) (qt_byLine q))"
  have "\<forall>i \<in> set ?ids. qt_outstanding q i \<noteq> None"
    unfolding line_ids(2) [OF m] by auto
  then obtain q' where "Quality_completeAll ?ids now q = Inr q'"
    "qt_outstanding q' = (\<lambda>i. if i \<in> set ?ids then None else qt_outstanding q i)"
    using completeAll_total [OF line_ids(1) [OF m]] by blast
  then show ?thesis
    unfolding line_ids(2) [OF m]
    by (intro exI [of _ q']) (auto simp: Quality_completedLine_def Let_def split: option.split)
qed


text \<open>
  The shadow cache is LRU per set: after an access to \<open>x\<close> followed by accesses \<open>ys\<close> to other
  lines, the next access to \<open>x\<close> hits exactly when fewer than \<open>ways\<close> distinct lines of the same
  set occur in \<open>ys\<close>.
\<close>

theorem shadow_reuse_distance:
  assumes ok: "shadow_ok c" and x: "x \<notin> set ys"
    and c': "c' = fold (\<lambda>l c. snd (ShadowCache_access l c)) ys (snd (ShadowCache_access x c))"
  shows "fst (ShadowCache_access x c') \<longleftrightarrow>
    card {y \<in> set ys. ShadowCache_index c y = ShadowCache_index c x} < sc_ways c"
proof -
  let ?i = "ShadowCache_index c x"
  have geo: "shadow_geometry (length (sc_sets c)) (sc_ways c) (sc_lineBytes c) c \<and> ?i < length (sc_sets c)"
    using ok index_less by (simp add: shadow_geometry_def)
  have geo': "shadow_geometry (length (sc_sets c)) (sc_ways c) (sc_lineBytes c) c' \<and> ?i < length (sc_sets c)"
    unfolding c' by (intro shadow.inv_touches shadow.inv_touch geo)
  then have "ShadowCache_index c' x = ?i" and ok': "shadow_ok c'"
    by (simp_all add: shadow_geometry_def ShadowCache_index_def)
  then have "fst (ShadowCache_access x c') \<longleftrightarrow> x \<in> set (sc_sets c' ! ?i)"
    by (simp add: access_eq)
  also have "\<dots> \<longleftrightarrow> card {y \<in> set ys. ShadowCache_index c y = ?i} < sc_ways c"
    unfolding c' using shadow.reuse_distance [OF geo _ x] by (simp add: ShadowCache_index_def)
  finally show ?thesis .
qed


end
