(* ===== verification/DVR_Nested.thy ===== *)
theory DVR_Nested
  imports DVR_Prelude
begin

text \<open>
  \<open>DVRNestedController\<close> (\<open>src/code/gem5-runahead-dev-pre/src/cpu/o3/dvr_nested.hh\<close> and \<open>.cc\<close>):
  a stack of at most two discovery frames, a root and one child, driven by starts,
  completions and committed instructions. \<open>frames\<close> is a list of length two; \<open>depth\<close> values
  are \<open>nat\<close>; the per-frame instruction count is \<open>32 word\<close>, because the root's count keeps
  growing while children are active. Every operation returns its \<open>Result\<close> and the new
  controller.

  The abstract specification is a stack of frames; \<open>stack_of\<close> is the refinement map.
\<close>

section \<open>Model\<close>

definition Nested_MaxDepth :: nat where
  "Nested_MaxDepth = 2"

datatype nested_event =
    NoEvent | Started | Completed | TimedOut | RejectedDepth | RejectedParent | RejectedOrder

record nested_result =
  nr_event :: nested_event
  nr_id :: u64
  nr_parentId :: u64
  nr_depth :: nat
  nr_triggerPC :: addr
  nr_finalLoadPC :: addr
  nr_committed :: u32

record nested_statistics =
  ns_rootStarts :: u64
  ns_nestedStarts :: u64
  ns_rootCompletions :: u64
  ns_nestedCompletions :: u64
  ns_rootTimeouts :: u64
  ns_nestedTimeouts :: u64
  ns_depthRejects :: u64
  ns_parentRejects :: u64
  ns_orderRejects :: u64

record nested_frame =
  nf_id :: u64
  nf_parentId :: u64
  nf_triggerPC :: addr
  nf_triggerSequence :: inst_seq
  nf_committed :: u32

record nested_controller =
  nc_frames :: "nested_frame list"
  nc_activeDepth :: nat
  nc_maxInstructions :: u32
  nc_nextId :: u64
  nc_counters :: nested_statistics

definition no_result :: nested_result where
  "no_result = \<lparr>nr_event = NoEvent, nr_id = 0, nr_parentId = 0, nr_depth = 0, nr_triggerPC = 0,
     nr_finalLoadPC = 0, nr_committed = 0\<rparr>"

definition empty_frame :: nested_frame where
  "empty_frame = \<lparr>nf_id = 0, nf_parentId = 0, nf_triggerPC = 0, nf_triggerSequence = 0, nf_committed = 0\<rparr>"

definition zero_statistics :: nested_statistics where
  "zero_statistics = \<lparr>ns_rootStarts = 0, ns_nestedStarts = 0, ns_rootCompletions = 0,
     ns_nestedCompletions = 0, ns_rootTimeouts = 0, ns_nestedTimeouts = 0, ns_depthRejects = 0,
     ns_parentRejects = 0, ns_orderRejects = 0\<rparr>"

text \<open>The constructor asserts a positive budget; a failed assertion is \<open>None\<close>.\<close>

definition Nested_new :: "u32 \<Rightarrow> nested_controller option" where
  "Nested_new max_instructions =
     (if max_instructions > 0
      then Some \<lparr>nc_frames = replicate Nested_MaxDepth empty_frame, nc_activeDepth = 0,
             nc_maxInstructions = max_instructions, nc_nextId = 1, nc_counters = zero_statistics\<rparr>
      else None)"

definition Nested_active :: "nested_controller \<Rightarrow> bool" where
  "Nested_active c \<longleftrightarrow> nc_activeDepth c \<noteq> 0"

definition top_frame :: "nested_controller \<Rightarrow> nested_frame" where
  "top_frame c = nc_frames c ! (nc_activeDepth c - 1)"

definition Nested_reject :: "nested_event \<Rightarrow> nested_controller \<Rightarrow> nested_result \<times> nested_controller" where
  "Nested_reject event c =
     (no_result\<lparr>nr_event := event, nr_depth := nc_activeDepth c\<rparr>,
      c\<lparr>nc_counters :=
         (let s = nc_counters c
          in if event = RejectedDepth then s\<lparr>ns_depthRejects := ns_depthRejects s + 1\<rparr>
             else if event = RejectedParent then s\<lparr>ns_parentRejects := ns_parentRejects s + 1\<rparr>
             else if event = RejectedOrder then s\<lparr>ns_orderRejects := ns_orderRejects s + 1\<rparr>
             else s)\<rparr>)"

definition Nested_startRoot ::
    "addr \<Rightarrow> inst_seq \<Rightarrow> nested_controller \<Rightarrow> nested_result \<times> nested_controller" where
  "Nested_startRoot trigger_pc seq c =
     (if Nested_active c then Nested_reject RejectedParent c
      else
        (let frame = \<lparr>nf_id = nc_nextId c, nf_parentId = 0, nf_triggerPC = trigger_pc,
                      nf_triggerSequence = seq, nf_committed = 0\<rparr>;
             s = nc_counters c
         in (no_result\<lparr>nr_event := Started, nr_id := nf_id frame, nr_depth := 1,
                       nr_triggerPC := trigger_pc\<rparr>,
             c\<lparr>nc_frames := (nc_frames c)[0 := frame], nc_nextId := nc_nextId c + 1,
               nc_activeDepth := 1, nc_counters := s\<lparr>ns_rootStarts := ns_rootStarts s + 1\<rparr>\<rparr>)))"

definition Nested_startNested ::
    "u64 \<Rightarrow> addr \<Rightarrow> inst_seq \<Rightarrow> nested_controller \<Rightarrow> nested_result \<times> nested_controller" where
  "Nested_startNested parent_id trigger_pc seq c =
     (if \<not> Nested_active c \<or> nf_id (top_frame c) \<noteq> parent_id then Nested_reject RejectedParent c
      else if nc_activeDepth c = Nested_MaxDepth then Nested_reject RejectedDepth c
      else
        (let frame = \<lparr>nf_id = nc_nextId c, nf_parentId = parent_id, nf_triggerPC = trigger_pc,
                      nf_triggerSequence = seq, nf_committed = 0\<rparr>;
             s = nc_counters c;
             depth = nc_activeDepth c + 1
         in (no_result\<lparr>nr_event := Started, nr_id := nf_id frame, nr_parentId := parent_id,
                       nr_depth := depth, nr_triggerPC := trigger_pc\<rparr>,
             c\<lparr>nc_frames := (nc_frames c)[nc_activeDepth c := frame], nc_nextId := nc_nextId c + 1,
               nc_activeDepth := depth, nc_counters := s\<lparr>ns_nestedStarts := ns_nestedStarts s + 1\<rparr>\<rparr>)))"

definition Nested_timeoutTop :: "nested_controller \<Rightarrow> nested_result \<times> nested_controller" where
  "Nested_timeoutTop c =
     (let frame = top_frame c; d = nc_activeDepth c; s = nc_counters c
      in (\<lparr>nr_event = TimedOut, nr_id = nf_id frame, nr_parentId = nf_parentId frame, nr_depth = d,
           nr_triggerPC = nf_triggerPC frame, nr_finalLoadPC = 0, nr_committed = nf_committed frame\<rparr>,
          c\<lparr>nc_frames := (nc_frames c)[d - 1 := empty_frame], nc_activeDepth := d - 1,
            nc_counters := (if d = 1 then s\<lparr>ns_rootTimeouts := ns_rootTimeouts s + 1\<rparr>
                            else s\<lparr>ns_nestedTimeouts := ns_nestedTimeouts s + 1\<rparr>)\<rparr>))"

definition Nested_complete :: "u64 \<Rightarrow> addr \<Rightarrow> nested_controller \<Rightarrow> nested_result \<times> nested_controller" where
  "Nested_complete did final_load_pc c =
     (if \<not> Nested_active c \<or> nf_id (top_frame c) \<noteq> did then Nested_reject RejectedOrder c
      else
        (let frame = top_frame c; d = nc_activeDepth c; s = nc_counters c
         in (\<lparr>nr_event = Completed, nr_id = nf_id frame, nr_parentId = nf_parentId frame, nr_depth = d,
              nr_triggerPC = nf_triggerPC frame, nr_finalLoadPC = final_load_pc,
              nr_committed = nf_committed frame\<rparr>,
             c\<lparr>nc_frames := (nc_frames c)[d - 1 := empty_frame], nc_activeDepth := d - 1,
               nc_counters := (if d = 1 then s\<lparr>ns_rootCompletions := ns_rootCompletions s + 1\<rparr>
                               else s\<lparr>ns_nestedCompletions := ns_nestedCompletions s + 1\<rparr>)\<rparr>)))"

definition Nested_age :: "nested_controller \<Rightarrow> nested_controller" where
  "Nested_age c = c\<lparr>nc_frames :=
     fold (\<lambda>i fs. fs[i := (fs ! i)\<lparr>nf_committed := nf_committed (fs ! i) + 1\<rparr>])
       [0..<nc_activeDepth c] (nc_frames c)\<rparr>"

definition Nested_observeCommit ::
    "addr \<Rightarrow> inst_seq \<Rightarrow> nested_controller \<Rightarrow> nested_result \<times> nested_controller" where
  "Nested_observeCommit pc seq c =
     (if \<not> Nested_active c then (no_result, c)
      else if nc_activeDepth c > 1 \<and> seq > nf_triggerSequence (top_frame c) \<and> pc = nf_triggerPC (top_frame c)
      then Nested_complete (nf_id (top_frame c)) pc c
      else
        (let c = Nested_age c
         in if nf_committed (top_frame c) \<ge> nc_maxInstructions c then Nested_timeoutTop c
            else (no_result, c)))"

definition Nested_currentId :: "nested_controller \<Rightarrow> u64 option" where
  "Nested_currentId c = (if \<not> Nested_active c then None else Some (nf_id (top_frame c)))"

definition Nested_rootId :: "nested_controller \<Rightarrow> u64 option" where
  "Nested_rootId c = (if \<not> Nested_active c then None else Some (nf_id (nc_frames c ! 0)))"

definition Nested_reset :: "nested_controller \<Rightarrow> nested_controller" where
  "Nested_reset c = c\<lparr>nc_frames := replicate Nested_MaxDepth empty_frame, nc_activeDepth := 0\<rparr>"

definition Nested_clear :: "nested_controller \<Rightarrow> nested_controller" where
  "Nested_clear c = (Nested_reset c)\<lparr>nc_counters := zero_statistics, nc_nextId := 1\<rparr>"

section \<open>Invariant\<close>

datatype nested_call =
    StartRoot addr inst_seq
  | StartNested u64 addr inst_seq
  | Commit addr inst_seq
  | Complete u64 addr
  | Reset
  | Clear

fun nested_step :: "nested_call \<Rightarrow> nested_controller \<Rightarrow> nested_controller" where
  "nested_step (StartRoot pc s) c = snd (Nested_startRoot pc s c)"
| "nested_step (StartNested p pc s) c = snd (Nested_startNested p pc s c)"
| "nested_step (Commit pc s) c = snd (Nested_observeCommit pc s c)"
| "nested_step (Complete i pc) c = snd (Nested_complete i pc c)"
| "nested_step Reset c = Nested_reset c"
| "nested_step Clear c = Nested_clear c"

text \<open>
  Free slots are cleared, the depth never passes two, the child names the root as its
  parent, and a child is always within its budget.
\<close>

definition nested_ok :: "nested_controller \<Rightarrow> bool" where
  "nested_ok c \<longleftrightarrow> nc_maxInstructions c > 0 \<and>
     (\<exists>f g. nc_frames c = [f, g] \<and>
        (nc_activeDepth c = 0 \<and> f = empty_frame \<and> g = empty_frame \<or>
         nc_activeDepth c = 1 \<and> nf_parentId f = 0 \<and> g = empty_frame \<or>
         nc_activeDepth c = 2 \<and> nf_parentId f = 0 \<and> nf_parentId g = nf_id f \<and>
           nf_committed g < nc_maxInstructions c))"

lemma nested_okE:
  assumes "nested_ok c"
  obtains (idle) "nc_activeDepth c = 0" "nc_frames c = [empty_frame, empty_frame]"
  | (root) f where "nc_activeDepth c = 1" "nc_frames c = [f, empty_frame]" "nf_parentId f = 0"
  | (child) f g where "nc_activeDepth c = 2" "nc_frames c = [f, g]" "nf_parentId f = 0"
      "nf_parentId g = nf_id f" "nf_committed g < nc_maxInstructions c"
  using assms unfolding nested_ok_def by (elim conjE exE disjE) (auto intro: idle root child)

lemmas nested_defs =
  Nested_reject_def Nested_startRoot_def Nested_startNested_def Nested_timeoutTop_def
  Nested_complete_def Nested_observeCommit_def Nested_age_def Nested_reset_def Nested_clear_def
  Nested_active_def Nested_MaxDepth_def top_frame_def Let_def

lemma nested_step_max: "nc_maxInstructions (nested_step e c) = nc_maxInstructions c"
  by (cases e) (simp_all add: nested_defs)

lemma nested_ok_new: "Nested_new m = Some c \<Longrightarrow> nested_ok c"
  by (auto simp: Nested_new_def nested_ok_def Nested_MaxDepth_def numeral_2_eq_2 split: if_splits)

lemma nested_ok_step [inv_intros]:
  assumes ok: "nested_ok c"
  shows "nested_ok (nested_step e c)"
proof -
  have m: "0 < nc_maxInstructions c" using ok by (simp add: nested_ok_def)
  from ok show ?thesis
  proof (cases rule: nested_okE)
    case idle
    then show ?thesis using m
      by (cases e) (auto simp: nested_defs nested_ok_def empty_frame_def numeral_2_eq_2)
  next
    case (root f)
    then show ?thesis using m
      by (cases e) (auto simp: nested_defs nested_ok_def numeral_2_eq_2 not_le)
  next
    case (child f g)
    then show ?thesis using m
      by (cases e) (auto simp: nested_defs nested_ok_def numeral_2_eq_2 not_le)
  qed
qed

interpretation nested: event_machine nested_step nested_ok
  by unfold_locales (rule nested_ok_step)

section \<open>Refinement of a stack of frames\<close>

text \<open>
  The abstract controller is a stack, innermost discovery first. \<open>stack_call\<close> says what a
  call does to it and which event it reports: a start pushes a fresh frame if the named
  parent is the innermost discovery and there is room, a completion pops exactly the
  innermost one, and a commit ages all frames and pops the innermost one when it is over
  budget, unless a child reaches its own trigger again, which completes it.
\<close>

definition stack_of :: "nested_controller \<Rightarrow> nested_frame list" where
  "stack_of c = rev (take (nc_activeDepth c) (nc_frames c))"

definition fresh_frame :: "u64 \<Rightarrow> u64 \<Rightarrow> addr \<Rightarrow> inst_seq \<Rightarrow> nested_frame" where
  "fresh_frame i parent pc seq =
     \<lparr>nf_id = i, nf_parentId = parent, nf_triggerPC = pc, nf_triggerSequence = seq, nf_committed = 0\<rparr>"

definition older :: "nested_frame \<Rightarrow> nested_frame" where
  "older f = f\<lparr>nf_committed := nf_committed f + 1\<rparr>"

fun stack_call :: "u32 \<Rightarrow> u64 \<Rightarrow> nested_call \<Rightarrow> nested_frame list \<Rightarrow> nested_event \<times> nested_frame list" where
  "stack_call m i (StartRoot pc seq) [] = (Started, [fresh_frame i 0 pc seq])"
| "stack_call m i (StartRoot pc seq) (f # fs) = (RejectedParent, f # fs)"
| "stack_call m i (StartNested p pc seq) [] = (RejectedParent, [])"
| "stack_call m i (StartNested p pc seq) (f # fs) =
     (if nf_id f \<noteq> p then (RejectedParent, f # fs)
      else if fs \<noteq> [] then (RejectedDepth, f # fs)
      else (Started, fresh_frame i p pc seq # f # fs))"
| "stack_call m i (Complete d pc) [] = (RejectedOrder, [])"
| "stack_call m i (Complete d pc) (f # fs) =
     (if nf_id f \<noteq> d then (RejectedOrder, f # fs) else (Completed, fs))"
| "stack_call m i (Commit pc seq) [] = (NoEvent, [])"
| "stack_call m i (Commit pc seq) (f # fs) =
     (if fs \<noteq> [] \<and> seq > nf_triggerSequence f \<and> pc = nf_triggerPC f then (Completed, fs)
      else if nf_committed (older f) \<ge> m then (TimedOut, map older fs)
      else (NoEvent, map older (f # fs)))"
| "stack_call m i Reset fs = (NoEvent, [])"
| "stack_call m i Clear fs = (NoEvent, [])"

fun nested_event_of :: "nested_call \<Rightarrow> nested_controller \<Rightarrow> nested_event" where
  "nested_event_of (StartRoot pc s) c = nr_event (fst (Nested_startRoot pc s c))"
| "nested_event_of (StartNested p pc s) c = nr_event (fst (Nested_startNested p pc s c))"
| "nested_event_of (Commit pc s) c = nr_event (fst (Nested_observeCommit pc s c))"
| "nested_event_of (Complete i pc) c = nr_event (fst (Nested_complete i pc c))"
| "nested_event_of Reset c = NoEvent"
| "nested_event_of Clear c = NoEvent"

lemma stack_of_depth:
  "nc_activeDepth c = 0 \<Longrightarrow> stack_of c = []"
  "nc_activeDepth c = 1 \<Longrightarrow> nc_frames c = [f, g] \<Longrightarrow> stack_of c = [f]"
  "nc_activeDepth c = 2 \<Longrightarrow> nc_frames c = [f, g] \<Longrightarrow> stack_of c = [g, f]"
  by (simp_all add: stack_of_def)

lemma stack_simulation:
  assumes ok: "nested_ok c"
  shows "(nested_event_of e c, stack_of (nested_step e c)) =
    stack_call (nc_maxInstructions c) (nc_nextId c) e (stack_of c)"
  using ok
proof (cases rule: nested_okE)
  case idle
  then show ?thesis
    by (cases e) (simp_all add: nested_defs stack_of_def no_result_def fresh_frame_def)
next
  case (root f)
  then show ?thesis
    by (cases e) (auto simp: nested_defs stack_of_def no_result_def fresh_frame_def older_def)
next
  case (child f g)
  then show ?thesis
    by (cases e) (auto simp: nested_defs stack_of_def no_result_def fresh_frame_def older_def
        numeral_2_eq_2)
qed

section \<open>Accounting\<close>

definition nested_balance :: "nested_controller \<Rightarrow> bool" where
  "nested_balance c \<longleftrightarrow>
     ns_rootStarts (nc_counters c) = ns_rootCompletions (nc_counters c) +
       ns_rootTimeouts (nc_counters c) + (if nc_activeDepth c \<ge> 1 then 1 else 0) \<and>
     ns_nestedStarts (nc_counters c) = ns_nestedCompletions (nc_counters c) +
       ns_nestedTimeouts (nc_counters c) + (if nc_activeDepth c \<ge> 2 then 1 else 0)"

lemma nested_balance_step:
  assumes ok: "nested_ok c" and bal: "nested_balance c" and e: "e \<noteq> Reset"
  shows "nested_balance (nested_step e c)"
  using ok
proof (cases rule: nested_okE)
  case idle
  then show ?thesis using bal e
    by (cases e) (auto simp: nested_defs nested_balance_def zero_statistics_def)
next
  case (root f)
  then show ?thesis using bal e
    by (cases e) (auto simp: nested_defs nested_balance_def zero_statistics_def)
next
  case (child f g)
  then show ?thesis using bal e
    by (cases e) (auto simp: nested_defs nested_balance_def zero_statistics_def)
qed

lemma nested_balance_new: "Nested_new m = Some c \<Longrightarrow> nested_balance c"
  by (auto simp: Nested_new_def nested_balance_def zero_statistics_def split: if_splits)

lemma nested_balance_run:
  "nested_ok c \<Longrightarrow> nested_balance c \<Longrightarrow> Reset \<notin> set es \<Longrightarrow> nested_balance (fold nested_step es c)"
proof (induction es arbitrary: c)
  case Nil
  then show ?case by simp
next
  case (Cons e es)
  then have "nested_balance (nested_step e c)" by (intro nested_balance_step) auto
  with Cons show ?case by (simp add: nested_ok_step)
qed

section \<open>Every discovery ends\<close>

definition nested_budget :: "nested_controller \<Rightarrow> nat" where
  "nested_budget c =
     (let m = unat (nc_maxInstructions c) in
      if nc_activeDepth c = 0 then 0
      else if nc_activeDepth c = 1 then
        (if nf_committed (nc_frames c ! 0) < nc_maxInstructions c
         then m - unat (nf_committed (nc_frames c ! 0)) else 1)
      else m - unat (nf_committed (nc_frames c ! 1)) + m)"

definition nested_window_inv :: "nested_controller \<Rightarrow> bool" where
  "nested_window_inv c \<longleftrightarrow> nested_ok c \<and>
     unat (nf_committed (nc_frames c ! 0)) + nested_budget c < 2 ^ 32"

definition commit_call :: "addr \<times> inst_seq \<Rightarrow> nested_controller \<Rightarrow> nested_controller" where
  "commit_call e c = nested_step (Commit (fst e) (snd e)) c"

lemma nested_budget_bounds:
  assumes "nested_ok c"
  shows "Nested_active c \<Longrightarrow> 0 < nested_budget c"
    and "nested_budget c \<le> 2 * unat (nc_maxInstructions c)"
proof -
  have m: "0 < unat (nc_maxInstructions c)"
    using assms by (auto simp: nested_ok_def unat_gt_0 word_gt_0)
  show "0 < nested_budget c" if "Nested_active c"
    using that m by (auto simp: nested_budget_def Let_def Nested_active_def word_less_nat_alt)
  show "nested_budget c \<le> 2 * unat (nc_maxInstructions c)"
    using m by (auto simp: nested_budget_def Let_def)
qed

lemma unat_word_succ:
  fixes w :: u32
  assumes "unat w + k < 2 ^ 32" "0 < k"
  shows "unat (w + 1) = Suc (unat w)"
proof -
  have "w + 1 \<noteq> 0"
  proof
    assume "w + 1 = 0"
    then have "w = - 1" by (metis add.commute eq_neg_iff_add_eq_0)
    with assms show False by (simp add: unsigned_minus_1_eq_mask mask_eq_exp_minus_1)
  qed
  then show ?thesis by (metis unatSuc add.commute)
qed

lemma commit_call_window:
  assumes inv: "nested_window_inv c" and act: "Nested_active c"
  shows "nested_window_inv (commit_call e c) \<and>
    (Nested_active (commit_call e c) \<longrightarrow> nested_budget (commit_call e c) < nested_budget c)"
proof -
  have ok: "nested_ok c" and room: "unat (nf_committed (nc_frames c ! 0)) + nested_budget c < 2 ^ 32"
    using inv by (simp_all add: nested_window_inv_def)
  have m: "0 < unat (nc_maxInstructions c)"
    using ok by (auto simp: nested_ok_def unat_gt_0 word_gt_0)
  have ok': "nested_ok (commit_call e c)" unfolding commit_call_def by (rule nested_ok_step [OF ok])
  have succ: "unat (nf_committed (nc_frames c ! 0) + 1) = Suc (unat (nf_committed (nc_frames c ! 0)))"
    using room nested_budget_bounds(1) [OF ok act] by (rule unat_word_succ)
  from ok show ?thesis
  proof (cases rule: nested_okE)
    case idle
    with act show ?thesis by (simp add: Nested_active_def)
  next
    case (root f)
    then show ?thesis using room ok' m succ
      by (auto simp: nested_window_inv_def commit_call_def nested_defs nested_budget_def
          empty_frame_def word_less_nat_alt word_le_nat_alt split: if_splits)
  next
    case (child f g)
    have "unat (nf_committed g + 1) = Suc (unat (nf_committed g))"
      using child(5) by (rule unat_add_one)
    with child show ?thesis using room ok' m succ
      by (auto simp: nested_window_inv_def commit_call_def nested_defs nested_budget_def
          numeral_2_eq_2 word_less_nat_alt word_le_nat_alt split: if_splits)
  qed
qed

interpretation nested_window: commit_window commit_call Nested_active nested_budget "\<lambda>e c. True"
  nested_window_inv
  using commit_call_window nested_budget_bounds(1) by unfold_locales (auto simp: nested_window_inv_def)

lemma nested_all_ok: "nested_window.all_ok es c"
  by (induction es arbitrary: c) simp_all

lemma nested_stays_open:
  "(\<And>k. k \<le> length es \<Longrightarrow> Nested_active (fold commit_call (take k es) c)) \<Longrightarrow>
    nested_window.stays_open es c"
proof (induction es arbitrary: c)
  case Nil
  from Nil [of 0] show ?case by simp
next
  case (Cons e es)
  have "Nested_active c" using Cons.prems [of 0] by simp
  moreover have "nested_window.stays_open es (commit_call e c)"
  proof (rule Cons.IH)
    fix k assume "k \<le> length es"
    then show "Nested_active (fold commit_call (take k es) (commit_call e c))"
      using Cons.prems [of "Suc k"] by simp
  qed
  ultimately show ?case by simp
qed

section \<open>Properties\<close>

text \<open>
  C7 (refinement). Started with a positive budget, the two-slot array and its depth
  counter implement the abstract stack under every sequence of calls: the invariant holds
  in every reachable state, and each further call reports the event of the abstract call
  and leaves the stack of the abstract call.
\<close>

theorem nested_refines_stack:
  assumes "Nested_new m = Some c"
  shows "nested_ok (fold nested_step es c) \<and>
    (nested_event_of e (fold nested_step es c), stack_of (nested_step e (fold nested_step es c))) =
      stack_call m (nc_nextId (fold nested_step es c)) e (stack_of (fold nested_step es c))"
proof -
  have ok: "nested_ok (fold nested_step es c)"
    by (rule nested.run_inv [OF nested_ok_new [OF assms]])
  have "nc_maxInstructions (fold nested_step es c) = nc_maxInstructions c"
    by (induction es arbitrary: c) (simp_all add: nested_step_max)
  moreover have "nc_maxInstructions c = m"
    using assms by (auto simp: Nested_new_def split: if_splits)
  ultimately show ?thesis using ok stack_simulation [OF ok, of e] by simp
qed

text \<open>
  Every started discovery is accounted for: as long as the stack is not
  reset from outside, root starts are the root completions, the root timeouts and the
  root still active, and the same for nested discoveries (modulo \<open>2 ^ 64\<close>, as the counters).
\<close>

theorem nested_starts_accounted:
  assumes "Nested_new m = Some c" and "Reset \<notin> set es"
  shows "nested_balance (fold nested_step es c)"
  using assms by (intro nested_balance_run nested_ok_new nested_balance_new)

text \<open>
  C9 (termination). Committed instructions alone close every discovery: from a reachable
  state whose root count is far enough from wrapping, after \<open>2 * max\<close> commits there was a
  point where no discovery was active, whatever the committed instructions were.
\<close>

theorem nested_window_closes:
  assumes "nested_ok c"
    and "unat (nf_committed (nc_frames c ! 0)) + 2 * unat (nc_maxInstructions c) < 2 ^ 32"
    and "2 * unat (nc_maxInstructions c) \<le> length es"
  shows "\<exists>k \<le> length es. \<not> Nested_active (fold commit_call (take k es) c)"
proof (rule ccontr)
  assume "\<not> ?thesis"
  then have "nested_window.stays_open es c" by (intro nested_stays_open) blast
  moreover have "nested_window_inv c"
    using assms(1,2) nested_budget_bounds(2) [OF assms(1)] by (simp add: nested_window_inv_def)
  ultimately have "length es < nested_budget c"
    using nested_all_ok nested_window.window_closes by blast
  with nested_budget_bounds(2) [OF assms(1)] assms(3) show False by simp
qed

definition demo_nested :: nested_controller where
  "demo_nested = the (Nested_new 3)"

lemma demo_nested_new: "Nested_new 3 = Some demo_nested"
proof -
  have "(3::u32) > 0" by code_simp
  then show ?thesis by (simp add: demo_nested_def Nested_new_def)
qed

lemma demo_nested_eq:
  "demo_nested = \<lparr>nc_frames = [empty_frame, empty_frame], nc_activeDepth = 0,
     nc_maxInstructions = 3, nc_nextId = 1, nc_counters = zero_statistics\<rparr>"
  using demo_nested_new by (auto simp: Nested_new_def Nested_MaxDepth_def numeral_2_eq_2 split: if_splits)

theorem nested_refines_stack_witness:
  "stack_call 3 3 (Complete 1 64) (stack_of (fold nested_step [StartRoot 16 1, StartNested 1 32 2] demo_nested))
     = (RejectedOrder, [fresh_frame 2 1 32 2, fresh_frame 1 0 16 1]) \<and>
   nested_event_of (Complete 1 64) (fold nested_step [StartRoot 16 1, StartNested 1 32 2] demo_nested)
     = RejectedOrder"
proof -
  let ?c = "fold nested_step [StartRoot 16 1, StartNested 1 32 2] demo_nested"
  have st: "stack_of ?c = [fresh_frame 2 1 32 2, fresh_frame 1 0 16 1]"
    by (simp add: demo_nested_eq nested_defs stack_of_def fresh_frame_def)
  have nid: "nc_nextId ?c = 3"
    by (simp add: demo_nested_eq nested_defs)
  show ?thesis
    using nested_refines_stack [OF demo_nested_new, of "[StartRoot 16 1, StartNested 1 32 2]" "Complete 1 64"]
    unfolding st nid by (auto simp: fresh_frame_def)
qed


theorem nested_window_closes_witness:
  "\<exists>k \<le> 6. \<not> Nested_active (fold commit_call (take k (replicate 6 (8, 9)))
     (nested_step (StartRoot 16 1) demo_nested))"
proof -
  let ?c = "nested_step (StartRoot 16 1) demo_nested"
  have "nested_ok ?c" by (rule nested_ok_step [OF nested_ok_new [OF demo_nested_new]])
  moreover have "nc_maxInstructions ?c = 3" "nf_committed (nc_frames ?c ! 0) = 0"
    by (simp_all add: demo_nested_eq nested_defs)
  ultimately show ?thesis
    using nested_window_closes [of ?c "replicate 6 (8, 9)"] by (auto simp del: fold_replicate)
qed

end
