(* ===== verification/DVR_NDM.thy ===== *)
theory DVR_NDM
  imports DVR_Prelude
begin

text \<open>
  \<open>DVRNestedDiscoveryMode\<close> (\<open>src/code/gem5-runahead-dev-pre/src/cpu/o3/dvr_nested.hh\<close> 124-319
  and \<open>dvr_nested.cc\<close> 144-482): the control state of nested discovery. After a short inner
  loop was found, the mode watches the committed stream for an outer striding load, keeps the
  confirmed outer base addresses in a bounded FIFO, and turns one bounded inner invocation
  into a plan of up to sixteen invocations.

  \<open>int8_t\<close> register numbers are \<open>int\<close>; \<open>int64_t\<close> strides and deltas are \<open>64 word\<close> (the
  differences of addresses wrap); \<open>committedInstructions\<close> and the two windows are \<open>32 word\<close>,
  because the collection window is a product that can wrap; the other \<open>unsigned\<close> fields are
  indices or lane numbers and are \<open>nat\<close>. The fixed arrays are lists of their length.
\<close>

section \<open>Model\<close>

datatype ndm_state = Idle | SeekingOuter | OuterFound | Vectorizing

datatype ndm_event = NoEvent | Started | OuterAccepted | VectorizeReady | TimedOut | Fallback

record ndm_control =
  ct_innerBranchPC :: addr
  ct_innerBranchTarget :: addr
  ct_innerFallthrough :: addr
  ct_reconvergencePC :: addr
  ct_inductionRegister :: int
  ct_boundRegister :: int
  ct_inductionValue :: reg_val
  ct_boundValue :: reg_val
  ct_inductionIncrement :: i64
  ct_remainingIterations :: u64
  ct_branchTaken :: bool
  ct_branchInverted :: bool
  ct_valid :: bool
  ct_takenMask :: lane_mask
  ct_fallthroughMask :: lane_mask

record outer_invocation =
  oi_outerBase :: addr
  oi_innerStart :: addr
  oi_innerLanes :: nat
  oi_innerTriggerPC :: addr
  oi_innerFLRPC :: addr
  oi_innerStride :: i64
  oi_predicate :: lane_mask
  oi_reconvergencePC :: addr

record outer_probe =
  op_pc :: addr
  op_address :: addr
  op_stride :: i64
  op_samples :: nat
  op_recent :: "addr list"

record ndm_statistics =
  nd_attempts :: u64
  nd_outerFound :: u64
  nd_fallbacks :: u64
  nd_timeouts :: u64
  nd_branchInversions :: u64
  nd_irCaptures :: u64
  nd_ilrCaptures :: u64
  nd_lcrCaptures :: u64
  nd_outerInvocations :: u64

record ndm =
  nm_state :: ndm_state
  nm_laneThreshold :: nat
  nm_searchMax :: u32
  nm_collectMax :: u32
  nm_committed :: u32
  nm_innerLoadPC :: addr
  nm_increment :: i64
  nm_innerLanes :: nat
  nm_outerLoadPC :: addr
  nm_outerAddress :: addr
  nm_outerStride :: i64
  nm_invocations :: "outer_invocation list"
  nm_invocationCount :: nat
  nm_probes :: "outer_probe list"
  nm_pendingBases :: "addr list"
  nm_pendingCount :: nat
  nm_pendingConsumed :: nat
  nm_control :: ndm_control
  nm_counters :: ndm_statistics

record ndm_result =
  rs_event :: ndm_event
  rs_state :: ndm_state
  rs_innerLoadPC :: addr
  rs_increment :: i64
  rs_innerLanes :: nat
  rs_outerLoadPC :: addr
  rs_outerAddress :: addr
  rs_outerStride :: i64
  rs_committed :: u32
  rs_control :: ndm_control

definition PaperOuterSearchInstructions :: u32 where
  "PaperOuterSearchInstructions = 200"

definition MaxOuterInvocations :: nat where
  "MaxOuterInvocations = 16"

definition no_control :: ndm_control where
  "no_control = \<lparr>ct_innerBranchPC = 0, ct_innerBranchTarget = 0, ct_innerFallthrough = 0,
     ct_reconvergencePC = 0, ct_inductionRegister = - 1, ct_boundRegister = - 1,
     ct_inductionValue = 0, ct_boundValue = 0, ct_inductionIncrement = 0,
     ct_remainingIterations = 0, ct_branchTaken = False, ct_branchInverted = False,
     ct_valid = False, ct_takenMask = empty_mask, ct_fallthroughMask = empty_mask\<rparr>"

definition no_invocation :: outer_invocation where
  "no_invocation = \<lparr>oi_outerBase = 0, oi_innerStart = 0, oi_innerLanes = 0, oi_innerTriggerPC = 0,
     oi_innerFLRPC = 0, oi_innerStride = 0, oi_predicate = empty_mask, oi_reconvergencePC = 0\<rparr>"

definition no_probe :: outer_probe where
  "no_probe = \<lparr>op_pc = 0, op_address = 0, op_stride = 0, op_samples = 0, op_recent = [0, 0, 0]\<rparr>"

definition zero_ndm_statistics :: ndm_statistics where
  "zero_ndm_statistics = \<lparr>nd_attempts = 0, nd_outerFound = 0, nd_fallbacks = 0, nd_timeouts = 0,
     nd_branchInversions = 0, nd_irCaptures = 0, nd_ilrCaptures = 0, nd_lcrCaptures = 0,
     nd_outerInvocations = 0\<rparr>"

definition no_ndm_result :: ndm_result where
  "no_ndm_result = \<lparr>rs_event = NoEvent, rs_state = Idle, rs_innerLoadPC = 0, rs_increment = 0,
     rs_innerLanes = 0, rs_outerLoadPC = 0, rs_outerAddress = 0, rs_outerStride = 0,
     rs_committed = 0, rs_control = no_control\<rparr>"

definition NDM_active :: "ndm \<Rightarrow> bool" where
  "NDM_active n \<longleftrightarrow> nm_state n \<noteq> Idle"

definition NDM_reset :: "ndm \<Rightarrow> ndm" where
  "NDM_reset n = n\<lparr>nm_state := Idle, nm_committed := 0, nm_innerLoadPC := 0, nm_increment := 0,
     nm_innerLanes := 0, nm_outerLoadPC := 0, nm_outerAddress := 0, nm_outerStride := 0,
     nm_invocations := replicate MaxOuterInvocations no_invocation, nm_invocationCount := 0,
     nm_probes := replicate 8 no_probe,
     nm_pendingBases := replicate MaxOuterInvocations 0, nm_pendingCount := 0,
     nm_pendingConsumed := 0, nm_control := no_control\<rparr>"

definition NDM_clear :: "ndm \<Rightarrow> ndm" where
  "NDM_clear n = (NDM_reset n)\<lparr>nm_counters := zero_ndm_statistics\<rparr>"

text \<open>The four assertions of the constructor; a failed one is \<open>None\<close>.\<close>

definition NDM_new :: "nat \<Rightarrow> u32 \<Rightarrow> ndm option" where
  "NDM_new lane_threshold max_instructions =
     (let search = min max_instructions PaperOuterSearchInstructions;
          collect = max max_instructions PaperOuterSearchInstructions * of_nat MaxOuterInvocations
      in if lane_threshold > 0 \<and> max_instructions > 0 \<and> search > 0 \<and> collect \<ge> search
         then Some (NDM_clear \<lparr>nm_state = Idle, nm_laneThreshold = lane_threshold,
                nm_searchMax = search, nm_collectMax = collect, nm_committed = 0,
                nm_innerLoadPC = 0, nm_increment = 0, nm_innerLanes = 0, nm_outerLoadPC = 0,
                nm_outerAddress = 0, nm_outerStride = 0, nm_invocations = [],
                nm_invocationCount = 0, nm_probes = [], nm_pendingBases = [],
                nm_pendingCount = 0, nm_pendingConsumed = 0, nm_control = no_control,
                nm_counters = zero_ndm_statistics\<rparr>)
         else None)"

definition NDM_snapshot :: "ndm_event \<Rightarrow> ndm \<Rightarrow> ndm_result" where
  "NDM_snapshot event n =
     \<lparr>rs_event = event, rs_state = nm_state n, rs_innerLoadPC = nm_innerLoadPC n,
      rs_increment = nm_increment n, rs_innerLanes = nm_innerLanes n,
      rs_outerLoadPC = nm_outerLoadPC n, rs_outerAddress = nm_outerAddress n,
      rs_outerStride = nm_outerStride n, rs_committed = nm_committed n,
      rs_control = nm_control n\<rparr>"

definition NDM_eligible :: "nat \<Rightarrow> ndm \<Rightarrow> bool" where
  "NDM_eligible inner_lanes n \<longleftrightarrow> inner_lanes \<noteq> 0 \<and> inner_lanes < nm_laneThreshold n"

text \<open>The assignments the two successful exits of \<open>start\<close> have in common.\<close>

definition NDM_arm :: "addr \<Rightarrow> i64 \<Rightarrow> nat \<Rightarrow> ndm \<Rightarrow> ndm" where
  "NDM_arm inner_load_pc loop_increment inner_lanes n =
     n\<lparr>nm_innerLoadPC := inner_load_pc, nm_increment := loop_increment,
       nm_innerLanes := inner_lanes,
       nm_control := no_control\<lparr>ct_inductionIncrement := loop_increment\<rparr>,
       nm_counters := (nm_counters n)\<lparr>nd_attempts := nd_attempts (nm_counters n) + 1\<rparr>\<rparr>"

definition NDM_start :: "addr \<Rightarrow> i64 \<Rightarrow> nat \<Rightarrow> ndm \<Rightarrow> ndm_result \<times> ndm" where
  "NDM_start inner_load_pc loop_increment inner_lanes n =
     (if inner_load_pc = 0 \<or> inner_lanes = 0 \<or> inner_lanes \<ge> nm_laneThreshold n
      then (NDM_snapshot NoEvent n, n)
      else if NDM_active n \<and> nm_state n = Vectorizing \<and> inner_load_pc = nm_innerLoadPC n
      then (let n' = NDM_arm inner_load_pc loop_increment inner_lanes (n\<lparr>nm_committed := 0\<rparr>)
            in (NDM_snapshot Started n', n'))
      else
        (let n1 = (if NDM_active n \<and> nm_state n = Vectorizing then NDM_reset n else n)
         in if NDM_active n1 then (NDM_snapshot NoEvent n1, n1)
            else (let n' = NDM_arm inner_load_pc loop_increment inner_lanes
                             ((NDM_reset n1)\<lparr>nm_state := SeekingOuter\<rparr>)
                  in (NDM_snapshot Started n', n'))))"

definition NDM_captureLoopRegisters ::
    "int \<Rightarrow> int \<Rightarrow> reg_val \<Rightarrow> reg_val \<Rightarrow> u64 \<Rightarrow> ndm \<Rightarrow> ndm" where
  "NDM_captureLoopRegisters induction_register bound_register induction_value bound_value
     remaining_iterations n =
     (if \<not> NDM_active n then n
      else
        (let s = nm_counters n;
             s = (if induction_register \<ge> 0 then s\<lparr>nd_ilrCaptures := nd_ilrCaptures s + 1\<rparr> else s);
             s = (if bound_register \<ge> 0 then s\<lparr>nd_lcrCaptures := nd_lcrCaptures s + 1\<rparr> else s)
         in n\<lparr>nm_control := (nm_control n)\<lparr>ct_inductionRegister := induction_register,
                ct_boundRegister := bound_register, ct_inductionValue := induction_value,
                ct_boundValue := bound_value, ct_remainingIterations := remaining_iterations,
                ct_inductionIncrement := nm_increment n\<rparr>,
              nm_counters := s\<rparr>))"

definition NDM_observeInnerBranch ::
    "addr \<Rightarrow> addr \<Rightarrow> addr \<Rightarrow> bool \<Rightarrow> ndm \<Rightarrow> bool \<times> ndm" where
  "NDM_observeInnerBranch branch_pc branch_target fallthrough_pc taken n =
     (if \<not> NDM_active n \<or> branch_pc \<le> nm_innerLoadPC n \<or> branch_target > nm_innerLoadPC n \<or>
         branch_target \<ge> branch_pc
      then (False, n)
      else if ct_valid (nm_control n) then (False, n)
      else
        (let k = nm_control n; active_lanes = min (nm_innerLanes n) 128; s = nm_counters n
         in (True,
             n\<lparr>nm_control := k\<lparr>ct_innerBranchPC := branch_pc, ct_innerBranchTarget := branch_target,
                 ct_innerFallthrough := fallthrough_pc, ct_branchTaken := taken,
                 ct_branchInverted := True, ct_reconvergencePC := fallthrough_pc,
                 ct_takenMask := fold set_lane [0..<active_lanes] (ct_takenMask k),
                 ct_fallthroughMask := fold set_lane [0..<active_lanes] (ct_fallthroughMask k),
                 ct_valid := True\<rparr>,
               nm_counters := s\<lparr>nd_irCaptures := nd_irCaptures s + 1,
                 nd_branchInversions := nd_branchInversions s + 1\<rparr>\<rparr>)))"

text \<open>
  The loop of \<open>recordOuterInvocation\<close> that fills the rest of the plan from the first
  recorded invocation, run while \<open>invocationCount < pendingOuterCount\<close>.
\<close>

definition NDM_planned :: "outer_invocation \<Rightarrow> addr \<Rightarrow> outer_invocation" where
  "NDM_planned seed base =
     seed\<lparr>oi_outerBase := base, oi_innerStart := oi_innerStart seed + (base - oi_outerBase seed)\<rparr>"

definition NDM_materialize :: "ndm \<Rightarrow> ndm" where
  "NDM_materialize n =
     (let seed = nm_invocations n ! 0
      in n\<lparr>nm_invocations :=
             fold (\<lambda>i invs. invs[i := NDM_planned seed (nm_pendingBases n ! i)])
               [nm_invocationCount n..<nm_pendingCount n] (nm_invocations n),
           nm_invocationCount := max (nm_invocationCount n) (nm_pendingCount n),
           nm_pendingConsumed := nm_pendingCount n\<rparr>)"

definition NDM_recordOuterInvocation ::
    "addr \<Rightarrow> nat \<Rightarrow> addr \<Rightarrow> addr \<Rightarrow> i64 \<Rightarrow> ndm \<Rightarrow> bool \<times> ndm" where
  "NDM_recordOuterInvocation inner_start lanes inner_trigger_pc inner_flr_pc inner_stride n =
     (if (nm_state n \<noteq> OuterFound \<and> nm_state n \<noteq> Vectorizing) \<or>
         nm_pendingConsumed n \<ge> nm_pendingCount n \<or> inner_start = 0 \<or> lanes = 0 \<or>
         inner_trigger_pc = 0 \<or> inner_flr_pc = 0 \<or> \<not> ct_valid (nm_control n)
      then (False, n)
      else
        (let s = nm_counters n;
             n1 = n\<lparr>nm_counters := s\<lparr>nd_outerInvocations := nd_outerInvocations s + 1\<rparr>\<rparr>;
             n2 = (if nm_invocationCount n1 < MaxOuterInvocations
                   then
                     (let invocation =
                            \<lparr>oi_outerBase = nm_pendingBases n1 ! nm_pendingConsumed n1,
                             oi_innerStart = inner_start, oi_innerLanes = min lanes 128,
                             oi_innerTriggerPC = inner_trigger_pc, oi_innerFLRPC = inner_flr_pc,
                             oi_innerStride = inner_stride,
                             oi_predicate = ct_fallthroughMask (nm_control n1),
                             oi_reconvergencePC = ct_reconvergencePC (nm_control n1)\<rparr>;
                          m = n1\<lparr>nm_invocations := (nm_invocations n1)[nm_invocationCount n1 := invocation],
                                 nm_pendingConsumed := nm_pendingConsumed n1 + 1,
                                 nm_invocationCount := nm_invocationCount n1 + 1\<rparr>
                      in if nm_invocationCount m = 1 \<and> nm_pendingCount m > 1
                         then NDM_materialize m else m)
                   else n1);
             n3 = (if nm_invocationCount n2 \<ge> 1 then n2\<lparr>nm_state := Vectorizing\<rparr> else n2)
         in (True, n3\<lparr>nm_committed := 0\<rparr>)))"

definition NDM_acceptOuter :: "addr \<Rightarrow> addr \<Rightarrow> i64 \<Rightarrow> ndm \<Rightarrow> ndm_result \<times> ndm" where
  "NDM_acceptOuter outer_load_pc outer_address outer_stride n =
     (if nm_state n \<noteq> SeekingOuter \<or> \<not> ct_valid (nm_control n) \<or> outer_load_pc = 0 \<or>
         outer_load_pc = nm_innerLoadPC n \<or> outer_stride = 0
      then (NDM_snapshot NoEvent n, n)
      else
        (let s = nm_counters n;
             n' = n\<lparr>nm_state := OuterFound, nm_outerLoadPC := outer_load_pc,
                    nm_outerAddress := outer_address, nm_outerStride := outer_stride,
                    nm_committed := 0, nm_counters := s\<lparr>nd_outerFound := nd_outerFound s + 1\<rparr>\<rparr>
         in (NDM_snapshot OuterAccepted n', n')))"

definition NDM_pushBase :: "addr \<Rightarrow> ndm \<Rightarrow> ndm" where
  "NDM_pushBase a n =
     (if nm_pendingCount n < MaxOuterInvocations
      then n\<lparr>nm_pendingBases := (nm_pendingBases n)[nm_pendingCount n := a],
             nm_pendingCount := nm_pendingCount n + 1\<rparr>
      else n)"

text \<open>The probe with the PC, or else the first free one.\<close>

definition NDM_findProbe :: "addr \<Rightarrow> ndm \<Rightarrow> nat option" where
  "NDM_findProbe pc n =
     (case List.find (\<lambda>i. op_pc (nm_probes n ! i) = pc) [0..<length (nm_probes n)] of
        Some i \<Rightarrow> Some i
      | None \<Rightarrow> List.find (\<lambda>i. op_pc (nm_probes n ! i) = 0) [0..<length (nm_probes n)])"

definition NDM_setProbe :: "nat \<Rightarrow> outer_probe \<Rightarrow> ndm \<Rightarrow> ndm" where
  "NDM_setProbe i p n = n\<lparr>nm_probes := (nm_probes n)[i := p]\<rparr>"

text \<open>
  A new sample of a probe whose PC is known: the updated probe, and whether the stride is
  now confirmed.
\<close>

definition NDM_sample :: "addr \<Rightarrow> outer_probe \<Rightarrow> outer_probe \<times> bool" where
  "NDM_sample address p =
     (let delta = address - op_address p;
          q = p\<lparr>op_address := address,
                op_recent := [address, op_recent p ! 0, op_recent p ! 1]\<rparr>
      in if delta = 0 then (q\<lparr>op_samples := 1, op_stride := 0\<rparr>, False)
         else if op_samples q = 1 then (q\<lparr>op_stride := delta, op_samples := 2\<rparr>, False)
         else if delta \<noteq> op_stride q then (q\<lparr>op_stride := delta, op_samples := 2\<rparr>, False)
         else (q\<lparr>op_samples := op_samples q + 1\<rparr>, True))"

definition NDM_seek :: "addr \<Rightarrow> addr \<Rightarrow> ndm \<Rightarrow> ndm_result \<times> ndm" where
  "NDM_seek pc address n =
     (case NDM_findProbe pc n of
        None \<Rightarrow> (NDM_snapshot NoEvent n, n)
      | Some i \<Rightarrow>
          (let p = nm_probes n ! i in
           if op_pc p = 0
           then (let n' = NDM_setProbe i (p\<lparr>op_pc := pc, op_address := address, op_samples := 1,
                             op_recent := (op_recent p)[0 := address]\<rparr>) n
                 in (NDM_snapshot NoEvent n', n'))
           else
             (let (q, confirmed) = NDM_sample address p; n' = NDM_setProbe i q n
              in if \<not> confirmed then (NDM_snapshot NoEvent n', n')
                 else
                   (let (result, m) = NDM_acceptOuter pc address (op_stride q) n'
                    in (result,
                        fold (\<lambda>k m. if op_recent q ! k \<noteq> 0 then NDM_pushBase (op_recent q ! k) m else m)
                          [2, 1, 0] m)))))"

definition NDM_observeOuterLoad :: "addr \<Rightarrow> addr \<Rightarrow> ndm \<Rightarrow> ndm_result \<times> ndm" where
  "NDM_observeOuterLoad pc address n =
     (if \<not> ct_valid (nm_control n) \<or> pc = 0 \<or> pc = nm_innerLoadPC n \<or> address = 0
      then (NDM_snapshot NoEvent n, n)
      else if nm_state n = OuterFound
      then (let n' = (if pc = nm_outerLoadPC n \<and> address - nm_outerAddress n = nm_outerStride n
                      then (NDM_pushBase address (n\<lparr>nm_outerAddress := address\<rparr>))\<lparr>nm_committed := 0\<rparr>
                      else n)
            in (NDM_snapshot NoEvent n', n'))
      else if nm_state n \<noteq> SeekingOuter then (NDM_snapshot NoEvent n, n)
      else NDM_seek pc address n)"

definition NDM_finishVectorization :: "ndm \<Rightarrow> ndm" where
  "NDM_finishVectorization n = (if nm_state n = Vectorizing then NDM_reset n else n)"

definition NDM_observeCommit :: "ndm \<Rightarrow> ndm_result \<times> ndm" where
  "NDM_observeCommit n =
     (if \<not> NDM_active n then (no_ndm_result, n)
      else
        (let n1 = n\<lparr>nm_committed := nm_committed n + 1\<rparr>;
             budget = (if nm_state n1 = SeekingOuter then nm_searchMax n1 else nm_collectMax n1);
             s = nm_counters n1
         in if nm_committed n1 < budget then (NDM_snapshot NoEvent n1, n1)
            else (NDM_snapshot TimedOut n1,
                  NDM_reset (n1\<lparr>nm_counters := s\<lparr>nd_timeouts := nd_timeouts s + 1,
                    nd_fallbacks := nd_fallbacks s + 1\<rparr>\<rparr>))))"

definition NDM_fallback :: "ndm \<Rightarrow> ndm_result \<times> ndm" where
  "NDM_fallback n =
     (if \<not> NDM_active n then (no_ndm_result, n)
      else (let s = nm_counters n
            in (NDM_snapshot Fallback n,
                NDM_reset (n\<lparr>nm_counters := s\<lparr>nd_fallbacks := nd_fallbacks s + 1\<rparr>\<rparr>))))"

definition NDM_plannedInvocationCount :: "ndm \<Rightarrow> nat" where
  "NDM_plannedInvocationCount n =
     (if nm_invocationCount n > nm_pendingCount n then nm_invocationCount n else nm_pendingCount n)"

section \<open>Calls\<close>

datatype ndm_call =
    Start addr i64 nat
  | Capture int int reg_val reg_val u64
  | InnerBranch addr addr addr bool
  | RecordOuter addr nat addr addr i64
  | OuterLoad addr addr
  | AcceptOuter addr addr i64
  | FinishVectorization
  | Commit
  | FallBack
  | Reset
  | Clear

fun ndm_step :: "ndm_call \<Rightarrow> ndm \<Rightarrow> ndm" where
  "ndm_step (Start pc inc lanes) n = snd (NDM_start pc inc lanes n)"
| "ndm_step (Capture ir br iv bv k) n = NDM_captureLoopRegisters ir br iv bv k n"
| "ndm_step (InnerBranch pc target next taken) n = snd (NDM_observeInnerBranch pc target next taken n)"
| "ndm_step (RecordOuter start lanes tpc fpc stride) n =
     snd (NDM_recordOuterInvocation start lanes tpc fpc stride n)"
| "ndm_step (OuterLoad pc address) n = snd (NDM_observeOuterLoad pc address n)"
| "ndm_step (AcceptOuter pc address stride) n = snd (NDM_acceptOuter pc address stride n)"
| "ndm_step FinishVectorization n = NDM_finishVectorization n"
| "ndm_step Commit n = snd (NDM_observeCommit n)"
| "ndm_step FallBack n = snd (NDM_fallback n)"
| "ndm_step Reset n = NDM_reset n"
| "ndm_step Clear n = NDM_clear n"

section \<open>Invariant\<close>

text \<open>
  A probe holds its last address, and with two samples its stride is the nonzero difference of
  the last two addresses.
\<close>

definition probe_ok :: "outer_probe \<Rightarrow> bool" where
  "probe_ok p \<longleftrightarrow> length (op_recent p) = 3 \<and> (op_pc p = 0 \<longrightarrow> p = no_probe) \<and>
     (op_pc p \<noteq> 0 \<longrightarrow> op_samples p \<ge> 1 \<and> op_recent p ! 0 = op_address p \<and> op_address p \<noteq> 0) \<and>
     (op_samples p \<ge> 2 \<longrightarrow> op_stride p \<noteq> 0 \<and> op_recent p ! 1 \<noteq> 0 \<and>
        op_stride p = op_recent p ! 0 - op_recent p ! 1)"

definition control_ok :: "ndm_control \<Rightarrow> nat \<Rightarrow> bool" where
  "control_ok k lanes \<longleftrightarrow> length (ct_takenMask k) = 2 \<and> length (ct_fallthroughMask k) = 2 \<and>
     lane_set (ct_takenMask k) = (if ct_valid k then {..<min lanes 128} else {}) \<and>
     lane_set (ct_fallthroughMask k) = (if ct_valid k then {..<min lanes 128} else {})"

text \<open>The pending bases are an arithmetic progression with the confirmed stride.\<close>

definition bases_ok :: "addr list \<Rightarrow> nat \<Rightarrow> i64 \<Rightarrow> bool" where
  "bases_ok bases count stride \<longleftrightarrow> (\<forall>i < count. bases ! i = bases ! 0 + of_nat i * stride)"

definition plan_ok :: "outer_invocation list \<Rightarrow> addr list \<Rightarrow> nat \<Rightarrow> bool" where
  "plan_ok invs bases count \<longleftrightarrow> (\<forall>i < count. invs ! i = NDM_planned (invs ! 0) (bases ! i)) \<and>
     oi_innerLanes (invs ! 0) \<le> 128 \<and> oi_innerLanes (invs ! 0) > 0"

definition ndm_shape :: "ndm \<Rightarrow> bool" where
  "ndm_shape n \<longleftrightarrow> nm_searchMax n > 0 \<and> nm_collectMax n \<ge> nm_searchMax n \<and>
     length (nm_invocations n) = 16 \<and> length (nm_pendingBases n) = 16 \<and> length (nm_probes n) = 8 \<and>
     nm_pendingCount n \<le> 16 \<and> (\<forall>p \<in> set (nm_probes n). probe_ok p) \<and> control_ok (nm_control n) (nm_innerLanes n)"

definition ndm_budget :: "ndm \<Rightarrow> u32" where
  "ndm_budget n = (if nm_state n = SeekingOuter then nm_searchMax n else nm_collectMax n)"

fun ndm_phase :: "ndm_state \<Rightarrow> ndm \<Rightarrow> bool" where
  "ndm_phase Idle n \<longleftrightarrow> (\<exists>m. n = NDM_reset m)"
| "ndm_phase SeekingOuter n \<longleftrightarrow> nm_pendingCount n = 0 \<and> nm_invocationCount n = 0 \<and> nm_pendingConsumed n = 0"
| "ndm_phase OuterFound n \<longleftrightarrow> ct_valid (nm_control n) \<and> nm_invocationCount n = 0 \<and>
     nm_pendingConsumed n = 0 \<and> bases_ok (nm_pendingBases n) (nm_pendingCount n) (nm_outerStride n) \<and>
     (0 < nm_pendingCount n \<and> nm_pendingCount n < 16 \<longrightarrow>
        nm_outerAddress n = nm_pendingBases n ! (nm_pendingCount n - 1))"
| "ndm_phase Vectorizing n \<longleftrightarrow> 1 \<le> nm_pendingCount n \<and> nm_invocationCount n = nm_pendingCount n \<and>
     nm_pendingConsumed n = nm_pendingCount n \<and> bases_ok (nm_pendingBases n) (nm_pendingCount n) (nm_outerStride n) \<and> plan_ok (nm_invocations n) (nm_pendingBases n) (nm_pendingCount n)"

definition ndm_live :: "ndm \<Rightarrow> bool" where
  "ndm_live n \<longleftrightarrow> nm_committed n < ndm_budget n \<and> NDM_eligible (nm_innerLanes n) n \<and>
     nm_innerLoadPC n \<noteq> 0 \<and>
     (nm_state n \<noteq> SeekingOuter \<longrightarrow> nm_outerStride n \<noteq> 0 \<and> nm_outerLoadPC n \<noteq> 0 \<and>
        nm_outerLoadPC n \<noteq> nm_innerLoadPC n)"

definition ndm_ok :: "ndm \<Rightarrow> bool" where
  "ndm_ok n \<longleftrightarrow> ndm_shape n \<and> ndm_phase (nm_state n) n \<and> (NDM_active n \<longrightarrow> ndm_live n)"

lemmas ndm_inv_defs =
  ndm_ok_def ndm_shape_def ndm_live_def ndm_budget_def NDM_active_def NDM_eligible_def

lemma probe_ok_no_probe [simp]: "probe_ok no_probe"
  by (simp add: probe_ok_def no_probe_def)

lemma control_ok_none [simp]:
  "control_ok (no_control\<lparr>ct_inductionIncrement := x\<rparr>) lanes" "control_ok no_control lanes"
  by (simp_all add: control_ok_def no_control_def lane_set_empty)

lemma ndm_shape_reset: "ndm_shape n \<Longrightarrow> ndm_shape (NDM_reset n)"
  by (simp add: ndm_shape_def NDM_reset_def MaxOuterInvocations_def)

lemma reset_reset [simp]: "NDM_reset (NDM_reset n) = NDM_reset n"
  by (simp add: NDM_reset_def)

lemma reset_fields [simp]:
  "nm_state (NDM_reset n) = Idle"
  "nm_committed (NDM_reset n) = 0"
  "nm_innerLanes (NDM_reset n) = 0"
  "nm_invocations (NDM_reset n) = replicate 16 no_invocation"
  "nm_invocationCount (NDM_reset n) = 0"
  "nm_probes (NDM_reset n) = replicate 8 no_probe"
  "nm_pendingBases (NDM_reset n) = replicate 16 0"
  "nm_pendingCount (NDM_reset n) = 0"
  "nm_pendingConsumed (NDM_reset n) = 0"
  "nm_control (NDM_reset n) = no_control"
  "nm_searchMax (NDM_reset n) = nm_searchMax n"
  "nm_collectMax (NDM_reset n) = nm_collectMax n"
  "nm_laneThreshold (NDM_reset n) = nm_laneThreshold n"
  by (simp_all add: NDM_reset_def MaxOuterInvocations_def)

lemma ndm_ok_reset: "ndm_shape n \<Longrightarrow> ndm_ok (NDM_reset n)"
  by (auto simp: ndm_ok_def ndm_shape_reset NDM_active_def)

lemma clear_reset: "NDM_clear n = NDM_reset (n\<lparr>nm_counters := zero_ndm_statistics\<rparr>)"
  by (simp add: NDM_clear_def NDM_reset_def)

lemma ndm_ok_clear: "ndm_shape n \<Longrightarrow> ndm_ok (NDM_clear n)"
  unfolding clear_reset by (rule ndm_ok_reset) (simp add: ndm_shape_def)

lemma ndm_ok_new:
  assumes "NDM_new t m = Some n"
  shows "ndm_ok n"
proof -
  from assms obtain n' where "n = NDM_reset n'" "nm_searchMax n' > 0" "nm_collectMax n' \<ge> nm_searchMax n'"
    by (auto simp: NDM_new_def Let_def clear_reset split: if_splits)
  then show ?thesis by (auto simp: ndm_inv_defs)
qed

lemma ndm_ok_shape: "ndm_ok n \<Longrightarrow> ndm_shape n"
  by (simp add: ndm_ok_def)

lemma idle_control: "ndm_ok n \<Longrightarrow> nm_state n = Idle \<Longrightarrow> nm_control n = no_control"
  by (auto simp: ndm_ok_def)

lemma ndm_ok_commit:
  assumes ok: "ndm_ok n"
  shows "ndm_ok (snd (NDM_observeCommit n))"
proof -
  consider "\<not> NDM_active n" | "NDM_active n" "nm_committed n + 1 < ndm_budget n"
    | "NDM_active n" "\<not> nm_committed n + 1 < ndm_budget n" by blast
  then show ?thesis
  proof cases
    case 1
    then show ?thesis using ok by (simp add: NDM_observeCommit_def)
  next
    case 2
    then show ?thesis using ok
      by (cases "nm_state n") (simp_all add: NDM_observeCommit_def Let_def ndm_inv_defs)
  next
    case 3
    then show ?thesis using ndm_ok_shape [OF ok]
      by (auto simp: NDM_observeCommit_def Let_def ndm_budget_def ndm_shape_def intro!: ndm_ok_reset)
  qed
qed

lemma ndm_ok_start:
  assumes ok: "ndm_ok n"
  shows "ndm_ok (snd (NDM_start pc inc lanes n))"
  using ok
  by (cases "nm_state n")
    (auto simp: NDM_start_def NDM_arm_def Let_def ndm_inv_defs intro: order.strict_trans2)

lemma ndm_ok_set_control:
  assumes "ndm_ok n" "NDM_active n" "control_ok k (nm_innerLanes n)"
    "ct_valid (nm_control n) \<Longrightarrow> ct_valid k"
  shows "ndm_ok (n\<lparr>nm_control := k, nm_counters := s\<rparr>)"
  using assms by (cases "nm_state n") (simp_all add: ndm_inv_defs)

lemma ndm_ok_capture:
  assumes ok: "ndm_ok n"
  shows "ndm_ok (NDM_captureLoopRegisters ir br iv bv k n)"
proof (cases "NDM_active n")
  case True
  have "control_ok (nm_control n) (nm_innerLanes n)" using ok by (simp add: ndm_inv_defs)
  then show ?thesis
    unfolding NDM_captureLoopRegisters_def Let_def using True
    by (simp only: not_True_eq_False if_False)
      (rule ndm_ok_set_control [OF ok True], simp_all add: control_ok_def)
qed (use ok in \<open>simp add: NDM_captureLoopRegisters_def\<close>)

lemma ndm_ok_fallback: "ndm_ok n \<Longrightarrow> ndm_ok (snd (NDM_fallback n))"
  using ndm_ok_shape [of n]
  by (auto simp: NDM_fallback_def Let_def ndm_shape_def intro!: ndm_ok_reset)

lemma ndm_ok_finish: "ndm_ok n \<Longrightarrow> ndm_ok (NDM_finishVectorization n)"
  by (auto simp: NDM_finishVectorization_def intro: ndm_ok_reset ndm_ok_shape)

lemma lanes_prefix:
  assumes "length m = 2" "lane_set m = {}" "k \<le> 128"
  shows "length (fold set_lane [0..<k] m) = 2 \<and> lane_set (fold set_lane [0..<k] m) = {..<k}"
proof (rule fold_upt_inv [where P = "\<lambda>i m. length m = 2 \<and> lane_set m = {..<i}"])
  show "length m = 2 \<and> lane_set m = {..<0}" using assms by simp
next
  fix i m' assume "i < k" "length m' = 2 \<and> lane_set m' = {..<i}"
  then show "length (set_lane i m') = 2 \<and> lane_set (set_lane i m') = {..<Suc i}"
    using assms(3) by (simp add: lane_simps lessThan_Suc)
qed simp

lemma ndm_ok_branch:
  assumes ok: "ndm_ok n"
  shows "ndm_ok (snd (NDM_observeInnerBranch pc target next taken n))"
proof (cases "fst (NDM_observeInnerBranch pc target next taken n)")
  case False
  then show ?thesis using ok by (auto simp: NDM_observeInnerBranch_def Let_def split: if_splits)
next
  case True
  then have live: "NDM_active n" "\<not> ct_valid (nm_control n)" "\<not> pc \<le> nm_innerLoadPC n"
    "\<not> target > nm_innerLoadPC n" "\<not> target \<ge> pc"
    by (auto simp: NDM_observeInnerBranch_def Let_def split: if_splits)
  let ?m = "min (nm_innerLanes n) 128"
  have "control_ok (nm_control n) (nm_innerLanes n)" using ok by (simp add: ndm_inv_defs)
  then have masks: "length (ct_takenMask (nm_control n)) = 2" "lane_set (ct_takenMask (nm_control n)) = {}"
    "length (ct_fallthroughMask (nm_control n)) = 2" "lane_set (ct_fallthroughMask (nm_control n)) = {}"
    using live by (simp_all add: control_ok_def)
  show ?thesis
    unfolding NDM_observeInnerBranch_def Let_def
    by (simp only: live simp_thms if_False snd_conv)
      (rule ndm_ok_set_control [OF ok live(1)],
       simp_all add: control_ok_def lanes_prefix [OF masks(1,2)] lanes_prefix [OF masks(3,4)])
qed

lemma ndm_ok_accept:
  assumes ok: "ndm_ok n"
  shows "ndm_ok (snd (NDM_acceptOuter pc address stride n))"
proof (cases "nm_state n = SeekingOuter \<and> ct_valid (nm_control n)")
  case True
  have pos: "0 < nm_collectMax n"
    using ok by (auto simp: ndm_inv_defs intro: order.strict_trans2)
  with ok True show ?thesis
    by (simp add: NDM_acceptOuter_def Let_def ndm_inv_defs bases_ok_def)
qed (use ok in \<open>auto simp: NDM_acceptOuter_def\<close>)

lemma sample_ok:
  assumes "probe_ok p" "op_pc p \<noteq> 0" "address \<noteq> 0"
  shows "probe_ok (fst (NDM_sample address p)) \<and> op_pc (fst (NDM_sample address p)) = op_pc p"
  using assms by (auto simp: NDM_sample_def Let_def probe_ok_def)

text \<open>What a confirmed sample says of the last three addresses of its PC.\<close>

lemma sample_confirmed:
  assumes "NDM_sample address p = (q, True)" "probe_ok p" "op_pc p \<noteq> 0"
  shows "op_recent q = [address, op_recent p ! 0, op_recent p ! 1]"
    and "op_stride q \<noteq> 0" and "op_recent p ! 0 = address - op_stride q"
    and "op_recent p ! 1 = address - 2 * op_stride q"
    and "op_recent p ! 0 \<noteq> 0" and "op_recent p ! 1 \<noteq> 0"
  using assms by (auto simp: NDM_sample_def Let_def probe_ok_def split: if_splits)

lemma findProbe_Some:
  assumes "NDM_findProbe pc n = Some i"
  shows "i < length (nm_probes n)" "op_pc (nm_probes n ! i) = pc \<or> op_pc (nm_probes n ! i) = 0"
  using assms by (auto simp: NDM_findProbe_def find_upt_Some split: option.splits)

lemma ndm_ok_setProbe:
  assumes "ndm_ok n" "NDM_active n" "probe_ok p"
  shows "ndm_ok (NDM_setProbe i p n)"
proof -
  have "\<forall>r \<in> set ((nm_probes n)[i := p]). probe_ok r"
    using assms(1,3) set_update_subset_insert [of "nm_probes n" i p] by (auto simp: ndm_inv_defs)
  with assms show ?thesis
    by (cases "nm_state n") (simp_all add: NDM_setProbe_def ndm_inv_defs)
qed

lemma bases_ok_push:
  assumes "bases_ok b c st" "c < length b" "0 < c \<Longrightarrow> a = b ! (c - 1) + st"
  shows "bases_ok (b[c := a]) (c + 1) st"
  unfolding bases_ok_def
proof (intro allI impI)
  fix i assume "i < c + 1"
  then consider "i < c" | "i = c" "0 < c" | "i = c" "c = 0" by linarith
  then show "b[c := a] ! i = b[c := a] ! 0 + of_nat i * st"
  proof cases
    case 1
    then have "b ! i = b ! 0 + of_nat i * st" using assms(1) unfolding bases_ok_def by blast
    with 1 show ?thesis by simp
  next
    case 2
    then obtain k where k: "c = Suc k" by (cases c) auto
    then have "b ! k = b ! 0 + of_nat k * st" using assms(1) unfolding bases_ok_def by blast
    moreover have "a = b ! k + st" using assms(3) k by simp
    ultimately have "a = b ! 0 + of_nat c * st" by (simp add: k distrib_right)
    with \<open>i = c\<close> assms(2) k show ?thesis by simp
  next
    case 3
    then show ?thesis using assms by simp
  qed
qed

text \<open>The state after a stride was confirmed: the three addresses, oldest first, are pending.\<close>

lemma seek_confirmed:
  assumes ok: "ndm_ok n" and seek: "nm_state n = SeekingOuter" and v: "ct_valid (nm_control n)"
    and pc: "pc \<noteq> 0" "pc \<noteq> nm_innerLoadPC n"
    and i: "NDM_findProbe pc n = Some i" "op_pc (nm_probes n ! i) \<noteq> 0"
    and q: "NDM_sample address (nm_probes n ! i) = (q, True)" and a: "address \<noteq> 0"
  shows "let m = snd (NDM_seek pc address n); st = op_stride q in
    rs_event (fst (NDM_seek pc address n)) = OuterAccepted \<and> st \<noteq> 0 \<and>
    m = n\<lparr>nm_probes := (nm_probes n)[i := q], nm_state := OuterFound, nm_outerLoadPC := pc,
      nm_outerAddress := address, nm_outerStride := st, nm_committed := 0,
      nm_counters := (nm_counters n)\<lparr>nd_outerFound := nd_outerFound (nm_counters n) + 1\<rparr>,
      nm_pendingBases := (nm_pendingBases n)[0 := address - 2 * st, 1 := address - st, 2 := address],
      nm_pendingCount := 3\<rparr>"
proof -
  have p: "probe_ok (nm_probes n ! i)"
    using ok findProbe_Some(1) [OF i(1)] by (simp add: ndm_inv_defs)
  note c = sample_confirmed [OF q p i(2)]
  have cnt: "nm_pendingCount n = 0" using ok seek by (simp add: ndm_inv_defs)
  have acc: "NDM_acceptOuter pc address (op_stride q) (NDM_setProbe i q n) =
    (let m = (NDM_setProbe i q n)\<lparr>nm_state := OuterFound, nm_outerLoadPC := pc,
       nm_outerAddress := address, nm_outerStride := op_stride q, nm_committed := 0,
       nm_counters := (nm_counters n)\<lparr>nd_outerFound := nd_outerFound (nm_counters n) + 1\<rparr>\<rparr>
     in (NDM_snapshot OuterAccepted m, m))"
    using seek v pc c(2) by (simp add: NDM_acceptOuter_def NDM_setProbe_def Let_def)
  show ?thesis
    using i q a c cnt acc
    by (simp add: NDM_seek_def NDM_pushBase_def MaxOuterInvocations_def NDM_snapshot_def
        NDM_setProbe_def Let_def numeral_2_eq_2 numeral_3_eq_3)
qed

lemma ndm_ok_seek:
  assumes ok: "ndm_ok n" and seek: "nm_state n = SeekingOuter" and v: "ct_valid (nm_control n)"
    and pc: "pc \<noteq> 0" "pc \<noteq> nm_innerLoadPC n" and a: "address \<noteq> 0"
  shows "ndm_ok (snd (NDM_seek pc address n))"
proof (cases "NDM_findProbe pc n")
  case None
  then show ?thesis using ok by (simp add: NDM_seek_def)
next
  case (Some i)
  let ?p = "nm_probes n ! i"
  have act: "NDM_active n" using seek by (simp add: NDM_active_def)
  have p: "probe_ok ?p" using ok findProbe_Some(1) [OF Some] by (simp add: ndm_inv_defs)
  show ?thesis
  proof (cases "op_pc ?p = 0")
    case True
    then have "?p = no_probe" using p by (simp add: probe_ok_def)
    then have "probe_ok (?p\<lparr>op_pc := pc, op_address := address, op_samples := 1,
      op_recent := (op_recent ?p)[0 := address]\<rparr>)" using a pc by (simp add: probe_ok_def no_probe_def)
    with True Some show ?thesis
      by (simp add: NDM_seek_def Let_def ndm_ok_setProbe [OF ok act] del: One_nat_def)
  next
    case False
    obtain q c where q: "NDM_sample address ?p = (q, c)" by fastforce
    have qok: "probe_ok q" using sample_ok [OF p False a] q by simp
    show ?thesis
    proof (cases c)
      case True
      have ok': "ndm_ok (NDM_setProbe i q n)" by (rule ndm_ok_setProbe [OF ok act qok])
      let ?st = "op_stride q"
      let ?b = "(nm_pendingBases n)[0 := address - 2 * ?st, 1 := address - ?st, 2 := address]"
      have len: "length (nm_pendingBases n) = 16" and pos: "0 < nm_collectMax n"
        using ok by (auto simp: ndm_inv_defs intro: order.strict_trans2)
      have "bases_ok ?b 3 ?st"
        using len by (auto simp: bases_ok_def numeral_3_eq_3 numeral_2_eq_2 less_Suc_eq)
      moreover have "?b ! 2 = address" using len by simp
      moreover have "NDM_sample address ?p = (q, True)" using q True by simp
      note seek_confirmed [OF ok seek v pc Some False this a]
      ultimately show ?thesis using ok' v seek pc pos
        by (simp add: Let_def NDM_setProbe_def ndm_inv_defs numeral_2_eq_2)
    next
      case nc: False
      with q Some False show ?thesis
        by (simp add: NDM_seek_def Let_def ndm_ok_setProbe [OF ok act qok])
    qed
  qed
qed

lemma ndm_ok_collect:
  assumes ok: "ndm_ok n" and st: "nm_state n = OuterFound"
    and a: "address - nm_outerAddress n = nm_outerStride n"
  shows "ndm_ok ((NDM_pushBase address (n\<lparr>nm_outerAddress := address\<rparr>))\<lparr>nm_committed := 0\<rparr>)"
proof (cases "nm_pendingCount n < 16")
  case True
  have addr: "address = nm_pendingBases n ! (nm_pendingCount n - 1) + nm_outerStride n"
    if "0 < nm_pendingCount n"
    using that True ok st a by (auto simp: ndm_inv_defs algebra_simps)
  have "bases_ok ((nm_pendingBases n)[nm_pendingCount n := address]) (nm_pendingCount n + 1) (nm_outerStride n)"
    by (rule bases_ok_push) (use ok st True addr in \<open>simp_all add: ndm_inv_defs\<close>)
  with True ok st show ?thesis
    by (auto simp: NDM_pushBase_def ndm_inv_defs MaxOuterInvocations_def intro: order.strict_trans2)
next
  case False
  with ok st show ?thesis
    by (auto simp: NDM_pushBase_def ndm_inv_defs MaxOuterInvocations_def intro: order.strict_trans2)
qed

lemma ndm_ok_outerLoad: "ndm_ok n \<Longrightarrow> ndm_ok (snd (NDM_observeOuterLoad pc address n))"
  by (simp add: NDM_observeOuterLoad_def Let_def ndm_ok_seek ndm_ok_collect)

text \<open>
  The state after a successful \<open>recordOuterInvocation\<close>: the whole plan is filled from the
  first child, and the FIFO is used up.
\<close>

lemma record_success:
  assumes ok: "ndm_ok n" and r: "fst (NDM_recordOuterInvocation start lanes tpc fpc stride n)"
  obtains seed invs where
    "nm_state n = OuterFound" "0 < nm_pendingCount n"
    "seed = \<lparr>oi_outerBase = nm_pendingBases n ! 0, oi_innerStart = start, oi_innerLanes = min lanes 128,
       oi_innerTriggerPC = tpc, oi_innerFLRPC = fpc, oi_innerStride = stride,
       oi_predicate = ct_fallthroughMask (nm_control n),
       oi_reconvergencePC = ct_reconvergencePC (nm_control n)\<rparr>"
    "length invs = 16" "\<forall>i < nm_pendingCount n. invs ! i = NDM_planned seed (nm_pendingBases n ! i)"
    "lanes \<noteq> 0" "invs ! 0 = seed"
    "snd (NDM_recordOuterInvocation start lanes tpc fpc stride n) =
       n\<lparr>nm_counters := (nm_counters n)\<lparr>nd_outerInvocations := nd_outerInvocations (nm_counters n) + 1\<rparr>,
         nm_invocations := invs, nm_invocationCount := nm_pendingCount n,
         nm_pendingConsumed := nm_pendingCount n, nm_state := Vectorizing, nm_committed := 0\<rparr>"
proof -
  have g: "nm_state n = OuterFound" "0 < nm_pendingCount n" "start \<noteq> 0" "lanes \<noteq> 0" "tpc \<noteq> 0" "fpc \<noteq> 0"
    "ct_valid (nm_control n)"
    using ok r by (auto simp: NDM_recordOuterInvocation_def ndm_inv_defs Let_def split: if_splits)
  then have z: "nm_invocationCount n = 0" "nm_pendingConsumed n = 0" using ok by (simp_all add: ndm_inv_defs)
  have len: "length (nm_invocations n) = 16" "nm_pendingCount n \<le> 16" using ok by (simp_all add: ndm_inv_defs)
  define seed where "seed = \<lparr>oi_outerBase = nm_pendingBases n ! 0, oi_innerStart = start,
     oi_innerLanes = min lanes 128, oi_innerTriggerPC = tpc, oi_innerFLRPC = fpc, oi_innerStride = stride,
     oi_predicate = ct_fallthroughMask (nm_control n),
     oi_reconvergencePC = ct_reconvergencePC (nm_control n)\<rparr>"
  define invs where "invs = fold (\<lambda>i ys. ys[i := NDM_planned seed (nm_pendingBases n ! i)])
     [1..<nm_pendingCount n] ((nm_invocations n)[0 := seed])"
  have self: "NDM_planned seed (nm_pendingBases n ! 0) = seed" by (simp add: NDM_planned_def seed_def)
  have nth: "length invs = 16 \<and> (\<forall>j < 16. invs ! j = (if 1 \<le> j \<and> j < nm_pendingCount n
      then NDM_planned seed (nm_pendingBases n ! j) else (nm_invocations n)[0 := seed] ! j))"
    unfolding invs_def
    using fold_update_nth [of "nm_pendingCount n" "(nm_invocations n)[0 := seed]"
        "\<lambda>i. NDM_planned seed (nm_pendingBases n ! i)" 1] len by simp
  then have first: "invs ! 0 = seed" using len by simp
  moreover have "\<forall>i < nm_pendingCount n. invs ! i = NDM_planned seed (nm_pendingBases n ! i)"
  proof (intro allI impI)
    fix i assume "i < nm_pendingCount n"
    then show "invs ! i = NDM_planned seed (nm_pendingBases n ! i)"
      using nth first self len by (cases i) auto
  qed
  moreover have "snd (NDM_recordOuterInvocation start lanes tpc fpc stride n) =
       n\<lparr>nm_counters := (nm_counters n)\<lparr>nd_outerInvocations := nd_outerInvocations (nm_counters n) + 1\<rparr>,
         nm_invocations := invs, nm_invocationCount := nm_pendingCount n,
         nm_pendingConsumed := nm_pendingCount n, nm_state := Vectorizing, nm_committed := 0\<rparr>"
  proof (cases "nm_pendingCount n = 1")
    case True
    with g z len show ?thesis
      by (simp add: NDM_recordOuterInvocation_def Let_def MaxOuterInvocations_def invs_def seed_def)
  next
    case False
    with g(2) have "1 < nm_pendingCount n" by simp
    with g z len show ?thesis
      by (simp add: NDM_recordOuterInvocation_def Let_def MaxOuterInvocations_def invs_def seed_def
          NDM_materialize_def max_def)
  qed
  ultimately show ?thesis using that g(1,2,4) seed_def nth by blast
qed

lemma ndm_ok_record:
  assumes ok: "ndm_ok n"
  shows "ndm_ok (snd (NDM_recordOuterInvocation start lanes tpc fpc stride n))"
proof (cases "fst (NDM_recordOuterInvocation start lanes tpc fpc stride n)")
  case False
  then show ?thesis using ok by (auto simp: NDM_recordOuterInvocation_def Let_def split: if_splits)
next
  case True
  from ok True show ?thesis
  proof (rule record_success)
    fix seed invs
    assume s: "nm_state n = OuterFound" "0 < nm_pendingCount n"
      and seed: "seed = \<lparr>oi_outerBase = nm_pendingBases n ! 0, oi_innerStart = start,
       oi_innerLanes = min lanes 128, oi_innerTriggerPC = tpc, oi_innerFLRPC = fpc, oi_innerStride = stride,
       oi_predicate = ct_fallthroughMask (nm_control n),
       oi_reconvergencePC = ct_reconvergencePC (nm_control n)\<rparr>"
      and i: "length invs = 16" "\<forall>i < nm_pendingCount n. invs ! i = NDM_planned seed (nm_pendingBases n ! i)"
        "lanes \<noteq> 0" "invs ! 0 = seed"
      and m: "snd (NDM_recordOuterInvocation start lanes tpc fpc stride n) =
       n\<lparr>nm_counters := (nm_counters n)\<lparr>nd_outerInvocations := nd_outerInvocations (nm_counters n) + 1\<rparr>,
         nm_invocations := invs, nm_invocationCount := nm_pendingCount n,
         nm_pendingConsumed := nm_pendingCount n, nm_state := Vectorizing, nm_committed := 0\<rparr>"
    have "plan_ok invs (nm_pendingBases n) (nm_pendingCount n)"
      unfolding plan_ok_def i(4) using i(2,3) seed by simp
    with ok s i show ?thesis unfolding m
      by (auto simp: ndm_inv_defs intro: order.strict_trans2)
  qed
qed

lemma ndm_ok_step [inv_intros]: "ndm_ok n \<Longrightarrow> ndm_ok (ndm_step e n)"
  by (cases e) (simp_all add: ndm_ok_start ndm_ok_capture ndm_ok_branch ndm_ok_record ndm_ok_outerLoad
      ndm_ok_accept ndm_ok_finish ndm_ok_commit ndm_ok_fallback ndm_ok_reset ndm_ok_clear ndm_ok_shape)

interpretation ndm: event_machine ndm_step ndm_ok
  by unfold_locales (rule ndm_ok_step)

section \<open>The life cycle as a transition relation\<close>

inductive ndm_edge :: "ndm_state \<Rightarrow> ndm_call \<Rightarrow> ndm_state \<Rightarrow> bool" where
  stay: "ndm_edge s e s"
| begin_search: "s = Idle \<or> s = Vectorizing \<Longrightarrow> ndm_edge s (Start pc inc lanes) SeekingOuter"
| confirm: "ndm_edge SeekingOuter (OuterLoad pc address) OuterFound"
| accept: "ndm_edge SeekingOuter (AcceptOuter pc address stride) OuterFound"
| record_child: "ndm_edge OuterFound (RecordOuter start lanes tpc fpc stride) Vectorizing"
| finish: "ndm_edge Vectorizing FinishVectorization Idle"
| abort: "e \<in> {Commit, FallBack, Reset, Clear} \<Longrightarrow> ndm_edge s e Idle"

inductive_cases ndm_edge_to_found: "ndm_edge s e OuterFound"
inductive_cases ndm_edge_to_vectorizing: "ndm_edge s e Vectorizing"

lemma push_state [simp]: "nm_state (NDM_pushBase a n) = nm_state n"
  by (simp add: NDM_pushBase_def)

lemma seek_state:
  "nm_state n = SeekingOuter \<Longrightarrow>
    nm_state (snd (NDM_seek pc a n)) = SeekingOuter \<or> nm_state (snd (NDM_seek pc a n)) = OuterFound"
  by (auto simp: NDM_seek_def NDM_acceptOuter_def NDM_setProbe_def Let_def split: option.splits prod.splits)

lemma ndm_step_edge:
  assumes ok: "ndm_ok n"
  shows "ndm_edge (nm_state n) e (nm_state (ndm_step e n))"
proof (cases e)
  case (Start pc inc lanes)
  then show ?thesis
    by (auto simp: NDM_start_def NDM_arm_def NDM_active_def Let_def intro: ndm_edge.intros)
next
  case (OuterLoad pc a)
  then show ?thesis using seek_state [of n pc a]
    by (cases "nm_state n")
      (auto simp: NDM_observeOuterLoad_def NDM_pushBase_def Let_def ndm_edge.stay ndm_edge.confirm)
next
  case (RecordOuter start lanes tpc fpc stride)
  show ?thesis
  proof (cases "fst (NDM_recordOuterInvocation start lanes tpc fpc stride n)")
    case True
    with ok show ?thesis
      by (rule record_success) (simp add: RecordOuter record_child)
  next
    case False
    then show ?thesis
      by (auto simp: RecordOuter NDM_recordOuterInvocation_def Let_def intro: stay split: if_splits)
  qed
qed (auto simp: NDM_captureLoopRegisters_def NDM_observeInnerBranch_def NDM_acceptOuter_def
    NDM_finishVectorization_def NDM_observeCommit_def NDM_fallback_def NDM_active_def clear_reset Let_def
    intro: ndm_edge.intros)

definition is_accept :: "ndm_call \<Rightarrow> bool" where
  "is_accept e \<longleftrightarrow> (\<exists>pc a. e = OuterLoad pc a) \<or> (\<exists>pc a st. e = AcceptOuter pc a st)"

definition is_record :: "ndm_call \<Rightarrow> bool" where
  "is_record e \<longleftrightarrow> (\<exists>a l t f st. e = RecordOuter a l t f st)"

lemma found_history:
  assumes "ndm_ok n" "nm_state n = Idle" "nm_state (fold ndm_step es n) = OuterFound"
  shows "\<exists>xs a ys. es = xs @ a # ys \<and> is_accept a \<and> nm_state (fold ndm_step xs n) = SeekingOuter"
  using assms(3)
proof (induction es rule: rev_induct)
  case Nil
  then show ?case using assms by simp
next
  case (snoc e es)
  have ok: "ndm_ok (fold ndm_step es n)" using assms(1) by (rule ndm.run_inv)
  from snoc.prems have "ndm_edge (nm_state (fold ndm_step es n)) e OuterFound"
    using ndm_step_edge [OF ok, of e] by simp
  then consider "nm_state (fold ndm_step es n) = OuterFound"
    | "nm_state (fold ndm_step es n) = SeekingOuter" "is_accept e"
    by (cases rule: ndm_edge_to_found) (auto simp: is_accept_def)
  then show ?case
  proof cases
    case 1
    then obtain xs a ys where "es = xs @ a # ys \<and> is_accept a \<and> nm_state (fold ndm_step xs n) = SeekingOuter"
      using snoc.IH by blast
    then have "es @ [e] = xs @ a # (ys @ [e]) \<and> is_accept a \<and> nm_state (fold ndm_step xs n) = SeekingOuter"
      by simp
    then show ?thesis by blast
  qed auto
qed

lemma vectorizing_history:
  assumes "ndm_ok n" "nm_state n = Idle" "nm_state (fold ndm_step es n) = Vectorizing"
  shows "\<exists>xs r ys. es = xs @ r # ys \<and> is_record r \<and> nm_state (fold ndm_step xs n) = OuterFound"
  using assms(3)
proof (induction es rule: rev_induct)
  case Nil
  then show ?case using assms by simp
next
  case (snoc e es)
  have ok: "ndm_ok (fold ndm_step es n)" using assms(1) by (rule ndm.run_inv)
  from snoc.prems have "ndm_edge (nm_state (fold ndm_step es n)) e Vectorizing"
    using ndm_step_edge [OF ok, of e] by simp
  then consider "nm_state (fold ndm_step es n) = Vectorizing"
    | "nm_state (fold ndm_step es n) = OuterFound" "is_record e"
    by (cases rule: ndm_edge_to_vectorizing) (auto simp: is_record_def)
  then show ?case
  proof cases
    case 1
    then obtain xs r ys where "es = xs @ r # ys \<and> is_record r \<and> nm_state (fold ndm_step xs n) = OuterFound"
      using snoc.IH by blast
    then have "es @ [e] = xs @ r # (ys @ [e]) \<and> is_record r \<and> nm_state (fold ndm_step xs n) = OuterFound"
      by simp
    then show ?thesis by blast
  qed auto
qed

section \<open>Confirmation of an outer stride\<close>

lemma accepted_is_confirmed:
  assumes ok: "ndm_ok n" and e: "rs_event (fst (NDM_observeOuterLoad pc a n)) = OuterAccepted"
  obtains i q where "nm_state n = SeekingOuter" "ct_valid (nm_control n)" "pc \<noteq> 0" "pc \<noteq> nm_innerLoadPC n"
    "a \<noteq> 0" "NDM_findProbe pc n = Some i" "op_pc (nm_probes n ! i) \<noteq> 0"
    "NDM_sample a (nm_probes n ! i) = (q, True)"
    "NDM_observeOuterLoad pc a n = NDM_seek pc a n"
proof -
  from e have g: "nm_state n = SeekingOuter" "ct_valid (nm_control n)" "pc \<noteq> 0" "pc \<noteq> nm_innerLoadPC n"
    "a \<noteq> 0" "NDM_observeOuterLoad pc a n = NDM_seek pc a n"
    by (auto simp: NDM_observeOuterLoad_def NDM_snapshot_def Let_def split: if_splits)
  with e have "rs_event (fst (NDM_seek pc a n)) = OuterAccepted" by simp
  then obtain i q where "NDM_findProbe pc n = Some i" "op_pc (nm_probes n ! i) \<noteq> 0"
    "NDM_sample a (nm_probes n ! i) = (q, True)"
    by (auto simp: NDM_seek_def NDM_snapshot_def Let_def split: option.splits if_splits prod.splits)
  with g that show thesis by blast
qed

lemma window_run:
  assumes "ndm_ok n" "NDM_active n"
  shows "NDM_active (((\<lambda>n. snd (NDM_observeCommit n)) ^^ k) n) \<longleftrightarrow> k < unat (ndm_budget n) - unat (nm_committed n)"
  using assms
proof (induction k arbitrary: n)
  case 0
  then have "nm_committed n < ndm_budget n" by (simp add: ndm_inv_defs)
  with 0 show ?case by (simp add: word_less_nat_alt)
next
  case (Suc k)
  let ?n = "snd (NDM_observeCommit n)"
  have lt: "nm_committed n < ndm_budget n" using Suc.prems by (simp add: ndm_inv_defs)
  have succ: "unat (nm_committed n + 1) = Suc (unat (nm_committed n))" by (rule unat_add_one [OF lt])
  have idle: "((\<lambda>n. snd (NDM_observeCommit n)) ^^ k) m = m" if "\<not> NDM_active m" for m
    using that by (induction k) (simp_all add: NDM_observeCommit_def)
  show ?case
  proof (cases "nm_committed n + 1 < ndm_budget n")
    case True
    then have "NDM_active ?n" "ndm_budget ?n = ndm_budget n" "nm_committed ?n = nm_committed n + 1"
      using Suc.prems(2)
      by (auto simp: NDM_observeCommit_def Let_def ndm_budget_def NDM_active_def split: if_splits)
    with Suc.IH [OF ndm_ok_commit [OF Suc.prems(1)]] succ show ?thesis
      by (simp add: funpow_Suc_right del: funpow.simps) linarith
  next
    case False
    then have "\<not> NDM_active ?n"
      using Suc.prems(2) by (auto simp: NDM_observeCommit_def Let_def ndm_budget_def NDM_active_def)
    with idle [of ?n] False succ show ?thesis
      by (simp add: funpow_Suc_right word_less_nat_alt del: funpow.simps)
  qed
qed

section \<open>Properties\<close>


text \<open>
  C11 (safety). An outer load is accepted only for a PC other than the inner load's and a
  nonzero stride \<open>st\<close>, and the pending bases are then exactly the last three committed addresses
  of that PC, oldest first, each \<open>st\<close> after the one before.
\<close>

theorem outer_accepted_sound:
  assumes "ndm_ok n" and "rs_event (fst (NDM_observeOuterLoad pc address n)) = OuterAccepted"
  shows "let m = snd (NDM_observeOuterLoad pc address n); st = nm_outerStride m in
    nm_state n = SeekingOuter \<and> nm_state m = OuterFound \<and> pc \<noteq> nm_innerLoadPC n \<and> st \<noteq> 0 \<and>
    nm_outerLoadPC m = pc \<and> nm_committed m = 0 \<and>
    take (nm_pendingCount m) (nm_pendingBases m) = [address - 2 * st, address - st, address] \<and>
    (\<exists>p \<in> set (nm_probes n). op_pc p = pc \<and> take 2 (op_recent p) = [address - st, address - 2 * st])"
proof -
  from assms obtain i q where c: "nm_state n = SeekingOuter" "ct_valid (nm_control n)" "pc \<noteq> 0"
      "pc \<noteq> nm_innerLoadPC n" "address \<noteq> 0" "NDM_findProbe pc n = Some i"
      "op_pc (nm_probes n ! i) \<noteq> 0" "NDM_sample address (nm_probes n ! i) = (q, True)"
      "NDM_observeOuterLoad pc address n = NDM_seek pc address n"
    by (rule accepted_is_confirmed)
  let ?p = "nm_probes n ! i"
  have p: "probe_ok ?p" "?p \<in> set (nm_probes n)" and len: "length (nm_pendingBases n) = 16"
    using assms(1) findProbe_Some(1) [OF c(6)] by (simp_all add: ndm_inv_defs)
  note s = sample_confirmed [OF c(8) p(1) c(7)]
  have pc: "op_pc ?p = pc" using findProbe_Some(2) [OF c(6)] c(7) by simp
  have "take 2 (op_recent ?p) = [address - op_stride q, address - 2 * op_stride q]"
    using s(3,4) p(1)
    by (cases "op_recent ?p"; cases "tl (op_recent ?p)") (auto simp: probe_ok_def)
  with p(2) pc have probe: "\<exists>p \<in> set (nm_probes n). op_pc p = pc \<and>
      take 2 (op_recent p) = [address - op_stride q, address - 2 * op_stride q]" by blast
  obtain x y z bs where "nm_pendingBases n = x # y # z # bs"
    using len by (cases "nm_pendingBases n"; cases "tl (nm_pendingBases n)"; cases "tl (tl (nm_pendingBases n))") auto
  with seek_confirmed [OF assms(1) c(1-4,6-8,5)] c probe show ?thesis
    by (simp add: Let_def numeral_2_eq_2 numeral_3_eq_3)
qed

text \<open>
  Three committed loads of one new PC with a constant nonzero stride are
  enough: while the mode is searching, with the inner branch captured and a probe free, the
  third of them is accepted.
\<close>

theorem three_samples_accepted:
  assumes ok: "ndm_ok n" and st: "nm_state n = SeekingOuter" "ct_valid (nm_control n)"
    and pc: "pc \<noteq> 0" "pc \<noteq> nm_innerLoadPC n" and free: "NDM_findProbe pc n = Some i" "op_pc (nm_probes n ! i) = 0"
    and a: "d \<noteq> 0" "a \<noteq> 0" "a + d \<noteq> 0" "a + 2 * d \<noteq> 0"
  shows "let m = ndm_step (OuterLoad pc (a + d)) (ndm_step (OuterLoad pc a) n);
             (r, m') = NDM_observeOuterLoad pc (a + 2 * d) m in
    rs_event r = OuterAccepted \<and> nm_outerStride m' = d \<and>
    nm_pendingCount m' = 3 \<and> nm_state m' = OuterFound"
proof -
  let ?r = "\<lambda>p. p\<lparr>op_pc := pc, op_address := a, op_samples := 1, op_recent := (op_recent p)[0 := a]\<rparr>"
  have i: "i < 8" using findProbe_Some(1) [OF free(1)] ok by (simp add: ndm_inv_defs)
  have len: "length (nm_probes n) = 8" using ok by (simp add: ndm_inv_defs)
  have p0: "nm_probes n ! i = no_probe"
    using ok i len free(2) by (auto simp: ndm_inv_defs probe_ok_def)
  have free': "\<And>j. j < 8 \<Longrightarrow> op_pc (nm_probes n ! j) \<noteq> pc"
    using free pc(1) len by (auto simp: NDM_findProbe_def find_upt_Some find_upt_None split: option.splits)
  have find: "NDM_findProbe pc m = Some i" if "nm_probes m = (nm_probes n)[i := q]" "op_pc q = pc" for m q
  proof -
    have "List.find (\<lambda>j. op_pc (nm_probes m ! j) = pc) [0..<length (nm_probes m)] = Some i"
      unfolding find_upt_Some using that free' i len by (auto simp: nth_list_update)
    then show ?thesis by (simp add: NDM_findProbe_def)
  qed
  define n1 where "n1 = NDM_setProbe i (?r no_probe) n"
  have n1: "ndm_step (OuterLoad pc a) n = n1"
    using st pc free a p0 by (simp add: NDM_observeOuterLoad_def NDM_seek_def n1_def Let_def)
  define q where "q = no_probe\<lparr>op_pc := pc, op_address := a + d, op_stride := d, op_samples := 2,
     op_recent := [a + d, a, 0]\<rparr>"
  have n2: "ndm_step (OuterLoad pc (a + d)) n1 = NDM_setProbe i q n"
    using st pc a i len find [of n1 "?r no_probe"]
    by (simp add: NDM_observeOuterLoad_def NDM_seek_def NDM_sample_def NDM_setProbe_def Let_def
        n1_def no_probe_def q_def)
  let ?n = "NDM_setProbe i q n"
  have f: "NDM_findProbe pc ?n = Some i" by (rule find [of _ q]) (simp_all add: NDM_setProbe_def q_def)
  have okq: "ndm_ok ?n"
    by (rule ndm_ok_setProbe [OF ok]) (use st a pc in \<open>simp_all add: NDM_active_def q_def probe_ok_def\<close>)
  have pi: "nm_probes ?n ! i = q" using i len by (simp add: NDM_setProbe_def)
  have "NDM_sample (a + 2 * d) q = (q\<lparr>op_address := a + 2 * d, op_recent := [a + 2 * d, a + d, a],
      op_samples := 3\<rparr>, True)"
    using a(1) by (simp add: NDM_sample_def q_def Let_def algebra_simps)
  then have smp: "NDM_sample (a + 2 * d) (nm_probes ?n ! i) = (q\<lparr>op_address := a + 2 * d,
      op_recent := [a + 2 * d, a + d, a], op_samples := 3\<rparr>, True)" using pi by simp
  have s': "nm_state ?n = SeekingOuter" "ct_valid (nm_control ?n)" "pc \<noteq> nm_innerLoadPC ?n"
    using st pc by (simp_all add: NDM_setProbe_def)
  have obs: "NDM_observeOuterLoad pc (a + 2 * d) ?n = NDM_seek pc (a + 2 * d) ?n"
    using s' pc a by (simp add: NDM_observeOuterLoad_def)
  have pq: "op_pc (nm_probes ?n ! i) \<noteq> 0" using pi pc(1) by (simp add: q_def)
  note fin = seek_confirmed [OF okq s'(1,2) pc(1) s'(3) f pq smp a(4)]
  have "op_stride q = d" by (simp add: q_def)
  with fin show ?thesis
    unfolding n1 n2 by (cases "NDM_seek pc (a + 2 * d) ?n") (simp add: Let_def obs)
qed


text \<open>
  With nothing but committed instructions, an active mode times out after
  exactly the commits left in its window: the short search window while it searches, the
  collection window afterwards.
\<close>

lemma ndm_window_exact:
  assumes "NDM_new t m = Some n0" and "n = fold ndm_step es n0" and "NDM_active n"
  shows "NDM_active (((\<lambda>n. snd (NDM_observeCommit n)) ^^ k) n) \<longleftrightarrow>
    k < unat (if nm_state n = SeekingOuter then nm_searchMax n else nm_collectMax n) - unat (nm_committed n)"
proof -
  have "ndm_ok n" unfolding assms(2) by (rule ndm.run_inv [OF ndm_ok_new [OF assms(1)]])
  from window_run [OF this assms(3)] show ?thesis by (simp only: ndm_budget_def)
qed

section \<open>Witnesses\<close>

definition demo_ndm :: ndm where
  "demo_ndm = the (NDM_new 64 100)"

lemma demo_ndm_new: "NDM_new 64 100 = Some demo_ndm"
proof -
  have "NDM_new 64 100 \<noteq> None" by code_simp
  then show ?thesis by (simp add: demo_ndm_def)
qed

definition demo_search :: "ndm_call list" where
  "demo_search = [Start 256 8 10, InnerBranch 288 128 292 True]"

definition demo_plan :: "ndm_call list" where
  "demo_plan = demo_search @ [OuterLoad 512 1000, OuterLoad 512 1008, OuterLoad 512 1016,
     RecordOuter 5000 10 256 272 8]"

lemma demo_search_state:
  "nm_state (fold ndm_step demo_search demo_ndm) = SeekingOuter"
  "ct_valid (nm_control (fold ndm_step demo_search demo_ndm))"
  "nm_innerLoadPC (fold ndm_step demo_search demo_ndm) = 256"
  "NDM_findProbe 512 (fold ndm_step demo_search demo_ndm) = Some 0"
  "op_pc (nm_probes (fold ndm_step demo_search demo_ndm) ! 0) = 0"
  by code_simp+

lemma demo_search_ok: "ndm_ok (fold ndm_step demo_search demo_ndm)"
  by (rule ndm.run_inv [OF ndm_ok_new [OF demo_ndm_new]])

lemma demo_plan_state:
  "nm_state (fold ndm_step demo_plan demo_ndm) = Vectorizing"
  "nm_invocationCount (fold ndm_step demo_plan demo_ndm) = 3"
  "oi_innerStart (nm_invocations (fold ndm_step demo_plan demo_ndm) ! 0) = 5000"
  "nm_outerStride (fold ndm_step demo_plan demo_ndm) = 8"
  by code_simp+



lemma demo_third_sample:
  "rs_event (fst (NDM_observeOuterLoad 512 1016
     (fold ndm_step (demo_search @ [OuterLoad 512 1000, OuterLoad 512 1008]) demo_ndm))) = OuterAccepted"
  by code_simp

theorem outer_accepted_sound_witness:
  "nm_outerLoadPC (snd (NDM_observeOuterLoad 512 1016
     (fold ndm_step (demo_search @ [OuterLoad 512 1000, OuterLoad 512 1008]) demo_ndm))) = 512"
  using outer_accepted_sound [OF ndm.run_inv [OF ndm_ok_new [OF demo_ndm_new]] demo_third_sample]
  unfolding Let_def by blast


end
