(* ===== verification/DVR_Stride.thy ===== *)
theory DVR_Stride
  imports DVR_Prelude
begin

text \<open>
  \<open>DVRStrideDetector\<close> (\<open>src/code/gem5-runahead-dev-pre/src/cpu/o3/pre.hh\<close> 27-113 and
  \<open>pre.cc\<close> 14-179): the reference prediction table that trains on committed loads, and the
  one-bit-per-entry discovery register that is written speculatively at dispatch and undone
  by squashes.

  The two-bit confidence and entry indices are \<open>nat\<close> (the code guards its increment and its
  decrement); \<open>timestamp\<close> and \<open>age\<close> are \<open>64 word\<close>. The vector \<open>discoverySeenWrites\<close> is a list
  with its newest element first. \<open>Candidate\<close> results are options.
\<close>

section \<open>Model\<close>

definition CandidateConfidence :: nat where
  "CandidateConfidence = 2"

definition MaxConfidence :: nat where
  "MaxConfidence = 3"

record stride_candidate =
  cd_pc :: addr
  cd_address :: addr
  cd_stride :: i64
  cd_repeated :: bool

record stride_entry =
  se_valid :: bool
  se_pc :: addr
  se_lastAddress :: addr
  se_stride :: i64
  se_confidence :: nat
  se_age :: u64
  se_pending :: bool

record stride_detector =
  sd_entries :: "stride_entry list"
  sd_discoveryBits :: lane_mask
  sd_seenWrites :: "(inst_seq \<times> nat) list"
  sd_timestamp :: u64

definition empty_entry :: stride_entry where
  "empty_entry = \<lparr>se_valid = False, se_pc = 0, se_lastAddress = 0, se_stride = 0,
     se_confidence = 0, se_age = 0, se_pending = False\<rparr>"

definition Stride_new :: "nat \<Rightarrow> stride_detector option" where
  "Stride_new num_entries =
     (if num_entries > 0
      then Some \<lparr>sd_entries = replicate num_entries empty_entry,
             sd_discoveryBits = replicate ((num_entries + 63) div 64) 0,
             sd_seenWrites = [], sd_timestamp = 0\<rparr>
      else None)"

definition discoverySeen :: "nat \<Rightarrow> stride_detector \<Rightarrow> bool" where
  "discoverySeen i s = test_lane (sd_discoveryBits s) i"

definition setDiscoverySeen :: "nat \<Rightarrow> bool \<Rightarrow> stride_detector \<Rightarrow> stride_detector" where
  "setDiscoverySeen i v s =
     s\<lparr>sd_discoveryBits := (if v then set_lane i (sd_discoveryBits s) else clear_lane i (sd_discoveryBits s))\<rparr>"

text \<open>The entry of a PC, and the entry a new PC takes: the first free one, else the oldest.\<close>

definition Stride_find :: "addr \<Rightarrow> stride_entry list \<Rightarrow> nat option" where
  "Stride_find pc es = List.find (\<lambda>i. se_valid (es ! i) \<and> se_pc (es ! i) = pc) [0..<length es]"

definition Stride_victim :: "stride_entry list \<Rightarrow> nat" where
  "Stride_victim es =
     (case List.find (\<lambda>i. \<not> se_valid (es ! i)) [0..<length es] of
        Some i \<Rightarrow> i
      | None \<Rightarrow> fold (\<lambda>i best. if se_age (es ! i) < se_age (es ! best) then i else best) [0..<length es] 0)"

text \<open>
  Training of a resident entry with a new address (\<open>observe\<close>, lines 59-80): the confidence and
  stride update, the arming of the candidate notification, and the new address and age.
\<close>

definition Stride_learn :: "i64 \<Rightarrow> stride_entry \<Rightarrow> stride_entry" where
  "Stride_learn observed e =
     (if observed \<noteq> 0 \<and> observed = se_stride e
      then (if se_confidence e < MaxConfidence then e\<lparr>se_confidence := se_confidence e + 1\<rparr> else e)
      else (let e' = (if se_confidence e > 0 then e\<lparr>se_confidence := se_confidence e - 1\<rparr> else e)
            in if se_confidence e' = 0 then e'\<lparr>se_stride := observed\<rparr> else e'))"

definition Stride_arm :: "nat \<Rightarrow> stride_entry \<Rightarrow> stride_entry" where
  "Stride_arm old e =
     (if se_confidence e < CandidateConfidence then e\<lparr>se_pending := False\<rparr>
      else if old < CandidateConfidence \<and> se_confidence e \<ge> CandidateConfidence
      then e\<lparr>se_pending := True\<rparr> else e)"

definition Stride_train :: "addr \<Rightarrow> u64 \<Rightarrow> stride_entry \<Rightarrow> stride_entry" where
  "Stride_train address now e =
     (Stride_arm (se_confidence e) (Stride_learn (address - se_lastAddress e) e))
       \<lparr>se_lastAddress := address, se_age := now\<rparr>"

definition Stride_observe ::
    "addr \<Rightarrow> addr \<Rightarrow> stride_detector \<Rightarrow> stride_candidate option \<times> stride_detector" where
  "Stride_observe pc address s0 =
     (let s = s0\<lparr>sd_timestamp := sd_timestamp s0 + 1\<rparr>; es = sd_entries s in
      case Stride_find pc es of
        None \<Rightarrow>
          (let i = Stride_victim es;
               s1 = setDiscoverySeen i False s
           in (None, s1\<lparr>sd_entries := es[i := empty_entry\<lparr>se_valid := True, se_pc := pc,
                 se_lastAddress := address, se_age := sd_timestamp s\<rparr>]\<rparr>))
      | Some i \<Rightarrow>
          (let e = Stride_train address (sd_timestamp s) (es ! i)
           in (if se_stride e \<noteq> 0 \<and> se_pending e
               then Some \<lparr>cd_pc = pc, cd_address = address, cd_stride = se_stride e, cd_repeated = False\<rparr>
               else None,
               s\<lparr>sd_entries := es[i := e]\<rparr>)))"

definition Stride_predicted :: "addr \<Rightarrow> stride_entry \<Rightarrow> bool \<Rightarrow> stride_candidate" where
  "Stride_predicted pc e repeated =
     \<lparr>cd_pc = pc, cd_address = se_lastAddress e + se_stride e, cd_stride = se_stride e,
      cd_repeated = repeated\<rparr>"

definition Stride_admitted :: "addr \<Rightarrow> stride_entry \<Rightarrow> bool" where
  "Stride_admitted pc e \<longleftrightarrow>
     se_valid e \<and> se_pc e = pc \<and> se_stride e \<noteq> 0 \<and> se_confidence e \<ge> CandidateConfidence"

text \<open>The loop of \<open>observeDispatch\<close> over the entry indices, with its early returns.\<close>

fun Stride_dispatchLoop ::
    "nat list \<Rightarrow> addr \<Rightarrow> bool \<Rightarrow> addr \<Rightarrow> inst_seq \<Rightarrow> stride_detector \<Rightarrow>
      stride_candidate option \<times> stride_detector" where
  "Stride_dispatchLoop [] pc act trigger_pc seq s = (None, s)"
| "Stride_dispatchLoop (i # is) pc act trigger_pc seq s =
     (let e = sd_entries s ! i in
      if \<not> Stride_admitted pc e then Stride_dispatchLoop is pc act trigger_pc seq s
      else if act then
        (if \<not> discoverySeen i s
         then Stride_dispatchLoop is pc act trigger_pc seq
                (setDiscoverySeen i True (s\<lparr>sd_seenWrites := (seq, i) # sd_seenWrites s\<rparr>))
         else (Some (Stride_predicted pc e (pc \<noteq> trigger_pc)), s))
      else if se_pending e
      then (Some (Stride_predicted pc e False),
            s\<lparr>sd_entries := (sd_entries s)[i := e\<lparr>se_pending := False\<rparr>]\<rparr>)
      else Stride_dispatchLoop is pc act trigger_pc seq s)"

definition Stride_observeDispatch ::
    "addr \<Rightarrow> bool \<Rightarrow> addr \<Rightarrow> inst_seq \<Rightarrow> stride_detector \<Rightarrow> stride_candidate option \<times> stride_detector" where
  "Stride_observeDispatch pc act trigger_pc seq s =
     Stride_dispatchLoop [0..<length (sd_entries s)] pc act trigger_pc seq s"

definition Stride_clearDiscovery :: "stride_detector \<Rightarrow> stride_detector" where
  "Stride_clearDiscovery s =
     s\<lparr>sd_discoveryBits := replicate (length (sd_discoveryBits s)) 0, sd_seenWrites := []\<rparr>"

definition Stride_beginDiscovery :: "addr \<Rightarrow> stride_detector \<Rightarrow> stride_detector" where
  "Stride_beginDiscovery trigger_pc s =
     (let s1 = Stride_clearDiscovery s
      in case Stride_find trigger_pc (sd_entries s1) of
           Some i \<Rightarrow> setDiscoverySeen i True s1
         | None \<Rightarrow> s1)"

fun Stride_unwind :: "inst_seq \<Rightarrow> (inst_seq \<times> nat) list \<Rightarrow> lane_mask \<Rightarrow> (inst_seq \<times> nat) list \<times> lane_mask" where
  "Stride_unwind q [] bits = ([], bits)"
| "Stride_unwind q ((seq, i) # ws) bits =
     (if seq \<ge> q then Stride_unwind q ws (clear_lane i bits) else ((seq, i) # ws, bits))"

definition Stride_squashDiscovery :: "inst_seq \<Rightarrow> stride_detector \<Rightarrow> stride_detector" where
  "Stride_squashDiscovery q s =
     (let (ws, bits) = Stride_unwind q (sd_seenWrites s) (sd_discoveryBits s)
      in s\<lparr>sd_seenWrites := ws, sd_discoveryBits := bits\<rparr>)"

definition Stride_endDiscovery :: "stride_detector \<Rightarrow> stride_detector" where
  "Stride_endDiscovery s =
     (Stride_clearDiscovery s)\<lparr>sd_entries := map (\<lambda>e. e\<lparr>se_pending :=
        se_valid e \<and> se_stride e \<noteq> 0 \<and> se_confidence e \<ge> CandidateConfidence\<rparr>) (sd_entries s)\<rparr>"

definition Stride_reset :: "stride_detector \<Rightarrow> stride_detector" where
  "Stride_reset s =
     (Stride_clearDiscovery s)\<lparr>sd_entries := map (\<lambda>e. empty_entry) (sd_entries s), sd_timestamp := 0\<rparr>"

section \<open>Squash undoes the removed dispatches\<close>

definition dispatch_exec :: "addr \<Rightarrow> addr \<times> inst_seq \<Rightarrow> stride_detector \<Rightarrow> stride_detector" where
  "dispatch_exec trigger_pc e s = snd (Stride_observeDispatch (fst e) True trigger_pc (snd e) s)"

definition stride_logged :: "stride_detector \<Rightarrow> inst_seq set" where
  "stride_logged s = fst ` set (sd_seenWrites s)"

lemma squash_push:
  assumes "q \<le> seq" "\<not> discoverySeen i s"
  shows "Stride_squashDiscovery q (setDiscoverySeen i True (s\<lparr>sd_seenWrites := (seq, i) # sd_seenWrites s\<rparr>)) =
    Stride_squashDiscovery q s"
  using assms by (simp add: Stride_squashDiscovery_def setDiscoverySeen_def discoverySeen_def clear_set_lane
      split: prod.splits)

lemma dispatchLoop_undo:
  "q \<le> seq \<Longrightarrow> Stride_squashDiscovery q (snd (Stride_dispatchLoop is pc True trig seq s)) = Stride_squashDiscovery q s"
  by (induction "is" arbitrary: s) (simp_all add: Let_def squash_push)

lemma dispatchLoop_logged:
  "stride_logged (snd (Stride_dispatchLoop is pc True trig seq s)) \<subseteq> insert seq (stride_logged s)"
proof (induction "is" arbitrary: s)
  case (Cons i "is")
  have "stride_logged (setDiscoverySeen i True (s\<lparr>sd_seenWrites := (seq, i) # sd_seenWrites s\<rparr>)) =
    insert seq (stride_logged s)" by (simp add: stride_logged_def setDiscoverySeen_def)
  with Cons.IH [of "setDiscoverySeen i True (s\<lparr>sd_seenWrites := (seq, i) # sd_seenWrites s\<rparr>)"] Cons.IH [of s]
  show ?case by (auto simp: Let_def)
qed auto

lemma squash_keeps:
  assumes "\<And>x. x \<in> stride_logged s \<Longrightarrow> x < q"
  shows "Stride_squashDiscovery q s = s"
proof (cases "sd_seenWrites s")
  case (Cons w ws)
  then have "fst w < q" using assms by (simp add: stride_logged_def)
  with Cons show ?thesis by (cases w) (simp add: Stride_squashDiscovery_def not_le)
qed (simp add: Stride_squashDiscovery_def)

interpretation seen_log: speculative_log "dispatch_exec trigger_pc" snd stride_logged Stride_squashDiscovery
  for trigger_pc
  using squash_keeps dispatchLoop_undo dispatchLoop_logged
  by unfold_locales (simp_all add: dispatch_exec_def Stride_observeDispatch_def)

section \<open>Invariant of the table\<close>

definition entry_ok :: "stride_entry \<Rightarrow> bool" where
  "entry_ok e \<longleftrightarrow> se_confidence e \<le> MaxConfidence \<and> (se_confidence e > 0 \<longrightarrow> se_stride e \<noteq> 0) \<and>
     (se_pending e \<longrightarrow> se_confidence e \<ge> CandidateConfidence) \<and> (\<not> se_valid e \<longrightarrow> e = empty_entry)"

definition unique_pcs :: "stride_entry list \<Rightarrow> bool" where
  "unique_pcs es \<longleftrightarrow> (\<forall>i < length es. \<forall>j < length es.
     se_valid (es ! i) \<and> se_valid (es ! j) \<and> se_pc (es ! i) = se_pc (es ! j) \<longrightarrow> i = j)"

definition stride_ok :: "stride_detector \<Rightarrow> bool" where
  "stride_ok s \<longleftrightarrow> sd_entries s \<noteq> [] \<and> unique_pcs (sd_entries s) \<and>
     length (sd_discoveryBits s) = (length (sd_entries s) + 63) div 64 \<and>
     (\<forall>i < length (sd_entries s). entry_ok (sd_entries s ! i))"

lemma entry_ok_empty [simp]: "entry_ok empty_entry"
  by (simp add: entry_ok_def empty_entry_def)

lemma train_ok:
  assumes "entry_ok e" "se_valid e"
  shows "entry_ok (Stride_train a t e)" "se_valid (Stride_train a t e)" "se_pc (Stride_train a t e) = se_pc e"
  using assms by (auto simp: Stride_train_def Stride_learn_def Stride_arm_def Let_def entry_ok_def MaxConfidence_def CandidateConfidence_def)

lemma find_Some:
  assumes "Stride_find pc es = Some i"
  shows "i < length es" "se_valid (es ! i)" "se_pc (es ! i) = pc"
  using assms by (auto simp: Stride_find_def find_upt_Some)

lemma find_None:
  "Stride_find pc es = None \<longleftrightarrow> (\<forall>i < length es. \<not> (se_valid (es ! i) \<and> se_pc (es ! i) = pc))"
  by (auto simp: Stride_find_def find_upt_None)

lemma find_unique:
  assumes "unique_pcs es" "i < length es" "se_valid (es ! i)" "se_pc (es ! i) = pc"
  shows "Stride_find pc es = Some i"
  using assms unfolding Stride_find_def find_upt_Some unique_pcs_def
  by (auto dest: less_trans)

lemma victim_range: "es \<noteq> [] \<Longrightarrow> Stride_victim es < length es"
proof -
  assume "es \<noteq> []"
  have "fold (\<lambda>i best. if se_age (es ! i) < se_age (es ! best) then i else best) [0..<length es] 0 < length es"
    by (rule fold_inv) (use \<open>es \<noteq> []\<close> in auto)
  then show ?thesis by (auto simp: Stride_victim_def find_upt_Some split: option.splits)
qed

text \<open>When the table is full the victim is an entry with the smallest age.\<close>

lemma victim_oldest:
  assumes "\<forall>i < length es. se_valid (es ! i)" "j < length es"
  shows "se_age (es ! Stride_victim es) \<le> se_age (es ! j)"
proof -
  let ?step = "\<lambda>i best. if se_age (es ! i) < se_age (es ! best) then i else best"
  have "\<forall>k < length es. se_age (es ! fold ?step [0..<length es] 0) \<le> se_age (es ! k)"
    by (rule fold_upt_inv [where P = "\<lambda>n b. \<forall>k < n. se_age (es ! b) \<le> se_age (es ! k)"])
      (auto simp: less_Suc_eq intro: less_imp_le order.trans)
  moreover have "List.find (\<lambda>i. \<not> se_valid (es ! i)) [0..<length es] = None"
    using assms(1) by (simp add: find_upt_None)
  ultimately show ?thesis using assms(2) by (simp add: Stride_victim_def)
qed

lemma unique_install:
  assumes "unique_pcs es" "Stride_find pc es = None" "se_pc e = pc"
  shows "unique_pcs (es[i := e])"
  using assms unfolding unique_pcs_def find_None by (auto simp: nth_update_if split: if_splits)

lemma unique_update:
  assumes "unique_pcs es" "se_pc e = se_pc (es ! i)" "se_valid (es ! i)"
  shows "unique_pcs (es[i := e])"
proof (cases "i < length es")
  case True
  let ?f = "es[i := e]"
  have keep: "se_pc (?f ! k) = se_pc (es ! k)" "se_valid (?f ! k) \<Longrightarrow> se_valid (es ! k)" if "k < length es" for k
    using that assms by (auto simp: nth_update_if split: if_splits)
  show ?thesis unfolding unique_pcs_def using assms(1) keep by (auto simp: unique_pcs_def)
qed (use assms in \<open>simp add: list_update_beyond\<close>)

lemma bits_setSeen [simp]:
  "length (sd_discoveryBits (setDiscoverySeen i v s)) = length (sd_discoveryBits s)"
  "sd_entries (setDiscoverySeen i v s) = sd_entries s"
  by (simp_all add: setDiscoverySeen_def)

lemma entries_ok_update:
  "(\<forall>i < length es. entry_ok (es ! i)) \<Longrightarrow> entry_ok e \<Longrightarrow> i < length es \<Longrightarrow> entry_ok (es[k := e] ! i)"
  by (simp add: nth_update_if)

lemma observe_ok:
  assumes ok: "stride_ok s"
  shows "stride_ok (snd (Stride_observe pc a s))"
proof (cases "Stride_find pc (sd_entries s)")
  case None
  have "entry_ok (empty_entry\<lparr>se_valid := True, se_pc := pc, se_lastAddress := a, se_age := t\<rparr>)" for t
    by (simp add: entry_ok_def empty_entry_def)
  with ok None show ?thesis
    by (auto simp: stride_ok_def Stride_observe_def Let_def intro!: unique_install entries_ok_update)
next
  case (Some i)
  note i = find_Some [OF Some]
  with ok have "entry_ok (sd_entries s ! i)" by (simp add: stride_ok_def)
  note t = train_ok [OF this i(2), of a "sd_timestamp s + 1"]
  from Some ok i t show ?thesis
    by (auto simp: stride_ok_def Stride_observe_def Let_def intro!: unique_update entries_ok_update)
qed

lemma dispatchLoop_ok:
  "stride_ok s \<Longrightarrow> set is \<subseteq> {..<length (sd_entries s)} \<Longrightarrow> stride_ok (snd (Stride_dispatchLoop is pc act trig seq s))"
proof (induction "is" arbitrary: s)
  case (Cons i "is")
  have "stride_ok (setDiscoverySeen i True (s\<lparr>sd_seenWrites := (seq, i) # sd_seenWrites s\<rparr>))"
    using Cons.prems by (simp add: stride_ok_def)
  moreover have "stride_ok (s\<lparr>sd_entries := (sd_entries s)[i := (sd_entries s ! i)\<lparr>se_pending := False\<rparr>]\<rparr>)"
    if "se_valid (sd_entries s ! i)"
    using Cons.prems that by (auto simp: stride_ok_def nth_update_if entry_ok_def intro!: unique_update)
  ultimately show ?case using Cons by (auto simp: Let_def Stride_admitted_def)
qed simp

lemma unwind_length: "length (snd (Stride_unwind q ws bits)) = length bits"
  by (induction q ws bits rule: Stride_unwind.induct) auto

lemma squash_ok: "stride_ok s \<Longrightarrow> stride_ok (Stride_squashDiscovery q s)"
  using unwind_length [of q "sd_seenWrites s" "sd_discoveryBits s"]
  by (auto simp: stride_ok_def Stride_squashDiscovery_def split: prod.splits)

lemma begin_ok: "stride_ok s \<Longrightarrow> stride_ok (Stride_beginDiscovery t s)"
  by (auto simp: stride_ok_def Stride_beginDiscovery_def Stride_clearDiscovery_def Let_def split: option.splits)

lemma end_ok:
  assumes ok: "stride_ok s"
  shows "stride_ok (Stride_endDiscovery s)"
proof -
  have "unique_pcs (sd_entries (Stride_endDiscovery s))"
    using ok by (simp add: stride_ok_def Stride_endDiscovery_def unique_pcs_def)
  with ok show ?thesis
    by (auto simp: stride_ok_def Stride_endDiscovery_def Stride_clearDiscovery_def entry_ok_def empty_entry_def)
qed

lemma reset_ok: "stride_ok s \<Longrightarrow> stride_ok (Stride_reset s)"
  by (auto simp: stride_ok_def Stride_reset_def Stride_clearDiscovery_def unique_pcs_def empty_entry_def entry_ok_def)

lemma new_ok: "Stride_new n = Some s \<Longrightarrow> stride_ok s"
  by (auto simp: Stride_new_def stride_ok_def unique_pcs_def empty_entry_def entry_ok_def split: if_splits)

datatype stride_call =
    Observe addr addr
  | Dispatch addr bool addr inst_seq
  | BeginDiscovery addr
  | SquashDiscovery inst_seq
  | EndDiscovery
  | Reset

fun stride_step :: "stride_call \<Rightarrow> stride_detector \<Rightarrow> stride_detector" where
  "stride_step (Observe pc a) s = snd (Stride_observe pc a s)"
| "stride_step (Dispatch pc act t seq) s = snd (Stride_observeDispatch pc act t seq s)"
| "stride_step (BeginDiscovery t) s = Stride_beginDiscovery t s"
| "stride_step (SquashDiscovery q) s = Stride_squashDiscovery q s"
| "stride_step EndDiscovery s = Stride_endDiscovery s"
| "stride_step Reset s = Stride_reset s"

lemma stride_ok_step [inv_intros]: "stride_ok s \<Longrightarrow> stride_ok (stride_step e s)"
  by (cases e) (auto simp: observe_ok begin_ok squash_ok end_ok reset_ok Stride_observeDispatch_def
      intro!: dispatchLoop_ok)

interpretation stride: event_machine stride_step stride_ok
  by unfold_locales (rule stride_ok_step)

section \<open>Each load trains on its own addresses\<close>

text \<open>
  The reference: what an entry of its own would learn from the addresses of one load. Ages
  only order the entries and are left out of the comparison.
\<close>

definition ageless :: "stride_entry \<Rightarrow> stride_entry" where
  "ageless e = e\<lparr>se_age := 0\<rparr>"

definition installed :: "addr \<Rightarrow> addr \<Rightarrow> stride_entry" where
  "installed pc a = empty_entry\<lparr>se_valid := True, se_pc := pc, se_lastAddress := a\<rparr>"

fun trained :: "addr \<Rightarrow> addr list \<Rightarrow> stride_entry" where
  "trained pc [] = empty_entry"
| "trained pc (a # as) = fold (\<lambda>x e. Stride_train x 0 e) as (installed pc a)"

definition addresses :: "addr \<Rightarrow> (addr \<times> addr) list \<Rightarrow> addr list" where
  "addresses pc obs = map snd (filter (\<lambda>x. fst x = pc) obs)"

definition observe_all :: "(addr \<times> addr) list \<Rightarrow> stride_detector \<Rightarrow> stride_detector" where
  "observe_all obs s = fold (\<lambda>x s. snd (Stride_observe (fst x) (snd x) s)) obs s"

lemma observe_all_snoc [simp]:
  "observe_all [] s = s"
  "observe_all (obs @ [x]) s = snd (Stride_observe (fst x) (snd x) (observe_all obs s))"
  by (simp_all add: observe_all_def)

lemma learn_age: "Stride_learn x (e\<lparr>se_age := t\<rparr>) = (Stride_learn x e)\<lparr>se_age := t\<rparr>"
  by (simp add: Stride_learn_def Let_def)

lemma arm_age: "Stride_arm k (e\<lparr>se_age := t\<rparr>) = (Stride_arm k e)\<lparr>se_age := t\<rparr>"
  by (simp add: Stride_arm_def)

lemma ageless_train: "ageless (Stride_train a t e) = Stride_train a 0 (ageless e)"
  by (simp add: ageless_def Stride_train_def learn_age arm_age)

lemma trained_snoc: "as \<noteq> [] \<Longrightarrow> trained pc (as @ [a]) = Stride_train a 0 (trained pc as)"
  by (cases as) simp_all

lemma addresses_snoc: "addresses pc (obs @ [(p, a)]) = addresses pc obs @ (if p = pc then [a] else [])"
  by (simp add: addresses_def)

lemma addresses_Nil: "addresses pc obs = [] \<longleftrightarrow> pc \<notin> fst ` set obs"
  by (auto simp: addresses_def filter_empty_conv)

definition isolated :: "(addr \<times> addr) list \<Rightarrow> stride_detector \<Rightarrow> bool" where
  "isolated obs s \<longleftrightarrow> stride_ok s \<and>
     (\<forall>i < length (sd_entries s). se_valid (sd_entries s ! i) \<longrightarrow>
        se_pc (sd_entries s ! i) \<in> fst ` set obs \<and>
        ageless (sd_entries s ! i) = trained (se_pc (sd_entries s ! i)) (addresses (se_pc (sd_entries s ! i)) obs)) \<and>
     (\<forall>pc \<in> fst ` set obs. Stride_find pc (sd_entries s) \<noteq> None)"

text \<open>As long as there are no more loads than entries, a new load finds a free entry.\<close>

lemma free_entry:
  assumes iso: "isolated obs s" and new: "pc \<notin> fst ` set obs"
    and room: "card (insert pc (fst ` set obs)) \<le> length (sd_entries s)"
  shows "\<not> se_valid (sd_entries s ! Stride_victim (sd_entries s))"
proof -
  let ?es = "sd_entries s"
  have "\<exists>i < length ?es. \<not> se_valid (?es ! i)"
  proof (rule ccontr)
    assume full: "\<not> ?thesis"
    have "inj_on (\<lambda>i. se_pc (?es ! i)) {..<length ?es}"
      using iso full by (auto simp: isolated_def stride_ok_def unique_pcs_def inj_on_def)
    moreover have "(\<lambda>i. se_pc (?es ! i)) ` {..<length ?es} \<subseteq> fst ` set obs"
      using iso full by (auto simp: isolated_def)
    ultimately have "length ?es \<le> card (fst ` set obs)"
      by (metis card_image card_lessThan card_mono finite_imageI finite_set)
    with room new show False by simp
  qed
  then obtain i where "List.find (\<lambda>i. \<not> se_valid (?es ! i)) [0..<length ?es] = Some i"
    by (cases "List.find (\<lambda>i. \<not> se_valid (?es ! i)) [0..<length ?es]") (auto simp: find_upt_None)
  then show ?thesis using find_upt_Some [of "\<lambda>i. \<not> se_valid (?es ! i)" 0 "length ?es" i]
    by (simp add: Stride_victim_def)
qed

lemma length_observe: "length (sd_entries (snd (Stride_observe pc a s))) = length (sd_entries s)"
  by (simp add: Stride_observe_def Let_def split: option.splits)

lemma isolated_step:
  assumes iso: "isolated obs s" and room: "card (fst ` set (obs @ [(pc, a)])) \<le> length (sd_entries s)"
  shows "isolated (obs @ [(pc, a)]) (snd (Stride_observe pc a s))"
proof (cases "Stride_find pc (sd_entries s)")
  case None
  let ?es = "sd_entries s" and ?v = "Stride_victim (sd_entries s)"
  have new: "pc \<notin> fst ` set obs" using iso None by (auto simp: isolated_def)
  have free: "\<not> se_valid (?es ! ?v)" by (rule free_entry [OF iso new]) (use room in simp)
  have v: "?v < length ?es" using iso by (intro victim_range) (simp add: isolated_def stride_ok_def)
  define e where "e = empty_entry\<lparr>se_valid := True, se_pc := pc, se_lastAddress := a, se_age := sd_timestamp s + 1\<rparr>"
  have s': "sd_entries (snd (Stride_observe pc a s)) = ?es[?v := e]"
    using None by (simp add: Stride_observe_def Let_def e_def)
  have e: "se_valid e" "se_pc e = pc" "ageless e = trained pc [a]"
    by (simp_all add: e_def ageless_def installed_def empty_entry_def)
  have ok: "stride_ok (snd (Stride_observe pc a s))" using iso observe_ok by (simp add: isolated_def)
  have "Stride_find p (?es[?v := e]) \<noteq> None" if "p = pc \<or> p \<in> fst ` set obs" for p
  proof (cases "p = pc")
    case True
    with e v show ?thesis unfolding find_None by (auto intro!: exI [of _ ?v])
  next
    case False
    with that iso obtain i where "Stride_find p ?es = Some i" by (auto simp: isolated_def)
    from find_Some [OF this] free have "i < length ?es" "se_valid (?es[?v := e] ! i)" "se_pc (?es[?v := e] ! i) = p"
      by (auto simp: nth_update_if)
    then show ?thesis unfolding find_None by auto
  qed
  moreover have "addresses pc obs = []" using new by (simp add: addresses_Nil)
  ultimately show ?thesis
    using iso ok e v new unfolding isolated_def s'
    by (auto simp: nth_update_if addresses_snoc)
next
  case (Some i)
  let ?es = "sd_entries s"
  note i = find_Some [OF Some]
  define e where "e = Stride_train a (sd_timestamp s + 1) (?es ! i)"
  have s': "sd_entries (snd (Stride_observe pc a s)) = ?es[i := e]"
    using Some by (simp add: Stride_observe_def Let_def e_def)
  have seen: "pc \<in> fst ` set obs" and old: "ageless (?es ! i) = trained pc (addresses pc obs)"
    using iso i by (auto simp: isolated_def)
  have eok: "entry_ok (?es ! i)" using iso i(1) by (simp add: isolated_def stride_ok_def)
  have e: "se_valid e" "se_pc e = pc" using train_ok [OF eok i(2)] i by (simp_all add: e_def)
  have "ageless e = Stride_train a 0 (trained pc (addresses pc obs))"
    using old by (simp add: e_def ageless_train)
  then have tr: "ageless e = trained pc (addresses pc obs @ [a])"
    using seen by (simp add: trained_snoc addresses_Nil)
  have other: "se_pc (?es ! j) \<noteq> pc" if "j < length ?es" "se_valid (?es ! j)" "j \<noteq> i" for j
    using iso i that by (auto simp: isolated_def stride_ok_def unique_pcs_def)
  have ok: "stride_ok (snd (Stride_observe pc a s))" using iso observe_ok by (simp add: isolated_def)
  have "Stride_find p (?es[i := e]) \<noteq> None" if "p \<in> fst ` set obs" for p
  proof -
    from that iso obtain j where "Stride_find p ?es = Some j" by (auto simp: isolated_def)
    from find_Some [OF this] i e have "j < length ?es" "se_valid (?es[i := e] ! j)" "se_pc (?es[i := e] ! j) = p"
      by (auto simp: nth_update_if)
    then show ?thesis unfolding find_None by auto
  qed
  then show ?thesis
    using iso ok e i tr seen other unfolding isolated_def s'
    by (auto simp: nth_update_if addresses_snoc)
qed

lemma isolated_run:
  assumes "Stride_new n = Some s" "card (fst ` set obs) \<le> n"
  shows "isolated obs (observe_all obs s) \<and> length (sd_entries (observe_all obs s)) = n"
  using assms(2)
proof (induction obs rule: rev_induct)
  case Nil
  show ?case using assms(1) new_ok [OF assms(1)]
    by (auto simp: isolated_def Stride_new_def empty_entry_def split: if_splits)
next
  case (snoc x obs)
  have "card (fst ` set obs) \<le> card (fst ` set (obs @ [x]))" by (rule card_mono) auto
  with snoc have iso: "isolated obs (observe_all obs s)" "length (sd_entries (observe_all obs s)) = n" by simp_all
  with isolated_step [OF iso(1), of "fst x" "snd x"] snoc.prems show ?case by (simp add: length_observe)
qed

text \<open>The reference on a constant stride.\<close>

lemma trained_stream:
  assumes "d \<noteq> 0"
  shows "trained pc (map (\<lambda>i. a + of_nat i * d) [0..<Suc k]) =
    (installed pc a)\<lparr>se_lastAddress := a + of_nat k * d, se_stride := (if k \<ge> 1 then d else 0),
      se_confidence := min 3 (k - 1), se_pending := (k \<ge> 3)\<rparr>"
proof (induction k)
  case 0
  then show ?case by (simp add: installed_def empty_entry_def)
next
  case (Suc k)
  let ?as = "map (\<lambda>i. a + of_nat i * d) [0..<Suc k]"
  have "map (\<lambda>i. a + of_nat i * d) [0..<Suc (Suc k)] = ?as @ [a + of_nat (Suc k) * d]" by simp
  then have "trained pc (map (\<lambda>i. a + of_nat i * d) [0..<Suc (Suc k)]) =
    Stride_train (a + of_nat (Suc k) * d) 0 (trained pc ?as)"
    using trained_snoc [of ?as pc "a + of_nat (Suc k) * d"] by simp
  also have "\<dots> = (installed pc a)\<lparr>se_lastAddress := a + of_nat (Suc k) * d, se_stride := d,
      se_confidence := min 3 k, se_pending := (Suc k \<ge> 3)\<rparr>"
  proof -
    consider "k = 0" | "k = 1" | "k = 2" | "k = 3" | "k \<ge> 4" by linarith
    then show ?thesis unfolding Suc.IH using assms
      by cases (simp_all add: Stride_train_def Stride_learn_def Stride_arm_def Let_def MaxConfidence_def CandidateConfidence_def installed_def
        empty_entry_def algebra_simps)
  qed
  finally show ?case by simp
qed

section \<open>Dispatch\<close>

lemma dispatchLoop_skip:
  "\<forall>j \<in> set is. \<not> Stride_admitted pc (sd_entries s ! j) \<Longrightarrow>
    Stride_dispatchLoop (is @ js) pc act t seq s = Stride_dispatchLoop js pc act t seq s"
  by (induction "is") simp_all

lemma admitted_unique:
  assumes "stride_ok s" "Stride_find pc (sd_entries s) = Some i" "j < length (sd_entries s)" "j \<noteq> i"
  shows "\<not> Stride_admitted pc (sd_entries s ! j)"
  using assms find_Some [OF assms(2)] by (auto simp: stride_ok_def unique_pcs_def Stride_admitted_def)

text \<open>With unique PCs, a dispatch concerns the entry of its PC only.\<close>

lemma dispatch_entry:
  assumes ok: "stride_ok s" and i: "Stride_find pc (sd_entries s) = Some i"
  shows "Stride_observeDispatch pc act t seq s =
    (let e = sd_entries s ! i in
     if \<not> Stride_admitted pc e then (None, s)
     else if act then
       (if discoverySeen i s then (Some (Stride_predicted pc e (pc \<noteq> t)), s)
        else (None, setDiscoverySeen i True (s\<lparr>sd_seenWrites := (seq, i) # sd_seenWrites s\<rparr>)))
     else if se_pending e
     then (Some (Stride_predicted pc e False), s\<lparr>sd_entries := (sd_entries s)[i := e\<lparr>se_pending := False\<rparr>]\<rparr>)
     else (None, s))"
proof -
  let ?n = "length (sd_entries s)"
  have lt: "i < ?n" using find_Some(1) [OF i] .
  then have split: "[0..<?n] = [0..<i] @ i # ([Suc i..<?n] @ [])"
    using upt_add_eq_append [of 0 i "?n - i"] by (simp add: upt_conv_Cons)
  have pre: "\<forall>j \<in> set [0..<i]. \<not> Stride_admitted pc (sd_entries s ! j)"
    and post: "\<forall>j \<in> set [Suc i..<?n]. \<not> Stride_admitted pc (sd_entries s' ! j)"
    if "sd_entries s' = sd_entries s" for s' :: stride_detector
    using admitted_unique [OF ok i] lt that by auto
  have post': "Stride_dispatchLoop ([Suc i..<?n] @ []) pc act' t seq s' = (None, s')"
    if "sd_entries s' = sd_entries s" for s' act'
    using dispatchLoop_skip [of "[Suc i..<?n]" pc s' "[]"] post [OF that] by simp
  show ?thesis
    unfolding Stride_observeDispatch_def split dispatchLoop_skip [OF pre [OF refl]]
    by (simp add: Let_def post' del: append_Nil2)
qed

lemma dispatch_absent:
  assumes "Stride_find pc (sd_entries s) = None"
  shows "Stride_observeDispatch pc act t seq s = (None, s)"
proof -
  have "\<forall>j \<in> set [0..<length (sd_entries s)]. \<not> Stride_admitted pc (sd_entries s ! j)"
    using assms by (auto simp: find_None Stride_admitted_def)
  from dispatchLoop_skip [OF this, of "[]"] show ?thesis by (simp add: Stride_observeDispatch_def)
qed

lemma seen_setSeen:
  assumes "stride_ok s" "i < length (sd_entries s)" "j < length (sd_entries s)"
  shows "discoverySeen j (setDiscoverySeen i True s) \<longleftrightarrow> j = i \<or> discoverySeen j s"
proof -
  have "i div 64 < length (sd_discoveryBits s)" using assms by (simp add: stride_ok_def)
  then show ?thesis using assms by (simp add: discoverySeen_def setDiscoverySeen_def test_set_lane_word)
qed

definition seen_inv :: "stride_entry list \<Rightarrow> addr \<Rightarrow> addr set \<Rightarrow> stride_detector \<Rightarrow> bool" where
  "seen_inv es t ds s \<longleftrightarrow> stride_ok s \<and> sd_entries s = es \<and>
     (\<forall>j < length es. discoverySeen j s \<longleftrightarrow> se_valid (es ! j) \<and>
        (se_pc (es ! j) = t \<or> Stride_admitted (se_pc (es ! j)) (es ! j) \<and> se_pc (es ! j) \<in> ds))"

lemma seen_inv_begin:
  assumes "stride_ok s"
  shows "seen_inv (sd_entries s) t {} (Stride_beginDiscovery t s)"
proof -
  let ?c = "Stride_clearDiscovery s"
  have ok: "stride_ok ?c" using assms by (simp add: stride_ok_def Stride_clearDiscovery_def)
  have e: "sd_entries ?c = sd_entries s" by (simp add: Stride_clearDiscovery_def)
  have none: "\<not> discoverySeen j ?c" if "j < length (sd_entries s)" for j
    using assms that by (simp add: discoverySeen_def Stride_clearDiscovery_def stride_ok_def test_replicate_zero)
  show ?thesis
  proof (cases "Stride_find t (sd_entries s)")
    case None
    then have "Stride_beginDiscovery t s = ?c" by (simp add: Stride_beginDiscovery_def Let_def e)
    moreover have "\<forall>j < length (sd_entries s). \<not> (se_valid (sd_entries s ! j) \<and> se_pc (sd_entries s ! j) = t)"
      using None by (simp add: find_None)
    ultimately show ?thesis using ok none e by (auto simp: seen_inv_def)
  next
    case (Some i)
    have uniq: "j = i" if "j < length (sd_entries s)" "se_valid (sd_entries s ! j)" "se_pc (sd_entries s ! j) = t" for j
      using find_unique [OF _ that] Some assms by (simp add: stride_ok_def)
    have b: "Stride_beginDiscovery t s = setDiscoverySeen i True ?c"
      using Some by (simp add: Stride_beginDiscovery_def Let_def e)
    note i = find_Some [OF Some]
    have "discoverySeen j (setDiscoverySeen i True ?c) \<longleftrightarrow> se_valid (sd_entries s ! j) \<and> se_pc (sd_entries s ! j) = t"
      if "j < length (sd_entries s)" for j
      using seen_setSeen [OF ok, of i j] none [OF that] i that uniq [OF that] by (auto simp: e)
    then show ?thesis using begin_ok [OF assms, of t] by (auto simp: seen_inv_def b e)
  qed
qed

lemma seen_inv_mark:
  assumes "seen_inv es t ds s"
    and "\<And>j. j < length es \<Longrightarrow> se_valid (es ! j) \<Longrightarrow> se_pc (es ! j) = pc \<Longrightarrow> Stride_admitted pc (es ! j) \<Longrightarrow> discoverySeen j s"
  shows "seen_inv es t (insert pc ds) s"
  using assms unfolding seen_inv_def by (metis insert_iff)

lemma seen_inv_dispatch:
  assumes inv: "seen_inv es t ds s"
  shows "seen_inv es t (insert pc ds) (snd (Stride_observeDispatch pc True t seq s)) \<and>
    fst (Stride_observeDispatch pc True t seq s) =
      (case Stride_find pc es of
         Some i \<Rightarrow> if Stride_admitted pc (es ! i) \<and> (pc = t \<or> pc \<in> ds)
                  then Some (Stride_predicted pc (es ! i) (pc \<noteq> t)) else None
       | None \<Rightarrow> None)"
proof (cases "Stride_find pc es")
  case None
  have e: "sd_entries s = es" using inv by (simp add: seen_inv_def)
  have "se_pc (es ! j) \<noteq> pc" if "j < length es" "se_valid (es ! j)" for j
    using None that by (auto simp: find_None)
  with None inv show ?thesis
    by (auto simp: dispatch_absent [of pc s] e seen_inv_def)
next
  case (Some i)
  have ok: "stride_ok s" and e: "sd_entries s = es" using inv by (simp_all add: seen_inv_def)
  note i = find_Some [OF Some]
  note d = dispatch_entry [OF ok Some [folded e], of True t seq]
  have uniq: "j = i" if "j < length es" "se_valid (es ! j)" "se_pc (es ! j) = pc" for j
    using find_unique [OF _ that] Some ok e by (simp add: stride_ok_def)
  have seen: "discoverySeen i s \<longleftrightarrow> pc = t \<or> Stride_admitted pc (es ! i) \<and> pc \<in> ds"
    using inv i by (auto simp: seen_inv_def)
  let ?s' = "setDiscoverySeen i True (s\<lparr>sd_seenWrites := (seq, i) # sd_seenWrites s\<rparr>)"
  have new: "discoverySeen j ?s' \<longleftrightarrow> j = i \<or> discoverySeen j s" if "j < length es" for j
    using seen_setSeen [of "s\<lparr>sd_seenWrites := (seq, i) # sd_seenWrites s\<rparr>" i j] ok e i that
    by (simp add: stride_ok_def discoverySeen_def)
  have ok': "stride_ok ?s'" using ok by (simp add: stride_ok_def)
  consider "\<not> Stride_admitted pc (es ! i)" | "Stride_admitted pc (es ! i)" "discoverySeen i s"
    | "Stride_admitted pc (es ! i)" "\<not> discoverySeen i s" by blast
  then show ?thesis
  proof cases
    case 1
    have "seen_inv es t (insert pc ds) s"
      by (rule seen_inv_mark [OF inv]) (use uniq 1 in blast)
    with 1 d Some e show ?thesis by simp
  next
    case 2
    have "seen_inv es t (insert pc ds) s"
      by (rule seen_inv_mark [OF inv]) (use uniq 2 in blast)
    with 2 d Some e seen show ?thesis by auto
  next
    case 3
    with seen have no: "pc \<noteq> t" "pc \<notin> ds" by auto
    have bits: "discoverySeen j ?s' \<longleftrightarrow> se_valid (es ! j) \<and>
        (se_pc (es ! j) = t \<or> Stride_admitted (se_pc (es ! j)) (es ! j) \<and> se_pc (es ! j) \<in> insert pc ds)"
      if "j < length es" for j
    proof (cases "j = i")
      case True
      with i 3 that show ?thesis by (simp add: new)
    next
      case False
      then have "\<not> (se_valid (es ! j) \<and> se_pc (es ! j) = pc)" using uniq that by blast
      with False that inv show ?thesis by (auto simp: new seen_inv_def)
    qed
    have "seen_inv es t (insert pc ds) ?s'" unfolding seen_inv_def using ok' bits e by simp
    with 3 d Some e no show ?thesis by simp
  qed
qed

lemma seen_inv_run:
  assumes "seen_inv es t ds s"
  shows "seen_inv es t (ds \<union> fst ` set xs) (fold (dispatch_exec t) xs s)"
  using assms
proof (induction xs arbitrary: ds s)
  case (Cons x xs)
  from seen_inv_dispatch [OF Cons.prems, of "fst x" "snd x"]
  have "seen_inv es t (insert (fst x) ds) (dispatch_exec t x s)" by (simp add: dispatch_exec_def)
  from Cons.IH [OF this] show ?case by simp
qed simp

section \<open>Properties\<close>

text \<open>
  C15 (functional). With no more loads than table entries, what the table has learned of a load
  is exactly what a private entry would have learned from that load's own addresses: no
  interleaving with other loads changes its stride, its confidence or its pending notification.
\<close>

theorem rpt_isolation:
  assumes "Stride_new n = Some s" and "card (fst ` set obs) \<le> n" and "pc \<in> fst ` set obs"
  shows "\<exists>i < n. Stride_find pc (sd_entries (observe_all obs s)) = Some i \<and>
    ageless (sd_entries (observe_all obs s) ! i) = trained pc (addresses pc obs)"
proof -
  from isolated_run [OF assms(1,2)] have iso: "isolated obs (observe_all obs s)"
    and len: "length (sd_entries (observe_all obs s)) = n" by simp_all
  with assms(3) obtain i where i: "Stride_find pc (sd_entries (observe_all obs s)) = Some i"
    by (auto simp: isolated_def)
  from find_Some [OF this] iso len have "i < n" "ageless (sd_entries (observe_all obs s) ! i) = trained pc (addresses pc obs)"
    by (auto simp: isolated_def)
  with i show ?thesis by blast
qed

text \<open>
  C16 (functional). Detection latency: under the same bound, a load whose addresses so far are
  \<open>a, a + d, \<dots>\<close> with a nonzero stride is reported from its fourth address on and not before.
\<close>

theorem rpt_detects_stride:
  assumes "Stride_new n = Some s" and "card (fst ` set (obs @ [(pc, a + of_nat k * d)])) \<le> n" and "d \<noteq> 0"
    and "addresses pc obs = map (\<lambda>i. a + of_nat i * d) [0..<k]"
  shows "fst (Stride_observe pc (a + of_nat k * d) (observe_all obs s)) =
    (if 3 \<le> k then Some \<lparr>cd_pc = pc, cd_address = a + of_nat k * d, cd_stride = d, cd_repeated = False\<rparr> else None)"
proof -
  let ?x = "a + of_nat k * d" and ?s = "observe_all obs s"
  have "card (fst ` set obs) \<le> card (fst ` set (obs @ [(pc, ?x)]))" by (rule card_mono) auto
  with isolated_run [OF assms(1), of obs] assms(2) have iso: "isolated obs ?s" by simp
  show ?thesis
  proof (cases "Stride_find pc (sd_entries ?s)")
    case None
    then have "addresses pc obs = []" using iso by (auto simp: isolated_def addresses_Nil)
    with assms(4) have "k = 0" by simp
    with None show ?thesis by (simp add: Stride_observe_def Let_def)
  next
    case (Some i)
    have "ageless (sd_entries ?s ! i) = trained pc (addresses pc obs)" "pc \<in> fst ` set obs"
      using find_Some [OF Some] iso by (auto simp: isolated_def)
    define e where "e = Stride_train ?x (sd_timestamp ?s + 1) (sd_entries ?s ! i)"
    have "addresses pc obs \<noteq> []" using \<open>pc \<in> fst ` set obs\<close> by (simp add: addresses_Nil)
    with \<open>ageless (sd_entries ?s ! i) = trained pc (addresses pc obs)\<close> have
      "ageless e = trained pc (addresses pc obs @ [?x])"
      by (simp add: e_def ageless_train trained_snoc)
    also have "\<dots> = trained pc (map (\<lambda>i. a + of_nat i * d) [0..<Suc k])" using assms(4) by simp
    finally have "se_stride (ageless e) = (if k \<ge> 1 then d else 0)" "se_pending (ageless e) = (k \<ge> 3)"
      unfolding trained_stream [OF assms(3)] by simp_all
    with Some assms(3) show ?thesis
      by (simp add: Stride_observe_def Let_def e_def ageless_def)
  qed
qed

text \<open>
  C17 (safety). Squash recovery: opening a discovery, dispatching instructions in sequence
  order and squashing at \<open>q\<close> leaves exactly the detector that dispatching only the surviving
  instructions would have left.
\<close>

theorem discovery_squash_exact:
  assumes "sorted (map snd xs)"
  shows "Stride_squashDiscovery q (fold (dispatch_exec t) xs (Stride_beginDiscovery t s)) =
    fold (dispatch_exec t) (filter (\<lambda>x. snd x < q) xs) (Stride_beginDiscovery t s)"
proof (rule seen_log.squash_run [OF _ assms])
  have "sd_seenWrites (Stride_beginDiscovery t s) = []"
    by (simp add: Stride_beginDiscovery_def Stride_clearDiscovery_def setDiscoverySeen_def Let_def
        split: option.splits)
  then show "x < q" if "x \<in> stride_logged (Stride_beginDiscovery t s)" for x
    using that by (simp add: stride_logged_def)
qed

text \<open>
  Innermost detection: during a discovery of trigger \<open>t\<close>, dispatching \<open>pc\<close>
  reports a candidate exactly if \<open>pc\<close> has an admitted entry and is the trigger or was
  dispatched before in this discovery; the candidate is the predicted next address and is
  marked as a more-inner load exactly if it is not the trigger.
\<close>

theorem innermost_detection:
  assumes "stride_ok s"
  shows "fst (Stride_observeDispatch pc True t seq (fold (dispatch_exec t) xs (Stride_beginDiscovery t s))) =
    (case Stride_find pc (sd_entries s) of
       Some i \<Rightarrow> if Stride_admitted pc (sd_entries s ! i) \<and> (pc = t \<or> pc \<in> fst ` set xs)
                then Some (Stride_predicted pc (sd_entries s ! i) (pc \<noteq> t)) else None
     | None \<Rightarrow> None)"
proof -
  have "seen_inv (sd_entries s) t (fst ` set xs) (fold (dispatch_exec t) xs (Stride_beginDiscovery t s))"
    using seen_inv_run [OF seen_inv_begin [OF assms]] by simp
  from seen_inv_dispatch [OF this] show ?thesis by simp
qed

section \<open>Witnesses\<close>

definition demo_table :: stride_detector where
  "demo_table = the (Stride_new 2)"

definition demo_loads :: "(addr \<times> addr) list" where
  "demo_loads = [(16, 1000), (32, 7), (16, 1008), (16, 1016), (32, 9)]"

lemma demo_table_new: "Stride_new 2 = Some demo_table"
  by (simp add: demo_table_def Stride_new_def)

lemma demo_loads_room: "card (fst ` set demo_loads) \<le> 2" "card (fst ` set (demo_loads @ [(16, 1000 + of_nat 3 * 8)])) \<le> 2"
  by (simp_all add: demo_loads_def card_insert_if)

theorem rpt_isolation_witness:
  "\<exists>i < 2. Stride_find 16 (sd_entries (observe_all demo_loads demo_table)) = Some i \<and>
    ageless (sd_entries (observe_all demo_loads demo_table) ! i) = trained 16 [1000, 1008, 1016]"
proof -
  have "addresses 16 demo_loads = [1000, 1008, 1016]" by (simp add: addresses_def demo_loads_def)
  then show ?thesis
    using rpt_isolation [OF demo_table_new demo_loads_room(1), of 16] by (simp add: demo_loads_def)
qed

theorem rpt_detects_stride_witness:
  "fst (Stride_observe 16 (1000 + of_nat 3 * 8) (observe_all demo_loads demo_table)) =
    Some \<lparr>cd_pc = 16, cd_address = 1000 + of_nat 3 * 8, cd_stride = 8, cd_repeated = False\<rparr>"
proof -
  have "addresses 16 demo_loads = map (\<lambda>i. 1000 + of_nat i * 8) [0..<3]"
    by (simp add: addresses_def demo_loads_def upt_rec)
  from rpt_detects_stride [OF demo_table_new demo_loads_room(2) _ this] show ?thesis by simp
qed

theorem discovery_squash_exact_witness:
  "Stride_squashDiscovery 5 (fold (dispatch_exec 16) [(32, 4), (48, 6)] (Stride_beginDiscovery 16 demo_table)) =
    fold (dispatch_exec 16) [(32, 4)] (Stride_beginDiscovery 16 demo_table)"
  using discovery_squash_exact [of "[(32, 4), (48, 6)]" 5 16 demo_table] by simp


end
