(* ===== verification/DVR_Discovery.thy ===== *)
theory DVR_Discovery
  imports DVR_Stride
begin

text \<open>
  \<open>DVRDiscoveryController\<close> (\<open>src/code/gem5-runahead-dev-pre/src/cpu/o3/pre.hh\<close> 115-186 and
  \<open>pre.cc\<close> 181-290): the state machine of one discovery interval, opened at dispatch of the
  trigger load, marked for completion at the next dispatch of the trigger and closed in commit
  order. \<open>instructions\<close> and \<open>maxInstructions\<close> are \<open>32 word\<close>.
\<close>

section \<open>Model\<close>

datatype discovery_event = NoEvent | Started | Completed | TimedOut | Abandoned

datatype discovery_state = Idle | Armed | Discovering

record discovery_result =
  dr_event :: discovery_event
  dr_triggerPC :: addr
  dr_stride :: i64
  dr_instructions :: u32

record discovery_controller =
  dc_state :: discovery_state
  dc_triggerPC :: addr
  dc_triggerStride :: i64
  dc_triggerSequence :: inst_seq
  dc_stopSequence :: inst_seq
  dc_instructions :: u32
  dc_maxInstructions :: u32

definition no_discovery_result :: discovery_result where
  "no_discovery_result = \<lparr>dr_event = NoEvent, dr_triggerPC = 0, dr_stride = 0, dr_instructions = 0\<rparr>"

definition Discovery_finish :: "discovery_controller \<Rightarrow> discovery_controller" where
  "Discovery_finish d = d\<lparr>dc_state := Idle, dc_triggerPC := 0, dc_triggerStride := 0,
     dc_triggerSequence := 0, dc_stopSequence := 0, dc_instructions := 0\<rparr>"

definition Discovery_new :: "u32 \<Rightarrow> discovery_controller option" where
  "Discovery_new max_instructions =
     (if max_instructions > 0
      then Some \<lparr>dc_state = Idle, dc_triggerPC = 0, dc_triggerStride = 0, dc_triggerSequence = 0,
             dc_stopSequence = 0, dc_instructions = 0, dc_maxInstructions = max_instructions\<rparr>
      else None)"

definition Discovery_arm :: "stride_candidate \<Rightarrow> inst_seq \<Rightarrow> discovery_controller \<Rightarrow> discovery_controller" where
  "Discovery_arm candidate seq d =
     (if dc_state d \<noteq> Idle then d
      else d\<lparr>dc_state := Discovering, dc_triggerPC := cd_pc candidate,
             dc_triggerStride := cd_stride candidate, dc_triggerSequence := seq,
             dc_stopSequence := 0, dc_instructions := 0\<rparr>)"

definition Discovery_restart :: "stride_candidate \<Rightarrow> inst_seq \<Rightarrow> discovery_controller \<Rightarrow> discovery_controller" where
  "Discovery_restart candidate seq d = Discovery_arm candidate seq (Discovery_finish d)"

definition Discovery_observeDispatch ::
    "addr \<Rightarrow> inst_seq \<Rightarrow> discovery_controller \<Rightarrow> bool \<times> discovery_controller" where
  "Discovery_observeDispatch pc seq d =
     (if dc_state d \<noteq> Discovering \<or> seq \<le> dc_triggerSequence d \<or> dc_stopSequence d \<noteq> 0 then (False, d)
      else if pc = dc_triggerPC d then (True, d\<lparr>dc_stopSequence := seq\<rparr>)
      else (False, d))"

definition Discovery_report :: "discovery_event \<Rightarrow> u32 \<Rightarrow> discovery_controller \<Rightarrow> discovery_result" where
  "Discovery_report event n d =
     \<lparr>dr_event = event, dr_triggerPC = dc_triggerPC d, dr_stride = dc_triggerStride d, dr_instructions = n\<rparr>"

definition Discovery_observeCommit ::
    "addr \<Rightarrow> inst_seq \<Rightarrow> discovery_controller \<Rightarrow> discovery_result \<times> discovery_controller" where
  "Discovery_observeCommit pc seq d =
     (if dc_state d = Armed then
        (if seq = dc_triggerSequence d \<and> pc = dc_triggerPC d
         then (let d' = d\<lparr>dc_state := Discovering\<rparr> in (Discovery_report Started 0 d', d'))
         else if seq > dc_triggerSequence d
         then (Discovery_report Abandoned 0 d, Discovery_finish d)
         else (no_discovery_result, d))
      else if dc_state d \<noteq> Discovering \<or> seq \<le> dc_triggerSequence d then (no_discovery_result, d)
      else if dc_stopSequence d \<noteq> 0 \<and> seq = dc_stopSequence d
      then (Discovery_report Completed (dc_instructions d) d, Discovery_finish d)
      else
        (let d' = d\<lparr>dc_instructions := dc_instructions d + 1\<rparr>
         in if dc_instructions d' \<ge> dc_maxInstructions d'
            then (Discovery_report TimedOut (dc_instructions d') d', Discovery_finish d')
            else (no_discovery_result, d')))"

definition Discovery_rollback :: "inst_seq \<Rightarrow> discovery_controller \<Rightarrow> bool \<times> discovery_controller" where
  "Discovery_rollback squash_sequence d =
     (if dc_state d = Idle \<or> dc_triggerSequence d < squash_sequence then (False, d)
      else (True, Discovery_finish d))"

definition Discovery_isDiscovering :: "discovery_controller \<Rightarrow> bool" where
  "Discovery_isDiscovering d \<longleftrightarrow> dc_state d = Discovering"

definition Discovery_stopPending :: "discovery_controller \<Rightarrow> bool" where
  "Discovery_stopPending d \<longleftrightarrow> dc_state d = Discovering \<and> dc_stopSequence d \<noteq> 0"

definition Discovery_inBody :: "inst_seq \<Rightarrow> discovery_controller \<Rightarrow> bool" where
  "Discovery_inBody seq d \<longleftrightarrow> dc_state d = Discovering \<and> seq > dc_triggerSequence d \<and>
     (dc_stopSequence d = 0 \<or> seq < dc_stopSequence d)"

definition Discovery_reset :: "discovery_controller \<Rightarrow> discovery_controller" where
  "Discovery_reset d = Discovery_finish d"

section \<open>Invariant\<close>

datatype discovery_call =
    Arm stride_candidate inst_seq
  | Restart stride_candidate inst_seq
  | Dispatched addr inst_seq
  | Committed addr inst_seq
  | Rollback inst_seq
  | ResetAll

fun discovery_step :: "discovery_call \<Rightarrow> discovery_controller \<Rightarrow> discovery_controller" where
  "discovery_step (Arm c s) d = Discovery_arm c s d"
| "discovery_step (Restart c s) d = Discovery_restart c s d"
| "discovery_step (Dispatched pc s) d = snd (Discovery_observeDispatch pc s d)"
| "discovery_step (Committed pc s) d = snd (Discovery_observeCommit pc s d)"
| "discovery_step (Rollback s) d = snd (Discovery_rollback s d)"
| "discovery_step ResetAll d = Discovery_reset d"

fun discovery_event_of :: "discovery_call \<Rightarrow> discovery_controller \<Rightarrow> discovery_event" where
  "discovery_event_of (Committed pc s) d = dr_event (fst (Discovery_observeCommit pc s d))"
| "discovery_event_of _ d = NoEvent"

definition discovery_ok :: "discovery_controller \<Rightarrow> bool" where
  "discovery_ok d \<longleftrightarrow> dc_maxInstructions d > 0 \<and>
     (dc_state d = Idle \<and> Discovery_finish d = d \<or>
      dc_state d = Discovering \<and> dc_instructions d < dc_maxInstructions d \<and>
        (dc_stopSequence d \<noteq> 0 \<longrightarrow> dc_triggerSequence d < dc_stopSequence d))"

lemmas discovery_defs =
  Discovery_finish_def Discovery_arm_def Discovery_restart_def Discovery_observeDispatch_def
  Discovery_observeCommit_def Discovery_rollback_def Discovery_reset_def Discovery_report_def
  no_discovery_result_def Let_def

lemma discovery_ok_step [inv_intros]: "discovery_ok d \<Longrightarrow> discovery_ok (discovery_step e d)"
  by (cases e) (auto simp: discovery_ok_def discovery_defs not_le)

lemma discovery_ok_new: "Discovery_new m = Some d \<Longrightarrow> discovery_ok d"
  by (auto simp: Discovery_new_def discovery_ok_def Discovery_finish_def split: if_splits)

interpretation discovery: event_machine discovery_step discovery_ok
  by unfold_locales (rule discovery_ok_step)

section \<open>Commit window\<close>

definition discovery_commit :: "addr \<times> inst_seq \<Rightarrow> discovery_controller \<Rightarrow> discovery_controller" where
  "discovery_commit e d = snd (Discovery_observeCommit (fst e) (snd e) d)"

definition discovery_budget :: "discovery_controller \<Rightarrow> nat" where
  "discovery_budget d = unat (dc_maxInstructions d) - unat (dc_instructions d)"

lemma discovery_commit_window:
  assumes ok: "discovery_ok d" and open_: "Discovery_isDiscovering d" and seq: "dc_triggerSequence d < snd e"
  shows "discovery_ok (discovery_commit e d)"
    "Discovery_isDiscovering (discovery_commit e d) \<Longrightarrow> discovery_budget (discovery_commit e d) < discovery_budget d"
    "Discovery_isDiscovering (discovery_commit e d) \<Longrightarrow> dc_triggerSequence (discovery_commit e d) = dc_triggerSequence d"
proof -
  have lt: "dc_instructions d < dc_maxInstructions d"
    using ok open_ by (auto simp: discovery_ok_def Discovery_isDiscovering_def)
  note succ = unat_add_one [OF lt]
  show "discovery_ok (discovery_commit e d)"
    using discovery_ok_step [OF ok, of "Committed (fst e) (snd e)"] by (simp add: discovery_commit_def)
  show "discovery_budget (discovery_commit e d) < discovery_budget d" if "Discovery_isDiscovering (discovery_commit e d)"
    using that open_ seq lt succ
    by (auto simp: discovery_commit_def discovery_defs discovery_budget_def Discovery_isDiscovering_def
        word_less_nat_alt word_le_nat_alt split: if_splits)
  show "dc_triggerSequence (discovery_commit e d) = dc_triggerSequence d" if "Discovery_isDiscovering (discovery_commit e d)"
    using that open_ seq
    by (auto simp: discovery_commit_def discovery_defs Discovery_isDiscovering_def split: if_splits)
qed

interpretation discovery_window: commit_window discovery_commit Discovery_isDiscovering discovery_budget
  "\<lambda>e d. dc_triggerSequence d < snd e" discovery_ok
proof
  show "0 < discovery_budget d" if "discovery_ok d" "Discovery_isDiscovering d" for d
    using that by (auto simp: discovery_ok_def discovery_budget_def Discovery_isDiscovering_def word_less_nat_alt)
qed (simp_all add: discovery_commit_window)

lemma discovery_run_open:
  assumes "\<And>k. k \<le> length es \<Longrightarrow> Discovery_isDiscovering (fold discovery_commit (take k es) d)"
    and "discovery_ok d" and "\<forall>e \<in> set es. dc_triggerSequence d < snd e"
  shows "discovery_window.stays_open es d \<and> discovery_window.all_ok es d"
  using assms
proof (induction es arbitrary: d)
  case Nil
  from Nil(1) [of 0] show ?case by simp
next
  case (Cons e es)
  have o0: "Discovery_isDiscovering d" using Cons.prems(1) [of 0] by simp
  have o1: "Discovery_isDiscovering (fold discovery_commit (take k es) (discovery_commit e d))" if "k \<le> length es" for k
    using Cons.prems(1) [of "Suc k"] that by simp
  have seq: "dc_triggerSequence d < snd e" using Cons.prems(3) by simp
  note w = discovery_commit_window [OF Cons.prems(2) o0 seq]
  have "\<forall>x \<in> set es. dc_triggerSequence (discovery_commit e d) < snd x"
    using w(3) o1 [of 0] Cons.prems(3) by simp
  with Cons.IH [of "discovery_commit e d"] o1 w(1) o0 seq show ?case by simp
qed

section \<open>Complete runs\<close>

lemma body_commits:
  assumes "dc_state d = Discovering" "\<forall>e \<in> set es. dc_triggerSequence d < snd e \<and> snd e \<noteq> dc_stopSequence d"
    "unat (dc_instructions d) + length es < unat (dc_maxInstructions d)"
  shows "fold discovery_commit es d = d\<lparr>dc_instructions := dc_instructions d + of_nat (length es)\<rparr>"
  using assms
proof (induction es arbitrary: d)
  case Nil
  then show ?case by simp
next
  case (Cons e es)
  let ?d = "d\<lparr>dc_instructions := dc_instructions d + 1\<rparr>"
  have lt: "dc_instructions d < dc_maxInstructions d" using Cons.prems(3) by (simp add: word_less_nat_alt)
  note succ = unat_add_one [OF lt]
  have "dc_instructions d + 1 < dc_maxInstructions d"
    using Cons.prems(3) succ by (simp add: word_less_nat_alt)
  then have "discovery_commit e d = ?d"
    using Cons.prems(1,2) by (auto simp: discovery_commit_def discovery_defs)
  moreover have "fold discovery_commit es ?d = ?d\<lparr>dc_instructions := dc_instructions ?d + of_nat (length es)\<rparr>"
    using Cons.prems succ by (intro Cons.IH) simp_all
  ultimately show ?case by (simp add: add.assoc)
qed

lemma stale_stop_kept:
  assumes "dc_state d = Discovering" "dc_stopSequence d = p" "p \<noteq> 0"
    and "case e of Committed pc s \<Rightarrow> s \<noteq> p | Dispatched pc s \<Rightarrow> True
         | Rollback q \<Rightarrow> True | _ \<Rightarrow> False"
  shows "discovery_event_of e d \<noteq> Completed \<and>
    (dc_state (discovery_step e d) = Discovering \<and> dc_stopSequence (discovery_step e d) = p \<or>
     dc_state (discovery_step e d) = Idle)"
  using assms by (cases e) (auto simp: discovery_defs)

section \<open>Properties\<close>

text \<open>
  In every reachable state the controller is idle and cleared, or discovering
  within its budget with a stop instruction younger than the trigger. The state \<open>Armed\<close> is never
  entered, so no commit ever reports \<open>Started\<close> or \<open>Abandoned\<close>.
\<close>

lemma discovery_states:
  assumes "Discovery_new m = Some d0"
  shows "discovery_ok (fold discovery_step es d0) \<and> dc_state (fold discovery_step es d0) \<noteq> Armed \<and>
    discovery_event_of e (fold discovery_step es d0) \<notin> {Started, Abandoned}"
proof -
  let ?d = "fold discovery_step es d0"
  have ok: "discovery_ok ?d" by (rule discovery.run_inv [OF discovery_ok_new [OF assms]])
  moreover have "dc_state ?d \<noteq> Armed" using ok by (auto simp: discovery_ok_def)
  moreover have "discovery_event_of e ?d \<notin> {Started, Abandoned}"
    using \<open>dc_state ?d \<noteq> Armed\<close> by (cases e) (auto simp: discovery_defs)
  ultimately show ?thesis by blast
qed

text \<open>
  C20 (functional). A regular discovery: opened at sequence \<open>t\<close>, with the trigger dispatched
  again at \<open>p > t\<close> and a loop body \<open>es\<close> of fewer than \<open>max\<close> younger instructions committed in
  between, the commit of \<open>p\<close> completes it with the trigger's PC and stride and the number of
  body instructions.
\<close>

theorem discovery_completes:
  assumes "Discovery_new m = Some d0" and "t < p" and "length es < unat m"
    and "\<forall>e \<in> set es. t < snd e \<and> snd e < p"
  shows "let d = fold discovery_commit es
                   (snd (Discovery_observeDispatch (cd_pc c) p (Discovery_arm c t d0)));
             (r, d') = Discovery_observeCommit (cd_pc c) p d in
    r = \<lparr>dr_event = Completed, dr_triggerPC = cd_pc c, dr_stride = cd_stride c,
         dr_instructions = of_nat (length es)\<rparr> \<and> d' = d0"
proof -
  have p: "p \<noteq> 0" using assms(2) by auto
  define d1 where "d1 = snd (Discovery_observeDispatch (cd_pc c) p (Discovery_arm c t d0))"
  have d0: "dc_state d0 = Idle" "dc_maxInstructions d0 = m" "Discovery_finish d0 = d0"
    using assms(1) by (auto simp: Discovery_new_def Discovery_finish_def split: if_splits)
  have d1: "d1 = d0\<lparr>dc_state := Discovering, dc_triggerPC := cd_pc c, dc_triggerStride := cd_stride c,
      dc_triggerSequence := t, dc_stopSequence := p, dc_instructions := 0\<rparr>"
    using d0 assms(2) by (simp add: d1_def discovery_defs)
  have "fold discovery_commit es d1 = d1\<lparr>dc_instructions := dc_instructions d1 + of_nat (length es)\<rparr>"
    by (rule body_commits) (use d1 d0 assms(3,4) in auto)
  then have "fold discovery_commit es d1 = d1\<lparr>dc_instructions := of_nat (length es)\<rparr>" by (simp add: d1)
  then show ?thesis
    unfolding d1_def [symmetric] using d1 d0 assms(2) p
    by (simp add: Let_def discovery_defs split: prod.splits)
qed

text \<open>
  No discovery outlives its budget: among \<open>max - instructions\<close> commits of
  instructions younger than the trigger there is a point where the interval is closed.
\<close>

theorem discovery_window_closes:
  assumes "discovery_ok d" and "\<forall>e \<in> set es. dc_triggerSequence d < snd e"
    and "unat (dc_maxInstructions d) - unat (dc_instructions d) \<le> length es"
  shows "\<exists>k \<le> length es. \<not> Discovery_isDiscovering (fold discovery_commit (take k es) d)"
proof (rule ccontr)
  assume "\<not> ?thesis"
  then have "discovery_window.stays_open es d \<and> discovery_window.all_ok es d"
    by (intro discovery_run_open [OF _ assms(1,2)]) blast
  then have "length es < discovery_budget d" using assms(1) discovery_window.window_closes by blast
  with assms(3) show False by (simp add: discovery_budget_def)
qed

text \<open>
  C22 (safety). The stop mark is not rolled back: once the trigger was dispatched again at \<open>p\<close>
  and that instruction is squashed (no commit has sequence \<open>p\<close>), no later dispatch, commit or
  rollback completes this discovery; it stays open with the stale mark until it times out or
  its trigger is squashed.
\<close>

theorem stale_stop_never_completes:
  assumes "dc_state d = Discovering" and "dc_stopSequence d = p" and "p \<noteq> 0"
    and "\<forall>e \<in> set (es @ [e]). case e of Committed pc s \<Rightarrow> s \<noteq> p | Dispatched pc s \<Rightarrow> True
         | Rollback q \<Rightarrow> True | _ \<Rightarrow> False"
  shows "discovery_event_of e (fold discovery_step es d) \<noteq> Completed \<and>
    (Discovery_isDiscovering (fold discovery_step es d) \<longrightarrow> Discovery_stopPending (fold discovery_step es d))"
proof -
  have idle: "dc_state (discovery_step e d) = Idle \<and> discovery_event_of e d \<noteq> Completed"
    if "dc_state d = Idle" "case e of Committed pc s \<Rightarrow> s \<noteq> p | Dispatched pc s \<Rightarrow> True | Rollback q \<Rightarrow> True | _ \<Rightarrow> False"
    for e d using that by (cases e) (auto simp: discovery_defs)
  have run: "dc_state (fold discovery_step es d) = Discovering \<and> dc_stopSequence (fold discovery_step es d) = p \<or>
    dc_state (fold discovery_step es d) = Idle"
    using assms(4)
  proof (induction es rule: rev_induct)
    case Nil
    then show ?case using assms(1,2) by simp
  next
    case (snoc x xs)
    then show ?case
      using stale_stop_kept [of "fold discovery_step xs d" p x] assms(3) idle [of "fold discovery_step xs d" x] by auto
  qed
  with stale_stop_kept [of "fold discovery_step es d" p e] assms(3,4) idle [of "fold discovery_step es d" e]
  show ?thesis by (auto simp: Discovery_isDiscovering_def Discovery_stopPending_def)
qed

section \<open>Witnesses\<close>

definition demo_trigger :: stride_candidate where
  "demo_trigger = \<lparr>cd_pc = 64, cd_address = 1000, cd_stride = 8, cd_repeated = False\<rparr>"

definition demo_discovery :: discovery_controller where
  "demo_discovery = the (Discovery_new 4)"

lemma demo_discovery_new: "Discovery_new 4 = Some demo_discovery"
proof -
  have "(4::u32) > 0" by code_simp
  then show ?thesis by (simp add: demo_discovery_def Discovery_new_def)
qed

theorem discovery_completes_witness:
  "fst (Discovery_observeCommit 64 9 (fold discovery_commit [(68, 6), (72, 7)]
     (snd (Discovery_observeDispatch 64 9 (Discovery_arm demo_trigger 5 demo_discovery))))) =
   \<lparr>dr_event = Completed, dr_triggerPC = 64, dr_stride = 8, dr_instructions = 2\<rparr>"
  using discovery_completes [OF demo_discovery_new, of 5 9 "[(68, 6), (72, 7)]" demo_trigger]
  by (simp add: demo_trigger_def Let_def case_prod_beta)


theorem stale_stop_never_completes_witness:
  "discovery_event_of (Committed 64 12) (fold discovery_step [Rollback 9, Dispatched 64 12]
     (discovery_step (Dispatched 64 9) (Discovery_arm demo_trigger 5 demo_discovery))) \<noteq> Completed"
proof -
  let ?d = "discovery_step (Dispatched 64 9) (Discovery_arm demo_trigger 5 demo_discovery)"
  have "dc_state ?d = Discovering" "dc_stopSequence ?d = 9" by code_simp+
  from stale_stop_never_completes [OF this, of "[Rollback 9, Dispatched 64 12]" "Committed 64 12"]
  show ?thesis by simp
qed

end
