(* ===== verification/DVR_Inst.thy ===== *)
theory DVR_Inst
  imports DVR_Prelude
begin

text \<open>
  What the DVR components read of a dynamic instruction (\<open>DynInst\<close>, \<open>StaticInst\<close> and \<open>RegId\<close>
  of \<open>src/code/gem5-runahead-dev-pre/src/cpu\<close>): its PC, its register operands in order, the
  class bits, the branch outcome and the encoding bytes. The instruction objects themselves
  are built by the ISA decoder and are inputs of the model.
\<close>

text \<open>\<open>RegClassType\<close> and \<open>RegId\<close> (\<open>cpu/reg_class.hh\<close>).\<close>

datatype reg_class_type =
    IntRegClass | FloatRegClass | VecRegClass | VecElemClass | VecPredRegClass | CCRegClass
  | MiscRegClass | InvalidRegClass

record reg_id =
  ri_class :: reg_class_type
  ri_index :: nat

text \<open>
  \<open>di_encoding\<close> is what \<open>StaticInst::asBytes\<close> writes: the number of bytes and the value;
  \<open>di_branchTarget\<close> is the address of \<open>branchTarget()\<close>, read for direct control only.
\<close>

record dyn_inst =
  di_pc :: addr
  di_srcRegs :: "reg_id list"
  di_destRegs :: "reg_id list"
  di_isLoad :: bool
  di_isControl :: bool
  di_isCondCtrl :: bool
  di_isDirectCtrl :: bool
  di_branchTarget :: addr
  di_branching :: bool
  di_encoding :: "nat \<times> u64"

definition operand_regs :: "bool \<Rightarrow> dyn_inst \<Rightarrow> reg_id list" where
  "operand_regs sources inst = (if sources then di_srcRegs inst else di_destRegs inst)"

definition int_operand :: "reg_id \<Rightarrow> bool" where
  "int_operand r \<longleftrightarrow> ri_class r = IntRegClass \<and> ri_index r < 32"

section \<open>Register bit sets\<close>

definition reg_bit :: "nat \<Rightarrow> u32" where
  "reg_bit r = push_bit r 1"

definition reg_member :: "nat \<Rightarrow> u32 \<Rightarrow> bool" where
  "reg_member r m \<longleftrightarrow> m AND reg_bit r \<noteq> 0"

lemma bit_reg_bit: "r < 32 \<Longrightarrow> bit (reg_bit r) k \<longleftrightarrow> k = r"
  unfolding reg_bit_def bit_one_shifted by auto

lemma reg_member_bit: "r < 32 \<Longrightarrow> reg_member r m \<longleftrightarrow> bit m r"
  unfolding reg_member_def by (rule and_one_bit_iff) (rule bit_reg_bit)

lemma reg_member_or: "r < 32 \<Longrightarrow> k < 32 \<Longrightarrow> reg_member k (m OR reg_bit r) \<longleftrightarrow> k = r \<or> reg_member k m"
  by (auto simp: reg_member_bit bit_or_iff bit_reg_bit)

lemma reg_member_andnot:
  "r < 32 \<Longrightarrow> k < 32 \<Longrightarrow> reg_member k (m AND NOT (reg_bit r)) \<longleftrightarrow> k \<noteq> r \<and> reg_member k m"
  by (auto simp: reg_member_bit bit_and_iff bit_not_iff bit_reg_bit)

lemma reg_member_zero [simp]: "\<not> reg_member r 0"
  by (simp add: reg_member_def)

end
