(* ===== verification/DVR_Taint.thy ===== *)
theory DVR_Taint
  imports DVR_Inst
begin

text \<open>
  \<open>DVRVectorTaintTracker\<close> (\<open>src/code/gem5-runahead-dev-pre/src/cpu/o3/pre.hh\<close> 188-225 and
  \<open>pre.cc\<close> 292-390): one taint bit per architectural integer register, the PC of the last
  dependent load (FLR), and a history that lets a squash restore both. The history vector is
  a list with its newest element first.
\<close>

section \<open>Model\<close>

definition NumTrackedRegs :: nat where
  "NumTrackedRegs = 32"

record speculative_state =
  sp_sequence :: inst_seq
  sp_taint :: u32
  sp_finalLoadPC :: addr

record taint_tracker =
  tt_taint :: u32
  tt_finalLoadPC :: addr
  tt_history :: "speculative_state list"

record taint_observation =
  ob_tainted :: bool
  ob_dependentLoad :: bool

definition Taint_initial :: taint_tracker where
  "Taint_initial = \<lparr>tt_taint = 0, tt_finalLoadPC = 0, tt_history = []\<rparr>"

definition Taint_tracked :: "reg_id \<Rightarrow> bool" where
  "Taint_tracked r \<longleftrightarrow> ri_class r = IntRegClass \<and> ri_index r < NumTrackedRegs"

definition Taint_isTainted :: "reg_id \<Rightarrow> taint_tracker \<Rightarrow> bool" where
  "Taint_isTainted r t \<longleftrightarrow> Taint_tracked r \<and> reg_member (ri_index r) (tt_taint t)"

definition Taint_setTainted :: "bool \<Rightarrow> reg_id \<Rightarrow> taint_tracker \<Rightarrow> taint_tracker" where
  "Taint_setTainted v r t =
     (if \<not> Taint_tracked r then t
      else if v then t\<lparr>tt_taint := tt_taint t OR reg_bit (ri_index r)\<rparr>
      else t\<lparr>tt_taint := tt_taint t AND NOT (reg_bit (ri_index r))\<rparr>)"

definition Taint_reset :: "taint_tracker \<Rightarrow> taint_tracker" where
  "Taint_reset t = t\<lparr>tt_taint := 0, tt_finalLoadPC := 0, tt_history := []\<rparr>"

definition Taint_begin :: "dyn_inst \<Rightarrow> taint_tracker \<Rightarrow> taint_tracker" where
  "Taint_begin initiating_load t = fold (Taint_setTainted True) (di_destRegs initiating_load) (Taint_reset t)"

definition Taint_observe :: "dyn_inst \<Rightarrow> taint_tracker \<Rightarrow> taint_observation \<times> taint_tracker" where
  "Taint_observe inst t =
     (let source_tainted = list_ex (\<lambda>r. Taint_isTainted r t) (di_srcRegs inst);
          dependent_load = (di_isLoad inst \<and> source_tainted);
          t1 = (if dependent_load then t\<lparr>tt_finalLoadPC := di_pc inst\<rparr> else t)
      in (\<lparr>ob_tainted = source_tainted, ob_dependentLoad = dependent_load\<rparr>,
          fold (Taint_setTainted source_tainted) (di_destRegs inst) t1))"

definition Taint_observeSpeculative ::
    "dyn_inst \<Rightarrow> inst_seq \<Rightarrow> taint_tracker \<Rightarrow> taint_observation \<times> taint_tracker" where
  "Taint_observeSpeculative inst seq t =
     Taint_observe inst (t\<lparr>tt_history :=
       \<lparr>sp_sequence = seq, sp_taint = tt_taint t, sp_finalLoadPC = tt_finalLoadPC t\<rparr> # tt_history t\<rparr>)"

fun Taint_unwind :: "inst_seq \<Rightarrow> speculative_state list \<Rightarrow> u32 \<Rightarrow> addr \<Rightarrow> taint_tracker" where
  "Taint_unwind q [] ta flr = \<lparr>tt_taint = ta, tt_finalLoadPC = flr, tt_history = []\<rparr>"
| "Taint_unwind q (h # hs) ta flr =
     (if sp_sequence h \<ge> q then Taint_unwind q hs (sp_taint h) (sp_finalLoadPC h)
      else \<lparr>tt_taint = ta, tt_finalLoadPC = flr, tt_history = h # hs\<rparr>)"

definition Taint_squash :: "inst_seq \<Rightarrow> taint_tracker \<Rightarrow> taint_tracker" where
  "Taint_squash q t = Taint_unwind q (tt_history t) (tt_taint t) (tt_finalLoadPC t)"

definition Taint_classify :: "dyn_inst \<Rightarrow> taint_tracker \<Rightarrow> taint_observation" where
  "Taint_classify inst t =
     (let source_tainted = list_ex (\<lambda>r. Taint_isTainted r t) (di_srcRegs inst)
      in \<lparr>ob_tainted = source_tainted, ob_dependentLoad = di_isLoad inst \<and> source_tainted\<rparr>)"

section \<open>Squash\<close>

definition taint_exec :: "dyn_inst \<times> inst_seq \<Rightarrow> taint_tracker \<Rightarrow> taint_tracker" where
  "taint_exec e t = snd (Taint_observeSpeculative (fst e) (snd e) t)"

definition taint_logged :: "taint_tracker \<Rightarrow> inst_seq set" where
  "taint_logged t = sp_sequence ` set (tt_history t)"

lemma setTainted_history [simp]:
  "tt_history (fold (Taint_setTainted v) rs t) = tt_history t"
  "tt_finalLoadPC (fold (Taint_setTainted v) rs t) = tt_finalLoadPC t"
  by (induction rs arbitrary: t) (simp_all add: Taint_setTainted_def)

lemma observe_history [simp]: "tt_history (snd (Taint_observe i t)) = tt_history t"
  by (simp add: Taint_observe_def Let_def)

lemma taint_exec_history:
  "tt_history (taint_exec e t) =
    \<lparr>sp_sequence = snd e, sp_taint = tt_taint t, sp_finalLoadPC = tt_finalLoadPC t\<rparr> # tt_history t"
  by (simp add: taint_exec_def Taint_observeSpeculative_def)

lemma taint_squash_keeps:
  assumes "\<And>x. x \<in> taint_logged t \<Longrightarrow> x < q"
  shows "Taint_squash q t = t"
proof (cases "tt_history t")
  case (Cons h hs)
  then have "sp_sequence h < q" using assms by (simp add: taint_logged_def)
  with Cons show ?thesis by (simp add: Taint_squash_def not_le)
qed (simp add: Taint_squash_def)

interpretation taint_log: speculative_log taint_exec snd taint_logged Taint_squash
proof
  show "Taint_squash q t = t" if "\<And>x. x \<in> taint_logged t \<Longrightarrow> x < q" for t q
    by (rule taint_squash_keeps [OF that])
  show "Taint_squash q (taint_exec e t) = Taint_squash q t" if "q \<le> snd e" for q e t
    using that by (simp add: Taint_squash_def taint_exec_history)
  show "taint_logged (taint_exec e t) \<subseteq> insert (snd e) (taint_logged t)" for e t
    by (auto simp: taint_logged_def taint_exec_history)
qed

section \<open>Taint is data dependence\<close>

text \<open>
  The reference: registers as a set. An instruction with a source in the set adds its
  destinations, any other instruction removes them.
\<close>

definition tracked_indices :: "reg_id list \<Rightarrow> nat set" where
  "tracked_indices rs = ri_index ` {r \<in> set rs. Taint_tracked r}"

definition depends :: "nat set \<Rightarrow> dyn_inst \<Rightarrow> bool" where
  "depends S i \<longleftrightarrow> tracked_indices (di_srcRegs i) \<inter> S \<noteq> {}"

definition flow :: "dyn_inst \<Rightarrow> nat set \<Rightarrow> nat set" where
  "flow i S = (if depends S i then S \<union> tracked_indices (di_destRegs i)
               else S - tracked_indices (di_destRegs i))"

definition last_dependent :: "dyn_inst \<Rightarrow> nat set \<times> addr \<Rightarrow> nat set \<times> addr" where
  "last_dependent i s = (flow i (fst s), if di_isLoad i \<and> depends (fst s) i then di_pc i else snd s)"

definition taint_set :: "taint_tracker \<Rightarrow> nat set" where
  "taint_set t = {r. r < 32 \<and> reg_member r (tt_taint t)}"

lemma tracked_indices_Cons:
  "tracked_indices (r # rs) = (if Taint_tracked r then insert (ri_index r) (tracked_indices rs) else tracked_indices rs)"
  by (auto simp: tracked_indices_def)

lemma taint_set_fold:
  "taint_set (fold (Taint_setTainted v) rs t) =
    (if v then taint_set t \<union> tracked_indices rs else taint_set t - tracked_indices rs)"
proof (induction rs arbitrary: t)
  case Nil
  then show ?case by (simp add: tracked_indices_def)
next
  case (Cons r rs)
  have "taint_set (Taint_setTainted v r t) =
    (if \<not> Taint_tracked r then taint_set t
     else if v then insert (ri_index r) (taint_set t) else taint_set t - {ri_index r})"
    by (auto simp: taint_set_def Taint_setTainted_def Taint_tracked_def NumTrackedRegs_def
        reg_member_or reg_member_andnot)
  with Cons.IH [of "Taint_setTainted v r t"] show ?case by (auto simp: tracked_indices_Cons)
qed

lemma source_depends: "list_ex (\<lambda>r. Taint_isTainted r t) rs \<longleftrightarrow> tracked_indices rs \<inter> taint_set t \<noteq> {}"
  by (auto simp: list_ex_iff Taint_isTainted_def tracked_indices_def taint_set_def Taint_tracked_def NumTrackedRegs_def)

lemma taint_set_flr [simp]: "taint_set (t\<lparr>tt_finalLoadPC := x\<rparr>) = taint_set t" "taint_set (t\<lparr>tt_history := h\<rparr>) = taint_set t"
  by (simp_all add: taint_set_def)

lemma observe_flow:
  "(taint_set (snd (Taint_observe i t)), tt_finalLoadPC (snd (Taint_observe i t))) =
    last_dependent i (taint_set t, tt_finalLoadPC t)"
  by (simp add: Taint_observe_def Let_def taint_set_fold source_depends last_dependent_def flow_def depends_def)

lemma begin_flow:
  "taint_set (Taint_begin i t) = tracked_indices (di_destRegs i)" "tt_finalLoadPC (Taint_begin i t) = 0"
  "tt_history (Taint_begin i t) = []"
proof -
  have "taint_set (Taint_reset t) = {}" by (simp add: Taint_reset_def taint_set_def)
  then show "taint_set (Taint_begin i t) = tracked_indices (di_destRegs i)"
    by (simp add: Taint_begin_def taint_set_fold)
qed (simp_all add: Taint_begin_def Taint_reset_def)

lemma exec_flow:
  "(taint_set (fold taint_exec es t), tt_finalLoadPC (fold taint_exec es t)) =
    fold last_dependent (map fst es) (taint_set t, tt_finalLoadPC t)"
proof (induction es arbitrary: t)
  case (Cons e es)
  let ?t = "t\<lparr>tt_history := \<lparr>sp_sequence = snd e, sp_taint = tt_taint t,
    sp_finalLoadPC = tt_finalLoadPC t\<rparr> # tt_history t\<rparr>"
  have "(taint_set (taint_exec e t), tt_finalLoadPC (taint_exec e t)) =
    last_dependent (fst e) (taint_set t, tt_finalLoadPC t)"
    using observe_flow [of "fst e" ?t] by (simp add: taint_exec_def Taint_observeSpeculative_def)
  with Cons.IH [of "taint_exec e t"] show ?case by simp
qed simp

section \<open>Properties\<close>

text \<open>
  C23 (refinement). The taint bits and the FLR are the data-flow closure: from the trigger load
  on, the tainted registers are those computed by the set-based reference over the dispatched
  instructions, the FLR is the PC of the last load with a tainted source, and the
  classification of the next instruction agrees with the reference.
\<close>

theorem taint_is_dataflow:
  "let t' = fold taint_exec es (Taint_begin trigger t);
       (S, flr) = fold last_dependent (map fst es) (tracked_indices (di_destRegs trigger), 0) in
   taint_set t' = S \<and> tt_finalLoadPC t' = flr \<and>
   Taint_classify i t' = \<lparr>ob_tainted = depends S i, ob_dependentLoad = di_isLoad i \<and> depends S i\<rparr>"
  using exec_flow [of es "Taint_begin trigger t"]
  by (auto simp: begin_flow Taint_classify_def source_depends depends_def Let_def split: prod.splits)

text \<open>
  C24 (safety). Squash recovery: after a discovery's instructions were observed in sequence
  order, squashing at \<open>q\<close> gives the tracker that has seen only the instructions older than \<open>q\<close>:
  no wrong-path taint and no wrong-path FLR survives.
\<close>

theorem taint_squash_exact:
  assumes "sorted (map snd es)"
  shows "Taint_squash q (fold taint_exec es (Taint_begin trigger t)) =
    fold taint_exec (filter (\<lambda>e. snd e < q) es) (Taint_begin trigger t)"
  by (rule taint_log.squash_run [OF _ assms]) (simp add: taint_logged_def begin_flow)

definition demo_load :: "addr \<Rightarrow> nat \<Rightarrow> nat \<Rightarrow> dyn_inst" where
  "demo_load pc src dest = \<lparr>di_pc = pc, di_srcRegs = [\<lparr>ri_class = IntRegClass, ri_index = src\<rparr>],
     di_destRegs = [\<lparr>ri_class = IntRegClass, ri_index = dest\<rparr>], di_isLoad = True, di_isControl = False,
     di_isCondCtrl = False, di_isDirectCtrl = False, di_branchTarget = 0, di_branching = False,
     di_encoding = (0, 0)\<rparr>"

theorem taint_squash_exact_witness:
  "tt_finalLoadPC (Taint_squash 6 (fold taint_exec [(demo_load 20 5 6, 5), (demo_load 24 6 7, 6)]
     (Taint_begin (demo_load 16 10 5) Taint_initial))) = 20"
proof -
  have "tt_finalLoadPC (fold taint_exec [(demo_load 20 5 6, 5)] (Taint_begin (demo_load 16 10 5) Taint_initial)) = 20"
    by code_simp
  then show ?thesis
    using taint_squash_exact [of "[(demo_load 20 5 6, 5), (demo_load 24 6 7, 6)]" 6 "demo_load 16 10 5" Taint_initial]
    by simp
qed

end
