(* ===== verification/DVR_Uop.thy ===== *)
theory DVR_Uop
  imports DVR_Inst "HOL-Library.Signed_Division"
begin

unbundle bit_operations_syntax

text \<open>
  \<open>DVRInstructionRecorder::Uop\<close> (\<open>src/code/gem5-runahead-dev-pre/src/cpu/o3/pre.hh\<close> 246-342)
  and its two evaluation functions (\<open>pre.cc\<close> 826-997): the scalar operations a helper lane
  can replay. \<open>RegVal\<close> and \<open>int64_t\<close> are \<open>64 word\<close>; a narrowing cast is \<open>ucast\<close>, a widening
  cast of a signed value is \<open>scast\<close>, \<open>>>\<close> on a signed value is \<open>signed_drop_bit\<close>, and the C++
  remainder truncates toward zero (\<open>smod\<close>). The bool result with its reference parameter
  becomes an option.
\<close>

section \<open>Model\<close>

datatype semantic =
    Unsupported | Move | Add | Sub | And | Or | Xor
  | ShiftLeft | ShiftRightLogical | ShiftRightArithmetic
  | Multiply | MultiplyWord
  | Remainder | RemainderUnsigned | RemainderWord | RemainderUnsignedWord
  | AddWord | SubWord | AddImmediate | AddWordImmediate
  | ShiftLeftImmediate | ShiftLeftWordImmediate
  | AndImmediate | OrImmediate | XorImmediate
  | ShiftRightLogicalImmediate | ShiftRightArithmeticImmediate
  | ShiftRightLogicalWordImmediate | ShiftRightArithmeticWordImmediate
  | LoadAddress | LoadByteSigned | LoadByteUnsigned | LoadHalfSigned | LoadHalfUnsigned
  | LoadWordSigned | LoadWordUnsigned | LoadDouble
  | BranchEqual | BranchNotEqual | BranchSignedLess | BranchSignedGreaterEqual
  | BranchUnsignedLess | BranchUnsignedGreaterEqual

text \<open>
  \<open>staticInst\<close> is metadata that the helper never executes; what the helper reads of it is
  the encoding. Register numbers are \<open>int\<close> with \<open>- 1\<close> for none (\<open>int8_t\<close> in the code).
\<close>

record uop =
  up_pc :: addr
  up_branchTargetPC :: addr
  up_fallthroughPC :: addr
  up_reconvergencePC :: addr
  up_intSources :: u32
  up_intDestinations :: u32
  up_encoding :: u32
  up_immediate :: i64
  up_source0 :: int
  up_source1 :: int
  up_destination :: int
  up_semantic :: semantic
  up_loadBytes :: nat
  up_encodingValid :: bool
  up_load :: bool
  up_control :: bool
  up_conditional :: bool
  up_branchTaken :: bool
  up_tainted :: bool
  up_alternatePath :: bool
  up_alternateResumePC :: addr

definition empty_uop :: uop where
  "empty_uop = \<lparr>up_pc = 0, up_branchTargetPC = 0, up_fallthroughPC = 0, up_reconvergencePC = 0,
     up_intSources = 0, up_intDestinations = 0, up_encoding = 0, up_immediate = 0,
     up_source0 = - 1, up_source1 = - 1, up_destination = - 1, up_semantic = Unsupported,
     up_loadBytes = 0, up_encodingValid = False, up_load = False, up_control = False,
     up_conditional = False, up_branchTaken = False, up_tainted = False,
     up_alternatePath = False, up_alternateResumePC = 0\<rparr>"

text \<open>\<open>static_cast<RegVal>(static_cast<int64_t>(static_cast<int32_t>(w)))\<close>.\<close>

definition sext32 :: "u32 \<Rightarrow> reg_val" where
  "sext32 w = scast w"

definition low32 :: "u64 \<Rightarrow> u32" where
  "low32 w = ucast w"

text \<open>Shift amounts: \<open>source1_value & 0x3f\<close> and \<open>static_cast<unsigned>(immediate) & 0x3f\<close> or \<open>0x1f\<close>.\<close>

definition shamt_reg :: "reg_val \<Rightarrow> nat" where
  "shamt_reg v = unat (v AND 0x3f)"

definition shamt_imm6 :: "i64 \<Rightarrow> nat" where
  "shamt_imm6 imm = unat (low32 imm AND 0x3f)"

definition shamt_imm5 :: "i64 \<Rightarrow> nat" where
  "shamt_imm5 imm = unat (low32 imm AND 0x1f)"

definition int64_min :: i64 where
  "int64_min = word_of_int (- (2 ^ 63))"

definition int32_min :: u32 where
  "int32_min = word_of_int (- (2 ^ 31))"

fun Uop_compute :: "semantic \<Rightarrow> i64 \<Rightarrow> reg_val \<Rightarrow> reg_val \<Rightarrow> reg_val option" where
  "Uop_compute Move imm a b = Some a"
| "Uop_compute Add imm a b = Some (a + b)"
| "Uop_compute Sub imm a b = Some (a - b)"
| "Uop_compute And imm a b = Some (a AND b)"
| "Uop_compute Or imm a b = Some (a OR b)"
| "Uop_compute Xor imm a b = Some (a XOR b)"
| "Uop_compute ShiftLeft imm a b = Some (push_bit (shamt_reg b) a)"
| "Uop_compute ShiftRightLogical imm a b = Some (drop_bit (shamt_reg b) a)"
| "Uop_compute ShiftRightArithmetic imm a b = Some (signed_drop_bit (shamt_reg b) a)"
| "Uop_compute Multiply imm a b = Some (a * b)"
| "Uop_compute MultiplyWord imm a b = Some (sext32 (low32 a * low32 b))"
| "Uop_compute Remainder imm a b =
     Some (if b = 0 then a
           else if a = int64_min \<and> b = - 1 then 0
           else word_of_int (sint a smod sint b))"
| "Uop_compute RemainderUnsigned imm a b = Some (if b = 0 then a else a mod b)"
| "Uop_compute RemainderWord imm a b =
     (let lhs = low32 a; rhs = low32 b
      in Some (sext32 (if rhs = 0 then lhs
                       else if lhs = int32_min \<and> rhs = - 1 then 0
                       else word_of_int (sint lhs smod sint rhs))))"
| "Uop_compute RemainderUnsignedWord imm a b =
     (let lhs = low32 a; rhs = low32 b in Some (sext32 (if rhs = 0 then lhs else lhs mod rhs)))"
| "Uop_compute AddWord imm a b = Some (sext32 (low32 a + low32 b))"
| "Uop_compute SubWord imm a b = Some (sext32 (low32 a - low32 b))"
| "Uop_compute AddImmediate imm a b = Some (a + imm)"
| "Uop_compute LoadAddress imm a b = Some (a + imm)"
| "Uop_compute LoadByteSigned imm a b = Some (a + imm)"
| "Uop_compute LoadByteUnsigned imm a b = Some (a + imm)"
| "Uop_compute LoadHalfSigned imm a b = Some (a + imm)"
| "Uop_compute LoadHalfUnsigned imm a b = Some (a + imm)"
| "Uop_compute LoadWordSigned imm a b = Some (a + imm)"
| "Uop_compute LoadWordUnsigned imm a b = Some (a + imm)"
| "Uop_compute LoadDouble imm a b = Some (a + imm)"
| "Uop_compute AddWordImmediate imm a b = Some (sext32 (low32 a + low32 imm))"
| "Uop_compute ShiftLeftImmediate imm a b = Some (push_bit (shamt_imm6 imm) a)"
| "Uop_compute ShiftLeftWordImmediate imm a b = Some (sext32 (push_bit (shamt_imm5 imm) (low32 a)))"
| "Uop_compute AndImmediate imm a b = Some (a AND imm)"
| "Uop_compute OrImmediate imm a b = Some (a OR imm)"
| "Uop_compute XorImmediate imm a b = Some (a XOR imm)"
| "Uop_compute ShiftRightLogicalImmediate imm a b = Some (drop_bit (shamt_imm6 imm) a)"
| "Uop_compute ShiftRightArithmeticImmediate imm a b = Some (signed_drop_bit (shamt_imm6 imm) a)"
| "Uop_compute ShiftRightLogicalWordImmediate imm a b = Some (sext32 (drop_bit (shamt_imm5 imm) (low32 a)))"
| "Uop_compute ShiftRightArithmeticWordImmediate imm a b =
     Some (sext32 (signed_drop_bit (shamt_imm5 imm) (low32 a)))"
| "Uop_compute BranchEqual imm a b = None"
| "Uop_compute BranchNotEqual imm a b = None"
| "Uop_compute BranchSignedLess imm a b = None"
| "Uop_compute BranchSignedGreaterEqual imm a b = None"
| "Uop_compute BranchUnsignedLess imm a b = None"
| "Uop_compute BranchUnsignedGreaterEqual imm a b = None"
| "Uop_compute Unsupported imm a b = None"

definition Uop_evaluate :: "uop \<Rightarrow> reg_val \<Rightarrow> reg_val \<Rightarrow> reg_val option" where
  "Uop_evaluate u a b = Uop_compute (up_semantic u) (up_immediate u) a b"

definition Uop_evaluateBranch :: "uop \<Rightarrow> reg_val \<Rightarrow> reg_val \<Rightarrow> bool option" where
  "Uop_evaluateBranch u a b =
     (case up_semantic u of
        BranchEqual \<Rightarrow> Some (a = b)
      | BranchNotEqual \<Rightarrow> Some (a \<noteq> b)
      | BranchSignedLess \<Rightarrow> Some (sint a < sint b)
      | BranchSignedGreaterEqual \<Rightarrow> Some (sint a \<ge> sint b)
      | BranchUnsignedLess \<Rightarrow> Some (a < b)
      | BranchUnsignedGreaterEqual \<Rightarrow> Some (a \<ge> b)
      | _ \<Rightarrow> None)"

section \<open>Reference semantics on integers\<close>

text \<open>
  The RV64 operations in terms of the integer values of their operands: \<open>x\<close> and \<open>y\<close> are the
  signed values of 64-bit registers and \<open>i\<close> that of the immediate. \<open>wrap n\<close> is the signed value
  of the low \<open>n\<close> bits, so a word operation is computed on integers and wrapped once.
\<close>

definition wrap :: "nat \<Rightarrow> int \<Rightarrow> int" where
  "wrap n z = (z + 2 ^ (n - 1)) mod 2 ^ n - 2 ^ (n - 1)"

definition unsigned_value :: "nat \<Rightarrow> int \<Rightarrow> int" where
  "unsigned_value n z = z mod 2 ^ n"

definition rem_signed :: "nat \<Rightarrow> int \<Rightarrow> int \<Rightarrow> int" where
  "rem_signed n x y = (if y = 0 then x else wrap n (sgn x * (\<bar>x\<bar> mod \<bar>y\<bar>)))"

definition rem_unsigned :: "nat \<Rightarrow> int \<Rightarrow> int \<Rightarrow> int" where
  "rem_unsigned n x y =
     wrap n (if unsigned_value n y = 0 then x else unsigned_value n x mod unsigned_value n y)"

fun riscv :: "semantic \<Rightarrow> int \<Rightarrow> int \<Rightarrow> int \<Rightarrow> int option" where
  "riscv Move i x y = Some x"
| "riscv Add i x y = Some (wrap 64 (x + y))"
| "riscv Sub i x y = Some (wrap 64 (x - y))"
| "riscv And i x y = Some (x AND y)"
| "riscv Or i x y = Some (x OR y)"
| "riscv Xor i x y = Some (x XOR y)"
| "riscv ShiftLeft i x y = Some (wrap 64 (x * 2 ^ nat (y mod 64)))"
| "riscv ShiftRightLogical i x y = Some (wrap 64 (unsigned_value 64 x div 2 ^ nat (y mod 64)))"
| "riscv ShiftRightArithmetic i x y = Some (x div 2 ^ nat (y mod 64))"
| "riscv Multiply i x y = Some (wrap 64 (x * y))"
| "riscv MultiplyWord i x y = Some (wrap 32 (x * y))"
| "riscv Remainder i x y = Some (rem_signed 64 x y)"
| "riscv RemainderUnsigned i x y = Some (rem_unsigned 64 x y)"
| "riscv RemainderWord i x y = Some (rem_signed 32 (wrap 32 x) (wrap 32 y))"
| "riscv RemainderUnsignedWord i x y = Some (rem_unsigned 32 x y)"
| "riscv AddWord i x y = Some (wrap 32 (x + y))"
| "riscv SubWord i x y = Some (wrap 32 (x - y))"
| "riscv AddImmediate i x y = Some (wrap 64 (x + i))"
| "riscv AddWordImmediate i x y = Some (wrap 32 (x + i))"
| "riscv ShiftLeftImmediate i x y = Some (wrap 64 (x * 2 ^ nat (i mod 64)))"
| "riscv ShiftLeftWordImmediate i x y = Some (wrap 32 (x * 2 ^ nat (i mod 32)))"
| "riscv AndImmediate i x y = Some (x AND i)"
| "riscv OrImmediate i x y = Some (x OR i)"
| "riscv XorImmediate i x y = Some (x XOR i)"
| "riscv ShiftRightLogicalImmediate i x y = Some (wrap 64 (unsigned_value 64 x div 2 ^ nat (i mod 64)))"
| "riscv ShiftRightArithmeticImmediate i x y = Some (x div 2 ^ nat (i mod 64))"
| "riscv ShiftRightLogicalWordImmediate i x y = Some (wrap 32 (unsigned_value 32 x div 2 ^ nat (i mod 32)))"
| "riscv ShiftRightArithmeticWordImmediate i x y = Some (wrap 32 x div 2 ^ nat (i mod 32))"
| "riscv BranchEqual i x y = None"
| "riscv BranchNotEqual i x y = None"
| "riscv BranchSignedLess i x y = None"
| "riscv BranchSignedGreaterEqual i x y = None"
| "riscv BranchUnsignedLess i x y = None"
| "riscv BranchUnsignedGreaterEqual i x y = None"
| "riscv Unsupported i x y = None"
| "riscv _ i x y = Some (wrap 64 (x + i))"

text \<open>Values of words as wrapped integers.\<close>

lemma wrap_signed_take_bit: "0 < n \<Longrightarrow> wrap n z = signed_take_bit (n - 1) z"
  by (cases n) (simp_all add: wrap_def signed_take_bit_eq_take_bit_shift take_bit_eq_mod)

lemma sint_of_int: "sint (word_of_int z :: 'a::len word) = wrap LENGTH('a) z"
  by (simp add: wrap_signed_take_bit sint_sbintrunc')

lemma wrap_sint: "wrap LENGTH('a) (sint (w :: 'a::len word)) = sint w"
  by (subst sint_of_int [symmetric]) simp

lemma wrap_mod: "0 < n \<Longrightarrow> z mod 2 ^ n = z' mod 2 ^ n \<Longrightarrow> wrap n z = wrap n z'"
  unfolding wrap_def by (metis mod_add_left_eq)

lemma sint_word: "w = word_of_int (sint w)" for w :: "'a::len word"
  by simp

lemma sint_arith:
  fixes a b :: "'a::len word"
  shows "sint (a + b) = wrap LENGTH('a) (sint a + sint b)"
    and "sint (a - b) = wrap LENGTH('a) (sint a - sint b)"
    and "sint (a * b) = wrap LENGTH('a) (sint a * sint b)"
    and "sint (push_bit n a) = wrap LENGTH('a) (sint a * 2 ^ n)"
  by (simp_all flip: sint_of_int add: push_bit_eq_mult)

lemma sint_uint: "sint w = wrap LENGTH('a) (uint w)" for w :: "'a::len word"
  by (simp flip: sint_of_int)

lemma unsigned_sint: "unsigned_value LENGTH('a) (sint w) = uint w" for w :: "'a::len word"
  by (simp add: unsigned_value_def uint_sint flip: take_bit_eq_mod)

lemma low32_sint: "low32 a = word_of_int (sint a)"
  unfolding low32_def by (rule bit_word_eqI) (simp add: bit_simps)

lemma sint_sext32: "sint (sext32 w) = sint w"
  by (simp add: sext32_def sint_up_scast is_up)

lemma sint_low32: "sint (low32 a) = wrap 32 (sint a)"
  unfolding low32_sint sint_of_int by simp

lemma uint_low32: "uint (low32 a) = unsigned_value 32 (sint a)"
  unfolding low32_sint unsigned_value_def uint_word_of_int_eq take_bit_eq_mod by simp

lemma wrap_wrap:
  assumes "0 < n"
  shows "wrap n (wrap n x + y) = wrap n (x + y)" "wrap n (x + wrap n y) = wrap n (x + y)"
    "wrap n (wrap n x - y) = wrap n (x - y)" "wrap n (x - wrap n y) = wrap n (x - y)"
    "wrap n (wrap n x * y) = wrap n (x * y)" "wrap n (x * wrap n y) = wrap n (x * y)"
proof -
  have m: "wrap n z mod 2 ^ n = z mod 2 ^ n" for z
    unfolding wrap_def by (simp add: mod_diff_left_eq)
  show "wrap n (wrap n x + y) = wrap n (x + y)" by (rule wrap_mod [OF assms]) (metis m mod_add_left_eq)
  show "wrap n (x + wrap n y) = wrap n (x + y)" by (rule wrap_mod [OF assms]) (metis m mod_add_right_eq)
  show "wrap n (wrap n x - y) = wrap n (x - y)" by (rule wrap_mod [OF assms]) (metis m mod_diff_left_eq)
  show "wrap n (x - wrap n y) = wrap n (x - y)" by (rule wrap_mod [OF assms]) (metis m mod_diff_right_eq)
  show "wrap n (wrap n x * y) = wrap n (x * y)" by (rule wrap_mod [OF assms]) (metis m mod_mult_left_eq)
  show "wrap n (x * wrap n y) = wrap n (x * y)" by (rule wrap_mod [OF assms]) (metis m mod_mult_right_eq)
qed

lemma mod_pow_sint: "k \<le> LENGTH('a) \<Longrightarrow> sint w mod 2 ^ k = uint w mod 2 ^ k" for w :: "'a::len word"
  by (simp add: uint_sint take_bit_take_bit min_absorb1 flip: take_bit_eq_mod)

lemma uint_take_bit: "uint (take_bit k w) = uint w mod 2 ^ k" for w :: "'a::len word"
  by (rule trans [OF unsigned_take_bit_eq take_bit_eq_mod])

lemma shamt_reg_sint: "shamt_reg b = nat (sint b mod 64)"
proof -
  have m: "b AND 0x3f = take_bit 6 b" by (simp add: take_bit_eq_mask mask_numeral)
  have "sint b mod 2 ^ 6 = uint b mod 2 ^ 6" by (rule mod_pow_sint) simp
  then show ?thesis unfolding shamt_reg_def m unat_eq_nat_uint uint_take_bit by simp
qed

lemma shamt_imm_sint: "shamt_imm6 i = nat (sint i mod 64)" "shamt_imm5 i = nat (sint i mod 32)"
proof -
  have low: "uint (low32 i) mod 2 ^ k = sint i mod 2 ^ k" if "k \<le> 32" for k
    unfolding uint_low32 unsigned_value_def using that
    by (metis mod_mod_cancel le_imp_power_dvd)
  have m: "low32 i AND 0x3f = take_bit 6 (low32 i)" "low32 i AND 0x1f = take_bit 5 (low32 i)"
    by (simp_all add: take_bit_eq_mask mask_numeral)
  show "shamt_imm6 i = nat (sint i mod 64)"
    unfolding shamt_imm6_def m unat_eq_nat_uint uint_take_bit using low [of 6] by simp
  show "shamt_imm5 i = nat (sint i mod 32)"
    unfolding shamt_imm5_def m unat_eq_nat_uint uint_take_bit using low [of 5] by simp
qed

lemma sint_drop_bit: "sint (drop_bit k w) = wrap LENGTH('a) (uint w div 2 ^ k)" for w :: "'a::len word"
proof -
  have "uint (drop_bit k w) = drop_bit k (take_bit LENGTH('a) (uint w))" by (rule unsigned_drop_bit_eq)
  also have "\<dots> = drop_bit k (uint w)" by (simp only: bintr_uint order_refl)
  also have "\<dots> = uint w div 2 ^ k" by (rule drop_bit_eq_div)
  finally show ?thesis by (subst sint_uint) (simp only:)
qed

lemma sint_signed_drop: "sint (signed_drop_bit k w) = sint w div 2 ^ k" for w :: "'a::len word"
  by (simp add: sint_signed_drop_bit_eq drop_bit_eq_div)

lemma sint_rem:
  fixes a b :: "'a::len word"
  shows "sint (if b = 0 then a else if a = word_of_int (- (2 ^ (LENGTH('a) - 1))) \<and> b = - 1 then 0
    else word_of_int (sint a smod sint b)) = rem_signed LENGTH('a) (sint a) (sint b)"
  (is "sint ?r = _")
proof (cases "b = 0 \<or> b = - 1")
  case True
  then show ?thesis
  proof
    assume "b = 0"
    then show ?thesis by (simp add: rem_signed_def)
  next
    assume "b = - 1"
    then have "sint b = - 1 \<or> b = 0" by (simp add: sint_n1)
    moreover have "b \<noteq> 0" using \<open>b = - 1\<close> by simp
    ultimately have "sint b = - 1" by simp
    with \<open>b = - 1\<close> show ?thesis
      by (simp add: rem_signed_def signed_modulo_int_def sint_of_int wrap_def)
  qed
next
  case False
  then have "sint b \<noteq> 0" by (simp add: signed_eq_0_iff)
  moreover from False have "b \<noteq> 0" "b \<noteq> - 1" by simp_all
  ultimately show ?thesis
    by (simp only: if_False simp_thms rem_signed_def signed_modulo_int_def sint_of_int)
qed

lemma sint_remu:
  fixes a b :: "'a::len word"
  shows "sint (if b = 0 then a else a mod b) = rem_unsigned LENGTH('a) (sint a) (sint b)"
proof (cases "b = 0")
  case True
  then show ?thesis by (simp add: rem_unsigned_def unsigned_value_def wrap_sint)
next
  case False
  then have "uint b \<noteq> 0" by (simp add: uint_0_iff)
  with False show ?thesis
    by (simp add: rem_unsigned_def unsigned_sint) (subst sint_uint, simp add: uint_mod)
qed

section \<open>Properties\<close>

lemmas sint_ops =
  sint_arith sint_sext32 sint_low32 wrap_wrap signed_and_eq signed_or_eq signed_xor_eq
  shamt_reg_sint shamt_imm_sint sint_drop_bit sint_signed_drop

lemma compute_simple:
  assumes "s \<notin> {Remainder, RemainderUnsigned, RemainderWord, RemainderUnsignedWord}"
  shows "map_option sint (Uop_compute s imm a b) = riscv s (sint imm) (sint a) (sint b)"
  using assms
  by (cases s) (simp_all add: sint_ops uint_low32 unsigned_sint [where 'a = 64, simplified, symmetric])

lemma compute_rem:
  assumes "s \<in> {Remainder, RemainderUnsigned, RemainderWord, RemainderUnsignedWord}"
  shows "map_option sint (Uop_compute s imm a b) = riscv s (sint imm) (sint a) (sint b)"
proof -
  have len: "LENGTH(64) = 64" "LENGTH(32) = 32" by simp_all
  have "int64_min = word_of_int (- (2 ^ (LENGTH(64) - 1)))" "int32_min = word_of_int (- (2 ^ (LENGTH(32) - 1)))"
    by (simp_all add: int64_min_def int32_min_def)
  note r = sint_rem [where 'a = 64, folded this, unfolded len] sint_rem [where 'a = 32, folded this, unfolded len]
  note u = sint_remu [where 'a = 64, unfolded len] sint_remu [where 'a = 32, unfolded len]
  note r32 = r(2) [where a = "low32 a" and b = "low32 b", unfolded sint_low32]
  have u32: "rem_unsigned 32 (wrap 32 x) (wrap 32 y) = rem_unsigned 32 x y" for x y
    by (simp add: rem_unsigned_def unsigned_value_def wrap_def mod_diff_left_eq)
  show ?thesis using assms
    by (elim insertE emptyE)
      (simp_all only: Uop_compute.simps riscv.simps option.map Let_def sint_sext32 r(1) r32 u sint_low32 u32)
qed

text \<open>
  C25 (refinement). Every operation a helper lane can replay computes the RV64 value: for every
  semantic, immediate and operands, the signed value of the result of \<open>evaluate\<close> is that of
  the integer reference, and \<open>evaluate\<close> refuses exactly where the reference has no value.
\<close>

theorem evaluate_is_riscv:
  "map_option sint (Uop_evaluate u a b) = riscv (up_semantic u) (sint (up_immediate u)) (sint a) (sint b)"
  unfolding Uop_evaluate_def using compute_simple compute_rem by blast

text \<open>The branch decisions in terms of the signed values of the operands.\<close>

fun riscv_branch :: "semantic \<Rightarrow> int \<Rightarrow> int \<Rightarrow> bool option" where
  "riscv_branch BranchEqual x y = Some (x = y)"
| "riscv_branch BranchNotEqual x y = Some (x \<noteq> y)"
| "riscv_branch BranchSignedLess x y = Some (x < y)"
| "riscv_branch BranchSignedGreaterEqual x y = Some (x \<ge> y)"
| "riscv_branch BranchUnsignedLess x y = Some (unsigned_value 64 x < unsigned_value 64 y)"
| "riscv_branch BranchUnsignedGreaterEqual x y = Some (unsigned_value 64 x \<ge> unsigned_value 64 y)"
| "riscv_branch s x y = None"

lemma branch_is_riscv: "Uop_evaluateBranch u a b = riscv_branch (up_semantic u) (sint a) (sint b)"
proof -
  have "unsigned_value 64 (sint w) = uint w" for w :: "64 word" using unsigned_sint [of w] by simp
  moreover have sint_eq: "a = b \<longleftrightarrow> sint a = sint b" by (auto intro: signed_word_eqI)
  ultimately show ?thesis
    by (cases "up_semantic u") (simp_all add: Uop_evaluateBranch_def word_less_alt word_le_def sint_eq)
qed

text \<open>
  The decision of \<open>evaluateBranch\<close> is the RV64 comparison on the integer
  values of the operands, and a recorded operation is evaluated, a branch, or unsupported:
  \<open>evaluate\<close> refuses it exactly if it is one of the last two.
\<close>

theorem evaluate_or_branch:
  "Uop_evaluateBranch u a b = riscv_branch (up_semantic u) (sint a) (sint b) \<and>
   (Uop_evaluate u a b = None) =
     (up_semantic u = Unsupported \<or> (\<exists>t. Uop_evaluateBranch u a b = Some t))"
proof -
  have "(Uop_evaluate u a b = None) =
     (up_semantic u = Unsupported \<or> (\<exists>t. Uop_evaluateBranch u a b = Some t))"
    by (cases "up_semantic u") (simp_all add: Uop_evaluate_def Uop_evaluateBranch_def Let_def)
  then show ?thesis using branch_is_riscv by blast
qed

end
