(* ===== verification/DVR_Decode.thy ===== *)
theory DVR_Decode
  imports DVR_Uop
begin

unbundle bit_operations_syntax

text \<open>
  The decoder of helper operations (\<open>dvrIntRegisterMask\<close>, \<open>dvrFirstIntRegister\<close>,
  \<open>dvrSignExtend\<close> and \<open>dvrDecodeRiscvSemantic\<close>,
  \<open>src/code/gem5-runahead-dev-pre/src/cpu/o3/pre.cc\<close> 395-822): it recovers the operation and
  the immediate of an instruction from its encoding. The reference is the decode tree of the
  simulator's own ISA description, \<open>src/code/gem5-runahead-dev-pre/src/arch/riscv/isa/decoder.isa\<close>,
  whose immediates are bit fields \<open>X<hi:lo>\<close> of the encoding.

  Encodings and their fields are \<open>32 word\<close>; a shift right is \<open>drop_bit\<close> and a shift left
  \<open>push_bit\<close>.
\<close>

section \<open>Model\<close>

definition dvrIntRegisterMask :: "dyn_inst \<Rightarrow> bool \<Rightarrow> u32" where
  "dvrIntRegisterMask inst sources =
     fold (\<lambda>r mask. if int_operand r then mask OR reg_bit (ri_index r) else mask) (operand_regs sources inst) 0"

definition dvrFirstIntRegister :: "dyn_inst \<Rightarrow> bool \<Rightarrow> nat \<Rightarrow> int" where
  "dvrFirstIntRegister inst sources ordinal =
     (let ints = filter int_operand (operand_regs sources inst)
      in if ordinal < length ints then int (ri_index (ints ! ordinal)) else - 1)"

definition dvrSignExtend :: "u64 \<Rightarrow> nat \<Rightarrow> i64" where
  "dvrSignExtend value width =
     (let sgn_bit = push_bit (width - 1) 1 in (value XOR sgn_bit) - sgn_bit)"

text \<open>The immediates of the compressed forms, as the code assembles them.\<close>

definition imm_ci :: "u32 \<Rightarrow> u32" where
  "imm_ci c = push_bit 5 (drop_bit 12 c AND 0x1) OR (drop_bit 2 c AND 0x1f)"

definition imm_addi4spn :: "u32 \<Rightarrow> u32" where
  "imm_addi4spn c = push_bit 4 (drop_bit 11 c AND 0x3) OR push_bit 6 (drop_bit 7 c AND 0xf) OR
     push_bit 2 (drop_bit 6 c AND 0x1) OR push_bit 3 (drop_bit 5 c AND 0x1)"

definition imm_addi16sp :: "u32 \<Rightarrow> u32" where
  "imm_addi16sp c = push_bit 9 (drop_bit 12 c AND 0x1) OR push_bit 4 (drop_bit 6 c AND 0x1) OR
     push_bit 6 (drop_bit 5 c AND 0x1) OR push_bit 7 (drop_bit 3 c AND 0x3) OR
     push_bit 5 (drop_bit 2 c AND 0x1)"

definition imm_ld :: "u32 \<Rightarrow> u32" where
  "imm_ld c = push_bit 3 (drop_bit 10 c AND 0x7) OR push_bit 6 (drop_bit 5 c AND 0x3)"

definition imm_lw :: "u32 \<Rightarrow> u32" where
  "imm_lw c = push_bit 3 (drop_bit 10 c AND 0x7) OR push_bit 2 (drop_bit 6 c AND 0x1)"

definition imm_sp :: "u32 \<Rightarrow> u32" where
  "imm_sp c = push_bit 5 (drop_bit 12 c AND 0x1) OR push_bit 2 (drop_bit 4 c AND 0x7) OR
     push_bit 6 (drop_bit 2 c AND 0x3)"

definition set_sem :: "semantic \<Rightarrow> uop \<Rightarrow> uop" where
  "set_sem s u = u\<lparr>up_semantic := s\<rparr>"

definition set_imm :: "semantic \<Rightarrow> i64 \<Rightarrow> uop \<Rightarrow> uop" where
  "set_imm s i u = u\<lparr>up_semantic := s, up_immediate := i\<rparr>"

text \<open>The 16-bit forms (lines 458-665); \<open>c\<close> is the low half of the encoding.\<close>

definition decode_compressed :: "u32 \<Rightarrow> uop \<Rightarrow> uop" where
  "decode_compressed c u =
     (let quadrant = c AND 0x3; funct3 = drop_bit 13 c AND 0x7;
          rd = drop_bit 7 c AND 0x1f; rs2 = drop_bit 2 c AND 0x1f;
          ci = dvrSignExtend (ucast (imm_ci c)) 6
      in if quadrant = 1 \<and> funct3 = 2 \<and> rd \<noteq> 0
         then (set_imm AddImmediate ci u)\<lparr>up_source0 := 0\<rparr>
         else if quadrant = 1 \<and> funct3 = 0 \<and> rd \<noteq> 0 then set_imm AddImmediate ci u
         else if quadrant = 1 \<and> funct3 = 1 \<and> rd \<noteq> 0 then set_imm AddWordImmediate ci u
         else if quadrant = 0 \<and> funct3 = 0 \<and> rs2 \<noteq> 0
         then (set_imm AddImmediate (ucast (imm_addi4spn c)) u)\<lparr>up_source0 := 2\<rparr>
         else if quadrant = 1 \<and> funct3 = 3 \<and> rd = 2
         then (set_imm AddImmediate (dvrSignExtend (ucast (imm_addi16sp c)) 10) u)\<lparr>up_source0 := 2\<rparr>
         else if quadrant = 1 \<and> funct3 = 3 \<and> rd \<noteq> 0 \<and> rd \<noteq> 2
         then (set_imm AddImmediate (push_bit 12 ci) u)\<lparr>up_source0 := 0\<rparr>
         else if quadrant = 0 \<and> funct3 = 3
         then (set_imm LoadDouble (ucast (imm_ld c)) u)\<lparr>up_loadBytes := 8\<rparr>
         else if quadrant = 0 \<and> funct3 = 2
         then (set_imm LoadWordSigned (ucast (imm_lw c)) u)\<lparr>up_loadBytes := 4\<rparr>
         else if quadrant = 2 \<and> (funct3 = 2 \<or> funct3 = 3) \<and> rd \<noteq> 0
         then (set_imm (if funct3 = 2 then LoadWordSigned else LoadDouble) (ucast (imm_sp c)) u)
                \<lparr>up_loadBytes := (if funct3 = 2 then 4 else 8), up_source0 := 2\<rparr>
         else if quadrant = 1 \<and> funct3 = 4 then
           (let wide = drop_bit 12 c AND 0x1 \<noteq> 0; op_select = drop_bit 10 c AND 0x3;
                low = drop_bit 5 c AND 0x3
            in if op_select = 0 then set_imm ShiftRightLogicalImmediate (ucast (imm_ci c)) u
               else if op_select = 1 then set_imm ShiftRightArithmeticImmediate (ucast (imm_ci c)) u
               else if op_select = 2 then set_imm AndImmediate ci u
               else if \<not> wide \<and> op_select = 3 then
                 (if low = 0 then set_sem Sub u else if low = 1 then set_sem Xor u
                  else if low = 2 then set_sem Or u else set_sem And u)
               else if wide \<and> op_select = 3 then
                 (if low = 0 then set_sem SubWord u else if low = 1 then set_sem AddWord u else u)
               else u)
         else if quadrant = 2 \<and> funct3 = 0 \<and> rd \<noteq> 0
         then set_imm ShiftLeftImmediate (ucast (imm_ci c)) u
         else if quadrant = 2 \<and> funct3 = 4 \<and> drop_bit 12 c AND 1 = 0 \<and> rd \<noteq> 0 \<and> rs2 = 0 then u
         else if quadrant = 2 \<and> funct3 = 4 \<and> drop_bit 12 c AND 1 = 0 \<and> rd \<noteq> 0 \<and> rs2 \<noteq> 0
         then set_sem Move u
         else if quadrant = 2 \<and> funct3 = 4 \<and> drop_bit 12 c AND 1 \<noteq> 0 \<and> rd \<noteq> 0 \<and> rs2 \<noteq> 0
         then set_sem Add u
         else if quadrant = 1 \<and> (funct3 = 6 \<or> funct3 = 7)
         then set_sem (if funct3 = 6 then BranchEqual else BranchNotEqual) u
         else if quadrant = 1 \<and> funct3 = 5
         then (set_imm AddImmediate 0 u)\<lparr>up_source0 := 0\<rparr>
         else u)"

text \<open>The 32-bit forms (lines 667-821), by major opcode.\<close>

definition decode_op :: "u32 \<Rightarrow> u32 \<Rightarrow> uop \<Rightarrow> uop" where
  "decode_op funct3 funct7 u =
     (if funct3 = 0 \<and> funct7 = 0 then set_sem Add u
      else if funct3 = 0 \<and> funct7 = 0x20 then set_sem Sub u
      else if funct3 = 7 \<and> funct7 = 0 then set_sem And u
      else if funct3 = 6 \<and> funct7 = 0 then set_sem Or u
      else if funct3 = 4 \<and> funct7 = 0 then set_sem Xor u
      else if funct3 = 1 \<and> funct7 = 0 then set_sem ShiftLeft u
      else if funct3 = 5 \<and> funct7 = 0 then set_sem ShiftRightLogical u
      else if funct3 = 5 \<and> funct7 = 0x20 then set_sem ShiftRightArithmetic u
      else if funct3 = 0 \<and> funct7 = 1 then set_sem Multiply u
      else if funct3 = 6 \<and> funct7 = 1 then set_sem Remainder u
      else if funct3 = 7 \<and> funct7 = 1 then set_sem RemainderUnsigned u
      else u)"

definition decode_op32 :: "u32 \<Rightarrow> u32 \<Rightarrow> uop \<Rightarrow> uop" where
  "decode_op32 funct3 funct7 u =
     (if funct3 = 0 \<and> funct7 = 0 then set_sem AddWord u
      else if funct3 = 0 \<and> funct7 = 0x20 then set_sem SubWord u
      else if funct3 = 0 \<and> funct7 = 1 then set_sem MultiplyWord u
      else if funct3 = 6 \<and> funct7 = 1 then set_sem RemainderWord u
      else if funct3 = 7 \<and> funct7 = 1 then set_sem RemainderUnsignedWord u
      else u)"

definition imm_i :: "u32 \<Rightarrow> i64" where
  "imm_i e = dvrSignExtend (ucast (drop_bit 20 e)) 12"

definition decode_op_imm :: "u32 \<Rightarrow> u32 \<Rightarrow> uop \<Rightarrow> uop" where
  "decode_op_imm e funct3 u =
     (let shamt = ucast (drop_bit 20 e AND 0x3f) in
      if funct3 = 0 then set_imm AddImmediate (imm_i e) u
      else if funct3 = 1 \<and> drop_bit 26 e = 0 then set_imm ShiftLeftImmediate shamt u
      else if funct3 = 7 then set_imm AndImmediate (imm_i e) u
      else if funct3 = 6 then set_imm OrImmediate (imm_i e) u
      else if funct3 = 4 then set_imm XorImmediate (imm_i e) u
      else if funct3 = 5 \<and> drop_bit 26 e = 0 then set_imm ShiftRightLogicalImmediate shamt u
      else if funct3 = 5 \<and> drop_bit 26 e = 0x10 then set_imm ShiftRightArithmeticImmediate shamt u
      else u)"

definition decode_op_imm32 :: "u32 \<Rightarrow> u32 \<Rightarrow> uop \<Rightarrow> uop" where
  "decode_op_imm32 e funct3 u =
     (let shamt = ucast (drop_bit 20 e AND 0x1f) in
      if funct3 = 0 then set_imm AddWordImmediate (imm_i e) u
      else if funct3 = 1 \<and> drop_bit 25 e = 0 then set_imm ShiftLeftWordImmediate shamt u
      else if funct3 = 5 \<and> drop_bit 25 e = 0 then set_imm ShiftRightLogicalWordImmediate shamt u
      else if funct3 = 5 \<and> drop_bit 25 e = 0x20 then set_imm ShiftRightArithmeticWordImmediate shamt u
      else u)"

definition decode_load :: "u32 \<Rightarrow> u32 \<Rightarrow> uop \<Rightarrow> uop" where
  "decode_load e funct3 u =
     (if funct3 = 0 then (set_imm LoadByteSigned (imm_i e) u)\<lparr>up_loadBytes := 1\<rparr>
      else if funct3 = 1 then (set_imm LoadHalfSigned (imm_i e) u)\<lparr>up_loadBytes := 2\<rparr>
      else if funct3 = 2 then (set_imm LoadWordSigned (imm_i e) u)\<lparr>up_loadBytes := 4\<rparr>
      else if funct3 = 3 then (set_imm LoadDouble (imm_i e) u)\<lparr>up_loadBytes := 8\<rparr>
      else if funct3 = 4 then (set_imm LoadByteUnsigned (imm_i e) u)\<lparr>up_loadBytes := 1\<rparr>
      else if funct3 = 5 then (set_imm LoadHalfUnsigned (imm_i e) u)\<lparr>up_loadBytes := 2\<rparr>
      else set_sem Unsupported u)"

definition decode_branch :: "u32 \<Rightarrow> uop \<Rightarrow> uop" where
  "decode_branch funct3 u =
     (if funct3 = 0 then set_sem BranchEqual u
      else if funct3 = 1 then set_sem BranchNotEqual u
      else if funct3 = 4 then set_sem BranchSignedLess u
      else if funct3 = 5 then set_sem BranchSignedGreaterEqual u
      else if funct3 = 6 then set_sem BranchUnsignedLess u
      else if funct3 = 7 then set_sem BranchUnsignedGreaterEqual u
      else u)"

definition decode_full :: "u32 \<Rightarrow> uop \<Rightarrow> uop" where
  "decode_full e u =
     (let opcode = e AND 0x7f; funct3 = drop_bit 12 e AND 0x7; funct7 = drop_bit 25 e AND 0x7f;
          upper = dvrSignExtend (ucast (e AND 0xfffff000)) 32
      in if opcode = 0x37 then (set_imm AddImmediate upper u)\<lparr>up_source0 := 0\<rparr>
         else if opcode = 0x17 then (set_imm AddImmediate (up_pc u + upper) u)\<lparr>up_source0 := 0\<rparr>
         else if opcode = 0x6f then (set_imm AddImmediate (up_pc u + 4) u)\<lparr>up_source0 := 0\<rparr>
         else if opcode = 0x33 then decode_op funct3 funct7 u
         else if opcode = 0x3b then decode_op32 funct3 funct7 u
         else if opcode = 0x13 then decode_op_imm e funct3 u
         else if opcode = 0x1b then decode_op_imm32 e funct3 u
         else if opcode = 0x03 then decode_load e funct3 u
         else if opcode = 0x63 then decode_branch funct3 u
         else u)"

definition dvrDecodeRiscvSemantic :: "dyn_inst \<Rightarrow> uop \<Rightarrow> uop" where
  "dvrDecodeRiscvSemantic inst u =
     (let (encoded_size, encoded) = di_encoding inst
      in if encoded_size = 0 \<or> encoded_size > 8 then u
         else
           (let e = low32 encoded; u1 = u\<lparr>up_encoding := e, up_encodingValid := True\<rparr>
            in if e AND 0x3 \<noteq> 0x3 then decode_compressed (e AND 0xffff) u1 else decode_full e u1))"

section \<open>Reference: the ISA description\<close>

definition fld :: "nat \<Rightarrow> nat \<Rightarrow> u32 \<Rightarrow> u32" where
  "fld hi lo w = take_bit (hi + 1 - lo) (drop_bit lo w)"

text \<open>The immediates of \<open>decoder.isa\<close>, with \<open>CIMM1 = <12>\<close>, \<open>CIMM2 = <6:5>\<close>, \<open>CIMM3 = <12:10>\<close>,
  \<open>CIMM5 = <6:2>\<close> and \<open>CIMM8 = <12:5>\<close> as in \<open>bitfields.isa\<close>.\<close>

definition isa_ci :: "u32 \<Rightarrow> i64" where
  "isa_ci c = (let imm = ucast (fld 6 2 c) in if fld 12 12 c > 0 then imm OR NOT 0x1f else imm)"

definition isa_lui :: "u32 \<Rightarrow> i64" where
  "isa_lui c = (let imm = push_bit 12 (ucast (fld 6 2 c)) in if fld 12 12 c > 0 then imm OR NOT 0x1ffff else imm)"

definition isa_addi16sp :: "u32 \<Rightarrow> i64" where
  "isa_addi16sp c =
     (let m = fld 6 2 c;
          imm = ucast (push_bit 4 (fld 4 4 m) OR push_bit 5 (fld 0 0 m) OR push_bit 6 (fld 3 3 m) OR
                  push_bit 7 (fld 2 1 m))
      in if fld 12 12 c > 0 then imm OR NOT 0x1ff else imm)"

definition isa_addi4spn :: "u32 \<Rightarrow> i64" where
  "isa_addi4spn c =
     (let m = fld 12 5 c
      in ucast (push_bit 2 (fld 1 1 m) OR push_bit 3 (fld 0 0 m) OR push_bit 4 (fld 7 6 m) OR
           push_bit 6 (fld 5 2 m)))"

definition isa_shamt :: "u32 \<Rightarrow> i64" where
  "isa_shamt c = ucast (fld 6 2 c OR push_bit 5 (fld 12 12 c))"

definition isa_ld :: "u32 \<Rightarrow> i64" where
  "isa_ld c = ucast (push_bit 3 (fld 12 10 c) OR push_bit 6 (fld 6 5 c))"

definition isa_lw :: "u32 \<Rightarrow> i64" where
  "isa_lw c = (let m = fld 6 5 c
     in ucast (push_bit 2 (fld 1 1 m) OR push_bit 3 (fld 12 10 c) OR push_bit 6 (fld 0 0 m)))"

definition isa_lwsp :: "u32 \<Rightarrow> i64" where
  "isa_lwsp c = (let m = fld 6 2 c
     in ucast (push_bit 2 (fld 4 2 m) OR push_bit 5 (fld 12 12 c) OR push_bit 6 (fld 1 0 m)))"

definition isa_ldsp :: "u32 \<Rightarrow> i64" where
  "isa_ldsp c = (let m = fld 6 2 c
     in ucast (push_bit 3 (fld 4 3 m) OR push_bit 5 (fld 12 12 c) OR push_bit 6 (fld 2 0 m)))"

section \<open>Sign extension and immediates\<close>

lemma and_masks:
  fixes w :: u32
  shows "w AND 0x1 = take_bit 1 w" "w AND 0x3 = take_bit 2 w" "w AND 0x7 = take_bit 3 w"
    "w AND 0xf = take_bit 4 w" "w AND 0x1f = take_bit 5 w" "w AND 0x3f = take_bit 6 w"
    "w AND 0x7f = take_bit 7 w" "w AND 0xffff = take_bit 16 w"
  by (simp_all add: take_bit_eq_mask mask_numeral)

lemma signExtend_signed_take_bit:
  assumes "0 < n" "n \<le> 64" "take_bit n v = v"
  shows "dvrSignExtend v n = signed_take_bit (n - 1) v"
proof -
  define t :: u64 where "t = push_bit (n - 1) 1"
  have se: "dvrSignExtend v n = (v XOR t) - t" unfolding dvrSignExtend_def Let_def t_def ..
  have sbit: "bit t k \<longleftrightarrow> k = n - 1" for k using assms(1,2) unfolding t_def bit_one_shifted by auto
  have low: "bit v k \<Longrightarrow> k < n" for k using assms(3) by (metis bit_take_bit_iff)
  show ?thesis
  proof (cases "bit v (n - 1)")
    case False
    have "v XOR t = v OR t"
      by (rule bit_eqI) (use False in \<open>auto simp: bit_simps sbit\<close>)
    also have "\<dots> = v + t"
      by (rule disjunctive_add [symmetric]) (use False in \<open>auto simp: sbit\<close>)
    finally have "dvrSignExtend v n = v" by (simp add: se)
    moreover have "signed_take_bit (n - 1) v = v"
    proof (rule bit_eqI)
      fix k
      have "bit v k \<Longrightarrow> k \<le> n - 1" using low by fastforce
      then show "bit (signed_take_bit (n - 1) v) k = bit v k"
        using False by (cases "k = n - 1") (auto simp: bit_simps min_def dest: bit_imp_le_length)
    qed
    ultimately show ?thesis by simp
  next
    case True
    have "v = (v XOR t) OR t" by (rule bit_eqI) (use True in \<open>auto simp: bit_simps sbit\<close>)
    also have "\<dots> = (v XOR t) + t"
      by (rule disjunctive_add [symmetric]) (use True in \<open>auto simp: bit_simps sbit\<close>)
    finally have x: "v XOR t = v - t" by (simp add: eq_diff_eq)
    have "signed_take_bit (n - 1) v = v OR NOT (mask n)"
    proof (rule bit_eqI)
      fix k
      have "bit v k \<Longrightarrow> k \<le> n - 1" using low by fastforce
      then show "bit (signed_take_bit (n - 1) v) k = bit (v OR NOT (mask n)) k"
        using True assms(1) by (cases "k = n - 1") (auto simp: bit_simps min_def dest: bit_imp_le_length)
    qed
    also have "\<dots> = v + NOT (mask n)"
      by (rule disjunctive_add [symmetric]) (auto simp: bit_simps dest: low)
    also have "\<dots> = v - t - t"
      using assms(1) by (cases n) (simp_all add: not_eq_complement mask_eq_exp_minus_1 push_bit_of_1 t_def)
    finally show ?thesis using x by (simp add: se)
  qed
qed

lemma even_drop_bit: "even (drop_bit k w) \<longleftrightarrow> \<not> bit w k" for w :: "'a::len word"
  by (simp add: bit_iff_odd_drop_bit)

lemmas field_simps_bits = bit_simps fld_def and_masks Let_def even_drop_bit

text \<open>Immediates of at most ten bits are equal if these bits are.\<close>

lemma low_bits_eqI:
  fixes w v :: u64
  assumes "take_bit 10 w = w" "take_bit 10 v = v"
    and "bit w 0 = bit v 0" "bit w 1 = bit v 1" "bit w 2 = bit v 2" "bit w 3 = bit v 3" "bit w 4 = bit v 4"
    "bit w 5 = bit v 5" "bit w 6 = bit v 6" "bit w 7 = bit v 7" "bit w 8 = bit v 8" "bit w 9 = bit v 9"
  shows "w = v"
proof (rule bit_eqI)
  fix k :: nat
  consider "k < 10" | "10 \<le> k" by linarith
  then show "bit w k = bit v k"
  proof cases
    case 1
    then have "k \<in> {0, 1, 2, 3, 4, 5, 6, 7, 8, 9}" by auto
    with assms(3-) show ?thesis by (elim insertE emptyE) simp_all
  next
    case 2
    with assms(1,2) show ?thesis by (metis bit_take_bit_iff not_le)
  qed
qed

lemmas imm_defs =
  imm_ci_def imm_addi4spn_def imm_addi16sp_def imm_ld_def imm_lw_def imm_sp_def
  isa_shamt_def isa_addi4spn_def isa_ld_def isa_lw_def isa_lwsp_def isa_ldsp_def

lemma ten_bits:
  "take_bit 10 (ucast (imm_sp c)) = (ucast (imm_sp c) :: u64)"
  "take_bit 10 (ucast (imm_lw c)) = (ucast (imm_lw c) :: u64)"
  "take_bit 10 (isa_lwsp c) = isa_lwsp c" "take_bit 10 (isa_ldsp c) = isa_ldsp c" "take_bit 10 (isa_lw c) = isa_lw c"
  by (rule bit_eqI, auto simp: field_simps_bits imm_defs)+

lemma imm_bits:
  "ucast (imm_ci c) = isa_shamt c"
  "ucast (imm_ld c) = isa_ld c"
  by (rule bit_eqI, auto simp: field_simps_bits imm_defs)+

lemma imm_addi4spn_bits: "ucast (imm_addi4spn c) = isa_addi4spn c"
  by (rule bit_eqI) (auto simp: field_simps_bits imm_defs)

lemma imm_lwsp_bits: "ucast (imm_sp c) = isa_lwsp c"
  by (rule low_bits_eqI [OF ten_bits(1,3)]) (simp_all add: field_simps_bits imm_defs)

lemma imm_ldsp_bits: "ucast (imm_sp c) = isa_ldsp c \<longleftrightarrow> \<not> bit c 4"
proof
  assume "ucast (imm_sp c) = isa_ldsp c"
  then have "bit (ucast (imm_sp c) :: u64) 2 = bit (isa_ldsp c) 2" by simp
  then show "\<not> bit c 4" by (simp add: field_simps_bits imm_defs)
next
  assume "\<not> bit c 4"
  then show "ucast (imm_sp c) = isa_ldsp c"
    by (intro low_bits_eqI [OF ten_bits(1,4)]) (simp_all add: field_simps_bits imm_defs)
qed

lemma imm_lw_bits: "ucast (imm_lw c) = isa_lw c \<longleftrightarrow> \<not> bit c 5"
proof
  assume "ucast (imm_lw c) = isa_lw c"
  then have "bit (ucast (imm_lw c) :: u64) 6 = bit (isa_lw c) 6" by simp
  then show "\<not> bit c 5" by (simp add: field_simps_bits imm_defs)
next
  assume "\<not> bit c 5"
  then show "ucast (imm_lw c) = isa_lw c"
    by (intro low_bits_eqI [OF ten_bits(2,5)]) (simp_all add: field_simps_bits imm_defs)
qed

lemma fld_bit: "fld k k c > 0 \<longleftrightarrow> bit c k"
  by (simp add: fld_def word_gt_0 mod_2_eq_odd even_drop_bit)

lemma signExtend_ci: "dvrSignExtend (ucast (imm_ci c)) 6 = isa_ci c"
proof -
  have t: "take_bit 6 (ucast (imm_ci c)) = (ucast (imm_ci c) :: u64)"
    by (rule bit_eqI) (auto simp: field_simps_bits imm_ci_def)
  have m: "(0x1f :: u64) = mask 5" by (simp add: mask_numeral)
  have "signed_take_bit 5 (ucast (imm_ci c) :: u64) = isa_ci c"
    unfolding isa_ci_def Let_def fld_bit m
    by (rule bit_eqI) (auto simp: field_simps_bits imm_ci_def min_def)
  with signExtend_signed_take_bit [of 6 "ucast (imm_ci c)"] t show ?thesis by simp
qed

lemma signExtend_lui: "push_bit 12 (isa_ci c) = isa_lui c"
proof -
  have m: "(0x1f :: u64) = mask 5" "(0x1ffff :: u64) = mask 17" by (simp_all add: mask_numeral)
  show ?thesis unfolding isa_ci_def isa_lui_def Let_def fld_bit m
    by (rule bit_eqI) (auto simp: field_simps_bits)
qed

text \<open>A sign-extended immediate of ten bits.\<close>

lemma signed_ten:
  fixes v w :: u64
  assumes "take_bit 10 v = v" "bit v 9 = b" "w = take_bit 9 v"
  shows "signed_take_bit 9 v = (if b then w OR NOT (mask 9) else w)"
  using assms by (simp add: signed_take_bit_def)

lemma signExtend_addi16sp: "dvrSignExtend (ucast (imm_addi16sp c)) 10 = isa_addi16sp c"
proof -
  let ?v = "ucast (imm_addi16sp c) :: u64"
  let ?m = "fld 6 2 c"
  let ?w = "ucast (push_bit 4 (fld 4 4 ?m) OR push_bit 5 (fld 0 0 ?m) OR push_bit 6 (fld 3 3 ?m) OR
                  push_bit 7 (fld 2 1 ?m)) :: u64"
  have t: "take_bit 10 ?v = ?v" by (rule bit_eqI) (auto simp: field_simps_bits imm_addi16sp_def)
  have t': "take_bit 10 (take_bit 9 ?v) = take_bit 9 ?v" by (simp add: take_bit_take_bit)
  have w: "take_bit 10 ?w = ?w" by (rule bit_eqI) (auto simp: field_simps_bits)
  have m: "(0x1ff :: u64) = mask 9" by (simp add: mask_numeral)
  have b: "bit ?v 9 = bit c 12" by (simp add: field_simps_bits imm_addi16sp_def)
  have "?w = take_bit 9 ?v"
    by (rule low_bits_eqI [OF w t']) (simp_all add: field_simps_bits imm_addi16sp_def)
  from signed_ten [OF t b this] have "signed_take_bit 9 ?v = isa_addi16sp c"
    unfolding isa_addi16sp_def Let_def fld_bit m .
  with signExtend_signed_take_bit [of 10 ?v] t show ?thesis by simp
qed

lemma wrap_unsigned:
  assumes "0 < n" "z < 2 ^ n" "0 \<le> z"
  shows "wrap n z = (if z < 2 ^ (n - 1) then z else z - 2 ^ n)"
proof -
  obtain m where m: "n = Suc m" using assms(1) by (cases n) auto
  show ?thesis
  proof (cases "z < 2 ^ m")
    case True
    then have "(z + 2 ^ m) mod (2 * 2 ^ m) = z + 2 ^ m" using assms(3) by (intro mod_pos_pos_trivial) auto
    with True m show ?thesis by (simp add: wrap_def)
  next
    case False
    have "(z + 2 ^ m) mod (2 * 2 ^ m) = (z - 2 ^ m + 2 * 2 ^ m) mod (2 * 2 ^ m)" by (simp add: algebra_simps)
    also have "\<dots> = (z - 2 ^ m) mod (2 * 2 ^ m)" by (rule mod_add_self2)
    also have "\<dots> = z - 2 ^ m" using False assms(2) m by (intro mod_pos_pos_trivial) auto
    finally show ?thesis using False m by (simp add: wrap_def)
  qed
qed

section \<open>The compressed decode tree\<close>

text \<open>
  The legal compressed instructions of \<open>decoder.isa\<close> that compute an integer, load or branch
  on one, with the operation and the immediate. Encodings that raise an illegal-instruction
  fault and those the decoder of the helper leaves out on purpose (stores, jumps, floating
  point) have no entry.
\<close>

definition isa_compressed :: "u32 \<Rightarrow> (semantic \<times> i64) option" where
  "isa_compressed c =
     (let q = fld 1 0 c; opc = fld 15 13 c; rc1 = fld 11 7 c; rc2 = fld 6 2 c;
          high = fld 11 10 c; low = fld 6 5 c; funct1 = fld 12 12 c
      in if q = 0 then
           (if opc = 0 \<and> c \<noteq> 0 then Some (AddImmediate, isa_addi4spn c)
            else if opc = 2 then Some (LoadWordSigned, isa_lw c)
            else if opc = 3 then Some (LoadDouble, isa_ld c)
            else None)
         else if q = 1 then
           (if opc = 0 \<and> rc1 \<noteq> 0 \<and> isa_ci c \<noteq> 0 then Some (AddImmediate, isa_ci c)
            else if opc = 1 \<and> rc1 \<noteq> 0 then Some (AddWordImmediate, isa_ci c)
            else if opc = 2 \<and> rc1 \<noteq> 0 then Some (AddImmediate, isa_ci c)
            else if opc = 3 \<and> rc1 = 2 \<and> isa_addi16sp c \<noteq> 0 then Some (AddImmediate, isa_addi16sp c)
            else if opc = 3 \<and> rc1 \<noteq> 0 \<and> rc1 \<noteq> 2 \<and> isa_lui c \<noteq> 0 then Some (AddImmediate, isa_lui c)
            else if opc = 4 \<and> high = 0 \<and> isa_shamt c \<noteq> 0 then Some (ShiftRightLogicalImmediate, isa_shamt c)
            else if opc = 4 \<and> high = 1 \<and> isa_shamt c \<noteq> 0 then Some (ShiftRightArithmeticImmediate, isa_shamt c)
            else if opc = 4 \<and> high = 2 then Some (AndImmediate, isa_ci c)
            else if opc = 4 \<and> high = 3 \<and> funct1 = 0 then
              Some (if low = 0 then Sub else if low = 1 then Xor else if low = 2 then Or else And, 0)
            else if opc = 4 \<and> high = 3 \<and> funct1 \<noteq> 0 \<and> low = 0 then Some (SubWord, 0)
            else if opc = 4 \<and> high = 3 \<and> funct1 \<noteq> 0 \<and> low = 1 then Some (AddWord, 0)
            else if opc = 6 then Some (BranchEqual, 0)
            else if opc = 7 then Some (BranchNotEqual, 0)
            else None)
         else if q = 2 then
           (if opc = 0 \<and> rc1 \<noteq> 0 \<and> isa_shamt c \<noteq> 0 then Some (ShiftLeftImmediate, isa_shamt c)
            else if opc = 2 \<and> rc1 \<noteq> 0 then Some (LoadWordSigned, isa_lwsp c)
            else if opc = 3 \<and> rc1 \<noteq> 0 then Some (LoadDouble, isa_ldsp c)
            else if opc = 4 \<and> funct1 = 0 \<and> rc1 \<noteq> 0 \<and> rc2 \<noteq> 0 then Some (Move, 0)
            else if opc = 4 \<and> funct1 \<noteq> 0 \<and> rc1 \<noteq> 0 \<and> rc2 \<noteq> 0 then Some (Add, 0)
            else None)
         else None)"

text \<open>Where the helper's decoder differs from the ISA description.\<close>

definition deviates :: "u32 \<Rightarrow> bool" where
  "deviates c \<longleftrightarrow>
     fld 1 0 c = 0 \<and> fld 15 13 c = 2 \<and> bit c 5 \<or>
     fld 1 0 c = 2 \<and> fld 15 13 c = 3 \<and> bit c 4 \<or>
     fld 1 0 c = 0 \<and> fld 15 13 c = 0 \<and> fld 6 2 c = 0"

lemma fld_masks:
  "fld 1 0 c = c AND 0x3" "fld 15 13 c = drop_bit 13 c AND 0x7" "fld 11 7 c = drop_bit 7 c AND 0x1f"
  "fld 6 2 c = drop_bit 2 c AND 0x1f" "fld 11 10 c = drop_bit 10 c AND 0x3"
  "fld 6 5 c = drop_bit 5 c AND 0x3" "fld 12 12 c = drop_bit 12 c AND 0x1"
  by (simp_all only: fld_def and_masks) (simp_all add: numeral_2_eq_2)

lemmas imm_rewrites =
  imm_bits imm_addi4spn_bits imm_lwsp_bits signExtend_ci signExtend_lui signExtend_addi16sp

section \<open>I-type encodings\<close>

definition encode_i :: "12 word \<Rightarrow> 5 word \<Rightarrow> 3 word \<Rightarrow> 5 word \<Rightarrow> 7 word \<Rightarrow> u32" where
  "encode_i imm rs1 f3 rd op =
     push_bit 20 (ucast imm) OR push_bit 15 (ucast rs1) OR push_bit 12 (ucast f3) OR
     push_bit 7 (ucast rd) OR ucast op"

lemma encode_i_fields:
  "drop_bit 20 (encode_i imm rs1 f3 rd op) = ucast imm"
  "encode_i imm rs1 f3 rd op AND 0x7f = ucast op"
  "drop_bit 12 (encode_i imm rs1 f3 rd op) AND 0x7 = ucast f3"
  by (rule bit_eqI, auto simp: encode_i_def bit_simps and_masks dest: bit_imp_le_length)+

lemma imm_i_encode: "imm_i (encode_i imm rs1 f3 rd op) = scast imm"
proof -
  let ?v = "ucast (ucast imm :: u32) :: u64"
  have "take_bit 12 ?v = ?v" by (rule bit_eqI) (auto simp: bit_simps dest: bit_imp_le_length)
  then have "dvrSignExtend ?v 12 = signed_take_bit 11 ?v" by (simp add: signExtend_signed_take_bit)
  also have "\<dots> = scast imm"
    by (rule bit_eqI) (auto simp: bit_simps min_def not_le)
  finally show ?thesis by (simp add: imm_i_def encode_i_fields)
qed

text \<open>The I-type operations with a sign-extended immediate, and the load width.\<close>

fun itype :: "7 word \<Rightarrow> 3 word \<Rightarrow> (semantic \<times> nat) option" where
  "itype op f3 =
     (if op = 0x13 \<and> f3 = 0 then Some (AddImmediate, 0)
      else if op = 0x13 \<and> f3 = 4 then Some (XorImmediate, 0)
      else if op = 0x13 \<and> f3 = 6 then Some (OrImmediate, 0)
      else if op = 0x13 \<and> f3 = 7 then Some (AndImmediate, 0)
      else if op = 0x1b \<and> f3 = 0 then Some (AddWordImmediate, 0)
      else if op = 0x03 \<and> f3 = 0 then Some (LoadByteSigned, 1)
      else if op = 0x03 \<and> f3 = 1 then Some (LoadHalfSigned, 2)
      else if op = 0x03 \<and> f3 = 2 then Some (LoadWordSigned, 4)
      else if op = 0x03 \<and> f3 = 3 then Some (LoadDouble, 8)
      else if op = 0x03 \<and> f3 = 4 then Some (LoadByteUnsigned, 1)
      else if op = 0x03 \<and> f3 = 5 then Some (LoadHalfUnsigned, 2)
      else None)"

section \<open>Properties\<close>

text \<open>
  Sign extension is right at every width: for a value of \<open>n\<close> bits,
  \<open>dvrSignExtend\<close> is the value itself if its top bit is clear, and the value minus \<open>2 ^ n\<close>
  otherwise.
\<close>

lemma signExtend_value:
  assumes "0 < n" and "n \<le> 64" and "uint v < 2 ^ n"
  shows "sint (dvrSignExtend v n) = (if uint v < 2 ^ (n - 1) then uint v else uint v - 2 ^ n)"
proof -
  have t: "take_bit n v = v"
    using assms(3) by (metis uint_take_bit mod_pos_pos_trivial uint_ge_0 word_uint_eqI)
  have "sint (dvrSignExtend v n) = sint (signed_take_bit (n - 1) v)"
    using signExtend_signed_take_bit [OF assms(1,2) t] by simp
  also have "\<dots> = signed_take_bit (n - 1) (uint v)"
  proof (rule bit_eqI)
    fix k
    have "min (n - 1) (min 63 k) = min (n - 1) k" using assms(2) by linarith
    then show "bit (sint (signed_take_bit (n - 1) v)) k = bit (signed_take_bit (n - 1) (uint v)) k"
      using assms(2) by (simp add: bit_simps min_less_iff_disj)
  qed
  also have "\<dots> = wrap n (uint v)" using assms(1) by (simp add: wrap_signed_take_bit)
  also have "\<dots> = (if uint v < 2 ^ (n - 1) then uint v else uint v - 2 ^ n)"
    using assms(1,3) uint_ge_0 [of v] by (rule wrap_unsigned)
  finally show ?thesis .
qed

text \<open>
  C28 (equivalence). Decoding of compressed instructions against the ISA description: for every
  encoding with an entry there, the operation and the immediate found by the helper's decoder
  are those of the ISA exactly outside three sets of encodings. C.LW loses bit 6 of its offset
  (encoding bit 5), C.LDSP places encoding bit 4 at offset bit 2 instead of 8, and
  C.ADDI4SPN with destination x8 and no low immediate bits is not recognised.
\<close>

theorem compressed_decode_exact:
  assumes "isa_compressed c = Some (s, i)"
  shows "(up_semantic (decode_compressed c empty_uop) = s \<and>
      up_immediate (decode_compressed c empty_uop) = i) \<longleftrightarrow> \<not> deviates c"
proof -
  define q f rd rs2 high low w where "q = c AND 0x3" and "f = drop_bit 13 c AND 0x7"
    and "rd = drop_bit 7 c AND 0x1f" and "rs2 = drop_bit 2 c AND 0x1f" and "high = drop_bit 10 c AND 0x3"
    and "low = drop_bit 5 c AND 0x3" and "w = drop_bit 12 c AND 0x1"
  note fields = q_def f_def rd_def rs2_def high_def low_def w_def
  have u: "up_semantic empty_uop = Unsupported" "up_immediate empty_uop = 0" by (simp_all add: empty_uop_def)
  note unfolded = isa_compressed_def decode_compressed_def deviates_def fld_masks imm_rewrites
    fields [symmetric] Let_def
  note facts = set_sem_def set_imm_def u imm_lw_bits imm_ldsp_bits [unfolded imm_lwsp_bits] signExtend_ci [unfolded imm_bits] signExtend_lui
  consider "q = 0" | "q = 1" | "q = 2" | "q \<noteq> 0" "q \<noteq> 1" "q \<noteq> 2" by blast
  then show ?thesis
  proof cases
    case 1
    then show ?thesis using assms unfolding unfolded by (auto simp: facts split: if_splits)
  next
    case 2
    consider "f = 0" | "f = 1" | "f = 2" | "f = 3" | "f = 4" | "f = 6" | "f = 7"
      | "f \<noteq> 0" "f \<noteq> 1" "f \<noteq> 2" "f \<noteq> 3" "f \<noteq> 4" "f \<noteq> 6" "f \<noteq> 7" by blast
    then show ?thesis using 2 assms unfolding unfolded by cases (auto simp: facts split: if_splits)
  next
    case 3
    consider "f = 0" | "f = 2" | "f = 3" | "f = 4" | "f \<noteq> 0" "f \<noteq> 2" "f \<noteq> 3" "f \<noteq> 4" by blast
    then show ?thesis using 3 assms unfolding unfolded by cases (auto simp: facts split: if_splits)
  next
    case 4
    then show ?thesis using assms unfolding unfolded by simp
  qed
qed


theorem compressed_decode_exact_witness:
  "\<not> (up_semantic (decode_compressed 0x4020 empty_uop) = LoadWordSigned \<and>
      up_immediate (decode_compressed 0x4020 empty_uop) = 0x40)"
proof -
  have "isa_compressed 0x4020 = Some (LoadWordSigned, 0x40)" "deviates 0x4020" by code_simp+
  then show ?thesis using compressed_decode_exact by blast
qed


end
