(* ===== verification/DVR_Recorder.thy ===== *)
theory DVR_Recorder
  imports DVR_Decode
begin

unbundle bit_operations_syntax

text \<open>
  \<open>DVRInstructionRecorder\<close> (\<open>src/code/gem5-runahead-dev-pre/src/cpu/o3/pre.hh\<close> 228-382 and
  \<open>pre.cc\<close> 999-1211): the bounded template of helper operations captured from the trigger to
  the final load, its reconvergence points and its alternate suffixes. The array of \<open>MaxUops\<close>
  entries is a list of that length; \<open>count\<close> and indices are \<open>nat\<close>, an index that the code
  initialises with \<open>-1\<close> is an option.
\<close>

section \<open>Model\<close>

definition MaxUops :: nat where
  "MaxUops = 256"

record resource_counts =
  rs_alu :: nat
  rs_shift :: nat
  rs_multiply :: nat
  rs_lsu :: nat

record recorder =
  rc_uops :: "uop list"
  rc_count :: nat
  rc_overflowed :: bool

definition Recorder_empty :: recorder where
  "Recorder_empty = \<lparr>rc_uops = replicate MaxUops empty_uop, rc_count = 0, rc_overflowed = False\<rparr>"

definition Recorder_reset :: "recorder \<Rightarrow> recorder" where
  "Recorder_reset r = r\<lparr>rc_uops := replicate MaxUops empty_uop, rc_count := 0, rc_overflowed := False\<rparr>"

definition program :: "recorder \<Rightarrow> uop list" where
  "program r = take (rc_count r) (rc_uops r)"

text \<open>The first part of \<open>record\<close>: the reconvergence boundary of the previous branch.\<close>

definition Recorder_mark :: "addr \<Rightarrow> recorder \<Rightarrow> recorder" where
  "Recorder_mark pc r =
     (let k = rc_count r - 1; last_uop = rc_uops r ! k in
      if rc_count r \<noteq> 0 \<and> up_conditional last_uop \<and> up_reconvergencePC last_uop = 0
      then r\<lparr>rc_uops := (rc_uops r)[k := last_uop\<lparr>up_reconvergencePC := pc\<rparr>]\<rparr>
      else r)"

text \<open>The fields \<open>record\<close> writes into the next slot.\<close>

definition Recorder_fill :: "dyn_inst \<Rightarrow> bool \<Rightarrow> uop \<Rightarrow> uop" where
  "Recorder_fill inst tainted slot =
     (let u1 = slot\<lparr>up_pc := di_pc inst\<rparr>;
          u2 = (if di_isDirectCtrl inst then u1\<lparr>up_branchTargetPC := di_branchTarget inst\<rparr> else u1);
          u3 = u2\<lparr>up_intSources := dvrIntRegisterMask inst True,
                  up_intDestinations := dvrIntRegisterMask inst False,
                  up_source0 := dvrFirstIntRegister inst True 0,
                  up_source1 := dvrFirstIntRegister inst True 1,
                  up_destination := dvrFirstIntRegister inst False 0,
                  up_load := di_isLoad inst, up_control := di_isControl inst,
                  up_conditional := di_isCondCtrl inst, up_branchTaken := di_branching inst,
                  up_tainted := tainted\<rparr>;
          u4 = dvrDecodeRiscvSemantic inst u3
      in u4\<lparr>up_fallthroughPC := up_pc u4 +
              (if up_encodingValid u4 \<and> up_encoding u4 AND 0x3 \<noteq> 0x3 then 2 else 4)\<rparr>)"

definition Recorder_record :: "dyn_inst \<Rightarrow> bool \<Rightarrow> recorder \<Rightarrow> bool \<times> recorder" where
  "Recorder_record inst tainted r =
     (let r1 = Recorder_mark (di_pc inst) r
      in if rc_count r1 \<ge> MaxUops then (False, r1\<lparr>rc_overflowed := True\<rparr>)
         else (True, r1\<lparr>rc_uops := (rc_uops r1)[rc_count r1 := Recorder_fill inst tainted (rc_uops r1 ! rc_count r1)],
                        rc_count := rc_count r1 + 1\<rparr>))"

definition Recorder_begin :: "dyn_inst \<Rightarrow> recorder \<Rightarrow> recorder" where
  "Recorder_begin trigger r = snd (Recorder_record trigger False (Recorder_reset r))"

definition Recorder_import :: "uop list \<Rightarrow> nat \<Rightarrow> recorder \<Rightarrow> recorder" where
  "Recorder_import source n r =
     (let r1 = (Recorder_reset r)\<lparr>rc_count := min n MaxUops\<rparr>
      in r1\<lparr>rc_uops := fold (\<lambda>i us. us[i := source ! i]) [0..<rc_count r1] (rc_uops r1)\<rparr>)"

definition Recorder_insertBeforePC :: "addr \<Rightarrow> uop list \<Rightarrow> recorder \<Rightarrow> bool \<times> recorder" where
  "Recorder_insertBeforePC reconvergence_pc path r =
     (if reconvergence_pc = 0 \<or> path = [] \<or> rc_count r \<ge> MaxUops \<or> length path > MaxUops - rc_count r
      then (False, r)
      else if List.find (\<lambda>i. up_pc (rc_uops r ! i) = reconvergence_pc) [0..<rc_count r] = None then (False, r)
      else (True, r\<lparr>rc_uops := fold (\<lambda>i us. us[rc_count r + i := path ! i]) [0..<length path] (rc_uops r),
                    rc_count := rc_count r + length path\<rparr>))"

text \<open>The last load of the FLR, and the first loop branch behind it.\<close>

definition Recorder_flrIndex :: "addr \<Rightarrow> recorder \<Rightarrow> nat option" where
  "Recorder_flrIndex flr_pc r =
     fold (\<lambda>i found. if up_load (rc_uops r ! i) \<and> up_pc (rc_uops r ! i) = flr_pc then Some i else found)
       [0..<rc_count r] None"

definition Recorder_lcrIndex :: "nat \<Rightarrow> addr \<Rightarrow> recorder \<Rightarrow> nat" where
  "Recorder_lcrIndex flr_index loop_branch_pc r =
     (case List.find (\<lambda>i. up_conditional (rc_uops r ! i) \<and> up_pc (rc_uops r ! i) = loop_branch_pc)
             [flr_index + 1..<rc_count r] of
        Some i \<Rightarrow> i
      | None \<Rightarrow> rc_count r)"

definition Recorder_setReconvergencePC :: "addr \<Rightarrow> addr \<Rightarrow> recorder \<Rightarrow> recorder" where
  "Recorder_setReconvergencePC flr_pc loop_branch_pc r =
     (if flr_pc = 0 then r
      else case Recorder_flrIndex flr_pc r of
        None \<Rightarrow> r
      | Some flr_index \<Rightarrow>
          (let lcr_index = (if loop_branch_pc \<noteq> 0 then Recorder_lcrIndex flr_index loop_branch_pc r
                            else rc_count r)
           in r\<lparr>rc_uops := fold (\<lambda>i us.
                  if \<not> up_conditional (us ! i) then us
                  else if i \<le> flr_index then us[i := (us ! i)\<lparr>up_reconvergencePC := flr_pc\<rparr>]
                  else if i < lcr_index \<and> loop_branch_pc \<noteq> 0
                  then us[i := (us ! i)\<lparr>up_reconvergencePC := loop_branch_pc\<rparr>]
                  else us) [0..<rc_count r] (rc_uops r)\<rparr>))"

definition Recorder_hasConditionalBetween :: "addr \<Rightarrow> addr \<Rightarrow> recorder \<Rightarrow> bool" where
  "Recorder_hasConditionalBetween flr_pc loop_branch_pc r =
     (if flr_pc = 0 \<or> loop_branch_pc = 0 then False
      else case Recorder_flrIndex flr_pc r of
        None \<Rightarrow> False
      | Some flr_index \<Rightarrow>
          (let lcr_index = Recorder_lcrIndex flr_index loop_branch_pc r
           in if lcr_index = rc_count r then False
              else list_ex (\<lambda>i. up_conditional (rc_uops r ! i)) [flr_index + 1..<lcr_index]))"

definition Recorder_truncate :: "nat \<Rightarrow> recorder \<Rightarrow> recorder" where
  "Recorder_truncate n r = r\<lparr>rc_count := min (rc_count r) n\<rparr>"

definition count_resource :: "uop \<Rightarrow> resource_counts \<Rightarrow> resource_counts" where
  "count_resource u c =
     (if up_load u \<or> up_semantic u = LoadAddress then c\<lparr>rs_lsu := rs_lsu c + 1\<rparr>
      else if up_semantic u = Multiply \<or> up_semantic u = MultiplyWord then c\<lparr>rs_multiply := rs_multiply c + 1\<rparr>
      else if up_semantic u \<in> {ShiftLeft, ShiftRightLogical, ShiftRightArithmetic, ShiftLeftImmediate,
                ShiftLeftWordImmediate, ShiftRightLogicalImmediate, ShiftRightArithmeticImmediate,
                ShiftRightLogicalWordImmediate, ShiftRightArithmeticWordImmediate}
      then c\<lparr>rs_shift := rs_shift c + 1\<rparr>
      else c\<lparr>rs_alu := rs_alu c + 1\<rparr>)"

definition Recorder_resourceCounts :: "recorder \<Rightarrow> resource_counts" where
  "Recorder_resourceCounts r =
     fold (\<lambda>i. count_resource (rc_uops r ! i)) [0..<rc_count r]
       \<lparr>rs_alu = 0, rs_shift = 0, rs_multiply = 0, rs_lsu = 0\<rparr>"

section \<open>Invariant\<close>

definition recorder_ok :: "recorder \<Rightarrow> bool" where
  "recorder_ok r \<longleftrightarrow> length (rc_uops r) = MaxUops \<and> rc_count r \<le> MaxUops"

lemma mark_simps [simp]:
  "rc_count (Recorder_mark pc r) = rc_count r"
  "rc_overflowed (Recorder_mark pc r) = rc_overflowed r"
  "length (rc_uops (Recorder_mark pc r)) = length (rc_uops r)"
  by (simp_all add: Recorder_mark_def Let_def)

lemma recorder_ok_reset [simp]: "recorder_ok (Recorder_reset r)"
  by (simp add: recorder_ok_def Recorder_reset_def)

lemma recorder_ok_record: "recorder_ok r \<Longrightarrow> recorder_ok (snd (Recorder_record i t r))"
  by (simp add: recorder_ok_def Recorder_record_def Let_def)

lemma fold_update_offset:
  assumes "n \<le> length xs - k" "k \<le> length xs" "n \<le> length ys"
  shows "fold (\<lambda>i us. us[k + i := ys ! i]) [0..<n] xs = take k xs @ take n ys @ drop (k + n) xs"
  using assms
proof (induction n)
  case 0
  then show ?case by simp
next
  case (Suc n)
  have IH: "fold (\<lambda>i us. us[k + i := ys ! i]) [0..<n] xs = take k xs @ take n ys @ drop (k + n) xs"
    using Suc by simp
  have "k + n < length xs" using Suc.prems by linarith
  then have "drop (k + n) xs = xs ! (k + n) # drop (k + Suc n) xs" by (metis Cons_nth_drop_Suc add_Suc_right)
  then show ?case
    using Suc.prems by (simp add: IH list_update_append take_Suc_conv_app_nth)
qed

lemma insert_program:
  assumes ok: "recorder_ok r" and s: "Recorder_insertBeforePC pc path r = (True, r')"
  shows "program r' = program r @ path" "recorder_ok r'" "rc_count r' = rc_count r + length path"
proof -
  have room: "rc_count r + length path \<le> MaxUops" "rc_count r \<le> MaxUops"
    and r': "r' = r\<lparr>rc_uops := fold (\<lambda>i us. us[rc_count r + i := path ! i]) [0..<length path] (rc_uops r),
                    rc_count := rc_count r + length path\<rparr>"
    using s by (auto simp: Recorder_insertBeforePC_def split: if_splits)
  have len: "length (rc_uops r) = MaxUops" using ok by (simp add: recorder_ok_def)
  have "fold (\<lambda>i us. us[rc_count r + i := path ! i]) [0..<length path] (rc_uops r) =
    take (rc_count r) (rc_uops r) @ take (length path) path @ drop (rc_count r + length path) (rc_uops r)"
    by (rule fold_update_offset) (use room len in auto)
  then have us: "rc_uops r' = take (rc_count r) (rc_uops r) @ path @ drop (rc_count r + length path) (rc_uops r)"
    by (simp add: r')
  show "rc_count r' = rc_count r + length path" by (simp add: r')
  show "program r' = program r @ path" unfolding program_def us using room len by (simp add: r')
  show "recorder_ok r'" unfolding recorder_ok_def us using room len by (simp add: r')
qed

section \<open>What a recording contains\<close>

lemma decode_keeps [simp]:
  "up_reconvergencePC (dvrDecodeRiscvSemantic i u) = up_reconvergencePC u"
  "up_conditional (dvrDecodeRiscvSemantic i u) = up_conditional u"
  "up_pc (dvrDecodeRiscvSemantic i u) = up_pc u"
proof -
  note defs = decode_full_def decode_op_def decode_op32_def decode_op_imm_def decode_op_imm32_def
    decode_load_def decode_branch_def decode_compressed_def Let_def set_sem_def set_imm_def
  have c: "up_reconvergencePC (decode_compressed c u) = up_reconvergencePC u"
    "up_conditional (decode_compressed c u) = up_conditional u" "up_pc (decode_compressed c u) = up_pc u" for c u
    by (simp_all add: defs)
  have f: "up_reconvergencePC (decode_full e u) = up_reconvergencePC u"
    "up_conditional (decode_full e u) = up_conditional u" "up_pc (decode_full e u) = up_pc u" for e u
    by (simp_all add: defs)
  show "up_reconvergencePC (dvrDecodeRiscvSemantic i u) = up_reconvergencePC u"
    "up_conditional (dvrDecodeRiscvSemantic i u) = up_conditional u"
    "up_pc (dvrDecodeRiscvSemantic i u) = up_pc u"
    by (simp_all add: dvrDecodeRiscvSemantic_def Let_def c f split: prod.splits)
qed

lemma fill_simps [simp]:
  "up_reconvergencePC (Recorder_fill i t u) = up_reconvergencePC u"
  "up_conditional (Recorder_fill i t u) = di_isCondCtrl i"
  "up_pc (Recorder_fill i t u) = di_pc i"
  by (simp_all add: Recorder_fill_def Let_def)

type_synonym trace = "(dyn_inst \<times> bool) list"

definition boundary :: "trace \<Rightarrow> nat \<Rightarrow> addr" where
  "boundary l i = (if di_isCondCtrl (fst (l ! i)) \<and> Suc i < length l then di_pc (fst (l ! Suc i)) else 0)"

definition recorded_uop :: "trace \<Rightarrow> nat \<Rightarrow> uop" where
  "recorded_uop l i = (Recorder_fill (fst (l ! i)) (snd (l ! i)) empty_uop)\<lparr>up_reconvergencePC := boundary l i\<rparr>"

definition record_all :: "trace \<Rightarrow> recorder \<Rightarrow> recorder" where
  "record_all l r = fold (\<lambda>x r. snd (Recorder_record (fst x) (snd x) r)) l r"

definition trace_inv :: "trace \<Rightarrow> recorder \<Rightarrow> bool" where
  "trace_inv l r \<longleftrightarrow> length (rc_uops r) = 256 \<and> rc_count r = min (length l) 256 \<and>
     rc_overflowed r = (length l > 256) \<and>
     (\<forall>i < min (length l) 256. rc_uops r ! i = recorded_uop l i) \<and>
     (\<forall>i < 256. length l \<le> i \<longrightarrow> rc_uops r ! i = empty_uop)"

lemma boundary_snoc:
  "i < length l \<Longrightarrow> boundary (l @ [x]) i =
    (if Suc i < length l then boundary l i else if di_isCondCtrl (fst (l ! i)) then di_pc (fst x) else 0)"
  "boundary (l @ [x]) (length l) = 0"
  by (auto simp: boundary_def nth_append)

lemma recorded_snoc:
  "Suc i < length l \<Longrightarrow> recorded_uop (l @ [x]) i = recorded_uop l i"
  by (simp add: recorded_uop_def boundary_snoc nth_append)

lemma boundary_zero:
  "Suc k < length l \<Longrightarrow> \<forall>y \<in> set l. di_pc (fst y) \<noteq> 0 \<Longrightarrow> boundary l k = 0 \<longleftrightarrow> \<not> di_isCondCtrl (fst (l ! k))"
  by (simp add: boundary_def)

lemma boundary_last: "\<not> Suc k < length l \<Longrightarrow> boundary l k = 0"
  by (simp add: boundary_def)

lemma mark_last:
  assumes inv: "trace_inv l r" and pcs: "\<forall>y \<in> set l. di_pc (fst y) \<noteq> 0"
  shows "rc_uops (Recorder_mark (di_pc (fst x)) r) ! i =
    (if i < min (length l) 256 then recorded_uop (l @ [x]) i else rc_uops r ! i)"
proof -
  let ?n = "min (length l) 256"
  have cnt: "rc_count r = ?n" and len: "length (rc_uops r) = 256"
    and us: "\<And>i. i < ?n \<Longrightarrow> rc_uops r ! i = recorded_uop l i" using inv by (simp_all add: trace_inv_def)
  have early: "recorded_uop (l @ [x]) i = recorded_uop l i" if "Suc i < ?n" for i
    using that by (simp add: recorded_snoc)
  show ?thesis
  proof (cases "l = []")
    case True
    then show ?thesis using cnt by (simp add: Recorder_mark_def Let_def)
  next
    case False
    let ?k = "?n - 1"
    have k: "?k < ?n" "?k < length l" using False by (simp_all add: min_def)
    have last: "rc_uops r ! ?k = recorded_uop l ?k" using us k by blast
    have cond: "up_conditional (recorded_uop l ?k) = di_isCondCtrl (fst (l ! ?k))" by (simp add: recorded_uop_def)
    have final: "recorded_uop (l @ [x]) ?k =
      (if di_isCondCtrl (fst (l ! ?k)) \<and> boundary l ?k = 0
       then (recorded_uop l ?k)\<lparr>up_reconvergencePC := di_pc (fst x)\<rparr> else recorded_uop l ?k)"
    proof (cases "Suc ?k < length l")
      case True
      then have "boundary l ?k = 0 \<longleftrightarrow> \<not> di_isCondCtrl (fst (l ! ?k))"
        using pcs by (rule boundary_zero)
      with True show ?thesis by (auto simp: recorded_snoc)
    next
      case f: False
      then have "boundary l ?k = 0" by (rule boundary_last)
      then show ?thesis using k f by (simp add: recorded_uop_def boundary_snoc nth_append)
    qed
    have mark: "rc_uops (Recorder_mark (di_pc (fst x)) r) =
      (if di_isCondCtrl (fst (l ! ?k)) \<and> boundary l ?k = 0
       then (rc_uops r)[?k := (recorded_uop l ?k)\<lparr>up_reconvergencePC := di_pc (fst x)\<rparr>] else rc_uops r)"
      using False cnt last cond by (simp add: Recorder_mark_def Let_def recorded_uop_def)
    show ?thesis
    proof (cases "i = ?k")
      case True
      then show ?thesis using mark final last k len by simp
    next
      case False
      have "recorded_uop (l @ [x]) i = recorded_uop l i" if "i < ?n"
        using that False by (intro early) linarith
      with False show ?thesis using mark us by auto
    qed
  qed
qed

lemma trace_inv_step:
  assumes inv: "trace_inv l r" and pcs: "\<forall>y \<in> set l. di_pc (fst y) \<noteq> 0"
  shows "trace_inv (l @ [x]) (snd (Recorder_record (fst x) (snd x) r))"
proof -
  let ?m = "Recorder_mark (di_pc (fst x)) r"
  have base: "length (rc_uops r) = 256" "rc_count r = min (length l) 256" "rc_overflowed r = (length l > 256)"
    and empty: "\<And>i. i < 256 \<Longrightarrow> length l \<le> i \<Longrightarrow> rc_uops r ! i = empty_uop"
    using inv by (simp_all add: trace_inv_def)
  have m: "\<And>i. rc_uops ?m ! i = (if i < min (length l) 256 then recorded_uop (l @ [x]) i else rc_uops r ! i)"
    using mark_last [OF inv pcs, of x] by simp
  show ?thesis
  proof (cases "length l < 256")
    case True
    let ?f = "Recorder_fill (fst x) (snd x) (rc_uops ?m ! length l)"
    have r': "snd (Recorder_record (fst x) (snd x) r) =
      ?m\<lparr>rc_uops := (rc_uops ?m)[length l := ?f], rc_count := Suc (length l)\<rparr>"
      using True base by (simp add: Recorder_record_def Let_def MaxUops_def)
    have "rc_uops ?m ! length l = empty_uop" using m [of "length l"] empty True by simp
    then have "?f = recorded_uop (l @ [x]) (length l)"
      by (simp add: recorded_uop_def boundary_snoc(2) empty_uop_def Recorder_fill_def Let_def)
    then show ?thesis unfolding r' trace_inv_def using base True m empty
      by (auto simp: nth_update_if min_def less_Suc_eq)
  next
    case False
    then show ?thesis using base m empty
      by (auto simp: trace_inv_def Recorder_record_def Let_def MaxUops_def min_def)
  qed
qed

lemma trace_inv_run:
  assumes "\<forall>y \<in> set l. di_pc (fst y) \<noteq> 0"
  shows "trace_inv l (record_all l (Recorder_reset r))"
  using assms
proof (induction l rule: rev_induct)
  case Nil
  then show ?case by (simp add: trace_inv_def record_all_def Recorder_reset_def MaxUops_def)
next
  case (snoc x l)
  then have "trace_inv l (record_all l (Recorder_reset r))" by simp
  from trace_inv_step [OF this, of x] snoc.prems show ?case by (simp add: record_all_def)
qed

section \<open>Reconvergence points\<close>

lemma fold_last_index:
  "fold (\<lambda>i found. if P i then Some i else found) [0..<n] None =
    (if {i. i < n \<and> P i} = {} then None else Some (Max {i. i < n \<and> P i}))"
proof (induction n)
  case 0
  then show ?case by simp
next
  case (Suc n)
  show ?case
  proof (cases "P n")
    case True
    then have "{i. i < Suc n \<and> P i} = insert n {i. i < n \<and> P i}" by (auto simp: less_Suc_eq)
    moreover have "Max (insert n {i. i < n \<and> P i}) = n" by (rule Max_eqI) auto
    ultimately show ?thesis using True by simp
  next
    case False
    then have "{i. i < Suc n \<and> P i} = {i. i < n \<and> P i}" by (auto simp: less_Suc_eq)
    then show ?thesis using Suc.IH False by simp
  qed
qed

definition flr_loads :: "addr \<Rightarrow> recorder \<Rightarrow> nat set" where
  "flr_loads pc r = {i. i < rc_count r \<and> up_load (rc_uops r ! i) \<and> up_pc (rc_uops r ! i) = pc}"

definition loop_branches :: "nat \<Rightarrow> addr \<Rightarrow> recorder \<Rightarrow> nat set" where
  "loop_branches flr pc r =
     {i. flr < i \<and> i < rc_count r \<and> up_conditional (rc_uops r ! i) \<and> up_pc (rc_uops r ! i) = pc}"

lemma flrIndex_Max:
  "Recorder_flrIndex pc r = (if flr_loads pc r = {} then None else Some (Max (flr_loads pc r)))"
  unfolding Recorder_flrIndex_def flr_loads_def by (rule fold_last_index)

lemma lcrIndex_before:
  "i < Recorder_lcrIndex flr pc r \<longleftrightarrow> i < rc_count r \<and> (\<forall>j \<in> loop_branches flr pc r. i < j)"
proof (cases "List.find (\<lambda>i. up_conditional (rc_uops r ! i) \<and> up_pc (rc_uops r ! i) = pc) [flr + 1..<rc_count r]")
  case None
  then have "loop_branches flr pc r = {}" by (auto simp: find_upt_None loop_branches_def)
  with None show ?thesis by (simp add: Recorder_lcrIndex_def)
next
  case (Some k)
  then have k: "flr < k" "k < rc_count r" "k \<in> loop_branches flr pc r"
    by (auto simp: find_upt_Some loop_branches_def)
  have first: "k \<le> j" if "j \<in> loop_branches flr pc r" for j
  proof (rule ccontr)
    assume "\<not> k \<le> j"
    with Some that show False by (auto simp: find_upt_Some loop_branches_def Suc_le_eq not_le)
  qed
  have "Recorder_lcrIndex flr pc r = k" using Some by (simp add: Recorder_lcrIndex_def)
  with k first show ?thesis by (auto intro: less_le_trans)
qed

lemma lcrIndex_le: "Recorder_lcrIndex flr pc r \<le> rc_count r"
  by (auto simp: Recorder_lcrIndex_def find_upt_Some split: option.splits)

lemma lcrIndex_count: "Recorder_lcrIndex flr pc r = rc_count r \<longleftrightarrow> loop_branches flr pc r = {}"
  by (auto simp: Recorder_lcrIndex_def find_upt_Some find_upt_None loop_branches_def split: option.splits)

definition new_boundary :: "addr \<Rightarrow> addr \<Rightarrow> recorder \<Rightarrow> nat \<Rightarrow> addr" where
  "new_boundary flr loop r i =
     (let f = Max (flr_loads flr r) in
      if i \<le> f then flr
      else if loop \<noteq> 0 \<and> (\<forall>j \<in> loop_branches f loop r. i < j) then loop
      else up_reconvergencePC (rc_uops r ! i))"

lemma setReconvergence_uops:
  assumes ok: "recorder_ok r" and flr: "flr \<noteq> 0" "flr_loads flr r \<noteq> {}" and i: "i < MaxUops"
  shows "rc_uops (Recorder_setReconvergencePC flr loop r) ! i =
    (if i < rc_count r \<and> up_conditional (rc_uops r ! i)
     then (rc_uops r ! i)\<lparr>up_reconvergencePC := new_boundary flr loop r i\<rparr> else rc_uops r ! i)"
proof -
  define f where "f = Max (flr_loads flr r)"
  define l where "l = (if loop \<noteq> 0 then Recorder_lcrIndex f loop r else rc_count r)"
  define b where "b = (\<lambda>i. i \<le> f \<or> i < l \<and> loop \<noteq> 0)"
  define g where "g = (\<lambda>i (u::uop). u\<lparr>up_reconvergencePC := if i \<le> f then flr else loop\<rparr>)"
  have idx: "Recorder_flrIndex flr r = Some f" using flr by (simp add: flrIndex_Max f_def)
  have step: "(\<lambda>i us. if \<not> up_conditional (us ! i) then us
       else if i \<le> f then us[i := (us ! i)\<lparr>up_reconvergencePC := flr\<rparr>]
       else if i < l \<and> loop \<noteq> 0 then us[i := (us ! i)\<lparr>up_reconvergencePC := loop\<rparr>] else us) =
     (\<lambda>i us. if up_conditional (us ! i) \<and> b i then us[i := g i (us ! i)] else us)"
    by (intro ext) (auto simp: b_def g_def)
  have us: "rc_uops (Recorder_setReconvergencePC flr loop r) =
    fold (\<lambda>i us. if up_conditional (us ! i) \<and> b i then us[i := g i (us ! i)] else us) [0..<rc_count r] (rc_uops r)"
    using flr(1) idx step by (simp add: Recorder_setReconvergencePC_def Let_def l_def [symmetric])
  have len: "rc_count r \<le> length (rc_uops r)" "length (rc_uops r) = MaxUops" using ok by (simp_all add: recorder_ok_def)
  have "rc_uops (Recorder_setReconvergencePC flr loop r) ! i =
    (if i < rc_count r \<and> up_conditional (rc_uops r ! i) \<and> b i then g i (rc_uops r ! i) else rc_uops r ! i)"
    unfolding us using fold_map_update [OF len(1), of "\<lambda>u i. up_conditional u \<and> b i" g] i len(2) by simp
  moreover have "b i \<longleftrightarrow> i \<le> f \<or> loop \<noteq> 0 \<and> (\<forall>j \<in> loop_branches f loop r. i < j)" if "i < rc_count r"
    using that by (auto simp: b_def l_def lcrIndex_before)
  ultimately show ?thesis
    by (auto simp: g_def new_boundary_def f_def [symmetric] Let_def)
qed

lemma between_iff:
  assumes "flr \<noteq> 0" "loop \<noteq> 0" "flr_loads flr r \<noteq> {}"
  shows "Recorder_hasConditionalBetween flr loop r \<longleftrightarrow>
    (let f = Max (flr_loads flr r) in loop_branches f loop r \<noteq> {} \<and>
      (\<exists>i. f < i \<and> (\<forall>j \<in> loop_branches f loop r. i < j) \<and> i < rc_count r \<and> up_conditional (rc_uops r ! i)))"
proof -
  define f where "f = Max (flr_loads flr r)"
  have idx: "Recorder_flrIndex flr r = Some f" using assms(3) by (simp add: flrIndex_Max f_def)
  have "Recorder_hasConditionalBetween flr loop r \<longleftrightarrow> loop_branches f loop r \<noteq> {} \<and>
     (\<exists>i. f < i \<and> i < Recorder_lcrIndex f loop r \<and> up_conditional (rc_uops r ! i))"
    using assms(1,2)
    unfolding Recorder_hasConditionalBetween_def idx Let_def lcrIndex_count list_ex_iff
    by (auto simp: Suc_le_eq)
  then show ?thesis unfolding f_def [symmetric] Let_def lcrIndex_before by blast
qed

section \<open>Resources\<close>

definition resource_total :: "resource_counts \<Rightarrow> nat" where
  "resource_total c = rs_alu c + rs_shift c + rs_multiply c + rs_lsu c"

lemma count_resource_total: "resource_total (count_resource u c) = Suc (resource_total c)"
  by (simp add: count_resource_def resource_total_def)

lemma resource_total_fold: "resource_total (fold (\<lambda>i. count_resource (f i)) is c) = length is + resource_total c"
  by (induction "is" arbitrary: c) (simp_all add: count_resource_total)

section \<open>Properties\<close>

text \<open>
  What a recording contains, for any trace of instructions with nonzero PCs:
  the first 256 of them, in order, each as the decoded operation with the PC of the next
  instruction of the trace as the reconvergence point of a conditional branch; the overflow
  flag is set exactly if there were more, and the resource counts add up to the size.
\<close>

theorem recording_trace:
  assumes "\<forall>y \<in> set l. di_pc (fst y) \<noteq> 0"
  shows "let r' = record_all l (Recorder_reset r) in
    rc_count r' = min (length l) 256 \<and> rc_overflowed r' = (length l > 256) \<and>
    program r' = map (recorded_uop l) [0..<min (length l) 256] \<and>
    resource_total (Recorder_resourceCounts r') = rc_count r'"
proof -
  let ?r = "record_all l (Recorder_reset r)"
  have inv: "trace_inv l ?r" by (rule trace_inv_run [OF assms])
  then have "program ?r = map (recorded_uop l) [0..<min (length l) 256]"
    by (intro nth_equalityI) (simp_all add: trace_inv_def program_def)
  moreover have "resource_total (Recorder_resourceCounts ?r) = rc_count ?r"
    unfolding Recorder_resourceCounts_def resource_total_fold by (simp add: resource_total_def)
  ultimately show ?thesis using inv by (simp add: trace_inv_def Let_def)
qed

text \<open>
  Appending an alternate path keeps every existing operation where it is: a
  successful \<open>insertBeforePC\<close> yields the old program followed by the path within the capacity,
  and the first operation with any PC of the old program is unchanged, so no existing control
  transfer is redirected. A failed one changes nothing.
\<close>

theorem insert_preserves_lookup:
  assumes "recorder_ok r" and "Recorder_insertBeforePC reconv path r = (s, r')"
  shows "(if s then program r' = program r @ path \<and> rc_count r' \<le> 256 else r' = r) \<and> recorder_ok r' \<and>
    (pc \<in> up_pc ` set (program r) \<longrightarrow>
       List.find (\<lambda>u. up_pc u = pc) (program r') = List.find (\<lambda>u. up_pc u = pc) (program r))"
proof (cases s)
  case True
  have "Recorder_insertBeforePC reconv path r = (True, r')" using assms(2) True by simp
  note p = insert_program [OF assms(1) this]
  have "List.find (\<lambda>u. up_pc u = pc) (xs @ ys) = List.find (\<lambda>u. up_pc u = pc) xs"
    if "pc \<in> up_pc ` set xs" for xs ys using that by (induction xs) auto
  with True p show ?thesis by (auto simp: recorder_ok_def MaxUops_def)
next
  case False
  then have "r' = r" using assms(2) by (auto simp: Recorder_insertBeforePC_def split: if_splits)
  with False assms(1) show ?thesis by simp
qed

text \<open>
  The FLR/LCR policy: if the template has a load at the FLR, the reconvergence
  point of a conditional branch becomes the FLR up to the last such load, the loop branch
  strictly before the first loop branch behind that load, and is kept otherwise; nothing else
  changes. If that loop branch exists, \<open>hasConditionalBetween\<close> tells exactly whether some branch
  behind the FLR is affected.
\<close>

theorem reconvergence_policy:
  assumes "recorder_ok r" and "flr \<noteq> 0" and "flr_loads flr r \<noteq> {}"
  shows "(\<forall>i < 256. rc_uops (Recorder_setReconvergencePC flr loop r) ! i =
      (if i < rc_count r \<and> up_conditional (rc_uops r ! i)
       then (rc_uops r ! i)\<lparr>up_reconvergencePC := new_boundary flr loop r i\<rparr> else rc_uops r ! i)) \<and>
    (loop \<noteq> 0 \<and> loop_branches (Max (flr_loads flr r)) loop r \<noteq> {} \<longrightarrow>
      (Recorder_hasConditionalBetween flr loop r \<longleftrightarrow>
        (\<exists>i < rc_count r. up_conditional (rc_uops r ! i) \<and> Max (flr_loads flr r) < i \<and>
          (\<forall>j \<in> loop_branches (Max (flr_loads flr r)) loop r. i < j))))"
  using setReconvergence_uops [OF assms] between_iff [OF assms(2) _ assms(3), of loop]
  by (auto simp: MaxUops_def Let_def)

section \<open>Witnesses\<close>

definition demo_inst :: "addr \<Rightarrow> bool \<Rightarrow> bool \<Rightarrow> dyn_inst" where
  "demo_inst pc ld br = \<lparr>di_pc = pc, di_srcRegs = [], di_destRegs = [], di_isLoad = ld, di_isControl = br,
     di_isCondCtrl = br, di_isDirectCtrl = br, di_branchTarget = 8, di_branching = False, di_encoding = (0, 0)\<rparr>"

definition demo_trace :: trace where
  "demo_trace = [(demo_inst 16 True False, False), (demo_inst 20 False True, True), (demo_inst 24 True False, True)]"

definition demo_recording :: recorder where
  "demo_recording = record_all demo_trace (Recorder_reset Recorder_empty)"

lemma demo_pcs: "\<forall>y \<in> set demo_trace. di_pc (fst y) \<noteq> 0"
  by (simp add: demo_trace_def demo_inst_def)

lemma demo_program: "program demo_recording = map (recorded_uop demo_trace) [0..<3]" "rc_count demo_recording = 3"
  "length (rc_uops demo_recording) = 256"
  using trace_inv_run [OF demo_pcs, of Recorder_empty]
  by (auto simp: demo_recording_def trace_inv_def demo_trace_def program_def intro!: nth_equalityI)


end
