(* ===== verification/DVR_Rename.thy ===== *)
theory DVR_Rename
  imports DVR_Recorder
begin

unbundle bit_operations_syntax

text \<open>
  \<open>DVRVectorRenameTable\<close> (\<open>src/code/gem5-runahead-dev-pre/src/cpu/o3/pre.hh\<close> 389-407 and
  \<open>pre.cc\<close> 1213-1255): the vector register allocation table. An architectural register has one
  mapping per chunk of 16 lanes, \<open>-1\<close> for a scalar; \<open>build\<close> walks the recorded program and gives
  every chunk of every destination the next of 128 physical registers, modulo 128.
\<close>

section \<open>Model\<close>

definition NumArchitecturalRegs :: nat where
  "NumArchitecturalRegs = 32"

definition NumChunks :: nat where
  "NumChunks = 8"

definition NumPhysicalRegs :: nat where
  "NumPhysicalRegs = 128"

record rename_table =
  vt_mapping :: "int list list"
  vt_next :: nat

definition Rename_reset :: "rename_table \<Rightarrow> rename_table" where
  "Rename_reset t = t\<lparr>vt_mapping := replicate NumArchitecturalRegs (replicate NumChunks (- 1)), vt_next := 0\<rparr>"

definition Rename_new :: rename_table where
  "Rename_new = Rename_reset \<lparr>vt_mapping = replicate NumArchitecturalRegs (replicate NumChunks 0), vt_next = 0\<rparr>"

text \<open>The chunk count, computed in 32-bit unsigned arithmetic.\<close>

definition Rename_chunks :: "u32 \<Rightarrow> nat" where
  "Rename_chunks lanes = min NumChunks (unat ((lanes + 15) div 16))"

definition Rename_assign :: "nat \<Rightarrow> nat \<Rightarrow> rename_table \<times> nat \<Rightarrow> rename_table \<times> nat" where
  "Rename_assign reg chunk s =
     (let (t, allocations) = s; m = vt_mapping t
      in (t\<lparr>vt_mapping := m[reg := (m ! reg)[chunk := int (vt_next t mod NumPhysicalRegs)]],
            vt_next := vt_next t + 1\<rparr>, allocations + 1))"

definition Rename_build :: "recorder \<Rightarrow> u32 \<Rightarrow> rename_table \<Rightarrow> nat \<times> rename_table" where
  "Rename_build r lanes t0 =
     (let chunks = Rename_chunks lanes;
          (t, allocations) =
            fold (\<lambda>i s.
              let destinations = up_intDestinations (rc_uops r ! i)
              in fold (\<lambda>reg s. if \<not> reg_member reg destinations then s
                         else fold (\<lambda>chunk s. Rename_assign reg chunk s) [0..<chunks] s)
                   [0..<NumArchitecturalRegs] s)
              [0..<rc_count r] (Rename_reset t0, 0)
      in (allocations, t))"

text \<open>\<open>lookup\<close> asserts its bounds: \<open>None\<close> is the failed assertion.\<close>

definition Rename_lookup :: "nat \<Rightarrow> nat \<Rightarrow> rename_table \<Rightarrow> int option" where
  "Rename_lookup architectural chunk t =
     (if architectural < NumArchitecturalRegs \<and> chunk < NumChunks
      then Some (vt_mapping t ! architectural ! chunk) else None)"

section \<open>The order of the allocations\<close>

definition written_regs :: "uop \<Rightarrow> nat list" where
  "written_regs u = filter (\<lambda>reg. reg_member reg (up_intDestinations u)) [0..<32]"

definition allocations :: "uop list \<Rightarrow> nat \<Rightarrow> (nat \<times> nat) list" where
  "allocations us chunks = concat (map (\<lambda>u. List.product (written_regs u) [0..<chunks]) us)"

lemma fold_filter: "fold (\<lambda>x s. if \<not> P x then s else f x s) xs s = fold f (filter P xs) s"
  by (induction xs arbitrary: s) auto

lemma fold_product: "fold (\<lambda>x s. fold (\<lambda>y s. f x y s) ys s) xs s = fold (\<lambda>(x, y) s. f x y s) (List.product xs ys) s"
  by (induction xs arbitrary: s) (auto simp: fold_map o_def)

lemma fold_concat_map: "fold (\<lambda>x s. fold f (g x) s) xs s = fold f (concat (map g xs)) s"
  by (induction xs arbitrary: s) auto

lemma fold_program:
  assumes "recorder_ok r"
  shows "fold (\<lambda>i. f (rc_uops r ! i)) [0..<rc_count r] s = fold f (program r) s"
proof -
  have "map ((!) (rc_uops r)) [0..<rc_count r] = program r"
    using assms by (auto simp: program_def recorder_ok_def intro!: nth_equalityI)
  then show ?thesis by (simp add: fold_map o_def flip: \<open>map _ _ = _\<close>)
qed

lemma build_fold:
  assumes "recorder_ok r"
  shows "Rename_build r lanes t =
    (let (t', n) = fold (\<lambda>(reg, chunk). Rename_assign reg chunk) (allocations (program r) (Rename_chunks lanes))
                     (Rename_reset t, 0) in (n, t'))"
  unfolding Rename_build_def Let_def fold_filter fold_product NumArchitecturalRegs_def
    written_regs_def [symmetric] allocations_def fold_concat_map [symmetric]
  by (subst fold_program [OF assms, where f = "\<lambda>u s. fold (\<lambda>(x, y). Rename_assign x y)
        (List.product (written_regs u) [0..<Rename_chunks lanes]) s"]) (simp add: case_prod_beta')

lemma set_allocations:
  "(reg, chunk) \<in> set (allocations us chunks) \<longleftrightarrow>
    reg < 32 \<and> chunk < chunks \<and> (\<exists>u \<in> set us. reg_member reg (up_intDestinations u))"
  by (auto simp: allocations_def written_regs_def)

definition mapping_ok :: "rename_table \<Rightarrow> bool" where
  "mapping_ok t \<longleftrightarrow> length (vt_mapping t) = 32 \<and> (\<forall>row \<in> set (vt_mapping t). length row = 8)"

text \<open>After the allocations \<open>ws\<close> from a fresh table, an entry is the index of its last one, modulo 128.\<close>

definition assigned :: "(nat \<times> nat) list \<Rightarrow> rename_table \<Rightarrow> bool" where
  "assigned ws t \<longleftrightarrow> vt_next t = length ws \<and>
     (\<forall>reg < 32. \<forall>chunk < 8. (reg, chunk) \<notin> set ws \<longrightarrow> vt_mapping t ! reg ! chunk = - 1) \<and>
     (\<forall>reg < 32. \<forall>chunk < 8. (reg, chunk) \<in> set ws \<longrightarrow>
        (\<exists>k < length ws. ws ! k = (reg, chunk) \<and> (reg, chunk) \<notin> set (drop (Suc k) ws) \<and>
           vt_mapping t ! reg ! chunk = int (k mod 128)))"

lemma assigned_step:
  assumes ok: "mapping_ok t" and a: "assigned ws t" and w: "reg < 32" "chunk < 8"
  shows "mapping_ok (fst (Rename_assign reg chunk (t, n)))"
    and "assigned (ws @ [(reg, chunk)]) (fst (Rename_assign reg chunk (t, n)))"
proof -
  let ?t = "fst (Rename_assign reg chunk (t, n))"
  have row: "length (vt_mapping t ! reg) = 8" using ok w by (simp add: mapping_ok_def)
  have m: "vt_mapping ?t = (vt_mapping t)[reg := (vt_mapping t ! reg)[chunk := int (length ws mod 128)]]"
    "vt_next ?t = Suc (length ws)"
    using a by (simp_all add: Rename_assign_def Let_def assigned_def NumPhysicalRegs_def)
  show "mapping_ok ?t" using ok row by (auto simp: mapping_ok_def m dest: set_update_subset_insert [THEN subsetD])
  have entry: "vt_mapping ?t ! r ! c =
      (if (r, c) = (reg, chunk) then int (length ws mod 128) else vt_mapping t ! r ! c)" if "r < 32" "c < 8" for r c
    using that ok row w by (auto simp: m mapping_ok_def nth_list_update)
  have "\<exists>k < length (ws @ [(reg, chunk)]). (ws @ [(reg, chunk)]) ! k = (r, c) \<and>
      (r, c) \<notin> set (drop (Suc k) (ws @ [(reg, chunk)])) \<and> vt_mapping ?t ! r ! c = int (k mod 128)"
    if rc: "r < 32" "c < 8" "(r, c) \<in> set (ws @ [(reg, chunk)])" for r c
  proof (cases "(r, c) = (reg, chunk)")
    case True
    then show ?thesis using entry rc by (intro exI [of _ "length ws"]) auto
  next
    case False
    then have "(r, c) \<in> set ws" using rc by auto
    then obtain k where "k < length ws" "ws ! k = (r, c)" "(r, c) \<notin> set (drop (Suc k) ws)"
        "vt_mapping t ! r ! c = int (k mod 128)"
      using a rc(1,2) unfolding assigned_def by blast
    then show ?thesis using False entry rc by (intro exI [of _ k]) (auto simp: nth_append)
  qed
  then show "assigned (ws @ [(reg, chunk)]) ?t" using a entry by (auto simp: assigned_def m)
qed

lemma assigned_run:
  assumes "\<forall>(reg, chunk) \<in> set ws. reg < 32 \<and> chunk < 8"
  shows "\<exists>t'. fold (\<lambda>(reg, chunk). Rename_assign reg chunk) ws (Rename_reset t, 0) = (t', length ws) \<and>
    mapping_ok t' \<and> assigned ws t'"
  using assms
proof (induction ws rule: rev_induct)
  case Nil
  then show ?case
    by (simp add: Rename_reset_def mapping_ok_def assigned_def NumArchitecturalRegs_def NumChunks_def)
next
  case (snoc w ws)
  obtain reg chunk where w: "w = (reg, chunk)" "reg < 32" "chunk < 8" using snoc.prems by (cases w) auto
  obtain t' where t': "fold (\<lambda>(reg, chunk). Rename_assign reg chunk) ws (Rename_reset t, 0) = (t', length ws)"
      "mapping_ok t'" "assigned ws t'" using snoc by auto
  have "snd (Rename_assign reg chunk (t', length ws)) = Suc (length ws)" by (simp add: Rename_assign_def Let_def)
  then show ?case using assigned_step [OF t'(2,3) w(2,3), of "length ws"] t'(1) w
    by (cases "Rename_assign reg chunk (t', length ws)") auto
qed

lemma build_assigned:
  assumes "recorder_ok r"
  obtains t' where "Rename_build r lanes t = (length (allocations (program r) (Rename_chunks lanes)), t')"
    "assigned (allocations (program r) (Rename_chunks lanes)) t'"
proof -
  have "\<forall>(reg, chunk) \<in> set (allocations (program r) (Rename_chunks lanes)). reg < 32 \<and> chunk < 8"
    by (auto simp: set_allocations Rename_chunks_def NumChunks_def)
  from assigned_run [OF this, of t] show ?thesis using that unfolding build_fold [OF assms] by auto
qed

lemma assigned_inj:
  assumes a: "assigned ws t" and short: "length ws \<le> 128" and in_range: "\<forall>(reg, chunk) \<in> set ws. reg < 32 \<and> chunk < 8"
  shows "inj_on (\<lambda>(reg, chunk). Rename_lookup reg chunk t) (set ws)"
proof (rule inj_onI, clarify)
  fix r c r' c'
  assume in_ws: "(r, c) \<in> set ws" "(r', c') \<in> set ws" and eq: "Rename_lookup r c t = Rename_lookup r' c' t"
  have b: "r < 32" "c < 8" "r' < 32" "c' < 8" using in_ws in_range by auto
  obtain k where k: "k < length ws" "ws ! k = (r, c)" "vt_mapping t ! r ! c = int (k mod 128)"
    using a b in_ws unfolding assigned_def by blast
  obtain k' where k': "k' < length ws" "ws ! k' = (r', c')" "vt_mapping t ! r' ! c' = int (k' mod 128)"
    using a b in_ws unfolding assigned_def by blast
  have "k = k'" using eq k k' b short by (simp add: Rename_lookup_def NumArchitecturalRegs_def NumChunks_def)
  then show "r = r' \<and> c = c'" using k k' by simp
qed

section \<open>Property\<close>

text \<open>
  What \<open>build\<close> leaves in the table, for any recording and lane count: one
  allocation per chunk of every destination in program order; a chunk of a register is scalar
  (\<open>-1\<close>) exactly if no operation writes the register or the chunk has no lane, and otherwise holds
  the index of the last allocation made for it, modulo 128. With at most 128 allocations
  different chunks have different physical registers.
\<close>

theorem vrat_allocation:
  assumes "recorder_ok r" and "Rename_build r lanes t = (n, t')" and "reg < 32" and "chunk < 8"
  defines "ws \<equiv> allocations (program r) (Rename_chunks lanes)"
  shows "n = length ws \<and>
    (Rename_lookup reg chunk t' = Some (- 1)) =
      (\<not> (chunk < Rename_chunks lanes \<and> (\<exists>u \<in> set (program r). reg_member reg (up_intDestinations u)))) \<and>
    ((reg, chunk) \<in> set ws \<longrightarrow> (\<exists>k < n. ws ! k = (reg, chunk) \<and> (reg, chunk) \<notin> set (drop (Suc k) ws) \<and>
       Rename_lookup reg chunk t' = Some (int (k mod 128)))) \<and>
    (n \<le> 128 \<longrightarrow> inj_on (\<lambda>(reg, chunk). Rename_lookup reg chunk t') (set ws))"
proof -
  have n: "n = length ws" and a: "assigned ws t'"
    using build_assigned [OF assms(1), of lanes t] assms(2) unfolding ws_def by auto
  have look: "Rename_lookup reg chunk t' = Some (vt_mapping t' ! reg ! chunk)"
    using assms(3,4) by (simp add: Rename_lookup_def NumArchitecturalRegs_def NumChunks_def)
  have in_ws: "(reg, chunk) \<in> set ws \<longrightarrow> (\<exists>k < n. ws ! k = (reg, chunk) \<and>
      (reg, chunk) \<notin> set (drop (Suc k) ws) \<and> Rename_lookup reg chunk t' = Some (int (k mod 128)))"
    unfolding look option.inject n using a assms(3,4) unfolding assigned_def by blast
  have "(reg, chunk) \<notin> set ws \<Longrightarrow> Rename_lookup reg chunk t' = Some (- 1)"
    using a assms(3,4) by (simp add: assigned_def look)
  then have "(Rename_lookup reg chunk t' = Some (- 1)) = ((reg, chunk) \<notin> set ws)" using in_ws by auto
  moreover have "\<forall>(reg, chunk) \<in> set ws. reg < 32 \<and> chunk < 8"
    by (auto simp: ws_def set_allocations Rename_chunks_def NumChunks_def)
  ultimately show ?thesis
    using n in_ws assigned_inj [OF a] assms(3) by (simp add: ws_def set_allocations)
qed

section \<open>Witness\<close>

definition demo_writer :: uop where
  "demo_writer = empty_uop\<lparr>up_intDestinations := 0x0C\<rparr>"

definition demo_writers :: recorder where
  "demo_writers = Recorder_import [demo_writer, demo_writer] 2 Recorder_empty"


end
