(* ===== verification/DVR_LoopBound.thy ===== *)
theory DVR_LoopBound
  imports DVR_Uop
begin

unbundle bit_operations_syntax

text \<open>
  \<open>DVRLoopBoundDetector\<close> (\<open>src/code/gem5-runahead-dev-pre/src/cpu/o3/pre.hh\<close> 527-596 and \<open>pre.cc\<close>
  2373-2678): it finds the backward branch that encloses the dependence chain with its compare,
  and infers from two register snapshots how many iterations are left. Register indices that
  the code initialises with \<open>-1\<close> are integers.
\<close>

section \<open>Model\<close>

datatype comparison =
  Unknown | Equal | NotEqual | SignedLess | SignedGreaterEqual | UnsignedLess | UnsignedGreaterEqual

type_synonym register_snapshot = "reg_val list"

definition MaxArchitecturalIntRegs :: nat where
  "MaxArchitecturalIntRegs = 32"

record loop_bound =
  lb_triggerPC :: addr
  lb_finalLoadPC :: addr
  lb_lastComparePC :: addr
  lb_loopBranchPC :: addr
  lb_loopTargetPC :: addr
  lb_source0 :: int
  lb_source1 :: int
  lb_compareDestination :: int
  lb_branchValue0 :: reg_val
  lb_branchValue1 :: reg_val
  lb_branchValuesValid :: bool
  lb_comparison :: comparison
  lb_seenBranch :: bool
  lb_earlyExitSeen :: bool

record loop_observation =
  lo_backwardBranch :: bool
  lo_boundFound :: bool

record inference =
  in_matched :: bool
  in_fallback :: bool
  in_bound :: u64
  in_increment :: i64
  in_remaining :: u64
  in_lanes :: nat

definition no_observation :: loop_observation where
  "no_observation = \<lparr>lo_backwardBranch = False, lo_boundFound = False\<rparr>"

definition LB_updateFinalLoad :: "addr \<Rightarrow> loop_bound \<Rightarrow> loop_bound" where
  "LB_updateFinalLoad final_load_pc b =
     b\<lparr>lb_finalLoadPC := final_load_pc, lb_lastComparePC := 0, lb_loopBranchPC := 0, lb_loopTargetPC := 0,
       lb_source0 := - 1, lb_source1 := - 1, lb_compareDestination := - 1, lb_branchValue0 := 0,
       lb_branchValue1 := 0, lb_branchValuesValid := False, lb_comparison := Unknown,
       lb_seenBranch := False, lb_earlyExitSeen := False\<rparr>"

definition LB_reset :: "loop_bound \<Rightarrow> loop_bound" where
  "LB_reset b =
     b\<lparr>lb_triggerPC := 0, lb_finalLoadPC := 0, lb_lastComparePC := 0, lb_loopBranchPC := 0,
       lb_loopTargetPC := 0, lb_source0 := - 1, lb_source1 := - 1, lb_compareDestination := - 1,
       lb_branchValue0 := 0, lb_branchValue1 := 0, lb_branchValuesValid := False,
       lb_comparison := Unknown, lb_seenBranch := False, lb_earlyExitSeen := False\<rparr>"

definition LB_begin :: "addr \<Rightarrow> loop_bound \<Rightarrow> loop_bound" where
  "LB_begin trigger_pc b = (LB_reset b)\<lparr>lb_triggerPC := trigger_pc\<rparr>"

definition LB_hasBound :: "loop_bound \<Rightarrow> bool" where
  "LB_hasBound b = lb_seenBranch b"

text \<open>The integer operands; \<open>LB_operand k\<close> is the \<open>k\<close>-th, or \<open>-1\<close>.\<close>

definition LB_intIndices :: "reg_id list \<Rightarrow> nat list" where
  "LB_intIndices rs = map ri_index (filter (\<lambda>r. ri_class r = IntRegClass) rs)"

definition LB_operand :: "nat \<Rightarrow> nat list \<Rightarrow> int" where
  "LB_operand k xs = (if k < length xs then int (xs ! k) else - 1)"

text \<open>A register-register \<open>SLT\<close> or \<open>SLTU\<close> behind the FLR.\<close>

definition LB_compare :: "dyn_inst \<Rightarrow> u64 \<Rightarrow> loop_bound \<Rightarrow> loop_bound" where
  "LB_compare inst funct3 b =
     (let sources = LB_intIndices (di_srcRegs inst);
          destination = LB_operand 0 (LB_intIndices (di_destRegs inst))
      in if length sources \<ge> 2 \<and> destination \<ge> 0
         then b\<lparr>lb_lastComparePC := di_pc inst, lb_source0 := LB_operand 0 sources,
                lb_source1 := LB_operand 1 sources, lb_compareDestination := destination,
                lb_comparison := (if funct3 = 2 then SignedLess else UnsignedLess),
                lb_branchValuesValid := False\<rparr>
         else b)"

definition LB_consumesCompare :: "nat list \<Rightarrow> loop_bound \<Rightarrow> bool" where
  "LB_consumesCompare sources b \<longleftrightarrow>
     lb_compareDestination b \<ge> 0 \<and> length sources \<ge> 2 \<and>
     (LB_operand 0 sources = lb_compareDestination b \<and> LB_operand 1 sources = 0 \<or>
      LB_operand 1 sources = lb_compareDestination b \<and> LB_operand 0 sources = 0)"

text \<open>A fused compare and branch, as a virtual compare of its own operands.\<close>

definition LB_virtualComparison :: "u64 \<Rightarrow> comparison" where
  "LB_virtualComparison funct3 =
     (if funct3 = 1 then NotEqual else if funct3 = 4 then SignedLess
      else if funct3 = 5 then SignedGreaterEqual else if funct3 = 6 then UnsignedLess
      else UnsignedGreaterEqual)"

definition LB_virtual :: "addr \<Rightarrow> u64 \<Rightarrow> nat list \<Rightarrow> loop_bound \<Rightarrow> loop_bound" where
  "LB_virtual pc funct3 sources b =
     b\<lparr>lb_comparison := LB_virtualComparison funct3, lb_lastComparePC := pc,
       lb_source0 := LB_operand 0 sources, lb_source1 := LB_operand 1 sources,
       lb_compareDestination := - 1\<rparr>"

text \<open>
  Closing the loop. Reading a snapshot outside its 32 registers is undefined in the code: the
  result is then \<open>None\<close>.
\<close>

definition LB_invert :: "comparison \<Rightarrow> comparison" where
  "LB_invert c = (if c = SignedLess then SignedGreaterEqual
     else if c = UnsignedLess then UnsignedGreaterEqual else c)"

definition LB_read :: "register_snapshot \<Rightarrow> int \<Rightarrow> reg_val option" where
  "LB_read regs i = (if 0 \<le> i \<and> i < int MaxArchitecturalIntRegs then Some (regs ! nat i) else None)"

definition LB_close :: "addr \<Rightarrow> addr \<Rightarrow> u64 \<Rightarrow> register_snapshot option \<Rightarrow> loop_bound \<Rightarrow> loop_bound option" where
  "LB_close pc target funct3 regs b =
     (let b1 = (if funct3 = 0 then b\<lparr>lb_comparison := LB_invert (lb_comparison b)\<rparr> else b);
          b2 = b1\<lparr>lb_loopBranchPC := pc, lb_loopTargetPC := target\<rparr>
      in case regs of
           None \<Rightarrow> Some (b2\<lparr>lb_seenBranch := True\<rparr>)
         | Some rs \<Rightarrow>
             (case (LB_read rs (lb_source0 b2), LB_read rs (lb_source1 b2)) of
                (Some v0, Some v1) \<Rightarrow>
                  Some (b2\<lparr>lb_branchValue0 := v0, lb_branchValue1 := v1, lb_branchValuesValid := True,
                           lb_seenBranch := True\<rparr>)
              | _ \<Rightarrow> None))"

definition LB_backward ::
    "dyn_inst \<Rightarrow> addr \<Rightarrow> register_snapshot option \<Rightarrow> loop_bound \<Rightarrow> (loop_observation \<times> loop_bound) option" where
  "LB_backward inst target regs b =
     (let (encoded_size, encoded) = di_encoding inst; opcode = encoded AND 0x7f;
          funct3 = drop_bit 12 encoded AND 0x7; pc = di_pc inst;
          encloses_chain = (lb_finalLoadPC b \<noteq> 0 \<and> target \<le> lb_triggerPC b \<and> pc \<ge> lb_finalLoadPC b);
          sources = LB_intIndices (di_srcRegs inst);
          consumes_compare = (encoded_size \<ge> 4 \<and> opcode = 0x63 \<and> (funct3 = 0 \<or> funct3 = 1) \<and>
            LB_consumesCompare sources b);
          virtual_compare = (\<not> lb_seenBranch b \<and> encoded_size \<ge> 4 \<and> opcode = 0x63 \<and> length sources \<ge> 2 \<and>
            (funct3 = 1 \<or> 4 \<le> funct3 \<and> funct3 \<le> 7));
          b1 = (if virtual_compare then LB_virtual pc funct3 sources b else b);
          closes = (encloses_chain \<and> (consumes_compare \<or> virtual_compare))
      in case (if \<not> lb_seenBranch b1 \<and> closes then LB_close pc target funct3 regs b1 else Some b1) of
           None \<Rightarrow> None
         | Some b2 \<Rightarrow> Some (\<lparr>lo_backwardBranch = True, lo_boundFound = (lb_seenBranch b2 \<and> closes)\<rparr>, b2))"

text \<open>\<open>has_target\<close> tells whether \<open>branchTarget()\<close> returned a state.\<close>

definition LB_observe ::
    "dyn_inst \<Rightarrow> bool \<Rightarrow> register_snapshot option \<Rightarrow> loop_bound \<Rightarrow> (loop_observation \<times> loop_bound) option" where
  "LB_observe inst has_target regs b =
     (let (encoded_size, encoded) = di_encoding inst; opcode = encoded AND 0x7f;
          funct3 = drop_bit 12 encoded AND 0x7; target = di_branchTarget inst
      in if \<not> lb_seenBranch b \<and> lb_finalLoadPC b \<noteq> 0 \<and> encoded_size \<ge> 4 \<and> opcode = 0x33 \<and>
            (funct3 = 2 \<or> funct3 = 3)
         then Some (no_observation, LB_compare inst funct3 b)
         else if \<not> di_isCondCtrl inst \<or> \<not> di_isDirectCtrl inst \<or> \<not> has_target then Some (no_observation, b)
         else
           (let b1 = (if lb_seenBranch b \<and> target > di_pc inst \<and> target > lb_loopBranchPC b
                      then b\<lparr>lb_earlyExitSeen := True\<rparr> else b)
            in if target > di_pc inst then Some (no_observation, b1)
               else LB_backward inst target regs b1))"

subsection \<open>Inference\<close>

definition int64_max :: i64 where
  "int64_max = 0x7fffffffffffffff"

definition signedDelta :: "reg_val \<Rightarrow> reg_val \<Rightarrow> i64" where
  "signedDelta finish_value start_value =
     (if finish_value \<ge> start_value
      then (let delta = finish_value - start_value in if delta > int64_max then int64_max else delta)
      else (let delta = start_value - finish_value in if delta > int64_max then int64_min else - delta))"

text \<open>Which operand is the bound, the current value of the other, and its increment.\<close>

definition LB_select ::
    "register_snapshot \<Rightarrow> register_snapshot \<Rightarrow> loop_bound \<Rightarrow> (reg_val \<times> reg_val \<times> i64) option" where
  "LB_select start finish b =
     (let start0 = start ! nat (lb_source0 b); start1 = start ! nat (lb_source1 b);
          finish0 = finish ! nat (lb_source0 b); finish1 = finish ! nat (lb_source1 b);
          value0 = lb_branchValue0 b; value1 = lb_branchValue1 b
      in if start0 = finish0 \<and> start1 \<noteq> finish1 then Some (finish0, finish1, signedDelta finish1 start1)
         else if start1 = finish1 \<and> start0 \<noteq> finish0 then Some (finish1, finish0, signedDelta finish0 start0)
         else if lb_branchValuesValid b \<and> start0 = value0 \<and> start1 \<noteq> value1
         then Some (value0, value1, signedDelta value1 start1)
         else if lb_branchValuesValid b \<and> start1 = value1 \<and> start0 \<noteq> value0
         then Some (value1, value0, signedDelta value0 start0)
         else None)"

definition LB_magnitude :: "i64 \<Rightarrow> u64" where
  "LB_magnitude increment = (if sint increment > 0 then increment else - (increment + 1) + 1)"

definition LB_distance :: "comparison \<Rightarrow> reg_val \<Rightarrow> reg_val \<Rightarrow> i64 \<Rightarrow> (u64 \<times> u64) option" where
  "LB_distance cmp bound current increment =
     (case cmp of
        SignedLess \<Rightarrow>
          if sint increment \<le> 0 \<or> sint current \<ge> sint bound then None else Some (bound - current, increment)
      | UnsignedLess \<Rightarrow>
          if sint increment \<le> 0 \<or> current \<ge> bound then None else Some (bound - current, increment)
      | SignedGreaterEqual \<Rightarrow>
          if sint increment \<ge> 0 \<or> sint current < sint bound then None
          else Some (current - bound + 1, - (increment + 1) + 1)
      | UnsignedGreaterEqual \<Rightarrow>
          if sint increment \<ge> 0 \<or> current < bound then None
          else Some (current - bound + 1, - (increment + 1) + 1)
      | NotEqual \<Rightarrow>
          if increment = 0 then None
          else
            (let magnitude = LB_magnitude increment;
                 blocked = (if sint increment > 0 then current \<ge> bound else current \<le> bound);
                 distance = (if sint increment > 0 then bound - current else current - bound)
             in if blocked then None
                else if distance = 0 \<or> distance mod magnitude \<noteq> 0 then None
                else Some (distance, magnitude))
      | _ \<Rightarrow> None)"

definition LB_infer :: "register_snapshot \<Rightarrow> register_snapshot \<Rightarrow> nat \<Rightarrow> loop_bound \<Rightarrow> inference" where
  "LB_infer start finish max_lanes b =
     (let inference = \<lparr>in_matched = False, in_fallback = True, in_bound = 0, in_increment = 0,
            in_remaining = 0, in_lanes = min 128 max_lanes\<rparr>
      in if \<not> lb_seenBranch b \<or> lb_earlyExitSeen b \<or> lb_source0 b < 0 \<or> lb_source1 b < 0 \<or>
            lb_source0 b \<ge> int MaxArchitecturalIntRegs \<or> lb_source1 b \<ge> int MaxArchitecturalIntRegs
         then inference
         else case LB_select start finish b of
           None \<Rightarrow> inference
         | Some (bound, current, increment) \<Rightarrow>
             (case LB_distance (lb_comparison b) bound current increment of
                None \<Rightarrow> inference
              | Some (distance, step) \<Rightarrow>
                  (let remaining = (distance + step - 1) div step
                   in inference\<lparr>in_matched := True, in_fallback := False, in_bound := bound,
                        in_increment := increment, in_remaining := remaining,
                        in_lanes := min (unat remaining) max_lanes\<rparr>)))"

section \<open>The iterations that are left\<close>

text \<open>
  The reference: values of a loop whose induction variable starts at \<open>c\<close>, moves by \<open>d\<close> in every
  iteration and is compared with \<open>B\<close>, over the integers. \<open>runs\<close> says that the condition holds for
  exactly the first \<open>n\<close> values.
\<close>

fun continues :: "comparison \<Rightarrow> int \<Rightarrow> int \<Rightarrow> bool" where
  "continues SignedLess x y = (x < y)"
| "continues UnsignedLess x y = (x < y)"
| "continues SignedGreaterEqual x y = (x \<ge> y)"
| "continues UnsignedGreaterEqual x y = (x \<ge> y)"
| "continues NotEqual x y = (x \<noteq> y)"
| "continues Equal x y = (x = y)"
| "continues Unknown x y = False"

definition reading :: "comparison \<Rightarrow> u64 \<Rightarrow> int" where
  "reading cmp w = (if cmp = SignedLess \<or> cmp = SignedGreaterEqual then sint w else uint w)"

definition runs :: "comparison \<Rightarrow> int \<Rightarrow> int \<Rightarrow> int \<Rightarrow> nat \<Rightarrow> bool" where
  "runs cmp c d B n \<longleftrightarrow> (\<forall>k < n. continues cmp (c + int k * d) B) \<and> \<not> continues cmp (c + int n * d) B"

text \<open>The distance to the bound, one more where equality still continues.\<close>

definition gap :: "comparison \<Rightarrow> int \<Rightarrow> int \<Rightarrow> int" where
  "gap cmp c B = \<bar>B - c\<bar> + (if cmp = SignedGreaterEqual \<or> cmp = UnsignedGreaterEqual then 1 else 0)"

lemma ceiling_steps:
  fixes D s k :: int
  assumes "0 < s" "0 < D"
  defines "n \<equiv> (D + s - 1) div s"
  shows "0 \<le> n" "D \<le> n * s" "k < n \<Longrightarrow> k * s < D"
proof -
  show "0 \<le> n" unfolding n_def using pos_imp_zdiv_nonneg_iff [OF assms(1), of "D + s - 1"] assms(1,2) by linarith
  have m: "(D + s - 1) mod s < s" "0 \<le> (D + s - 1) mod s" using assms by simp_all
  have e: "n * s = D + s - 1 - (D + s - 1) mod s" by (simp add: n_def minus_mod_eq_div_mult)
  show "D \<le> n * s" using e m by linarith
  assume "k < n"
  then have "k * s \<le> (n - 1) * s" using assms by (intro mult_right_mono) auto
  then show "k * s < D" using e m by (simp add: left_diff_distrib)
qed

lemma runs_count:
  assumes s: "0 < s" and D: "0 < D"
    and c: "\<And>k. k \<ge> 0 \<Longrightarrow> continues cmp (c + k * d) B \<longleftrightarrow> (if cmp = NotEqual then k * s \<noteq> D else k * s < D)"
    and dvd: "cmp = NotEqual \<Longrightarrow> D mod s = 0"
  shows "runs cmp c d B (nat ((D + s - 1) div s))"
proof -
  note n = ceiling_steps [OF s D]
  have eq: "(D + s - 1) div s * s = D" if ne: "cmp = NotEqual"
  proof -
    obtain q where q: "D = q * s" using dvd [OF ne] by (metis mod_0_imp_dvd dvd_def mult.commute)
    have "(q * s + (s - 1)) div s = q + (s - 1) div s" using s by (metis div_mult_self1 add.commute less_irrefl mult.commute)
    then have "(D + s - 1) div s = q" using s q by (simp add: algebra_simps)
    then show ?thesis using q by simp
  qed
  have "continues cmp (c + int k * d) B" if "k < nat ((D + s - 1) div s)" for k
  proof -
    have "int k * s < D" using n(3) [of "int k"] that by linarith
    then show ?thesis using c [of "int k"] by auto
  qed
  moreover have "\<not> continues cmp (c + int (nat ((D + s - 1) div s)) * d) B"
    using c [OF n(1)] n(1,2) eq by auto
  ultimately show ?thesis by (simp add: runs_def)
qed

lemma uint_magnitude:
  "sint d > 0 \<Longrightarrow> uint d = sint d" "sint d < 0 \<Longrightarrow> uint (- (d + 1) + 1) = - sint d" for d :: i64
proof -
  have range: "sint d < 2 ^ 63" "- (2 ^ 63) \<le> sint d" using sint_lt [of d] sint_ge [of d] by simp_all
  {
    assume "sint d > 0"
    then show "uint d = sint d" using range by (simp add: uint_sint take_bit_int_eq_self)
  next
    assume "sint d < 0"
    moreover have "- (d + 1) + 1 = word_of_int (- sint d)" by simp
    then have "uint (- (d + 1) + 1) = take_bit 64 (- sint d)" by (simp only: uint_word_of_int_eq) simp
    ultimately show "uint (- (d + 1) + 1) = - sint d" using range by (simp add: take_bit_int_eq_self)
  }
qed

lemma wrapped_quotient:
  fixes X s :: int
  assumes "0 < s" "s \<le> 2 ^ 63" "0 \<le> X"
  shows "(X mod 2 ^ 64) div s = X div s \<longleftrightarrow> X < 2 ^ 64"
proof
  assume "X < 2 ^ 64"
  then show "(X mod 2 ^ 64) div s = X div s" using assms by simp
next
  assume eq: "(X mod 2 ^ 64) div s = X div s"
  show "X < 2 ^ 64"
  proof (rule ccontr)
    assume "\<not> X < 2 ^ 64"
    then have "1 \<le> X div 2 ^ 64" using zdiv_mono1 [of "2 ^ 64" X "2 ^ 64"] by simp
    then have "2 ^ 64 * 1 \<le> 2 ^ 64 * (X div 2 ^ 64)" by (rule mult_left_mono) simp
    moreover have "(2 :: int) ^ 63 \<le> 2 ^ 64" by simp
    moreover have "X mod 2 ^ 64 = X - 2 ^ 64 * (X div 2 ^ 64)" by (simp add: minus_mult_div_eq_mod)
    ultimately have "X mod 2 ^ 64 \<le> X - s" using assms(2) by linarith
    then have "(X mod 2 ^ 64) div s \<le> (X - s) div s" using assms(1) by (rule zdiv_mono1)
    also have "\<dots> = X div s - 1" using assms(1) div_mult_self1 [of s X "- 1"] by simp
    finally show False using eq by simp
  qed
qed

text \<open>What \<open>LB_distance\<close> returns, in integers.\<close>

lemma uint_of_int: "uint (word_of_int z :: u64) = z mod 2 ^ 64"
  by (simp add: uint_word_of_int_eq take_bit_eq_mod)

lemma uint_eqI: "w = word_of_int z \<Longrightarrow> uint w = z mod 2 ^ 64" for w :: u64
  by (simp only: uint_of_int)

lemma uint_diff:
  "uint (a - b) = (uint a - uint b) mod 2 ^ 64" "uint (a - b) = (sint a - sint b) mod 2 ^ 64"
  "uint (a - b + 1) = (uint a - uint b + 1) mod 2 ^ 64" "uint (a - b + 1) = (sint a - sint b + 1) mod 2 ^ 64"
  for a b :: u64
  by (rule uint_eqI, simp)+

text \<open>The five comparisons, each with the sign of the increment and the side of the bound it needs.\<close>

lemma distance_cases:
  assumes "LB_distance cmp bound current d = Some (distance, step)"
  defines "c \<equiv> reading cmp current" and "B \<equiv> reading cmp bound"
  shows "cmp \<in> {SignedLess, UnsignedLess} \<and> 0 < sint d \<and> c < B \<or>
    cmp \<in> {SignedGreaterEqual, UnsignedGreaterEqual} \<and> sint d < 0 \<and> B \<le> c \<or>
    cmp = NotEqual \<and> (0 < sint d \<and> c < B \<or> sint d < 0 \<and> B < c)"
    and "uint distance = gap cmp c B mod 2 ^ 64" and "uint step = \<bar>sint d\<bar>"
    and "cmp = NotEqual \<Longrightarrow> distance mod step = 0"
proof -
  have zero: "d \<noteq> 0 \<Longrightarrow> \<not> 0 < sint d \<Longrightarrow> sint d < 0" by (metis linorder_neqE signed_eq_0_iff)
  show "cmp \<in> {SignedLess, UnsignedLess} \<and> 0 < sint d \<and> c < B \<or>
    cmp \<in> {SignedGreaterEqual, UnsignedGreaterEqual} \<and> sint d < 0 \<and> B \<le> c \<or>
    cmp = NotEqual \<and> (0 < sint d \<and> c < B \<or> sint d < 0 \<and> B < c)"
    using assms(1) zero
    by (cases cmp) (auto simp: LB_distance_def c_def B_def reading_def Let_def word_less_def word_le_def not_le not_less
        split: if_splits)
  moreover have "(uint bound - uint current) mod 2 ^ 64 = (sint bound - sint current) mod 2 ^ 64"
    "(uint current - uint bound + 1) mod 2 ^ 64 = (sint current - sint bound + 1) mod 2 ^ 64"
    by (metis uint_diff(1,2)) (metis uint_diff(3,4))
  ultimately show "uint distance = gap cmp c B mod 2 ^ 64"
    using assms(1) by (cases cmp) (auto simp: LB_distance_def c_def B_def reading_def gap_def Let_def uint_diff split: if_splits)
  show "uint step = \<bar>sint d\<bar>"
    using assms(1) zero uint_magnitude [of d]
    by (cases cmp) (auto simp: LB_distance_def LB_magnitude_def Let_def split: if_splits)
  show "cmp = NotEqual \<Longrightarrow> distance mod step = 0"
    using assms(1) by (auto simp: LB_distance_def Let_def split: if_splits)
qed

lemma gap_bound: "gap NotEqual (uint a) (uint b) < 2 ^ 64" for a b :: u64
proof -
  have "\<bar>x - y\<bar> < 2 ^ 64" if "0 \<le> x" "x < 2 ^ 64" "0 \<le> y" "y < 2 ^ 64" for x y :: int using that by linarith
  from this [of "uint b" "uint a"] show ?thesis using unsigned_less [of a] unsigned_less [of b] by (simp add: gap_def)
qed

lemma distance_runs:
  assumes "LB_distance cmp bound current d = Some (distance, step)"
  defines "c \<equiv> reading cmp current" and "B \<equiv> reading cmp bound"
  shows "0 < gap cmp c B" "runs cmp c (sint d) B (nat ((gap cmp c B + \<bar>sint d\<bar> - 1) div \<bar>sint d\<bar>))"
proof -
  note f = distance_cases [OF assms(1), folded c_def B_def]
  show D: "0 < gap cmp c B" using f(1) by (auto simp: gap_def)
  have s: "0 < \<bar>sint d\<bar>" using f(1) by auto
  have dvd: "gap cmp c B mod \<bar>sint d\<bar> = 0" if ne: "cmp = NotEqual"
  proof -
    have "gap cmp c B < 2 ^ 64" using gap_bound ne by (simp add: c_def B_def reading_def)
    then have "uint distance = gap cmp c B" using f(2) D by simp
    moreover have "uint (distance mod step) = uint distance mod uint step" by (rule uint_mod)
    ultimately show ?thesis using f(3,4) ne by simp
  qed
  show "runs cmp c (sint d) B (nat ((gap cmp c B + \<bar>sint d\<bar> - 1) div \<bar>sint d\<bar>))"
  proof (rule runs_count [OF s D _ dvd])
    fix k :: int assume "0 \<le> k"
    show "continues cmp (c + k * sint d) B \<longleftrightarrow>
        (if cmp = NotEqual then k * \<bar>sint d\<bar> \<noteq> gap cmp c B else k * \<bar>sint d\<bar> < gap cmp c B)"
      using f(1) by (auto simp: gap_def)
  qed
qed

section \<open>Property of the inference\<close>


section \<open>The branch that closes the loop\<close>

definition lb_closed :: "loop_bound \<Rightarrow> bool" where
  "lb_closed b \<longleftrightarrow> lb_finalLoadPC b \<noteq> 0 \<and> lb_loopTargetPC b \<le> lb_triggerPC b \<and>
     lb_finalLoadPC b \<le> lb_loopBranchPC b \<and> lb_loopTargetPC b \<le> lb_loopBranchPC b \<and>
     lb_source0 b \<ge> 0 \<and> lb_source1 b \<ge> 0 \<and> lb_comparison b \<notin> {Unknown, Equal}"

definition lb_ok :: "loop_bound \<Rightarrow> bool" where
  "lb_ok b \<longleftrightarrow> (if lb_seenBranch b then lb_closed b
     else lb_compareDestination b \<ge> 0 \<longrightarrow>
       lb_comparison b \<in> {SignedLess, UnsignedLess} \<and> lb_source0 b \<ge> 0 \<and> lb_source1 b \<ge> 0)"

datatype lb_call =
    LB_Begin addr
  | LB_FinalLoad addr
  | LB_Observe dyn_inst bool "register_snapshot option"

fun lb_step :: "lb_call \<Rightarrow> loop_bound \<Rightarrow> loop_bound" where
  "lb_step (LB_Begin pc) b = LB_begin pc b"
| "lb_step (LB_FinalLoad pc) b = LB_updateFinalLoad pc b"
| "lb_step (LB_Observe inst has_target regs) b = (case LB_observe inst has_target regs b of Some (_, b') \<Rightarrow> b' | None \<Rightarrow> b)"

lemma lb_ok_fresh: "lb_ok (LB_begin pc b)" "lb_ok (LB_updateFinalLoad pc b)"
  by (simp_all add: lb_ok_def LB_begin_def LB_reset_def LB_updateFinalLoad_def)

lemma lb_ok_compare: "lb_ok b \<Longrightarrow> \<not> lb_seenBranch b \<Longrightarrow> lb_ok (LB_compare inst f b)"
  by (auto simp: lb_ok_def LB_compare_def LB_operand_def Let_def)

lemma lb_ok_virtual: "\<not> lb_seenBranch b \<Longrightarrow> lb_ok (LB_virtual pc f sources b)"
  by (simp add: lb_ok_def LB_virtual_def)

lemma close_fields:
  assumes "LB_close pc target f regs b = Some b'"
  shows "lb_seenBranch b'" "lb_loopBranchPC b' = pc" "lb_loopTargetPC b' = target" "lb_source0 b' = lb_source0 b"
    "lb_source1 b' = lb_source1 b" "lb_finalLoadPC b' = lb_finalLoadPC b" "lb_triggerPC b' = lb_triggerPC b"
    "lb_comparison b' = (if f = 0 then LB_invert (lb_comparison b) else lb_comparison b)"
    "regs = Some rs \<Longrightarrow> LB_read rs (lb_source0 b) = Some (lb_branchValue0 b') \<and> LB_read rs (lb_source1 b) = Some (lb_branchValue1 b')"
  using assms by (auto simp: LB_close_def Let_def split: option.splits if_splits)

text \<open>A backward branch either leaves the bound open (or already closed), or closes it.\<close>

definition is_branch :: "dyn_inst \<Rightarrow> bool" where
  "is_branch inst \<longleftrightarrow> fst (di_encoding inst) \<ge> 4 \<and> snd (di_encoding inst) AND 0x7f = 0x63 \<and>
     length (LB_intIndices (di_srcRegs inst)) \<ge> 2"

definition branch_funct3 :: "dyn_inst \<Rightarrow> u64" where
  "branch_funct3 inst = drop_bit 12 (snd (di_encoding inst)) AND 0x7"

definition is_fused :: "dyn_inst \<Rightarrow> bool" where
  "is_fused inst \<longleftrightarrow> is_branch inst \<and> (branch_funct3 inst = 1 \<or> 4 \<le> branch_funct3 inst \<and> branch_funct3 inst \<le> 7)"

definition encloses :: "dyn_inst \<Rightarrow> addr \<Rightarrow> loop_bound \<Rightarrow> bool" where
  "encloses inst target b \<longleftrightarrow>
     lb_finalLoadPC b \<noteq> 0 \<and> target \<le> lb_triggerPC b \<and> lb_finalLoadPC b \<le> di_pc inst"

definition LB_compared :: "dyn_inst \<Rightarrow> loop_bound \<Rightarrow> loop_bound" where
  "LB_compared inst b =
     (if is_fused inst then LB_virtual (di_pc inst) (branch_funct3 inst) (LB_intIndices (di_srcRegs inst)) b else b)"

definition LB_closes :: "dyn_inst \<Rightarrow> addr \<Rightarrow> loop_bound \<Rightarrow> bool" where
  "LB_closes inst target b \<longleftrightarrow> encloses inst target b \<and>
     (is_fused inst \<or> is_branch inst \<and> branch_funct3 inst = 0 \<and> LB_consumesCompare (LB_intIndices (di_srcRegs inst)) b)"

lemma backward_open:
  assumes "\<not> lb_seenBranch b"
  shows "LB_backward inst target regs b =
    (if LB_closes inst target b
     then map_option (\<lambda>b'. (\<lparr>lo_backwardBranch = True, lo_boundFound = True\<rparr>, b'))
            (LB_close (di_pc inst) target (branch_funct3 inst) regs (LB_compared inst b))
     else Some (\<lparr>lo_backwardBranch = True, lo_boundFound = False\<rparr>, LB_compared inst b))"
proof -
  obtain n e where ne: "di_encoding inst = (n, e)" by fastforce
  let ?f = "branch_funct3 inst" and ?sources = "LB_intIndices (di_srcRegs inst)"
  have f: "drop_bit 12 e AND 0x7 = ?f" by (simp add: branch_funct3_def ne)
  have fused: "(\<not> lb_seenBranch b \<and> n \<ge> 4 \<and> e AND 0x7f = 0x63 \<and> length ?sources \<ge> 2 \<and>
      (?f = 1 \<or> 4 \<le> ?f \<and> ?f \<le> 7)) = is_fused inst"
    using assms by (simp add: is_fused_def is_branch_def ne)
  have closes: "(lb_finalLoadPC b \<noteq> 0 \<and> target \<le> lb_triggerPC b \<and> lb_finalLoadPC b \<le> di_pc inst) \<and>
      (n \<ge> 4 \<and> e AND 0x7f = 0x63 \<and> (?f = 0 \<or> ?f = 1) \<and> LB_consumesCompare ?sources b \<or> is_fused inst) \<longleftrightarrow>
      LB_closes inst target b"
    unfolding LB_closes_def encloses_def is_fused_def is_branch_def ne fst_conv snd_conv LB_consumesCompare_def by argo
  have seen: "\<not> lb_seenBranch (LB_compared inst b)" using assms by (simp add: LB_compared_def LB_virtual_def)
  have "LB_backward inst target regs b =
    (case (if \<not> lb_seenBranch (LB_compared inst b) \<and> LB_closes inst target b
           then LB_close (di_pc inst) target ?f regs (LB_compared inst b) else Some (LB_compared inst b)) of
       None \<Rightarrow> None
     | Some b2 \<Rightarrow> Some (\<lparr>lo_backwardBranch = True, lo_boundFound = (lb_seenBranch b2 \<and> LB_closes inst target b)\<rparr>, b2))"
    unfolding LB_backward_def ne Let_def split f fused closes LB_compared_def ..
  then show ?thesis using seen by (auto simp: close_fields(1) split: option.splits)
qed

lemma observe_open:
  assumes "\<not> lb_seenBranch b" and "LB_observe inst has_target regs b = Some (obs, b')"
  shows "b' = b \<or> (\<exists>f. b' = LB_compare inst f b) \<or> LB_backward inst (di_branchTarget inst) regs b = Some (obs, b') \<and> di_branchTarget inst \<le> di_pc inst"
    and "lo_boundFound obs \<Longrightarrow>
      LB_backward inst (di_branchTarget inst) regs b = Some (obs, b') \<and> di_branchTarget inst \<le> di_pc inst"
  using assms by (auto simp: LB_observe_def Let_def no_observation_def not_less split: if_splits prod.splits)

lemma lb_ok_compared: "lb_ok b \<Longrightarrow> \<not> lb_seenBranch b \<Longrightarrow> lb_ok (LB_compared inst b) \<and> \<not> lb_seenBranch (LB_compared inst b)"
  unfolding LB_compared_def using lb_ok_virtual by (simp add: LB_virtual_def)

lemma virtual_known: "LB_virtualComparison f \<notin> {Unknown, Equal}"
  by (simp add: LB_virtualComparison_def)

text \<open>The operands and the predicate of a branch that closes the loop.\<close>

lemma closing_branch:
  assumes ok: "lb_ok b" "\<not> lb_seenBranch b" and c: "LB_closes inst target b"
    and b': "LB_close (di_pc inst) target (branch_funct3 inst) regs (LB_compared inst b) = Some b'"
  defines "f \<equiv> branch_funct3 inst" and "xs \<equiv> LB_intIndices (di_srcRegs inst)"
  shows "if f = 0 then lb_source0 b' = lb_source0 b \<and> lb_source1 b' = lb_source1 b \<and>
        lb_comparison b \<in> {SignedLess, UnsignedLess} \<and> lb_comparison b' = LB_invert (lb_comparison b) \<and>
        LB_consumesCompare xs b
      else lb_source0 b' = int (xs ! 0) \<and> lb_source1 b' = int (xs ! 1) \<and>
        lb_comparison b' = LB_virtualComparison f \<and> (f = 1 \<or> 4 \<le> f \<and> f \<le> 7)"
    and "lb_source0 b' \<ge> 0" and "lb_source1 b' \<ge> 0" and "length xs \<ge> 2"
proof -
  note cl = close_fields [OF b', folded f_def]
  have len: "length xs \<ge> 2" using c by (auto simp: LB_closes_def is_fused_def is_branch_def xs_def)
  then show "length xs \<ge> 2" .
  have small: "\<not> (4 :: u64) \<le> 0" by simp
  show 1: "if f = 0 then lb_source0 b' = lb_source0 b \<and> lb_source1 b' = lb_source1 b \<and>
        lb_comparison b \<in> {SignedLess, UnsignedLess} \<and> lb_comparison b' = LB_invert (lb_comparison b) \<and>
        LB_consumesCompare xs b
      else lb_source0 b' = int (xs ! 0) \<and> lb_source1 b' = int (xs ! 1) \<and>
        lb_comparison b' = LB_virtualComparison f \<and> (f = 1 \<or> 4 \<le> f \<and> f \<le> 7)"
  proof (cases "f = 0")
    case True
    then have nf: "\<not> is_fused inst" using small by (simp add: is_fused_def f_def)
    then have "LB_consumesCompare xs b" using c by (simp add: LB_closes_def xs_def)
    moreover from this have "lb_comparison b \<in> {SignedLess, UnsignedLess}"
      using ok by (auto simp: lb_ok_def LB_consumesCompare_def)
    ultimately show ?thesis using True cl nf by (simp add: LB_compared_def)
  next
    case False
    then have fu: "is_fused inst" using c by (auto simp: LB_closes_def f_def)
    then show ?thesis using False cl len unfolding LB_compared_def
      by (auto simp: LB_virtual_def LB_operand_def f_def xs_def is_fused_def)
  qed
  show "lb_source0 b' \<ge> 0" "lb_source1 b' \<ge> 0" using 1 ok by (auto simp: lb_ok_def LB_consumesCompare_def split: if_splits)
qed

lemma lb_closed_close:
  assumes "lb_ok b" "\<not> lb_seenBranch b" "LB_closes inst target b" "target \<le> di_pc inst"
    and b': "LB_close (di_pc inst) target (branch_funct3 inst) regs (LB_compared inst b) = Some b'"
  shows "lb_closed b'"
proof -
  note cb = closing_branch [OF assms(1-3) b'] and cl = close_fields [OF b']
  have "lb_finalLoadPC (LB_compared inst b) = lb_finalLoadPC b" "lb_triggerPC (LB_compared inst b) = lb_triggerPC b"
    by (simp_all add: LB_compared_def LB_virtual_def)
  moreover have "lb_comparison b' \<notin> {Unknown, Equal}"
    using cb(1) virtual_known [of "branch_funct3 inst"] by (auto simp: LB_invert_def split: if_splits)
  ultimately show ?thesis using assms(3,4) cb(2,3) cl(2,3,6,7) unfolding lb_closed_def LB_closes_def encloses_def by auto
qed

lemma lb_seen_frozen:
  assumes "lb_seenBranch b" and "LB_observe inst has_target regs b = Some (obs, b')"
  shows "b' = b \<or> b' = b\<lparr>lb_earlyExitSeen := True\<rparr>"
  using assms by (auto simp: LB_observe_def LB_backward_def Let_def split: if_splits prod.splits)

lemma lb_ok_observe:
  assumes ok: "lb_ok b" and o: "LB_observe inst has_target regs b = Some (obs, b')"
  shows "lb_ok b'"
proof (cases "lb_seenBranch b")
  case True
  then show ?thesis using lb_seen_frozen [OF True o] ok by (auto simp: lb_ok_def lb_closed_def)
next
  case False
  consider "b' = b" | f where "b' = LB_compare inst f b"
    | "LB_backward inst (di_branchTarget inst) regs b = Some (obs, b')" "di_branchTarget inst \<le> di_pc inst"
    using observe_open(1) [OF False o] by blast
  then show ?thesis
  proof cases
    case 3
    show ?thesis
    proof (cases "LB_closes inst (di_branchTarget inst) b")
      case True
      then have c: "LB_close (di_pc inst) (di_branchTarget inst) (branch_funct3 inst) regs (LB_compared inst b) = Some b'"
        using 3(1) by (auto simp: backward_open [OF False])
      then show ?thesis
        using lb_closed_close [OF ok False True 3(2) c] close_fields(1) [OF c] by (simp add: lb_ok_def)
    next
      case open_loop: False
      then show ?thesis using 3(1) lb_ok_compared [OF ok False, of inst] by (simp add: backward_open [OF False])
    qed
  qed (use ok False in \<open>simp_all add: lb_ok_compare\<close>)
qed

interpretation loop_bound_machine: event_machine lb_step lb_ok
proof
  fix b e assume "lb_ok b"
  then show "lb_ok (lb_step e b)"
    by (cases e) (auto simp: lb_ok_fresh intro: lb_ok_observe split: option.split)
qed

text \<open>The decision of a conditional branch on its operand values.\<close>

definition branch_taken :: "u64 \<Rightarrow> reg_val \<Rightarrow> reg_val \<Rightarrow> bool" where
  "branch_taken f v0 v1 = (if f = 0 then v0 = v1 else if f = 1 then v0 \<noteq> v1
     else if f = 4 then sint v0 < sint v1 else if f = 5 then sint v1 \<le> sint v0
     else if f = 6 then v0 < v1 else v1 \<le> v0)"

definition predicate_of :: "comparison \<Rightarrow> reg_val \<Rightarrow> reg_val \<Rightarrow> bool" where
  "predicate_of cmp v0 v1 = continues cmp (reading cmp v0) (reading cmp v1)"

lemma predicate_invert:
  "cmp \<in> {SignedLess, UnsignedLess} \<Longrightarrow> predicate_of (LB_invert cmp) v0 v1 = (\<not> predicate_of cmp v0 v1)"
  by (auto simp: predicate_of_def reading_def LB_invert_def)

lemma predicate_virtual:
  "f = 1 \<or> 4 \<le> f \<and> f \<le> 7 \<Longrightarrow> predicate_of (LB_virtualComparison f) v0 v1 = branch_taken f v0 v1"
proof -
  assume f: "f = 1 \<or> 4 \<le> f \<and> f \<le> 7"
  have "f \<in> {1, 4, 5, 6, 7}"
  proof (cases "f = 1")
    case False
    then have "4 \<le> unat f" "unat f \<le> 7" using f by (simp_all add: word_le_nat_alt)
    then have "unat f \<in> {4, 5, 6, 7}" by auto
    then show ?thesis by (auto simp: word_unat_eq_iff)
  qed simp
  then show ?thesis
    by (auto simp: predicate_of_def reading_def LB_virtualComparison_def branch_taken_def word_less_def word_le_def word_uint_eq_iff)
qed


section \<open>Witnesses\<close>

definition demo_reg :: "nat \<Rightarrow> reg_id" where
  "demo_reg i = \<lparr>ri_class = IntRegClass, ri_index = i\<rparr>"

text \<open>\<open>slt x7, x5, x6\<close> at 0x20 and \<open>beq x7, x0, 0x10\<close> at 0x24.\<close>

definition demo_slt :: dyn_inst where
  "demo_slt = \<lparr>di_pc = 0x20, di_srcRegs = [demo_reg 5, demo_reg 6], di_destRegs = [demo_reg 7], di_isLoad = False,
     di_isControl = False, di_isCondCtrl = False, di_isDirectCtrl = False, di_branchTarget = 0,
     di_branching = False, di_encoding = (4, 0x62a3b3)\<rparr>"

definition demo_beq :: dyn_inst where
  "demo_beq = \<lparr>di_pc = 0x24, di_srcRegs = [demo_reg 7, demo_reg 0], di_destRegs = [], di_isLoad = False,
     di_isControl = True, di_isCondCtrl = True, di_isDirectCtrl = True, di_branchTarget = 0x10,
     di_branching = True, di_encoding = (4, 0x38063)\<rparr>"

definition demo_regs :: register_snapshot where
  "demo_regs = (replicate 32 0)[5 := 9, 6 := 4]"

definition demo_loop :: loop_bound where
  "demo_loop = \<lparr>lb_triggerPC = 0, lb_finalLoadPC = 0, lb_lastComparePC = 0, lb_loopBranchPC = 0,
     lb_loopTargetPC = 0, lb_source0 = 0, lb_source1 = 0, lb_compareDestination = 0, lb_branchValue0 = 0,
     lb_branchValue1 = 0, lb_branchValuesValid = False, lb_comparison = Unknown, lb_seenBranch = False,
     lb_earlyExitSeen = False\<rparr>"

definition demo_calls :: "lb_call list" where
  "demo_calls = [LB_FinalLoad 0x1c, LB_Observe demo_slt True None]"

definition demo_compared :: loop_bound where
  "demo_compared = fold lb_step demo_calls (LB_begin 0x14 demo_loop)"

definition demo_closed :: loop_bound where
  "demo_closed = snd (the (LB_observe demo_beq True (Some demo_regs) demo_compared))"


text \<open>A counted loop from 9 to 41 in steps of 4, and one whose distance overflows.\<close>

definition demo_bound :: loop_bound where
  "demo_bound = demo_loop\<lparr>lb_source0 := 5, lb_source1 := 6, lb_comparison := SignedLess, lb_seenBranch := True\<rparr>"

definition demo_snapshot :: "reg_val \<Rightarrow> reg_val \<Rightarrow> register_snapshot" where
  "demo_snapshot x y = (replicate 32 0)[5 := x, 6 := y]"


end
