(* ===== verification/DVR_VIR.thy ===== *)
theory DVR_VIR
  imports DVR_Rename
begin

unbundle bit_operations_syntax

text \<open>
  \<open>DVRVectorInstructionRegister\<close> (\<open>src/code/gem5-runahead-dev-pre/src/cpu/o3/pre.hh\<close> 409-525 and
  \<open>pre.cc\<close> 1257-1569, 1691-2343): the helper interpreter. It replays a recorded program for up to
  128 lanes, each with its own registers and PC, groups lanes by PC and keeps the deferred side
  of a divergent branch on a stack of reconvergence entries.

  The parallel per-lane arrays of the class are one record per lane. A fixed-size array is a
  function of its index; every index the code forms is in range, since lanes are below
  \<open>min lanes 128\<close>, registers come from \<open>dvrFirstIntRegister\<close> (below 32) and operations are below
  the program size. \<open>laneStack\<close>, which no code reads or writes but the reset, is left out. The
  counters of a result are natural numbers.
\<close>

section \<open>Data\<close>

definition FrontEndBufferUops :: nat where
  "FrontEndBufferUops = 8"

definition ReconvergenceEntries :: nat where
  "ReconvergenceEntries = 8"

record reconvergence_entry =
  re_deferredMask :: lane_mask
  re_deferredPC :: addr
  re_pc :: addr
  re_alternatePath :: bool

record vlane =
  vl_regs :: "nat \<Rightarrow> reg_val"
  vl_pc :: addr
  vl_active :: bool
  vl_ready :: bool
  vl_blocked :: bool
  vl_pending :: "nat \<Rightarrow> bool"
  vl_windowStart :: nat
  vl_windowEnd :: nat
  vl_stackDepth :: nat

record vir =
  vi_activeMask :: lane_mask
  vi_lanes :: "nat \<Rightarrow> vlane"
  vi_stack :: "nat \<Rightarrow> reconvergence_entry"
  vi_stackDepth :: nat
  vi_continuationLanes :: nat
  vi_stopIndex :: nat
  vi_continuePastFLR :: bool
  vi_initialized :: bool
  vi_issuedChunks :: u16
  vi_executedChunks :: u16

record vir_result =
  vr_activeLanes :: nat
  vr_chunkIssues :: nat
  vr_chunkExecutions :: nat
  vr_divergentBranches :: nat
  vr_reconvergences :: nat
  vr_helperUops :: nat
  vr_normalTerminatedLanes :: nat
  vr_earlyExitLanes :: nat
  vr_externalPathLanes :: nat
  vr_unsupportedSemanticLanes :: nat
  vr_alternatePathUops :: nat
  vr_alternatePathReconvergences :: nat
  vr_pcGroups :: nat
  vr_maxPCGroupLanes :: nat
  vr_unsupportedSemanticPC :: addr
  vr_unsupportedSemanticEncoding :: u32
  vr_unsupportedSemantic :: semantic
  vr_timedOut :: bool
  vr_stackOverflow :: bool
  vr_unsupportedControlFlow :: bool

definition empty_lane :: vlane where
  "empty_lane = \<lparr>vl_regs = (\<lambda>r. 0), vl_pc = 0, vl_active = False, vl_ready = False, vl_blocked = False,
     vl_pending = (\<lambda>i. False), vl_windowStart = 0, vl_windowEnd = 0, vl_stackDepth = 0\<rparr>"

definition empty_reconvergence :: reconvergence_entry where
  "empty_reconvergence = \<lparr>re_deferredMask = empty_mask, re_deferredPC = 0, re_pc = 0, re_alternatePath = False\<rparr>"

definition VIR_reset :: "vir \<Rightarrow> vir" where
  "VIR_reset v = v\<lparr>vi_activeMask := empty_mask, vi_lanes := (\<lambda>l. empty_lane), vi_stack := (\<lambda>k. empty_reconvergence),
     vi_stackDepth := 0, vi_continuationLanes := 0, vi_stopIndex := 0, vi_continuePastFLR := False,
     vi_initialized := False, vi_issuedChunks := 0, vi_executedChunks := 0\<rparr>"

definition VIR_new :: vir where
  "VIR_new = \<lparr>vi_activeMask = empty_mask, vi_lanes = (\<lambda>l. empty_lane), vi_stack = (\<lambda>k. empty_reconvergence),
     vi_stackDepth = 0, vi_continuationLanes = 0, vi_stopIndex = 0, vi_continuePastFLR = False,
     vi_initialized = False, vi_issuedChunks = 0, vi_executedChunks = 0\<rparr>"

definition no_vir_result :: vir_result where
  "no_vir_result = \<lparr>vr_activeLanes = 0, vr_chunkIssues = 0, vr_chunkExecutions = 0, vr_divergentBranches = 0,
     vr_reconvergences = 0, vr_helperUops = 0, vr_normalTerminatedLanes = 0, vr_earlyExitLanes = 0,
     vr_externalPathLanes = 0, vr_unsupportedSemanticLanes = 0, vr_alternatePathUops = 0,
     vr_alternatePathReconvergences = 0, vr_pcGroups = 0, vr_maxPCGroupLanes = 0,
     vr_unsupportedSemanticPC = 0, vr_unsupportedSemanticEncoding = 0, vr_unsupportedSemantic = Unsupported,
     vr_timedOut = False, vr_stackOverflow = False, vr_unsupportedControlFlow = False\<rparr>"

text \<open>\<open>laneValue\<close> asserts its bounds.\<close>

definition VIR_laneValue :: "nat \<Rightarrow> nat \<Rightarrow> vir \<Rightarrow> reg_val option" where
  "VIR_laneValue reg lane v =
     (if reg < NumArchitecturalRegs \<and> lane < 128 then Some (vl_regs (vi_lanes v lane) reg) else None)"

section \<open>Steps the three interpreters share\<close>

definition VIR_upd :: "nat \<Rightarrow> (vlane \<Rightarrow> vlane) \<Rightarrow> vir \<Rightarrow> vir" where
  "VIR_upd lane f v = v\<lparr>vi_lanes := (vi_lanes v)(lane := f (vi_lanes v lane))\<rparr>"

definition VIR_maskOff :: "nat \<Rightarrow> vir \<Rightarrow> vir" where
  "VIR_maskOff lane v = v\<lparr>vi_activeMask := clear_lane lane (vi_activeMask v)\<rparr>"

definition VIR_next :: "uop list \<Rightarrow> nat \<Rightarrow> nat \<Rightarrow> addr" where
  "VIR_next us sz i = (if i + 1 < sz then up_pc (us ! (i + 1)) else 0)"

definition VIR_operand :: "int \<Rightarrow> vlane \<Rightarrow> reg_val" where
  "VIR_operand r l = (if r \<ge> 0 then vl_regs l (nat r) else 0)"

text \<open>
  The operation at a PC: the first in the lane's window, or else the first in the program from
  \<open>from\<close> on, which then opens a new window.
\<close>

definition VIR_fetch :: "uop list \<Rightarrow> nat \<Rightarrow> nat \<Rightarrow> nat \<Rightarrow> nat \<Rightarrow> addr \<Rightarrow> (nat \<times> nat \<times> nat) option" where
  "VIR_fetch us sz from start stop pc =
     (case List.find (\<lambda>i. up_pc (us ! i) = pc) [start..<stop] of
        Some i \<Rightarrow> Some (i, start, stop)
      | None \<Rightarrow>
          (case List.find (\<lambda>i. up_pc (us ! i) = pc) [from..<sz] of
             Some i \<Rightarrow> Some (i, i, min (i + FrontEndBufferUops) sz)
           | None \<Rightarrow> None))"

text \<open>
  What an operation does for one lane. The three interpreters go through the same cases; they
  differ in how a branch whose comparison is not decoded is resolved (\<open>dir\<close>, which returns the
  direction and whether it was supported) and in what they count.
\<close>

datatype lane_outcome =
    Branch bool bool addr
  | Jump addr
  | Leave
  | Skip addr
  | Fault
  | Write reg_val addr

type_synonym direction = "uop \<Rightarrow> reg_val \<Rightarrow> reg_val \<Rightarrow> bool \<times> bool"

definition VIR_outcome :: "direction \<Rightarrow> uop list \<Rightarrow> nat \<Rightarrow> nat \<Rightarrow> vlane \<Rightarrow> lane_outcome" where
  "VIR_outcome dir us sz i l =
     (let op = us ! i; lhs = VIR_operand (up_source0 op) l; rhs = VIR_operand (up_source1 op) l
      in if up_conditional op then
           (let (taken, supported) = dir op lhs rhs
            in Branch taken supported
                 (if taken then up_branchTargetPC op
                  else if up_fallthroughPC op \<noteq> 0 then up_fallthroughPC op else VIR_next us sz i))
         else if up_control op \<and> up_branchTargetPC op \<noteq> 0 then Jump (up_branchTargetPC op)
         else if up_control op \<and> up_branchTargetPC op = 0 \<and> up_intDestinations op = 0 then Leave
         else if up_semantic op = Unsupported \<and> \<not> up_control op \<and> up_intDestinations op = 0
         then Skip (VIR_next us sz i)
         else case Uop_evaluate op lhs rhs of
                None \<Rightarrow> Fault
              | Some value \<Rightarrow> Write value (VIR_next us sz i))"

definition VIR_write :: "uop \<Rightarrow> reg_val \<Rightarrow> vlane \<Rightarrow> vlane" where
  "VIR_write op value l =
     (if up_destination op \<ge> 0 then l\<lparr>vl_regs := (vl_regs l)(nat (up_destination op) := value)\<rparr> else l)"

definition VIR_setPC :: "addr \<Rightarrow> vlane \<Rightarrow> vlane" where
  "VIR_setPC pc l = l\<lparr>vl_pc := pc\<rparr>"

definition VIR_fault :: "uop \<Rightarrow> vir_result \<Rightarrow> vir_result" where
  "VIR_fault op r =
     (let r1 = r\<lparr>vr_unsupportedControlFlow := True, vr_unsupportedSemanticLanes := vr_unsupportedSemanticLanes r + 1\<rparr>
      in if vr_unsupportedSemanticPC r1 = 0
         then r1\<lparr>vr_unsupportedSemanticPC := up_pc op, vr_unsupportedSemanticEncoding := up_encoding op,
                 vr_unsupportedSemantic := up_semantic op\<rparr>
         else r1)"

definition VIR_external :: "vir_result \<Rightarrow> vir_result" where
  "VIR_external r = r\<lparr>vr_unsupportedControlFlow := True, vr_externalPathLanes := vr_externalPathLanes r + 1\<rparr>"

definition VIR_normal :: "vir_result \<Rightarrow> vir_result" where
  "VIR_normal r = r\<lparr>vr_normalTerminatedLanes := vr_normalTerminatedLanes r + 1\<rparr>"

definition VIR_early :: "vir_result \<Rightarrow> vir_result" where
  "VIR_early r = r\<lparr>vr_earlyExitLanes := vr_earlyExitLanes r + 1\<rparr>"

text \<open>One helper operation, issued and executed in one chunk.\<close>

definition VIR_issue :: "vir_result \<Rightarrow> vir_result" where
  "VIR_issue r = r\<lparr>vr_helperUops := vr_helperUops r + 1, vr_chunkIssues := vr_chunkIssues r + 1,
     vr_chunkExecutions := vr_chunkExecutions r + 1\<rparr>"

text \<open>
  Restoring a deferred path when a selected lane is at the reconvergence PC of the top entry, or
  no selected lane is left. \<open>eligible\<close> are the lanes the interpreter may issue.
\<close>

definition VIR_isAlternate :: "uop list \<Rightarrow> nat \<Rightarrow> addr \<Rightarrow> bool" where
  "VIR_isAlternate us sz pc =
     (case List.find (\<lambda>i. up_pc (us ! i) = pc) [0..<sz] of
        Some i \<Rightarrow> up_alternatePath (us ! i)
      | None \<Rightarrow> False)"

definition VIR_unblock :: "lane_mask \<Rightarrow> addr \<Rightarrow> nat \<Rightarrow> vir \<Rightarrow> vir" where
  "VIR_unblock deferred deferred_pc n v =
     fold (\<lambda>lane v. if test_lane deferred lane
                     then VIR_upd lane (\<lambda>l. l\<lparr>vl_blocked := False, vl_pc := deferred_pc\<rparr>) v else v) [0..<n] v"

definition VIR_popPath ::
    "uop list \<Rightarrow> nat \<Rightarrow> nat \<Rightarrow> (nat \<Rightarrow> bool) \<Rightarrow> vir \<Rightarrow> vir_result \<Rightarrow> bool \<times> vir \<times> vir_result" where
  "VIR_popPath us sz n eligible v r =
     (if vi_stackDepth v = 0 then (False, v, r)
      else
        (let top = vi_stack v (vi_stackDepth v - 1);
             at_reconvergence = list_ex (\<lambda>lane. eligible lane \<and> vl_pc (vi_lanes v lane) = re_pc top) [0..<n];
             selected_path_alive = list_ex eligible [0..<n]
         in if at_reconvergence \<or> \<not> selected_path_alive then
              (let v1 = (VIR_unblock (re_deferredMask top) (re_deferredPC top) n v)\<lparr>vi_stackDepth := vi_stackDepth v - 1\<rparr>;
                   r1 = (if at_reconvergence then r\<lparr>vr_reconvergences := vr_reconvergences r + 1\<rparr> else r);
                   r2 = (if at_reconvergence \<and> (VIR_isAlternate us sz (re_deferredPC top) \<or> re_alternatePath top)
                         then r1\<lparr>vr_alternatePathReconvergences := vr_alternatePathReconvergences r1 + 1\<rparr> else r1)
               in (True, v1, r2))
            else (False, v, r)))"

text \<open>How an iteration of an interpreter's loop ends.\<close>

datatype loop_exit = Continue | Break | Return

text \<open>The bookkeeping of one lane's branch within a group.\<close>

record branch_group =
  bg_taken :: "nat \<Rightarrow> bool"
  bg_hasTaken :: bool
  bg_hasFallthrough :: bool
  bg_firstTaken :: bool
  bg_firstSet :: bool

definition no_branches :: branch_group where
  "no_branches = \<lparr>bg_taken = (\<lambda>l. False), bg_hasTaken = False, bg_hasFallthrough = False,
     bg_firstTaken = False, bg_firstSet = False\<rparr>"

definition note_branch :: "nat \<Rightarrow> bool \<Rightarrow> branch_group \<Rightarrow> branch_group" where
  "note_branch lane taken g =
     g\<lparr>bg_taken := (bg_taken g)(lane := taken),
       bg_firstTaken := (if bg_firstSet g then bg_firstTaken g else taken), bg_firstSet := True,
       bg_hasTaken := (bg_hasTaken g \<or> taken), bg_hasFallthrough := (bg_hasFallthrough g \<or> \<not> taken)\<rparr>"

text \<open>
  Pushing the lanes of a divergent branch that do not follow the first lane. \<open>considered\<close> are the
  lanes the loop looks at.
\<close>

definition VIR_hasAlternate :: "uop list \<Rightarrow> nat \<Rightarrow> addr \<Rightarrow> bool" where
  "VIR_hasAlternate us sz pc = list_ex (\<lambda>i. up_pc (us ! i) = pc \<and> up_alternatePath (us ! i)) [0..<sz]"

definition VIR_defer ::
    "uop list \<Rightarrow> nat \<Rightarrow> branch_group \<Rightarrow> nat \<Rightarrow> lane_mask \<times> addr \<times> bool \<times> vir \<Rightarrow> lane_mask \<times> addr \<times> bool \<times> vir" where
  "VIR_defer us sz g lane s =
     (let (deferred, deferred_pc, alternate_path, v) = s;
          pc = vl_pc (vi_lanes v lane); alternate = (alternate_path \<or> VIR_hasAlternate us sz pc)
      in if bg_taken g lane \<noteq> bg_firstTaken g
         then (set_lane lane deferred, pc, alternate, VIR_upd lane (\<lambda>l. l\<lparr>vl_blocked := True\<rparr>) v)
         else (deferred, deferred_pc, alternate, v))"

definition VIR_diverge ::
    "uop list \<Rightarrow> nat \<Rightarrow> uop \<Rightarrow> (nat \<Rightarrow> bool) \<Rightarrow> nat \<Rightarrow> branch_group \<Rightarrow> vir \<Rightarrow> vir_result \<Rightarrow> bool \<times> vir \<times> vir_result" where
  "VIR_diverge us sz op considered n g v r =
     (if bg_hasTaken g \<and> bg_hasFallthrough g then
        (let r1 = r\<lparr>vr_divergentBranches := vr_divergentBranches r + 1\<rparr>
         in if vi_stackDepth v \<ge> ReconvergenceEntries then (False, v, r1\<lparr>vr_stackOverflow := True\<rparr>)
            else
              (let (deferred, deferred_pc, alternate, v1) =
                     fold (\<lambda>lane s. if considered lane then VIR_defer us sz g lane s else s) [0..<n]
                       (empty_mask, 0, False, v);
                   entry = \<lparr>re_deferredMask = deferred, re_deferredPC = deferred_pc,
                     re_pc = (if up_reconvergencePC op \<noteq> 0 then up_reconvergencePC op else up_fallthroughPC op),
                     re_alternatePath = alternate\<rparr>
               in (True, v1\<lparr>vi_stack := (vi_stack v1)(vi_stackDepth v1 := entry),
                           vi_stackDepth := vi_stackDepth v1 + 1\<rparr>, r1)))
      else (True, v, r))"

end
