(* ===== verification/DVR_VIR_Execute.thy ===== *)
theory DVR_VIR_Execute
  imports DVR_VIR
begin

unbundle bit_operations_syntax

text \<open>
  \<open>executeLanePC\<close> and its callers \<open>execute\<close> and \<open>executeFromSource\<close> (\<open>pre.cc\<close> 1257-1569 and
  1691-1706). The activity and the windows of the lanes are local arrays here and members of
  the class in the response-driven interpreters; the code behind the \<open>return\<close> of \<open>execute\<close>
  (1571-1688) cannot be reached.
\<close>

section \<open>Model\<close>

record exec =
  ex_vir :: vir
  ex_active :: "nat \<Rightarrow> bool"
  ex_start :: "nat \<Rightarrow> nat"
  ex_end :: "nat \<Rightarrow> nat"
  ex_result :: vir_result

definition Exec_initLane ::
    "addr \<Rightarrow> nat \<Rightarrow> nat \<Rightarrow> (nat \<Rightarrow> reg_val) \<Rightarrow> int \<Rightarrow> reg_val \<Rightarrow> nat \<Rightarrow> exec \<Rightarrow> exec" where
  "Exec_initLane entry start sz initial_regs source_destination source_value lane x =
     (let regs = (\<lambda>reg. if reg < NumArchitecturalRegs then initial_regs reg else vl_regs (vi_lanes (ex_vir x) lane) reg);
          regs1 = (if source_destination \<ge> 0 \<and> source_destination < int NumArchitecturalRegs
                   then regs(nat source_destination := source_value) else regs);
          v1 = VIR_upd lane (\<lambda>l. l\<lparr>vl_pc := entry, vl_regs := regs1\<rparr>) (ex_vir x)
      in x\<lparr>ex_vir := v1\<lparr>vi_activeMask := set_lane lane (vi_activeMask v1)\<rparr>,
           ex_active := (ex_active x)(lane := True), ex_start := (ex_start x)(lane := start),
           ex_end := (ex_end x)(lane := min (start + FrontEndBufferUops) sz)\<rparr>)"

definition Exec_deactivate :: "nat \<Rightarrow> exec \<Rightarrow> exec" where
  "Exec_deactivate lane x =
     x\<lparr>ex_active := (ex_active x)(lane := False), ex_vir := VIR_maskOff lane (ex_vir x)\<rparr>"

definition Exec_eligible :: "exec \<Rightarrow> nat \<Rightarrow> bool" where
  "Exec_eligible x lane \<longleftrightarrow> ex_active x lane \<and> \<not> vl_blocked (vi_lanes (ex_vir x) lane)"

definition Exec_pop :: "uop list \<Rightarrow> nat \<Rightarrow> nat \<Rightarrow> exec \<Rightarrow> bool \<times> exec" where
  "Exec_pop us sz n x =
     (let (resumed, v, r) = VIR_popPath us sz n (Exec_eligible x) (ex_vir x) (ex_result x)
      in (resumed, x\<lparr>ex_vir := v, ex_result := r\<rparr>))"

text \<open>The PC the restored path starts from, preferred for the next group.\<close>

definition Exec_preferred :: "bool \<Rightarrow> nat \<Rightarrow> exec \<Rightarrow> addr" where
  "Exec_preferred resumed n x =
     (if resumed \<and> vi_stackDepth (ex_vir x) < ReconvergenceEntries
      then (case List.find (\<lambda>lane. Exec_eligible x lane \<and> vl_pc (vi_lanes (ex_vir x) lane) \<noteq> 0) [0..<n] of
              Some lane \<Rightarrow> vl_pc (vi_lanes (ex_vir x) lane)
            | None \<Rightarrow> 0)
      else 0)"

text \<open>
  The search for the next operation: the first eligible lane that has one; a lane without one
  leaves the interpreter.
\<close>

fun Exec_select :: "uop list \<Rightarrow> nat \<Rightarrow> bool \<Rightarrow> addr \<Rightarrow> nat list \<Rightarrow> exec \<Rightarrow> (nat \<times> addr) option \<times> exec" where
  "Exec_select us sz resumed group_pc [] x = (None, x)"
| "Exec_select us sz resumed group_pc (lane # ls) x =
     (let pc = vl_pc (vi_lanes (ex_vir x) lane) in
      if \<not> Exec_eligible x lane \<or> resumed \<and> group_pc \<noteq> 0 \<and> pc \<noteq> group_pc
      then Exec_select us sz resumed group_pc ls x
      else case VIR_fetch us sz 0 (ex_start x lane) (ex_end x lane) pc of
             Some (i, s, e) \<Rightarrow>
               (Some (i, pc), x\<lparr>ex_start := (ex_start x)(lane := s), ex_end := (ex_end x)(lane := e)\<rparr>)
           | None \<Rightarrow>
               Exec_select us sz resumed group_pc ls
                 (Exec_deactivate lane
                   (if pc \<noteq> 0 then x\<lparr>ex_result := VIR_external (ex_result x)\<rparr> else x)))"

text \<open>
  The direction of a branch: the recorded one, unless the branch is tainted and a source value
  has arrived (\<open>start_index \<noteq> 0\<close>).
\<close>

definition Exec_direction :: "nat \<Rightarrow> direction" where
  "Exec_direction start_index op lhs rhs =
     (if up_tainted op \<and> start_index \<noteq> 0
      then (case Uop_evaluateBranch op lhs rhs of
              Some taken \<Rightarrow> (taken, True)
            | None \<Rightarrow> (up_branchTaken op, False))
      else (up_branchTaken op, True))"

definition Exec_move :: "nat \<Rightarrow> (vlane \<Rightarrow> vlane) \<Rightarrow> (vir_result \<Rightarrow> vir_result) \<Rightarrow> exec \<Rightarrow> exec" where
  "Exec_move lane f h x = x\<lparr>ex_vir := VIR_upd lane f (ex_vir x), ex_result := h (ex_result x)\<rparr>"

definition Exec_apply ::
    "uop list \<Rightarrow> nat \<Rightarrow> nat \<Rightarrow> nat \<Rightarrow> addr \<Rightarrow> nat \<Rightarrow> (nat \<Rightarrow> bool) \<times> branch_group \<times> exec \<Rightarrow>
      (nat \<Rightarrow> bool) \<times> branch_group \<times> exec" where
  "Exec_apply us sz start_index i group_pc lane s =
     (let (executing, g, x) = s; op = us ! i; l = vi_lanes (ex_vir x) lane in
      if \<not> ex_active x lane \<or> vl_pc l \<noteq> group_pc then s
      else
        (let executing1 = executing(lane := True)
         in case VIR_outcome (Exec_direction start_index) us sz i l of
              Branch taken supported nxt \<Rightarrow>
                (executing1, note_branch lane taken g,
                 Exec_move lane (VIR_setPC nxt)
                   (\<lambda>r. (if nxt = 0 then VIR_early else id) ((if supported then id else VIR_external) r)) x)
            | Jump target \<Rightarrow>
                (executing1, g,
                 Exec_move lane (VIR_setPC target)
                   (if target = 0 then VIR_early else if target = up_pc (us ! 0) then VIR_normal else id) x)
            | Leave \<Rightarrow> (executing1, g, Exec_deactivate lane (x\<lparr>ex_result := VIR_normal (ex_result x)\<rparr>))
            | Skip nxt \<Rightarrow>
                (executing1, g, Exec_move lane (VIR_setPC nxt) (if nxt = 0 then VIR_normal else id) x)
            | Fault \<Rightarrow> (executing1, g, Exec_deactivate lane (x\<lparr>ex_result := VIR_fault op (ex_result x)\<rparr>))
            | Write value nxt \<Rightarrow>
                (executing1, g,
                 Exec_move lane (\<lambda>l. VIR_setPC nxt (VIR_write op value l)) (if nxt = 0 then VIR_normal else id) x)))"

definition Exec_issueChunks :: "(nat \<Rightarrow> bool) \<Rightarrow> nat \<Rightarrow> exec \<Rightarrow> exec" where
  "Exec_issueChunks executing n x =
     fold (\<lambda>chunk x.
       if list_ex (\<lambda>lane. executing lane \<and> ex_active x lane) [chunk * 16..<min (chunk * 16 + 16) n]
       then x\<lparr>ex_vir := (ex_vir x)\<lparr>vi_issuedChunks := vi_issuedChunks (ex_vir x) OR push_bit chunk 1,
                                   vi_executedChunks := vi_executedChunks (ex_vir x) OR push_bit chunk 1\<rparr>,
              ex_result := (ex_result x)\<lparr>vr_chunkIssues := vr_chunkIssues (ex_result x) + 1,
                                         vr_chunkExecutions := vr_chunkExecutions (ex_result x) + 1\<rparr>\<rparr>
       else x) [0..<(n + 15) div 16] x"

definition Exec_anyActive :: "nat \<Rightarrow> exec \<Rightarrow> bool" where
  "Exec_anyActive n x = list_ex (\<lambda>lane. ex_active x lane \<and> vl_pc (vi_lanes (ex_vir x) lane) \<noteq> 0) [0..<n]"

text \<open>The rest of an iteration, once the operation is known.\<close>

definition Exec_group ::
    "uop list \<Rightarrow> nat \<Rightarrow> nat \<Rightarrow> nat \<Rightarrow> nat \<Rightarrow> addr \<Rightarrow> exec \<Rightarrow> loop_exit \<times> exec" where
  "Exec_group us sz n start_index i group_pc x0 =
     (let op = us ! i;
          x1 = (if up_alternatePath op
                then x0\<lparr>ex_result := (ex_result x0)\<lparr>vr_alternatePathUops := vr_alternatePathUops (ex_result x0) + 1\<rparr>\<rparr>
                else x0);
          (executing, g, x2) = fold (Exec_apply us sz start_index i group_pc) [0..<n] ((\<lambda>l. False), no_branches, x1);
          (ok, v, r) = VIR_diverge us sz op executing n g (ex_vir x2) (ex_result x2);
          x3 = x2\<lparr>ex_vir := v, ex_result := r\<rparr>
      in if \<not> ok then (Return, x3)
         else
           (let x4 = Exec_issueChunks executing n x3;
                x5 = x4\<lparr>ex_result := (ex_result x4)\<lparr>vr_helperUops := vr_helperUops (ex_result x4) + 1\<rparr>\<rparr>
            in (if \<not> Exec_anyActive n x5 \<and> vi_stackDepth (ex_vir x5) = 0 then Break else Continue, x5)))"

definition Exec_step :: "uop list \<Rightarrow> nat \<Rightarrow> nat \<Rightarrow> nat \<Rightarrow> exec \<Rightarrow> loop_exit \<times> exec" where
  "Exec_step us sz n start_index x =
     (let (resumed, x1) = Exec_pop us sz n x;
          (found, x2) = Exec_select us sz resumed (Exec_preferred resumed n x1) [0..<n] x1
      in case found of
           None \<Rightarrow> (Break, x2)
         | Some (i, group_pc) \<Rightarrow> Exec_group us sz n start_index i group_pc x2)"

text \<open>
  The loop; a stack overflow returns at once, every other way out goes through the timeout test.
\<close>

definition Exec_timeout :: "nat \<Rightarrow> nat \<Rightarrow> exec \<Rightarrow> exec" where
  "Exec_timeout n max_uops x =
     (if vr_helperUops (ex_result x) \<ge> max_uops
      then x\<lparr>ex_result := (ex_result x)\<lparr>vr_timedOut := Exec_anyActive n x\<rparr>\<rparr> else x)"

fun Exec_loop :: "nat \<Rightarrow> uop list \<Rightarrow> nat \<Rightarrow> nat \<Rightarrow> nat \<Rightarrow> nat \<Rightarrow> exec \<Rightarrow> exec" where
  "Exec_loop 0 us sz n start_index max_uops x = Exec_timeout n max_uops x"
| "Exec_loop (Suc steps) us sz n start_index max_uops x =
     (case Exec_step us sz n start_index x of
        (Continue, x1) \<Rightarrow> Exec_loop steps us sz n start_index max_uops x1
      | (Break, x1) \<Rightarrow> Exec_timeout n max_uops x1
      | (Return, x1) \<Rightarrow> x1)"

definition VIR_executeLanePC ::
    "recorder \<Rightarrow> nat \<Rightarrow> nat \<Rightarrow> (nat \<Rightarrow> reg_val) \<Rightarrow> nat \<Rightarrow> int \<Rightarrow> reg_val \<Rightarrow> vir \<Rightarrow> vir_result \<times> vir" where
  "VIR_executeLanePC prog lanes max_uops initial_regs start_index source_destination source_value v0 =
     (let v = VIR_reset v0; n = min lanes 128; us = rc_uops prog; sz = rc_count prog
      in if sz = 0 \<or> start_index \<ge> sz \<or> n = 0 \<or> max_uops = 0 then (no_vir_result, v)
         else
           (let x0 = \<lparr>ex_vir = v, ex_active = (\<lambda>l. False), ex_start = (\<lambda>l. 0), ex_end = (\<lambda>l. 0), ex_result = no_vir_result\<rparr>;
                x1 = fold (Exec_initLane (up_pc (us ! start_index)) start_index sz initial_regs
                       source_destination source_value) [0..<n] x0;
                x2 = x1\<lparr>ex_result := (ex_result x1)\<lparr>vr_activeLanes := n\<rparr>\<rparr>;
                x3 = Exec_loop max_uops us sz n start_index max_uops x2
            in (ex_result x3, ex_vir x3)))"

definition VIR_execute :: "recorder \<Rightarrow> nat \<Rightarrow> nat \<Rightarrow> (nat \<Rightarrow> reg_val) \<Rightarrow> vir \<Rightarrow> vir_result \<times> vir" where
  "VIR_execute prog lanes max_uops initial_regs v =
     VIR_executeLanePC prog lanes max_uops initial_regs 0 (- 1) 0 v"

definition VIR_executeFromSource ::
    "uop list \<Rightarrow> nat \<Rightarrow> int \<Rightarrow> reg_val \<Rightarrow> nat \<Rightarrow> (nat \<Rightarrow> reg_val) \<Rightarrow> vir \<Rightarrow> vir_result \<times> vir" where
  "VIR_executeFromSource source sz source_destination source_value max_uops initial_regs v =
     VIR_executeLanePC (Recorder_import source sz Recorder_empty) 1 max_uops initial_regs 1
       source_destination source_value v"

section \<open>The effect of an operation on one lane\<close>

definition lane_effect :: "uop list \<Rightarrow> nat \<Rightarrow> nat \<Rightarrow> nat \<Rightarrow> vlane \<Rightarrow> bool \<times> vlane" where
  "lane_effect us sz start_index i l =
     (case VIR_outcome (Exec_direction start_index) us sz i l of
        Branch taken supported nxt \<Rightarrow> (True, VIR_setPC nxt l)
      | Jump target \<Rightarrow> (True, VIR_setPC target l)
      | Leave \<Rightarrow> (False, l)
      | Skip nxt \<Rightarrow> (True, VIR_setPC nxt l)
      | Fault \<Rightarrow> (False, l)
      | Write value nxt \<Rightarrow> (True, VIR_setPC nxt (VIR_write (us ! i) value l)))"

text \<open>What the counters of a run without divergence are compared by.\<close>

definition quiet :: "vir_result \<Rightarrow> bool" where
  "quiet r \<longleftrightarrow> vr_divergentBranches r = 0 \<and> vr_reconvergences r = 0 \<and> \<not> vr_stackOverflow r \<and> \<not> vr_timedOut r"

lemma quiet_simps [simp]:
  "quiet (VIR_early r) = quiet r" "quiet (VIR_external r) = quiet r" "quiet (VIR_normal r) = quiet r"
  "quiet (VIR_fault op r) = quiet r"
  "vr_helperUops (VIR_early r) = vr_helperUops r" "vr_helperUops (VIR_external r) = vr_helperUops r"
  "vr_helperUops (VIR_normal r) = vr_helperUops r" "vr_helperUops (VIR_fault op r) = vr_helperUops r"
  by (simp_all add: quiet_def VIR_early_def VIR_external_def VIR_normal_def VIR_fault_def Let_def)

text \<open>The parts of an execution state that the lanes share.\<close>

definition frame :: "exec \<Rightarrow> nat \<times> (nat \<Rightarrow> nat) \<times> (nat \<Rightarrow> nat) \<times> nat \<times> bool" where
  "frame x = (vi_stackDepth (ex_vir x), ex_start x, ex_end x, vr_helperUops (ex_result x), quiet (ex_result x))"

definition branch_of :: "uop list \<Rightarrow> nat \<Rightarrow> nat \<Rightarrow> nat \<Rightarrow> vlane \<Rightarrow> bool option" where
  "branch_of us sz start_index i l =
     (case VIR_outcome (Exec_direction start_index) us sz i l of Branch taken supported nxt \<Rightarrow> Some taken | _ \<Rightarrow> None)"

lemma apply_lane:
  assumes "ex_active x lane" "vl_pc (vi_lanes (ex_vir x) lane) = pc"
    and "Exec_apply us sz si i pc lane (e, g, x) = (e', g', x')"
  defines "l \<equiv> vi_lanes (ex_vir x) lane"
  shows "ex_active x' = (ex_active x)(lane := fst (lane_effect us sz si i l))"
    "vi_lanes (ex_vir x') = (vi_lanes (ex_vir x))(lane := snd (lane_effect us sz si i l))"
    "frame x' = frame x"
    "g' = (case branch_of us sz si i l of Some t \<Rightarrow> note_branch lane t g | None \<Rightarrow> g)"
proof -
  let ?o = "VIR_outcome (Exec_direction si) us sz i l"
  have k: "vl_pc l = pc" using assms(2) by (simp add: l_def)
  note step = assms(3) [unfolded Exec_apply_def Let_def split l_def [symmetric]]
  note defs = Exec_move_def Exec_deactivate_def VIR_upd_def VIR_maskOff_def frame_def lane_effect_def branch_of_def
  have "ex_active x' = (ex_active x)(lane := fst (lane_effect us sz si i l)) \<and>
    vi_lanes (ex_vir x') = (vi_lanes (ex_vir x))(lane := snd (lane_effect us sz si i l)) \<and>
    frame x' = frame x \<and> g' = (case branch_of us sz si i l of Some t \<Rightarrow> note_branch lane t g | None \<Rightarrow> g)"
    using step assms(1) k by (cases ?o) (auto simp: defs l_def [symmetric] fun_upd_idem split: if_splits)
  then show "ex_active x' = (ex_active x)(lane := fst (lane_effect us sz si i l))"
    "vi_lanes (ex_vir x') = (vi_lanes (ex_vir x))(lane := snd (lane_effect us sz si i l))"
    "frame x' = frame x"
    "g' = (case branch_of us sz si i l of Some t \<Rightarrow> note_branch lane t g | None \<Rightarrow> g)" by auto
qed

section \<open>Lanes in lockstep\<close>

text \<open>
  Lanes that hold the same registers and PC and are all active stay so: a group of them executes
  as one lane, and no branch of theirs diverges.
\<close>

definition same_lanes :: "nat \<Rightarrow> bool \<Rightarrow> vlane \<Rightarrow> exec \<Rightarrow> bool" where
  "same_lanes n a l x \<longleftrightarrow> (\<forall>k < n. ex_active x k = a \<and> vi_lanes (ex_vir x) k = l)"

definition one_way :: "branch_group \<Rightarrow> bool" where
  "one_way g \<longleftrightarrow> \<not> (bg_hasTaken g \<and> bg_hasFallthrough g)"

lemma apply_group:
  assumes s: "same_lanes n True l x" and pc: "vl_pc l = pc"
    and r: "fold (Exec_apply us sz si i pc) [0..<n] (e, no_branches, x) = (e', g', x')"
  shows "same_lanes n (fst (lane_effect us sz si i l)) (snd (lane_effect us sz si i l)) x'"
    "frame x' = frame x" "one_way g'"
proof -
  define P where "P = (\<lambda>k (s :: (nat \<Rightarrow> bool) \<times> branch_group \<times> exec).
    (\<forall>j < n. (ex_active (snd (snd s)) j, vi_lanes (ex_vir (snd (snd s))) j) =
      (if j < k then lane_effect us sz si i l else (True, l))) \<and>
    frame (snd (snd s)) = frame x \<and>
    (case branch_of us sz si i l of
       None \<Rightarrow> fst (snd s) = no_branches
     | Some t \<Rightarrow> (t \<longrightarrow> \<not> bg_hasFallthrough (fst (snd s))) \<and> (\<not> t \<longrightarrow> \<not> bg_hasTaken (fst (snd s)))))"
  have start: "P 0 (e, no_branches, x)"
    using s by (simp add: P_def same_lanes_def no_branches_def split: option.split)
  have step: "P (Suc k) (Exec_apply us sz si i pc k s)" if "k < n" "P k s" for k s
  proof -
    obtain ea ga xa where sa: "s = (ea, ga, xa)" by (cases s)
    obtain eb gb xb where sb: "Exec_apply us sz si i pc k s = (eb, gb, xb)"
      by (cases "Exec_apply us sz si i pc k s")
    have "(ex_active xa k, vi_lanes (ex_vir xa) k) = (True, l)" using that unfolding P_def sa by auto
    then have a: "ex_active xa k" "vi_lanes (ex_vir xa) k = l" by simp_all
    note ap = apply_lane [OF a(1) _ sb [unfolded sa], unfolded a(2), OF pc]
    show ?thesis unfolding sb using that ap
      by (auto simp: P_def sa less_Suc_eq note_branch_def split: option.splits)
  qed
  have "P n (fold (Exec_apply us sz si i pc) [0..<n] (e, no_branches, x))"
    by (rule fold_upt_inv [where P = P]) (use start step in auto)
  then have f: "P n (e', g', x')" by (simp add: r)
  show "frame x' = frame x" using f by (simp add: P_def)
  show "same_lanes n (fst (lane_effect us sz si i l)) (snd (lane_effect us sz si i l)) x'"
  proof -
    have pr: "(ex_active x' j, vi_lanes (ex_vir x') j) = lane_effect us sz si i l" if "j < n" for j
      using f that by (simp add: P_def)
    show ?thesis unfolding same_lanes_def by (metis pr fst_conv snd_conv)
  qed
  show "one_way g'" using f by (auto simp: P_def one_way_def no_branches_def split: option.splits)
qed

lemma issue_frame:
  "frame (Exec_issueChunks e n x) = frame x" "ex_active (Exec_issueChunks e n x) = ex_active x"
  "vi_lanes (ex_vir (Exec_issueChunks e n x)) = vi_lanes (ex_vir x)"
proof -
  have "frame (fold f cs x) = frame x \<and> ex_active (fold f cs x) = ex_active x \<and>
      vi_lanes (ex_vir (fold f cs x)) = vi_lanes (ex_vir x)"
    if "\<And>c x. frame (f c x) = frame x \<and> ex_active (f c x) = ex_active x \<and> vi_lanes (ex_vir (f c x)) = vi_lanes (ex_vir x)"
    for f and cs :: "nat list" and x using that by (induction cs arbitrary: x) auto
  from this [of "\<lambda>chunk x. if list_ex (\<lambda>lane. e lane \<and> ex_active x lane) [chunk * 16..<min (chunk * 16 + 16) n]
       then x\<lparr>ex_vir := (ex_vir x)\<lparr>vi_issuedChunks := vi_issuedChunks (ex_vir x) OR push_bit chunk 1,
                                   vi_executedChunks := vi_executedChunks (ex_vir x) OR push_bit chunk 1\<rparr>,
              ex_result := (ex_result x)\<lparr>vr_chunkIssues := vr_chunkIssues (ex_result x) + 1,
                                         vr_chunkExecutions := vr_chunkExecutions (ex_result x) + 1\<rparr>\<rparr>
       else x" "[0..<(n + 15) div 16]" x]
  show "frame (Exec_issueChunks e n x) = frame x" "ex_active (Exec_issueChunks e n x) = ex_active x"
    "vi_lanes (ex_vir (Exec_issueChunks e n x)) = vi_lanes (ex_vir x)"
    unfolding Exec_issueChunks_def by (auto simp: frame_def quiet_def)
qed

text \<open>A state in lockstep: no path is deferred, no lane is blocked, every window lies in the program.\<close>

definition lockstep :: "nat \<Rightarrow> nat \<Rightarrow> bool \<Rightarrow> vlane \<Rightarrow> exec \<Rightarrow> bool" where
  "lockstep sz n a l x \<longleftrightarrow> same_lanes n a l x \<and> \<not> vl_blocked l \<and> vi_stackDepth (ex_vir x) = 0 \<and>
     quiet (ex_result x) \<and> (\<forall>k < n. ex_end x k \<le> sz)"

lemma any_active_same: "same_lanes n a l x \<Longrightarrow> 0 < n \<Longrightarrow> Exec_anyActive n x \<longleftrightarrow> a \<and> vl_pc l \<noteq> 0"
  by (auto simp: Exec_anyActive_def list_ex_iff same_lanes_def)

lemma effect_blocked: "vl_blocked (snd (lane_effect us sz si i l)) = vl_blocked l"
  by (simp add: lane_effect_def VIR_setPC_def VIR_write_def split: lane_outcome.split)

lemma group_lockstep:
  assumes s: "lockstep sz n True l x" and n: "0 < n" and pc: "vl_pc l = pc"
    and g: "Exec_group us sz n si i pc x = (exit, x')"
  defines "a' \<equiv> fst (lane_effect us sz si i l)" and "l' \<equiv> snd (lane_effect us sz si i l)"
  shows "lockstep sz n a' l' x'" "exit = (if a' \<and> vl_pc l' \<noteq> 0 then Continue else Break)"
    "ex_start x' = ex_start x" "ex_end x' = ex_end x" "vr_helperUops (ex_result x') = Suc (vr_helperUops (ex_result x))"
proof -
  define x1 where "x1 = (if up_alternatePath (us ! i)
    then x\<lparr>ex_result := (ex_result x)\<lparr>vr_alternatePathUops := vr_alternatePathUops (ex_result x) + 1\<rparr>\<rparr> else x)"
  have x1: "frame x1 = frame x" "same_lanes n True l x1"
    using s by (auto simp: x1_def frame_def quiet_def lockstep_def same_lanes_def)
  obtain e2 g2 x2 where f: "fold (Exec_apply us sz si i pc) [0..<n] ((\<lambda>l. False), no_branches, x1) = (e2, g2, x2)"
    by (cases "fold (Exec_apply us sz si i pc) [0..<n] ((\<lambda>l. False), no_branches, x1)")
  note ag = apply_group [OF x1(2) pc f, folded a'_def l'_def]
  have div: "VIR_diverge us sz (us ! i) e2 n g2 (ex_vir x2) (ex_result x2) = (True, ex_vir x2, ex_result x2)"
    unfolding VIR_diverge_def using ag(3) [unfolded one_way_def] by (rule if_not_P)
  define x4 where "x4 = Exec_issueChunks e2 n x2"
  define x5 where "x5 = x4\<lparr>ex_result := (ex_result x4)\<lparr>vr_helperUops := vr_helperUops (ex_result x4) + 1\<rparr>\<rparr>"
  have same: "same_lanes n a' l' x5" using ag(1) issue_frame(2,3) [of e2 n x2] by (simp add: same_lanes_def x5_def x4_def)
  have fr: "frame x4 = frame x" using issue_frame(1) ag(2) x1(1) by (simp add: x4_def)
  then have f5: "vi_stackDepth (ex_vir x5) = 0" "ex_start x5 = ex_start x" "ex_end x5 = ex_end x"
      "vr_helperUops (ex_result x5) = Suc (vr_helperUops (ex_result x))" "quiet (ex_result x5)"
    using s by (auto simp: x5_def frame_def lockstep_def quiet_def)
  have x2: "x2\<lparr>ex_vir := ex_vir x2, ex_result := ex_result x2\<rparr> = x2" by simp
  have "(exit, x') = (if \<not> Exec_anyActive n x5 \<and> vi_stackDepth (ex_vir x5) = 0 then Break else Continue, x5)"
    using g unfolding Exec_group_def Let_def x1_def [symmetric] f split div x2 not_True_eq_False if_False
      x4_def [symmetric] x5_def [symmetric] by (rule sym)
  then have ex: "x' = x5" "exit = (if a' \<and> vl_pc l' \<noteq> 0 then Continue else Break)"
    using any_active_same [OF same n] f5(1) by auto
  show "lockstep sz n a' l' x'"
    using same f5 s ex(1) effect_blocked [of us sz si i l] by (auto simp: lockstep_def l'_def)
  show "exit = (if a' \<and> vl_pc l' \<noteq> 0 then Continue else Break)" by (rule ex(2))
  show "ex_start x' = ex_start x" "ex_end x' = ex_end x" "vr_helperUops (ex_result x') = Suc (vr_helperUops (ex_result x))"
    using f5 ex(1) by auto
qed

text \<open>The search: either the first lane has an operation, or none has.\<close>

lemma fetch_None:
  assumes "stop \<le> sz"
  shows "VIR_fetch us sz 0 start stop pc = None \<longleftrightarrow> (\<forall>i < sz. up_pc (us ! i) \<noteq> pc)"
  using assms
  by (auto simp: VIR_fetch_def find_upt_None find_upt_Some split: option.splits) (use less_le_trans in blast)

lemma fetch_Some: "VIR_fetch us sz 0 start stop pc = Some (i, s, e) \<Longrightarrow> stop \<le> sz \<Longrightarrow> e \<le> sz"
  by (auto simp: VIR_fetch_def split: option.splits)

lemma select_none:
  assumes "\<forall>i < sz. up_pc (us ! i) \<noteq> vl_pc l" and "\<not> vl_blocked l"
    and "\<forall>k \<in> set ls. vi_lanes (ex_vir x) k = l \<and> ex_end x k \<le> sz" and "distinct ls"
  shows "\<exists>x'. Exec_select us sz False 0 ls x = (None, x') \<and> (\<forall>k \<in> set ls. \<not> ex_active x' k) \<and>
    (\<forall>k. k \<notin> set ls \<longrightarrow> ex_active x' k = ex_active x k) \<and>
    vi_lanes (ex_vir x') = vi_lanes (ex_vir x) \<and> frame x' = frame x"
  using assms(3,4)
proof (induction ls arbitrary: x)
  case Nil
  then show ?case by simp
next
  case (Cons k ls)
  show ?case
  proof (cases "ex_active x k")
    case True
    define y where "y = Exec_deactivate k (if vl_pc l \<noteq> 0 then x\<lparr>ex_result := VIR_external (ex_result x)\<rparr> else x)"
    have y: "vi_lanes (ex_vir y) = vi_lanes (ex_vir x)" "ex_end y = ex_end x" "frame y = frame x"
        "ex_active y = (ex_active x)(k := False)"
      by (simp_all add: y_def Exec_deactivate_def VIR_maskOff_def frame_def)
    have "VIR_fetch us sz 0 (ex_start x k) (ex_end x k) (vl_pc l) = None"
      using assms(1) Cons.prems by (subst fetch_None) auto
    then have "Exec_select us sz False 0 (k # ls) x = Exec_select us sz False 0 ls y"
      using True assms(2) Cons.prems by (simp add: Exec_eligible_def y_def Let_def)
    moreover obtain x' where "Exec_select us sz False 0 ls y = (None, x')" "\<forall>k \<in> set ls. \<not> ex_active x' k"
        "\<forall>j. j \<notin> set ls \<longrightarrow> ex_active x' j = ex_active y j" "vi_lanes (ex_vir x') = vi_lanes (ex_vir y)" "frame x' = frame y"
      using Cons.IH [of y] Cons.prems y by auto
    ultimately show ?thesis using y Cons.prems by auto
  next
    case False
    then have "Exec_select us sz False 0 (k # ls) x = Exec_select us sz False 0 ls x"
      by (simp add: Exec_eligible_def Let_def)
    moreover obtain x' where "Exec_select us sz False 0 ls x = (None, x')" "\<forall>k \<in> set ls. \<not> ex_active x' k"
        "\<forall>j. j \<notin> set ls \<longrightarrow> ex_active x' j = ex_active x j" "vi_lanes (ex_vir x') = vi_lanes (ex_vir x)" "frame x' = frame x"
      using Cons.IH [of x] Cons.prems by auto
    ultimately show ?thesis using False Cons.prems by auto
  qed
qed

section \<open>The scalar interpreter\<close>

text \<open>
  The reference: one lane with its window, fetching and executing one operation per step until
  it has none, leaves, or its PC is zero.
\<close>

record scalar =
  sc_active :: bool
  sc_lane :: vlane
  sc_start :: nat
  sc_end :: nat
  sc_uops :: nat

definition scalar_step :: "uop list \<Rightarrow> nat \<Rightarrow> nat \<Rightarrow> scalar \<Rightarrow> loop_exit \<times> scalar" where
  "scalar_step us sz start_index c =
     (if \<not> sc_active c then (Break, c)
      else case VIR_fetch us sz 0 (sc_start c) (sc_end c) (vl_pc (sc_lane c)) of
             None \<Rightarrow> (Break, c\<lparr>sc_active := False\<rparr>)
           | Some (i, s, e) \<Rightarrow>
               (let (a, l) = lane_effect us sz start_index i (sc_lane c)
                in (if a \<and> vl_pc l \<noteq> 0 then Continue else Break,
                    \<lparr>sc_active = a, sc_lane = l, sc_start = s, sc_end = e, sc_uops = Suc (sc_uops c)\<rparr>)))"

fun scalar_run :: "nat \<Rightarrow> uop list \<Rightarrow> nat \<Rightarrow> nat \<Rightarrow> scalar \<Rightarrow> scalar" where
  "scalar_run 0 us sz start_index c = c"
| "scalar_run (Suc steps) us sz start_index c =
     (case scalar_step us sz start_index c of
        (Continue, c1) \<Rightarrow> scalar_run steps us sz start_index c1
      | (_, c1) \<Rightarrow> c1)"

definition represents :: "nat \<Rightarrow> nat \<Rightarrow> scalar \<Rightarrow> exec \<Rightarrow> bool" where
  "represents sz n c x \<longleftrightarrow> lockstep sz n (sc_active c) (sc_lane c) x \<and>
     ex_start x 0 = sc_start c \<and> ex_end x 0 = sc_end c \<and> vr_helperUops (ex_result x) = sc_uops c"

lemma no_pop: "lockstep sz n a l x \<Longrightarrow> Exec_pop us sz n x = (False, x) \<and> Exec_preferred False n x = 0"
  by (simp add: Exec_pop_def VIR_popPath_def lockstep_def Exec_preferred_def)

lemma select_inactive: "(\<And>k. k \<in> set ls \<Longrightarrow> \<not> ex_active x k) \<Longrightarrow> Exec_select us sz False 0 ls x = (None, x)"
  by (induction ls) (simp_all add: Exec_eligible_def Let_def)

lemma select_first:
  assumes "ex_active x k" "\<not> vl_blocked (vi_lanes (ex_vir x) k)"
    and "VIR_fetch us sz 0 (ex_start x k) (ex_end x k) (vl_pc (vi_lanes (ex_vir x) k)) = Some (i, s, e)"
  shows "Exec_select us sz False 0 (k # ls) x =
    (Some (i, vl_pc (vi_lanes (ex_vir x) k)), x\<lparr>ex_start := (ex_start x)(k := s), ex_end := (ex_end x)(k := e)\<rparr>)"
  using assms by (simp add: Exec_eligible_def Let_def)

lemma step_refines:
  assumes R: "represents sz n c x" and n: "0 < n" and st: "Exec_step us sz n si x = (exit, x')"
  shows "fst (scalar_step us sz si c) = exit" "represents sz n (snd (scalar_step us sz si c)) x'" "exit \<noteq> Return"
proof -
  let ?l = "sc_lane c"
  have lock: "lockstep sz n (sc_active c) ?l x" using R by (simp add: represents_def)
  note pop = no_pop [OF lock, of us]
  have upt: "[0..<n] = 0 # [1..<n]" using n by (simp add: upt_conv_Cons)
  have lane0: "ex_active x 0 = sc_active c" "vi_lanes (ex_vir x) 0 = ?l" "ex_end x 0 \<le> sz" "\<not> vl_blocked ?l"
    using lock n by (auto simp: lockstep_def same_lanes_def)
  note step = st [unfolded Exec_step_def pop [THEN conjunct1] pop [THEN conjunct2] Let_def split]
  have "fst (scalar_step us sz si c) = exit \<and> represents sz n (snd (scalar_step us sz si c)) x' \<and> exit \<noteq> Return"
  proof (cases "sc_active c")
    case False
    then have "Exec_select us sz False 0 [0..<n] x = (None, x)"
      using lock by (intro select_inactive) (auto simp: lockstep_def same_lanes_def)
    then show ?thesis using step pop False R by (auto simp: scalar_step_def)
  next
    case act: True
    show ?thesis
    proof (cases "VIR_fetch us sz 0 (sc_start c) (sc_end c) (vl_pc ?l)")
      case None
      then have none: "\<forall>i < sz. up_pc (us ! i) \<noteq> vl_pc ?l" using lane0(3) R by (subst (asm) fetch_None) (auto simp: represents_def)
      obtain x1 where "Exec_select us sz False 0 [0..<n] x = (None, x1)" "\<forall>k \<in> set [0..<n]. \<not> ex_active x1 k"
          "vi_lanes (ex_vir x1) = vi_lanes (ex_vir x)" "frame x1 = frame x"
        using select_none [OF none lane0(4), of "[0..<n]" x] lock by (auto simp: lockstep_def same_lanes_def)
      then show ?thesis using step pop None act R lock
        by (auto simp: scalar_step_def represents_def lockstep_def same_lanes_def frame_def)
    next
      case (Some ise)
      obtain i s e where ise: "ise = (i, s, e)" by (cases ise)
      define x1 where "x1 = x\<lparr>ex_start := (ex_start x)(0 := s), ex_end := (ex_end x)(0 := e)\<rparr>"
      have f: "VIR_fetch us sz 0 (ex_start x 0) (ex_end x 0) (vl_pc ?l) = Some (i, s, e)"
        using Some ise R by (simp add: represents_def)
      have "Exec_select us sz False 0 [0..<n] x = (Some (i, vl_pc ?l), x1)"
        unfolding upt x1_def using select_first [of x 0 us sz i s e "[1..<n]"] lane0 act f by simp
      then have g: "Exec_group us sz n si i (vl_pc ?l) x1 = (exit, x')" using step pop by simp
      have lock1: "lockstep sz n True ?l x1"
        using lock act fetch_Some [OF f lane0(3)] by (auto simp: x1_def lockstep_def same_lanes_def)
      note gl = group_lockstep [OF lock1 n refl g]
      show ?thesis
        using gl act Some ise R by (auto simp: scalar_step_def represents_def case_prod_beta x1_def Let_def)
    qed
  qed
  then show "fst (scalar_step us sz si c) = exit" "represents sz n (snd (scalar_step us sz si c)) x'" "exit \<noteq> Return" by auto
qed

lemma loop_refines:
  assumes "represents sz n c x" and "0 < n"
  shows "\<exists>y. represents sz n (scalar_run steps us sz si c) y \<and>
    Exec_loop steps us sz n si m x = Exec_timeout n m y"
  using assms(1)
proof (induction steps arbitrary: c x)
  case 0
  then show ?case by auto
next
  case (Suc steps)
  obtain exit x' where st: "Exec_step us sz n si x = (exit, x')" by fastforce
  obtain c' where sc: "scalar_step us sz si c = (exit, c')" and R: "represents sz n c' x'" and "exit \<noteq> Return"
    using step_refines [OF Suc.prems assms(2) st] by (cases "scalar_step us sz si c") auto
  then show ?case using st Suc.IH [OF R] by (cases exit) auto
qed

lemma scalar_run_bound: "sc_uops (scalar_run steps us sz si c) \<le> sc_uops c + steps"
proof (induction steps arbitrary: c)
  case (Suc steps)
  have "sc_uops (snd (scalar_step us sz si c)) \<le> Suc (sc_uops c)"
    by (auto simp: scalar_step_def Let_def split: option.split prod.split)
  then show ?case using Suc.IH [of "snd (scalar_step us sz si c)"]
    by (auto split: prod.split loop_exit.split)
qed simp

definition scalar_init ::
    "uop list \<Rightarrow> nat \<Rightarrow> nat \<Rightarrow> (nat \<Rightarrow> reg_val) \<Rightarrow> int \<Rightarrow> reg_val \<Rightarrow> scalar" where
  "scalar_init us sz start regs source_destination source_value =
     (let regs0 = (\<lambda>reg. if reg < 32 then regs reg else 0);
          regs1 = (if 0 \<le> source_destination \<and> source_destination < 32
                   then regs0(nat source_destination := source_value) else regs0)
      in \<lparr>sc_active = True, sc_lane = empty_lane\<lparr>vl_pc := up_pc (us ! start), vl_regs := regs1\<rparr>,
          sc_start = start, sc_end = min (start + 8) sz, sc_uops = 0\<rparr>)"

lemma init_lanes:
  fixes v :: vir and us :: "uop list" and regs :: "nat \<Rightarrow> reg_val" and start sz n :: nat and d :: int and val :: reg_val
  defines "x0 \<equiv> \<lparr>ex_vir = VIR_reset v, ex_active = (\<lambda>l. False), ex_start = (\<lambda>l. 0), ex_end = (\<lambda>l. 0), ex_result = no_vir_result\<rparr>"
  defines "x \<equiv> \<lambda>n. fold (Exec_initLane (up_pc (us ! start)) start sz regs d val) [0..<n] x0"
  defines "c \<equiv> scalar_init us sz start regs d val"
  shows "(\<forall>k < n. ex_active (x n) k \<and> vi_lanes (ex_vir (x n)) k = sc_lane c \<and> ex_start (x n) k = sc_start c \<and>
      ex_end (x n) k = sc_end c) \<and> (\<forall>k \<ge> n. vi_lanes (ex_vir (x n)) k = empty_lane) \<and>
    vi_stackDepth (ex_vir (x n)) = 0 \<and> ex_result (x n) = no_vir_result"
proof (induction n)
  case 0
  then show ?case by (simp add: x_def x0_def VIR_reset_def)
next
  case (Suc n)
  have "x (Suc n) = Exec_initLane (up_pc (us ! start)) start sz regs d val n (x n)" by (simp add: x_def)
  then show ?case using Suc
    by (auto simp: Exec_initLane_def Let_def VIR_upd_def c_def scalar_init_def less_Suc_eq NumArchitecturalRegs_def
        FrontEndBufferUops_def empty_lane_def fun_eq_iff)
qed

section \<open>Property\<close>

text \<open>
  C39 (refinement). Every execution that goes through \<open>executeLanePC\<close>, whatever the recorded program,
  lane count, start index and source value: each lane ends with the registers and PC of the
  scalar interpreter run on the same program for the same number of operations, so the lanes
  stay in lockstep; no branch diverges and the reconvergence stack is never used or overflown;
  at most \<open>max_helper_uops\<close> operations are replayed, and the run is reported as timed out exactly
  if that budget is used up with the lane still active at a nonzero PC.
\<close>

theorem vir_lockstep:
  assumes "start < rc_count prog" and "0 < lanes" and "0 < m"
    and "VIR_executeLanePC prog lanes m regs start d val v = (r, v')"
  defines "c \<equiv> scalar_run m (rc_uops prog) (rc_count prog) start
                 (scalar_init (rc_uops prog) (rc_count prog) start regs d val)"
  shows "(\<forall>k < min lanes 128. vi_lanes v' k = sc_lane c) \<and>
    vr_helperUops r = sc_uops c \<and> sc_uops c \<le> m \<and>
    vr_divergentBranches r = 0 \<and> vr_reconvergences r = 0 \<and> \<not> vr_stackOverflow r \<and> vi_stackDepth v' = 0 \<and>
    vr_timedOut r = (m \<le> sc_uops c \<and> sc_active c \<and> vl_pc (sc_lane c) \<noteq> 0)"
proof -
  let ?us = "rc_uops prog" and ?sz = "rc_count prog" and ?n = "min lanes 128"
  let ?c = "scalar_init ?us ?sz start regs d val"
  define x0 where "x0 = \<lparr>ex_vir = VIR_reset v, ex_active = (\<lambda>l. False), ex_start = (\<lambda>l. 0), ex_end = (\<lambda>l. 0), ex_result = no_vir_result\<rparr>"
  define x1 where "x1 = fold (Exec_initLane (up_pc (?us ! start)) start ?sz regs d val) [0..<?n] x0"
  define x2 where "x2 = x1\<lparr>ex_result := (ex_result x1)\<lparr>vr_activeLanes := ?n\<rparr>\<rparr>"
  have n: "0 < ?n" using assms(2) by simp
  note init = init_lanes [of ?n ?us start ?sz regs d val v, folded x0_def, folded x1_def]
  have "represents ?sz ?n ?c x2"
    using init n by (auto simp: represents_def lockstep_def same_lanes_def x2_def scalar_init_def Let_def
        quiet_def no_vir_result_def empty_lane_def)
  from loop_refines [OF this n, of m ?us start m] obtain y where y: "represents ?sz ?n c y"
    and l: "Exec_loop m ?us ?sz ?n start m x2 = Exec_timeout ?n m y" unfolding c_def by blast
  have rv: "r = ex_result (Exec_timeout ?n m y)" "v' = ex_vir (Exec_timeout ?n m y)"
    using assms(1,3,4) n unfolding VIR_executeLanePC_def Let_def x0_def [symmetric] x1_def [symmetric]
      x2_def [symmetric] l by auto
  have "sc_uops c \<le> m" using scalar_run_bound [of m ?us ?sz start ?c] by (simp add: c_def scalar_init_def Let_def)
  moreover have "Exec_anyActive ?n y \<longleftrightarrow> sc_active c \<and> vl_pc (sc_lane c) \<noteq> 0"
    using any_active_same [OF _ n] y by (auto simp: represents_def lockstep_def)
  ultimately show ?thesis using y unfolding rv
    by (auto simp: Exec_timeout_def represents_def lockstep_def same_lanes_def quiet_def)
qed

section \<open>Witness\<close>

theorem vir_lockstep_witness:
  "vr_divergentBranches (fst (VIR_execute demo_recording 4 10 (\<lambda>r. 7) VIR_new)) = 0 \<and>
   vr_helperUops (fst (VIR_execute demo_recording 4 10 (\<lambda>r. 7) VIR_new)) \<le> 10"
proof -
  have start: "0 < rc_count demo_recording" using demo_program(2) by simp
  obtain r v' where e: "VIR_executeLanePC demo_recording 4 10 (\<lambda>r. 7) 0 (- 1) 0 VIR_new = (r, v')" by fastforce
  show ?thesis using vir_lockstep [OF start _ _ e] e by (simp add: VIR_execute_def)
qed

end
