(* ===== verification/DVR_VIR_Resume.thy ===== *)
theory DVR_VIR_Resume
  imports DVR_VIR
begin

unbundle bit_operations_syntax

text \<open>
  The response-driven interpreters of \<open>DVRVectorInstructionRegister\<close>:
  \<open>initializeSourceContinuation\<close>, \<open>resumeSourceLane\<close> and \<open>resumeSourceLanes\<close> (\<open>pre.cc\<close> 1708-2311). A
  source load returns one lane at a time; the first resumes that lane alone, the second makes it
  ready and issues groups of ready lanes by PC.
\<close>

section \<open>Model\<close>

definition Resume_initLane :: "addr \<Rightarrow> nat \<Rightarrow> (nat \<Rightarrow> reg_val) \<Rightarrow> nat \<Rightarrow> vir \<Rightarrow> vir" where
  "Resume_initLane entry sz initial_regs lane v =
     (let v1 = VIR_upd lane (\<lambda>l. l\<lparr>vl_active := True, vl_ready := False, vl_blocked := False, vl_pc := entry,
                 vl_windowStart := 1, vl_windowEnd := min (1 + FrontEndBufferUops) sz,
                 vl_regs := (\<lambda>reg. if reg < NumArchitecturalRegs then initial_regs reg else vl_regs l reg)\<rparr>) v
      in v1\<lparr>vi_activeMask := set_lane lane (vi_activeMask v1)\<rparr>)"

definition VIR_initializeSourceContinuation ::
    "uop list \<Rightarrow> nat \<Rightarrow> nat \<Rightarrow> (nat \<Rightarrow> reg_val) \<Rightarrow> nat \<Rightarrow> bool \<Rightarrow> vir \<Rightarrow> vir" where
  "VIR_initializeSourceContinuation source sz lanes initial_regs scalar_count continue_past_flr v0 =
     (let v = (VIR_reset v0)\<lparr>vi_continuationLanes := min lanes 128,
                vi_stopIndex := (if scalar_count > 1 then scalar_count - 1 else 0),
                vi_continuePastFLR := continue_past_flr\<rparr>
      in if sz \<le> 1 \<or> vi_continuationLanes v = 0 then v
         else fold (Resume_initLane (up_pc (source ! 1)) sz initial_regs) [0..<vi_continuationLanes v]
                (v\<lparr>vi_initialized := True\<rparr>))"

text \<open>
  The direction of a branch; a tainted branch without a decoded comparison follows a nonzero
  first operand.
\<close>

definition Resume_direction :: direction where
  "Resume_direction op lhs rhs =
     (if up_tainted op
      then (case Uop_evaluateBranch op lhs rhs of
              Some taken \<Rightarrow> (taken, True)
            | None \<Rightarrow> ((lhs \<noteq> 0) = up_branchTaken op, False))
      else (up_branchTaken op, True))"

definition Resume_setSource :: "nat \<Rightarrow> int \<Rightarrow> reg_val \<Rightarrow> vir \<Rightarrow> vir" where
  "Resume_setSource lane source_destination source_value v =
     (if source_destination \<ge> 0 \<and> source_destination < int NumArchitecturalRegs
      then VIR_upd lane (\<lambda>l. l\<lparr>vl_regs := (vl_regs l)(nat source_destination := source_value)\<rparr>) v else v)"

subsection \<open>One lane\<close>

definition Lane_stop :: "nat \<Rightarrow> vir \<Rightarrow> vir" where
  "Lane_stop lane v = VIR_maskOff lane (VIR_upd lane (\<lambda>l. l\<lparr>vl_active := False\<rparr>) v)"

text \<open>A pending reconvergence at the operation is counted and cleared.\<close>

definition Lane_reconverge :: "nat \<Rightarrow> nat \<Rightarrow> vir \<times> vir_result \<Rightarrow> vir \<times> vir_result" where
  "Lane_reconverge lane i s =
     (let (v, r) = s in
      if vl_pending (vi_lanes v lane) i
      then (VIR_upd lane (\<lambda>l. l\<lparr>vl_pending := (vl_pending l)(i := False),
              vl_stackDepth := (if vl_stackDepth l \<noteq> 0 then vl_stackDepth l - 1 else vl_stackDepth l)\<rparr>) v,
            r\<lparr>vr_reconvergences := vr_reconvergences r + 1,
              vr_alternatePathReconvergences := vr_alternatePathReconvergences r + 1\<rparr>)
      else (v, r))"

text \<open>A transfer off the captured path marks the first operation at the reconvergence PC.\<close>

definition Lane_mark :: "uop list \<Rightarrow> nat \<Rightarrow> uop \<Rightarrow> addr \<Rightarrow> nat \<Rightarrow> vir \<Rightarrow> vir" where
  "Lane_mark us sz op nxt lane v =
     (let captured_target = (if up_branchTaken op then up_branchTargetPC op else up_fallthroughPC op) in
      if nxt \<noteq> captured_target \<and> up_reconvergencePC op \<noteq> 0
      then (case List.find (\<lambda>i. up_pc (us ! i) = up_reconvergencePC op) [1..<sz] of
              Some i \<Rightarrow> VIR_upd lane (\<lambda>l. l\<lparr>vl_pending := (vl_pending l)(i := True)\<rparr>) v
            | None \<Rightarrow> v)
      else v)"

definition Lane_execute :: "uop list \<Rightarrow> nat \<Rightarrow> nat \<Rightarrow> nat \<Rightarrow> vir \<times> vir_result \<Rightarrow> bool \<times> vir \<times> vir_result" where
  "Lane_execute us sz lane i s =
     (let (v, r) = s; op = us ! i; first_pc = up_pc (us ! 0) in
      case VIR_outcome Resume_direction us sz i (vi_lanes v lane) of
        Branch taken supported nxt \<Rightarrow>
          (let v1 = VIR_upd lane (VIR_setPC nxt) (Lane_mark us sz op nxt lane v);
               r1 = VIR_issue (if supported then r else VIR_external r)
           in if nxt = 0 then (False, Lane_stop lane v1, VIR_early r1)
              else if nxt = first_pc then (False, Lane_stop lane v1, VIR_normal r1)
              else (True, v1, r1))
      | Jump target \<Rightarrow>
          (let v1 = VIR_upd lane (VIR_setPC target) (Lane_mark us sz op target lane v); r1 = VIR_issue r
           in if target = 0 then (False, Lane_stop lane v1, VIR_early r1)
              else if target = first_pc then (False, Lane_stop lane v1, VIR_normal r1)
              else (True, v1, r1))
      | Leave \<Rightarrow> (False, Lane_stop lane v, VIR_normal r)
      | Skip nxt \<Rightarrow>
          (let v1 = VIR_upd lane (VIR_setPC nxt) v; r1 = VIR_issue r
           in if nxt = 0 then (False, Lane_stop lane v1, VIR_normal r1) else (True, v1, r1))
      | Fault \<Rightarrow> (False, Lane_stop lane v, VIR_fault op r)
      | Write value nxt \<Rightarrow>
          (let v1 = VIR_upd lane (\<lambda>l. VIR_setPC nxt (VIR_write op value l)) v; r1 = VIR_issue r
           in if nxt = 0 then (False, Lane_stop lane v1, VIR_normal r1)
              else if \<not> vi_continuePastFLR v \<and> i = vi_stopIndex v
              then (False, Lane_stop lane (VIR_upd lane (VIR_setPC 0) v1), VIR_normal r1)
              else (True, v1, r1)))"

definition Lane_step :: "uop list \<Rightarrow> nat \<Rightarrow> nat \<Rightarrow> vir \<times> vir_result \<Rightarrow> bool \<times> vir \<times> vir_result" where
  "Lane_step us sz lane s =
     (let (v, r) = s; l = vi_lanes v lane in
      case VIR_fetch us sz 1 (vl_windowStart l) (vl_windowEnd l) (vl_pc l) of
        None \<Rightarrow>
          (False, Lane_stop lane v,
           if vl_pc l = up_pc (us ! 0) then VIR_normal r else if vl_pc l \<noteq> 0 then VIR_external r else r)
      | Some (i, start, stop) \<Rightarrow>
          Lane_execute us sz lane i (Lane_reconverge lane i
            (VIR_upd lane (\<lambda>l. l\<lparr>vl_windowStart := start, vl_windowEnd := stop\<rparr>) v, r)))"

fun Lane_loop :: "nat \<Rightarrow> uop list \<Rightarrow> nat \<Rightarrow> nat \<Rightarrow> vir \<times> vir_result \<Rightarrow> vir \<times> vir_result" where
  "Lane_loop 0 us sz lane s = s"
| "Lane_loop (Suc steps) us sz lane s =
     (let (continue, s1) = Lane_step us sz lane s in if continue then Lane_loop steps us sz lane s1 else s1)"

definition Resume_refused :: "nat \<Rightarrow> nat \<Rightarrow> nat \<Rightarrow> vir \<Rightarrow> bool" where
  "Resume_refused sz lane max_uops v \<longleftrightarrow>
     \<not> vi_initialized v \<or> sz \<le> 1 \<or> lane \<ge> vi_continuationLanes v \<or> \<not> vl_active (vi_lanes v lane) \<or> max_uops = 0"

definition VIR_resumeSourceLane ::
    "uop list \<Rightarrow> nat \<Rightarrow> nat \<Rightarrow> int \<Rightarrow> reg_val \<Rightarrow> nat \<Rightarrow> vir \<Rightarrow> vir_result \<times> vir" where
  "VIR_resumeSourceLane us sz lane source_destination source_value max_uops v =
     (if Resume_refused sz lane max_uops v then (no_vir_result, v)
      else
        (let (v1, r1) = Lane_loop max_uops us sz lane
               (Resume_setSource lane source_destination source_value v, no_vir_result\<lparr>vr_activeLanes := 1\<rparr>)
         in (if vr_helperUops r1 \<ge> max_uops \<and> vl_active (vi_lanes v1 lane)
             then r1\<lparr>vr_timedOut := True\<rparr> else r1, v1)))"

subsection \<open>Groups of ready lanes\<close>

definition Group_eligible :: "vir \<Rightarrow> nat \<Rightarrow> bool" where
  "Group_eligible v lane \<longleftrightarrow>
     vl_active (vi_lanes v lane) \<and> vl_ready (vi_lanes v lane) \<and> \<not> vl_blocked (vi_lanes v lane)"

definition Group_stop :: "nat \<Rightarrow> vir \<Rightarrow> vir" where
  "Group_stop lane v = VIR_maskOff lane (VIR_upd lane (\<lambda>l. l\<lparr>vl_active := False, vl_ready := False\<rparr>) v)"

text \<open>
  The group: its operation, if it has one, and its PC. Only the first lane that may lead it is
  looked at; a new window is opened for that lane.
\<close>

definition Group_preferred :: "bool \<Rightarrow> nat \<Rightarrow> vir \<Rightarrow> addr" where
  "Group_preferred resumed n v =
     (if resumed then (case List.find (Group_eligible v) [0..<n] of
                         Some lane \<Rightarrow> vl_pc (vi_lanes v lane)
                       | None \<Rightarrow> 0)
      else 0)"

definition Group_select :: "uop list \<Rightarrow> nat \<Rightarrow> bool \<Rightarrow> nat \<Rightarrow> vir \<Rightarrow> (nat \<times> addr) option \<times> vir" where
  "Group_select us sz resumed n v =
     (let preferred = Group_preferred resumed n v in
      case List.find (\<lambda>lane. Group_eligible v lane \<and>
             \<not> (resumed \<and> preferred \<noteq> 0 \<and> vl_pc (vi_lanes v lane) \<noteq> preferred)) [0..<n] of
        None \<Rightarrow> (None, v)
      | Some lane \<Rightarrow>
          (let l = vi_lanes v lane in
           case VIR_fetch us sz 1 (vl_windowStart l) (vl_windowEnd l) (vl_pc l) of
             None \<Rightarrow> (None, v)
           | Some (i, start, stop) \<Rightarrow>
               (Some (i, vl_pc l), VIR_upd lane (\<lambda>l. l\<lparr>vl_windowStart := start, vl_windowEnd := stop\<rparr>) v)))"

text \<open>Without an operation every eligible lane leaves.\<close>

definition Group_leave :: "uop list \<Rightarrow> nat \<Rightarrow> vir \<times> vir_result \<Rightarrow> vir \<times> vir_result" where
  "Group_leave us n s =
     fold (\<lambda>lane (v, r).
       if \<not> Group_eligible v lane then (v, r)
       else (Group_stop lane v,
             let pc = vl_pc (vi_lanes v lane)
             in if pc = up_pc (us ! 0) then VIR_normal r else if pc \<noteq> 0 then VIR_external r else r)) [0..<n] s"

text \<open>A branch waits until every active lane at its PC that is not blocked is ready.\<close>

definition Group_branchReady :: "addr \<Rightarrow> nat \<Rightarrow> vir \<Rightarrow> bool" where
  "Group_branchReady group_pc n v =
     (let at = filter (\<lambda>lane. vl_active (vi_lanes v lane) \<and> \<not> vl_blocked (vi_lanes v lane) \<and>
                 vl_pc (vi_lanes v lane) = group_pc) [0..<n]
      in at \<noteq> [] \<and> list_all (\<lambda>lane. vl_ready (vi_lanes v lane)) at)"

definition Group_reconverge :: "nat \<Rightarrow> addr \<Rightarrow> nat \<Rightarrow> vir \<times> vir_result \<Rightarrow> vir \<times> vir_result" where
  "Group_reconverge i group_pc n s =
     fold (\<lambda>lane (v, r).
       let l = vi_lanes v lane in
       if vl_active l \<and> vl_ready l \<and> vl_pc l = group_pc \<and> vl_pending l i
       then (VIR_upd lane (\<lambda>l. l\<lparr>vl_pending := (vl_pending l)(i := False)\<rparr>) v,
             r\<lparr>vr_alternatePathReconvergences := vr_alternatePathReconvergences r + 1\<rparr>)
       else (v, r)) [0..<n] s"

text \<open>
  One lane of the group; \<open>gs_lanes\<close> counts them. A blocked lane at the same PC takes part too.
\<close>

record group_state =
  gs_vir :: vir
  gs_result :: vir_result
  gs_branches :: branch_group
  gs_lanes :: nat

definition Group_move :: "nat \<Rightarrow> (vlane \<Rightarrow> vlane) \<Rightarrow> bool \<Rightarrow> (vir_result \<Rightarrow> vir_result) \<Rightarrow> group_state \<Rightarrow> group_state" where
  "Group_move lane f stops h s =
     (let v = VIR_upd lane f (gs_vir s)
      in s\<lparr>gs_vir := (if stops then Group_stop lane v else v), gs_result := h (gs_result s)\<rparr>)"

definition Group_apply :: "uop list \<Rightarrow> nat \<Rightarrow> nat \<Rightarrow> addr \<Rightarrow> nat \<Rightarrow> group_state \<Rightarrow> group_state" where
  "Group_apply us sz i group_pc lane s0 =
     (let v = gs_vir s0; l = vi_lanes v lane; op = us ! i; first_pc = up_pc (us ! 0) in
      if \<not> vl_active l \<or> \<not> vl_ready l \<or> vl_pc l \<noteq> group_pc then s0
      else
        (let s = s0\<lparr>gs_lanes := gs_lanes s0 + 1\<rparr> in
         case VIR_outcome Resume_direction us sz i l of
           Branch taken supported nxt \<Rightarrow>
             (Group_move lane (VIR_setPC nxt) (nxt = 0 \<or> nxt = first_pc)
               (\<lambda>r. (if nxt = 0 then VIR_early else if nxt = first_pc then VIR_normal else id)
                      ((if supported then id else VIR_external) r)) s)
               \<lparr>gs_branches := note_branch lane taken (gs_branches s)\<rparr>
         | Jump target \<Rightarrow>
             Group_move lane (VIR_setPC target) (target = 0 \<or> target = first_pc)
               (\<lambda>r. (if target = 0 then VIR_early else if target = first_pc then VIR_normal else id) (VIR_issue r)) s
         | Leave \<Rightarrow> Group_move lane id True VIR_normal s
         | Skip nxt \<Rightarrow>
             Group_move lane (VIR_setPC nxt) (nxt = 0) (\<lambda>r. (if nxt = 0 then VIR_normal else id) (VIR_issue r)) s
         | Fault \<Rightarrow> Group_move lane id True (VIR_fault op) s
         | Write value nxt \<Rightarrow>
             (let at_stop = (\<not> vi_continuePastFLR v \<and> i = vi_stopIndex v)
              in Group_move lane (\<lambda>l. VIR_setPC (if nxt \<noteq> 0 \<and> at_stop then 0 else nxt) (VIR_write op value l))
                   (nxt = 0 \<or> at_stop) (if nxt = 0 \<or> at_stop then VIR_normal else id) s)))"

definition Group_execute ::
    "uop list \<Rightarrow> nat \<Rightarrow> nat \<Rightarrow> nat \<Rightarrow> addr \<Rightarrow> vir \<Rightarrow> vir_result \<Rightarrow> loop_exit \<times> vir \<times> vir_result" where
  "Group_execute us sz n i group_pc v0 r0 =
     (let op = us ! i;
          r1 = (if up_alternatePath op then r0\<lparr>vr_alternatePathUops := vr_alternatePathUops r0 + 1\<rparr> else r0);
          (v2, r2) = Group_reconverge i group_pc n (v0, r1);
          s = fold (Group_apply us sz i group_pc) [0..<n]
                \<lparr>gs_vir = v2, gs_result = r2\<lparr>vr_pcGroups := vr_pcGroups r2 + 1\<rparr>, gs_branches = no_branches, gs_lanes = 0\<rparr>
      in if gs_lanes s = 0 then (Break, gs_vir s, gs_result s)
         else
           (let v3 = gs_vir s;
                r3 = (gs_result s)\<lparr>vr_activeLanes := vr_activeLanes (gs_result s) + gs_lanes s,
                       vr_maxPCGroupLanes := max (vr_maxPCGroupLanes (gs_result s)) (gs_lanes s)\<rparr>;
                (ok, v4, r4) = VIR_diverge us sz op
                  (\<lambda>lane. vl_active (vi_lanes v3 lane) \<and> vl_ready (vi_lanes v3 lane) \<and> vl_pc (vi_lanes v3 lane) \<noteq> 0)
                  n (gs_branches s) v3 r3
            in if \<not> ok then (Return, v4, r4) else (Continue, v4, VIR_issue r4)))"

definition Group_step :: "uop list \<Rightarrow> nat \<Rightarrow> vir \<times> vir_result \<Rightarrow> loop_exit \<times> vir \<times> vir_result" where
  "Group_step us sz s =
     (let (v, r) = s; n = vi_continuationLanes v;
          (resumed, v1, r1) = VIR_popPath us sz n (Group_eligible v) v r;
          (found, v2) = Group_select us sz resumed n v1
      in case found of
           None \<Rightarrow> (Break, Group_leave us n (v2, r1))
         | Some (i, group_pc) \<Rightarrow>
             if up_conditional (us ! i) \<and> \<not> Group_branchReady group_pc n v2 then (Return, v2, r1)
             else Group_execute us sz n i group_pc v2 r1)"

definition Group_timeout :: "nat \<Rightarrow> vir \<times> vir_result \<Rightarrow> vir_result \<times> vir" where
  "Group_timeout max_uops s =
     (let (v, r) = s
      in (if vr_helperUops r \<ge> max_uops \<and> list_ex (Group_eligible v) [0..<vi_continuationLanes v]
          then r\<lparr>vr_timedOut := True\<rparr> else r, v))"

fun Group_loop :: "nat \<Rightarrow> uop list \<Rightarrow> nat \<Rightarrow> nat \<Rightarrow> vir \<times> vir_result \<Rightarrow> vir_result \<times> vir" where
  "Group_loop 0 us sz max_uops s = Group_timeout max_uops s"
| "Group_loop (Suc steps) us sz max_uops s =
     (case Group_step us sz s of
        (Continue, s1) \<Rightarrow> Group_loop steps us sz max_uops s1
      | (Break, s1) \<Rightarrow> Group_timeout max_uops s1
      | (Return, v1, r1) \<Rightarrow> (r1, v1))"

definition VIR_resumeSourceLanes ::
    "uop list \<Rightarrow> nat \<Rightarrow> nat \<Rightarrow> int \<Rightarrow> reg_val \<Rightarrow> nat \<Rightarrow> vir \<Rightarrow> vir_result \<times> vir" where
  "VIR_resumeSourceLanes us sz lane source_destination source_value max_uops v =
     (if Resume_refused sz lane max_uops v then (no_vir_result, v)
      else
        (let v1 = VIR_upd lane (\<lambda>l. l\<lparr>vl_ready := True\<rparr>) (Resume_setSource lane source_destination source_value v)
         in if \<not> list_ex (\<lambda>k. vl_active (vi_lanes v1 k) \<and> vl_ready (vi_lanes v1 k)) [0..<vi_continuationLanes v1]
            then (no_vir_result, v1)
            else Group_loop max_uops us sz max_uops (v1, no_vir_result)))"

section \<open>Lanes that wait for their response\<close>

text \<open>
  The invariant: a deferred lane has had its response, or is no longer active. So restoring a
  deferred path never wakes a lane that still waits.
\<close>

definition settled :: "vlane \<Rightarrow> bool" where
  "settled l \<longleftrightarrow> vl_ready l \<or> \<not> vl_active l"

definition entry_ok :: "(nat \<Rightarrow> vlane) \<Rightarrow> reconvergence_entry \<Rightarrow> bool" where
  "entry_ok lanes e \<longleftrightarrow> length (re_deferredMask e) = 2 \<and>
     (\<forall>k < 128. test_lane (re_deferredMask e) k \<longrightarrow> settled (lanes k))"

definition vir_ok :: "vir \<Rightarrow> bool" where
  "vir_ok v \<longleftrightarrow> vi_continuationLanes v \<le> 128 \<and> (\<forall>d < vi_stackDepth v. entry_ok (vi_lanes v) (vi_stack v d))"

definition keeps :: "(vlane \<Rightarrow> vlane) \<Rightarrow> bool" where
  "keeps f \<longleftrightarrow> (\<forall>l. settled l \<longrightarrow> settled (f l))"

definition safe :: "nat \<Rightarrow> vlane \<Rightarrow> vir \<Rightarrow> bool" where
  "safe w L v \<longleftrightarrow> vir_ok v \<and> vi_lanes v w = L"

named_theorems safe_intros

lemma upd_fields [simp]:
  "vi_stack (VIR_upd k f v) = vi_stack v" "vi_stackDepth (VIR_upd k f v) = vi_stackDepth v"
  "vi_continuationLanes (VIR_upd k f v) = vi_continuationLanes v"
  "vi_lanes (VIR_upd k f v) j = (if j = k then f (vi_lanes v k) else vi_lanes v j)"
  by (simp_all add: VIR_upd_def)

lemma vir_ok_upd: "vir_ok v \<Longrightarrow> keeps f \<Longrightarrow> vir_ok (VIR_upd k f v)"
  by (auto simp: vir_ok_def VIR_upd_def entry_ok_def keeps_def)

lemma safe_upd [safe_intros]: "safe w L v \<Longrightarrow> k \<noteq> w \<Longrightarrow> keeps f \<Longrightarrow> safe w L (VIR_upd k f v)"
  using vir_ok_upd by (auto simp: safe_def VIR_upd_def)

lemma safe_maskOff [safe_intros]: "safe w L v \<Longrightarrow> safe w L (VIR_maskOff k v)"
  by (simp add: safe_def vir_ok_def VIR_maskOff_def)

lemma keeps_moves [simp]:
  "keeps id" "keeps (VIR_setPC pc)" "keeps (\<lambda>l. VIR_setPC pc (VIR_write op x l))"
  "keeps (\<lambda>l. l\<lparr>vl_active := False\<rparr>)" "keeps (\<lambda>l. l\<lparr>vl_active := False, vl_ready := False\<rparr>)"
  "keeps (\<lambda>l. l\<lparr>vl_windowStart := s, vl_windowEnd := e\<rparr>)" "keeps (\<lambda>l. l\<lparr>vl_blocked := True\<rparr>)"
  "keeps (\<lambda>l. l\<lparr>vl_blocked := False, vl_pc := pc\<rparr>)" "keeps (\<lambda>l. l\<lparr>vl_ready := True\<rparr>)"
  "keeps (\<lambda>l. l\<lparr>vl_pending := (vl_pending l)(i := b)\<rparr>)" "keeps (\<lambda>l. l\<lparr>vl_regs := (vl_regs l)(d := x)\<rparr>)"
  "keeps (\<lambda>l. l\<lparr>vl_pending := (vl_pending l)(i := b), vl_stackDepth := g l\<rparr>)"
  by (simp_all add: keeps_def settled_def VIR_setPC_def VIR_write_def)

lemma safe_setSource [safe_intros]: "safe w L v \<Longrightarrow> k \<noteq> w \<Longrightarrow> safe w L (Resume_setSource k d x v)"
  by (simp add: Resume_setSource_def safe_upd)

lemma safe_Lane_stop [safe_intros]: "safe w L v \<Longrightarrow> k \<noteq> w \<Longrightarrow> safe w L (Lane_stop k v)"
  by (simp add: Lane_stop_def safe_upd safe_maskOff)

lemma safe_Group_stop [safe_intros]: "safe w L v \<Longrightarrow> k \<noteq> w \<Longrightarrow> safe w L (Group_stop k v)"
  by (simp add: Group_stop_def safe_upd safe_maskOff)

lemma safe_Lane_mark [safe_intros]: "safe w L v \<Longrightarrow> k \<noteq> w \<Longrightarrow> safe w L (Lane_mark us sz op nxt k v)"
  by (auto simp: Lane_mark_def Let_def intro: safe_intros split: option.split)

lemma safe_Lane_reconverge: "safe w L (fst s) \<Longrightarrow> k \<noteq> w \<Longrightarrow> safe w L (fst (Lane_reconverge k i s))"
  by (cases s) (auto simp: Lane_reconverge_def Let_def intro: safe_intros)

lemma safe_Lane_execute: "safe w L (fst s) \<Longrightarrow> k \<noteq> w \<Longrightarrow> safe w L (fst (snd (Lane_execute us sz k i s)))"
  by (cases s) (auto simp: Lane_execute_def Let_def intro!: safe_intros split: lane_outcome.split)

lemma safe_Lane_step: "safe w L (fst s) \<Longrightarrow> k \<noteq> w \<Longrightarrow> safe w L (fst (snd (Lane_step us sz k s)))"
  unfolding Lane_step_def Let_def
  by (cases s) (auto intro!: safe_intros safe_Lane_execute safe_Lane_reconverge split: option.split)

lemma safe_Lane_loop: "safe w L (fst s) \<Longrightarrow> k \<noteq> w \<Longrightarrow> safe w L (fst (Lane_loop steps us sz k s))"
proof (induction steps arbitrary: s)
  case (Suc steps)
  then show ?case using safe_Lane_step [OF Suc.prems, of us sz] by (auto simp: Let_def split: prod.split)
qed simp

lemma safe_resumeLane:
  assumes "safe w L v" "k \<noteq> w"
  shows "safe w L (snd (VIR_resumeSourceLane us sz k d x m v))"
  using safe_Lane_loop [of w L "(Resume_setSource k d x v, no_vir_result\<lparr>vr_activeLanes := 1\<rparr>)" k m us sz]
    safe_setSource [OF assms] assms
  by (auto simp: VIR_resumeSourceLane_def split: prod.split)

text \<open>The group interpreter: a lane that is active and not ready takes no part in any stage.\<close>

lemma safe_unblock:
  assumes "safe w L v" "w < n \<Longrightarrow> \<not> test_lane m w"
  shows "safe w L (VIR_unblock m pc n v)"
  unfolding VIR_unblock_def
  by (rule fold_upt_inv [where P = "\<lambda>k. safe w L"]) (use assms in \<open>auto intro: safe_intros\<close>)

lemma unblock_fields [simp]:
  "vi_stack (VIR_unblock m pc n v) = vi_stack v" "vi_stackDepth (VIR_unblock m pc n v) = vi_stackDepth v"
  unfolding VIR_unblock_def
  by (rule fold_upt_inv [where P = "\<lambda>k x. vi_stack x = vi_stack v"], auto simp: VIR_upd_def)
    (rule fold_upt_inv [where P = "\<lambda>k x. vi_stackDepth x = vi_stackDepth v"], auto simp: VIR_upd_def)

lemma safe_pop:
  assumes s: "safe w L v" and w: "w < 128 \<Longrightarrow> \<not> settled L" "n \<le> 128" and p: "VIR_popPath us sz n el v r = (b, v', r')"
  shows "safe w L v'"
proof (cases "v' = v")
  case False
  let ?top = "vi_stack v (vi_stackDepth v - 1)"
  have d: "vi_stackDepth v \<noteq> 0"
    and v': "v' = (VIR_unblock (re_deferredMask ?top) (re_deferredPC ?top) n v)\<lparr>vi_stackDepth := vi_stackDepth v - 1\<rparr>"
    using p False by (auto simp: VIR_popPath_def Let_def split: if_splits)
  have "entry_ok (vi_lanes v) ?top" using s d by (simp add: safe_def vir_ok_def)
  then have "w < n \<Longrightarrow> \<not> test_lane (re_deferredMask ?top) w" using s w by (auto simp: entry_ok_def safe_def)
  from safe_unblock [OF s this, where pc = "re_deferredPC ?top"] show ?thesis by (auto simp: v' safe_def vir_ok_def)
qed (use s in simp)

lemma waiting_not_eligible: "safe w L v \<Longrightarrow> \<not> settled L \<Longrightarrow> \<not> Group_eligible v w"
  by (auto simp: safe_def settled_def Group_eligible_def)

lemma safe_select:
  assumes s: "safe w L v" and w: "w < 128 \<Longrightarrow> \<not> settled L" "n \<le> 128" and p: "Group_select us sz b n v = (f, v')"
  shows "safe w L v'"
  using p waiting_not_eligible [OF s] s w
  by (auto simp: Group_select_def Let_def find_upt_Some intro: safe_intros split: option.splits)

lemma safe_leave:
  assumes "safe w L (fst s)" "w < 128 \<Longrightarrow> \<not> settled L" "n \<le> 128"
  shows "safe w L (fst (Group_leave us n s))"
  unfolding Group_leave_def
proof (rule fold_upt_inv [where P = "\<lambda>k s. safe w L (fst s)"])
  fix k and s :: "vir \<times> vir_result" assume "k < n" "safe w L (fst s)"
  then show "safe w L (fst ((\<lambda>(v, r). if \<not> Group_eligible v k then (v, r)
      else (Group_stop k v, let pc = vl_pc (vi_lanes v k)
             in if pc = up_pc (us ! 0) then VIR_normal r else if pc \<noteq> 0 then VIR_external r else r)) s))"
    using waiting_not_eligible [of w L "fst s"] assms(2,3) by (cases s) (auto intro: safe_intros)
qed (use assms in auto)

lemma safe_reconverge:
  assumes "safe w L (fst s)" "w < 128 \<Longrightarrow> \<not> settled L" "n \<le> 128"
  shows "safe w L (fst (Group_reconverge i pc n s))"
  unfolding Group_reconverge_def
proof (rule fold_upt_inv [where P = "\<lambda>k s. safe w L (fst s)"])
  fix k and s :: "vir \<times> vir_result" assume "k < n" "safe w L (fst s)"
  then show "safe w L (fst ((\<lambda>(v, r). let l = vi_lanes v k in
       if vl_active l \<and> vl_ready l \<and> vl_pc l = pc \<and> vl_pending l i
       then (VIR_upd k (\<lambda>l. l\<lparr>vl_pending := (vl_pending l)(i := False)\<rparr>) v,
             r\<lparr>vr_alternatePathReconvergences := vr_alternatePathReconvergences r + 1\<rparr>)
       else (v, r)) s))"
    using assms(2,3) by (cases s) (auto simp: Let_def safe_def settled_def intro: vir_ok_upd)
qed (use assms in auto)

lemma safe_move: "safe w L (gs_vir s) \<Longrightarrow> k \<noteq> w \<Longrightarrow> keeps f \<Longrightarrow> safe w L (gs_vir (Group_move k f stops h s))"
  by (simp add: Group_move_def Let_def safe_upd safe_Group_stop)

lemma safe_apply:
  assumes "safe w L (gs_vir s)" "w < 128 \<Longrightarrow> \<not> settled L" "k < 128"
  shows "safe w L (gs_vir (Group_apply us sz i pc k s))"
proof (cases "k = w")
  case True
  then show ?thesis using assms by (simp add: Group_apply_def Let_def safe_def settled_def)
next
  case False
  let ?t = "s\<lparr>gs_lanes := gs_lanes s + 1\<rparr>"
  have "safe w L (gs_vir ?t)" using assms by simp
  note mv = safe_move [OF this False]
  show ?thesis using assms(1) mv
    by (simp add: Group_apply_def Let_def split: lane_outcome.split)
qed

text \<open>Deferring touches ready lanes only, and the entry pushed holds ready lanes only.\<close>

lemma safe_diverge:
  assumes s: "safe w L v" and w: "w < 128 \<Longrightarrow> \<not> settled L" "n \<le> 128"
    and c: "\<And>k. considered k \<Longrightarrow> vl_ready (vi_lanes v k)"
    and d: "VIR_diverge us sz op considered n g v r = (ok, v', r')"
  shows "safe w L v'"
proof (cases "v' = v")
  case False
  define P where "P = (\<lambda>(k :: nat) (s :: lane_mask \<times> addr \<times> bool \<times> vir).
    safe w L (snd (snd (snd s))) \<and> length (fst s) = 2 \<and>
    vi_stack (snd (snd (snd s))) = vi_stack v \<and> vi_stackDepth (snd (snd (snd s))) = vi_stackDepth v \<and>
    (\<forall>j. vl_ready (vi_lanes (snd (snd (snd s))) j) = vl_ready (vi_lanes v j)) \<and>
    (\<forall>j < 128. test_lane (fst s) j \<longrightarrow> vl_ready (vi_lanes v j)))"
  have step: "P (Suc k) (if considered k then VIR_defer us sz g k s else s)" if "k < n" "P k s" for k s
  proof -
    obtain m pc a u where su: "s = (m, pc, a, u)" by (cases s)
    have "considered k \<Longrightarrow> k \<noteq> w" using c s w that(1) by (auto simp: safe_def settled_def)
    then show ?thesis using that c [of k] w(2) unfolding P_def su
      by (simp add: VIR_defer_def Let_def test_set_lane safe_upd)
  qed
  have start: "P 0 (empty_mask, 0, False, v)" using s test_empty_mask by (simp add: P_def empty_mask_def)
  obtain m pc a u where f: "fold (\<lambda>k s. if considered k then VIR_defer us sz g k s else s) [0..<n] (empty_mask, 0, False, v) =
      (m, pc, a, u)" by (rule prod_cases4)
  have "P n (m, pc, a, u)" unfolding f [symmetric]
    by (rule fold_upt_inv [where P = P, OF start]) (rule step, assumption+, simp)
  then have u: "safe w L u" "length m = 2" "vi_stackDepth u = vi_stackDepth v"
      "\<forall>j < 128. test_lane m j \<longrightarrow> vl_ready (vi_lanes u j)" by (simp_all add: P_def)
  have "v' = u\<lparr>vi_stack := (vi_stack u)(vi_stackDepth u := \<lparr>re_deferredMask = m, re_deferredPC = pc,
      re_pc = (if up_reconvergencePC op \<noteq> 0 then up_reconvergencePC op else up_fallthroughPC op), re_alternatePath = a\<rparr>),
      vi_stackDepth := vi_stackDepth u + 1\<rparr>"
    using d False f by (auto simp: VIR_diverge_def Let_def split: if_splits)
  then show ?thesis using u by (auto simp: safe_def vir_ok_def entry_ok_def settled_def less_Suc_eq)
qed (use s in simp)

lemma safe_execute:
  assumes s: "safe w L v" "w < 128 \<Longrightarrow> \<not> settled L" "n \<le> 128" and e: "Group_execute us sz n i pc v r = (exit, v', r')"
  shows "safe w L v'"
proof -
  define r1 where "r1 = (if up_alternatePath (us ! i) then r\<lparr>vr_alternatePathUops := vr_alternatePathUops r + 1\<rparr> else r)"
  obtain v2 r2 where p: "Group_reconverge i pc n (v, r1) = (v2, r2)" by fastforce
  have v2: "safe w L v2" using safe_reconverge [of w L "(v, r1)" n i pc] s p by simp
  define t where "t = fold (Group_apply us sz i pc) [0..<n]
    \<lparr>gs_vir = v2, gs_result = r2\<lparr>vr_pcGroups := vr_pcGroups r2 + 1\<rparr>, gs_branches = no_branches, gs_lanes = 0\<rparr>"
  have t: "safe w L (gs_vir t)" unfolding t_def
    by (rule fold_inv [where P = "\<lambda>t. safe w L (gs_vir t)"]) (use v2 safe_apply s in auto)
  define r3 where "r3 = (gs_result t)\<lparr>vr_activeLanes := vr_activeLanes (gs_result t) + gs_lanes t,
    vr_maxPCGroupLanes := max (vr_maxPCGroupLanes (gs_result t)) (gs_lanes t)\<rparr>"
  obtain ok v4 r4 where d: "VIR_diverge us sz (us ! i) (\<lambda>lane. vl_active (vi_lanes (gs_vir t) lane) \<and>
      vl_ready (vi_lanes (gs_vir t) lane) \<and> vl_pc (vi_lanes (gs_vir t) lane) \<noteq> 0) n (gs_branches t) (gs_vir t) r3 = (ok, v4, r4)"
    using prod_cases3 by blast
  have "safe w L v4" by (rule safe_diverge [OF t s(2,3) _ d]) simp_all
  moreover have "v' \<in> {gs_vir t, v4}"
    using e unfolding Group_execute_def Let_def r1_def [symmetric] p split t_def [symmetric] r3_def [symmetric] d
    by (auto split: if_splits)
  ultimately show ?thesis using t by auto
qed

lemma safe_Group_step:
  assumes s: "safe w L v" "w < 128 \<Longrightarrow> \<not> settled L" and e: "Group_step us sz (v, r) = (exit, v', r')"
  shows "safe w L v'"
proof -
  let ?n = "vi_continuationLanes v"
  have n: "?n \<le> 128" using s(1) by (simp add: safe_def vir_ok_def)
  obtain b v1 r1 where p: "VIR_popPath us sz ?n (Group_eligible v) v r = (b, v1, r1)" using prod_cases3 by blast
  have v1: "safe w L v1" by (rule safe_pop [OF s n p])
  obtain f v2 where f: "Group_select us sz b ?n v1 = (f, v2)" by fastforce
  have v2: "safe w L v2" by (rule safe_select [OF v1 s(2) n f])
  note step = e [unfolded Group_step_def Let_def split p f]
  show ?thesis
  proof (cases f)
    case None
    then show ?thesis using step safe_leave [of w L "(v2, r1)" ?n us] v2 s(2) n by simp
  next
    case (Some ip)
    then show ?thesis using step v2 safe_execute [OF v2 s(2) n]
      by (cases ip) (auto split: if_splits)
  qed
qed

lemma safe_Group_loop:
  assumes "safe w L v" "w < 128 \<Longrightarrow> \<not> settled L"
  shows "safe w L (snd (Group_loop steps us sz m (v, r)))"
  using assms(1)
proof (induction steps arbitrary: v r)
  case 0
  then show ?case by (simp add: Group_timeout_def)
next
  case (Suc steps)
  obtain exit v' r' where st: "Group_step us sz (v, r) = (exit, v', r')" using prod_cases3 by blast
  have v': "safe w L v'" by (rule safe_Group_step [OF Suc.prems assms(2) st])
  then show ?case using st Suc.IH [OF v'] by (cases exit) (simp_all add: Group_timeout_def)
qed

lemma safe_resumeLanes:
  assumes "safe w L v" "w < 128 \<Longrightarrow> \<not> settled L" "k \<noteq> w"
  shows "safe w L (snd (VIR_resumeSourceLanes us sz k d x m v))"
proof -
  define v1 where "v1 = VIR_upd k (\<lambda>l. l\<lparr>vl_ready := True\<rparr>) (Resume_setSource k d x v)"
  have "safe w L v1" unfolding v1_def using assms by (auto intro!: safe_intros)
  then show ?thesis using assms(1) safe_Group_loop [OF _ assms(2)]
    by (simp add: VIR_resumeSourceLanes_def Let_def flip: v1_def)
qed

section \<open>Reachable states\<close>

datatype vir_call =
    Initialize "uop list" nat nat "nat \<Rightarrow> reg_val" nat bool
  | ResumeLane "uop list" nat nat int reg_val nat
  | ResumeLanes "uop list" nat nat int reg_val nat

fun vir_step :: "vir_call \<Rightarrow> vir \<Rightarrow> vir" where
  "vir_step (Initialize us sz lanes regs scalar_count past) v =
     VIR_initializeSourceContinuation us sz lanes regs scalar_count past v"
| "vir_step (ResumeLane us sz lane d x m) v = snd (VIR_resumeSourceLane us sz lane d x m v)"
| "vir_step (ResumeLanes us sz lane d x m) v = snd (VIR_resumeSourceLanes us sz lane d x m v)"

lemma initialize_ok: "vir_ok (VIR_initializeSourceContinuation us sz lanes regs sc past v)"
proof -
  have "vi_stackDepth (fold (Resume_initLane e sz regs) ls u) = vi_stackDepth u \<and>
      vi_continuationLanes (fold (Resume_initLane e sz regs) ls u) = vi_continuationLanes u" for e ls u
    by (induction ls arbitrary: u) (simp_all add: Resume_initLane_def Let_def)
  then show ?thesis by (simp add: VIR_initializeSourceContinuation_def Let_def vir_ok_def VIR_reset_def)
qed

lemma resume_refused:
  "lane \<ge> vi_continuationLanes v \<Longrightarrow> VIR_resumeSourceLanes us sz lane d x m v = (no_vir_result, v)"
  by (simp add: VIR_resumeSourceLanes_def Resume_refused_def)

lemma vir_step_ok: "vir_ok v \<Longrightarrow> vir_ok (vir_step c v)"
proof (cases c)
  case (ResumeLane us sz lane d x m)
  moreover assume "vir_ok v"
  ultimately show ?thesis using safe_resumeLane [of "Suc lane" "vi_lanes v (Suc lane)" v lane us sz d x m]
    by (simp add: safe_def)
next
  case (ResumeLanes us sz lane d x m)
  moreover assume ok: "vir_ok v"
  moreover have "vir_ok (snd (VIR_resumeSourceLanes us sz lane d x m v))"
  proof (cases "lane < 128")
    case True
    then show ?thesis using safe_resumeLanes [of 128 "vi_lanes v 128" v lane us sz d x m] ok by (simp add: safe_def)
  next
    case False
    then have "lane \<ge> vi_continuationLanes v" using ok by (simp add: vir_ok_def)
    then show ?thesis using ok by (simp add: resume_refused)
  qed
  ultimately show ?thesis by simp
qed (simp add: initialize_ok)

interpretation continuation: event_machine vir_step vir_ok
  by unfold_locales (rule vir_step_ok)

section \<open>Properties\<close>

text \<open>
  C40 (safety). Between lanes, in every state that initialisation and responses can reach:
  resuming one lane alone changes no other lane; and a response that issues groups changes no
  lane that is still active and waits for its own response, neither its registers and PC nor its
  flags, whatever paths are deferred or restored on the way.
\<close>

theorem waiting_lanes_untouched:
  assumes "v = fold vir_step cs VIR_new" and "w \<noteq> lane"
  shows "vi_lanes (snd (VIR_resumeSourceLane us sz lane d x m v)) w = vi_lanes v w \<and>
    (w < 128 \<and> vl_active (vi_lanes v w) \<and> \<not> vl_ready (vi_lanes v w) \<longrightarrow>
      vi_lanes (snd (VIR_resumeSourceLanes us sz lane d x m v)) w = vi_lanes v w)"
proof -
  have "vir_ok VIR_new" by (simp add: vir_ok_def VIR_new_def)
  then have "vir_ok v" unfolding assms(1) by (rule continuation.run_inv)
  then have s: "safe w (vi_lanes v w) v" by (simp add: safe_def)
  show ?thesis
    using safe_resumeLane [OF s, of lane us sz d x m] safe_resumeLanes [OF s, of lane us sz d x m] assms(2)
    by (auto simp: safe_def settled_def)
qed

section \<open>Lanes that interfere\<close>

lemma apply_other:
  assumes "k \<noteq> b"
  shows "vi_lanes (gs_vir (Group_apply us sz i pc k s)) b = vi_lanes (gs_vir s) b"
    "bg_taken (gs_branches (Group_apply us sz i pc k s)) b = bg_taken (gs_branches s) b"
    "vi_stackDepth (gs_vir (Group_apply us sz i pc k s)) = vi_stackDepth (gs_vir s)"
  using assms
  by (auto simp: Group_apply_def Let_def Group_move_def Group_stop_def VIR_maskOff_def note_branch_def
      split: lane_outcome.split)

lemma apply_first:
  "bg_firstSet (gs_branches s) \<Longrightarrow> bg_firstSet (gs_branches (Group_apply us sz i pc k s)) \<and>
    bg_firstTaken (gs_branches (Group_apply us sz i pc k s)) = bg_firstTaken (gs_branches s)"
  by (auto simp: Group_apply_def Let_def Group_move_def note_branch_def split: lane_outcome.split)

lemma reconverge_other:
  assumes "vl_pc (vi_lanes v b) \<noteq> pc"
  shows "vi_lanes (fst (Group_reconverge i pc n (v, r))) b = vi_lanes v b"
  unfolding Group_reconverge_def
  by (rule fold_inv [where P = "\<lambda>s. vi_lanes (fst s) b = vi_lanes v b"])
    (use assms in \<open>auto simp: Let_def split: prod.split\<close>)

lemma reconverge_depth: "vi_stackDepth (fst (Group_reconverge i pc n (v, r))) = vi_stackDepth v"
  unfolding Group_reconverge_def
  by (rule fold_inv [where P = "\<lambda>s. vi_stackDepth (fst s) = vi_stackDepth v"]) (auto simp: Let_def split: prod.split)

lemma reconverge_lane:
  "vl_regs (vi_lanes (fst (Group_reconverge i pc n (v, r))) k) = vl_regs (vi_lanes v k) \<and>
   vl_pc (vi_lanes (fst (Group_reconverge i pc n (v, r))) k) = vl_pc (vi_lanes v k) \<and>
   vl_active (vi_lanes (fst (Group_reconverge i pc n (v, r))) k) = vl_active (vi_lanes v k) \<and>
   vl_ready (vi_lanes (fst (Group_reconverge i pc n (v, r))) k) = vl_ready (vi_lanes v k)"
  unfolding Group_reconverge_def
  by (rule fold_inv [where P = "\<lambda>s. vl_regs (vi_lanes (fst s) k) = vl_regs (vi_lanes v k) \<and>
       vl_pc (vi_lanes (fst s) k) = vl_pc (vi_lanes v k) \<and> vl_active (vi_lanes (fst s) k) = vl_active (vi_lanes v k) \<and>
       vl_ready (vi_lanes (fst s) k) = vl_ready (vi_lanes v k)"])
    (auto simp: Let_def split: prod.split)

lemma outcome_regs: "vl_regs l = vl_regs l' \<Longrightarrow> VIR_outcome dir us sz i l = VIR_outcome dir us sz i l'"
  by (simp add: VIR_outcome_def VIR_operand_def Let_def)

text \<open>The last lane considered for deferral leaves its PC in the entry.\<close>

lemma diverge_last:
  assumes d: "VIR_diverge us sz op considered (Suc b) g v r = (True, v', r')" "bg_hasTaken g" "bg_hasFallthrough g"
    and b: "considered b" "bg_taken g b \<noteq> bg_firstTaken g" "b < 128"
  shows "vi_stackDepth v' = Suc (vi_stackDepth v)" "re_deferredPC (vi_stack v' (vi_stackDepth v)) = vl_pc (vi_lanes v b)"
    "test_lane (re_deferredMask (vi_stack v' (vi_stackDepth v))) b"
proof -
  define P where "P = (\<lambda>(k :: nat) (s :: lane_mask \<times> addr \<times> bool \<times> vir). length (fst s) = 2 \<and>
    vi_stackDepth (snd (snd (snd s))) = vi_stackDepth v \<and>
    (\<forall>j. vl_pc (vi_lanes (snd (snd (snd s))) j) = vl_pc (vi_lanes v j)))"
  let ?f = "\<lambda>k s. if considered k then VIR_defer us sz g k s else s"
  have step: "P (Suc k) (?f k s)" if "P k s" for k s
    using that by (cases s) (simp add: P_def VIR_defer_def Let_def)
  have "P b (fold ?f [0..<b] (empty_mask, 0, False, v))"
    by (rule fold_upt_inv [where P = P]) (use step in \<open>auto simp: P_def empty_mask_def\<close>)
  then obtain m pc a u where f: "fold ?f [0..<b] (empty_mask, 0, False, v) = (m, pc, a, u)"
    and u: "length m = 2" "vi_stackDepth u = vi_stackDepth v" "vl_pc (vi_lanes u b) = vl_pc (vi_lanes v b)"
    by (cases "fold ?f [0..<b] (empty_mask, 0, False, v)") (auto simp: P_def)
  have "fold ?f [0..<Suc b] (empty_mask, 0, False, v) = ?f b (m, pc, a, u)" using f by simp
  then show "vi_stackDepth v' = Suc (vi_stackDepth v)" "re_deferredPC (vi_stack v' (vi_stackDepth v)) = vl_pc (vi_lanes v b)"
    "test_lane (re_deferredMask (vi_stack v' (vi_stackDepth v))) b"
    using d b u by (auto simp: VIR_diverge_def VIR_defer_def Let_def test_set_lane split: if_splits)
qed

lemma unblock_pc:
  assumes "k < n" "test_lane m k"
  shows "vl_pc (vi_lanes (VIR_unblock m pc n v) k) = pc \<and> \<not> vl_blocked (vi_lanes (VIR_unblock m pc n v) k)"
proof -
  have "k < j \<longrightarrow> vl_pc (vi_lanes (VIR_unblock m pc j v) k) = pc \<and> \<not> vl_blocked (vi_lanes (VIR_unblock m pc j v) k)" for j
    using assms(2) by (induction j) (auto simp: VIR_unblock_def less_Suc_eq)
  then show ?thesis using assms(1) by blast
qed

text \<open>
  C2 (error). A lane outside the group can be dragged along by a divergent branch: if lane 0 takes
  the branch, another lane of the group does not, and the last lane is active and ready at a
  different nonzero PC, then that bystander is deferred as well, and the single PC saved for the
  deferred lanes is the bystander's. Restoring the entry therefore sends every lane that fell
  through to the bystander's PC and not to its own.
\<close>

theorem bystander_deferred:
  assumes "Group_execute us sz (Suc b) i pc v r = (Continue, v', r')"
    and "vi_stackDepth v' = Suc (vi_stackDepth v)" and "b < 128"
    and "vl_active (vi_lanes v 0)" and "vl_ready (vi_lanes v 0)" and "vl_pc (vi_lanes v 0) = pc"
    and "VIR_outcome Resume_direction us sz i (vi_lanes v 0) = Branch True supported nxt"
    and "vl_active (vi_lanes v b)" and "vl_ready (vi_lanes v b)" and "vl_pc (vi_lanes v b) \<noteq> pc"
    and "vl_pc (vi_lanes v b) \<noteq> 0"
  defines "entry \<equiv> vi_stack v' (vi_stackDepth v' - 1)"
  shows "test_lane (re_deferredMask entry) b \<and> re_deferredPC entry = vl_pc (vi_lanes v b) \<and>
    (\<forall>k \<le> b. test_lane (re_deferredMask entry) k \<longrightarrow>
       vl_pc (vi_lanes (VIR_unblock (re_deferredMask entry) (re_deferredPC entry) (Suc b) v') k) = vl_pc (vi_lanes v b))"
proof -
  define r1 where "r1 = (if up_alternatePath (us ! i) then r\<lparr>vr_alternatePathUops := vr_alternatePathUops r + 1\<rparr> else r)"
  obtain v2 r2 where p: "Group_reconverge i pc (Suc b) (v, r1) = (v2, r2)" by fastforce
  have v2: "vi_lanes v2 b = vi_lanes v b" "vi_stackDepth v2 = vi_stackDepth v"
      "vl_active (vi_lanes v2 0)" "vl_ready (vi_lanes v2 0)" "vl_pc (vi_lanes v2 0) = pc"
      "VIR_outcome Resume_direction us sz i (vi_lanes v2 0) = Branch True supported nxt"
    using reconverge_other [OF assms(10), of i "Suc b" r1] reconverge_depth [of i pc "Suc b" v r1]
      reconverge_lane [of i pc "Suc b" v r1 0] outcome_regs [of "vi_lanes v2 0" "vi_lanes v 0"] assms(4-7) p by auto
  have b0: "b \<noteq> 0" using assms(6,10) by (cases "b = 0") simp_all
  define t0 where "t0 = \<lparr>gs_vir = v2, gs_result = r2\<lparr>vr_pcGroups := vr_pcGroups r2 + 1\<rparr>, gs_branches = no_branches, gs_lanes = 0\<rparr>"
  define t where "t = fold (Group_apply us sz i pc) [0..<Suc b] t0"
  have first: "bg_firstSet (gs_branches (Group_apply us sz i pc 0 t0)) \<and> bg_firstTaken (gs_branches (Group_apply us sz i pc 0 t0))"
    using v2 by (simp add: Group_apply_def Let_def t0_def note_branch_def no_branches_def Group_move_def)
  define Q where "Q = (\<lambda>(k :: nat) (t :: group_state). (0 < k \<longrightarrow> bg_firstSet (gs_branches t) \<and> bg_firstTaken (gs_branches t)) \<and> (k = 0 \<longrightarrow> t = t0) \<and>
    vi_lanes (gs_vir t) b = vi_lanes v b \<and> \<not> bg_taken (gs_branches t) b \<and> vi_stackDepth (gs_vir t) = vi_stackDepth v)"
  have step: "Q (Suc k) (Group_apply us sz i pc k t)" if "Q k t" for k t
  proof (cases "k = b")
    case True
    then have "Group_apply us sz i pc k t = t" using that assms(10) by (auto simp: Q_def Group_apply_def Let_def)
    then show ?thesis using that True b0 by (simp add: Q_def)
  next
    case False
    then show ?thesis using that first apply_other [OF False, of us sz i pc t] apply_first [of t us sz i pc k]
      by (cases "k = 0") (auto simp: Q_def)
  qed
  have "Q 0 t0" using v2 by (simp add: Q_def t0_def no_branches_def)
  then have "Q (Suc b) t" unfolding t_def by (rule fold_upt_inv [where P = Q]) (use step in auto)
  then have q: "bg_firstTaken (gs_branches t)" "vi_lanes (gs_vir t) b = vi_lanes v b" "\<not> bg_taken (gs_branches t) b"
      "vi_stackDepth (gs_vir t) = vi_stackDepth v" by (simp_all add: Q_def)
  define r3 where "r3 = (gs_result t)\<lparr>vr_activeLanes := vr_activeLanes (gs_result t) + gs_lanes t,
    vr_maxPCGroupLanes := max (vr_maxPCGroupLanes (gs_result t)) (gs_lanes t)\<rparr>"
  define cons where "cons = (\<lambda>lane. vl_active (vi_lanes (gs_vir t) lane) \<and>
      vl_ready (vi_lanes (gs_vir t) lane) \<and> vl_pc (vi_lanes (gs_vir t) lane) \<noteq> 0)"
  obtain ok v4 r4 where d: "VIR_diverge us sz (us ! i) cons (Suc b) (gs_branches t) (gs_vir t) r3 = (ok, v4, r4)"
    using prod_cases3 by blast
  have e: "ok" "v' = v4"
    using assms(1) unfolding Group_execute_def Let_def r1_def [symmetric] p split t0_def [symmetric] t_def [symmetric]
      r3_def [symmetric] cons_def [symmetric] d by (auto split: if_splits)
  have "bg_hasTaken (gs_branches t) \<and> bg_hasFallthrough (gs_branches t)"
    using d assms(2) e q(4) by (auto simp: VIR_diverge_def split: if_splits)
  moreover have "cons b" using assms(8,9,11) q(2) by (simp add: cons_def)
  ultimately have "re_deferredPC entry = vl_pc (vi_lanes v b)" "test_lane (re_deferredMask entry) b"
    using diverge_last [of us sz "us ! i" cons b "gs_branches t" "gs_vir t" r3 v4 r4] d e q assms(3) unfolding entry_def by auto
  then show ?thesis using unblock_pc by (simp add: less_Suc_eq_le)
qed

section \<open>Witnesses\<close>

text \<open>
  A program behind the source load at 0x10: an increment of \<open>x6\<close> at 0x14, a tainted branch at 0x18
  on \<open>x5 \<noteq> 0\<close> to 0x20, and an operation on each side. Lanes 0 and 1 are at the branch with 1 and 0
  in \<open>x5\<close>, and lane 2 is ready at 0x14.
\<close>

definition inc_uop :: "addr \<Rightarrow> int \<Rightarrow> uop" where
  "inc_uop pc r = empty_uop\<lparr>up_pc := pc, up_semantic := AddImmediate, up_immediate := 1,
     up_source0 := r, up_destination := r, up_intDestinations := 1\<rparr>"

definition bne_uop :: uop where
  "bne_uop = empty_uop\<lparr>up_pc := 0x18, up_semantic := BranchNotEqual, up_source0 := 5, up_conditional := True,
     up_control := True, up_tainted := True, up_branchTargetPC := 0x20, up_fallthroughPC := 0x1c,
     up_reconvergencePC := 0x24\<rparr>"

definition demo_source :: "uop list" where
  "demo_source = [empty_uop\<lparr>up_pc := 0x10, up_load := True\<rparr>, inc_uop 0x14 6, bne_uop, inc_uop 0x1c 7, inc_uop 0x20 8,
     inc_uop 0x24 9]"

definition demo_lane :: "reg_val \<Rightarrow> addr \<Rightarrow> vlane" where
  "demo_lane x pc = empty_lane\<lparr>vl_regs := (\<lambda>r. if r = 5 then x else 0), vl_pc := pc, vl_active := True, vl_ready := True\<rparr>"

definition demo_group :: vir where
  "demo_group = VIR_new\<lparr>vi_lanes := (\<lambda>k. if k = 0 then demo_lane 1 0x18 else if k = 1 then demo_lane 0 0x18
     else demo_lane 0 0x14), vi_continuationLanes := 3, vi_initialized := True, vi_continuePastFLR := True\<rparr>"

theorem bystander_deferred_witness:
  "re_deferredPC (vi_stack (fst (snd (Group_execute demo_source 6 3 2 0x18 demo_group no_vir_result))) 0) = 0x14"
proof -
  have c: "fst (Group_execute demo_source 6 (Suc 2) 2 0x18 demo_group no_vir_result) = Continue" by code_simp
  have d: "vi_stackDepth (fst (snd (Group_execute demo_source 6 (Suc 2) 2 0x18 demo_group no_vir_result))) = 1" by code_simp
  have o: "VIR_outcome Resume_direction demo_source 6 2 (vi_lanes demo_group 0) = Branch True True 0x20" by code_simp
  obtain v' r' where e: "Group_execute demo_source 6 (Suc 2) 2 0x18 demo_group no_vir_result = (Continue, v', r')"
    using c by (metis prod.collapse)
  have l: "vi_lanes demo_group 0 = demo_lane 1 0x18" "vi_lanes demo_group 2 = demo_lane 0 0x14" "vi_stackDepth demo_group = 0"
    by (simp_all add: demo_group_def VIR_new_def)
  have v': "vi_stackDepth v' = Suc (vi_stackDepth demo_group)" using d e l(3) by simp
  have three: "Suc 2 = (3 :: nat)" by simp
  have "re_deferredPC (vi_stack v' (vi_stackDepth v' - 1)) = vl_pc (vi_lanes demo_group 2)"
    using bystander_deferred [OF e v' _ _ _ _ o] l by (simp add: demo_lane_def)
  then show ?thesis using e v' l unfolding three by (simp add: demo_lane_def)
qed

definition demo_calls :: "vir_call list" where
  "demo_calls = [Initialize demo_source 6 3 (\<lambda>r. 0) 0 True]"

theorem waiting_lanes_untouched_witness:
  "vi_lanes (snd (VIR_resumeSourceLanes demo_source 6 0 5 1 20 (fold vir_step demo_calls VIR_new))) 1 =
   vi_lanes (fold vir_step demo_calls VIR_new) 1"
proof -
  have "vl_active (vi_lanes (fold vir_step demo_calls VIR_new) 1)" "\<not> vl_ready (vi_lanes (fold vir_step demo_calls VIR_new) 1)"
    by code_simp+
  then show ?thesis using waiting_lanes_untouched [OF refl, of 1 0 demo_source 6 5 1 20 demo_calls] by simp
qed

end
