(* ===== verification/O3_FreeList.thy ===== *)
theory O3_FreeList
  imports DVR_Inst "HOL-Library.Multiset"
begin

text \<open>
  The free lists and the value view of the physical register file that the pipeline and the helper
  share: \<open>SimpleFreeList\<close> and \<open>UnifiedFreeList\<close> (\<open>free_list.hh\<close>) and the 64-bit \<open>getReg\<close> and
  \<open>setReg\<close> of \<open>PhysRegFile\<close> (\<open>regfile.hh\<close>). A \<open>PhysRegIdPtr\<close> is the class and the index it points to,
  a null pointer is \<open>None\<close>. \<open>getReg\<close> and \<open>setReg\<close> panic for the classes whose registers are not 64 bits
  wide; \<open>has_value\<close> names the others, and every name the helper reads or writes is one of them
  (\<open>DVR_HelperRegs\<close>).

  The interface a borrower of names relies on is the locale \<open>name_pool\<close>: what the pool holds is a
  multiset, taking removes the name returned and giving back adds it.
\<close>

datatype phys_reg_id = PhysRegId (pid_class: reg_class_type) (pid_index: nat)

record reg_bank =
  rb_values :: "phys_reg_id \<Rightarrow> reg_val"
  rb_freeLists :: "reg_class_type \<Rightarrow> phys_reg_id list"

section \<open>Free lists\<close>

text \<open>\<open>SimpleFreeList\<close>: a queue.\<close>

definition SimpleFreeList_addReg :: "phys_reg_id \<Rightarrow> phys_reg_id list \<Rightarrow> phys_reg_id list" where
  "SimpleFreeList_addReg reg freeRegs = freeRegs @ [reg]"

definition SimpleFreeList_getReg :: "phys_reg_id list \<Rightarrow> (phys_reg_id \<times> phys_reg_id list) option" where
  "SimpleFreeList_getReg freeRegs = (case freeRegs of [] \<Rightarrow> None | reg # rest \<Rightarrow> Some (reg, rest))"

definition SimpleFreeList_hasFreeRegs :: "phys_reg_id list \<Rightarrow> bool" where
  "SimpleFreeList_hasFreeRegs freeRegs \<longleftrightarrow> freeRegs \<noteq> []"

definition SimpleFreeList_numFreeRegs :: "phys_reg_id list \<Rightarrow> nat" where
  "SimpleFreeList_numFreeRegs freeRegs = length freeRegs"

definition FreeList_getReg :: "reg_class_type \<Rightarrow> reg_bank \<Rightarrow> (phys_reg_id \<times> reg_bank) option" where
  "FreeList_getReg type b =
     (case SimpleFreeList_getReg (rb_freeLists b type) of
        None \<Rightarrow> None
      | Some (reg, rest) \<Rightarrow> Some (reg, b\<lparr>rb_freeLists := (rb_freeLists b)(type := rest)\<rparr>))"

definition FreeList_addReg :: "phys_reg_id \<Rightarrow> reg_bank \<Rightarrow> reg_bank" where
  "FreeList_addReg reg b =
     b\<lparr>rb_freeLists := (rb_freeLists b)(pid_class reg := SimpleFreeList_addReg reg (rb_freeLists b (pid_class reg)))\<rparr>"

definition FreeList_hasFreeRegs :: "reg_class_type \<Rightarrow> reg_bank \<Rightarrow> bool" where
  "FreeList_hasFreeRegs type b \<longleftrightarrow> SimpleFreeList_hasFreeRegs (rb_freeLists b type)"

definition FreeList_numFreeRegs :: "reg_class_type \<Rightarrow> reg_bank \<Rightarrow> nat" where
  "FreeList_numFreeRegs type b = SimpleFreeList_numFreeRegs (rb_freeLists b type)"

section \<open>Values\<close>

definition has_value :: "reg_class_type \<Rightarrow> bool" where
  "has_value type \<longleftrightarrow> type \<in> {IntRegClass, FloatRegClass, VecElemClass, CCRegClass}"

definition RegFile_getReg :: "phys_reg_id \<Rightarrow> reg_bank \<Rightarrow> reg_val" where
  "RegFile_getReg reg b = rb_values b reg"

definition RegFile_setReg :: "phys_reg_id \<Rightarrow> reg_val \<Rightarrow> reg_bank \<Rightarrow> reg_bank" where
  "RegFile_setReg reg val b = b\<lparr>rb_values := (rb_values b)(reg := val)\<rparr>"

section \<open>Pools of names\<close>

locale name_pool =
  fixes take_name :: "'k \<Rightarrow> 'b \<Rightarrow> ('n \<times> 'b) option" and give_name :: "'n \<Rightarrow> 'b \<Rightarrow> 'b"
    and contents :: "'b \<Rightarrow> 'n multiset"
  assumes take_contents: "take_name k b = Some (n, b') \<Longrightarrow> contents b = add_mset n (contents b')"
    and give_contents: "contents (give_name n b) = add_mset n (contents b)"
begin

lemma give_all_contents: "contents (fold give_name ns b) = mset ns + contents b"
  by (induction ns arbitrary: b) (simp_all add: give_contents)

text \<open>Names taken from a pool without duplicates are fresh.\<close>

lemma take_fresh:
  assumes "take_name k b = Some (n, b')" "\<And>x. count (held + contents b) x \<le> 1"
  shows "n \<notin># held" "n \<notin># contents b'"
proof -
  have "count (held + contents b) n = count held n + Suc (count (contents b') n)"
    by (simp add: take_contents [OF assms(1)])
  with assms(2) [of n] show "n \<notin># held" "n \<notin># contents b'" by (auto simp: count_eq_zero_iff [symmetric])
qed

end

definition free_names :: "reg_bank \<Rightarrow> phys_reg_id multiset" where
  "free_names b = (\<Sum>type \<in> UNIV. mset (rb_freeLists b type))"

lemma UNIV_reg_class:
  "UNIV = {IntRegClass, FloatRegClass, VecRegClass, VecElemClass, VecPredRegClass, CCRegClass, MiscRegClass, InvalidRegClass}"
  by (auto intro: reg_class_type.exhaust)

lemma finite_reg_class [simp]: "finite (UNIV :: reg_class_type set)"
  by (subst UNIV_reg_class) simp

lemma free_names_remove:
  "free_names b = mset (rb_freeLists b type) + (\<Sum>c \<in> UNIV - {type}. mset (rb_freeLists b c))"
  unfolding free_names_def by (simp add: sum.remove [of UNIV type])

lemma free_names_upd:
  "free_names (b\<lparr>rb_freeLists := (rb_freeLists b)(type := xs)\<rparr>) + mset (rb_freeLists b type) = free_names b + mset xs"
  unfolding free_names_remove [of _ type] by simp

interpretation free_list: name_pool FreeList_getReg FreeList_addReg free_names
proof
  fix k b n b'
  assume "FreeList_getReg k b = Some (n, b')"
  then obtain rest where "rb_freeLists b k = n # rest" "b' = b\<lparr>rb_freeLists := (rb_freeLists b)(k := rest)\<rparr>"
    by (auto simp: FreeList_getReg_def SimpleFreeList_getReg_def split: option.splits list.splits)
  then show "free_names b = add_mset n (free_names b')" by (simp add: free_names_remove [of _ k])
next
  fix n b
  show "free_names (FreeList_addReg n b) = add_mset n (free_names b)"
    by (simp add: FreeList_addReg_def SimpleFreeList_addReg_def free_names_remove [of _ "pid_class n"])
qed

lemma getReg_has: "FreeList_hasFreeRegs type b \<longleftrightarrow> (\<exists>n b'. FreeList_getReg type b = Some (n, b'))"
  by (auto simp: FreeList_hasFreeRegs_def SimpleFreeList_hasFreeRegs_def FreeList_getReg_def
      SimpleFreeList_getReg_def split: list.splits)

lemma getReg_values: "FreeList_getReg type b = Some (n, b') \<Longrightarrow> rb_values b' = rb_values b"
  by (auto simp: FreeList_getReg_def SimpleFreeList_getReg_def split: option.splits list.splits)

lemma addReg_values [simp]: "rb_values (FreeList_addReg n b) = rb_values b"
  by (simp add: FreeList_addReg_def)

end
