(* ===== verification/DVR_HelperRegs.thy ===== *)
theory DVR_HelperRegs
  imports O3_FreeList
begin

text \<open>
  \<open>DVRHelperVectorRegisterFile\<close> (\<open>src/code/gem5-runahead-dev-pre/src/cpu/o3/cpu.hh\<close> 950-1548): the
  private vector register file of one helper program. Each of the 32 architectural registers of
  each of the 128 lanes is mapped to a slot of a physical register: lane \<open>l\<close> of one of 256 scalar
  registers, or element \<open>l % 8\<close> of one of 128 vector registers. The elements of a vector register
  may in turn be names borrowed from the pipeline's own register file.

  Fixed-size arrays are functions of their index; \<open>-1\<close> is an \<open>int\<close> as in the code. The two bank
  pointers, which the code sets together, are one optional bank, and the effects on the shared
  bank are part of the state. \<open>users\<close> is a natural number: it counts issued operations.
\<close>

section \<open>Data\<close>

type_synonym tick = "64 word"

abbreviation (input) HR_MaxLanes :: nat where
  "HR_MaxLanes \<equiv> 128"

definition LanesPerVectorCopy :: nat where
  "LanesPerVectorCopy = 8"

definition VectorCopies :: nat where
  "VectorCopies = HR_MaxLanes div LanesPerVectorCopy"

definition HR_NumArchitecturalRegs :: nat where
  "HR_NumArchitecturalRegs = 32"

definition NumScalarPhysicalRegs :: nat where
  "NumScalarPhysicalRegs = 256"

definition NumVectorPhysicalRegs :: nat where
  "NumVectorPhysicalRegs = 128"

definition HR_NumPhysicalRegs :: nat where
  "HR_NumPhysicalRegs = NumScalarPhysicalRegs + NumVectorPhysicalRegs"

record physical_register =
  pr_values :: "nat \<Rightarrow> reg_val"
  pr_ready :: "nat \<Rightarrow> tick"
  pr_valid :: lane_mask
  pr_sharedId :: "phys_reg_id option"
  pr_sharedIds :: "phys_reg_id option list"
  pr_users :: nat
  pr_pendingRelease :: bool
  pr_deferredToTemplateEnd :: bool
  pr_vector :: bool
  pr_allocated :: bool

definition empty_physical :: physical_register where
  "empty_physical = \<lparr>pr_values = (\<lambda>l. 0), pr_ready = (\<lambda>l. 0), pr_valid = empty_mask, pr_sharedId = None,
     pr_sharedIds = replicate LanesPerVectorCopy None, pr_users = 0, pr_pendingRelease = False,
     pr_deferredToTemplateEnd = False, pr_vector = False, pr_allocated = False\<rparr>"

record reg_mapping =
  mp_scalar :: int
  mp_vector :: "int list"
  mp_vectorized :: bool
  mp_lanePhysical :: "nat \<Rightarrow> int"
  mp_laneElement :: "nat \<Rightarrow> nat"
  mp_laneVectorized :: "nat \<Rightarrow> bool"

definition no_mapping :: reg_mapping where
  "no_mapping = \<lparr>mp_scalar = - 1, mp_vector = replicate VectorCopies (- 1), mp_vectorized = False,
     mp_lanePhysical = (\<lambda>l. - 1), mp_laneElement = (\<lambda>l. 0), mp_laneVectorized = (\<lambda>l. False)\<rparr>"

record helper_regs =
  hr_vrat :: "nat \<Rightarrow> reg_mapping"
  hr_physical :: "nat \<Rightarrow> physical_register"
  hr_allocated :: "nat \<Rightarrow> bool"
  hr_bank :: "reg_bank option"

definition HR_new :: helper_regs where
  "HR_new = \<lparr>hr_vrat = (\<lambda>a. no_mapping), hr_physical = (\<lambda>p. empty_physical), hr_allocated = (\<lambda>p. False),
     hr_bank = None\<rparr>"

definition HR_configureSharedPhysicalBank :: "reg_bank \<Rightarrow> helper_regs \<Rightarrow> helper_regs" where
  "HR_configureSharedPhysicalBank bank h = h\<lparr>hr_bank := Some bank\<rparr>"

definition HR_usesSharedPhysicalBank :: "helper_regs \<Rightarrow> bool" where
  "HR_usesSharedPhysicalBank h \<longleftrightarrow> hr_bank h \<noteq> None"

section \<open>Physical registers\<close>

text \<open>Updates of one physical register and of one mapping.\<close>

definition HR_setPhysical :: "nat \<Rightarrow> (physical_register \<Rightarrow> physical_register) \<Rightarrow> helper_regs \<Rightarrow> helper_regs" where
  "HR_setPhysical p f h = h\<lparr>hr_physical := (hr_physical h)(p := f (hr_physical h p))\<rparr>"

definition HR_setMapping :: "nat \<Rightarrow> (reg_mapping \<Rightarrow> reg_mapping) \<Rightarrow> helper_regs \<Rightarrow> helper_regs" where
  "HR_setMapping a f h = h\<lparr>hr_vrat := (hr_vrat h)(a := f (hr_vrat h a))\<rparr>"

text \<open>The loop that returns the names that are not null.\<close>

definition HR_addRegs :: "phys_reg_id option list \<Rightarrow> helper_regs \<Rightarrow> helper_regs" where
  "HR_addRegs ids h =
     h\<lparr>hr_bank := map_option (fold (\<lambda>shared_id b. case shared_id of None \<Rightarrow> b | Some reg \<Rightarrow> FreeList_addReg reg b) ids)
                    (hr_bank h)\<rparr>"

text \<open>Returning the names of a register, then the register.\<close>

definition HR_reclaim :: "nat \<Rightarrow> helper_regs \<Rightarrow> helper_regs" where
  "HR_reclaim p h =
     (let entry = hr_physical h p; h1 = HR_addRegs (pr_sharedId entry # pr_sharedIds entry) h
      in h1\<lparr>hr_allocated := (hr_allocated h1)(p := False), hr_physical := (hr_physical h1)(p := empty_physical)\<rparr>)"

definition HR_releaseAll :: "helper_regs \<Rightarrow> helper_regs" where
  "HR_releaseAll h = fold (\<lambda>p h. if \<not> hr_allocated h p then h else HR_reclaim p h) [0..<HR_NumPhysicalRegs] h"

definition HR_named :: "int \<Rightarrow> nat \<Rightarrow> helper_regs \<Rightarrow> bool" where
  "HR_named phys lane h \<longleftrightarrow>
     \<not> (phys < 0 \<or> phys \<ge> int HR_NumPhysicalRegs \<or> \<not> hr_allocated h (nat phys) \<or> lane \<ge> HR_MaxLanes)"

definition HR_readPhysical :: "int \<Rightarrow> nat \<Rightarrow> helper_regs \<Rightarrow> reg_val" where
  "HR_readPhysical phys lane h =
     (if \<not> HR_named phys lane h then 0
      else
        (let entry = hr_physical h (nat phys) in
         case (hr_bank h, pr_sharedIds entry ! (lane mod LanesPerVectorCopy)) of
           (Some bank, Some shared_id) \<Rightarrow>
             if pr_vector entry then RegFile_getReg shared_id bank else pr_values entry lane
         | _ \<Rightarrow> pr_values entry lane))"

definition HR_writePhysical :: "int \<Rightarrow> nat \<Rightarrow> reg_val \<Rightarrow> helper_regs \<Rightarrow> helper_regs" where
  "HR_writePhysical phys lane value h =
     (if \<not> HR_named phys lane h then h
      else
        (let entry = hr_physical h (nat phys);
             h1 = (case (hr_bank h, pr_sharedIds entry ! (lane mod LanesPerVectorCopy)) of
                     (Some bank, Some shared_id) \<Rightarrow>
                       if pr_vector entry then h\<lparr>hr_bank := Some (RegFile_setReg shared_id value bank)\<rparr> else h
                   | _ \<Rightarrow> h)
         in HR_setPhysical (nat phys) (\<lambda>e. e\<lparr>pr_values := (pr_values e)(lane := value)\<rparr>) h1))"

subsection \<open>Allocation\<close>

definition HR_allocateScalar :: "helper_regs \<Rightarrow> int \<times> helper_regs" where
  "HR_allocateScalar h =
     (case List.find (\<lambda>p. \<not> hr_allocated h p) [0..<NumScalarPhysicalRegs] of
        None \<Rightarrow> (- 1, h)
      | Some p \<Rightarrow>
          (let (shared_id, bank) =
                 (case hr_bank h of
                    Some bank \<Rightarrow>
                      (case FreeList_getReg IntRegClass bank of
                         Some (reg, bank') \<Rightarrow> (Some reg, Some bank')
                       | None \<Rightarrow> (None, Some bank))
                  | None \<Rightarrow> (None, None))
           in (int p,
               HR_setPhysical p (\<lambda>e. e\<lparr>pr_allocated := True, pr_vector := False, pr_sharedId := shared_id\<rparr>)
                 (h\<lparr>hr_bank := bank, hr_allocated := (hr_allocated h)(p := True)\<rparr>))))"

text \<open>The element names of one vector register: all eight or none.\<close>

fun HR_takeElements :: "nat \<Rightarrow> reg_bank \<Rightarrow> phys_reg_id list \<times> reg_bank" where
  "HR_takeElements 0 bank = ([], bank)"
| "HR_takeElements (Suc n) bank =
     (case FreeList_getReg VecElemClass bank of
        None \<Rightarrow> ([], bank)
      | Some (reg, bank1) \<Rightarrow> (let (regs, bank2) = HR_takeElements n bank1 in (reg # regs, bank2)))"

definition HR_elementNames :: "reg_bank \<Rightarrow> phys_reg_id option list \<times> reg_bank" where
  "HR_elementNames bank =
     (let (regs, bank1) = HR_takeElements LanesPerVectorCopy bank
      in if length regs = LanesPerVectorCopy then (map Some regs, bank1)
         else (replicate LanesPerVectorCopy None, fold FreeList_addReg regs bank1))"

fun HR_bundleLoop :: "nat list \<Rightarrow> nat list \<Rightarrow> helper_regs \<Rightarrow> nat list \<times> helper_regs" where
  "HR_bundleLoop [] found h = (found, h)"
| "HR_bundleLoop (p # ps) found h =
     (if length found \<ge> VectorCopies then (found, h)
      else if hr_allocated h p then HR_bundleLoop ps found h
      else
        (let (shared_ids, bank) =
               (case hr_bank h of
                  Some bank \<Rightarrow> (let (ids, bank') = HR_elementNames bank in (ids, Some bank'))
                | None \<Rightarrow> (replicate LanesPerVectorCopy None, None))
         in HR_bundleLoop ps (found @ [p])
              (HR_setPhysical p (\<lambda>e. e\<lparr>pr_allocated := True, pr_vector := True, pr_sharedIds := shared_ids\<rparr>)
                (h\<lparr>hr_bank := bank, hr_allocated := (hr_allocated h)(p := True)\<rparr>))))"

definition HR_rollback :: "nat \<Rightarrow> helper_regs \<Rightarrow> helper_regs" where
  "HR_rollback p h =
     (let h1 = HR_addRegs (pr_sharedIds (hr_physical h p)) (h\<lparr>hr_allocated := (hr_allocated h)(p := False)\<rparr>)
      in h1\<lparr>hr_physical := (hr_physical h1)(p := empty_physical)\<rparr>)"

definition HR_allocateVectorBundle :: "helper_regs \<Rightarrow> int list \<times> helper_regs" where
  "HR_allocateVectorBundle h =
     (let (found, h1) = HR_bundleLoop [NumScalarPhysicalRegs..<HR_NumPhysicalRegs] [] h
      in if length found \<noteq> VectorCopies then (replicate VectorCopies (- 1), fold HR_rollback found h1)
         else (map int found, h1))"

subsection \<open>Reclamation\<close>

definition HR_markDead :: "int \<Rightarrow> helper_regs \<Rightarrow> helper_regs" where
  "HR_markDead phys h =
     (if phys < 0 \<or> phys \<ge> int HR_NumPhysicalRegs then h
      else if pr_users (hr_physical h (nat phys)) \<noteq> 0
      then HR_setPhysical (nat phys) (\<lambda>e. e\<lparr>pr_pendingRelease := True\<rparr>) h
      else HR_reclaim (nat phys) h)"

definition HR_release :: "int \<Rightarrow> helper_regs \<Rightarrow> helper_regs" where
  "HR_release phys h = HR_markDead phys h"

definition HR_retainPhysical :: "int \<Rightarrow> helper_regs \<Rightarrow> helper_regs" where
  "HR_retainPhysical phys h =
     (if phys < 0 \<or> phys \<ge> int HR_NumPhysicalRegs \<or> \<not> hr_allocated h (nat phys) then h
      else HR_setPhysical (nat phys) (\<lambda>e. e\<lparr>pr_users := pr_users e + 1\<rparr>) h)"

definition HR_releasePhysical :: "int \<Rightarrow> helper_regs \<Rightarrow> helper_regs" where
  "HR_releasePhysical phys h =
     (if phys < 0 \<or> phys \<ge> int HR_NumPhysicalRegs \<or> \<not> hr_allocated h (nat phys) then h
      else
        (let h1 = (if pr_users (hr_physical h (nat phys)) \<noteq> 0
                   then HR_setPhysical (nat phys) (\<lambda>e. e\<lparr>pr_users := pr_users e - 1\<rparr>) h else h);
             entry = hr_physical h1 (nat phys)
         in if pr_users entry = 0 \<and> pr_pendingRelease entry then HR_reclaim (nat phys) h1 else h1))"

section \<open>Mappings\<close>

definition HR_vectorMapping :: "nat \<Rightarrow> helper_regs \<Rightarrow> int list" where
  "HR_vectorMapping arch h =
     (if arch < HR_NumArchitecturalRegs \<and> mp_vectorized (hr_vrat h arch) then mp_vector (hr_vrat h arch)
      else replicate VectorCopies (- 1))"

text \<open>The names in use, in the order of their first lane.\<close>

definition HR_physicalMappings :: "nat \<Rightarrow> helper_regs \<Rightarrow> int list" where
  "HR_physicalMappings arch h =
     (if arch \<ge> HR_NumArchitecturalRegs then []
      else
        (let m = hr_vrat h arch;
             push = (\<lambda>phys result. if phys < 0 \<or> phys \<in> set result then result else result @ [phys]);
             result = fold push (map (mp_lanePhysical m) [0..<HR_MaxLanes]) []
         in if result = [] then
              (if mp_vectorized m then fold push (mp_vector m) []
               else if mp_scalar m \<ge> 0 then [mp_scalar m] else [])
            else result))"

definition HR_scalarMapping :: "nat \<Rightarrow> helper_regs \<Rightarrow> int" where
  "HR_scalarMapping arch h =
     (if arch \<ge> HR_NumArchitecturalRegs \<or> mp_vectorized (hr_vrat h arch) then - 1 else mp_scalar (hr_vrat h arch))"

definition HR_physicalIndex :: "nat \<Rightarrow> nat \<Rightarrow> helper_regs \<Rightarrow> int" where
  "HR_physicalIndex arch lane h =
     (if arch \<ge> HR_NumArchitecturalRegs \<or> lane \<ge> HR_MaxLanes then - 1
      else
        (let m = hr_vrat h arch in
         if mp_lanePhysical m lane \<ge> 0 then mp_lanePhysical m lane
         else if mp_vectorized m then mp_vector m ! (lane div LanesPerVectorCopy) else mp_scalar m))"

definition HR_physicalLane :: "nat \<Rightarrow> nat \<Rightarrow> helper_regs \<Rightarrow> nat" where
  "HR_physicalLane arch lane h =
     (if arch \<ge> HR_NumArchitecturalRegs \<or> lane \<ge> HR_MaxLanes then lane
      else
        (let m = hr_vrat h arch in
         if mp_lanePhysical m lane \<ge> 0
         then (if mp_laneVectorized m lane then mp_laneElement m lane else lane)
         else if mp_vectorized m then lane mod LanesPerVectorCopy else lane))"

definition HR_isVectorized :: "nat \<Rightarrow> helper_regs \<Rightarrow> bool" where
  "HR_isVectorized arch h \<longleftrightarrow> arch < HR_NumArchitecturalRegs \<and>
     (list_ex (mp_laneVectorized (hr_vrat h arch)) [0..<HR_MaxLanes] \<or> mp_vectorized (hr_vrat h arch))"

definition HR_isVectorizedLane :: "nat \<Rightarrow> nat \<Rightarrow> helper_regs \<Rightarrow> bool" where
  "HR_isVectorizedLane arch lane h \<longleftrightarrow> arch < HR_NumArchitecturalRegs \<and> lane < HR_MaxLanes \<and>
     (mp_laneVectorized (hr_vrat h arch) lane \<or>
      (mp_lanePhysical (hr_vrat h arch) lane < 0 \<and> mp_vectorized (hr_vrat h arch)))"

section \<open>Access by architectural register and lane\<close>

definition HR_read :: "nat \<Rightarrow> nat \<Rightarrow> helper_regs \<Rightarrow> reg_val" where
  "HR_read arch lane h =
     (if arch \<ge> HR_NumArchitecturalRegs \<or> lane \<ge> HR_MaxLanes then 0
      else
        (let phys = HR_physicalIndex arch lane h
         in if phys < 0 then 0 else HR_readPhysical phys (HR_physicalLane arch lane h) h))"

definition HR_readyAt :: "nat \<Rightarrow> nat \<Rightarrow> helper_regs \<Rightarrow> tick" where
  "HR_readyAt arch lane h =
     (if arch \<ge> HR_NumArchitecturalRegs \<or> lane \<ge> HR_MaxLanes then 0
      else
        (let phys = HR_physicalIndex arch lane h
         in if phys < 0 then 0 else pr_ready (hr_physical h (nat phys)) (HR_physicalLane arch lane h)))"

text \<open>Ready tick and valid bit of a slot.\<close>

definition HR_stamp :: "nat \<Rightarrow> nat \<Rightarrow> tick \<Rightarrow> helper_regs \<Rightarrow> helper_regs" where
  "HR_stamp p lane t h =
     HR_setPhysical p (\<lambda>e. e\<lparr>pr_ready := (pr_ready e)(lane := t), pr_valid := set_lane lane (pr_valid e)\<rparr>) h"

definition HR_write :: "nat \<Rightarrow> nat \<Rightarrow> reg_val \<Rightarrow> tick \<Rightarrow> helper_regs \<Rightarrow> helper_regs" where
  "HR_write arch lane value ready_tick h =
     (if arch \<ge> HR_NumArchitecturalRegs \<or> lane \<ge> HR_MaxLanes then h
      else
        (let phys = HR_physicalIndex arch lane h; stored_lane = HR_physicalLane arch lane h
         in if phys < 0 then h
            else HR_stamp (nat phys) stored_lane ready_tick (HR_writePhysical phys stored_lane value h)))"

section \<open>Reset and initialisation\<close>

definition HR_reset :: "helper_regs \<Rightarrow> helper_regs" where
  "HR_reset h =
     (let h1 = HR_releaseAll h
      in h1\<lparr>hr_vrat := (\<lambda>a. if a < HR_NumArchitecturalRegs then no_mapping else hr_vrat h1 a),
            hr_physical := (\<lambda>p. if p < HR_NumPhysicalRegs then empty_physical else hr_physical h1 p)\<rparr>)"

definition HR_initReg :: "nat \<Rightarrow> nat \<Rightarrow> reg_val \<Rightarrow> helper_regs \<Rightarrow> helper_regs" where
  "HR_initReg arch p value h =
     fold (\<lambda>lane h. HR_setPhysical p (\<lambda>e. e\<lparr>pr_valid := set_lane lane (pr_valid e)\<rparr>)
                      (HR_writePhysical (int p) lane value h)) [0..<HR_MaxLanes]
       (HR_setMapping arch (\<lambda>m. m\<lparr>mp_scalar := int p, mp_lanePhysical := (\<lambda>l. int p),
          mp_laneElement := (\<lambda>l. 0), mp_laneVectorized := (\<lambda>l. False)\<rparr>) h)"

text \<open>The loop over the registers ends early when no scalar register is left.\<close>

fun HR_initLoop :: "nat list \<Rightarrow> (nat \<Rightarrow> reg_val) \<Rightarrow> helper_regs \<Rightarrow> helper_regs" where
  "HR_initLoop [] regs h = h"
| "HR_initLoop (arch # as) regs h =
     (let (phys, h1) = HR_allocateScalar h
      in if phys < 0 then h1 else HR_initLoop as regs (HR_initReg arch (nat phys) (regs arch) h1))"

definition HR_initialize :: "(nat \<Rightarrow> reg_val) \<Rightarrow> helper_regs \<Rightarrow> helper_regs" where
  "HR_initialize regs h = HR_initLoop [0..<HR_NumArchitecturalRegs] regs (HR_reset h)"

section \<open>Renaming\<close>

text \<open>Copying the scalar register into one slot of the bundle.\<close>

definition HR_vectorizeSlot :: "int \<Rightarrow> int list \<Rightarrow> nat \<Rightarrow> helper_regs \<Rightarrow> helper_regs" where
  "HR_vectorizeSlot old_scalar bundle global h =
     (let p = bundle ! (global div LanesPerVectorCopy); lane = global mod LanesPerVectorCopy;
          h1 = HR_writePhysical p lane (if old_scalar \<ge> 0 then HR_readPhysical old_scalar global h else 0) h
      in HR_stamp (nat p) lane (if old_scalar \<ge> 0 then pr_ready (hr_physical h1 (nat old_scalar)) global else 0) h1)"

definition HR_vectorize :: "nat \<Rightarrow> helper_regs \<Rightarrow> bool \<times> helper_regs" where
  "HR_vectorize arch h =
     (if arch \<ge> HR_NumArchitecturalRegs \<or> mp_vectorized (hr_vrat h arch) then (arch < HR_NumArchitecturalRegs, h)
      else
        (let (bundle, h1) = HR_allocateVectorBundle h in
         if bundle ! 0 < 0 then (False, h1)
         else
           (let old_scalar = mp_scalar (hr_vrat h1 arch);
                h2 = fold (HR_vectorizeSlot old_scalar bundle) [0..<HR_MaxLanes] h1;
                h3 = HR_setMapping arch (\<lambda>m. m\<lparr>mp_vector := bundle, mp_vectorized := True, mp_scalar := - 1,
                       mp_lanePhysical := (\<lambda>l. if l < HR_MaxLanes then bundle ! (l div LanesPerVectorCopy) else mp_lanePhysical m l),
                       mp_laneElement := (\<lambda>l. if l < HR_MaxLanes then l mod LanesPerVectorCopy else mp_laneElement m l),
                       mp_laneVectorized := (\<lambda>l. if l < HR_MaxLanes then True else mp_laneVectorized m l)\<rparr>) h2
            in (True, if old_scalar \<ge> 0 then HR_release old_scalar h3 else h3))))"

text \<open>The registers of the old mapping that the new one does not use are released.\<close>

definition HR_releaseOld :: "int list \<Rightarrow> nat \<Rightarrow> helper_regs \<Rightarrow> helper_regs" where
  "HR_releaseOld old_phys arch h =
     (let current_phys = HR_physicalMappings arch h
      in fold (\<lambda>phys h. if phys \<notin> set current_phys then HR_release phys h else h) old_phys h)"

definition HR_moveLane :: "nat \<Rightarrow> lane_mask \<Rightarrow> int list \<Rightarrow> nat \<Rightarrow> helper_regs \<Rightarrow> helper_regs" where
  "HR_moveLane arch active_mask new_bundle lane h =
     (let p = new_bundle ! (lane div LanesPerVectorCopy); element = lane mod LanesPerVectorCopy;
          h1 = HR_stamp (nat p) element (HR_readyAt arch lane h)
                 (HR_writePhysical p element (HR_read arch lane h) h)
      in if test_lane active_mask lane
         then HR_setMapping arch (\<lambda>m. m\<lparr>mp_lanePhysical := (mp_lanePhysical m)(lane := p),
                mp_laneElement := (mp_laneElement m)(lane := element),
                mp_laneVectorized := (mp_laneVectorized m)(lane := True)\<rparr>) h1
         else h1)"

definition HR_renameVectorMasked :: "nat \<Rightarrow> lane_mask \<Rightarrow> helper_regs \<Rightarrow> bool \<times> helper_regs" where
  "HR_renameVectorMasked arch active_mask h =
     (if arch \<ge> HR_NumArchitecturalRegs then (False, h)
      else
        (let old_phys = HR_physicalMappings arch h; (new_bundle, h1) = HR_allocateVectorBundle h in
         if new_bundle ! 0 < 0 then (False, h1)
         else
           (let h2 = fold (HR_moveLane arch active_mask new_bundle) [0..<HR_MaxLanes] h1;
                h3 = HR_setMapping arch (\<lambda>m. m\<lparr>mp_vector := new_bundle, mp_scalar := - 1,
                       mp_vectorized := list_all (mp_laneVectorized m) [0..<HR_MaxLanes]\<rparr>) h2
            in (True, HR_releaseOld old_phys arch h3))))"

definition all_lanes :: lane_mask where
  "all_lanes = [- 1, - 1]"

definition HR_renameVector :: "nat \<Rightarrow> helper_regs \<Rightarrow> bool \<times> helper_regs" where
  "HR_renameVector arch h = HR_renameVectorMasked arch all_lanes h"

definition HR_moveScalar :: "nat \<Rightarrow> lane_mask \<Rightarrow> nat \<Rightarrow> nat \<Rightarrow> helper_regs \<Rightarrow> helper_regs" where
  "HR_moveScalar arch active_mask p lane h =
     (if \<not> test_lane active_mask lane then h
      else
        (let h1 = HR_writePhysical (int p) lane (HR_read arch lane h) h;
             h2 = HR_stamp p lane (HR_readyAt arch lane h1) h1
         in HR_setMapping arch (\<lambda>m. m\<lparr>mp_lanePhysical := (mp_lanePhysical m)(lane := int p),
              mp_laneElement := (mp_laneElement m)(lane := 0),
              mp_laneVectorized := (mp_laneVectorized m)(lane := False)\<rparr>) h2))"

text \<open>The scalar that all lanes share, or \<open>-1\<close>; the loop leaves at the first lane that differs.\<close>

fun HR_summary :: "reg_mapping \<Rightarrow> nat list \<Rightarrow> int \<Rightarrow> int" where
  "HR_summary m [] summary = summary"
| "HR_summary m (lane # ls) summary =
     (if mp_laneVectorized m lane then - 1
      else if summary < 0 then HR_summary m ls (mp_lanePhysical m lane)
      else if summary \<noteq> mp_lanePhysical m lane then - 1
      else HR_summary m ls summary)"

definition HR_renameScalarMasked :: "nat \<Rightarrow> lane_mask \<Rightarrow> helper_regs \<Rightarrow> int \<times> helper_regs" where
  "HR_renameScalarMasked arch active_mask h =
     (if arch \<ge> HR_NumArchitecturalRegs then (- 1, h)
      else
        (let old_phys = HR_physicalMappings arch h; (phys, h1) = HR_allocateScalar h in
         if phys < 0 then (- 1, h1)
         else
           (let h2 = fold (HR_moveScalar arch active_mask (nat phys)) [0..<HR_MaxLanes] h1;
                h3 = HR_setMapping arch (\<lambda>m. m\<lparr>mp_vector := replicate VectorCopies (- 1), mp_vectorized := False\<rparr>) h2;
                h4 = HR_setMapping arch (\<lambda>m. m\<lparr>mp_scalar := HR_summary m [0..<HR_MaxLanes] (- 1)\<rparr>) h3
            in (phys, HR_releaseOld old_phys arch h4))))"

definition HR_rename :: "nat \<Rightarrow> helper_regs \<Rightarrow> int \<times> helper_regs" where
  "HR_rename arch h = HR_renameScalarMasked arch all_lanes h"

section \<open>The check the helper asserts\<close>

definition HR_conservationValid :: "helper_regs \<Rightarrow> bool" where
  "HR_conservationValid h \<longleftrightarrow>
     list_all (\<lambda>p. hr_allocated h p = pr_allocated (hr_physical h p) \<and>
       \<not> (\<not> hr_allocated h p \<and> (pr_users (hr_physical h p) \<noteq> 0 \<or> pr_pendingRelease (hr_physical h p))))
       [0..<HR_NumPhysicalRegs] \<and>
     list_all (\<lambda>a. let m = hr_vrat h a in
       list_all (\<lambda>l. \<not> (mp_lanePhysical m l \<ge> 0 \<and> \<not> hr_allocated h (nat (mp_lanePhysical m l)))) [0..<HR_MaxLanes] \<and>
       (if mp_vectorized m then list_all (\<lambda>p. \<not> (p \<ge> 0 \<and> \<not> hr_allocated h (nat p))) (mp_vector m)
        else \<not> (mp_scalar m \<ge> 0 \<and> \<not> hr_allocated h (nat (mp_scalar m))))) [0..<HR_NumArchitecturalRegs]"

end
