(* ===== verification/DVR_HelperRegs_Inv.thy ===== *)
theory DVR_HelperRegs_Inv
  imports DVR_HelperRegs
begin

text \<open>
  The physical side of the helper register file: the invariant of the physical registers, the
  names borrowed from the pipeline, and the effect of allocation, slot writes and reclamation on
  what the slots hold. Names are counted in a multiset, so that a name borrowed twice, or still
  free while it is borrowed, would show as a count above one.
\<close>

lemmas hr_sizes = LanesPerVectorCopy_def VectorCopies_def HR_NumArchitecturalRegs_def
  NumScalarPhysicalRegs_def NumVectorPhysicalRegs_def HR_NumPhysicalRegs_def

section \<open>Names\<close>

definition some_names :: "phys_reg_id option list \<Rightarrow> phys_reg_id list" where
  "some_names ids = map the (filter (\<lambda>x. x \<noteq> None) ids)"

lemma some_names_simps [simp]:
  "some_names [] = []" "some_names (None # ids) = some_names ids" "some_names (Some r # ids) = r # some_names ids"
  "some_names (map Some rs) = rs" "some_names (replicate n None) = []"
  by (simp_all add: some_names_def comp_def)

definition entry_names :: "physical_register \<Rightarrow> phys_reg_id multiset" where
  "entry_names e = mset (some_names (pr_sharedId e # pr_sharedIds e))"

definition held :: "helper_regs \<Rightarrow> phys_reg_id multiset" where
  "held h = (\<Sum>p < HR_NumPhysicalRegs. entry_names (hr_physical h p))"

definition all_names :: "helper_regs \<Rightarrow> phys_reg_id multiset" where
  "all_names h = (case hr_bank h of None \<Rightarrow> {#} | Some bank \<Rightarrow> held h + free_names bank)"

definition bank_values :: "helper_regs \<Rightarrow> phys_reg_id \<Rightarrow> reg_val" where
  "bank_values h = (case hr_bank h of None \<Rightarrow> (\<lambda>r. 0) | Some bank \<Rightarrow> rb_values bank)"

lemma entry_names_empty [simp]: "entry_names empty_physical = {#}"
  by (simp add: entry_names_def empty_physical_def)

lemma held_split:
  "p < HR_NumPhysicalRegs \<Longrightarrow>
    held h = entry_names (hr_physical h p) + (\<Sum>q \<in> {..<HR_NumPhysicalRegs} - {p}. entry_names (hr_physical h q))"
  unfolding held_def by (subst sum.remove [of _ p]) auto

lemma held_upd:
  assumes "p < HR_NumPhysicalRegs" "\<And>q. q \<noteq> p \<Longrightarrow> hr_physical h' q = hr_physical h q"
  shows "held h' + entry_names (hr_physical h p) = held h + entry_names (hr_physical h' p)"
proof -
  have "(\<Sum>q \<in> {..<HR_NumPhysicalRegs} - {p}. entry_names (hr_physical h' q)) =
      (\<Sum>q \<in> {..<HR_NumPhysicalRegs} - {p}. entry_names (hr_physical h q))"
    by (rule sum.cong) (use assms(2) in auto)
  then show ?thesis by (simp add: held_split [OF assms(1)])
qed

lemma entry_subset_held: "p < HR_NumPhysicalRegs \<Longrightarrow> entry_names (hr_physical h p) \<subseteq># held h"
  by (simp add: held_split)

text \<open>Two slots of registers never hold the same name.\<close>

lemma some_names_split: "k < length ids \<Longrightarrow> ids ! k = Some r \<Longrightarrow>
    mset (some_names ids) = add_mset r (mset (some_names (take k ids)) + mset (some_names (drop (Suc k) ids)))"
  by (subst id_take_nth_drop [of k ids]) (simp_all add: some_names_def)

lemma element_names:
  assumes "k < length (pr_sharedIds e)" "pr_sharedIds e ! k = Some r"
  shows "r \<in># entry_names e"
  using assms by (auto simp: entry_names_def some_names_def in_set_conv_nth intro!: image_eqI [of _ _ "Some r"])
    
lemma element_names_two:
  assumes "j < k" "k < length (pr_sharedIds e)" "pr_sharedIds e ! j = Some r" "pr_sharedIds e ! k = Some r"
  shows "1 < count (entry_names e) r"
proof -
  let ?ids = "pr_sharedIds e"
  have "Some r \<in> set (take k ?ids)" using assms by (auto simp: in_set_conv_nth intro!: exI [of _ j])
  then have "r \<in> set (some_names (take k ?ids))" by (force simp: some_names_def)
  then have "0 < count (mset (some_names (take k ?ids))) r" by (simp add: count_greater_zero_iff)
  moreover have "count (mset (some_names ?ids)) r = Suc (count (mset (some_names (take k ?ids))) r +
      count (mset (some_names (drop (Suc k) ?ids))) r)"
    using some_names_split [OF assms(2,4)] by simp
  moreover have "count (mset (some_names ?ids)) r \<le> count (entry_names e) r"
    by (cases "pr_sharedId e") (simp_all add: entry_names_def)
  ultimately show ?thesis by linarith
qed

lemma elements_distinct:
  assumes c: "\<And>x. count (all_names h) x \<le> 1" and b: "hr_bank h = Some bank"
    and p: "p < HR_NumPhysicalRegs" "j < length (pr_sharedIds (hr_physical h p))" "pr_sharedIds (hr_physical h p) ! j = Some r"
    and q: "q < HR_NumPhysicalRegs" "k < length (pr_sharedIds (hr_physical h q))" "pr_sharedIds (hr_physical h q) ! k = Some r"
  shows "p = q \<and> j = k"
proof -
  have h: "count (held h) r \<le> 1" using c [of r] by (simp add: all_names_def b)
  have "p = q"
  proof (rule ccontr)
    assume "p \<noteq> q"
    then have "entry_names (hr_physical h p) + entry_names (hr_physical h q) \<subseteq># held h"
      unfolding held_split [OF p(1)] using q(1) by (simp add: sum.remove [of _ q])
    then have "count (entry_names (hr_physical h p)) r + count (entry_names (hr_physical h q)) r \<le> count (held h) r"
      by (metis count_union mset_subset_eq_count)
    moreover have "0 < count (entry_names (hr_physical h p)) r" "0 < count (entry_names (hr_physical h q)) r"
      using element_names [OF p(2,3)] element_names [OF q(2,3)] by (simp_all add: count_greater_zero_iff)
    ultimately show False using h by linarith
  qed
  moreover have "j = k"
  proof (rule ccontr)
    assume "j \<noteq> k"
    then have "1 < count (entry_names (hr_physical h p)) r"
      using element_names_two [of j k] element_names_two [of k j] p q \<open>p = q\<close> by (cases "j < k") auto
    then show False using h mset_subset_eq_count [OF entry_subset_held [OF p(1)], of h r] by linarith
  qed
  ultimately show ?thesis by simp
qed

section \<open>The invariant of the physical registers\<close>

definition bank_classes :: "reg_bank \<Rightarrow> bool" where
  "bank_classes bank \<longleftrightarrow> (\<forall>c. \<forall>r \<in> set (rb_freeLists bank c). pid_class r = c)"

definition reg_ok :: "nat \<Rightarrow> bool \<Rightarrow> physical_register \<Rightarrow> bool" where
  "reg_ok p alloc e \<longleftrightarrow> length (pr_sharedIds e) = LanesPerVectorCopy \<and> pr_allocated e = alloc \<and>
     (\<not> alloc \<longrightarrow> e = empty_physical) \<and> (alloc \<longrightarrow> pr_vector e = (NumScalarPhysicalRegs \<le> p)) \<and>
     (pr_pendingRelease e \<longrightarrow> pr_users e \<noteq> 0) \<and>
     (NumScalarPhysicalRegs \<le> p \<longrightarrow> pr_sharedId e = None) \<and> (\<forall>r. pr_sharedId e = Some r \<longrightarrow> pid_class r = IntRegClass) \<and> (\<forall>r. Some r \<in> set (pr_sharedIds e) \<longrightarrow> pid_class r = VecElemClass)"

definition phys_ok :: "helper_regs \<Rightarrow> bool" where
  "phys_ok h \<longleftrightarrow> (\<forall>p < HR_NumPhysicalRegs. reg_ok p (hr_allocated h p) (hr_physical h p)) \<and>
     (\<forall>x. count (all_names h) x \<le> 1) \<and> (\<forall>bank. hr_bank h = Some bank \<longrightarrow> bank_classes bank)"

lemma phys_okD: "phys_ok h \<Longrightarrow> p < HR_NumPhysicalRegs \<Longrightarrow> hr_allocated h p \<Longrightarrow> reg_ok p True (hr_physical h p)"
  unfolding phys_ok_def by (metis (full_types))

lemma reg_ok_empty: "reg_ok p False empty_physical"
  by (simp add: reg_ok_def empty_physical_def)

text \<open>What a slot holds: its value and its ready tick.\<close>

definition slot_val :: "helper_regs \<Rightarrow> nat \<Rightarrow> nat \<Rightarrow> reg_val \<times> tick" where
  "slot_val h p k = (HR_readPhysical (int p) k h, pr_ready (hr_physical h p) k)"

lemma readPhysical_alt:
  "HR_readPhysical (int p) k h =
    (if p < HR_NumPhysicalRegs \<and> hr_allocated h p \<and> k < 128
     then (case pr_sharedIds (hr_physical h p) ! (k mod LanesPerVectorCopy) of
             Some r \<Rightarrow> if hr_bank h \<noteq> None \<and> pr_vector (hr_physical h p) then bank_values h r else pr_values (hr_physical h p) k
           | None \<Rightarrow> pr_values (hr_physical h p) k)
     else 0)"
  by (auto simp: HR_readPhysical_def HR_named_def Let_def RegFile_getReg_def bank_values_def split: option.splits)

definition same_bank :: "helper_regs \<Rightarrow> helper_regs \<Rightarrow> bool" where
  "same_bank h h' \<longleftrightarrow> (hr_bank h' = None \<longleftrightarrow> hr_bank h = None) \<and> bank_values h' = bank_values h"

lemma slot_val_cong:
  assumes "hr_allocated h' p = hr_allocated h p" "hr_physical h' p = hr_physical h p" "same_bank h h'"
  shows "slot_val h' p k = slot_val h p k"
  using assms by (auto simp: slot_val_def readPhysical_alt same_bank_def split: option.split)

subsection \<open>Returning names\<close>

lemma addRegs_fields [simp]:
  "hr_vrat (HR_addRegs ids h) = hr_vrat h" "hr_physical (HR_addRegs ids h) = hr_physical h"
  "hr_allocated (HR_addRegs ids h) = hr_allocated h" "hr_bank h = None \<Longrightarrow> hr_bank (HR_addRegs ids h) = None"
  by (simp_all add: HR_addRegs_def)

lemma addReg_classes: "bank_classes b \<Longrightarrow> bank_classes (FreeList_addReg r b)"
  by (auto simp: bank_classes_def FreeList_addReg_def SimpleFreeList_addReg_def)

lemma fold_addReg:
  "free_names (fold (\<lambda>x b. case x of None \<Rightarrow> b | Some r \<Rightarrow> FreeList_addReg r b) ids b) = mset (some_names ids) + free_names b \<and>
   rb_values (fold (\<lambda>x b. case x of None \<Rightarrow> b | Some r \<Rightarrow> FreeList_addReg r b) ids b) = rb_values b \<and>
   (bank_classes b \<longrightarrow> bank_classes (fold (\<lambda>x b. case x of None \<Rightarrow> b | Some r \<Rightarrow> FreeList_addReg r b) ids b))"
proof (induction ids arbitrary: b)
  case (Cons x ids)
  show ?case using Cons.IH [of "case x of None \<Rightarrow> b | Some r \<Rightarrow> FreeList_addReg r b"] addReg_classes [of b]
    by (cases x) (auto simp: free_list.give_contents)
qed simp

lemma addRegs_bank:
  assumes "hr_bank h = Some b"
  obtains b' where "hr_bank (HR_addRegs ids h) = Some b'" "free_names b' = mset (some_names ids) + free_names b"
    "rb_values b' = rb_values b" "bank_classes b \<longrightarrow> bank_classes b'"
  using fold_addReg [of ids b] assms by (simp add: HR_addRegs_def)

text \<open>Emptying a register while its names go back.\<close>

lemma empty_register:
  assumes p: "p < HR_NumPhysicalRegs" and ok: "phys_ok h"
    and n: "mset (some_names ids) = entry_names (hr_physical h p)"
    and h': "h' = (HR_addRegs ids h)\<lparr>hr_allocated := (hr_allocated h)(p := False), hr_physical := (hr_physical h)(p := empty_physical)\<rparr>"
  shows "phys_ok h' \<and> all_names h' = all_names h \<and> same_bank h h'"
proof (cases "hr_bank h")
  case None
  then have "hr_bank (HR_addRegs ids h) = None" by simp
  then show ?thesis using None ok reg_ok_empty by (simp add: phys_ok_def h' all_names_def same_bank_def bank_values_def)
next
  case (Some b)
  obtain b' where b': "hr_bank (HR_addRegs ids h) = Some b'" "free_names b' = mset (some_names ids) + free_names b"
      "rb_values b' = rb_values b" "bank_classes b \<longrightarrow> bank_classes b'" using addRegs_bank [OF Some] .
  have "held h' + entry_names (hr_physical h p) = held h" using held_upd [OF p, of h' h] by (simp add: h')
  then have a: "all_names h' = all_names h" using b' n by (simp add: all_names_def h' Some ac_simps)
  then have "phys_ok h'" using ok reg_ok_empty b' Some unfolding phys_ok_def a by (simp add: h')
  then show ?thesis using a b' Some by (simp add: same_bank_def bank_values_def h')
qed

lemma reclaim_eq:
  "HR_reclaim p h = (HR_addRegs (pr_sharedId (hr_physical h p) # pr_sharedIds (hr_physical h p)) h)
     \<lparr>hr_allocated := (hr_allocated h)(p := False), hr_physical := (hr_physical h)(p := empty_physical)\<rparr>"
  by (simp add: HR_reclaim_def Let_def)

lemmas reclaim_ok = empty_register [OF _ _ _ reclaim_eq, unfolded entry_names_def, OF _ _ refl]

lemma reclaim_fields [simp]:
  "hr_vrat (HR_reclaim p h) = hr_vrat h" "hr_allocated (HR_reclaim p h) = (hr_allocated h)(p := False)"
  "hr_physical (HR_reclaim p h) = (hr_physical h)(p := empty_physical)"
  by (simp_all add: reclaim_eq)

subsection \<open>Allocation\<close>

text \<open>\<open>grown F h h'\<close>: exactly the registers \<open>F\<close> are newly allocated, and nothing else changes but the
  free lists.\<close>

definition grown :: "nat set \<Rightarrow> helper_regs \<Rightarrow> helper_regs \<Rightarrow> bool" where
  "grown F h h' \<longleftrightarrow> hr_vrat h' = hr_vrat h \<and> hr_allocated h' = (\<lambda>p. hr_allocated h p \<or> p \<in> F) \<and>
     (\<forall>p \<in> F. p < HR_NumPhysicalRegs \<and> \<not> hr_allocated h p \<and> pr_users (hr_physical h' p) = 0 \<and>
       \<not> pr_pendingRelease (hr_physical h' p)) \<and>
     (\<forall>p. p \<notin> F \<longrightarrow> hr_physical h' p = hr_physical h p) \<and> same_bank h h' \<and> all_names h' = all_names h \<and> phys_ok h \<and> phys_ok h'"

lemma grown_refl: "phys_ok h \<Longrightarrow> grown {} h h"
  by (simp add: grown_def same_bank_def)

lemma grown_trans:
  assumes "grown F h h1" "grown G h1 h2"
  shows "grown (F \<union> G) h h2"
  using assms by (auto simp: grown_def same_bank_def fun_eq_iff)

lemma grown_slot: "grown F h h' \<Longrightarrow> p \<notin> F \<Longrightarrow> slot_val h' p k = slot_val h p k"
  by (rule slot_val_cong) (auto simp: grown_def)

text \<open>One fresh register with the names it was given.\<close>

lemma grow_register:
  assumes p: "p < HR_NumPhysicalRegs" "\<not> hr_allocated h p" and ok: "phys_ok h"
    and e: "reg_ok p True e" "pr_users e = 0" "\<not> pr_pendingRelease e"
    and b: "bank = None \<longleftrightarrow> hr_bank h = None"
      "\<And>b b'. hr_bank h = Some b \<Longrightarrow> bank = Some b' \<Longrightarrow> free_names b = entry_names e + free_names b' \<and>
        rb_values b' = rb_values b \<and> bank_classes b'"
  shows "grown {p} h (h\<lparr>hr_bank := bank, hr_allocated := (hr_allocated h)(p := True), hr_physical := (hr_physical h)(p := e)\<rparr>)"
    (is "grown _ _ ?h'")
proof -
  have em: "hr_physical h p = empty_physical" using ok p by (simp add: phys_ok_def reg_ok_def)
  have "held ?h' = held h + entry_names e" using held_upd [OF p(1), of ?h' h] by (simp add: em)
  then have *: "all_names ?h' = all_names h \<and> same_bank h ?h' \<and> (\<forall>b'. bank = Some b' \<longrightarrow> bank_classes b')"
  proof (cases "hr_bank h")
    case None
    then show ?thesis using b(1) by (simp add: all_names_def same_bank_def bank_values_def)
  next
    case (Some c)
    then obtain c' where c': "bank = Some c'" using b(1) by auto
    have "free_names c = entry_names e + free_names c'" "rb_values c' = rb_values c" "bank_classes c'"
      using b(2) [OF Some c'] by blast+
    then show ?thesis using Some c' \<open>held ?h' = _\<close> by (simp add: all_names_def same_bank_def bank_values_def)
  qed
  then have "phys_ok ?h'" using ok e(1) by (simp add: phys_ok_def)
  then show ?thesis using * p e ok by (auto simp: grown_def)
qed

lemma getReg_class:
  assumes "bank_classes b" "FreeList_getReg c b = Some (r, b')"
  shows "bank_classes b'" "pid_class r = c"
proof -
  obtain rest where r: "rb_freeLists b c = r # rest" "b' = b\<lparr>rb_freeLists := (rb_freeLists b)(c := rest)\<rparr>"
    using assms(2) by (auto simp: FreeList_getReg_def SimpleFreeList_getReg_def split: option.splits list.splits)
  have "\<forall>x \<in> set (rb_freeLists b c). pid_class x = c" using assms(1) by (simp add: bank_classes_def)
  then show "pid_class r = c" "bank_classes b'" using assms(1) r by (auto simp: bank_classes_def)
qed

lemma takeElements:
  "HR_takeElements n b = (rs, b') \<Longrightarrow> free_names b = mset rs + free_names b' \<and> rb_values b' = rb_values b \<and>
    (bank_classes b \<longrightarrow> bank_classes b' \<and> (\<forall>r \<in> set rs. pid_class r = VecElemClass))"
proof (induction n arbitrary: b rs b')
  case (Suc n)
  show ?case
  proof (cases "FreeList_getReg VecElemClass b")
    case (Some x)
    obtain r b1 where x: "x = (r, b1)" by (cases x)
    obtain rs1 b2 where t: "HR_takeElements n b1 = (rs1, b2)" by fastforce
    have g: "FreeList_getReg VecElemClass b = Some (r, b1)" using Some x by simp
    have "rs = r # rs1" "b' = b2" using Suc.prems g t by auto
    then show ?thesis using Suc.IH [OF t] free_list.take_contents [OF g] getReg_values [OF g] getReg_class [OF _ g] by auto
  qed (use Suc.prems in auto)
qed simp

lemma elementNames:
  assumes "HR_elementNames b = (ids, b')"
  shows "free_names b = mset (some_names ids) + free_names b' \<and> rb_values b' = rb_values b \<and>
    length ids = LanesPerVectorCopy \<and>
    (bank_classes b \<longrightarrow> bank_classes b' \<and> (\<forall>r. Some r \<in> set ids \<longrightarrow> pid_class r = VecElemClass))"
proof -
  obtain rs b1 where t: "HR_takeElements LanesPerVectorCopy b = (rs, b1)" by fastforce
  have f: "free_names (fold FreeList_addReg rs b1) = mset rs + free_names b1 \<and> rb_values (fold FreeList_addReg rs b1) = rb_values b1 \<and>
      (bank_classes b1 \<longrightarrow> bank_classes (fold FreeList_addReg rs b1))"
    using fold_addReg [of "map Some rs" b1] by (simp add: fold_map comp_def)
  show ?thesis using assms t f takeElements [OF t] by (auto simp: HR_elementNames_def split: if_splits)
qed

lemma allocateScalar_grown:
  assumes "phys_ok h" "HR_allocateScalar h = (phys, h')"
  shows "(phys = - 1 \<and> h' = h) \<or> (\<exists>p < NumScalarPhysicalRegs. phys = int p \<and> grown {p} h h')"
proof (cases "List.find (\<lambda>p. \<not> hr_allocated h p) [0..<NumScalarPhysicalRegs]")
  case None
  then show ?thesis using assms by (simp add: HR_allocateScalar_def)
next
  case (Some p)
  then have p: "p < NumScalarPhysicalRegs" "\<not> hr_allocated h p" by (auto simp: find_upt_Some)
  have em: "hr_physical h p = empty_physical" using assms(1) p by (simp add: phys_ok_def reg_ok_def hr_sizes)
  define si where "si = (case hr_bank h of Some bank \<Rightarrow> map_option fst (FreeList_getReg IntRegClass bank) | None \<Rightarrow> None)"
  define bank where "bank = (case hr_bank h of Some bank \<Rightarrow>
      (case FreeList_getReg IntRegClass bank of Some (reg, bank') \<Rightarrow> Some bank' | None \<Rightarrow> Some bank) | None \<Rightarrow> None)"
  define e where "e = empty_physical\<lparr>pr_allocated := True, pr_vector := False, pr_sharedId := si\<rparr>"
  have r: "phys = int p" "h' = h\<lparr>hr_bank := bank, hr_allocated := (hr_allocated h)(p := True), hr_physical := (hr_physical h)(p := e)\<rparr>"
    using assms(2) Some em unfolding si_def bank_def e_def HR_allocateScalar_def HR_setPhysical_def
    by (cases "hr_bank h"; cases "FreeList_getReg IntRegClass (the (hr_bank h))"; clarsimp)+
  have c: "\<And>b. hr_bank h = Some b \<Longrightarrow> bank_classes b" using assms(1) by (simp add: phys_ok_def)
  have "grown {p} h h'" unfolding r(2)
  proof (rule grow_register)
    show "reg_ok p True e"
      using p c getReg_class(2) by (auto simp: reg_ok_def e_def empty_physical_def hr_sizes si_def split: option.splits)
    fix b b' assume b: "hr_bank h = Some b" "bank = Some b'"
    show "free_names b = entry_names e + free_names b' \<and> rb_values b' = rb_values b \<and> bank_classes b'"
    proof (cases "FreeList_getReg IntRegClass b")
      case None
      then show ?thesis using b c [OF b(1)] by (simp add: bank_def e_def si_def entry_names_def empty_physical_def)
    next
      case (Some x)
      then have g: "FreeList_getReg IntRegClass b = Some (fst x, b')" using b by (cases x) (simp add: bank_def)
      have "entry_names e = {#fst x#}" using b g by (simp add: e_def si_def entry_names_def empty_physical_def)
      then show ?thesis using free_list.take_contents [OF g] getReg_values [OF g] getReg_class(1) [OF c [OF b(1)] g] by simp
    qed
  qed (use p assms(1) in \<open>auto simp: hr_sizes e_def bank_def empty_physical_def split: option.splits\<close>)
  then show ?thesis using p r by blast
qed

text \<open>The bundle: sixteen distinct vector registers, or none.\<close>

lemma grow_vector:
  assumes ok: "phys_ok h" and p: "\<not> hr_allocated h p" "NumScalarPhysicalRegs \<le> p" "p < HR_NumPhysicalRegs"
    and n: "(ids, bank) = (case hr_bank h of Some b \<Rightarrow> (let (ids, b') = HR_elementNames b in (ids, Some b'))
      | None \<Rightarrow> (replicate LanesPerVectorCopy None, None))"
  shows "grown {p} h (HR_setPhysical p (\<lambda>e. e\<lparr>pr_allocated := True, pr_vector := True, pr_sharedIds := ids\<rparr>)
    (h\<lparr>hr_bank := bank, hr_allocated := (hr_allocated h)(p := True)\<rparr>))"
proof -
  define e where "e = empty_physical\<lparr>pr_allocated := True, pr_vector := True, pr_sharedIds := ids\<rparr>"
  have em: "hr_physical h p = empty_physical" using ok p by (simp add: phys_ok_def reg_ok_def)
  have c: "\<And>b. hr_bank h = Some b \<Longrightarrow> bank_classes b" using ok by (simp add: phys_ok_def)
  have names: "length ids = LanesPerVectorCopy \<and> (\<forall>r. Some r \<in> set ids \<longrightarrow> pid_class r = VecElemClass) \<and>
      (bank = None \<longleftrightarrow> hr_bank h = None) \<and> (\<forall>b b'. hr_bank h = Some b \<longrightarrow> bank = Some b' \<longrightarrow>
        free_names b = mset (some_names ids) + free_names b' \<and> rb_values b' = rb_values b \<and> bank_classes b')"
  proof (cases "hr_bank h")
    case None
    then show ?thesis using n by simp
  next
    case (Some b)
    obtain ids' b' where x: "HR_elementNames b = (ids', b')" by fastforce
    then have "ids = ids'" "bank = Some b'" using n Some by simp_all
    then show ?thesis using elementNames [OF x] c [OF Some] Some by simp
  qed
  have "grown {p} h (h\<lparr>hr_bank := bank, hr_allocated := (hr_allocated h)(p := True), hr_physical := (hr_physical h)(p := e)\<rparr>)"
  proof (rule grow_register)
    show "reg_ok p True e" using names p by (simp add: reg_ok_def e_def empty_physical_def)
    have "entry_names e = mset (some_names ids)" by (simp add: entry_names_def e_def empty_physical_def)
    then show "\<And>b b'. hr_bank h = Some b \<Longrightarrow> bank = Some b' \<Longrightarrow> free_names b = entry_names e + free_names b' \<and>
        rb_values b' = rb_values b \<and> bank_classes b'" using names by simp
  qed (use p ok names in \<open>simp_all add: e_def empty_physical_def\<close>)
  then show ?thesis by (simp add: HR_setPhysical_def em e_def)
qed

lemma bundleLoop_grown:
  assumes "phys_ok h" "HR_bundleLoop ps found h = (found', h')" "distinct ps"
    "set ps \<subseteq> {NumScalarPhysicalRegs..<HR_NumPhysicalRegs}"
  shows "\<exists>new. found' = found @ new \<and> grown (set new) h h' \<and> distinct new \<and> set new \<subseteq> set ps"
  using assms
proof (induction ps arbitrary: found h)
  case Nil
  then show ?case using grown_refl by simp
next
  case (Cons p ps)
  show ?case
  proof (cases "VectorCopies \<le> length found \<or> hr_allocated h p")
    case True
    show ?thesis
    proof (cases "VectorCopies \<le> length found")
      case True
      then show ?thesis using Cons.prems grown_refl by simp
    next
      case False
      then have "HR_bundleLoop ps found h = (found', h')" using True Cons.prems(2) by simp
      then show ?thesis using Cons.IH [of h found] Cons.prems by auto
    qed
  next
    case False
    obtain ids bank where n: "(case hr_bank h of Some b \<Rightarrow> (let (ids, b') = HR_elementNames b in (ids, Some b'))
      | None \<Rightarrow> (replicate LanesPerVectorCopy None, None)) = (ids, bank)" by fastforce
    define h1 where "h1 = HR_setPhysical p (\<lambda>e. e\<lparr>pr_allocated := True, pr_vector := True, pr_sharedIds := ids\<rparr>)
      (h\<lparr>hr_bank := bank, hr_allocated := (hr_allocated h)(p := True)\<rparr>)"
    have g: "grown {p} h h1" unfolding h1_def
      by (rule grow_vector [OF Cons.prems(1) _ _ _ n [symmetric]]) (use False Cons.prems(4) in auto)
    have l: "HR_bundleLoop ps (found @ [p]) h1 = (found', h')"
      using Cons.prems(2) False n by (simp add: h1_def)
    have "phys_ok h1" using g by (simp add: grown_def)
    then obtain new where "found' = (found @ [p]) @ new" "grown (set new) h1 h'" "distinct new" "set new \<subseteq> set ps"
      using Cons.IH [OF _ l] Cons.prems by auto
    then show ?thesis using grown_trans [OF g] Cons.prems(3) by (intro exI [of _ "p # new"]) auto
  qed
qed

lemma bundleLoop_length: "length found \<le> VectorCopies \<Longrightarrow> HR_bundleLoop ps found h = (found', h') \<Longrightarrow> length found' \<le> VectorCopies"
  by (induction ps found h rule: HR_bundleLoop.induct) (auto split: if_splits prod.splits)

lemma rollback_grown:
  assumes g: "grown F h h1" and p: "p \<in> F" "NumScalarPhysicalRegs \<le> p"
  shows "grown (F - {p}) h (HR_rollback p h1)"
proof -
  let ?ids = "pr_sharedIds (hr_physical h1 p)"
  have p': "p < HR_NumPhysicalRegs" "\<not> hr_allocated h p" "phys_ok h1" using g p by (auto simp: grown_def)
  have "reg_ok p (hr_allocated h1 p) (hr_physical h1 p)" using p' by (simp add: phys_ok_def)
  then have "mset (some_names ?ids) = entry_names (hr_physical h1 p)" using p by (simp add: entry_names_def reg_ok_def)
  moreover have r: "HR_rollback p h1 = (HR_addRegs ?ids h1)\<lparr>hr_allocated := (hr_allocated h1)(p := False), hr_physical := (hr_physical h1)(p := empty_physical)\<rparr>"
    by (simp add: HR_rollback_def Let_def HR_addRegs_def)
  ultimately have e: "phys_ok (HR_rollback p h1)" "all_names (HR_rollback p h1) = all_names h1" "same_bank h1 (HR_rollback p h1)"
    using empty_register [OF p'(1,3)] by blast+
  have "hr_physical h p = empty_physical" using g p' by (simp add: grown_def phys_ok_def reg_ok_def)
  moreover have "hr_allocated (HR_rollback p h1) = (hr_allocated h1)(p := False)"
      "hr_physical (HR_rollback p h1) = (hr_physical h1)(p := empty_physical)" "hr_vrat (HR_rollback p h1) = hr_vrat h1"
    by (simp_all add: r)
  moreover have "(hr_allocated h1)(p := False) = (\<lambda>q. hr_allocated h q \<or> q \<in> F - {p})"
    using g p' by (intro ext) (auto simp: grown_def)
  moreover have "same_bank h (HR_rollback p h1)" using g e(3) by (simp add: grown_def same_bank_def)
  ultimately show ?thesis using g e(1,2) by (simp add: grown_def)
qed

lemma rollback_all:
  "grown F h h1 \<Longrightarrow> distinct ps \<Longrightarrow> set ps \<subseteq> F \<inter> {NumScalarPhysicalRegs..} \<Longrightarrow> grown (F - set ps) h (fold HR_rollback ps h1)"
proof (induction ps arbitrary: F h1)
  case (Cons p ps)
  have "grown (F - {p}) h (HR_rollback p h1)" using rollback_grown [OF Cons.prems(1)] Cons.prems(3) by simp
  then have "grown (F - {p} - set ps) h (fold HR_rollback ps (HR_rollback p h1))"
    by (rule Cons.IH) (use Cons.prems in auto)
  moreover have "F - {p} - set ps = F - set (p # ps)" by auto
  ultimately show ?case by (simp only: fold_simps)
qed simp

lemma allocateBundle_grown:
  assumes "phys_ok h" "HR_allocateVectorBundle h = (bs, h')"
  shows "(bs = replicate VectorCopies (- 1) \<and> grown {} h h') \<or>
    (\<exists>ps. bs = map int ps \<and> length ps = VectorCopies \<and> distinct ps \<and>
      set ps \<subseteq> {NumScalarPhysicalRegs..<HR_NumPhysicalRegs} \<and> grown (set ps) h h')"
proof -
  obtain found h1 where l: "HR_bundleLoop [NumScalarPhysicalRegs..<HR_NumPhysicalRegs] [] h = (found, h1)" by fastforce
  then have f: "grown (set found) h h1" "distinct found" "set found \<subseteq> {NumScalarPhysicalRegs..<HR_NumPhysicalRegs}"
    using bundleLoop_grown [OF assms(1) l] by auto
  show ?thesis
  proof (cases "length found = VectorCopies")
    case True
    then show ?thesis using assms(2) l f by (auto simp: HR_allocateVectorBundle_def)
  next
    case False
    then have "bs = replicate VectorCopies (- 1)" "h' = fold HR_rollback found h1"
      using assms(2) l by (auto simp: HR_allocateVectorBundle_def)
    moreover have "grown (set found - set found) h (fold HR_rollback found h1)"
      by (rule rollback_all [OF f(1,2)]) (use f(3) in auto)
    ultimately show ?thesis by simp
  qed
qed

subsection \<open>Writing a slot\<close>

definition valid_slot :: "nat \<Rightarrow> nat \<Rightarrow> bool" where
  "valid_slot p k \<longleftrightarrow> p < HR_NumPhysicalRegs \<and> k < 128 \<and> (NumScalarPhysicalRegs \<le> p \<longrightarrow> k < LanesPerVectorCopy)"

text \<open>Values of names that are neither held nor free do not change: they belong to someone else.\<close>

definition bank_frame :: "helper_regs \<Rightarrow> helper_regs \<Rightarrow> bool" where
  "bank_frame h h' \<longleftrightarrow> (\<forall>r. r \<notin># all_names h \<longrightarrow> bank_values h' r = bank_values h r)"

lemma bank_frame_refl [simp]: "bank_frame h h"
  by (simp add: bank_frame_def)

lemma bank_frame_same: "same_bank h h' \<Longrightarrow> bank_frame h h'"
  by (simp add: bank_frame_def same_bank_def)

lemma bank_frame_trans:
  "bank_frame h h1 \<Longrightarrow> all_names h1 = all_names h \<Longrightarrow> bank_frame h1 h2 \<Longrightarrow> bank_frame h h2"
  by (simp add: bank_frame_def)

definition kept :: "helper_regs \<Rightarrow> helper_regs \<Rightarrow> bool" where
  "kept h h' \<longleftrightarrow> hr_vrat h' = hr_vrat h \<and> hr_allocated h' = hr_allocated h \<and> (hr_bank h' = None) = (hr_bank h = None) \<and>
     bank_frame h h' \<and>
     (\<forall>q. pr_users (hr_physical h' q) = pr_users (hr_physical h q) \<and>
       pr_pendingRelease (hr_physical h' q) = pr_pendingRelease (hr_physical h q)) \<and>
     all_names h' = all_names h \<and> phys_ok h'"

lemma kept_trans: "kept h h1 \<Longrightarrow> kept h1 h2 \<Longrightarrow> kept h h2"
  unfolding kept_def using bank_frame_trans by auto

text \<open>A change of a register that leaves its bookkeeping as it is.\<close>

lemma kept_setPhysical:
  assumes "phys_ok h" "hr_allocated h p"
    and f: "\<And>e. pr_users (f e) = pr_users e \<and> pr_pendingRelease (f e) = pr_pendingRelease e \<and> pr_allocated (f e) = pr_allocated e \<and>
      pr_vector (f e) = pr_vector e \<and> pr_sharedId (f e) = pr_sharedId e \<and> pr_sharedIds (f e) = pr_sharedIds e"
  shows "kept h (HR_setPhysical p f h)"
proof -
  have "held (HR_setPhysical p f h) = held h"
    unfolding held_def by (rule sum.cong) (use f in \<open>auto simp: HR_setPhysical_def entry_names_def\<close>)
  then have a: "all_names (HR_setPhysical p f h) = all_names h" by (simp add: all_names_def HR_setPhysical_def split: option.split)
  have "reg_ok q (hr_allocated h q) (hr_physical (HR_setPhysical p f h) q)" if "q < HR_NumPhysicalRegs" for q
    using assms(1,2) that f by (auto simp: phys_ok_def reg_ok_def HR_setPhysical_def)
  then have "phys_ok (HR_setPhysical p f h)" using assms(1) a by (simp add: phys_ok_def HR_setPhysical_def)
  moreover have "bank_frame h (HR_setPhysical p f h)" by (rule bank_frame_same) (simp add: same_bank_def HR_setPhysical_def bank_values_def)
  ultimately show ?thesis using f a by (simp add: kept_def HR_setPhysical_def)
qed

lemma kept_bank:
  assumes "phys_ok h" "hr_bank h = Some b" "r \<in># all_names h"
  shows "kept h (h\<lparr>hr_bank := Some (RegFile_setReg r v b)\<rparr>)"
proof -
  have "free_names (RegFile_setReg r v b) = free_names b" by (simp add: free_names_def RegFile_setReg_def)
  then have "all_names (h\<lparr>hr_bank := Some (RegFile_setReg r v b)\<rparr>) = all_names h" using assms(2) by (simp add: all_names_def held_def)
  moreover have "bank_classes (RegFile_setReg r v b) = bank_classes b" by (simp add: bank_classes_def RegFile_setReg_def)
  moreover have "bank_frame h (h\<lparr>hr_bank := Some (RegFile_setReg r v b)\<rparr>)"
    using assms(2,3) by (auto simp: bank_frame_def bank_values_def RegFile_setReg_def)
  ultimately show ?thesis using assms by (simp add: kept_def phys_ok_def)
qed

definition shared_slot :: "helper_regs \<Rightarrow> nat \<Rightarrow> nat \<Rightarrow> phys_reg_id option" where
  "shared_slot h p k = (if hr_bank h \<noteq> None \<and> NumScalarPhysicalRegs \<le> p
     then pr_sharedIds (hr_physical h p) ! (k mod LanesPerVectorCopy) else None)"

lemma shared_slot_held:
  assumes ok: "phys_ok h" "hr_allocated h q" "valid_slot q k" and r: "shared_slot h q k = Some r"
  shows "r \<in># held h"
proof -
  have p: "q < HR_NumPhysicalRegs" using ok(3) by (simp add: valid_slot_def)
  have "length (pr_sharedIds (hr_physical h q)) = LanesPerVectorCopy" using phys_okD [OF ok(1) p ok(2)] by (simp add: reg_ok_def)
  then have "Some r \<in> set (pr_sharedIds (hr_physical h q))"
    using r by (auto simp: shared_slot_def hr_sizes in_set_conv_nth split: if_splits intro!: exI [of _ "k mod 8"])
  then have "r \<in># entry_names (hr_physical h q)" by (auto simp: entry_names_def some_names_def image_iff)
  then show ?thesis using entry_subset_held [OF p] mset_subset_eqD by metis
qed

lemma readPhysical_slot:
  assumes "phys_ok h" "hr_allocated h p" "valid_slot p k"
  shows "HR_readPhysical (int p) k h = (case shared_slot h p k of Some r \<Rightarrow> bank_values h r | None \<Rightarrow> pr_values (hr_physical h p) k)"
proof -
  have "reg_ok p True (hr_physical h p)" using phys_okD [OF assms(1) _ assms(2)] assms(3) by (simp add: valid_slot_def)
  then show ?thesis using assms
    by (auto simp: readPhysical_alt shared_slot_def valid_slot_def reg_ok_def split: option.split)
qed

lemma writePhysical_slot:
  assumes "phys_ok h" "hr_allocated h p" "valid_slot p k"
  shows "HR_writePhysical (int p) k v h = HR_setPhysical p (\<lambda>e. e\<lparr>pr_values := (pr_values e)(k := v)\<rparr>)
    (case shared_slot h p k of Some r \<Rightarrow> h\<lparr>hr_bank := Some (RegFile_setReg r v (the (hr_bank h)))\<rparr> | None \<Rightarrow> h)"
proof -
  have "reg_ok p True (hr_physical h p)" using phys_okD [OF assms(1) _ assms(2)] assms(3) by (simp add: valid_slot_def)
  then show ?thesis using assms
    by (auto simp: HR_writePhysical_def HR_named_def shared_slot_def valid_slot_def reg_ok_def Let_def split: option.split)
qed

lemma shared_slot_unique:
  assumes ok: "phys_ok h" and p: "valid_slot p k" "shared_slot h p k = Some r" and q: "valid_slot q j" "shared_slot h q j = Some r"
  shows "p = q \<and> k = j"
proof -
  obtain b where b: "hr_bank h = Some b" using p(2) by (auto simp: shared_slot_def split: if_splits)
  have l: "x < HR_NumPhysicalRegs \<Longrightarrow> length (pr_sharedIds (hr_physical h x)) = LanesPerVectorCopy" for x
    using ok by (simp add: phys_ok_def reg_ok_def)
  have "p = q \<and> k mod LanesPerVectorCopy = j mod LanesPerVectorCopy"
    by (rule elements_distinct [where h = h and r = r, OF _ b])
      (use ok p q l in \<open>auto simp: phys_ok_def shared_slot_def valid_slot_def hr_sizes split: if_splits\<close>)
  moreover have "k < LanesPerVectorCopy" "j < LanesPerVectorCopy"
    using p q by (auto simp: valid_slot_def shared_slot_def split: if_splits)
  ultimately show ?thesis by simp
qed

text \<open>The law of the slots: a write changes the slot written and no other.\<close>

lemma writePhysical_ok:
  assumes ok: "phys_ok h" "hr_allocated h p" "valid_slot p k"
  shows "kept h (HR_writePhysical (int p) k v h)"
    and "hr_allocated h q \<Longrightarrow> valid_slot q j \<Longrightarrow>
      slot_val (HR_writePhysical (int p) k v h) q j = (if q = p \<and> j = k then (v, snd (slot_val h p k)) else slot_val h q j)"
proof -
  define h1 where "h1 = (case shared_slot h p k of Some r \<Rightarrow> h\<lparr>hr_bank := Some (RegFile_setReg r v (the (hr_bank h)))\<rparr> | None \<Rightarrow> h)"
  let ?h' = "HR_writePhysical (int p) k v h"
  have w: "?h' = HR_setPhysical p (\<lambda>e. e\<lparr>pr_values := (pr_values e)(k := v)\<rparr>) h1" using writePhysical_slot [OF ok] by (simp add: h1_def)
  have k1: "kept h h1"
  proof (cases "shared_slot h p k")
    case None
    then show ?thesis using ok by (simp add: h1_def kept_def)
  next
    case (Some r)
    then obtain b where b: "hr_bank h = Some b" by (auto simp: shared_slot_def split: if_splits)
    then have "r \<in># all_names h" using shared_slot_held [OF ok Some] by (simp add: all_names_def)
    then show ?thesis using kept_bank [OF ok(1) b] Some b by (simp add: h1_def)
  qed
  have "kept h1 ?h'" unfolding w by (rule kept_setPhysical) (use k1 ok in \<open>auto simp: kept_def\<close>)
  then show k: "kept h ?h'" using kept_trans [OF k1] by blast
  assume q: "hr_allocated h q" "valid_slot q j"
  have ok': "phys_ok ?h'" "hr_allocated ?h' q" using k q by (auto simp: kept_def)
  have b: "bank_values ?h' = (case shared_slot h p k of Some r \<Rightarrow> (bank_values h)(r := v) | None \<Rightarrow> bank_values h)"
    by (auto simp: w h1_def HR_setPhysical_def bank_values_def RegFile_setReg_def shared_slot_def split: option.split if_splits)
  have ph: "hr_physical ?h' x = (if x = p then (hr_physical h p)\<lparr>pr_values := (pr_values (hr_physical h p))(k := v)\<rparr> else hr_physical h x)" for x
    by (simp add: w h1_def HR_setPhysical_def split: option.split)
  have s: "shared_slot ?h' q j = shared_slot h q j"
    by (auto simp: shared_slot_def ph w h1_def HR_setPhysical_def split: option.split if_splits)
  show "slot_val ?h' q j = (if q = p \<and> j = k then (v, snd (slot_val h p k)) else slot_val h q j)"
    unfolding slot_val_def readPhysical_slot [OF ok' q(2)] readPhysical_slot [OF ok(1) q] s b ph
    using shared_slot_unique [OF ok(1) ok(3) _ q(2)] by (auto split: option.split)
qed

lemma stamp_ok:
  assumes ok: "phys_ok h" "hr_allocated h p" "valid_slot p k"
  shows "kept h (HR_stamp p k t h)"
    and "slot_val (HR_stamp p k t h) q j = (if q = p \<and> j = k then (fst (slot_val h p k), t) else slot_val h q j)"
proof -
  show "kept h (HR_stamp p k t h)" unfolding HR_stamp_def by (rule kept_setPhysical) (use ok in auto)
  have "HR_readPhysical (int q) j (HR_stamp p k t h) = HR_readPhysical (int q) j h"
    by (auto simp: readPhysical_alt HR_stamp_def HR_setPhysical_def bank_values_def split: option.split)
  then show "slot_val (HR_stamp p k t h) q j = (if q = p \<and> j = k then (fst (slot_val h p k), t) else slot_val h q j)"
    by (auto simp: slot_val_def HR_stamp_def HR_setPhysical_def)
qed

lemma write_slot:
  fixes h :: helper_regs and v :: reg_val and t :: tick and p k :: nat
  assumes ok: "phys_ok h" "hr_allocated h p" "valid_slot p k"
  defines "h' \<equiv> HR_stamp p k t (HR_writePhysical (int p) k v h)"
  shows "kept h h'"
    and "hr_allocated h q \<Longrightarrow> valid_slot q j \<Longrightarrow> slot_val h' q j = (if q = p \<and> j = k then (v, t) else slot_val h q j)"
proof -
  let ?h1 = "HR_writePhysical (int p) k v h"
  note w = writePhysical_ok [OF ok, where v = v]
  have ok1: "phys_ok ?h1" "hr_allocated ?h1 p" using w(1) ok by (auto simp: kept_def)
  note st = stamp_ok [OF ok1 ok(3), where t = t]
  show "kept h h'" unfolding h'_def using kept_trans [OF w(1) st(1)] .
  show "slot_val h' q j = (if q = p \<and> j = k then (v, t) else slot_val h q j)" if "hr_allocated h q" "valid_slot q j"
    unfolding h'_def st(2) using w(2) [OF that] w(2) [OF ok(2,3)] by auto
qed

subsection \<open>Reclamation\<close>

text \<open>\<open>shed S h h'\<close>: registers outside \<open>S\<close> are as before, and none is newly allocated.\<close>

definition shed :: "nat set \<Rightarrow> helper_regs \<Rightarrow> helper_regs \<Rightarrow> bool" where
  "shed S h h' \<longleftrightarrow> hr_vrat h' = hr_vrat h \<and>
     (\<forall>q. q \<notin> S \<longrightarrow> hr_allocated h' q = hr_allocated h q \<and> hr_physical h' q = hr_physical h q) \<and>
     (\<forall>q. hr_allocated h' q \<longrightarrow> hr_allocated h q) \<and>
     same_bank h h' \<and> all_names h' = all_names h \<and> phys_ok h'"

lemma shed_refl: "phys_ok h \<Longrightarrow> shed S h h"
  by (simp add: shed_def same_bank_def)

lemma shed_trans: "shed S h h1 \<Longrightarrow> shed T h1 h2 \<Longrightarrow> shed (S \<union> T) h h2"
  by (simp add: shed_def same_bank_def)

lemma shed_slot: "shed S h h' \<Longrightarrow> q \<notin> S \<Longrightarrow> slot_val h' q k = slot_val h q k"
  by (rule slot_val_cong) (simp_all add: shed_def)

lemma reclaim_shed: "phys_ok h \<Longrightarrow> p < HR_NumPhysicalRegs \<Longrightarrow> shed {p} h (HR_reclaim p h)"
  using reclaim_ok [of p h] by (simp add: shed_def)

lemma pending_ok:
  assumes ok: "phys_ok h" "p < HR_NumPhysicalRegs" "pr_users (hr_physical h p) \<noteq> 0"
  shows "shed {p} h (HR_setPhysical p (\<lambda>e. e\<lparr>pr_pendingRelease := True\<rparr>) h)" (is "shed _ _ ?h'")
proof -
  have "held ?h' = held h"
    unfolding held_def by (rule sum.cong) (auto simp: HR_setPhysical_def entry_names_def)
  then have a: "all_names ?h' = all_names h" by (simp add: all_names_def HR_setPhysical_def split: option.split)
  have "reg_ok q (hr_allocated h q) (hr_physical ?h' q)" if "q < HR_NumPhysicalRegs" for q
    using ok that by (auto simp: phys_ok_def reg_ok_def HR_setPhysical_def empty_physical_def)
  then have "phys_ok ?h'" using ok(1) a by (simp add: phys_ok_def HR_setPhysical_def)
  then show ?thesis using a by (simp add: shed_def HR_setPhysical_def same_bank_def bank_values_def)
qed

lemma markDead_shed:
  assumes "phys_ok h"
  shows "shed {nat phys} h (HR_markDead phys h)"
proof -
  have "nat phys < HR_NumPhysicalRegs" if "\<not> (phys < 0 \<or> phys \<ge> int HR_NumPhysicalRegs)"
    using that by linarith
  then show ?thesis
    using assms by (auto simp: HR_markDead_def shed_refl pending_ok reclaim_shed)
qed

lemma release_all_shed:
  assumes "phys_ok h"
  shows "shed (nat ` {x \<in> set xs. P x}) h (fold (\<lambda>x h. if P x then HR_release x h else h) xs h)"
  using assms
proof (induction xs arbitrary: h)
  case (Cons x xs)
  let ?h1 = "if P x then HR_release x h else h"
  have s: "shed (if P x then {nat x} else {}) h ?h1"
    using markDead_shed [OF Cons.prems, of x] shed_refl [OF Cons.prems] by (simp add: HR_release_def)
  then have "phys_ok ?h1" by (simp add: shed_def)
  note t = shed_trans [OF s Cons.IH [OF this]]
  have "(if P x then {nat x} else {}) \<union> nat ` {x \<in> set xs. P x} = nat ` {y \<in> set (x # xs). P y}" by auto
  with t show ?case by (simp only: fold_simps)
qed (simp add: shed_refl)

text \<open>Issued operations hold a register; letting it go reclaims it only if it waits for that.\<close>

lemma users_ok:
  assumes ok: "phys_ok h" "p < HR_NumPhysicalRegs" "hr_allocated h p" "pr_pendingRelease (hr_physical h p) \<Longrightarrow> n \<noteq> 0"
  defines "h' \<equiv> HR_setPhysical p (\<lambda>e. e\<lparr>pr_users := n\<rparr>) h"
  shows "hr_vrat h' = hr_vrat h \<and> hr_allocated h' = hr_allocated h \<and> all_names h' = all_names h \<and> phys_ok h' \<and> same_bank h h'"
    and "pr_pendingRelease (hr_physical h' q) = pr_pendingRelease (hr_physical h q)" and "slot_val h' q k = slot_val h q k"
    and "hr_bank h' = hr_bank h"
  subgoal
  proof -
    have "held h' = held h"
      unfolding held_def by (rule sum.cong) (auto simp: HR_setPhysical_def entry_names_def h'_def)
    then have a: "all_names h' = all_names h" by (simp add: all_names_def HR_setPhysical_def h'_def split: option.split)
    have "reg_ok q (hr_allocated h q) (hr_physical h' q)" if "q < HR_NumPhysicalRegs" for q
      using ok that by (auto simp: phys_ok_def reg_ok_def HR_setPhysical_def h'_def)
    then have "phys_ok h'" using ok(1) a by (simp add: phys_ok_def HR_setPhysical_def h'_def)
    then show ?thesis using a by (simp add: HR_setPhysical_def h'_def same_bank_def bank_values_def)
  qed
  subgoal by (simp add: HR_setPhysical_def h'_def)
  subgoal by (auto simp: slot_val_def readPhysical_alt HR_setPhysical_def h'_def bank_values_def split: option.split)
  subgoal by (simp add: HR_setPhysical_def h'_def)
  done

lemma reclaim_users: "HR_reclaim p (HR_setPhysical p (\<lambda>e. e\<lparr>pr_users := n\<rparr>) h) = HR_reclaim p h"
  by (simp add: HR_reclaim_def HR_setPhysical_def Let_def HR_addRegs_def)

lemma same_users: "pr_users (hr_physical h p) = n \<Longrightarrow> HR_setPhysical p (\<lambda>e. e\<lparr>pr_users := n\<rparr>) h = h"
proof -
  have "e\<lparr>pr_users := pr_users e\<rparr> = e" for e :: physical_register by simp
  then show "pr_users (hr_physical h p) = n \<Longrightarrow> HR_setPhysical p (\<lambda>e. e\<lparr>pr_users := n\<rparr>) h = h"
    by (auto simp: HR_setPhysical_def)
qed

text \<open>What both leave alone: every register, except one that waits for its last user.\<close>

definition undisturbed :: "helper_regs \<Rightarrow> helper_regs \<Rightarrow> bool" where
  "undisturbed h h' \<longleftrightarrow> hr_vrat h' = hr_vrat h \<and> all_names h' = all_names h \<and> phys_ok h' \<and> same_bank h h' \<and>
     (\<forall>q. hr_allocated h' q \<longrightarrow> hr_allocated h q) \<and>
     (\<forall>q. \<not> pr_pendingRelease (hr_physical h q) \<longrightarrow> hr_allocated h' q = hr_allocated h q \<and>
       \<not> pr_pendingRelease (hr_physical h' q) \<and> (\<forall>k. slot_val h' q k = slot_val h q k))"

lemma retain_undisturbed:
  assumes "phys_ok h"
  shows "undisturbed h (HR_retainPhysical phys h)"
proof (cases "phys < 0 \<or> phys \<ge> int HR_NumPhysicalRegs \<or> \<not> hr_allocated h (nat phys)")
  case True
  then show ?thesis using assms by (simp add: HR_retainPhysical_def undisturbed_def same_bank_def)
next
  case False
  then have p: "nat phys < HR_NumPhysicalRegs" "hr_allocated h (nat phys)" by linarith+
  let ?n = "pr_users (hr_physical h (nat phys)) + 1"
  have "HR_retainPhysical phys h = HR_setPhysical (nat phys) (\<lambda>e. e\<lparr>pr_users := ?n\<rparr>) h"
    using False by (simp add: HR_retainPhysical_def HR_setPhysical_def)
  then show ?thesis using users_ok [OF assms p, of ?n] by (simp add: undisturbed_def)
qed

lemma releasePhysical_undisturbed:
  assumes ok: "phys_ok h"
  shows "undisturbed h (HR_releasePhysical phys h)"
proof (cases "phys < 0 \<or> phys \<ge> int HR_NumPhysicalRegs \<or> \<not> hr_allocated h (nat phys)")
  case True
  then show ?thesis using ok by (simp add: HR_releasePhysical_def undisturbed_def same_bank_def)
next
  case False
  then have p: "nat phys < HR_NumPhysicalRegs" "hr_allocated h (nat phys)" by linarith+
  let ?e = "hr_physical h (nat phys)"
  let ?h1 = "HR_setPhysical (nat phys) (\<lambda>e. e\<lparr>pr_users := pr_users ?e - 1\<rparr>) h"
  have r: "HR_releasePhysical phys h = (if pr_users ?e - 1 = 0 \<and> pr_pendingRelease ?e then HR_reclaim (nat phys) h else ?h1)"
  proof (cases "pr_users ?e = 0")
    case True
    then show ?thesis using False same_users [OF True] by (simp add: HR_releasePhysical_def Let_def)
  next
    case nz: False
    have "HR_setPhysical (nat phys) (\<lambda>e. e\<lparr>pr_users := pr_users e - 1\<rparr>) h = ?h1" by (simp add: HR_setPhysical_def)
    then show ?thesis using False nz reclaim_users [of "nat phys" "pr_users ?e - 1" h] reclaim_users [of "nat phys" 0 h]
      by (simp add: HR_releasePhysical_def Let_def) (simp add: HR_setPhysical_def)
  qed
  show ?thesis
  proof (cases "pr_users ?e - 1 = 0 \<and> pr_pendingRelease ?e")
    case True
    have s: "shed {nat phys} h (HR_reclaim (nat phys) h)" using reclaim_shed [OF ok p(1)] .
    have "slot_val (HR_reclaim (nat phys) h) q k = slot_val h q k" if "\<not> pr_pendingRelease (hr_physical h q)" for q k
      using shed_slot [OF s] that True by (cases "q = nat phys") auto
    then show ?thesis using s True r by (auto simp: undisturbed_def shed_def)
  next
    case nf: False
    then have n: "pr_pendingRelease ?e \<Longrightarrow> pr_users ?e - 1 \<noteq> 0" by simp
    have "HR_releasePhysical phys h = ?h1" using r nf by presburger
    then show ?thesis using users_ok [OF ok p n] by (simp add: undisturbed_def)
  qed
qed

end
