(* ===== verification/DVR_HelperRegs_View.thy ===== *)
theory DVR_HelperRegs_View
  imports DVR_HelperRegs_Inv
begin

text \<open>
  The architectural side of the helper register file: every register of every lane has its own
  slot, so the file is a lane-private register map whatever is renamed, retained or reclaimed.
\<close>

section \<open>The invariant of the mappings\<close>

definition lane_ok :: "helper_regs \<Rightarrow> reg_mapping \<Rightarrow> nat \<Rightarrow> bool" where
  "lane_ok h m l \<longleftrightarrow> 0 \<le> mp_lanePhysical m l \<and> nat (mp_lanePhysical m l) < HR_NumPhysicalRegs \<and>
     (mp_laneVectorized m l \<longleftrightarrow> NumScalarPhysicalRegs \<le> nat (mp_lanePhysical m l)) \<and>
     (mp_laneVectorized m l \<longrightarrow> mp_laneElement m l = l mod LanesPerVectorCopy)"

definition lane_regs :: "reg_mapping \<Rightarrow> nat set" where
  "lane_regs m = (\<lambda>l. nat (mp_lanePhysical m l)) ` {..<128}"

definition reserved :: "reg_mapping \<Rightarrow> nat set" where
  "reserved m = lane_regs m \<union> (if mp_vectorized m then nat ` set (mp_vector m) else {})"

definition mapping_ok :: "helper_regs \<Rightarrow> reg_mapping \<Rightarrow> bool" where
  "mapping_ok h m \<longleftrightarrow> (\<forall>l < 128. lane_ok h m l) \<and>
     (\<forall>p \<in> reserved m. hr_allocated h p \<and> \<not> pr_pendingRelease (hr_physical h p)) \<and>
     (\<not> mp_vectorized m \<and> 0 \<le> mp_scalar m \<longrightarrow> (\<forall>l < 128. mp_lanePhysical m l = mp_scalar m)) \<and>
     (\<forall>l < 128. \<forall>k < 128. mp_lanePhysical m l = mp_lanePhysical m k \<and> mp_laneVectorized m l \<longrightarrow>
       l div LanesPerVectorCopy = k div LanesPerVectorCopy)"

definition map_ok :: "helper_regs \<Rightarrow> bool" where
  "map_ok h \<longleftrightarrow> (\<forall>a < HR_NumArchitecturalRegs. mapping_ok h (hr_vrat h a)) \<and>
     (\<forall>a < HR_NumArchitecturalRegs. \<forall>b < HR_NumArchitecturalRegs. a \<noteq> b \<longrightarrow>
       reserved (hr_vrat h a) \<inter> reserved (hr_vrat h b) = {})"

text \<open>The slot of a register and lane.\<close>

definition slot_of :: "reg_mapping \<Rightarrow> nat \<Rightarrow> nat \<times> nat" where
  "slot_of m l = (let p = nat (mp_lanePhysical m l) in (p, if NumScalarPhysicalRegs \<le> p then l mod LanesPerVectorCopy else l))"

definition hr_view :: "helper_regs \<Rightarrow> nat \<Rightarrow> nat \<Rightarrow> reg_val \<times> tick" where
  "hr_view h a l = (HR_read a l h, HR_readyAt a l h)"

lemma map_okD:
  assumes "map_ok h" "a < HR_NumArchitecturalRegs"
  shows "mapping_ok h (hr_vrat h a)"
  using assms by (simp add: map_ok_def)

lemma slot_facts:
  assumes "mapping_ok h m" "l < 128"
  shows "valid_slot (fst (slot_of m l)) (snd (slot_of m l))" "hr_allocated h (fst (slot_of m l))"
    "fst (slot_of m l) \<in> lane_regs m" "\<not> pr_pendingRelease (hr_physical h (fst (slot_of m l)))"
proof -
  have "lane_ok h m l" using assms by (simp add: mapping_ok_def)
  then show "valid_slot (fst (slot_of m l)) (snd (slot_of m l))"
    using assms(2) by (auto simp: slot_of_def lane_ok_def valid_slot_def Let_def hr_sizes)
  show "fst (slot_of m l) \<in> lane_regs m" using assms(2) by (auto simp: lane_regs_def slot_of_def Let_def)
  then show "hr_allocated h (fst (slot_of m l))" "\<not> pr_pendingRelease (hr_physical h (fst (slot_of m l)))"
    using assms(1) by (auto simp: mapping_ok_def reserved_def)
qed

lemma view_slot:
  assumes "map_ok h" "a < HR_NumArchitecturalRegs" "l < 128"
  shows "hr_view h a l = slot_val h (fst (slot_of (hr_vrat h a) l)) (snd (slot_of (hr_vrat h a) l))"
proof -
  let ?m = "hr_vrat h a"
  have k: "lane_ok h ?m l" using map_okD [OF assms(1,2)] assms(3) by (simp add: mapping_ok_def)
  have "HR_physicalIndex a l h = mp_lanePhysical ?m l" using k assms by (simp add: HR_physicalIndex_def lane_ok_def)
  moreover have "HR_physicalLane a l h = snd (slot_of ?m l)" using k assms
    by (simp add: HR_physicalLane_def lane_ok_def slot_of_def Let_def)
  ultimately show ?thesis using k assms
    by (simp add: hr_view_def HR_read_def HR_readyAt_def lane_ok_def slot_of_def Let_def slot_val_def)
qed

lemma slots_distinct:
  assumes ok: "map_ok h" and a: "a < HR_NumArchitecturalRegs" "l < 128" and b: "b < HR_NumArchitecturalRegs" "k < 128"
    and e: "slot_of (hr_vrat h a) l = slot_of (hr_vrat h b) k"
  shows "a = b \<and> l = k"
proof -
  have "fst (slot_of (hr_vrat h a) l) \<in> reserved (hr_vrat h a)" "fst (slot_of (hr_vrat h b) k) \<in> reserved (hr_vrat h b)"
    using slot_facts(3) [OF map_okD [OF ok a(1)] a(2)] slot_facts(3) [OF map_okD [OF ok b(1)] b(2)] by (auto simp: reserved_def)
  then have ab: "a = b" using ok a b e unfolding map_ok_def by (metis disjoint_iff)
  let ?m = "hr_vrat h a"
  have m: "mapping_ok h ?m" "lane_ok h ?m l" "lane_ok h ?m k" using map_okD [OF ok a(1)] a(2) b(2) by (auto simp: mapping_ok_def)
  have "nat (mp_lanePhysical ?m l) = nat (mp_lanePhysical ?m k)" using arg_cong [OF e, of fst] ab by (simp add: slot_of_def Let_def)
  moreover have "0 \<le> mp_lanePhysical ?m l" "0 \<le> mp_lanePhysical ?m k" using m(2,3) by (simp_all add: lane_ok_def)
  ultimately have p: "mp_lanePhysical ?m l = mp_lanePhysical ?m k" by linarith
  have "l = k"
  proof (cases "NumScalarPhysicalRegs \<le> nat (mp_lanePhysical ?m l)")
    case True
    then have "mp_laneVectorized ?m l" using m(2) by (simp add: lane_ok_def)
    then have "l div LanesPerVectorCopy = k div LanesPerVectorCopy" using m(1) p a(2) b(2) unfolding mapping_ok_def by blast
    moreover have "l mod LanesPerVectorCopy = k mod LanesPerVectorCopy" using e ab p True by (simp add: slot_of_def Let_def)
    ultimately show ?thesis by (metis div_mult_mod_eq)
  next
    case False
    then have "snd (slot_of ?m l) = l" "snd (slot_of ?m k) = k" using p by (simp_all add: slot_of_def Let_def)
    then show ?thesis using e ab by metis
  qed
  then show ?thesis using ab by simp
qed

section \<open>Steps that do not remap\<close>

definition reserved_regs :: "helper_regs \<Rightarrow> nat set" where
  "reserved_regs h = (\<Union>a < HR_NumArchitecturalRegs. reserved (hr_vrat h a))"

lemma mapping_frame:
  assumes "mapping_ok h m" "\<And>p. p \<in> reserved m \<Longrightarrow> hr_allocated h' p = hr_allocated h p \<and>
    pr_pendingRelease (hr_physical h' p) = pr_pendingRelease (hr_physical h p)"
  shows "mapping_ok h' m"
  using assms unfolding mapping_ok_def lane_ok_def by blast

lemma map_frame:
  assumes ok: "map_ok h" and v: "hr_vrat h' = hr_vrat h"
    and r: "\<And>p. p \<in> reserved_regs h \<Longrightarrow> hr_allocated h' p = hr_allocated h p \<and>
      pr_pendingRelease (hr_physical h' p) = pr_pendingRelease (hr_physical h p) \<and> (\<forall>k. valid_slot p k \<longrightarrow> slot_val h' p k = slot_val h p k)"
  shows "map_ok h'" and "a < HR_NumArchitecturalRegs \<Longrightarrow> l < 128 \<Longrightarrow> hr_view h' a l = hr_view h a l"
proof -
  have "mapping_ok h' (hr_vrat h a)" if "a < HR_NumArchitecturalRegs" for a
    by (rule mapping_frame [OF map_okD [OF ok that]]) (use r that in \<open>auto simp: reserved_regs_def\<close>)
  then show m: "map_ok h'" using ok by (simp add: map_ok_def v)
  show "hr_view h' a l = hr_view h a l" if "a < HR_NumArchitecturalRegs" "l < 128"
  proof -
    have "fst (slot_of (hr_vrat h a) l) \<in> reserved_regs h"
      using slot_facts(3) [OF map_okD [OF ok that(1)] that(2)] that by (auto simp: reserved_regs_def reserved_def)
    then show ?thesis using r slot_facts(1) [OF map_okD [OF ok that(1)] that(2)]
      by (simp add: view_slot [OF m that] view_slot [OF ok that] v)
  qed
qed

lemma reserved_ok:
  assumes "map_ok h" "p \<in> reserved_regs h"
  shows "hr_allocated h p" "\<not> pr_pendingRelease (hr_physical h p)"
  using assms map_okD by (auto simp: reserved_regs_def mapping_ok_def)

lemma grown_frame:
  assumes ok: "map_ok h" and g: "grown F h h'"
  shows "map_ok h'" and "a < HR_NumArchitecturalRegs \<Longrightarrow> l < 128 \<Longrightarrow> hr_view h' a l = hr_view h a l"
    and "F \<inter> reserved_regs h' = {}" and "reserved_regs h' = reserved_regs h"
proof -
  have f: "p \<notin> F" if "p \<in> reserved_regs h" for p using reserved_ok(1) [OF ok that] g by (auto simp: grown_def)
  note m = map_frame [OF ok, of h']
  have v: "hr_vrat h' = hr_vrat h" using g by (simp add: grown_def)
  have r: "hr_allocated h' p = hr_allocated h p \<and> pr_pendingRelease (hr_physical h' p) = pr_pendingRelease (hr_physical h p) \<and>
      (\<forall>k. valid_slot p k \<longrightarrow> slot_val h' p k = slot_val h p k)" if "p \<in> reserved_regs h" for p
    using f [OF that] g grown_slot [OF g] by (simp add: grown_def)
  show "map_ok h'" by (rule m(1) [OF v r])
  show "hr_view h' a l = hr_view h a l" if "a < HR_NumArchitecturalRegs" "l < 128" by (rule m(2) [OF v r that])
  show "reserved_regs h' = reserved_regs h" by (simp add: reserved_regs_def v)
  then show "F \<inter> reserved_regs h' = {}" using f by auto
qed

lemma shed_frame:
  assumes ok: "map_ok h" and g: "shed S h h'" and s: "S \<inter> reserved_regs h = {}"
  shows "map_ok h'" and "a < HR_NumArchitecturalRegs \<Longrightarrow> l < 128 \<Longrightarrow> hr_view h' a l = hr_view h a l"
proof -
  have r: "hr_allocated h' p = hr_allocated h p \<and> pr_pendingRelease (hr_physical h' p) = pr_pendingRelease (hr_physical h p) \<and>
      (\<forall>k. valid_slot p k \<longrightarrow> slot_val h' p k = slot_val h p k)" if "p \<in> reserved_regs h" for p
    using that s g shed_slot [OF g] by (auto simp: shed_def)
  have v: "hr_vrat h' = hr_vrat h" using g by (simp add: shed_def)
  show "map_ok h'" by (rule map_frame(1) [OF ok v r])
  show "hr_view h' a l = hr_view h a l" if "a < HR_NumArchitecturalRegs" "l < 128" by (rule map_frame(2) [OF ok v r that])
qed

lemma undisturbed_frame:
  assumes ok: "map_ok h" and g: "undisturbed h h'"
  shows "map_ok h'" and "a < HR_NumArchitecturalRegs \<Longrightarrow> l < 128 \<Longrightarrow> hr_view h' a l = hr_view h a l"
proof -
  have r: "hr_allocated h' p = hr_allocated h p \<and> pr_pendingRelease (hr_physical h' p) = pr_pendingRelease (hr_physical h p) \<and>
      (\<forall>k. valid_slot p k \<longrightarrow> slot_val h' p k = slot_val h p k)" if "p \<in> reserved_regs h" for p
    using reserved_ok [OF ok that] g by (simp add: undisturbed_def)
  have v: "hr_vrat h' = hr_vrat h" using g by (simp add: undisturbed_def)
  show "map_ok h'" by (rule map_frame(1) [OF ok v r])
  show "hr_view h' a l = hr_view h a l" if "a < HR_NumArchitecturalRegs" "l < 128" by (rule map_frame(2) [OF ok v r that])
qed

text \<open>A write through the mapping changes one register of one lane.\<close>

lemma write_view:
  assumes p: "phys_ok h" and ok: "map_ok h" and a: "a < HR_NumArchitecturalRegs" "l < 128"
  shows "map_ok (HR_write a l v t h)" and "kept h (HR_write a l v t h)"
    and "b < HR_NumArchitecturalRegs \<Longrightarrow> k < 128 \<Longrightarrow>
      hr_view (HR_write a l v t h) b k = (if b = a \<and> k = l then (v, t) else hr_view h b k)"
proof -
  let ?m = "hr_vrat h a"
  obtain q e where s: "slot_of ?m l = (q, e)" by fastforce
  have m: "mapping_ok h ?m" "lane_ok h ?m l" using map_okD [OF ok a(1)] a(2) by (auto simp: mapping_ok_def)
  have f: "valid_slot q e" "hr_allocated h q" using slot_facts(1,2) [OF m(1) a(2)] s by simp_all
  have "int q = mp_lanePhysical ?m l" "nat (mp_lanePhysical ?m l) = q" using s m(2) by (auto simp: slot_of_def Let_def lane_ok_def)
  moreover have "HR_physicalLane a l h = e" using m(2) a s
    by (auto simp: HR_physicalLane_def lane_ok_def slot_of_def Let_def split: if_splits)
  moreover have "HR_physicalIndex a l h = mp_lanePhysical ?m l" using m(2) a by (simp add: HR_physicalIndex_def lane_ok_def)
  ultimately have w: "HR_write a l v t h = HR_stamp q e t (HR_writePhysical (int q) e v h)"
    using a m(2) by (simp add: HR_write_def lane_ok_def)
  note ws = write_slot [OF p f(2,1), where v = v and t = t, folded w]
  show "kept h (HR_write a l v t h)" by (rule ws(1))
  have v': "hr_vrat (HR_write a l v t h) = hr_vrat h" using ws(1) by (simp add: kept_def)
  have "mapping_ok (HR_write a l v t h) (hr_vrat h b)" if "b < HR_NumArchitecturalRegs" for b
    by (rule mapping_frame [OF map_okD [OF ok that]]) (use ws(1) in \<open>simp add: kept_def\<close>)
  then show m': "map_ok (HR_write a l v t h)" using ok by (simp add: map_ok_def v')
  show "hr_view (HR_write a l v t h) b k = (if b = a \<and> k = l then (v, t) else hr_view h b k)"
    if b: "b < HR_NumArchitecturalRegs" "k < 128"
  proof -
    let ?s = "slot_of (hr_vrat h b) k"
    have "slot_val (HR_write a l v t h) (fst ?s) (snd ?s) = (if fst ?s = q \<and> snd ?s = e then (v, t) else slot_val h (fst ?s) (snd ?s))"
      by (rule ws(2)) (use slot_facts(1,2) [OF map_okD [OF ok b(1)] b(2)] in simp_all)
    moreover have "fst ?s = q \<and> snd ?s = e \<longleftrightarrow> b = a \<and> k = l"
      using slots_distinct [OF ok b a] s by (metis prod.collapse prod.inject)
    ultimately show ?thesis by (simp add: view_slot [OF m' b] view_slot [OF ok b] v')
  qed
qed

lemma conservation_holds:
  assumes "phys_ok h" "map_ok h"
  shows "HR_conservationValid h"
  unfolding HR_conservationValid_def list_all_iff
proof (intro conjI ballI)
  fix p assume "p \<in> set [0..<HR_NumPhysicalRegs]"
  then have r: "reg_ok p (hr_allocated h p) (hr_physical h p)" using assms(1) by (simp add: phys_ok_def)
  then show "hr_allocated h p = pr_allocated (hr_physical h p)" by (simp add: reg_ok_def)
  show "\<not> (\<not> hr_allocated h p \<and> (pr_users (hr_physical h p) \<noteq> 0 \<or> pr_pendingRelease (hr_physical h p)))"
    using r by (auto simp: reg_ok_def empty_physical_def)
next
  fix a assume "a \<in> set [0..<HR_NumArchitecturalRegs]"
  then have m: "mapping_ok h (hr_vrat h a)" using map_okD [OF assms(2)] by simp
  then have al: "p \<in> reserved (hr_vrat h a) \<Longrightarrow> hr_allocated h p" for p by (simp add: mapping_ok_def)
  have l: "hr_allocated h (nat (mp_lanePhysical (hr_vrat h a) l))" if "l < 128" for l
    by (rule al) (use that in \<open>auto simp: reserved_def lane_regs_def\<close>)
  have s: "mp_scalar (hr_vrat h a) = mp_lanePhysical (hr_vrat h a) 0"
    if "\<not> mp_vectorized (hr_vrat h a)" "0 \<le> mp_scalar (hr_vrat h a)"
    using m that by (simp add: mapping_ok_def)
  show "let m = hr_vrat h a in
       (\<forall>l \<in> set [0..<128]. \<not> (mp_lanePhysical m l \<ge> 0 \<and> \<not> hr_allocated h (nat (mp_lanePhysical m l)))) \<and>
       (if mp_vectorized m then \<forall>p \<in> set (mp_vector m). \<not> (p \<ge> 0 \<and> \<not> hr_allocated h (nat p))
        else \<not> (mp_scalar m \<ge> 0 \<and> \<not> hr_allocated h (nat (mp_scalar m))))"
    using l l [of 0] s al by (auto simp: Let_def reserved_def)
qed

end
