(* ===== verification/DVR_HelperRegs_Rename.thy ===== *)
theory DVR_HelperRegs_Rename
  imports DVR_HelperRegs_View
begin

text \<open>
  Renaming in the helper register file: each of the three loops copies the lanes of one register
  into fresh slots and remaps some of them, which changes no register of any lane.
\<close>

section \<open>Copying lanes into fresh slots\<close>

definition fresh_slots :: "(nat \<Rightarrow> bool) \<Rightarrow> (nat \<Rightarrow> nat \<times> nat) \<Rightarrow> nat set \<Rightarrow> helper_regs \<Rightarrow> bool" where
  "fresh_slots W N F h1 \<longleftrightarrow> F \<inter> reserved_regs h1 = {} \<and>
     (\<forall>l < 128. W l \<longrightarrow> fst (N l) \<in> F \<and> hr_allocated h1 (fst (N l)) \<and> valid_slot (fst (N l)) (snd (N l))) \<and>
     (\<forall>l < 128. \<forall>k < 128. W l \<and> W k \<and> N l = N k \<longrightarrow> l = k)"

definition copied :: "(nat \<Rightarrow> bool) \<Rightarrow> (nat \<Rightarrow> nat \<times> nat) \<Rightarrow> nat set \<Rightarrow> nat \<Rightarrow> helper_regs \<Rightarrow> nat \<Rightarrow> helper_regs \<Rightarrow> bool" where
  "copied W N F a h1 i h \<longleftrightarrow> hr_allocated h = hr_allocated h1 \<and> (hr_bank h = None) = (hr_bank h1 = None) \<and>
     (\<forall>q. pr_pendingRelease (hr_physical h q) = pr_pendingRelease (hr_physical h1 q)) \<and>
     all_names h = all_names h1 \<and> phys_ok h \<and> bank_frame h1 h \<and>
     (\<forall>q k. q \<notin> F \<longrightarrow> hr_allocated h1 q \<longrightarrow> valid_slot q k \<longrightarrow> slot_val h q k = slot_val h1 q k) \<and>
     (\<forall>l < i. W l \<longrightarrow> slot_val h (fst (N l)) (snd (N l)) = hr_view h1 a l)"

lemma copied_start: "phys_ok h1 \<Longrightarrow> copied W N F a h1 0 h1"
  by (simp add: copied_def)

lemma copied_skip: "copied W N F a h1 i h \<Longrightarrow> \<not> W i \<Longrightarrow> copied W N F a h1 (Suc i) h"
  by (auto simp: copied_def less_Suc_eq)

lemma slot_val_setMapping [simp]: "slot_val (HR_setMapping b f h) q k = slot_val h q k"
  by (rule slot_val_cong) (simp_all add: HR_setMapping_def same_bank_def bank_values_def)

lemma all_names_setMapping [simp]: "all_names (HR_setMapping b f h) = all_names h"
proof -
  have "held (HR_setMapping b f h) = held h" by (simp add: held_def HR_setMapping_def)
  then show ?thesis by (simp add: all_names_def HR_setMapping_def split: option.split)
qed

lemma setMapping_fields [simp]:
  "hr_allocated (HR_setMapping b f h) = hr_allocated h" "hr_physical (HR_setMapping b f h) = hr_physical h"
  "hr_bank (HR_setMapping b f h) = hr_bank h" "hr_vrat (HR_setMapping b f h) = (hr_vrat h)(b := f (hr_vrat h b))"
  by (simp_all add: HR_setMapping_def)

lemma phys_ok_setMapping [simp]: "phys_ok (HR_setMapping b f h) = phys_ok h"
  by (simp add: phys_ok_def)

lemma bank_frame_setMapping [simp]: "bank_frame h1 (HR_setMapping b f h) = bank_frame h1 h"
  by (simp add: bank_frame_def bank_values_def HR_setMapping_def)

lemma copied_map [simp]: "copied W N F a h1 i (HR_setMapping b f h) = copied W N F a h1 i h"
  by (simp add: copied_def)

lemma copied_write:
  assumes c: "copied W N F a h1 i h" and n: "fresh_slots W N F h1" and i: "i < 128" "W i" and N: "N i = (p, k)"
    and v: "(v, t) = hr_view h1 a i"
  shows "copied W N F a h1 (Suc i) (HR_stamp p k t (HR_writePhysical (int p) k v h))" (is "copied _ _ _ _ _ _ ?h'")
    and "hr_vrat (HR_stamp p k t (HR_writePhysical (int p) k v h)) = hr_vrat h"
proof -
  have p: "p \<in> F" "hr_allocated h p" "valid_slot p k" using n i N c by (auto simp: fresh_slots_def copied_def)
  have ok: "phys_ok h" "hr_allocated h = hr_allocated h1" using c by (auto simp: copied_def)
  note w = write_slot [OF ok(1) p(2,3), where v = v and t = t]
  show "hr_vrat ?h' = hr_vrat h" using w(1) by (simp add: kept_def)
  have "slot_val ?h' (fst (N l)) (snd (N l)) = hr_view h1 a l" if l: "l < Suc i" "W l" for l
  proof -
    have f: "hr_allocated h (fst (N l))" "valid_slot (fst (N l)) (snd (N l))" using n l i ok(2) by (auto simp: fresh_slots_def)
    have "fst (N l) = p \<and> snd (N l) = k \<longleftrightarrow> l = i"
      using n l i N unfolding fresh_slots_def by (metis Suc_lessI less_trans_Suc not_less_eq prod.collapse prod.inject)
    then show ?thesis using w(2) [OF f] v c l by (auto simp: copied_def less_Suc_eq)
  qed
  moreover have "slot_val ?h' q j = slot_val h1 q j" if "q \<notin> F" "hr_allocated h1 q" "valid_slot q j" for q j
    using w(2) [of q j] that c p(1) ok(2) by (auto simp: copied_def)
  moreover have "bank_frame h1 ?h'" using c w(1) by (auto simp: copied_def kept_def intro: bank_frame_trans)
  ultimately show "copied W N F a h1 (Suc i) ?h'" using c w(1) by (simp add: copied_def kept_def)
qed

text \<open>A lane that is still mapped as before reads what it read before the loop.\<close>

lemma view_unmoved:
  assumes c: "copied W N F a h1 i h" and ok: "map_ok h1" and n: "F \<inter> reserved_regs h1 = {}"
    and a: "a < HR_NumArchitecturalRegs" "l < 128"
    and m: "mp_lanePhysical (hr_vrat h a) l = mp_lanePhysical (hr_vrat h1 a) l"
      "mp_laneElement (hr_vrat h a) l = mp_laneElement (hr_vrat h1 a) l"
      "mp_laneVectorized (hr_vrat h a) l = mp_laneVectorized (hr_vrat h1 a) l"
  shows "hr_view h a l = hr_view h1 a l"
proof -
  let ?m = "hr_vrat h1 a"
  let ?s = "slot_of ?m l"
  have mo: "mapping_ok h1 ?m" "lane_ok h1 ?m l" using map_okD [OF ok a(1)] a(2) by (auto simp: mapping_ok_def)
  have "HR_physicalIndex a l h = mp_lanePhysical ?m l" using mo(2) a m by (simp add: HR_physicalIndex_def lane_ok_def)
  moreover have "HR_physicalLane a l h = snd ?s" using mo(2) a m
    by (simp add: HR_physicalLane_def lane_ok_def slot_of_def Let_def)
  ultimately have "hr_view h a l = slot_val h (fst ?s) (snd ?s)" using mo(2) a
    by (simp add: hr_view_def HR_read_def HR_readyAt_def lane_ok_def slot_of_def Let_def slot_val_def)
  moreover have "fst ?s \<notin> F" using slot_facts(3) [OF mo(1) a(2)] n a(1) by (auto simp: reserved_regs_def reserved_def)
  ultimately show ?thesis using c slot_facts(1,2) [OF mo(1) a(2)] view_slot [OF ok a] by (simp add: copied_def)
qed

text \<open>After the loop each lane has its new slot or its old one.\<close>

lemma remapped:
  assumes ok: "map_ok h1" and n: "fresh_slots W N F h1" and c: "copied W N F a h1 128 h" and a: "a < HR_NumArchitecturalRegs"
    and v: "hr_vrat h = (hr_vrat h1)(a := m')" and m': "mapping_ok h m'" "reserved m' \<subseteq> F \<union> reserved (hr_vrat h1 a)"
    and s: "\<And>l. l < 128 \<Longrightarrow> (W l \<and> slot_of m' l = N l) \<or> slot_of m' l = slot_of (hr_vrat h1 a) l"
  shows "map_ok h" and "b < HR_NumArchitecturalRegs \<Longrightarrow> l < 128 \<Longrightarrow> hr_view h b l = hr_view h1 b l"
proof -
  have f: "F \<inter> reserved_regs h1 = {}" using n by (simp add: fresh_slots_def)
  have "mapping_ok h (hr_vrat h b)" if b: "b < HR_NumArchitecturalRegs" for b
  proof (cases "b = a")
    case False
    have "mapping_ok h (hr_vrat h1 b)" by (rule mapping_frame [OF map_okD [OF ok b]]) (use c in \<open>simp add: copied_def\<close>)
    then show ?thesis using False v by simp
  qed (use m' v in simp)
  moreover have "reserved (hr_vrat h b) \<inter> reserved (hr_vrat h b') = {}"
    if b: "b < HR_NumArchitecturalRegs" "b' < HR_NumArchitecturalRegs" "b \<noteq> b'" for b b'
  proof -
    have dis: "reserved m' \<inter> reserved (hr_vrat h1 x) = {}" if "x < HR_NumArchitecturalRegs" "x \<noteq> a" for x
    proof -
      have "F \<inter> reserved (hr_vrat h1 x) = {}" using f that by (auto simp: reserved_regs_def)
      moreover have "reserved (hr_vrat h1 a) \<inter> reserved (hr_vrat h1 x) = {}" using ok that a by (auto simp: map_ok_def)
      ultimately show ?thesis using m'(2) by blast
    qed
    then show ?thesis using ok b v dis [of b] dis [of b'] by (cases "b = a"; cases "b' = a") (auto simp: map_ok_def)
  qed
  ultimately show m: "map_ok h" by (simp add: map_ok_def)
  show "hr_view h b l = hr_view h1 b l" if b: "b < HR_NumArchitecturalRegs" "l < 128"
  proof (cases "b = a \<and> slot_of m' l \<noteq> slot_of (hr_vrat h1 a) l")
    case True
    then have "W l" "slot_of m' l = N l" using s [OF b(2)] by auto
    then show ?thesis using view_slot [OF m b] True v c b(2) by (simp add: copied_def)
  next
    case False
    then have e: "slot_of (hr_vrat h b) l = slot_of (hr_vrat h1 b) l" using v by auto
    let ?s = "slot_of (hr_vrat h1 b) l"
    note sf = slot_facts [OF map_okD [OF ok b(1)] b(2)]
    have "fst ?s \<notin> F" using sf(3) f b(1) by (auto simp: reserved_regs_def reserved_def)
    then have "slot_val h (fst ?s) (snd ?s) = slot_val h1 (fst ?s) (snd ?s)" using c sf(1,2) by (simp add: copied_def)
    then show ?thesis using view_slot [OF m b] view_slot [OF ok b] e by simp
  qed
qed

section \<open>Releasing the old registers\<close>

lemma push_set: "set (fold (\<lambda>phys result. if phys < 0 \<or> phys \<in> set result then result else result @ [phys]) xs acc) =
    set acc \<union> {x \<in> set xs. (0 :: int) \<le> x}"
  by (induction xs arbitrary: acc) auto

lemma physicalMappings_set:
  assumes "mapping_ok h (hr_vrat h a)" "a < HR_NumArchitecturalRegs"
  shows "set (HR_physicalMappings a h) = mp_lanePhysical (hr_vrat h a) ` {..<128}"
proof -
  let ?lp = "mp_lanePhysical (hr_vrat h a)"
  let ?r = "fold (\<lambda>phys result. if phys < 0 \<or> phys \<in> set result then result else result @ [phys]) (map ?lp [0..<128]) []"
  have pos: "0 \<le> ?lp l" if "l < 128" for l using assms that by (simp add: mapping_ok_def lane_ok_def)
  have r: "set ?r = ?lp ` {..<128}" using pos by (auto simp: push_set)
  have "?r \<noteq> []"
  proof
    assume "?r = []"
    then have "set ?r = {}" by (simp only: list.set)
    moreover have "?lp 0 \<in> set ?r" unfolding r by (rule imageI) simp
    ultimately show False by (simp only: empty_iff)
  qed
  then show ?thesis using assms(2) r by (simp add: HR_physicalMappings_def Let_def)
qed

lemma releaseOld_ok:
  fixes h :: helper_regs and old :: "int list" and a :: nat
  assumes ok1: "map_ok h1" and ok: "map_ok h" "phys_ok h" and a: "a < HR_NumArchitecturalRegs"
    and v: "hr_vrat h = (hr_vrat h1)(a := m')"
    and old: "set old = mp_lanePhysical (hr_vrat h1 a) ` {..<128}"
    and vec: "mp_vectorized m' \<Longrightarrow> nat ` set (mp_vector m') \<inter> reserved (hr_vrat h1 a) = {}"
  defines "h' \<equiv> HR_releaseOld old a h"
  shows "map_ok h'" and "b < HR_NumArchitecturalRegs \<Longrightarrow> l < 128 \<Longrightarrow> hr_view h' b l = hr_view h b l"
    and "\<exists>S. shed S h h' \<and> S \<subseteq> lane_regs (hr_vrat h1 a)"
proof -
  have va: "hr_vrat h a = m'" using v by simp
  have cur: "set (HR_physicalMappings a h) = mp_lanePhysical m' ` {..<128}"
    using physicalMappings_set [OF map_okD [OF ok(1) a] a] va by simp
  let ?S = "nat ` {x \<in> set old. x \<notin> set (HR_physicalMappings a h)}"
  have sh: "shed ?S h h'" unfolding h'_def HR_releaseOld_def Let_def by (rule release_all_shed [OF ok(2)])
  have S0: "?S \<subseteq> lane_regs (hr_vrat h1 a)" using old by (auto simp: lane_regs_def)
  then have S1: "?S \<subseteq> reserved (hr_vrat h1 a)" by (auto simp: reserved_def)
  have S2: "?S \<inter> lane_regs m' = {}"
  proof -
    have pos: "0 \<le> mp_lanePhysical m' l" "0 \<le> mp_lanePhysical (hr_vrat h1 a) l" if "l < 128" for l
      using map_okD [OF ok(1) a] map_okD [OF ok1 a] va that by (auto simp: mapping_ok_def lane_ok_def)
    have "False" if x: "x \<in> set old" "x \<notin> set (HR_physicalMappings a h)" "nat x \<in> lane_regs m'" for x
    proof -
      obtain k l where kl: "x = mp_lanePhysical (hr_vrat h1 a) k" "k < 128" "nat x = nat (mp_lanePhysical m' l)" "l < 128"
        using x(1,3) old by (auto simp: lane_regs_def)
      then have "x = mp_lanePhysical m' l" using pos(1) [of l] pos(2) [of k] by linarith
      then show False using x(2) cur kl(4) by blast
    qed
    then show ?thesis by blast
  qed
  have "?S \<inter> reserved (hr_vrat h b) = {}" if b: "b < HR_NumArchitecturalRegs" for b
  proof (cases "b = a")
    case True
    then show ?thesis using S1 S2 vec va by (auto simp: reserved_def [of m'])
  next
    case False
    then have "reserved (hr_vrat h b) \<inter> reserved (hr_vrat h1 a) = {}" using ok1 a b v by (simp add: map_ok_def)
    then show ?thesis using S1 by blast
  qed
  then have "?S \<inter> reserved_regs h = {}" by (auto simp: reserved_regs_def)
  note f = shed_frame [OF ok(1) sh this]
  show "map_ok h'" by (rule f(1))
  show "hr_view h' b l = hr_view h b l" if "b < HR_NumArchitecturalRegs" "l < 128" by (rule f(2) [OF that])
  show "\<exists>S. shed S h h' \<and> S \<subseteq> lane_regs (hr_vrat h1 a)" using sh S0 by blast
qed

text \<open>
  What a rename of register \<open>a\<close> does: the lanes read what they read before, only registers that the
  lanes of \<open>a\<close> used are given up, and they now use those or fresh ones.
\<close>

definition renames :: "nat \<Rightarrow> helper_regs \<Rightarrow> helper_regs \<Rightarrow> bool" where
  "renames a h h' \<longleftrightarrow> phys_ok h' \<and> map_ok h' \<and> all_names h' = all_names h \<and> (hr_bank h' = None) = (hr_bank h = None) \<and> bank_frame h h' \<and>
     (\<forall>b < HR_NumArchitecturalRegs. \<forall>l < 128. hr_view h' b l = hr_view h b l) \<and>
     (\<forall>b. b \<noteq> a \<longrightarrow> hr_vrat h' b = hr_vrat h b) \<and>
     (\<forall>q. hr_allocated h q \<longrightarrow> q \<notin> lane_regs (hr_vrat h a) \<longrightarrow>
       hr_allocated h' q \<and> pr_pendingRelease (hr_physical h' q) = pr_pendingRelease (hr_physical h q)) \<and>
     lane_regs (hr_vrat h' a) \<subseteq> lane_regs (hr_vrat h a) \<union> {q. \<not> hr_allocated h q}"

lemma renames_refl: "phys_ok h \<Longrightarrow> map_ok h \<Longrightarrow> renames a h h"
  by (simp add: renames_def)

lemma grown_renames:
  assumes "map_ok h" "grown {} h h1"
  shows "renames a h h1"
  using grown_frame [OF assms] assms(2) bank_frame_same [of h h1] by (simp add: renames_def grown_def same_bank_def)

lemma copied_renames:
  assumes ok: "map_ok h" and g: "grown F h h1" and c: "copied W N F a h1 128 h3" and v: "hr_vrat h3 = (hr_vrat h1)(a := m')"
    and m': "lane_regs m' \<subseteq> F \<union> lane_regs (hr_vrat h1 a)" and sh: "shed S h3 h'" "S \<subseteq> lane_regs (hr_vrat h1 a)" and ok': "map_ok h'"
    and vw: "\<And>b l. b < HR_NumArchitecturalRegs \<Longrightarrow> l < 128 \<Longrightarrow> hr_view h' b l = hr_view h1 b l"
  shows "renames a h h'"
proof -
  have v1: "hr_vrat h1 = hr_vrat h" using g by (simp add: grown_def)
  have "hr_allocated h' q \<and> pr_pendingRelease (hr_physical h' q) = pr_pendingRelease (hr_physical h q)"
    if q: "hr_allocated h q" "q \<notin> lane_regs (hr_vrat h a)" for q
  proof -
    have "q \<notin> F" "hr_allocated h1 q" using g q by (auto simp: grown_def)
    moreover have "hr_allocated h' q = hr_allocated h3 q" "hr_physical h' q = hr_physical h3 q" using sh q v1 by (auto simp: shed_def)
    ultimately show ?thesis using c g by (simp add: copied_def grown_def)
  qed
  moreover have vr: "hr_vrat h' = (hr_vrat h)(a := m')" using sh v v1 by (simp add: shed_def)
  moreover have "lane_regs m' \<subseteq> lane_regs (hr_vrat h a) \<union> {q. \<not> hr_allocated h q}"
    using m' v1 g by (auto simp: grown_def)
  moreover have "phys_ok h'" "all_names h' = all_names h" using sh c g by (simp_all add: shed_def copied_def grown_def)
  moreover have "hr_view h' b l = hr_view h b l" if "b < HR_NumArchitecturalRegs" "l < 128" for b l
    using vw [OF that] grown_frame(2) [OF ok g that] by simp
  moreover have "(hr_bank h' = None) = (hr_bank h = None)"
    using sh(1) c g by (simp add: shed_def copied_def grown_def same_bank_def)
  moreover have "bank_frame h h'"
  proof -
    have "bank_frame h h1" "bank_frame h1 h3" "bank_frame h3 h'" using g c sh by (auto simp: grown_def copied_def shed_def intro: bank_frame_same)
    moreover have "all_names h1 = all_names h" "all_names h3 = all_names h1" using g c by (auto simp: grown_def copied_def)
    ultimately show ?thesis by (simp add: bank_frame_def)
  qed
  ultimately show ?thesis using ok' unfolding renames_def by simp
qed

section \<open>Vector destinations\<close>

definition bundle_slot :: "nat list \<Rightarrow> nat \<Rightarrow> nat \<times> nat" where
  "bundle_slot ps l = (ps ! (l div LanesPerVectorCopy), l mod LanesPerVectorCopy)"

lemma copy_index: "l < 128 \<Longrightarrow> l div LanesPerVectorCopy < VectorCopies"
  by (simp add: hr_sizes)

lemma bundle_fresh:
  assumes ok: "map_ok h" and g: "grown (set ps) h h1"
    and ps: "length ps = VectorCopies" "distinct ps" "set ps \<subseteq> {NumScalarPhysicalRegs..<HR_NumPhysicalRegs}"
  shows "fresh_slots W (bundle_slot ps) (set ps) h1"
proof -
  have m: "ps ! (l div LanesPerVectorCopy) \<in> set ps" if "l < 128" for l using copy_index [OF that] ps(1) by simp
  have "hr_allocated h1 p" if "p \<in> set ps" for p using g that by (simp add: grown_def)
  moreover have "valid_slot (ps ! (l div LanesPerVectorCopy)) (l mod LanesPerVectorCopy)" if "l < 128" for l
    using m [OF that] ps(3) by (auto simp: valid_slot_def hr_sizes)
  moreover have "l = k" if lk: "l < 128" "k < 128" "bundle_slot ps l = bundle_slot ps k" for l k
  proof -
    have "l div LanesPerVectorCopy = k div LanesPerVectorCopy" "l mod LanesPerVectorCopy = k mod LanesPerVectorCopy"
      using lk ps(1,2) copy_index by (auto simp: bundle_slot_def nth_eq_iff_index_eq)
    then show ?thesis by (metis div_mult_mod_eq)
  qed
  ultimately show ?thesis using m grown_frame(3) [OF ok g] by (auto simp: fresh_slots_def bundle_slot_def)
qed

definition moved :: "lane_mask \<Rightarrow> int list \<Rightarrow> nat \<Rightarrow> reg_mapping \<Rightarrow> reg_mapping" where
  "moved am bs i m =
     m\<lparr>mp_lanePhysical := (\<lambda>l. if l < i \<and> test_lane am l then bs ! (l div LanesPerVectorCopy) else mp_lanePhysical m l),
       mp_laneElement := (\<lambda>l. if l < i \<and> test_lane am l then l mod LanesPerVectorCopy else mp_laneElement m l),
       mp_laneVectorized := (\<lambda>l. if l < i \<and> test_lane am l then True else mp_laneVectorized m l)\<rparr>"

lemma moved_Suc:
  "moved am bs (Suc i) m = (if test_lane am i
     then (moved am bs i m)\<lparr>mp_lanePhysical := (mp_lanePhysical (moved am bs i m))(i := bs ! (i div LanesPerVectorCopy)),
       mp_laneElement := (mp_laneElement (moved am bs i m))(i := i mod LanesPerVectorCopy),
       mp_laneVectorized := (mp_laneVectorized (moved am bs i m))(i := True)\<rparr>
     else moved am bs i m)"
  by (rule reg_mapping.equality) (auto simp: moved_def less_Suc_eq fun_eq_iff)

lemma moveLane_loop:
  assumes ok: "map_ok h1" "phys_ok h1" and a: "a < HR_NumArchitecturalRegs"
    and ps: "length ps = VectorCopies" and n: "fresh_slots (\<lambda>l. True) (bundle_slot ps) (set ps) h1" and i: "i \<le> 128"
  shows "copied (\<lambda>l. True) (bundle_slot ps) (set ps) a h1 i (fold (HR_moveLane a am (map int ps)) [0..<i] h1) \<and>
    hr_vrat (fold (HR_moveLane a am (map int ps)) [0..<i] h1) = (hr_vrat h1)(a := moved am (map int ps) i (hr_vrat h1 a))"
  using i
proof (induction i)
  case 0
  then show ?case using copied_start [OF ok(2)] by (simp add: moved_def)
next
  case (Suc i)
  define h where "h = fold (HR_moveLane a am (map int ps)) [0..<i] h1"
  have c: "copied (\<lambda>l. True) (bundle_slot ps) (set ps) a h1 i h"
    and v: "hr_vrat h = (hr_vrat h1)(a := moved am (map int ps) i (hr_vrat h1 a))" using Suc by (auto simp: h_def)
  have i: "i < 128" using Suc.prems by simp
  let ?p = "ps ! (i div LanesPerVectorCopy)" and ?e = "i mod LanesPerVectorCopy"
  have vw: "hr_view h a i = hr_view h1 a i"
    by (rule view_unmoved [OF c ok(1) _ a i]) (use n v in \<open>auto simp: fresh_slots_def moved_def\<close>)
  then have r: "(HR_read a i h, HR_readyAt a i h) = hr_view h1 a i" by (simp add: hr_view_def)
  have s: "bundle_slot ps i = (?p, ?e)" by (simp add: bundle_slot_def)
  note w = copied_write [OF c n i TrueI s r]
  have b: "map int ps ! (i div LanesPerVectorCopy) = int ?p" using copy_index [OF i] ps by simp
  let ?w = "HR_stamp ?p ?e (HR_readyAt a i h) (HR_writePhysical (int ?p) ?e (HR_read a i h) h)"
  have e: "fold (HR_moveLane a am (map int ps)) [0..<Suc i] h1 = HR_moveLane a am (map int ps) i h" by (simp add: h_def)
  have st: "HR_moveLane a am (map int ps) i h = (if test_lane am i
      then HR_setMapping a (\<lambda>m. m\<lparr>mp_lanePhysical := (mp_lanePhysical m)(i := int ?p),
        mp_laneElement := (mp_laneElement m)(i := ?e), mp_laneVectorized := (mp_laneVectorized m)(i := True)\<rparr>) ?w else ?w)"
    by (simp add: HR_moveLane_def Let_def b)
  show ?case unfolding e st using w v by (simp add: moved_Suc [of am "map int ps" i, unfolded b])
qed

lemma grown_pending: "grown F h h1 \<Longrightarrow> p \<in> F \<Longrightarrow> hr_allocated h1 p \<and> \<not> pr_pendingRelease (hr_physical h1 p)"
  by (simp add: grown_def)

text \<open>The mapping after a masked vector rename.\<close>

lemma moved_ok:
  fixes ps :: "nat list" and m :: reg_mapping and am :: lane_mask and vz :: bool
  assumes m: "mapping_ok h1 m" and F: "set ps \<inter> reserved m = {}"
    and ps: "length ps = VectorCopies" "distinct ps" "set ps \<subseteq> {NumScalarPhysicalRegs..<HR_NumPhysicalRegs}"
    and fresh: "\<And>p. p \<in> set ps \<Longrightarrow> hr_allocated h p \<and> \<not> pr_pendingRelease (hr_physical h p)"
    and same: "\<And>p. hr_allocated h p = hr_allocated h1 p \<and> pr_pendingRelease (hr_physical h p) = pr_pendingRelease (hr_physical h1 p)"
  defines "m' \<equiv> (moved am (map int ps) 128 m)\<lparr>mp_vector := map int ps, mp_scalar := - 1, mp_vectorized := vz\<rparr>"
  shows "mapping_ok h m'" and "reserved m' \<subseteq> set ps \<union> reserved m" and "lane_regs m' \<subseteq> set ps \<union> lane_regs m"
    and "l < 128 \<Longrightarrow> slot_of m' l = (if test_lane am l then bundle_slot ps l else slot_of m l)"
proof -
  have mem: "ps ! (l div LanesPerVectorCopy) \<in> set ps" if "l < 128" for l using copy_index [OF that] ps(1) by simp
  have lp: "mp_lanePhysical m' l = (if test_lane am l then int (ps ! (l div LanesPerVectorCopy)) else mp_lanePhysical m l)"
    if "l < 128" for l using that copy_index [OF that] ps(1) by (simp add: m'_def moved_def)
  have lv: "mp_laneVectorized m' l = (test_lane am l \<or> mp_laneVectorized m l)"
    "mp_laneElement m' l = (if test_lane am l then l mod LanesPerVectorCopy else mp_laneElement m l)" if "l < 128" for l
    using that by (simp_all add: m'_def moved_def)
  have old: "lane_ok h1 m l" "nat (mp_lanePhysical m l) \<in> lane_regs m" "nat (mp_lanePhysical m l) \<in> reserved m" if "l < 128" for l
    using m that by (auto simp: mapping_ok_def reserved_def lane_regs_def)
  show "lane_regs m' \<subseteq> set ps \<union> lane_regs m" using mem old(2) lp by (auto simp: lane_regs_def)
  then have "lane_regs m' \<subseteq> set ps \<union> reserved m" by (auto simp: reserved_def)
  moreover have "nat ` set (mp_vector m') = set ps" by (simp add: m'_def image_image)
  ultimately show res: "reserved m' \<subseteq> set ps \<union> reserved m" unfolding reserved_def [of m'] by auto
  show "slot_of m' l = (if test_lane am l then bundle_slot ps l else slot_of m l)" if l: "l < 128"
    using lp [OF l] mem [OF l] ps(3) by (auto simp: slot_of_def bundle_slot_def Let_def)
  have "lane_ok h m' l" if l: "l < 128" for l
  proof (cases "test_lane am l")
    case True
    then show ?thesis using lp [OF l] lv [OF l] mem [OF l] ps(3) by (auto simp: lane_ok_def)
  next
    case False
    then show ?thesis using lp [OF l] lv [OF l] old(1) [OF l] by (simp add: lane_ok_def)
  qed
  moreover have "hr_allocated h p \<and> \<not> pr_pendingRelease (hr_physical h p)" if "p \<in> reserved m'" for p
    using that res fresh m same by (auto simp: mapping_ok_def)
  moreover have "l div LanesPerVectorCopy = k div LanesPerVectorCopy"
    if lk: "l < 128" "k < 128" "mp_lanePhysical m' l = mp_lanePhysical m' k" "mp_laneVectorized m' l" for l k
  proof (cases "test_lane am l = test_lane am k")
    case True
    show ?thesis
    proof (cases "test_lane am l")
      case t: True
      then have "ps ! (l div LanesPerVectorCopy) = ps ! (k div LanesPerVectorCopy)" using lk lp True by simp
      then show ?thesis using ps(1,2) copy_index lk by (simp add: nth_eq_iff_index_eq)
    next
      case t: False
      then have "mp_lanePhysical m l = mp_lanePhysical m k" "mp_laneVectorized m l" using lk lp lv True by simp_all
      then show ?thesis using m lk(1,2) unfolding mapping_ok_def by blast
    qed
  next
    case False
    obtain x y where xy: "x < 128" "y < 128" "test_lane am x" "\<not> test_lane am y" "mp_lanePhysical m' x = mp_lanePhysical m' y"
      using False lk by (cases "test_lane am l") metis+
    then have "nat (mp_lanePhysical m y) = ps ! (x div LanesPerVectorCopy)" using lp [of x] lp [of y] by simp
    then show ?thesis using mem [OF xy(1)] old(3) [OF xy(2)] F by auto
  qed
  ultimately show "mapping_ok h m'" by (simp add: mapping_ok_def m'_def)
qed

text \<open>What a successful one adds: sixteen fresh registers, of which the lanes of the mask use theirs.\<close>

definition bundle_given :: "nat \<Rightarrow> lane_mask \<Rightarrow> nat list \<Rightarrow> helper_regs \<Rightarrow> helper_regs \<Rightarrow> bool" where
  "bundle_given a am ps h h' \<longleftrightarrow> length ps = VectorCopies \<and> distinct ps \<and>
     (\<forall>p \<in> set ps. p < HR_NumPhysicalRegs \<and> \<not> hr_allocated h p \<and> hr_allocated h' p \<and> \<not> pr_pendingRelease (hr_physical h' p)) \<and>
     mp_vector (hr_vrat h' a) = map int ps \<and>
     (\<forall>l < 128. fst (slot_of (hr_vrat h' a) l) =
       (if test_lane am l then ps ! (l div LanesPerVectorCopy) else fst (slot_of (hr_vrat h a) l)))"

lemma renameVectorMasked_both:
  fixes h :: helper_regs and am :: lane_mask and a :: nat
  assumes ok: "phys_ok h" "map_ok h" and a: "a < HR_NumArchitecturalRegs"
  defines "h' \<equiv> snd (HR_renameVectorMasked a am h)"
  shows "renames a h h' \<and> (fst (HR_renameVectorMasked a am h) \<longrightarrow> (\<exists>ps. bundle_given a am ps h h'))"
proof -
  obtain bs h1 where al: "HR_allocateVectorBundle h = (bs, h1)" by fastforce
  show ?thesis
  proof (cases "bs ! 0 < 0")
    case True
    then have g: "grown {} h h1" using allocateBundle_grown [OF ok(1) al] by (auto simp: hr_sizes)
    then have "h' = h1" "\<not> fst (HR_renameVectorMasked a am h)"
      using True al a by (simp_all add: h'_def HR_renameVectorMasked_def Let_def)
    then show ?thesis using grown_renames [OF ok(2) g] by simp
  next
    case False
    then obtain ps where ps: "bs = map int ps" "length ps = VectorCopies" "distinct ps"
        "set ps \<subseteq> {NumScalarPhysicalRegs..<HR_NumPhysicalRegs}" and g: "grown (set ps) h h1"
      using allocateBundle_grown [OF ok(1) al] by (auto simp: hr_sizes)
    have ok1: "map_ok h1" "phys_ok h1" using grown_frame(1) [OF ok(2) g] g by (auto simp: grown_def)
    have v1: "hr_vrat h1 = hr_vrat h" using g by (simp add: grown_def)
    let ?m = "hr_vrat h1 a" and ?h2 = "fold (HR_moveLane a am bs) [0..<128] h1"
    define m' where "m' = (moved am bs 128 ?m)\<lparr>mp_vector := bs, mp_scalar := - 1,
      mp_vectorized := list_all (mp_laneVectorized (moved am bs 128 ?m)) [0..<128]\<rparr>"
    define h3 where "h3 = HR_setMapping a (\<lambda>m. m\<lparr>mp_vector := bs, mp_scalar := - 1,
      mp_vectorized := list_all (mp_laneVectorized m) [0..<128]\<rparr>) ?h2"
    note n = bundle_fresh [OF ok(2) g ps(2-4), where W = "\<lambda>l. True"]
    have c: "copied (\<lambda>l. True) (bundle_slot ps) (set ps) a h1 128 h3"
      and v3: "hr_vrat h3 = (hr_vrat h1)(a := m')"
      using moveLane_loop [OF ok1 a ps(2) n order_refl, of am] by (simp_all add: h3_def ps(1) m'_def)
    have F: "set ps \<inter> reserved ?m = {}" using n a by (auto simp: fresh_slots_def reserved_regs_def)
    have same: "hr_allocated h3 p = hr_allocated h1 p \<and> pr_pendingRelease (hr_physical h3 p) = pr_pendingRelease (hr_physical h1 p)" for p
      using c by (simp add: copied_def)
    note mo = moved_ok [OF map_okD [OF ok1(1) a] F ps(2-4) _ same, where am = am
        and vz = "list_all (mp_laneVectorized (moved am bs 128 ?m)) [0..<128]", folded ps(1), folded m'_def]
    have fr: "\<And>p. p \<in> set ps \<Longrightarrow> hr_allocated h3 p \<and> \<not> pr_pendingRelease (hr_physical h3 p)"
      using grown_pending [OF g] same by simp
    have sl: "\<And>l. l < 128 \<Longrightarrow> True \<and> slot_of m' l = bundle_slot ps l \<or> slot_of m' l = slot_of ?m l"
      using mo(4) [OF fr] by simp
    note rm = remapped [OF ok1(1) n c a v3 mo(1) [OF fr] mo(2) [OF fr] sl]
    have old: "set (HR_physicalMappings a h) = mp_lanePhysical ?m ` {..<128}"
      using physicalMappings_set [OF map_okD [OF ok(2) a] a] v1 by simp
    have ok3: "phys_ok h3" "all_names h3 = all_names h1" using c by (auto simp: copied_def)
    have vec: "nat ` set (mp_vector m') \<inter> reserved ?m = {}" using F by (simp add: m'_def ps(1) image_image)
    note ro = releaseOld_ok [OF ok1(1) rm(1) ok3(1) a v3 old vec]
    have h': "h' = HR_releaseOld (HR_physicalMappings a h) a h3"
      using al a False by (simp add: h'_def HR_renameVectorMasked_def Let_def h3_def)
    then obtain S where S: "shed S h3 h'" "S \<subseteq> lane_regs ?m" using ro(3) by blast
    have "hr_vrat h' a = m'" using S(1) v3 by (simp add: shed_def)
    moreover have "hr_allocated h' p \<and> \<not> pr_pendingRelease (hr_physical h' p)" if "p \<in> set ps" for p
    proof -
      have "p \<notin> S" using S(2) F that unfolding reserved_def by blast
      then show ?thesis using S(1) fr [OF that] by (simp add: shed_def)
    qed
    ultimately have "bundle_given a am ps h h'"
      unfolding bundle_given_def using g ps mo(4) [OF fr] v1
      by (auto simp: m'_def grown_def bundle_slot_def)
    then show ?thesis using ro rm(2) copied_renames [OF ok(2) g c v3 mo(3) [OF fr]] h' by auto
  qed
qed

lemmas renameVectorMasked_ok = renameVectorMasked_both [THEN conjunct1]
lemmas renameVectorMasked_given = renameVectorMasked_both [THEN conjunct2, THEN mp]

text \<open>Vectorising a register that all lanes hold in one scalar register.\<close>

lemma scalar_slot:
  assumes m: "mapping_ok h m" and s: "\<not> mp_vectorized m" "0 \<le> mp_scalar m" and l: "l < 128"
  shows "slot_of m l = (nat (mp_scalar m), l)" "nat (mp_scalar m) < NumScalarPhysicalRegs"
proof -
  have lp: "mp_lanePhysical m k = mp_scalar m" if "k < 128" for k using m s that by (simp add: mapping_ok_def)
  have ok: "lane_ok h m 0" using m by (simp add: mapping_ok_def)
  have "\<not> mp_laneVectorized m 0"
  proof
    assume "mp_laneVectorized m 0"
    moreover have "mp_lanePhysical m 0 = mp_lanePhysical m 127" using lp [of 0] lp [of 127] by simp
    moreover have "\<forall>l < 128. \<forall>k < 128. mp_lanePhysical m l = mp_lanePhysical m k \<and> mp_laneVectorized m l \<longrightarrow>
        l div LanesPerVectorCopy = k div LanesPerVectorCopy" using m unfolding mapping_ok_def by blast
    then have "mp_lanePhysical m 0 = mp_lanePhysical m 127 \<and> mp_laneVectorized m 0 \<longrightarrow>
        0 div LanesPerVectorCopy = 127 div LanesPerVectorCopy" by (rule allE [of _ 0]) auto
    ultimately have "0 div LanesPerVectorCopy = 127 div LanesPerVectorCopy" by blast
    then show False by (simp add: hr_sizes)
  qed
  then show n: "nat (mp_scalar m) < NumScalarPhysicalRegs" using ok lp [of 0] by (auto simp: lane_ok_def)
  then show "slot_of m l = (nat (mp_scalar m), l)" using lp [OF l] by (simp add: slot_of_def Let_def)
qed

lemma vectorize_loop:
  assumes ok: "map_ok h1" "phys_ok h1" and a: "a < HR_NumArchitecturalRegs"
    and s: "\<not> mp_vectorized (hr_vrat h1 a)" "0 \<le> mp_scalar (hr_vrat h1 a)"
    and ps: "length ps = VectorCopies" and n: "fresh_slots (\<lambda>l. True) (bundle_slot ps) (set ps) h1" and i: "i \<le> 128"
  defines "old \<equiv> mp_scalar (hr_vrat h1 a)"
  shows "copied (\<lambda>l. True) (bundle_slot ps) (set ps) a h1 i (fold (HR_vectorizeSlot old (map int ps)) [0..<i] h1) \<and>
    hr_vrat (fold (HR_vectorizeSlot old (map int ps)) [0..<i] h1) = hr_vrat h1"
  using i
proof (induction i)
  case 0
  then show ?case using copied_start [OF ok(2)] by simp
next
  case (Suc i)
  define h where "h = fold (HR_vectorizeSlot old (map int ps)) [0..<i] h1"
  have c: "copied (\<lambda>l. True) (bundle_slot ps) (set ps) a h1 i h" and v: "hr_vrat h = hr_vrat h1"
    using Suc by (auto simp: h_def)
  have i: "i < 128" using Suc.prems by simp
  let ?p = "ps ! (i div LanesPerVectorCopy)" and ?e = "i mod LanesPerVectorCopy"
  note mo = map_okD [OF ok(1) a]
  have o: "0 \<le> old" "nat old < NumScalarPhysicalRegs" "slot_of (hr_vrat h1 a) i = (nat old, i)"
    using scalar_slot [OF mo s i] s by (simp_all add: old_def)
  have "nat old \<notin> set ps" using n slot_facts(3) [OF mo i] o(3) a by (auto simp: fresh_slots_def reserved_regs_def reserved_def)
  then have "slot_val h (nat old) i = hr_view h1 a i"
    using c slot_facts(1,2) [OF mo i] view_slot [OF ok(1) a i] o(3) by (simp add: copied_def)
  then have r: "(HR_readPhysical old i h, pr_ready (hr_physical h (nat old)) i) = hr_view h1 a i"
    using o(1) by (simp add: slot_val_def)
  have sl: "bundle_slot ps i = (?p, ?e)" by (simp add: bundle_slot_def)
  note w = copied_write [OF c n i TrueI sl r]
  have b: "map int ps ! (i div LanesPerVectorCopy) = int ?p" using copy_index [OF i] ps by simp
  have rd: "pr_ready (hr_physical (HR_writePhysical (int ?p) ?e x h) q) = pr_ready (hr_physical h q)" for x q
    by (simp add: HR_writePhysical_def HR_setPhysical_def Let_def split: option.split)
  have st: "HR_vectorizeSlot old (map int ps) i h =
      HR_stamp ?p ?e (pr_ready (hr_physical h (nat old)) i) (HR_writePhysical (int ?p) ?e (HR_readPhysical old i h) h)"
    using o(1) by (simp add: HR_vectorizeSlot_def Let_def b rd)
  have e: "fold (HR_vectorizeSlot old (map int ps)) [0..<Suc i] h1 = HR_vectorizeSlot old (map int ps) i h" by (simp add: h_def)
  show ?case unfolding e st using w v by simp
qed

lemma vectorize_ok:
  fixes h :: helper_regs and a :: nat
  assumes ok: "phys_ok h" "map_ok h" and a: "a < HR_NumArchitecturalRegs"
    and s: "mp_vectorized (hr_vrat h a) \<or> 0 \<le> mp_scalar (hr_vrat h a)"
  defines "h' \<equiv> snd (HR_vectorize a h)"
  shows "renames a h h'"
proof -
  obtain bs h1 where al: "HR_allocateVectorBundle h = (bs, h1)" by fastforce
  show ?thesis
  proof (cases "mp_vectorized (hr_vrat h a) \<or> bs ! 0 < 0")
    case True
    show ?thesis
    proof (cases "mp_vectorized (hr_vrat h a)")
      case True
      then show ?thesis using renames_refl [OF ok] by (simp add: h'_def HR_vectorize_def)
    next
      case nv: False
      then have g: "grown {} h h1" using True allocateBundle_grown [OF ok(1) al] by (auto simp: hr_sizes)
      then have "h' = h1" using True nv al a by (simp add: h'_def HR_vectorize_def Let_def)
      then show ?thesis using grown_renames [OF ok(2) g] by simp
    qed
  next
    case False
    then obtain ps where ps: "bs = map int ps" "length ps = VectorCopies" "distinct ps"
        "set ps \<subseteq> {NumScalarPhysicalRegs..<HR_NumPhysicalRegs}" and g: "grown (set ps) h h1"
      using allocateBundle_grown [OF ok(1) al] by (auto simp: hr_sizes)
    have ok1: "map_ok h1" "phys_ok h1" using grown_frame(1) [OF ok(2) g] g by (auto simp: grown_def)
    have v1: "hr_vrat h1 = hr_vrat h" using g by (simp add: grown_def)
    let ?m = "hr_vrat h1 a"
    have sc: "\<not> mp_vectorized ?m" "0 \<le> mp_scalar ?m" using s False v1 by auto
    let ?old = "mp_scalar ?m" and ?all = "[- 1, - 1] :: lane_mask"
    define m' where "m' = (moved ?all bs 128 ?m)\<lparr>mp_vector := bs, mp_scalar := - 1, mp_vectorized := True\<rparr>"
    define h3 where "h3 = HR_setMapping a (\<lambda>m. m\<lparr>mp_vector := bs, mp_vectorized := True, mp_scalar := - 1,
        mp_lanePhysical := (\<lambda>l. if l < 128 then bs ! (l div LanesPerVectorCopy) else mp_lanePhysical m l),
        mp_laneElement := (\<lambda>l. if l < 128 then l mod LanesPerVectorCopy else mp_laneElement m l),
        mp_laneVectorized := (\<lambda>l. if l < 128 then True else mp_laneVectorized m l)\<rparr>)
        (fold (HR_vectorizeSlot ?old bs) [0..<128] h1)"
    have v2: "hr_vrat (fold (HR_vectorizeSlot ?old bs) [0..<128] h1) = hr_vrat h1"
      using vectorize_loop [OF ok1 a sc ps(2) bundle_fresh [OF ok(2) g ps(2-4)] order_refl] by (simp add: ps(1))
    have tl: "test_lane ?all l" if "l < 128" for l
      using that by (auto simp: test_lane_bit nth_Cons' split: if_splits)
    note n = bundle_fresh [OF ok(2) g ps(2-4), where W = "\<lambda>l. True"]
    have c: "copied (\<lambda>l. True) (bundle_slot ps) (set ps) a h1 128 h3"
      using vectorize_loop [OF ok1 a sc ps(2) n order_refl] by (simp add: h3_def ps(1))
    have eq: "?m\<lparr>mp_vector := bs, mp_vectorized := True, mp_scalar := - 1,
        mp_lanePhysical := (\<lambda>l. if l < 128 then bs ! (l div LanesPerVectorCopy) else mp_lanePhysical ?m l),
        mp_laneElement := (\<lambda>l. if l < 128 then l mod LanesPerVectorCopy else mp_laneElement ?m l),
        mp_laneVectorized := (\<lambda>l. if l < 128 then True else mp_laneVectorized ?m l)\<rparr> = m'"
      by (rule reg_mapping.equality) (auto simp: m'_def moved_def fun_eq_iff tl)
    have v3: "hr_vrat h3 = (hr_vrat h1)(a := m')"
      unfolding h3_def setMapping_fields v2 eq ..
    have F: "set ps \<inter> reserved ?m = {}" using n a by (auto simp: fresh_slots_def reserved_regs_def)
    have same: "hr_allocated h3 p = hr_allocated h1 p \<and> pr_pendingRelease (hr_physical h3 p) = pr_pendingRelease (hr_physical h1 p)" for p
      using c by (simp add: copied_def)
    note mo = moved_ok [OF map_okD [OF ok1(1) a] F ps(2-4) _ same, where am = ?all and vz = True, folded ps(1), folded m'_def]
    have fr: "\<And>p. p \<in> set ps \<Longrightarrow> hr_allocated h3 p \<and> \<not> pr_pendingRelease (hr_physical h3 p)"
      using grown_pending [OF g] same by simp
    have sl: "\<And>l. l < 128 \<Longrightarrow> True \<and> slot_of m' l = bundle_slot ps l \<or> slot_of m' l = slot_of ?m l"
      using mo(4) [OF fr] by simp
    note rm = remapped [OF ok1(1) n c a v3 mo(1) [OF fr] mo(2) [OF fr] sl]
    have ok3: "phys_ok h3" "all_names h3 = all_names h1" using c by (auto simp: copied_def)
    have sh: "shed {nat ?old} h3 (HR_markDead ?old h3)" by (rule markDead_shed [OF ok3(1)])
    have lr0: "nat ?old \<in> lane_regs ?m"
      using slot_facts(3) [OF map_okD [OF ok1(1) a], of 0] scalar_slot(1) [OF map_okD [OF ok1(1) a] sc, of 0] by simp
    then have lr: "nat ?old \<in> reserved ?m" by (simp add: reserved_def)
    have "lane_regs m' \<subseteq> set ps" using ps(2) copy_index tl by (auto simp: lane_regs_def m'_def moved_def ps(1))
    then have "reserved m' \<subseteq> set ps" by (auto simp: reserved_def m'_def ps(1))
    then have "nat ?old \<notin> reserved m'" using lr F by auto
    then have "{nat ?old} \<inter> reserved (hr_vrat h3 b) = {}" if "b < HR_NumArchitecturalRegs" for b
      using lr that a ok1(1) v3 by (cases "b = a") (auto simp: map_ok_def)
    then have dis: "{nat ?old} \<inter> reserved_regs h3 = {}" by (auto simp: reserved_regs_def)
    note f = shed_frame [OF rm(1) sh dis]
    have "h' = HR_markDead ?old h3"
      using al a False sc by (simp add: h'_def HR_vectorize_def Let_def h3_def HR_release_def v1)
    then show ?thesis using f rm(2) copied_renames [OF ok(2) g c v3 mo(3) [OF fr] sh] lr0 by auto
  qed
qed

section \<open>Scalar destinations\<close>

definition smoved :: "lane_mask \<Rightarrow> nat \<Rightarrow> nat \<Rightarrow> reg_mapping \<Rightarrow> reg_mapping" where
  "smoved am p i m =
     m\<lparr>mp_lanePhysical := (\<lambda>l. if l < i \<and> test_lane am l then int p else mp_lanePhysical m l),
       mp_laneElement := (\<lambda>l. if l < i \<and> test_lane am l then 0 else mp_laneElement m l),
       mp_laneVectorized := (\<lambda>l. if l < i \<and> test_lane am l then False else mp_laneVectorized m l)\<rparr>"

lemma smoved_Suc:
  "smoved am p (Suc i) m = (if test_lane am i
     then (smoved am p i m)\<lparr>mp_lanePhysical := (mp_lanePhysical (smoved am p i m))(i := int p),
       mp_laneElement := (mp_laneElement (smoved am p i m))(i := 0),
       mp_laneVectorized := (mp_laneVectorized (smoved am p i m))(i := False)\<rparr>
     else smoved am p i m)"
  by (rule reg_mapping.equality) (auto simp: smoved_def less_Suc_eq fun_eq_iff)

lemma scalar_fresh:
  assumes "map_ok h" "grown {p} h h1" "p < NumScalarPhysicalRegs"
  shows "fresh_slots W (\<lambda>l. (p, l)) {p} h1"
  using assms(2,3) grown_frame(3) [OF assms(1,2)] by (auto simp: fresh_slots_def grown_def valid_slot_def hr_sizes)

lemma readyAt_write [simp]: "HR_readyAt a l (HR_writePhysical q k v h) = HR_readyAt a l h"
proof -
  have "hr_vrat (HR_writePhysical q k v h) = hr_vrat h" "pr_ready (hr_physical (HR_writePhysical q k v h) x) = pr_ready (hr_physical h x)" for x
    by (simp_all add: HR_writePhysical_def HR_setPhysical_def Let_def split: option.split)
  moreover from this have "HR_physicalIndex a l (HR_writePhysical q k v h) = HR_physicalIndex a l h"
      "HR_physicalLane a l (HR_writePhysical q k v h) = HR_physicalLane a l h"
    by (simp_all add: HR_physicalIndex_def HR_physicalLane_def)
  ultimately show ?thesis by (simp add: HR_readyAt_def Let_def)
qed

lemma moveScalar_loop:
  assumes ok: "map_ok h1" "phys_ok h1" and a: "a < HR_NumArchitecturalRegs"
    and n: "fresh_slots (test_lane am) (\<lambda>l. (p, l)) {p} h1" and i: "i \<le> 128"
  shows "copied (test_lane am) (\<lambda>l. (p, l)) {p} a h1 i (fold (HR_moveScalar a am p) [0..<i] h1) \<and>
    hr_vrat (fold (HR_moveScalar a am p) [0..<i] h1) = (hr_vrat h1)(a := smoved am p i (hr_vrat h1 a))"
  using i
proof (induction i)
  case 0
  then show ?case using copied_start [OF ok(2)] by (simp add: smoved_def)
next
  case (Suc i)
  define h where "h = fold (HR_moveScalar a am p) [0..<i] h1"
  have c: "copied (test_lane am) (\<lambda>l. (p, l)) {p} a h1 i h"
    and v: "hr_vrat h = (hr_vrat h1)(a := smoved am p i (hr_vrat h1 a))" using Suc by (auto simp: h_def)
  have i: "i < 128" using Suc.prems by simp
  have e: "fold (HR_moveScalar a am p) [0..<Suc i] h1 = HR_moveScalar a am p i h" by (simp add: h_def)
  show ?case
  proof (cases "test_lane am i")
    case True
    have "hr_view h a i = hr_view h1 a i"
      by (rule view_unmoved [OF c ok(1) _ a i]) (use n v in \<open>auto simp: fresh_slots_def smoved_def\<close>)
    then have r: "(HR_read a i h, HR_readyAt a i h) = hr_view h1 a i" by (simp add: hr_view_def)
    note w = copied_write [OF c n i True refl r]
    let ?w = "HR_stamp p i (HR_readyAt a i h) (HR_writePhysical (int p) i (HR_read a i h) h)"
    have st: "HR_moveScalar a am p i h = HR_setMapping a (\<lambda>m. m\<lparr>mp_lanePhysical := (mp_lanePhysical m)(i := int p),
        mp_laneElement := (mp_laneElement m)(i := 0), mp_laneVectorized := (mp_laneVectorized m)(i := False)\<rparr>) ?w"
      using True by (simp add: HR_moveScalar_def Let_def)
    show ?thesis unfolding e st using w v True by (simp add: smoved_Suc)
  next
    case False
    then have st: "HR_moveScalar a am p i h = h" by (simp add: HR_moveScalar_def)
    show ?thesis unfolding e st using copied_skip [OF c False] v False by (simp add: smoved_Suc)
  qed
qed

lemma summary_uniform:
  "HR_summary m ls s0 = s \<Longrightarrow> 0 \<le> s \<Longrightarrow> (\<And>l. l \<in> set ls \<Longrightarrow> 0 \<le> mp_lanePhysical m l) \<Longrightarrow>
    (0 \<le> s0 \<longrightarrow> s0 = s) \<and> (\<forall>l \<in> set ls. mp_lanePhysical m l = s)"
proof (induction ls arbitrary: s0)
  case (Cons l ls)
  have l: "0 \<le> mp_lanePhysical m l" and ls: "\<And>k. k \<in> set ls \<Longrightarrow> 0 \<le> mp_lanePhysical m k" using Cons.prems(3) by auto
  have nv: "\<not> mp_laneVectorized m l" using Cons.prems(1,2) by (cases "mp_laneVectorized m l") simp_all
  show ?case
  proof (cases "s0 < 0")
    case True
    then have "HR_summary m ls (mp_lanePhysical m l) = s" using Cons.prems(1) nv by simp
    from Cons.IH [OF this Cons.prems(2) ls] show ?thesis using True l by simp
  next
    case False
    then have e: "s0 = mp_lanePhysical m l" using Cons.prems(1,2) nv by (cases "s0 = mp_lanePhysical m l") simp_all
    then have "HR_summary m ls s0 = s" using Cons.prems(1) nv False by simp
    from Cons.IH [OF this Cons.prems(2) ls] show ?thesis using False e by simp
  qed
qed simp

lemma smoved_ok:
  fixes m :: reg_mapping and am :: lane_mask and p :: nat and vec :: "int list"
  assumes m: "mapping_ok h1 m" and F: "p \<notin> reserved m" and p: "p < NumScalarPhysicalRegs"
    and fresh: "hr_allocated h p \<and> \<not> pr_pendingRelease (hr_physical h p)"
    and same: "\<And>p. hr_allocated h p = hr_allocated h1 p \<and> pr_pendingRelease (hr_physical h p) = pr_pendingRelease (hr_physical h1 p)"
  defines "m1 \<equiv> (smoved am p 128 m)\<lparr>mp_vector := vec, mp_vectorized := False\<rparr>"
  defines "m' \<equiv> m1\<lparr>mp_scalar := HR_summary m1 [0..<128] (- 1)\<rparr>"
  shows "mapping_ok h m'" and "reserved m' \<subseteq> {p} \<union> reserved m" and "lane_regs m' \<subseteq> {p} \<union> lane_regs m"
    and "l < 128 \<Longrightarrow> slot_of m' l = (if test_lane am l then (p, l) else slot_of m l)"
proof -
  have lp: "mp_lanePhysical m' l = (if test_lane am l then int p else mp_lanePhysical m l)"
    "mp_laneVectorized m' l = (\<not> test_lane am l \<and> mp_laneVectorized m l)" "\<not> test_lane am l \<Longrightarrow> mp_laneElement m' l = mp_laneElement m l"
    if "l < 128" for l using that by (simp_all add: m'_def m1_def smoved_def)
  have old: "lane_ok h1 m l" "nat (mp_lanePhysical m l) \<in> lane_regs m" if "l < 128" for l
    using m that by (auto simp: mapping_ok_def lane_regs_def)
  show lr: "lane_regs m' \<subseteq> {p} \<union> lane_regs m" using old(2) lp by (auto simp: lane_regs_def)
  then have "lane_regs m' \<subseteq> {p} \<union> reserved m" by (auto simp: reserved_def)
  moreover have "\<not> mp_vectorized m'" by (simp add: m'_def m1_def)
  ultimately show res: "reserved m' \<subseteq> {p} \<union> reserved m" unfolding reserved_def [of m'] by auto
  show "slot_of m' l = (if test_lane am l then (p, l) else slot_of m l)" if l: "l < 128"
    using lp [OF l] p by (auto simp: slot_of_def Let_def)
  have lok: "lane_ok h m' l" if l: "l < 128" for l
  proof (cases "test_lane am l")
    case True
    then show ?thesis using lp [OF l] p by (auto simp: lane_ok_def hr_sizes)
  next
    case False
    then show ?thesis using lp [OF l] old(1) [OF l] by (simp add: lane_ok_def)
  qed
  have al: "hr_allocated h q \<and> \<not> pr_pendingRelease (hr_physical h q)" if "q \<in> reserved m'" for q
    using that res fresh m same by (auto simp: mapping_ok_def)
  have sc: "mp_lanePhysical m' l = mp_scalar m'" if "0 \<le> mp_scalar m'" "l < 128" for l
  proof -
    have "0 \<le> mp_lanePhysical m1 k" if "k < 128" for k using lok [OF that] by (simp add: lane_ok_def m'_def)
    then have "\<forall>k \<in> set [0..<128]. mp_lanePhysical m1 k = mp_scalar m'"
      using summary_uniform [of m1 "[0..<128]" "- 1" "mp_scalar m'"] that by (simp add: m'_def)
    then show ?thesis using that(2) by (simp add: m'_def)
  qed
  have dv: "l div LanesPerVectorCopy = k div LanesPerVectorCopy"
    if lk: "l < 128" "k < 128" "mp_lanePhysical m' l = mp_lanePhysical m' k" "mp_laneVectorized m' l" for l k
  proof -
    have t: "\<not> test_lane am l" "mp_laneVectorized m l" using lk lp(2) by auto
    have "NumScalarPhysicalRegs \<le> nat (mp_lanePhysical m l)" using old(1) [OF lk(1)] t by (simp add: lane_ok_def)
    then have "\<not> test_lane am k" using lk lp(1) [of l] lp(1) [of k] t p by auto
    then have "mp_lanePhysical m l = mp_lanePhysical m k" using lk lp(1) t by simp
    then show ?thesis using m lk(1,2) t unfolding mapping_ok_def by blast
  qed
  show "mapping_ok h m'" unfolding mapping_ok_def using lok al sc dv by blast
qed

lemma renameScalarMasked_ok:
  fixes h :: helper_regs and am :: lane_mask and a :: nat
  assumes ok: "phys_ok h" "map_ok h" and a: "a < HR_NumArchitecturalRegs"
  defines "h' \<equiv> snd (HR_renameScalarMasked a am h)"
  shows "renames a h h'"
proof -
  obtain phys h1 where al: "HR_allocateScalar h = (phys, h1)" by fastforce
  show ?thesis
  proof (cases "phys < 0")
    case True
    then have "h' = h" using allocateScalar_grown [OF ok(1) al] al a by (auto simp: h'_def HR_renameScalarMasked_def Let_def)
    then show ?thesis using renames_refl [OF ok] by simp
  next
    case False
    then obtain p where p: "p < NumScalarPhysicalRegs" "phys = int p" and g: "grown {p} h h1"
      using allocateScalar_grown [OF ok(1) al] by auto
    have ok1: "map_ok h1" "phys_ok h1" using grown_frame(1) [OF ok(2) g] g by (auto simp: grown_def)
    have v1: "hr_vrat h1 = hr_vrat h" using g by (simp add: grown_def)
    let ?m = "hr_vrat h1 a" and ?h2 = "fold (HR_moveScalar a am p) [0..<128] h1" and ?vec = "replicate VectorCopies (- 1 :: int)"
    define m1 where "m1 = (smoved am p 128 ?m)\<lparr>mp_vector := ?vec, mp_vectorized := False\<rparr>"
    define m' where "m' = m1\<lparr>mp_scalar := HR_summary m1 [0..<128] (- 1)\<rparr>"
    define h4 where "h4 = HR_setMapping a (\<lambda>m. m\<lparr>mp_scalar := HR_summary m [0..<128] (- 1)\<rparr>)
      (HR_setMapping a (\<lambda>m. m\<lparr>mp_vector := ?vec, mp_vectorized := False\<rparr>) ?h2)"
    note n = scalar_fresh [OF ok(2) g p(1), where W = "test_lane am"]
    have c: "copied (test_lane am) (\<lambda>l. (p, l)) {p} a h1 128 h4"
      and v4: "hr_vrat h4 = (hr_vrat h1)(a := m')"
      using moveScalar_loop [OF ok1 a n order_refl] by (simp_all add: h4_def m'_def m1_def)
    have F: "p \<notin> reserved ?m" using n a by (auto simp: fresh_slots_def reserved_regs_def)
    have same: "hr_allocated h4 q = hr_allocated h1 q \<and> pr_pendingRelease (hr_physical h4 q) = pr_pendingRelease (hr_physical h1 q)" for q
      using c by (simp add: copied_def)
    have fr: "hr_allocated h4 p \<and> \<not> pr_pendingRelease (hr_physical h4 p)" using grown_pending [OF g] same by simp
    note mo = smoved_ok [OF map_okD [OF ok1(1) a] F p(1) fr same, where am = am and vec = ?vec, folded m1_def, folded m'_def]
    have sl: "\<And>l. l < 128 \<Longrightarrow> test_lane am l \<and> slot_of m' l = (p, l) \<or> slot_of m' l = slot_of ?m l"
      using mo(4) by simp
    note rm = remapped [OF ok1(1) n c a v4 mo(1) mo(2) sl]
    have old: "set (HR_physicalMappings a h) = mp_lanePhysical ?m ` {..<128}"
      using physicalMappings_set [OF map_okD [OF ok(2) a] a] v1 by simp
    have ok4: "phys_ok h4" "all_names h4 = all_names h1" using c by (auto simp: copied_def)
    have vec: "mp_vectorized m' \<Longrightarrow> nat ` set (mp_vector m') \<inter> reserved ?m = {}" by (simp add: m'_def m1_def)
    note ro = releaseOld_ok [OF ok1(1) rm(1) ok4(1) a v4 old vec]
    have "h' = HR_releaseOld (HR_physicalMappings a h) a h4"
      using al a False p(2) by (simp add: h'_def HR_renameScalarMasked_def Let_def h4_def)
    then show ?thesis using ro rm(2) copied_renames [OF ok(2) g c v4 mo(3)] by auto
  qed
qed

end
