(* ===== verification/DVR_HelperRegs_Run.thy ===== *)
theory DVR_HelperRegs_Run
  imports DVR_HelperRegs_Rename
begin

text \<open>
  The life of a helper register file: initialisation from a register snapshot, then any
  interleaving of writes, renames, retains and releases with other users of the shared bank, and
  finally the return of every borrowed name.
\<close>

section \<open>Initialisation\<close>

lemma vrat_update [simp]:
  "phys_ok (h\<lparr>hr_vrat := f\<rparr>) = phys_ok h" "all_names (h\<lparr>hr_vrat := f\<rparr>) = all_names h"
  "slot_val (h\<lparr>hr_vrat := f\<rparr>) q k = slot_val h q k"
proof -
  have "held (h\<lparr>hr_vrat := f\<rparr>) = held h" by (simp add: held_def)
  then show a: "all_names (h\<lparr>hr_vrat := f\<rparr>) = all_names h" by (simp add: all_names_def split: option.split)
  then show "phys_ok (h\<lparr>hr_vrat := f\<rparr>) = phys_ok h" by (simp add: phys_ok_def)
  show "slot_val (h\<lparr>hr_vrat := f\<rparr>) q k = slot_val h q k"
    by (rule slot_val_cong) (simp_all add: same_bank_def bank_values_def)
qed

lemma releaseAll_ok:
  assumes "phys_ok h"
  shows "phys_ok (HR_releaseAll h) \<and> all_names (HR_releaseAll h) = all_names h \<and> same_bank h (HR_releaseAll h) \<and>
    hr_vrat (HR_releaseAll h) = hr_vrat h \<and> (\<forall>p < HR_NumPhysicalRegs. \<not> hr_allocated (HR_releaseAll h) p)"
  unfolding HR_releaseAll_def
proof (rule fold_upt_inv [where P = "\<lambda>i h'. phys_ok h' \<and> all_names h' = all_names h \<and> same_bank h h' \<and>
    hr_vrat h' = hr_vrat h \<and> (\<forall>p < i. \<not> hr_allocated h' p)"])
  show "phys_ok h \<and> all_names h = all_names h \<and> same_bank h h \<and> hr_vrat h = hr_vrat h \<and> (\<forall>p < 0. \<not> hr_allocated h p)"
    using assms by (simp add: same_bank_def)
next
  fix i h'
  assume i: "i < HR_NumPhysicalRegs" and p: "phys_ok h' \<and> all_names h' = all_names h \<and> same_bank h h' \<and> hr_vrat h' = hr_vrat h \<and>
    (\<forall>p < i. \<not> hr_allocated h' p)"
  show "phys_ok (if \<not> hr_allocated h' i then h' else HR_reclaim i h') \<and>
      all_names (if \<not> hr_allocated h' i then h' else HR_reclaim i h') = all_names h \<and>
      same_bank h (if \<not> hr_allocated h' i then h' else HR_reclaim i h') \<and>
      hr_vrat (if \<not> hr_allocated h' i then h' else HR_reclaim i h') = hr_vrat h \<and>
      (\<forall>p < Suc i. \<not> hr_allocated (if \<not> hr_allocated h' i then h' else HR_reclaim i h') p)"
  proof (cases "hr_allocated h' i")
    case True
    then show ?thesis using p reclaim_shed [of h' i] i by (auto simp: shed_def same_bank_def less_Suc_eq)
  next
    case False
    then show ?thesis using p by (auto simp: less_Suc_eq)
  qed
qed simp

text \<open>A change that uses no names of the bank but the ones it holds and the free ones.\<close>

definition own_bank :: "helper_regs \<Rightarrow> helper_regs \<Rightarrow> bool" where
  "own_bank h h' \<longleftrightarrow> all_names h' = all_names h \<and> (hr_bank h' = None) = (hr_bank h = None) \<and> bank_frame h h'"

lemma own_bank_trans: "own_bank h h1 \<Longrightarrow> own_bank h1 h2 \<Longrightarrow> own_bank h h2"
  by (auto simp: own_bank_def intro: bank_frame_trans)

lemma own_bank_intros:
  "kept h h' \<Longrightarrow> own_bank h h'" "grown F h h' \<Longrightarrow> own_bank h h'" "renames a h h' \<Longrightarrow> own_bank h h'" "undisturbed h h' \<Longrightarrow> own_bank h h'"
  by (auto simp: own_bank_def kept_def grown_def renames_def undisturbed_def same_bank_def intro: bank_frame_same)

lemma hr_reset_ok:
  assumes "phys_ok h"
  shows "phys_ok (HR_reset h) \<and> own_bank h (HR_reset h) \<and> (\<forall>p < HR_NumPhysicalRegs. \<not> hr_allocated (HR_reset h) p) \<and>
    (\<forall>a < HR_NumArchitecturalRegs. hr_vrat (HR_reset h) a = no_mapping)"
proof -
  let ?h1 = "HR_releaseAll h"
  note r = releaseAll_ok [OF assms]
  have "hr_physical ?h1 p = empty_physical" if "p < HR_NumPhysicalRegs" for p
    using r that by (auto simp: phys_ok_def reg_ok_def)
  then have "(\<lambda>p. if p < HR_NumPhysicalRegs then empty_physical else hr_physical ?h1 p) = hr_physical ?h1" by auto
  then have "HR_reset h = ?h1\<lparr>hr_vrat := (\<lambda>a. if a < HR_NumArchitecturalRegs then no_mapping else hr_vrat ?h1 a)\<rparr>"
    by (simp add: HR_reset_def Let_def)
  then show ?thesis using r by (simp add: own_bank_def bank_frame_def same_bank_def bank_values_def)
qed

lemma set_valid:
  assumes "phys_ok h" "hr_allocated h p"
  shows "kept h (HR_setPhysical p (\<lambda>e. e\<lparr>pr_valid := f (pr_valid e)\<rparr>) h)"
    and "slot_val (HR_setPhysical p (\<lambda>e. e\<lparr>pr_valid := f (pr_valid e)\<rparr>) h) q k = slot_val h q k"
proof -
  show "kept h (HR_setPhysical p (\<lambda>e. e\<lparr>pr_valid := f (pr_valid e)\<rparr>) h)" by (rule kept_setPhysical [OF assms]) simp
  show "slot_val (HR_setPhysical p (\<lambda>e. e\<lparr>pr_valid := f (pr_valid e)\<rparr>) h) q k = slot_val h q k"
    by (auto simp: slot_val_def readPhysical_alt HR_setPhysical_def bank_values_def split: option.split)
qed

text \<open>Filling all lanes of a scalar register.\<close>

lemma fill_lanes:
  fixes h :: helper_regs and v :: reg_val and p :: nat
  assumes ok: "phys_ok h" "hr_allocated h p" "p < NumScalarPhysicalRegs" and i: "i \<le> 128"
  defines "f \<equiv> \<lambda>lane h. HR_setPhysical p (\<lambda>e. e\<lparr>pr_valid := set_lane lane (pr_valid e)\<rparr>) (HR_writePhysical (int p) lane v h)"
  shows "kept h (fold f [0..<i] h) \<and> (\<forall>q k. hr_allocated h q \<longrightarrow> valid_slot q k \<longrightarrow>
    slot_val (fold f [0..<i] h) q k = (if q = p \<and> k < i then (v, snd (slot_val h p k)) else slot_val h q k))"
  using i
proof (induction i)
  case 0
  then show ?case using ok by (simp add: kept_def)
next
  case (Suc i)
  let ?h = "fold f [0..<i] h"
  have IH: "kept h ?h" "\<And>q k. hr_allocated h q \<Longrightarrow> valid_slot q k \<Longrightarrow>
      slot_val ?h q k = (if q = p \<and> k < i then (v, snd (slot_val h p k)) else slot_val h q k)" using Suc by auto
  have ok': "phys_ok ?h" "hr_allocated ?h p" "valid_slot p i" using IH(1) ok Suc.prems by (auto simp: kept_def valid_slot_def hr_sizes)
  note w = writePhysical_ok [OF ok', where v = v]
  have ok2: "phys_ok (HR_writePhysical (int p) i v ?h)" "hr_allocated (HR_writePhysical (int p) i v ?h) p"
    using w(1) ok' by (auto simp: kept_def)
  note s = set_valid [OF ok2, where f = "set_lane i"]
  have e: "fold f [0..<Suc i] h = HR_setPhysical p (\<lambda>e. e\<lparr>pr_valid := set_lane i (pr_valid e)\<rparr>) (HR_writePhysical (int p) i v ?h)"
    by (simp add: f_def)
  have "slot_val (fold f [0..<Suc i] h) q k = (if q = p \<and> k < Suc i then (v, snd (slot_val h p k)) else slot_val h q k)"
    if q: "hr_allocated h q" "valid_slot q k" for q k
  proof -
    have "hr_allocated ?h q" using IH(1) q by (simp add: kept_def)
    from w(2) [OF this q(2)] have "slot_val (fold f [0..<Suc i] h) q k = (if q = p \<and> k = i then (v, snd (slot_val ?h p i)) else slot_val ?h q k)"
      unfolding e s(2) .
    moreover have "slot_val ?h p i = slot_val h p i" using IH(2) [OF ok(2) ok'(3)] by simp
    ultimately show ?thesis using IH(2) [OF q] by (auto simp: less_Suc_eq)
  qed
  then show ?case using kept_trans [OF kept_trans [OF IH(1) w(1)] s(1)] e by simp
qed

definition init_mapping :: "nat \<Rightarrow> reg_mapping" where
  "init_mapping p = no_mapping\<lparr>mp_scalar := int p, mp_lanePhysical := (\<lambda>l. int p), mp_laneElement := (\<lambda>l. 0),
     mp_laneVectorized := (\<lambda>l. False)\<rparr>"

text \<open>After \<open>i\<close> registers: the first \<open>i\<close> scalar registers are taken, in order.\<close>

definition init_inv :: "(nat \<Rightarrow> reg_val) \<Rightarrow> helper_regs \<Rightarrow> nat \<Rightarrow> helper_regs \<Rightarrow> bool" where
  "init_inv regs h0 i h \<longleftrightarrow> phys_ok h \<and> own_bank h0 h \<and> (\<forall>p < HR_NumPhysicalRegs. hr_allocated h p \<longleftrightarrow> p < i) \<and>
     (\<forall>a < HR_NumArchitecturalRegs. hr_vrat h a = (if a < i then init_mapping a else no_mapping)) \<and>
     (\<forall>p < i. \<not> pr_pendingRelease (hr_physical h p)) \<and> (\<forall>p < i. \<forall>k < 128. slot_val h p k = (regs p, 0))"

lemma init_step:
  assumes I: "init_inv regs h0 i h" and i: "i < HR_NumArchitecturalRegs"
  shows "\<exists>h1. HR_allocateScalar h = (int i, h1) \<and> init_inv regs h0 (Suc i) (HR_initReg i i (regs i) h1)"
proof -
  have ok: "phys_ok h" using I by (simp add: init_inv_def)
  have i': "i < NumScalarPhysicalRegs" "i < HR_NumPhysicalRegs" using i by (simp_all add: hr_sizes)
  have al: "hr_allocated h p \<longleftrightarrow> p < i" if "p < HR_NumPhysicalRegs" for p using I that by (simp add: init_inv_def)
  have fnd: "List.find (\<lambda>p. \<not> hr_allocated h p) [0..<NumScalarPhysicalRegs] = Some i"
    unfolding find_upt_Some using i' al by (auto simp: hr_sizes)
  obtain phys h1 where a: "HR_allocateScalar h = (phys, h1)" by fastforce
  have ph: "phys = int i" using a fnd by (auto simp: HR_allocateScalar_def split: prod.splits)
  then have g: "grown {i} h h1" using allocateScalar_grown [OF ok a] by auto
  have "hr_physical h i = empty_physical" using ok i' al [OF i'(2)] by (simp add: phys_ok_def reg_ok_def)
  then have rdy: "pr_ready (hr_physical h1 i) k = 0" for k
    using a fnd by (auto simp: HR_allocateScalar_def HR_setPhysical_def empty_physical_def split: prod.splits)
  have ok1: "phys_ok h1" "hr_allocated h1 i" "hr_vrat h1 = hr_vrat h" using g by (auto simp: grown_def)
  define h2 where "h2 = HR_setMapping i (\<lambda>m. m\<lparr>mp_scalar := int i, mp_lanePhysical := (\<lambda>l. int i),
    mp_laneElement := (\<lambda>l. 0), mp_laneVectorized := (\<lambda>l. False)\<rparr>) h1"
  have ok2: "phys_ok h2" "hr_allocated h2 i" "hr_allocated h2 = hr_allocated h1" "all_names h2 = all_names h1"
      "slot_val h2 = slot_val h1" "hr_physical h2 = hr_physical h1"
    using ok1 by (auto simp: h2_def HR_setMapping_def fun_eq_iff)
  have v2: "hr_vrat h2 = (hr_vrat h)(i := init_mapping i)"
    using I i ok1(3) by (simp add: h2_def init_inv_def init_mapping_def)
  let ?h3 = "HR_initReg i i (regs i) h1"
  have k: "kept h2 ?h3" and sl: "\<And>q k. hr_allocated h2 q \<Longrightarrow> valid_slot q k \<Longrightarrow>
      slot_val ?h3 q k = (if q = i \<and> k < 128 then (regs i, snd (slot_val h2 i k)) else slot_val h2 q k)"
    using fill_lanes [OF ok2(1,2) i'(1) order_refl, of "regs i"] by (auto simp: HR_initReg_def h2_def)
  have "init_inv regs h0 (Suc i) ?h3"
    unfolding init_inv_def
  proof (intro conjI allI impI)
    show "phys_ok ?h3" using k by (simp add: kept_def)
    show "own_bank h0 ?h3"
    proof -
      have "own_bank h0 h" using I by (simp add: init_inv_def)
      moreover have "own_bank h1 h2" by (simp add: own_bank_def h2_def HR_setMapping_def bank_frame_def bank_values_def)
      ultimately show ?thesis using own_bank_intros(1) [OF k] own_bank_intros(2) [OF g] own_bank_trans by blast
    qed
    show "hr_allocated ?h3 p \<longleftrightarrow> p < Suc i" if "p < HR_NumPhysicalRegs" for p
      using k ok2(3) g al [OF that] by (auto simp: kept_def grown_def)
    show "hr_vrat ?h3 a = (if a < Suc i then init_mapping a else no_mapping)" if "a < HR_NumArchitecturalRegs" for a
      using k v2 I that by (auto simp: kept_def init_inv_def less_Suc_eq)
    show "\<not> pr_pendingRelease (hr_physical ?h3 p)" if "p < Suc i" for p
      using k ok2(6) g I that by (auto simp: kept_def grown_def init_inv_def less_Suc_eq)
    show "slot_val ?h3 p k = (regs p, 0)" if pk: "p < Suc i" "k < 128" for p k
    proof -
      have "hr_allocated h2 p" "valid_slot p k" using ok2(3) g pk al [of p] i by (auto simp: grown_def valid_slot_def hr_sizes less_Suc_eq)
      moreover have "slot_val h1 p k = slot_val h p k" if "p \<noteq> i" using grown_slot [OF g] that by simp
      moreover have "snd (slot_val h1 i k) = 0" using rdy by (simp add: slot_val_def)
      ultimately show ?thesis using sl [of p k] pk I ok2(5) by (cases "p = i") (auto simp: init_inv_def less_Suc_eq)
    qed
  qed
  then show ?thesis using a ph by blast
qed

lemma init_loop:
  "i \<le> HR_NumArchitecturalRegs \<Longrightarrow> init_inv regs h0 i h \<Longrightarrow>
    init_inv regs h0 HR_NumArchitecturalRegs (HR_initLoop [i..<HR_NumArchitecturalRegs] regs h)"
proof (induction "HR_NumArchitecturalRegs - i" arbitrary: i h)
  case (Suc n)
  then have i: "i < HR_NumArchitecturalRegs" by linarith
  obtain h1 where h1: "HR_allocateScalar h = (int i, h1)" "init_inv regs h0 (Suc i) (HR_initReg i i (regs i) h1)"
    using init_step [OF Suc.prems(2) i] by blast
  have "init_inv regs h0 HR_NumArchitecturalRegs (HR_initLoop [Suc i..<HR_NumArchitecturalRegs] regs (HR_initReg i i (regs i) h1))"
    by (rule Suc.hyps(1)) (use Suc.hyps(2) i h1(2) in auto)
  then show ?case using i h1(1) by (simp add: upt_conv_Cons)
qed simp

lemma hr_initialize_ok:
  assumes "phys_ok h"
  shows "phys_ok (HR_initialize regs h) \<and> map_ok (HR_initialize regs h) \<and> own_bank h (HR_initialize regs h)"
    and "a < HR_NumArchitecturalRegs \<Longrightarrow> l < 128 \<Longrightarrow> hr_view (HR_initialize regs h) a l = (regs a, 0)"
    and "a < HR_NumArchitecturalRegs \<Longrightarrow> hr_vrat (HR_initialize regs h) a = init_mapping a"
    and "p < HR_NumPhysicalRegs \<Longrightarrow> hr_allocated (HR_initialize regs h) p \<longleftrightarrow> p < HR_NumArchitecturalRegs"
proof -
  let ?h = "HR_initialize regs h"
  have "init_inv regs h 0 (HR_reset h)" using hr_reset_ok [OF assms] by (simp add: init_inv_def)
  then have I: "init_inv regs h HR_NumArchitecturalRegs ?h"
    using init_loop [of 0] by (simp add: HR_initialize_def)
  then show "p < HR_NumPhysicalRegs \<Longrightarrow> hr_allocated ?h p \<longleftrightarrow> p < HR_NumArchitecturalRegs" by (simp add: init_inv_def)
  show v: "hr_vrat ?h a = init_mapping a" if "a < HR_NumArchitecturalRegs" for a using I that by (simp add: init_inv_def)
  have lr: "lane_regs (init_mapping a) = {a}" for a
    by (simp add: lane_regs_def init_mapping_def image_constant [of 0])
  have rs: "reserved (init_mapping a) = {a}" for a using lr by (simp add: reserved_def) (simp add: init_mapping_def no_mapping_def)
  have "mapping_ok ?h (init_mapping a)" if a: "a < HR_NumArchitecturalRegs" for a
  proof -
    have "a < HR_NumPhysicalRegs" "a < NumScalarPhysicalRegs" using a by (simp_all add: hr_sizes)
    then show ?thesis using I a unfolding mapping_ok_def rs by (auto simp: lane_ok_def init_mapping_def init_inv_def)
  qed
  then have m: "map_ok ?h" using v by (auto simp: map_ok_def rs)
  then show "phys_ok ?h \<and> map_ok ?h \<and> own_bank h ?h" using I by (simp add: init_inv_def)
  show "hr_view ?h a l = (regs a, 0)" if a: "a < HR_NumArchitecturalRegs" "l < 128"
  proof -
    have "slot_of (init_mapping a) l = (a, l)" using a by (simp add: slot_of_def init_mapping_def Let_def hr_sizes)
    then show ?thesis using view_slot [OF m a] v [OF a(1)] I a by (simp add: init_inv_def)
  qed
qed

section \<open>Runs\<close>

text \<open>
  What a helper program believes: each lane has registers of its own, a value and the tick at which
  it is ready.
\<close>

type_synonym lane_file = "nat \<Rightarrow> nat \<Rightarrow> reg_val \<times> tick"

text \<open>
  One step of the helper next to the step of that belief: a write changes one register of one lane,
  and renaming, retaining, releasing and what other users of the shared bank do change nothing.
  A register is vectorised only while all lanes share a scalar (\<open>spawnDVRVectorReplay\<close> does so right
  after \<open>initialize\<close>), and other users of the bank leave the values of borrowed names alone.
\<close>

definition names_unique :: "helper_regs \<Rightarrow> bool" where
  "names_unique h \<longleftrightarrow> (\<forall>x. count (all_names h) x \<le> 1)"

inductive hr_op :: "helper_regs \<times> lane_file \<Rightarrow> helper_regs \<times> lane_file \<Rightarrow> bool" where
  write_lane: "a < HR_NumArchitecturalRegs \<Longrightarrow> l < 128 \<Longrightarrow>
    hr_op (h, A) (HR_write a l v t h, A(a := (A a)(l := (v, t))))"
| vectorize: "a < HR_NumArchitecturalRegs \<Longrightarrow> 0 \<le> HR_scalarMapping a h \<Longrightarrow> hr_op (h, A) (snd (HR_vectorize a h), A)"
| rename_vector: "a < HR_NumArchitecturalRegs \<Longrightarrow> hr_op (h, A) (snd (HR_renameVectorMasked a am h), A)"
| rename_scalar: "a < HR_NumArchitecturalRegs \<Longrightarrow> hr_op (h, A) (snd (HR_renameScalarMasked a am h), A)"
| retain: "hr_op (h, A) (HR_retainPhysical p h, A)"
| release: "hr_op (h, A) (HR_releasePhysical p h, A)"

inductive hr_step :: "helper_regs \<times> lane_file \<Rightarrow> helper_regs \<times> lane_file \<Rightarrow> bool" where
  own: "hr_op s s' \<Longrightarrow> hr_step s s'"
| other_users: "hr_bank h = Some b \<Longrightarrow> bank_classes b' \<Longrightarrow> names_unique (h\<lparr>hr_bank := Some b'\<rparr>) \<Longrightarrow>
    (\<And>r. r \<in># held h \<Longrightarrow> rb_values b' r = rb_values b r) \<Longrightarrow> hr_step (h, A) (h\<lparr>hr_bank := Some b'\<rparr>, A)"

inductive hr_run :: "helper_regs \<times> lane_file \<Rightarrow> bool" where
  start_private: "hr_run (HR_initialize regs HR_new, \<lambda>a l. (regs a, 0))"
| start_shared: "bank_classes b \<Longrightarrow> names_unique (HR_configureSharedPhysicalBank b HR_new) \<Longrightarrow>
    hr_run (HR_initialize regs (HR_configureSharedPhysicalBank b HR_new), \<lambda>a l. (regs a, 0))"
| step: "hr_run s \<Longrightarrow> hr_step s s' \<Longrightarrow> hr_run s'"

definition hr_inv :: "helper_regs \<times> lane_file \<Rightarrow> bool" where
  "hr_inv s \<longleftrightarrow> phys_ok (fst s) \<and> map_ok (fst s) \<and>
     (\<forall>a < HR_NumArchitecturalRegs. \<forall>l < 128. hr_view (fst s) a l = snd s a l)"

lemma held_new: "held HR_new = {#}"
  by (simp add: held_def HR_new_def)

lemma hr_new_ok:
  "phys_ok HR_new"
  "bank_classes b \<Longrightarrow> names_unique (HR_configureSharedPhysicalBank b HR_new) \<Longrightarrow> phys_ok (HR_configureSharedPhysicalBank b HR_new)"
  by (simp_all add: phys_ok_def reg_ok_def HR_new_def HR_configureSharedPhysicalBank_def names_unique_def all_names_def empty_physical_def)

lemma start_inv: "phys_ok h \<Longrightarrow> hr_inv (HR_initialize regs h, \<lambda>a l. (regs a, 0))"
  using hr_initialize_ok [where h = h and regs = regs] by (simp add: hr_inv_def)

lemma renames_inv:
  assumes "hr_inv (h, A)" "renames a h h'"
  shows "hr_inv (h', A)"
  using assms by (simp add: hr_inv_def renames_def)

lemma undisturbed_inv:
  assumes "hr_inv (h, A)" "undisturbed h h'"
  shows "hr_inv (h', A)"
proof -
  have m: "map_ok h" using assms(1) by (simp add: hr_inv_def)
  show ?thesis using assms undisturbed_frame [OF m assms(2)] by (simp add: hr_inv_def undisturbed_def)
qed

lemma held_bank [simp]: "held (h\<lparr>hr_bank := b\<rparr>) = held h"
  by (simp add: held_def)

lemma other_users_undisturbed:
  assumes ok: "phys_ok h" and b: "hr_bank h = Some b" "bank_classes b'" "names_unique (h\<lparr>hr_bank := Some b'\<rparr>)"
    and v: "\<And>r. r \<in># held h \<Longrightarrow> rb_values b' r = rb_values b r"
  shows "phys_ok (h\<lparr>hr_bank := Some b'\<rparr>)"
    and "hr_allocated h q \<Longrightarrow> valid_slot q k \<Longrightarrow> slot_val (h\<lparr>hr_bank := Some b'\<rparr>) q k = slot_val h q k"
proof -
  let ?h' = "h\<lparr>hr_bank := Some b'\<rparr>"
  show ok': "phys_ok ?h'" using ok b by (simp add: phys_ok_def names_unique_def)
  assume q: "hr_allocated h q" "valid_slot q k"
  have "shared_slot ?h' q k = shared_slot h q k" using b(1) by (simp add: shared_slot_def)
  moreover have "bank_values ?h' r = bank_values h r" if r: "shared_slot h q k = Some r" for r
    using v shared_slot_held [OF ok q r] b(1) by (simp add: bank_values_def)
  moreover have "hr_allocated ?h' q" using q(1) by simp
  ultimately show "slot_val ?h' q k = slot_val h q k"
    using readPhysical_slot [OF ok' _ q(2)] readPhysical_slot [OF ok q] by (simp add: slot_val_def split: option.split)
qed

text \<open>After the destructor nothing is held.\<close>

lemma releaseAll_held:
  assumes "phys_ok h"
  shows "held (HR_releaseAll h) = {#}"
proof -
  have "hr_physical (HR_releaseAll h) p = empty_physical" if "p < HR_NumPhysicalRegs" for p
    using releaseAll_ok [OF assms] that by (auto simp: phys_ok_def reg_ok_def)
  then show ?thesis by (simp add: held_def)
qed

text \<open>A step of the helper writes one slot, renames one register or touches no mapped register.\<close>

lemma op_cases:
  assumes "hr_op (h, A) (h', A')" "hr_inv (h, A)"
  obtains (write_lane) a l v t where "a < HR_NumArchitecturalRegs" "l < 128" "h' = HR_write a l v t h" "A' = A(a := (A a)(l := (v, t)))"
  | (rename) a where "a < HR_NumArchitecturalRegs" "renames a h h'" "A' = A"
  | (count) "undisturbed h h'" "A' = A"
proof -
  have i: "phys_ok h" "map_ok h" using assms(2) by (auto simp: hr_inv_def)
  show thesis using assms(1)
  proof cases
    case (vectorize a)
    have "renames a h h'" unfolding vectorize(1)
      by (rule vectorize_ok [OF i vectorize(3)]) (use vectorize(4) in \<open>auto simp: HR_scalarMapping_def split: if_splits\<close>)
    then show thesis using that(2) vectorize by blast
  next
    case (rename_vector a am)
    then show thesis using that(2) renameVectorMasked_ok [OF i] by blast
  next
    case (rename_scalar a am)
    then show thesis using that(2) renameScalarMasked_ok [OF i] by blast
  qed (use that(1,3) retain_undisturbed [OF i(1)] releasePhysical_undisturbed [OF i(1)] in blast)+
qed

lemma op_inv:
  assumes "hr_op (h, A) (h', A')" "hr_inv (h, A)"
  shows "hr_inv (h', A') \<and> own_bank h h'"
  using assms
proof (cases rule: op_cases)
  case (write_lane a l v t)
  have i: "phys_ok h" "map_ok h" using assms(2) by (auto simp: hr_inv_def)
  note w = write_view [OF i write_lane(1,2), where v = v and t = t]
  show ?thesis using w own_bank_intros(1) [OF w(2)] assms(2) by (auto simp: write_lane hr_inv_def kept_def)
next
  case (rename a)
  then show ?thesis using renames_inv [OF assms(2)] own_bank_intros(3) by blast
next
  case count
  then show ?thesis using undisturbed_inv [OF assms(2)] own_bank_intros(4) by blast
qed

lemma hr_step_inv:
  assumes "hr_step s s'" "hr_inv s"
  shows "hr_inv s'"
  using assms
proof cases
  case own
  then show ?thesis using op_inv [of "fst s" "snd s" "fst s'" "snd s'"] assms(2) by simp
next
  case (other_users h b b' A)
  then have i: "phys_ok h" "map_ok h" using assms(2) by (auto simp: hr_inv_def)
  note o = other_users_undisturbed [OF i(1) other_users(3-6)]
  let ?h' = "h\<lparr>hr_bank := Some b'\<rparr>"
  have r: "hr_allocated ?h' p = hr_allocated h p \<and> pr_pendingRelease (hr_physical ?h' p) = pr_pendingRelease (hr_physical h p) \<and>
      (\<forall>k. valid_slot p k \<longrightarrow> slot_val ?h' p k = slot_val h p k)" if "p \<in> reserved_regs h" for p
    using o(2) reserved_ok(1) [OF i(2) that] by simp
  note f = map_frame [OF i(2) _ r, simplified]
  show ?thesis using f o(1) assms(2) by (simp add: other_users(1,2) hr_inv_def)
qed

lemma hr_run_inv: "hr_run s \<Longrightarrow> hr_inv s"
  by (induction rule: hr_run.induct) (auto intro: start_inv hr_new_ok hr_step_inv)

lemma run_steps: "hr_step\<^sup>*\<^sup>* s s' \<Longrightarrow> hr_run s \<Longrightarrow> hr_run s'"
  by (induction rule: rtranclp_induct) (auto intro: hr_run.step)

section \<open>Registers no lane uses\<close>

definition orphan :: "nat \<Rightarrow> helper_regs \<Rightarrow> bool" where
  "orphan p h \<longleftrightarrow> hr_allocated h p \<and> \<not> pr_pendingRelease (hr_physical h p) \<and>
     (\<forall>a < HR_NumArchitecturalRegs. p \<notin> lane_regs (hr_vrat h a))"

lemma renames_orphan:
  assumes "renames a h h'" "orphan p h" "a < HR_NumArchitecturalRegs"
  shows "orphan p h'"
proof -
  have "p \<notin> lane_regs (hr_vrat h' b)" if "b < HR_NumArchitecturalRegs" for b
    using assms that by (cases "b = a") (auto simp: renames_def orphan_def)
  then show ?thesis using assms by (auto simp: renames_def orphan_def)
qed

lemma step_orphan:
  assumes "hr_step s s'" "hr_inv s" "orphan p (fst s)"
  shows "orphan p (fst s')"
  using assms(1)
proof cases
  case own
  then have "hr_op (fst s, snd s) (fst s', snd s')" "hr_inv (fst s, snd s)" using assms(2) by simp_all
  then show ?thesis
  proof (cases rule: op_cases)
    case (write_lane a l v t)
    have "kept (fst s) (fst s')" unfolding write_lane(3)
      by (rule write_view(2)) (use assms(2) write_lane(1,2) in \<open>auto simp: hr_inv_def\<close>)
    then show ?thesis using assms(3) by (simp add: kept_def orphan_def)
  next
    case (rename a)
    then show ?thesis using renames_orphan assms(3) by blast
  next
    case count
    then show ?thesis using assms(3) by (simp add: undisturbed_def orphan_def)
  qed
next
  case (other_users h b b' A)
  then show ?thesis using assms(3) by (simp add: orphan_def)
qed

lemma steps_orphan: "hr_step\<^sup>*\<^sup>* s s' \<Longrightarrow> hr_run s \<Longrightarrow> orphan p (fst s) \<Longrightarrow> orphan p (fst s')"
  by (induction rule: rtranclp_induct) (auto intro: step_orphan hr_run_inv run_steps)

lemma orphan_index:
  assumes "orphan p h" "map_ok h"
  shows "HR_physicalIndex a l h \<noteq> int p"
proof (cases "a < HR_NumArchitecturalRegs \<and> l < 128")
  case True
  then have k: "lane_ok h (hr_vrat h a) l" using map_okD [OF assms(2)] by (simp add: mapping_ok_def)
  have "nat (mp_lanePhysical (hr_vrat h a) l) \<in> lane_regs (hr_vrat h a)" using True by (auto simp: lane_regs_def)
  then show ?thesis using True assms(1) k by (auto simp: HR_physicalIndex_def Let_def orphan_def lane_ok_def)
qed (auto simp: HR_physicalIndex_def)

lemma given_orphan:
  assumes g: "bundle_given a am ps h h'" and r: "renames a h h'" and ok: "map_ok h" and a: "a < HR_NumArchitecturalRegs"
    and c: "c < VectorCopies" "\<And>l. l < 128 \<Longrightarrow> test_lane am l \<Longrightarrow> l div LanesPerVectorCopy \<noteq> c"
  shows "orphan (ps ! c) h'"
proof -
  have p: "ps ! c \<in> set ps" using g c(1) by (simp add: bundle_given_def)
  have al: "hr_allocated h q" if "b < HR_NumArchitecturalRegs" "q \<in> lane_regs (hr_vrat h b)" for b q
    using map_okD [OF ok that(1)] that(2) by (auto simp: mapping_ok_def reserved_def)
  have "ps ! c \<notin> lane_regs (hr_vrat h' b)" if b: "b < HR_NumArchitecturalRegs" for b
  proof (cases "b = a")
    case False
    then show ?thesis using al [OF b] g r p by (auto simp: renames_def bundle_given_def)
  next
    case True
    have "ps ! c \<noteq> nat (mp_lanePhysical (hr_vrat h' a) l)" if l: "l < 128" for l
    proof (cases "test_lane am l")
      case t: True
      then have "nat (mp_lanePhysical (hr_vrat h' a) l) = ps ! (l div LanesPerVectorCopy)"
        using g l by (simp add: bundle_given_def slot_of_def Let_def)
      then show ?thesis using g c(1) c(2) [OF l t] copy_index [OF l] by (auto simp: bundle_given_def nth_eq_iff_index_eq)
    next
      case t: False
      then have "nat (mp_lanePhysical (hr_vrat h' a) l) \<in> lane_regs (hr_vrat h a)"
        using g l by (auto simp: bundle_given_def slot_of_def Let_def lane_regs_def)
      then show ?thesis using al [OF a] g p by (auto simp: bundle_given_def)
    qed
    then show ?thesis unfolding True lane_regs_def by auto
  qed
  then show ?thesis using g p by (auto simp: orphan_def bundle_given_def)
qed

section \<open>When a vector rename succeeds\<close>

lemma bundleLoop_found:
  "distinct ps \<Longrightarrow> length found \<le> VectorCopies \<Longrightarrow>
    length (fst (HR_bundleLoop ps found h)) = min VectorCopies (length found + length (filter (\<lambda>p. \<not> hr_allocated h p) ps))"
proof (induction ps arbitrary: found h)
  case (Cons p ps)
  have f: "filter (\<lambda>q. \<not> ((hr_allocated h)(p := True)) q) ps = filter (\<lambda>q. \<not> hr_allocated h q) ps"
    using Cons.prems(1) by (auto intro!: filter_cong)
  show ?case
    using Cons.prems Cons.IH [where found = found and h = h] Cons.IH [where found = "found @ [p]"] f
    by (auto simp: Let_def HR_setPhysical_def split: prod.splits option.splits)
qed simp

lemma renameVectorMasked_success:
  assumes "phys_ok h" "a < HR_NumArchitecturalRegs"
  shows "fst (HR_renameVectorMasked a am h) \<longleftrightarrow>
    VectorCopies \<le> length (filter (\<lambda>p. \<not> hr_allocated h p) [NumScalarPhysicalRegs..<HR_NumPhysicalRegs])"
proof -
  obtain found h1 where l: "HR_bundleLoop [NumScalarPhysicalRegs..<HR_NumPhysicalRegs] [] h = (found, h1)" by fastforce
  have n: "length found = VectorCopies \<longleftrightarrow>
      VectorCopies \<le> length (filter (\<lambda>p. \<not> hr_allocated h p) [NumScalarPhysicalRegs..<HR_NumPhysicalRegs])"
    using bundleLoop_found [of "[NumScalarPhysicalRegs..<HR_NumPhysicalRegs]" "[]" h] l by (auto simp: min_def)
  show ?thesis
  proof (cases "length found = VectorCopies")
    case True
    then have "HR_allocateVectorBundle h = (map int found, h1)" "found \<noteq> []"
      using l by (auto simp: HR_allocateVectorBundle_def hr_sizes)
    then show ?thesis using assms True n by (simp add: HR_renameVectorMasked_def Let_def nth_append hd_conv_nth [symmetric] hd_map)
  next
    case False
    then have "fst (HR_allocateVectorBundle h) = replicate VectorCopies (- 1)" using l by (auto simp: HR_allocateVectorBundle_def)
    then have "\<not> fst (HR_renameVectorMasked a am h)"
      by (auto simp: HR_renameVectorMasked_def Let_def hr_sizes split: prod.splits)
    then show ?thesis using False n by simp
  qed
qed

section \<open>Properties\<close>

text \<open>
  C14 (refinement). For a helper program its register file is one private register per architectural
  register and lane. After any interleaving of writes, vectorisations, masked vector and scalar
  renames (successful or not), retains and releases, with the rest of the pipeline using the shared
  bank, every lane reads the value and the ready tick last written to its own register, or those of
  the snapshot. The check that the scheduler asserts after each rename holds, and the names through
  which the shared register file is accessed are of a class it supports, so no access panics.
\<close>

theorem helper_regs_refine:
  assumes "hr_run (h, A)"
  shows "HR_conservationValid h \<and>
    (\<forall>a < HR_NumArchitecturalRegs. \<forall>l < HR_MaxLanes. HR_read a l h = fst (A a l) \<and> HR_readyAt a l h = snd (A a l)) \<and>
    (\<forall>p < HR_NumPhysicalRegs. \<forall>r. Some r \<in> set (pr_sharedIds (hr_physical h p)) \<longrightarrow> has_value (pid_class r))"
proof (intro conjI)
  have i: "phys_ok h" "map_ok h" using hr_run_inv [OF assms] by (auto simp: hr_inv_def)
  show "HR_conservationValid h" by (rule conservation_holds [OF i])
  show "\<forall>a < HR_NumArchitecturalRegs. \<forall>l < HR_MaxLanes. HR_read a l h = fst (A a l) \<and> HR_readyAt a l h = snd (A a l)"
    using hr_run_inv [OF assms] by (auto simp: hr_inv_def hr_view_def prod_eq_iff)
  show "\<forall>p < HR_NumPhysicalRegs. \<forall>r. Some r \<in> set (pr_sharedIds (hr_physical h p)) \<longrightarrow> has_value (pid_class r)"
    using i(1) by (auto simp: phys_ok_def reg_ok_def has_value_def)
qed

text \<open>
  C19 (invariant). Names borrowed from the shared bank are conserved: in every reachable state no
  name is held twice or both held and free, an operation of the helper neither loses nor invents a
  name, and the destructor puts every held name back on the free lists, once.
\<close>

theorem helper_names_conserved:
  assumes "hr_run (h, A)" and "hr_bank h = Some b"
  shows "(\<forall>x. count (held h + free_names b) x \<le> 1) \<and>
    (\<forall>h' A'. hr_op (h, A) (h', A') \<longrightarrow> (\<exists>b'. hr_bank h' = Some b' \<and> held h' + free_names b' = held h + free_names b)) \<and>
    (\<exists>b'. hr_bank (HR_releaseAll h) = Some b' \<and> free_names b' = held h + free_names b)"
proof (intro conjI allI impI)
  have inv: "hr_inv (h, A)" by (rule hr_run_inv [OF assms(1)])
  then have ok: "phys_ok h" by (simp add: hr_inv_def)
  show "count (held h + free_names b) x \<le> 1" for x using ok assms(2) by (simp add: phys_ok_def all_names_def)
  show "\<exists>b'. hr_bank h' = Some b' \<and> held h' + free_names b' = held h + free_names b" if "hr_op (h, A) (h', A')" for h' A'
    using op_inv [OF that inv] assms(2) by (auto simp: own_bank_def all_names_def split: option.splits)
  show "\<exists>b'. hr_bank (HR_releaseAll h) = Some b' \<and> free_names b' = held h + free_names b"
    using releaseAll_ok [OF ok] releaseAll_held [OF ok] assms(2) by (auto simp: all_names_def same_bank_def split: option.splits)
qed

text \<open>
  C27 (error). A vector rename whose mask misses a group of eight lanes loses the vector register
  allocated for that group: it is taken from the free registers, no register of any lane ever
  refers to it, and no later operation frees it. Only the end of the program does, so the 128 vector
  registers can run out, and then every further vector rename fails (\<open>renameVectorMasked_success\<close>).
\<close>

theorem partial_rename_leaks:
  assumes "hr_run (h, A)" and "a < HR_NumArchitecturalRegs" and "HR_renameVectorMasked a am h = (True, h1)"
    and "c < VectorCopies" and "\<forall>l < HR_MaxLanes. test_lane am l \<longrightarrow> l div LanesPerVectorCopy \<noteq> c"
    and "hr_step\<^sup>*\<^sup>* (h1, A) (h', A')"
  shows "\<exists>p < HR_NumPhysicalRegs. mp_vector (hr_vrat h1 a) ! c = int p \<and> \<not> hr_allocated h p \<and>
    hr_allocated h' p \<and> (\<forall>b l. HR_physicalIndex b l h' \<noteq> int p)"
proof -
  have ok: "phys_ok h" "map_ok h" using hr_run_inv [OF assms(1)] by (auto simp: hr_inv_def)
  obtain ps where g: "bundle_given a am ps h h1"
    using renameVectorMasked_given [OF ok assms(2), of am] assms(3) by auto
  have r: "renames a h h1" using renameVectorMasked_ok [OF ok assms(2), of am] assms(3) by simp
  have p: "ps ! c \<in> set ps" "mp_vector (hr_vrat h1 a) ! c = int (ps ! c)" using g assms(4) by (auto simp: bundle_given_def)
  have o: "orphan (ps ! c) h1" by (rule given_orphan [OF g r ok(2) assms(2,4)]) (use assms(5) in auto)
  have run: "hr_run (h1, A)"
    using hr_run.step [OF assms(1) hr_step.own [OF hr_op.rename_vector [OF assms(2)]]] assms(3) by (metis snd_conv)
  have o': "orphan (ps ! c) h'" using steps_orphan [OF assms(6) run] o by simp
  have "map_ok h'" using hr_run_inv [OF run_steps [OF assms(6) run]] by (simp add: hr_inv_def)
  then show ?thesis using g p o' orphan_index [OF o'] by (auto simp: bundle_given_def orphan_def)
qed

section \<open>Witnesses\<close>

definition demo_bank :: reg_bank where
  "demo_bank = \<lparr>rb_values = (\<lambda>r. 0),
     rb_freeLists = (\<lambda>c. if c = IntRegClass then [PhysRegId IntRegClass 40, PhysRegId IntRegClass 41] else [])\<rparr>"

definition demo_shared :: helper_regs where
  "demo_shared = HR_initialize (\<lambda>a. 0) (HR_configureSharedPhysicalBank demo_bank HR_new)"

definition demo_private :: helper_regs where
  "demo_private = HR_initialize (\<lambda>a. of_nat a) HR_new"

lemma demo_names: "all_names (HR_configureSharedPhysicalBank demo_bank HR_new) = {#PhysRegId IntRegClass 40, PhysRegId IntRegClass 41#}"
  using held_new by (simp add: all_names_def HR_configureSharedPhysicalBank_def demo_bank_def free_names_def UNIV_reg_class)

lemma demo_shared_start:
  "phys_ok (HR_configureSharedPhysicalBank demo_bank HR_new)" "hr_run (demo_shared, \<lambda>a l. (0, 0))"
  "all_names demo_shared = {#PhysRegId IntRegClass 40, PhysRegId IntRegClass 41#}"
proof -
  have c: "bank_classes demo_bank" by (simp add: bank_classes_def demo_bank_def)
  have u: "names_unique (HR_configureSharedPhysicalBank demo_bank HR_new)" by (simp add: names_unique_def demo_names)
  show ok: "phys_ok (HR_configureSharedPhysicalBank demo_bank HR_new)" by (rule hr_new_ok(2) [OF c u])
  show "hr_run (demo_shared, \<lambda>a l. (0, 0))"
    unfolding demo_shared_def by (rule hr_run.start_shared [OF c u, where regs = "\<lambda>a. 0"])
  show "all_names demo_shared = {#PhysRegId IntRegClass 40, PhysRegId IntRegClass 41#}"
    unfolding demo_shared_def using hr_initialize_ok(1) [OF ok] demo_names by (simp add: own_bank_def)
qed

lemma demo_private_run: "hr_run (demo_private, \<lambda>a l. (of_nat a, 0))"
  unfolding demo_private_def by (rule hr_run.start_private)

theorem helper_regs_refine_witness:
  "HR_read 5 3 (HR_write 5 3 42 7 demo_private) = 42 \<and> HR_read 5 4 (HR_write 5 3 42 7 demo_private) = 5"
proof -
  have "hr_run (HR_write 5 3 42 7 demo_private, (\<lambda>a l. (of_nat a, 0))(5 := (\<lambda>l. (of_nat 5, 0))(3 := (42, 7))))"
    by (rule hr_run.step [OF demo_private_run hr_step.own [OF hr_op.write_lane]]) (simp_all add: hr_sizes)
  from helper_regs_refine [OF this] show ?thesis by (simp add: hr_sizes)
qed

theorem helper_names_conserved_witness:
  "\<exists>b'. hr_bank (HR_releaseAll demo_shared) = Some b' \<and> free_names b' = {#PhysRegId IntRegClass 40, PhysRegId IntRegClass 41#}"
proof -
  obtain b where b: "hr_bank demo_shared = Some b"
    using demo_shared_start(3) by (cases "hr_bank demo_shared") (simp_all add: all_names_def)
  then have "held demo_shared + free_names b = {#PhysRegId IntRegClass 40, PhysRegId IntRegClass 41#}"
    using demo_shared_start(3) by (simp add: all_names_def)
  then show ?thesis using helper_names_conserved [OF demo_shared_start(2) b] by simp
qed

theorem partial_rename_leaks_witness:
  "\<exists>p < 384. hr_allocated (snd (HR_renameVectorMasked 5 [1, 0] demo_private)) p \<and>
     (\<forall>b l. HR_physicalIndex b l (snd (HR_renameVectorMasked 5 [1, 0] demo_private)) \<noteq> int p)"
proof -
  let ?h1 = "snd (HR_renameVectorMasked 5 [1, 0] demo_private)"
  have a: "5 < HR_NumArchitecturalRegs" "1 < VectorCopies" by (simp_all add: hr_sizes)
  have ok: "phys_ok demo_private" using hr_run_inv [OF demo_private_run] by (simp add: hr_inv_def)
  have "filter (\<lambda>p. \<not> hr_allocated demo_private p) [NumScalarPhysicalRegs..<HR_NumPhysicalRegs] = [NumScalarPhysicalRegs..<HR_NumPhysicalRegs]"
    unfolding demo_private_def using hr_initialize_ok(4) [OF hr_new_ok(1)] by (intro filter_True) (auto simp: hr_sizes)
  then have "fst (HR_renameVectorMasked 5 [1, 0] demo_private)" using renameVectorMasked_success [OF ok a(1)] by (simp add: hr_sizes)
  then have r: "HR_renameVectorMasked 5 [1, 0] demo_private = (True, ?h1)" by (simp add: prod_eq_iff)
  have m: "\<forall>l < 128. test_lane [1, 0] l \<longrightarrow> l div LanesPerVectorCopy \<noteq> 1"
    by (auto simp: test_lane_bit hr_sizes nth_Cons' bit_1_iff split: if_splits)
  from partial_rename_leaks [OF demo_private_run a(1) r a(2) m rtranclp.rtrancl_refl] show ?thesis
    by (auto simp: hr_sizes)
qed

end
