(* ===== verification/DVR_Helper.thy ===== *)
theory DVR_Helper
  imports DVR_Recorder DVR_HelperRegs
begin

unbundle bit_operations_syntax

text \<open>
  \<open>DVRHelperThread\<close> (\<open>src/code/gem5-runahead-dev-pre/src/cpu/o3/cpu.hh\<close> 1769-2560): the in-order helper
  that fetches, issues and retires the vector copies of a recorded program, with its lane contexts
  and reconvergence state.

  Shared pointers are numbers: a template is an index into the immutable \<open>programs\<close>, and a register
  file is an index into the files below. The helper keeps one reconvergence state per register file
  and forgets the states and the lanes together, so the register file also names the state. A lane
  context always has a program and a register file, since \<open>enqueueReplayLane\<close> refuses the others.
  Counters are 32-bit words; statistics and the cache of decoded instructions, which these methods
  only clear, are left out.
\<close>

section \<open>Register files\<close>

text \<open>All register files use the one bank of the pipeline, or none does.\<close>

record helper_files =
  hf_files :: "nat \<Rightarrow> helper_regs"
  hf_bank :: "reg_bank option"

definition HF_get :: "nat \<Rightarrow> helper_files \<Rightarrow> helper_regs" where
  "HF_get i s = (hf_files s i)\<lparr>hr_bank := hf_bank s\<rparr>"

definition HF_update :: "nat \<Rightarrow> (helper_regs \<Rightarrow> helper_regs) \<Rightarrow> helper_files \<Rightarrow> helper_files" where
  "HF_update i f s = (let h = f (HF_get i s) in s\<lparr>hf_files := (hf_files s)(i := h), hf_bank := hr_bank h\<rparr>)"

section \<open>Data\<close>

record replay_template =
  rt_triggerPC :: addr
  rt_stridePC :: addr
  rt_loopControlPC :: addr
  rt_finalLoadPC :: addr
  rt_count :: nat
  rt_scalarCount :: nat
  rt_triggerDestination :: int
  rt_continuePastFLR :: bool
  rt_uops :: "nat \<Rightarrow> uop"
  rt_initialRegs :: "nat \<Rightarrow> reg_val"
  rt_valid :: bool

type_synonym programs = "nat \<Rightarrow> replay_template"

text \<open>The address relations a request carries.\<close>

record relation_set =
  rel_count :: nat
  rel_scales :: "nat \<Rightarrow> i64"
  rel_offsets :: "nat \<Rightarrow> i64"
  rel_masks :: "nat \<Rightarrow> reg_val"
  rel_patterns :: "nat \<Rightarrow> reg_val"

record sender_state =
  sn_nested :: bool
  sn_relations :: relation_set
  sn_replay :: "nat option"
  sn_helperRegs :: "nat option"
  sn_predicate :: "nat option"
  sn_lane :: nat
  sn_tid :: nat

datatype termination_reason = NoTermination | FLR | StridePC | Timeout | External

record replay_lane =
  rl_program :: nat
  rl_helperRegs :: nat
  rl_regs :: "nat \<Rightarrow> reg_val"
  rl_readyCycle :: "nat \<Rightarrow> tick"
  rl_predicate :: "nat option"
  rl_relations :: relation_set
  rl_lane :: nat
  rl_tid :: nat
  rl_triggerPC :: addr
  rl_stridePC :: addr
  rl_loopControlPC :: addr
  rl_finalLoadPC :: addr
  rl_continuePastFLR :: bool
  rl_uopIndex :: nat
  rl_lanePC :: addr
  rl_reconvergenceBlocked :: bool
  rl_simtPath :: nat
  rl_simtDivergent :: bool
  rl_termination :: termination_reason
  rl_helperUops :: nat
  rl_nested :: bool
  rl_active :: bool

record replay_frame =
  rf_currentPC :: addr
  rf_currentMask :: lane_mask
  rf_reconvergencePC :: addr
  rf_pc :: addr
  rf_mask :: lane_mask
  rf_alternatePath :: bool
  rf_takenPath :: bool

text \<open>The array of eight frames with its depth is a list, the deepest frame first.\<close>

definition ReplayEntries :: nat where
  "ReplayEntries = 8"

record replay_reconvergence =
  rr_renamedDestinations :: "u64 set"
  rr_stack :: "replay_frame list"
  rr_currentPC :: addr
  rr_currentMask :: lane_mask
  rr_currentValid :: bool

definition new_reconvergence :: replay_reconvergence where
  "new_reconvergence = \<lparr>rr_renamedDestinations = {}, rr_stack = [], rr_currentPC = 0, rr_currentMask = empty_mask,
     rr_currentValid = False\<rparr>"

datatype uop_state = Decoded | Ready | Issued | WaitingMemory | UopCompleted

datatype op_class = SimdAluOp | SimdAddOp | SimdShiftOp | SimdMultOp

record dyn_uop =
  du_program :: nat
  du_helperRegs :: nat
  du_uopIndex :: nat
  du_opClass :: op_class
  du_source0 :: int
  du_source1 :: int
  du_destination :: int
  du_pc :: addr
  du_copy :: nat
  du_activeMask :: lane_mask
  du_lanes :: "nat list"
  du_source0Physical :: "int list"
  du_source1Physical :: "int list"
  du_source0DeadMask :: lane_mask
  du_source1DeadMask :: lane_mask
  du_issueCycle :: tick
  du_completeCycle :: tick
  du_state :: uop_state

definition VIRCopies :: nat where
  "VIRCopies = 16"

definition LanesPerVIRCopy :: nat where
  "LanesPerVIRCopy = 8"

record vir_copy =
  vc_activeMask :: lane_mask
  vc_readyMask :: lane_mask
  vc_issuedMask :: lane_mask
  vc_executedMask :: lane_mask
  vc_completedMask :: lane_mask
  vc_deadSourceMask :: lane_mask
  vc_deadSource0Mask :: lane_mask
  vc_deadSource1Mask :: lane_mask
  vc_pc :: addr
  vc_uopIndex :: nat
  vc_inFlight :: u32
  vc_active :: bool
  vc_issued :: bool
  vc_executed :: bool
  vc_deadSource :: bool

definition empty_copy :: vir_copy where
  "empty_copy = \<lparr>vc_activeMask = empty_mask, vc_readyMask = empty_mask, vc_issuedMask = empty_mask,
     vc_executedMask = empty_mask, vc_completedMask = empty_mask, vc_deadSourceMask = empty_mask,
     vc_deadSource0Mask = empty_mask, vc_deadSource1Mask = empty_mask, vc_pc = 0, vc_uopIndex = 0,
     vc_inFlight = 0, vc_active = False, vc_issued = False, vc_executed = False, vc_deadSource = False\<rparr>"

definition FrontEndBufferCapacity :: nat where
  "FrontEndBufferCapacity = 8"

definition VIRCapacity :: nat where
  "VIRCapacity = 8"

datatype frontend_state = FetchPending | DecodePending | FrontReady | Fault

record frontend_entry =
  fe_pc :: addr
  fe_state :: frontend_state
  fe_fetchTick :: tick
  fe_decodeTick :: tick

record replay_generation =
  rg_program :: "nat option"
  rg_workUnits :: nat
  rg_unit :: nat
  rg_uop :: nat

datatype compute_kind = AluKind | AddKind | ShiftKind | MultiplyKind

record issue_entry =
  ie_kind :: compute_kind
  ie_source0 :: int
  ie_source1 :: int
  ie_destination :: int
  ie_pc :: addr
  ie_nextPC :: addr
  ie_readyTick :: tick

definition IssueQueueCapacity :: nat where
  "IssueQueueCapacity = 8"

definition ScoreboardRegisters :: nat where
  "ScoreboardRegisters = 32"

datatype helper_state = HelperIdle | HelperFetch | HelperDecode | HelperRunning | HelperDraining

record helper_thread =
  ht_state :: helper_state
  ht_id :: u64
  ht_triggerPC :: addr
  ht_programUops :: u32
  ht_maxUops :: u32
  ht_workUnits :: u32
  ht_nextLane :: u32
  ht_issuedUops :: u32
  ht_outstanding :: u32
  ht_fetchRemaining :: u32
  ht_decodeRemaining :: u32
  ht_readyUops :: u32
  ht_aluRemaining :: u32
  ht_shiftRemaining :: u32
  ht_multiplyRemaining :: u32
  ht_computeReadyTick :: tick
  ht_vectorChunkModel :: bool
  ht_helperPC :: addr
  ht_frontendTid :: nat
  ht_frontendUopIndex :: nat
  ht_lastFetched :: u32
  ht_lastDecoded :: u32
  ht_frontendReplay :: "nat option"
  ht_issueQueue :: "issue_entry list"
  ht_replayGenerations :: "replay_generation list"
  ht_replayLanes :: "replay_lane list"
  ht_reconvergence :: "nat \<Rightarrow> replay_reconvergence option"
  ht_virBuffer :: "dyn_uop list"
  ht_frontendBuffer :: "frontend_entry list"
  ht_virCopies :: "nat \<Rightarrow> vir_copy"
  ht_readyCycle :: "nat \<Rightarrow> tick"

definition HT_new :: helper_thread where
  "HT_new = \<lparr>ht_state = HelperIdle, ht_id = 0, ht_triggerPC = 0, ht_programUops = 0, ht_maxUops = 0,
     ht_workUnits = 0, ht_nextLane = 0, ht_issuedUops = 0, ht_outstanding = 0, ht_fetchRemaining = 0,
     ht_decodeRemaining = 0, ht_readyUops = 0, ht_aluRemaining = 0, ht_shiftRemaining = 0,
     ht_multiplyRemaining = 0, ht_computeReadyTick = 0, ht_vectorChunkModel = False, ht_helperPC = 0,
     ht_frontendTid = 0, ht_frontendUopIndex = 0, ht_lastFetched = 0, ht_lastDecoded = 0,
     ht_frontendReplay = None, ht_issueQueue = [], ht_replayGenerations = [], ht_replayLanes = [],
     ht_reconvergence = (\<lambda>i. None), ht_virBuffer = [], ht_frontendBuffer = [],
     ht_virCopies = (\<lambda>c. empty_copy), ht_readyCycle = (\<lambda>r. 0)\<rparr>"

text \<open>\<open>reset\<close> assigns every member its initial value.\<close>

definition HT_reset :: "helper_thread \<Rightarrow> helper_thread" where
  "HT_reset t = HT_new"

section \<open>Front end\<close>

text \<open>\<open>begin\<close> leaves \<open>computeReadyTick\<close> as it is.\<close>

definition HT_begin :: "u64 \<Rightarrow> addr \<Rightarrow> u32 \<Rightarrow> u32 \<Rightarrow> u32 \<Rightarrow> resource_counts \<Rightarrow> bool \<Rightarrow> nat option \<Rightarrow> nat \<Rightarrow>
    helper_thread \<Rightarrow> helper_thread" where
  "HT_begin helper_id pc uops units budget resources vector_model replay tid t =
     (let total_uops = ucast uops * ucast units :: u64;
          scalar = \<not> (replay \<noteq> None \<and> vector_model);
          remaining = ucast (min total_uops (ucast budget)) :: u32
      in t\<lparr>ht_id := helper_id, ht_triggerPC := pc, ht_programUops := uops, ht_maxUops := budget,
           ht_workUnits := units, ht_helperPC := pc, ht_frontendTid := tid, ht_frontendUopIndex := 0,
           ht_lastFetched := 0, ht_lastDecoded := 0, ht_frontendReplay := replay, ht_nextLane := 0,
           ht_issuedUops := 0, ht_outstanding := 0,
           ht_fetchRemaining := remaining, ht_decodeRemaining := 0, ht_readyUops := 0,
           ht_aluRemaining := if scalar then of_nat (rs_alu resources) else 0,
           ht_shiftRemaining := if scalar then of_nat (rs_shift resources) else 0,
           ht_multiplyRemaining := if scalar then of_nat (rs_multiply resources) else 0,
           ht_vectorChunkModel := vector_model, ht_issueQueue := [], ht_replayGenerations := [],
           ht_replayLanes := [], ht_reconvergence := (\<lambda>i. None), ht_virBuffer := [],
           ht_frontendBuffer := [], ht_virCopies := (\<lambda>c. empty_copy), ht_readyCycle := (\<lambda>r. 0),
           ht_state := if remaining = 0 then HelperIdle else HelperFetch\<rparr>)"

definition HT_extend :: "addr \<Rightarrow> u32 \<Rightarrow> u32 \<Rightarrow> resource_counts \<Rightarrow> bool \<Rightarrow> nat option \<Rightarrow> helper_thread \<Rightarrow> helper_thread" where
  "HT_extend pc uops units resources vector_model replay t =
     (if ht_state t = HelperIdle
      then HT_begin (ht_id t) pc uops units (ht_maxUops t) resources vector_model replay (ht_frontendTid t) t
      else
        (let generation_uops = ucast (min (ucast uops * ucast units :: u64) (ucast (ht_maxUops t))) :: u32;
             t1 = t\<lparr>ht_fetchRemaining := ht_fetchRemaining t + generation_uops,
                    ht_maxUops := ht_maxUops t + generation_uops\<rparr>;
             t2 = (if \<not> (replay \<noteq> None \<and> vector_model)
                   then t1\<lparr>ht_aluRemaining := ht_aluRemaining t1 + of_nat (rs_alu resources),
                           ht_shiftRemaining := ht_shiftRemaining t1 + of_nat (rs_shift resources),
                           ht_multiplyRemaining := ht_multiplyRemaining t1 + of_nat (rs_multiply resources)\<rparr>
                   else t1)
         in t2\<lparr>ht_vectorChunkModel := vector_model,
               ht_state := if ht_state t2 \<in> {HelperDraining, HelperDecode} then HelperFetch else ht_state t2\<rparr>))"

definition HT_advanceFrontend :: "u32 \<Rightarrow> u32 \<Rightarrow> helper_thread \<Rightarrow> u32 \<times> helper_thread" where
  "HT_advanceFrontend fetch_width decode_width t =
     (let t0 = t\<lparr>ht_lastFetched := 0, ht_lastDecoded := 0\<rparr> in
      if ht_state t \<in> {HelperIdle, HelperDraining} then (0, t0)
      else
        (let buffer_space = of_nat (FrontEndBufferCapacity - length (ht_frontendBuffer t)) :: u32;
             fetched = (if ht_fetchRemaining t \<noteq> 0
                        then min fetch_width (min (ht_fetchRemaining t) buffer_space) else 0);
             t1 = t0\<lparr>ht_fetchRemaining := ht_fetchRemaining t - fetched,
                     ht_decodeRemaining := ht_decodeRemaining t + fetched, ht_lastFetched := fetched\<rparr>;
             decoded = min decode_width (ht_decodeRemaining t1);
             t2 = t1\<lparr>ht_decodeRemaining := ht_decodeRemaining t1 - decoded,
                     ht_readyUops := ht_readyUops t1 + decoded, ht_lastDecoded := decoded\<rparr>
         in (fetched + decoded,
             t2\<lparr>ht_state :=
                  if ht_fetchRemaining t2 = 0 \<and> ht_decodeRemaining t2 = 0 \<and> ht_readyUops t2 = 0 \<and> ht_outstanding t2 = 0
                  then HelperIdle
                  else if ht_readyUops t2 \<noteq> 0 then HelperRunning
                  else if ht_fetchRemaining t2 \<noteq> 0 then HelperFetch else HelperDecode\<rparr>)))"

definition HT_frontendFetched :: "addr \<Rightarrow> tick \<Rightarrow> helper_thread \<Rightarrow> helper_thread" where
  "HT_frontendFetched pc now t =
     (if length (ht_frontendBuffer t) \<ge> FrontEndBufferCapacity then t
      else t\<lparr>ht_frontendBuffer := ht_frontendBuffer t @
             [\<lparr>fe_pc = pc, fe_state = FetchPending, fe_fetchTick = now, fe_decodeTick = 0\<rparr>]\<rparr>)"

definition fe_done :: "frontend_entry \<Rightarrow> bool" where
  "fe_done e \<longleftrightarrow> fe_state e = FrontReady \<or> fe_state e = Fault"

text \<open>The first entry of the PC that is not decoded yet.\<close>

fun decode_first :: "addr \<Rightarrow> bool \<Rightarrow> tick \<Rightarrow> frontend_entry list \<Rightarrow> frontend_entry list" where
  "decode_first pc fault now [] = []"
| "decode_first pc fault now (e # es) =
     (if fe_pc e \<noteq> pc \<or> fe_done e then e # decode_first pc fault now es
      else e\<lparr>fe_state := if fault then Fault else FrontReady, fe_decodeTick := now\<rparr> # es)"

definition HT_frontendDecoded :: "addr \<Rightarrow> bool \<Rightarrow> tick \<Rightarrow> helper_thread \<Rightarrow> helper_thread" where
  "HT_frontendDecoded pc fault now t = t\<lparr>ht_frontendBuffer := decode_first pc fault now (ht_frontendBuffer t)\<rparr>"

fun erase_first :: "('a \<Rightarrow> bool) \<Rightarrow> 'a list \<Rightarrow> 'a list" where
  "erase_first P [] = []"
| "erase_first P (x # xs) = (if P x then xs else x # erase_first P xs)"

definition HT_retireFrontend :: "addr \<Rightarrow> helper_thread \<Rightarrow> helper_thread" where
  "HT_retireFrontend pc t =
     t\<lparr>ht_frontendBuffer := erase_first (\<lambda>e. fe_pc e = pc \<and> fe_done e) (ht_frontendBuffer t)\<rparr>"

definition HT_advanceCompute :: "u32 \<Rightarrow> u32 \<Rightarrow> u32 \<Rightarrow> helper_thread \<Rightarrow> u32 \<times> helper_thread" where
  "HT_advanceCompute alu_width shift_width multiply_width t =
     (if ht_state t \<in> {HelperIdle, HelperDraining} then (0, t)
      else
        (let alu = min alu_width (ht_aluRemaining t);
             shift = min shift_width (ht_shiftRemaining t);
             multiply = min multiply_width (ht_multiplyRemaining t)
         in (alu + shift + multiply,
             t\<lparr>ht_aluRemaining := ht_aluRemaining t - alu, ht_shiftRemaining := ht_shiftRemaining t - shift,
               ht_multiplyRemaining := ht_multiplyRemaining t - multiply\<rparr>)))"

definition HT_computePending :: "helper_thread \<Rightarrow> bool" where
  "HT_computePending t \<longleftrightarrow> ht_aluRemaining t \<noteq> 0 \<or> ht_shiftRemaining t \<noteq> 0 \<or> ht_multiplyRemaining t \<noteq> 0 \<or>
     ht_issueQueue t \<noteq> [] \<or> ht_replayGenerations t \<noteq> [] \<or> ht_replayLanes t \<noteq> []"

section \<open>Lanes\<close>

text \<open>The current group admits lanes that arrive at its PC.\<close>

definition join_group :: "addr \<Rightarrow> nat \<Rightarrow> replay_reconvergence \<Rightarrow> replay_reconvergence" where
  "join_group pc lane r =
     (if pc = 0 then r
      else
        (let r1 = (if \<not> rr_currentValid r
                   then r\<lparr>rr_currentPC := pc, rr_currentMask := empty_mask, rr_currentValid := True\<rparr> else r)
         in if rr_currentPC r1 = pc then r1\<lparr>rr_currentMask := set_lane lane (rr_currentMask r1)\<rparr> else r1))"

definition wake_uop :: "helper_thread \<Rightarrow> nat \<times> helper_thread" where
  "wake_uop t = (if ht_readyUops t = 0 then (1, t\<lparr>ht_readyUops := 1, ht_state := HelperRunning\<rparr>) else (0, t))"

definition new_lane :: "replay_template \<Rightarrow> nat \<Rightarrow> nat \<Rightarrow> sender_state \<Rightarrow> reg_val \<Rightarrow> replay_lane" where
  "new_lane replay p f sender source_value =
     \<lparr>rl_program = p, rl_helperRegs = f,
      rl_regs = ((rt_initialRegs replay)(0 := 0))(nat (rt_triggerDestination replay) := source_value),
      rl_readyCycle = (\<lambda>r. 0), rl_predicate = sn_predicate sender, rl_relations = sn_relations sender,
      rl_lane = sn_lane sender, rl_tid = sn_tid sender, rl_triggerPC = rt_triggerPC replay,
      rl_stridePC = (if rt_stridePC replay \<noteq> 0 then rt_stridePC replay else rt_triggerPC replay),
      rl_loopControlPC = rt_loopControlPC replay, rl_finalLoadPC = rt_finalLoadPC replay,
      rl_continuePastFLR = rt_continuePastFLR replay, rl_uopIndex = 1, rl_lanePC = up_pc (rt_uops replay 1),
      rl_reconvergenceBlocked = False, rl_simtPath = 0, rl_simtDivergent = False,
      rl_termination = NoTermination, rl_helperUops = 0, rl_nested = sn_nested sender, rl_active = True\<rparr>"

definition add_lane :: "replay_lane \<Rightarrow> helper_thread \<Rightarrow> helper_thread" where
  "add_lane l t =
     (let r = (case ht_reconvergence t (rl_helperRegs l) of None \<Rightarrow> new_reconvergence | Some r \<Rightarrow> r)
      in t\<lparr>ht_reconvergence := (ht_reconvergence t)(rl_helperRegs l \<mapsto> join_group (rl_lanePC l) (rl_lane l) r),
           ht_replayLanes := ht_replayLanes t @ [l]\<rparr>)"

text \<open>The result is whether the lane was taken, how many uops became ready, the helper and the files.\<close>

definition HT_enqueueReplayLane :: "programs \<Rightarrow> sender_state \<Rightarrow> reg_val \<Rightarrow> helper_thread \<Rightarrow> helper_files \<Rightarrow>
    bool \<times> nat \<times> helper_thread \<times> helper_files" where
  "HT_enqueueReplayLane programs sender source_value t fs =
     (case (sn_replay sender, sn_helperRegs sender) of
        (Some p, Some f) \<Rightarrow>
          (let dest = rt_triggerDestination (programs p) in
           if rt_count (programs p) \<le> 1 \<or> dest < 0 \<or> dest \<ge> int HR_NumArchitecturalRegs then (False, 0, t, fs)
           else
             (let (became_ready, t1) = wake_uop (add_lane (new_lane (programs p) p f sender source_value) t)
              in (True, became_ready, t1, HF_update f (HR_write (nat dest) (sn_lane sender) source_value 0) fs)))
      | _ \<Rightarrow> (False, 0, t, fs))"

text \<open>A lane parked at a load: its PC is zero and its index is that of the load.\<close>

definition parked_at :: "programs \<Rightarrow> nat \<Rightarrow> nat \<Rightarrow> nat \<Rightarrow> addr \<Rightarrow> replay_lane \<Rightarrow> bool" where
  "parked_at programs p f lane load_pc l \<longleftrightarrow>
     rl_active l \<and> rl_helperRegs l = f \<and> rl_program l = p \<and> rl_lane l = lane \<and> rl_lanePC l = 0 \<and>
     rl_uopIndex l < rt_count (programs p) \<and> up_pc (rt_uops (programs p) (rl_uopIndex l)) = load_pc"

definition resume_lane :: "replay_template \<Rightarrow> reg_val \<Rightarrow> replay_lane \<Rightarrow> replay_lane" where
  "resume_lane prog value l =
     (let uop = rt_uops prog (rl_uopIndex l); dest = up_destination uop;
          l1 = (if 0 \<le> dest \<and> dest < int HR_NumArchitecturalRegs
                then l\<lparr>rl_regs := (rl_regs l)(nat dest := value), rl_readyCycle := (rl_readyCycle l)(nat dest := 0)\<rparr>
                else l);
          next_index = rl_uopIndex l + 1;
          pc = (if next_index < rt_count prog then up_pc (rt_uops prog next_index) else 0);
          l2 = l1\<lparr>rl_helperUops := rl_helperUops l1 + 1, rl_lanePC := pc,
                  rl_uopIndex := if next_index < rt_count prog then next_index else rt_count prog\<rparr>
      in if pc = 0 then l2\<lparr>rl_active := False, rl_termination := External\<rparr> else l2)"

fun update_first :: "('a \<Rightarrow> bool) \<Rightarrow> ('a \<Rightarrow> 'a) \<Rightarrow> 'a list \<Rightarrow> 'a list" where
  "update_first P f [] = []"
| "update_first P f (x # xs) = (if P x then f x # xs else x # update_first P f xs)"

definition HT_resumeDependentLane :: "programs \<Rightarrow> sender_state \<Rightarrow> addr \<Rightarrow> reg_val \<Rightarrow> helper_thread \<Rightarrow> helper_files \<Rightarrow>
    bool \<times> nat \<times> helper_thread \<times> helper_files" where
  "HT_resumeDependentLane programs sender load_pc value t fs =
     (case (sn_replay sender, sn_helperRegs sender) of
        (Some p, Some f) \<Rightarrow>
          (let parked = parked_at programs p f (sn_lane sender) load_pc in
           if load_pc = 0 then (False, 0, t, fs)
           else (case List.find parked (ht_replayLanes t) of
                   None \<Rightarrow> (False, 0, t, fs)
                 | Some l \<Rightarrow>
                     (let dest = up_destination (rt_uops (programs p) (rl_uopIndex l));
                          fs1 = (if 0 \<le> dest \<and> dest < int HR_NumArchitecturalRegs
                                 then HF_update f (HR_write (nat dest) (rl_lane l) value 0) fs else fs);
                          t1 = t\<lparr>ht_replayLanes := update_first parked (resume_lane (programs p) value) (ht_replayLanes t)\<rparr>;
                          (became_ready, t2) = wake_uop t1
                      in (True, became_ready, t2, fs1))))
      | _ \<Rightarrow> (False, 0, t, fs))"

section \<open>Vector copies in flight\<close>

definition or_mask :: "lane_mask \<Rightarrow> lane_mask \<Rightarrow> lane_mask" where
  "or_mask a b = map2 (OR) a b"

definition and_not_mask :: "lane_mask \<Rightarrow> lane_mask \<Rightarrow> lane_mask" where
  "and_not_mask a b = map2 (\<lambda>x y. x AND NOT y) a b"

definition any_lane :: "lane_mask \<Rightarrow> bool" where
  "any_lane m \<longleftrightarrow> m ! 0 \<noteq> 0 \<or> m ! 1 \<noteq> 0"

definition retire_copy :: "dyn_uop \<Rightarrow> vir_copy \<Rightarrow> vir_copy" where
  "retire_copy d c =
     c\<lparr>vc_issued := False, vc_executed := True,
       vc_executedMask := or_mask (vc_executedMask c) (du_activeMask d),
       vc_completedMask := or_mask (vc_completedMask c) (du_activeMask d),
       vc_issuedMask := and_not_mask (vc_issuedMask c) (du_activeMask d),
       vc_deadSource0Mask := or_mask (vc_deadSource0Mask c) (du_source0DeadMask d),
       vc_deadSource1Mask := or_mask (vc_deadSource1Mask c) (du_source1DeadMask d),
       vc_deadSourceMask := or_mask (vc_deadSourceMask c) (or_mask (du_source0DeadMask d) (du_source1DeadMask d)),
       vc_inFlight := if vc_inFlight c \<noteq> 0 then vc_inFlight c - 1 else vc_inFlight c,
       vc_deadSource := any_lane (du_source0DeadMask d) \<or> any_lane (du_source1DeadMask d)\<rparr>"

text \<open>
  Retirement goes through the buffer in order. A uop whose time has come gives back one use of each
  source name it took; the check of the code is \<open>HR_conservationValid\<close> of its register file.
\<close>

definition release_sources :: "dyn_uop \<Rightarrow> helper_files \<Rightarrow> helper_files" where
  "release_sources d =
     HF_update (du_helperRegs d) (\<lambda>h. fold HR_releasePhysical (du_source1Physical d) (fold HR_releasePhysical (du_source0Physical d) h))"

fun retire_loop :: "tick \<Rightarrow> dyn_uop list \<Rightarrow> (nat \<Rightarrow> vir_copy) \<Rightarrow> helper_files \<Rightarrow>
    nat \<times> dyn_uop list \<times> (nat \<Rightarrow> vir_copy) \<times> helper_files" where
  "retire_loop now [] copies fs = (0, [], copies, fs)"
| "retire_loop now (d # ds) copies fs =
     (if du_state d = Issued \<and> du_completeCycle d \<le> now
      then (let (n, ds', copies', fs') =
                  retire_loop now ds (copies(du_copy d := retire_copy d (copies (du_copy d)))) (release_sources d fs)
            in (n + 1, ds', copies', fs'))
      else (let (n, ds', copies', fs') = retire_loop now ds copies fs in (n, d # ds', copies', fs')))"

definition HT_retireCompletedVIR :: "tick \<Rightarrow> helper_thread \<Rightarrow> helper_files \<Rightarrow> nat \<times> helper_thread \<times> helper_files" where
  "HT_retireCompletedVIR now t fs =
     (let (n, buffer, copies, fs') = retire_loop now (ht_virBuffer t) (ht_virCopies t) fs
      in (n, t\<lparr>ht_virBuffer := buffer, ht_virCopies := copies\<rparr>, fs'))"

text \<open>The lanes of a pending uop whose source name is among the dead ones.\<close>

definition dead_lanes :: "int list \<Rightarrow> nat list \<Rightarrow> int list \<Rightarrow> lane_mask \<Rightarrow> lane_mask" where
  "dead_lanes old_physical lanes sources m =
     fold (\<lambda>(lane, phys) m. if lane < HR_MaxLanes \<and> phys \<ge> 0 \<and> phys \<in> set old_physical then set_lane lane m else m)
       (zip lanes sources) m"

definition mark_dead_sources :: "int list \<Rightarrow> dyn_uop \<Rightarrow> dyn_uop" where
  "mark_dead_sources old_physical d =
     (let count = min (length (du_lanes d)) (length (du_source0Physical d)); lanes = take count (du_lanes d)
      in d\<lparr>du_source0DeadMask := dead_lanes old_physical lanes (du_source0Physical d) (du_source0DeadMask d),
           du_source1DeadMask := dead_lanes old_physical lanes (du_source1Physical d) (du_source1DeadMask d)\<rparr>)"

definition HT_markDeadSources :: "nat \<Rightarrow> int list \<Rightarrow> helper_thread \<Rightarrow> helper_thread" where
  "HT_markDeadSources regs old_physical t =
     t\<lparr>ht_virBuffer := map (\<lambda>d. if du_helperRegs d \<noteq> regs then d else mark_dead_sources old_physical d) (ht_virBuffer t)\<rparr>"

section \<open>Issue queue\<close>

definition shift_semantics :: "semantic list" where
  "shift_semantics = [ShiftLeft, ShiftRightLogical, ShiftRightArithmetic, ShiftLeftImmediate, ShiftLeftWordImmediate,
     ShiftRightLogicalImmediate, ShiftRightArithmeticImmediate, ShiftRightLogicalWordImmediate,
     ShiftRightArithmeticWordImmediate]"

definition add_semantics :: "semantic list" where
  "add_semantics = [Add, Sub, AddWord, SubWord, AddImmediate, AddWordImmediate, LoadAddress, LoadByteSigned,
     LoadByteUnsigned, LoadHalfSigned, LoadHalfUnsigned, LoadWordSigned, LoadWordUnsigned, LoadDouble]"

definition compute_kind_of :: "semantic \<Rightarrow> compute_kind" where
  "compute_kind_of s =
     (if s \<in> set shift_semantics then ShiftKind
      else if s = Multiply \<or> s = MultiplyWord then MultiplyKind
      else if s \<in> set add_semantics then AddKind else AluKind)"

definition queue_entry :: "uop \<Rightarrow> issue_entry" where
  "queue_entry uop =
     \<lparr>ie_kind = compute_kind_of (up_semantic uop), ie_source0 = up_source0 uop, ie_source1 = up_source1 uop,
      ie_destination = up_destination uop, ie_pc = up_pc uop,
      ie_nextPC = if up_control uop then (if up_branchTaken uop then up_branchTargetPC uop else up_fallthroughPC uop)
                  else up_pc uop + 4,
      ie_readyTick = 0\<rparr>"

definition scalar_entry :: "compute_kind \<Rightarrow> addr \<Rightarrow> issue_entry" where
  "scalar_entry kind pc =
     \<lparr>ie_kind = kind, ie_source0 = 0, ie_source1 = - 1, ie_destination = 0, ie_pc = pc, ie_nextPC = pc + 4, ie_readyTick = 0\<rparr>"

definition queued_uop :: "uop \<Rightarrow> bool" where
  "queued_uop uop \<longleftrightarrow> \<not> (up_load uop \<and> up_semantic uop \<noteq> LoadAddress)"

text \<open>One round of the loop, or \<open>None\<close> at its end.\<close>

definition refill_step :: "programs \<Rightarrow> helper_thread \<Rightarrow> helper_thread option" where
  "refill_step programs t =
     (if length (ht_issueQueue t) \<ge> IssueQueueCapacity then None
      else
        (case ht_replayGenerations t of
           g # gs \<Rightarrow>
             (case rg_program g of
                None \<Rightarrow> Some (t\<lparr>ht_replayGenerations := gs\<rparr>)
              | Some p \<Rightarrow>
                  if rg_workUnits g = 0 then Some (t\<lparr>ht_replayGenerations := gs\<rparr>)
                  else if rg_uop g \<ge> rt_count (programs p)
                  then Some (t\<lparr>ht_replayGenerations :=
                              if rg_unit g + 1 \<ge> rg_workUnits g then gs
                              else g\<lparr>rg_uop := 0, rg_unit := rg_unit g + 1\<rparr> # gs\<rparr>)
                  else
                    (let uop = rt_uops (programs p) (rg_uop g);
                         t1 = t\<lparr>ht_replayGenerations := g\<lparr>rg_uop := rg_uop g + 1\<rparr> # gs, ht_helperPC := up_pc uop\<rparr>
                     in Some (if \<not> queued_uop uop then t1
                              else t1\<lparr>ht_issueQueue := ht_issueQueue t1 @ [queue_entry uop]\<rparr>)))
         | [] \<Rightarrow>
             if ht_aluRemaining t \<noteq> 0
             then Some (t\<lparr>ht_aluRemaining := ht_aluRemaining t - 1,
                          ht_issueQueue := ht_issueQueue t @ [scalar_entry AluKind (ht_helperPC t)]\<rparr>)
             else if ht_shiftRemaining t \<noteq> 0
             then Some (t\<lparr>ht_shiftRemaining := ht_shiftRemaining t - 1,
                          ht_issueQueue := ht_issueQueue t @ [scalar_entry ShiftKind (ht_helperPC t)]\<rparr>)
             else if ht_multiplyRemaining t \<noteq> 0
             then Some (t\<lparr>ht_multiplyRemaining := ht_multiplyRemaining t - 1,
                          ht_issueQueue := ht_issueQueue t @ [scalar_entry MultiplyKind (ht_helperPC t)]\<rparr>)
             else None))"

definition generation_weight :: "programs \<Rightarrow> replay_generation \<Rightarrow> nat" where
  "generation_weight programs g =
     (let n = (case rg_program g of None \<Rightarrow> 0 | Some p \<Rightarrow> rt_count (programs p))
      in (rg_workUnits g - rg_unit g) * (n + 2) + (n - rg_uop g) + 1)"

definition refill_weight :: "programs \<Rightarrow> helper_thread \<Rightarrow> nat" where
  "refill_weight programs t =
     sum_list (map (generation_weight programs) (ht_replayGenerations t)) +
     unat (ht_aluRemaining t) + unat (ht_shiftRemaining t) + unat (ht_multiplyRemaining t)"

lemma unat_pred: "w \<noteq> 0 \<Longrightarrow> unat (w - 1) < unat w" for w :: "'a::len word"
  by (simp add: unat_minus_one word_neq_0_conv unat_gt_0)

lemma generation_next:
  assumes "rg_program g = Some p" "rt_count (programs p) \<le> rg_uop g" "rg_unit g + 1 < rg_workUnits g"
  shows "generation_weight programs (g\<lparr>rg_uop := 0, rg_unit := rg_unit g + 1\<rparr>) < generation_weight programs g"
proof -
  obtain k where "rg_workUnits g = rg_unit g + 2 + k" using assms(3) by (metis add.assoc add.commute less_natE one_add_one plus_1_eq_Suc add_Suc_right)
  then show ?thesis using assms by (simp add: generation_weight_def Let_def)
qed

lemma refill_step_weight: "refill_step programs t = Some t' \<Longrightarrow> refill_weight programs t' < refill_weight programs t"
proof (cases "ht_replayGenerations t")
  case Nil
  assume "refill_step programs t = Some t'"
  then show ?thesis using Nil by (auto simp: refill_step_def refill_weight_def unat_pred split: if_splits)
next
  case (Cons g gs)
  assume s: "refill_step programs t = Some t'"
  have w: "0 < generation_weight programs g" by (simp add: generation_weight_def Let_def)
  have u: "rg_program g = Some p \<Longrightarrow> rg_uop g < rt_count (programs p) \<Longrightarrow>
      generation_weight programs (g\<lparr>rg_uop := Suc (rg_uop g)\<rparr>) < generation_weight programs g" for p
    by (simp add: generation_weight_def Let_def)
  show ?thesis using s Cons w u generation_next
    by (auto simp: refill_step_def refill_weight_def Let_def split: if_splits option.splits)
qed

function refill_loop :: "programs \<Rightarrow> helper_thread \<Rightarrow> helper_thread" where
  "refill_loop programs t = (case refill_step programs t of None \<Rightarrow> t | Some t' \<Rightarrow> refill_loop programs t')"
  by pat_completeness auto
termination
  by (relation "measure (\<lambda>(programs, t). refill_weight programs t)") (auto simp: refill_step_weight)

declare refill_loop.simps [simp del]

definition HT_refillIssueQueue :: "programs \<Rightarrow> helper_thread \<Rightarrow> helper_thread" where
  "HT_refillIssueQueue programs t = (if \<not> ht_vectorChunkModel t then t else refill_loop programs t)"

definition scoreboard_ready :: "helper_thread \<Rightarrow> tick \<Rightarrow> int \<Rightarrow> bool" where
  "scoreboard_ready t now r \<longleftrightarrow> r < 0 \<or> r \<ge> int ScoreboardRegisters \<or> ht_readyCycle t (nat r) \<le> now"

definition HT_issueQueueReady :: "tick \<Rightarrow> helper_thread \<Rightarrow> bool" where
  "HT_issueQueueReady now t =
     (case ht_issueQueue t of
        [] \<Rightarrow> False
      | entry # _ \<Rightarrow> ht_vectorChunkModel t \<and> ie_readyTick entry \<le> now \<and>
          scoreboard_ready t now (ie_source0 entry) \<and> scoreboard_ready t now (ie_source1 entry))"

definition HT_issueQueueScoreboardBlocked :: "tick \<Rightarrow> helper_thread \<Rightarrow> bool" where
  "HT_issueQueueScoreboardBlocked now t =
     (case ht_issueQueue t of
        [] \<Rightarrow> False
      | entry # _ \<Rightarrow> \<not> scoreboard_ready t now (ie_source0 entry) \<or> \<not> scoreboard_ready t now (ie_source1 entry))"

definition HT_canIssue :: "bool \<Rightarrow> helper_thread \<Rightarrow> bool" where
  "HT_canIssue source_request t \<longleftrightarrow> ht_state t = HelperRunning \<and> ht_readyUops t \<noteq> 0 \<and> ht_issuedUops t < ht_maxUops t \<and>
     (source_request \<or> \<not> HT_computePending t)"

definition HT_wakeForMemoryRequest :: "helper_thread \<Rightarrow> nat \<times> helper_thread" where
  "HT_wakeForMemoryRequest t =
     (let t1 = (if ht_state t \<in> {HelperIdle, HelperDraining} then t\<lparr>ht_state := HelperRunning\<rparr> else t);
          (became_ready, t2) = (if ht_readyUops t1 = 0 then (1, t1\<lparr>ht_readyUops := 1\<rparr>) else (0, t1));
          t3 = (if ht_issuedUops t2 \<ge> ht_maxUops t2 then t2\<lparr>ht_maxUops := ht_issuedUops t2 + 1\<rparr> else t2)
      in (became_ready, t3))"

text \<open>The asserted conditions are the domain of the three issue functions.\<close>

definition HT_issueCompute :: "tick \<Rightarrow> helper_thread \<Rightarrow> helper_thread option" where
  "HT_issueCompute ready_tick t =
     (case ht_issueQueue t of
        [] \<Rightarrow> None
      | entry # rest \<Rightarrow>
          if ht_readyUops t = 0 \<or> \<not> ht_vectorChunkModel t then None
          else
            (let t1 = HT_retireFrontend (ie_pc entry) (t\<lparr>ht_issueQueue := rest\<rparr>);
                 t2 = t1\<lparr>ht_issuedUops := ht_issuedUops t1 + 1, ht_readyUops := ht_readyUops t1 - 1,
                         ht_readyCycle := if 0 \<le> ie_destination entry \<and> ie_destination entry < int ScoreboardRegisters
                           then (ht_readyCycle t1)(nat (ie_destination entry) := ready_tick) else ht_readyCycle t1,
                         ht_helperPC := ie_nextPC entry, ht_computeReadyTick := max (ht_computeReadyTick t1) ready_tick\<rparr>
             in Some (if ht_issuedUops t2 \<ge> ht_maxUops t2 \<and> ht_readyUops t2 = 0 \<and> ht_fetchRemaining t2 = 0 \<and>
                         ht_decodeRemaining t2 = 0 \<and> ht_outstanding t2 = 0 \<and> \<not> HT_computePending t2
                      then t2\<lparr>ht_state := HelperDraining\<rparr> else t2)))"

definition HT_issueReplayChunk :: "tick \<Rightarrow> helper_thread \<Rightarrow> helper_thread option" where
  "HT_issueReplayChunk ready_tick t =
     (if \<not> ht_vectorChunkModel t \<or> ht_readyUops t = 0 then None
      else
        (let t1 = t\<lparr>ht_issuedUops := ht_issuedUops t + 1, ht_readyUops := ht_readyUops t - 1,
                    ht_computeReadyTick := max (ht_computeReadyTick t) ready_tick\<rparr>
         in Some (if ht_issuedUops t1 \<ge> ht_maxUops t1 \<and> ht_readyUops t1 = 0 \<and> ht_fetchRemaining t1 = 0 \<and>
                     ht_decodeRemaining t1 = 0 \<and> ht_outstanding t1 = 0 \<and> ht_replayLanes t1 = []
                  then t1\<lparr>ht_state := HelperDraining\<rparr> else t1)))"

definition HT_refillComputeReady :: "programs \<Rightarrow> helper_thread \<Rightarrow> nat \<times> helper_thread" where
  "HT_refillComputeReady programs t =
     (let t1 = HT_refillIssueQueue programs t
      in if \<not> HT_computePending t1 \<or> ht_readyUops t1 \<noteq> 0 \<or> ht_fetchRemaining t1 \<noteq> 0 \<or> ht_decodeRemaining t1 \<noteq> 0
         then (0, t1) else (1, t1\<lparr>ht_state := HelperRunning, ht_readyUops := 1\<rparr>))"

definition HT_computeComplete :: "tick \<Rightarrow> helper_thread \<Rightarrow> bool" where
  "HT_computeComplete now t \<longleftrightarrow> ht_computeReadyTick t \<le> now"

definition HT_issue :: "helper_thread \<Rightarrow> helper_thread option" where
  "HT_issue t =
     (if ht_readyUops t = 0 then None
      else
        (let t1 = t\<lparr>ht_issuedUops := ht_issuedUops t + 1, ht_readyUops := ht_readyUops t - 1,
                    ht_outstanding := ht_outstanding t + 1\<rparr>
         in Some (if ht_issuedUops t1 \<ge> ht_maxUops t1 \<and> ht_readyUops t1 = 0 \<and> ht_fetchRemaining t1 = 0 \<and>
                     ht_decodeRemaining t1 = 0
                  then t1\<lparr>ht_state := HelperDraining\<rparr> else t1)))"

definition HT_complete :: "helper_thread \<Rightarrow> helper_thread" where
  "HT_complete t =
     (let t1 = (if ht_outstanding t \<noteq> 0 then t\<lparr>ht_outstanding := ht_outstanding t - 1\<rparr> else t)
      in if ht_state t1 = HelperDraining \<and> ht_outstanding t1 = 0 then t1\<lparr>ht_state := HelperIdle\<rparr> else t1)"

definition HT_active :: "helper_thread \<Rightarrow> bool" where
  "HT_active t \<longleftrightarrow> ht_state t \<noteq> HelperIdle"

end
