(* ===== verification/DVR_Replay.thy ===== *)
theory DVR_Replay
  imports DVR_Helper
begin

unbundle bit_operations_syntax

text \<open>
  \<open>CPU::issueDVRReplayLanes\<close> (\<open>src/code/gem5-runahead-dev-pre/src/cpu/o3/cpu.cc\<close> 3809-4988): one issue
  attempt of the helper's vector scheduler. It picks the reconvergence state to serve, pops the
  frames whose path has ended, forms a group of up to eight lanes at one PC, evaluates a branch for
  the whole current group, renames the destination, executes the operation for the group and turns
  tainted loads into prefetch requests.

  The lanes are a list and a lane pointer is an index into it. Statistics and traces are left out.
  What the function asks of other parts is in the environment: whether the instruction at a PC is
  decoded (\<open>fetchDecodeDVRUop\<close>), whether a functional unit is granted and with which latency
  (\<open>tryIssueDVRHelperFU\<close>), and the address relations trained so far.
\<close>

section \<open>Data\<close>

record address_relation =
  ar_hasPrevious :: bool
  ar_trained :: bool
  ar_previousValue :: reg_val
  ar_previousAddress :: addr
  ar_scale :: i64
  ar_offset :: i64
  ar_stableMask :: reg_val
  ar_pattern :: reg_val
  ar_minAddress :: addr
  ar_maxAddress :: addr
  ar_samples :: u32

record prefetch_address =
  pa_address :: addr
  pa_pc :: addr
  pa_tid :: nat
  pa_readyTick :: tick
  pa_source :: bool
  pa_oracle :: bool
  pa_nested :: bool
  pa_relations :: relation_set
  pa_replay :: "nat option"
  pa_helperRegs :: "nat option"
  pa_predicate :: "nat option"
  pa_lane :: nat

record replay_env =
  en_programs :: programs
  en_maxUops :: nat
  en_now :: tick
  en_clockPeriod :: tick
  en_vectorChunkModel :: bool
  en_vectorUnlimitedFU :: bool
  en_issueInterval :: nat
  en_dependentPrefetch :: bool
  en_cacheLineSize :: addr
  en_decoded :: "addr \<Rightarrow> bool"
  en_fu :: "op_class \<Rightarrow> nat option"
  en_relations :: "addr \<Rightarrow> addr \<Rightarrow> address_relation option"

record replay_cpu =
  cs_thread :: helper_thread
  cs_files :: helper_files
  cs_nextIssueTick :: tick
  cs_queue :: "prefetch_address list"
  cs_queuedAddresses :: "addr set"
  cs_queuedDependentLines :: "addr set"
  cs_outstandingLines :: "addr set"
  cs_completedLines :: "addr set"
  cs_alternateLines :: "addr set"

definition DvrMaxQueuedPrefetches :: nat where
  "DvrMaxQueuedPrefetches = 256"

definition dvrPrefetchLine :: "replay_env \<Rightarrow> addr \<Rightarrow> addr" where
  "dvrPrefetchLine e address = address AND NOT (en_cacheLineSize e - 1)"

text \<open>\<open>std::numeric_limits<unsigned>::max()\<close>, the index of a PC that is not in the program.\<close>

definition NoIndex :: nat where
  "NoIndex = 4294967295"

definition findPC :: "replay_template \<Rightarrow> addr \<Rightarrow> nat option" where
  "findPC prog pc = (if pc = 0 then None else List.find (\<lambda>i. up_pc (rt_uops prog i) = pc) [1..<rt_count prog])"

definition index_of :: "replay_template \<Rightarrow> addr \<Rightarrow> nat" where
  "index_of prog pc = (case findPC prog pc of None \<Rightarrow> NoIndex | Some i \<Rightarrow> i)"

definition lane_prog :: "replay_env \<Rightarrow> replay_lane \<Rightarrow> replay_template" where
  "lane_prog e l = en_programs e (rl_program l)"

definition lane_uop :: "replay_env \<Rightarrow> replay_lane \<Rightarrow> uop" where
  "lane_uop e l = rt_uops (lane_prog e l) (rl_uopIndex l)"

definition in_program :: "replay_env \<Rightarrow> replay_lane \<Rightarrow> bool" where
  "in_program e l \<longleftrightarrow> rl_uopIndex l < rt_count (lane_prog e l)"

text \<open>A source operand of a lane: its value, and whether it is ready.\<close>

definition lane_source :: "helper_files \<Rightarrow> replay_lane \<Rightarrow> int \<Rightarrow> reg_val" where
  "lane_source fs l r =
     (if 0 \<le> r \<and> r < int HR_NumArchitecturalRegs then HR_read (nat r) (rl_lane l) (HF_get (rl_helperRegs l) fs) else 0)"

definition source_ready :: "replay_env \<Rightarrow> helper_files \<Rightarrow> replay_lane \<Rightarrow> int \<Rightarrow> bool" where
  "source_ready e fs l r \<longleftrightarrow>
     r < 0 \<or> r \<ge> int HR_NumArchitecturalRegs \<or> HR_readyAt (nat r) (rl_lane l) (HF_get (rl_helperRegs l) fs) \<le> en_now e"

definition laneSourcesReady :: "replay_env \<Rightarrow> helper_files \<Rightarrow> replay_lane \<Rightarrow> bool" where
  "laneSourcesReady e fs l \<longleftrightarrow> in_program e l \<and> source_ready e fs l (up_source0 (lane_uop e l)) \<and>
     source_ready e fs l (up_source1 (lane_uop e l))"

definition reconvergence_of :: "nat \<Rightarrow> helper_thread \<Rightarrow> replay_reconvergence" where
  "reconvergence_of f t = (case ht_reconvergence t f of None \<Rightarrow> new_reconvergence | Some r \<Rightarrow> r)"

definition set_reconvergence :: "nat \<Rightarrow> replay_reconvergence \<Rightarrow> helper_thread \<Rightarrow> helper_thread" where
  "set_reconvergence f r t = t\<lparr>ht_reconvergence := (ht_reconvergence t)(f \<mapsto> r)\<rparr>"

section \<open>Groups and reconvergence\<close>

definition eligible :: "nat \<Rightarrow> replay_lane \<Rightarrow> bool" where
  "eligible f l \<longleftrightarrow> rl_active l \<and> rl_helperRegs l = f \<and> \<not> rl_reconvergenceBlocked l"

definition refreshCurrentGroup :: "replay_lane list \<Rightarrow> nat \<Rightarrow> replay_reconvergence \<Rightarrow> replay_reconvergence" where
  "refreshCurrentGroup lanes f r =
     (let preferred_pc = (if rr_currentValid r then rr_currentPC r else 0);
          kept = fold (\<lambda>l m. if eligible f l \<and> rl_lanePC l = preferred_pc \<and> test_lane (rr_currentMask r) (rl_lane l)
                             then set_lane (rl_lane l) m else m) lanes empty_mask
      in if preferred_pc \<noteq> 0 \<and> any_lane kept
         then r\<lparr>rr_currentPC := preferred_pc, rr_currentMask := kept, rr_currentValid := True\<rparr>
         else
           (case List.find (\<lambda>l. eligible f l \<and> rl_lanePC l \<noteq> 0) lanes of
              None \<Rightarrow> r\<lparr>rr_currentPC := 0, rr_currentMask := empty_mask, rr_currentValid := False\<rparr>
            | Some l0 \<Rightarrow>
                r\<lparr>rr_currentPC := rl_lanePC l0, rr_currentValid := True,
                  rr_currentMask := fold (\<lambda>l m. if eligible f l \<and> rl_lanePC l = rl_lanePC l0 then set_lane (rl_lane l) m else m)
                    lanes empty_mask\<rparr>))"

text \<open>The path on top of a frame has ended: a lane is at the join, or no lane of the path is left.\<close>

definition path_ended :: "replay_lane list \<Rightarrow> nat \<Rightarrow> replay_frame \<Rightarrow> bool" where
  "path_ended lanes f frame \<longleftrightarrow>
     list_ex (\<lambda>l. eligible f l \<and> rl_lanePC l = rf_reconvergencePC frame) lanes \<or>
     \<not> list_ex (\<lambda>l. eligible f l \<and> \<not> test_lane (rf_mask frame) (rl_lane l)) lanes"

definition select_context :: "replay_env \<Rightarrow> helper_thread \<Rightarrow> helper_files \<Rightarrow> nat option" where
  "select_context e t fs =
     (let lanes = ht_replayLanes t in
      case List.find (\<lambda>l. rl_active l \<and>
             (case rr_stack (reconvergence_of (rl_helperRegs l) t) of
                [] \<Rightarrow> False | frame # _ \<Rightarrow> path_ended lanes (rl_helperRegs l) frame)) lanes of
        Some l \<Rightarrow> Some (rl_helperRegs l)
      | None \<Rightarrow>
          map_option rl_helperRegs
            (List.find (\<lambda>l. rl_active l \<and> \<not> rl_reconvergenceBlocked l \<and> laneSourcesReady e fs l) lanes))"

definition pop_lane :: "nat \<Rightarrow> replay_frame \<Rightarrow> replay_lane \<Rightarrow> replay_lane" where
  "pop_lane f frame l =
     (if \<not> rl_active l \<or> rl_helperRegs l \<noteq> f then l
      else if test_lane (rf_mask frame) (rl_lane l)
      then l\<lparr>rl_reconvergenceBlocked := False, rl_lanePC := rf_pc frame,
             rl_simtPath := if rf_takenPath frame then 1 else 2, rl_simtDivergent := True\<rparr>
      else if rl_lanePC l = rf_reconvergencePC frame then l\<lparr>rl_reconvergenceBlocked := True\<rparr>
      else l)"

fun pop_frames :: "nat \<Rightarrow> replay_frame list \<Rightarrow> replay_lane list \<Rightarrow> replay_reconvergence \<Rightarrow>
    replay_lane list \<times> replay_reconvergence" where
  "pop_frames f [] lanes r = (lanes, r\<lparr>rr_stack := []\<rparr>)"
| "pop_frames f (frame # frames) lanes r =
     (if \<not> path_ended lanes f frame then (lanes, r\<lparr>rr_stack := frame # frames\<rparr>)
      else pop_frames f frames (map (pop_lane f frame) lanes)
             (r\<lparr>rr_currentPC := rf_pc frame, rr_currentMask := rf_mask frame, rr_currentValid := rf_pc frame \<noteq> 0\<rparr>))"

definition clear_path :: "nat \<Rightarrow> replay_lane \<Rightarrow> replay_lane" where
  "clear_path f l =
     (if eligible f l \<and> \<not> rl_continuePastFLR l then l\<lparr>rl_simtDivergent := False, rl_simtPath := 0\<rparr> else l)"

text \<open>The work on the chosen reconvergence state before a group is formed.\<close>

definition reconverge :: "nat \<Rightarrow> helper_thread \<Rightarrow> helper_thread" where
  "reconverge f t =
     (let r0 = refreshCurrentGroup (ht_replayLanes t) f (reconvergence_of f t);
          (lanes, r1) = pop_frames f (rr_stack r0) (ht_replayLanes t) r0
      in if rr_stack r1 = []
         then set_reconvergence f (r1\<lparr>rr_renamedDestinations := {}\<rparr>) (t\<lparr>ht_replayLanes := map (clear_path f) lanes\<rparr>)
         else set_reconvergence f r1 (t\<lparr>ht_replayLanes := lanes\<rparr>))"

definition inCurrentGroup :: "nat \<Rightarrow> replay_reconvergence \<Rightarrow> replay_lane \<Rightarrow> bool" where
  "inCurrentGroup f r l \<longleftrightarrow> rr_currentValid r \<and> eligible f l \<and> rl_lanePC l = rr_currentPC r \<and>
     test_lane (rr_currentMask r) (rl_lane l)"

section \<open>Forming a group\<close>

text \<open>Instructions without effect are skipped: unsupported, no control flow and no destination.\<close>

definition skipped :: "uop \<Rightarrow> bool" where
  "skipped u \<longleftrightarrow> up_semantic u = Unsupported \<and> \<not> up_control u \<and> up_intDestinations u = 0"

function skip_loop :: "replay_template \<Rightarrow> nat \<Rightarrow> nat \<Rightarrow> replay_lane \<Rightarrow> nat \<times> replay_lane" where
  "skip_loop prog max_uops i l =
     (if i \<ge> rt_count prog \<or> \<not> skipped (rt_uops prog i) then (i, l)
      else
        (let l1 = l\<lparr>rl_helperUops := rl_helperUops l + 1\<rparr> in
         if rl_helperUops l1 \<ge> max_uops \<or> i + 1 \<ge> rt_count prog then (i, l1\<lparr>rl_active := False\<rparr>)
         else skip_loop prog max_uops (i + 1) (l1\<lparr>rl_lanePC := up_pc (rt_uops prog (i + 1))\<rparr>)))"
  by pat_completeness auto
termination
  by (relation "measure (\<lambda>(prog, m, i, l). rt_count prog - i)") auto

declare skip_loop.simps [simp del]

text \<open>What the loop does to one lane before it can join, and whether it then may.\<close>

definition visit_lane :: "replay_env \<Rightarrow> nat option \<Rightarrow> helper_thread \<Rightarrow> replay_lane \<Rightarrow> bool \<times> replay_lane" where
  "visit_lane e context t l =
     (if \<not> rl_active l \<or> \<not> in_program e l then (False, l)
      else if rl_helperUops l \<ge> en_maxUops e then (False, l\<lparr>rl_active := False, rl_termination := Timeout\<rparr>)
      else
        (case context of
           None \<Rightarrow> (False, l)
         | Some f \<Rightarrow>
             if \<not> inCurrentGroup f (reconvergence_of f t) l then (False, l)
             else
               (case findPC (lane_prog e l) (rl_lanePC l) of
                  None \<Rightarrow> (False, l\<lparr>rl_active := False\<rparr>)
                | Some i \<Rightarrow>
                    (let (j, l1) = skip_loop (lane_prog e l) (en_maxUops e) i l
                     in if \<not> rl_active l1 then (False, l1) else (True, l1\<lparr>rl_uopIndex := j\<rparr>)))))"

definition joins :: "replay_env \<Rightarrow> helper_thread \<Rightarrow> helper_files \<Rightarrow> replay_lane option \<Rightarrow> replay_lane \<Rightarrow> bool" where
  "joins e t fs seed l \<longleftrightarrow> source_ready e fs l (up_source0 (lane_uop e l)) \<and> source_ready e fs l (up_source1 (lane_uop e l)) \<and>
     rl_lane l div LanesPerVIRCopy < VIRCopies \<and> \<not> vc_issued (ht_virCopies t (rl_lane l div LanesPerVIRCopy)) \<and>
     (case seed of
        None \<Rightarrow> True
      | Some s \<Rightarrow> rl_program l = rl_program s \<and> rl_helperRegs l = rl_helperRegs s \<and> rl_uopIndex l = rl_uopIndex s \<and>
          rl_lane l div LanesPerVIRCopy = rl_lane s div LanesPerVIRCopy \<and> up_pc (lane_uop e l) = up_pc (lane_uop e s))"

text \<open>The loop over the lanes; \<open>group\<close> holds indices, the seed first, and the loop ends at eight.\<close>

fun form_group :: "replay_env \<Rightarrow> nat option \<Rightarrow> helper_thread \<Rightarrow> helper_files \<Rightarrow> nat list \<Rightarrow> replay_lane list \<Rightarrow> nat list \<Rightarrow>
    replay_lane list \<times> nat list" where
  "form_group e context t fs [] lanes grp = (lanes, grp)"
| "form_group e context t fs (i # is) lanes grp =
     (let (visited, l) = visit_lane e context t (lanes ! i); lanes1 = lanes[i := l];
          seed = (case grp of [] \<Rightarrow> None | s # _ \<Rightarrow> Some (lanes1 ! s))
      in if visited \<and> joins e t fs seed l
         then (if length grp + 1 = LanesPerVIRCopy then (lanes1, grp @ [i])
               else form_group e context t fs is lanes1 (grp @ [i]))
         else form_group e context t fs is lanes1 grp)"

section \<open>Branches\<close>

text \<open>
  The outcome of a branch over the whole current group: the next PC by lane number, and the paths
  in the order of their first lane, each with its PC, direction and mask.
\<close>

record branch_outcome =
  bo_next :: "nat \<Rightarrow> addr option"
  bo_paths :: "(addr \<times> bool \<times> lane_mask) list"
  bo_selected :: nat

definition branch_peer :: "nat \<Rightarrow> replay_reconvergence \<Rightarrow> replay_lane \<Rightarrow> replay_lane \<Rightarrow> bool" where
  "branch_peer f r seed l \<longleftrightarrow> inCurrentGroup f r l \<and> rl_program l = rl_program seed \<and> rl_uopIndex l = rl_uopIndex seed"

definition branch_direction :: "replay_env \<Rightarrow> helper_files \<Rightarrow> replay_lane \<Rightarrow> bool option" where
  "branch_direction e fs l =
     (let u = lane_uop e l in
      if \<not> up_tainted u then Some (up_branchTaken u)
      else Uop_evaluateBranch u (lane_source fs l (up_source0 u)) (lane_source fs l (up_source1 u)))"

fun path_index :: "addr \<Rightarrow> (addr \<times> bool \<times> lane_mask) list \<Rightarrow> nat" where
  "path_index pc [] = 0"
| "path_index pc (p # ps) = (if fst p = pc then 0 else Suc (path_index pc ps))"

definition add_to_path :: "addr \<Rightarrow> bool \<Rightarrow> nat \<Rightarrow> (addr \<times> bool \<times> lane_mask) list \<Rightarrow> (addr \<times> bool \<times> lane_mask) list" where
  "add_to_path pc taken lane ps =
     (let i = path_index pc ps;
          ps1 = (if i = length ps \<and> length ps < 128 then ps @ [(pc, taken, empty_mask)] else ps)
      in if i < 128 then ps1[i := (case ps1 ! i of (q, d, m) \<Rightarrow> (q, d, set_lane lane m))] else ps1)"

definition evaluate_lane :: "replay_env \<Rightarrow> helper_files \<Rightarrow> nat \<Rightarrow> replay_reconvergence \<Rightarrow> replay_lane list \<Rightarrow> nat \<Rightarrow> nat \<Rightarrow>
    branch_outcome \<Rightarrow> branch_outcome" where
  "evaluate_lane e fs f r lanes seed i b =
     (let l = lanes ! i in
      if \<not> branch_peer f r (lanes ! seed) l \<or> \<not> laneSourcesReady e fs l then b
      else
        (case branch_direction e fs l of
           None \<Rightarrow> b
         | Some taken \<Rightarrow>
             (let pc = (if taken then up_branchTargetPC (lane_uop e l) else up_fallthroughPC (lane_uop e l))
              in b\<lparr>bo_next := (bo_next b)(rl_lane l \<mapsto> pc), bo_paths := add_to_path pc taken (rl_lane l) (bo_paths b),
                   bo_selected := if i = seed then path_index pc (bo_paths b) else bo_selected b\<rparr>)))"

definition evaluate_branch :: "replay_env \<Rightarrow> helper_files \<Rightarrow> nat \<Rightarrow> replay_reconvergence \<Rightarrow> replay_lane list \<Rightarrow> nat \<Rightarrow> branch_outcome" where
  "evaluate_branch e fs f r lanes seed =
     fold (evaluate_lane e fs f r lanes seed) [0..<length lanes] \<lparr>bo_next = (\<lambda>l. None), bo_paths = [], bo_selected = 0\<rparr>"

text \<open>No lane of the group waits for an operand, and there is one.\<close>

definition branch_admitted :: "replay_env \<Rightarrow> helper_files \<Rightarrow> nat \<Rightarrow> replay_reconvergence \<Rightarrow> replay_lane list \<Rightarrow> nat \<Rightarrow> bool" where
  "branch_admitted e fs f r lanes seed \<longleftrightarrow>
     list_ex (branch_peer f r (lanes ! seed)) lanes \<and>
     list_all (\<lambda>l. branch_peer f r (lanes ! seed) l \<longrightarrow> laneSourcesReady e fs l) lanes"

definition outcomes_complete :: "nat \<Rightarrow> replay_reconvergence \<Rightarrow> replay_lane list \<Rightarrow> nat \<Rightarrow> branch_outcome \<Rightarrow> bool" where
  "outcomes_complete f r lanes seed b \<longleftrightarrow>
     list_all (\<lambda>l. branch_peer f r (lanes ! seed) l \<longrightarrow> bo_next b (rl_lane l) \<noteq> None) lanes"

text \<open>The branch of one lane takes effect.\<close>

definition commit_lane :: "replay_env \<Rightarrow> uop \<Rightarrow> nat \<Rightarrow> addr \<Rightarrow> replay_lane \<Rightarrow> replay_lane" where
  "commit_lane e u paths next_pc l =
     (let l1 = l\<lparr>rl_lanePC := next_pc, rl_helperUops := rl_helperUops l + 1\<rparr>;
          loop_backedge = (up_branchTargetPC u \<noteq> 0 \<and> up_branchTargetPC u < up_pc u);
          at_lcr = (rl_continuePastFLR l \<and> rl_loopControlPC l \<noteq> 0 \<and> up_pc u = rl_loopControlPC l)
      in if next_pc = 0 then l1\<lparr>rl_active := False, rl_termination := External\<rparr>
         else if (next_pc = rl_stridePC l \<or> (rl_continuePastFLR l \<and> (loop_backedge \<or> at_lcr))) \<and>
                 (rl_simtDivergent l \<or> paths > 1 \<or> rl_continuePastFLR l)
         then l1\<lparr>rl_active := False, rl_termination := StridePC\<rparr>
         else (case findPC (lane_prog e l) next_pc of
                 None \<Rightarrow> l1\<lparr>rl_active := False, rl_termination := External\<rparr>
               | Some i \<Rightarrow>
                   (let l2 = l1\<lparr>rl_uopIndex := i\<rparr>
                    in if rl_helperUops l2 \<ge> en_maxUops e then l2\<lparr>rl_active := False, rl_termination := Timeout\<rparr> else l2)))"

text \<open>
  The loop that commits the branch compares each lane with the seed through the seed's pointer, so
  it sees the index that the seed has at that moment.
\<close>

definition commit_step :: "replay_env \<Rightarrow> nat \<Rightarrow> uop \<Rightarrow> branch_outcome \<Rightarrow> nat \<Rightarrow> nat \<Rightarrow> replay_lane list \<Rightarrow> replay_lane list" where
  "commit_step e f u b seed i lanes =
     (let l = lanes ! i; s = lanes ! seed in
      case bo_next b (rl_lane l) of
        None \<Rightarrow> lanes
      | Some next_pc \<Rightarrow>
          if \<not> rl_active l \<or> rl_helperRegs l \<noteq> f \<or> rl_program l \<noteq> rl_program s \<or> rl_uopIndex l \<noteq> rl_uopIndex s
          then lanes
          else lanes[i := commit_lane e u (length (bo_paths b)) next_pc l])"

definition commit_branch :: "replay_env \<Rightarrow> nat \<Rightarrow> uop \<Rightarrow> branch_outcome \<Rightarrow> nat \<Rightarrow> replay_lane list \<Rightarrow> replay_lane list" where
  "commit_branch e f u b seed lanes = fold (commit_step e f u b seed) [0..<length lanes] lanes"

text \<open>Deferring one path: a frame if there is room, otherwise its lanes end.\<close>

definition drop_path :: "nat \<Rightarrow> lane_mask \<Rightarrow> replay_lane \<Rightarrow> replay_lane" where
  "drop_path f m l =
     (if rl_helperRegs l = f \<and> test_lane m (rl_lane l) then l\<lparr>rl_active := False, rl_termination := External\<rparr> else l)"

definition block_path :: "nat \<Rightarrow> lane_mask \<Rightarrow> replay_lane \<Rightarrow> replay_lane" where
  "block_path f m l = (if rl_helperRegs l = f \<and> test_lane m (rl_lane l) then l\<lparr>rl_reconvergenceBlocked := True\<rparr> else l)"

definition defer_path :: "nat \<Rightarrow> uop \<Rightarrow> branch_outcome \<Rightarrow> nat \<Rightarrow> replay_lane list \<times> replay_frame list \<Rightarrow>
    replay_lane list \<times> replay_frame list" where
  "defer_path f u b path = (\<lambda>(lanes, stack).
     if path = bo_selected b then (lanes, stack)
     else
       (let (pc, taken, m) = bo_paths b ! path; (spc, _, sm) = bo_paths b ! bo_selected b in
        if length stack \<ge> ReplayEntries then (map (drop_path f m) lanes, stack)
        else (map (block_path f m) lanes,
              \<lparr>rf_currentPC = spc, rf_currentMask = sm, rf_reconvergencePC = up_reconvergencePC u, rf_pc = pc, rf_mask = m,
               rf_alternatePath = True, rf_takenPath = taken\<rparr> # stack)))"

definition tag_lane :: "nat \<Rightarrow> branch_outcome \<Rightarrow> bool \<Rightarrow> replay_lane \<Rightarrow> replay_lane" where
  "tag_lane f b divergent l =
     (case bo_next b (rl_lane l) of
        None \<Rightarrow> l
      | Some pc \<Rightarrow>
          if \<not> rl_active l \<or> rl_helperRegs l \<noteq> f then l
          else l\<lparr>rl_simtPath := if fst (snd (bo_paths b ! path_index pc (bo_paths b))) then 1 else 2,
                 rl_simtDivergent := divergent \<or> rl_simtDivergent l\<rparr>)"

text \<open>The branch work after the issue was granted: commit, deferral, and the path tags.\<close>

definition apply_branch :: "replay_env \<Rightarrow> nat \<Rightarrow> uop \<Rightarrow> branch_outcome \<Rightarrow> nat \<Rightarrow> helper_thread \<Rightarrow> helper_thread" where
  "apply_branch e f u b seed t =
     (let r = reconvergence_of f t; lanes = commit_branch e f u b seed (ht_replayLanes t);
          divergent = (length (bo_paths b) > 1);
          (lanes1, r1) =
            (if divergent \<and> up_reconvergencePC u \<noteq> 0
             then (let (ls, stack) = fold (defer_path f u b) (rev [0..<length (bo_paths b)]) (lanes, rr_stack r)
                   in (ls, refreshCurrentGroup ls f (r\<lparr>rr_stack := stack\<rparr>)))
             else (lanes, r));
          lanes2 = (if bo_paths b = [] then lanes1 else map (tag_lane f b divergent) lanes1)
      in set_reconvergence f r1 (t\<lparr>ht_replayLanes := lanes2\<rparr>))"

section \<open>Issue\<close>

definition op_class_of :: "semantic \<Rightarrow> op_class" where
  "op_class_of s =
     (if s \<in> set shift_semantics then SimdShiftOp
      else if s = Multiply \<or> s = MultiplyWord then SimdMultOp
      else if s \<in> set add_semantics then SimdAddOp else SimdAluOp)"

definition source_name :: "helper_files \<Rightarrow> int \<Rightarrow> replay_lane \<Rightarrow> int" where
  "source_name fs r l = (if r \<ge> 0 then HR_physicalIndex (nat r) (rl_lane l) (HF_get (rl_helperRegs l) fs) else - 1)"

text \<open>The source names of each lane of the group are recorded and retained.\<close>

definition retain_lane :: "uop \<Rightarrow> replay_lane \<Rightarrow> helper_files \<Rightarrow> helper_files" where
  "retain_lane u l fs =
     HF_update (rl_helperRegs l) (\<lambda>h. HR_retainPhysical (source_name fs (up_source1 u) l)
       (HR_retainPhysical (source_name fs (up_source0 u) l) h)) fs"

fun capture :: "uop \<Rightarrow> replay_lane list \<Rightarrow> helper_files \<Rightarrow> (int \<times> int) list \<times> helper_files" where
  "capture u [] fs = ([], fs)"
| "capture u (l # ls) fs =
     (let (names, fs') = capture u ls (retain_lane u l fs)
      in ((source_name fs (up_source0 u) l, source_name fs (up_source1 u) l) # names, fs'))"

definition issue_copy :: "lane_mask \<Rightarrow> addr \<Rightarrow> nat \<Rightarrow> vir_copy \<Rightarrow> vir_copy" where
  "issue_copy m pc i c =
     c\<lparr>vc_activeMask := m, vc_readyMask := m, vc_issuedMask := m, vc_executedMask := empty_mask,
       vc_completedMask := empty_mask, vc_deadSourceMask := empty_mask, vc_deadSource0Mask := empty_mask,
       vc_deadSource1Mask := empty_mask, vc_pc := pc, vc_uopIndex := i, vc_inFlight := 1, vc_active := True,
       vc_issued := True, vc_executed := False, vc_deadSource := False\<rparr>"

text \<open>
  The uop enters the buffer in state \<open>Issued\<close>; its completion time is the ready tick, which the code
  stores at the end of the function. The uop index is read from the seed, after a branch has moved it.
\<close>

definition lanes_mask :: "replay_lane list \<Rightarrow> lane_mask" where
  "lanes_mask lanes = fold (\<lambda>l m. if rl_lane l < HR_MaxLanes then set_lane (rl_lane l) m else m) lanes empty_mask"

definition new_uop :: "replay_env \<Rightarrow> uop \<Rightarrow> tick \<Rightarrow> replay_lane list \<Rightarrow> (int \<times> int) list \<Rightarrow> dyn_uop" where
  "new_uop e u ready_tick lanes names =
     (let seed = hd lanes in
      \<lparr>du_program = rl_program seed, du_helperRegs = rl_helperRegs seed, du_uopIndex = rl_uopIndex seed,
       du_opClass = op_class_of (up_semantic u), du_source0 = up_source0 u, du_source1 = up_source1 u,
       du_destination = up_destination u, du_pc = up_pc u, du_copy = rl_lane seed div LanesPerVIRCopy,
       du_activeMask = lanes_mask lanes, du_lanes = map rl_lane lanes, du_source0Physical = map fst names,
       du_source1Physical = map snd names, du_source0DeadMask = empty_mask, du_source1DeadMask = empty_mask,
       du_issueCycle = en_now e, du_completeCycle = ready_tick, du_state = Issued\<rparr>)"

definition enter_vir :: "dyn_uop \<Rightarrow> helper_thread \<Rightarrow> helper_thread" where
  "enter_vir d t =
     t\<lparr>ht_virCopies := (ht_virCopies t)(du_copy d :=
          issue_copy (du_activeMask d) (du_pc d) (du_uopIndex d) (ht_virCopies t (du_copy d))),
       ht_virBuffer := ht_virBuffer t @ [d]\<rparr>"

definition issue_group :: "replay_env \<Rightarrow> uop \<Rightarrow> tick \<Rightarrow> nat list \<Rightarrow> helper_thread \<Rightarrow> helper_files \<Rightarrow>
    (helper_thread \<times> helper_files) option" where
  "issue_group e u ready_tick grp t fs =
     (let lanes = map ((!) (ht_replayLanes t)) grp; (names, fs1) = capture u lanes fs
      in map_option (\<lambda>t2. (t2, fs1)) (HT_issueReplayChunk ready_tick (enter_vir (new_uop e u ready_tick lanes names) t)))"

section \<open>Renaming the destination\<close>

definition renames_dest :: "uop \<Rightarrow> bool" where
  "renames_dest u \<longleftrightarrow> up_destination u > 0 \<and> up_destination u < int HR_NumArchitecturalRegs"

definition source_vectorized :: "helper_regs \<Rightarrow> uop \<Rightarrow> replay_lane \<Rightarrow> bool" where
  "source_vectorized h u l \<longleftrightarrow>
     (up_source0 u \<ge> 0 \<and> HR_isVectorizedLane (nat (up_source0 u)) (rl_lane l) h) \<or>
     (up_source1 u \<ge> 0 \<and> HR_isVectorizedLane (nat (up_source1 u)) (rl_lane l) h)"

definition vector_destination :: "helper_regs \<Rightarrow> uop \<Rightarrow> replay_lane list \<Rightarrow> bool" where
  "vector_destination h u lanes \<longleftrightarrow> renames_dest u \<and>
     (list_ex (source_vectorized h u) lanes \<or> list_ex rl_simtDivergent lanes) \<and> \<not> HR_isVectorized (nat (up_destination u)) h"

definition scalar_overwrite :: "helper_regs \<Rightarrow> uop \<Rightarrow> replay_lane list \<Rightarrow> bool" where
  "scalar_overwrite h u lanes \<longleftrightarrow> renames_dest u \<and> \<not> vector_destination h u lanes \<and> HR_isVectorized (nat (up_destination u)) h"

definition rename_mask :: "nat \<Rightarrow> uop \<Rightarrow> replay_lane \<Rightarrow> replay_lane list \<Rightarrow> replay_lane list \<Rightarrow> lane_mask" where
  "rename_mask f u seed lanes group_lanes =
     (let m = fold (\<lambda>l m. if eligible f l \<and> rl_program l = rl_program seed \<and> rl_uopIndex l = rl_uopIndex seed \<and>
                             rl_lanePC l = up_pc u \<and> rl_simtPath l = rl_simtPath seed
                          then set_lane (rl_lane l) m else m) lanes empty_mask
      in if any_lane m then m else fold (\<lambda>l m. set_lane (rl_lane l) m) group_lanes empty_mask)"

definition rename_key :: "uop \<Rightarrow> nat \<Rightarrow> lane_mask \<Rightarrow> u64" where
  "rename_key u path m =
     (let mask_hash = (m ! 0) XOR (push_bit 17 (m ! 1) OR drop_bit 47 (m ! 1))
      in push_bit 8 (up_pc u) XOR (word_of_int (up_destination u) AND 0xff) XOR mask_hash XOR push_bit 56 (of_nat path))"

definition rename_destination :: "nat \<Rightarrow> uop \<Rightarrow> nat list \<Rightarrow> helper_thread \<Rightarrow> helper_files \<Rightarrow> helper_thread \<times> helper_files" where
  "rename_destination f u grp t fs =
     (let lanes = ht_replayLanes t; group_lanes = map ((!) lanes) grp; seed = hd group_lanes;
          h = HF_get (rl_helperRegs seed) fs; r = reconvergence_of f t;
          m = rename_mask f u seed lanes group_lanes; key = rename_key u (rl_simtPath seed) m;
          vector = vector_destination h u group_lanes
      in if \<not> (vector \<or> scalar_overwrite h u group_lanes) \<or> key \<in> rr_renamedDestinations r then (t, fs)
         else
           (let t1 = set_reconvergence f (r\<lparr>rr_renamedDestinations := insert key (rr_renamedDestinations r)\<rparr>) t;
                dest = nat (up_destination u);
                old_physical = HR_physicalMappings dest h;
                (renamed, h1) = (if vector then HR_renameVectorMasked dest m h
                                 else (let (p, h') = HR_renameScalarMasked dest m h in (p \<ge> 0, h')));
                fs1 = HF_update (rl_helperRegs seed) (\<lambda>_. h1) fs
            in if \<not> renamed
               then (t1\<lparr>ht_replayLanes := fold (\<lambda>i ls. ls[i := (ls ! i)\<lparr>rl_active := False\<rparr>]) grp lanes\<rparr>, fs1)
               else (HT_markDeadSources (rl_helperRegs seed)
                       (filter (\<lambda>p. p \<notin> set (HR_physicalMappings dest h1)) old_physical) t1, fs1)))"

section \<open>Execution\<close>

text \<open>
  Whether the computed address of a tainted load is accepted. Without a trained relation for this
  load the flag starts true, and the loop over the relations of the request can only set it again.
\<close>

definition relation_match :: "replay_env \<Rightarrow> helper_files \<Rightarrow> replay_template \<Rightarrow> replay_lane \<Rightarrow> addr \<Rightarrow> addr \<Rightarrow> bool" where
  "relation_match e fs seed_prog l pc result =
     (case en_relations e (rl_triggerPC l) pc of
        None \<Rightarrow> True
      | Some a \<Rightarrow>
          if \<not> ar_trained a then True
          else
            (let v = lane_source fs l (rt_triggerDestination seed_prog);
                 in_range = (ar_minAddress a \<le> result \<and> result \<le> ar_maxAddress a)
             in v AND ar_stableMask a = ar_pattern a AND ar_stableMask a \<and> ar_scale a * v + ar_offset a = result \<and> in_range \<or>
                rt_valid (lane_prog e l) \<and> in_range))"

definition stop_lane :: "termination_reason \<Rightarrow> replay_lane \<Rightarrow> replay_lane" where
  "stop_lane reason l = l\<lparr>rl_active := False, rl_termination := reason\<rparr>"

text \<open>The end of a step: a lane without a next PC or past its budget stops.\<close>

definition out_of_budget :: "replay_env \<Rightarrow> replay_lane \<Rightarrow> replay_lane" where
  "out_of_budget e l = stop_lane (if rl_helperUops l \<ge> en_maxUops e then Timeout else External) l"

definition next_in_program :: "replay_template \<Rightarrow> nat \<Rightarrow> addr" where
  "next_in_program prog i = (if i + 1 < rt_count prog then up_pc (rt_uops prog (i + 1)) else 0)"

definition executes_alternate :: "nat \<Rightarrow> helper_thread \<Rightarrow> bool" where
  "executes_alternate f t \<longleftrightarrow> list_ex rf_alternatePath (rr_stack (reconvergence_of f t))"

definition enqueue_dependent :: "replay_env \<Rightarrow> uop \<Rightarrow> tick \<Rightarrow> addr \<Rightarrow> replay_lane \<Rightarrow> replay_cpu \<Rightarrow> replay_cpu" where
  "enqueue_dependent e u ready_tick result l s =
     (let line = dvrPrefetchLine e result in
      if (rl_continuePastFLR l \<or> line \<notin> cs_queuedDependentLines s \<and> line \<notin> cs_outstandingLines s \<and> line \<notin> cs_completedLines s) \<and>
         length (cs_queue s) < DvrMaxQueuedPrefetches
      then s\<lparr>cs_queue := \<lparr>pa_address = result, pa_pc = up_pc u, pa_tid = rl_tid l, pa_readyTick = ready_tick, pa_source = False,
                pa_oracle = False, pa_nested = rl_nested l, pa_relations = rl_relations l, pa_replay = Some (rl_program l),
                pa_helperRegs = Some (rl_helperRegs l), pa_predicate = rl_predicate l, pa_lane = rl_lane l\<rparr> # cs_queue s,
              cs_queuedAddresses := insert result (cs_queuedAddresses s),
              cs_queuedDependentLines := insert line (cs_queuedDependentLines s),
              cs_alternateLines := if up_alternatePath u \<or> executes_alternate (rl_helperRegs l) (cs_thread s)
                                   then insert line (cs_alternateLines s) else cs_alternateLines s\<rparr>
      else s)"

text \<open>A tainted load: a request, and the lane ends or waits for the value.\<close>

definition execute_load :: "replay_env \<Rightarrow> replay_template \<Rightarrow> uop \<Rightarrow> tick \<Rightarrow> addr \<Rightarrow> replay_lane \<Rightarrow> replay_cpu \<Rightarrow> replay_lane \<times> replay_cpu" where
  "execute_load e seed_prog u ready_tick result l s =
     (if result = 0 \<or> result \<ge> push_bit 47 1 then (stop_lane External l, s)
      else if \<not> relation_match e (cs_files s) seed_prog l (up_pc u) result then (stop_lane External l, s)
      else if \<not> en_dependentPrefetch e then (stop_lane FLR l, s)
      else if result < 4096 \<or> result \<ge> push_bit 47 1 then (stop_lane External l, s)
      else
        (if \<not> rl_continuePastFLR l then stop_lane FLR l else l\<lparr>rl_lanePC := 0\<rparr>,
         enqueue_dependent e u ready_tick result l s))"

definition advance_lane :: "replay_env \<Rightarrow> uop \<Rightarrow> replay_lane \<Rightarrow> replay_lane" where
  "advance_lane e u l =
     (let l1 = l\<lparr>rl_helperUops := rl_helperUops l + 1,
                 rl_lanePC := if up_alternatePath u \<and> up_alternateResumePC u \<noteq> 0 then up_alternateResumePC u
                   else if up_control u \<and> \<not> up_conditional u \<and> up_branchTargetPC u \<noteq> 0 then up_branchTargetPC u
                   else next_in_program (lane_prog e l) (rl_uopIndex l)\<rparr>
      in if rl_lanePC l1 = 0 \<or> rl_helperUops l1 \<ge> en_maxUops e then out_of_budget e l1
         else l1\<lparr>rl_uopIndex := index_of (lane_prog e l) (rl_lanePC l1)\<rparr>)"

definition skip_load :: "replay_env \<Rightarrow> replay_lane \<Rightarrow> replay_lane" where
  "skip_load e l =
     (let pc = next_in_program (lane_prog e l) (rl_uopIndex l);
          l1 = l\<lparr>rl_lanePC := pc, rl_uopIndex := index_of (lane_prog e l) pc, rl_helperUops := rl_helperUops l + 1\<rparr>
      in if pc = 0 \<or> rl_helperUops l1 \<ge> en_maxUops e then out_of_budget e l1 else l1)"

definition write_result :: "uop \<Rightarrow> tick \<Rightarrow> reg_val \<Rightarrow> replay_lane \<Rightarrow> replay_lane" where
  "write_result u ready_tick result l =
     (if 0 \<le> up_destination u \<and> up_destination u < int HR_NumArchitecturalRegs
      then l\<lparr>rl_regs := (rl_regs l)(nat (up_destination u) := result),
             rl_readyCycle := (rl_readyCycle l)(nat (up_destination u) := ready_tick)\<rparr>
      else l)"

definition execute_lane :: "replay_env \<Rightarrow> replay_template \<Rightarrow> tick \<Rightarrow> replay_lane \<Rightarrow> replay_cpu \<Rightarrow> replay_lane \<times> replay_cpu" where
  "execute_lane e seed_prog ready_tick l s =
     (let u = lane_uop e l; fs = cs_files s in
      if up_conditional u then (l, s)
      else
        (case Uop_evaluate u (lane_source fs l (up_source0 u)) (lane_source fs l (up_source1 u)) of
           None \<Rightarrow> (stop_lane External l, s)
         | Some result \<Rightarrow>
             if up_load u \<and> \<not> up_tainted u then (skip_load e l, s)
             else if up_load u then execute_load e seed_prog u ready_tick result l s
             else
               (let l1 = write_result u ready_tick result l; l2 = l1\<lparr>rl_regs := (rl_regs l1)(0 := 0)\<rparr>;
                    fs1 = (if 0 \<le> up_destination u \<and> up_destination u < int HR_NumArchitecturalRegs
                           then HF_update (rl_helperRegs l) (HR_write (nat (up_destination u)) (rl_lane l) result ready_tick) fs
                           else fs)
                in (advance_lane e u l2, s\<lparr>cs_files := fs1\<rparr>))))"

definition execute_step :: "replay_env \<Rightarrow> replay_template \<Rightarrow> tick \<Rightarrow> nat \<Rightarrow> replay_cpu \<Rightarrow> replay_cpu" where
  "execute_step e seed_prog ready_tick i s =
     (let t = cs_thread s; (l, s1) = execute_lane e seed_prog ready_tick (ht_replayLanes t ! i) s
      in s1\<lparr>cs_thread := (cs_thread s1)\<lparr>ht_replayLanes := (ht_replayLanes (cs_thread s1))[i := l]\<rparr>\<rparr>)"

section \<open>The whole attempt\<close>

definition prune_lanes :: "replay_env \<Rightarrow> replay_lane list \<Rightarrow> replay_lane list" where
  "prune_lanes e lanes = filter (\<lambda>l. rl_active l \<and> in_program e l) lanes"

definition retireTerminatedLanes :: "helper_thread \<Rightarrow> helper_thread" where
  "retireTerminatedLanes t = t\<lparr>ht_replayLanes := filter rl_active (ht_replayLanes t)\<rparr>"

text \<open>The helper after the front end has given up the instruction and a branch has taken effect.\<close>

definition branch_state :: "replay_env \<Rightarrow> nat \<Rightarrow> nat list \<Rightarrow> replay_cpu \<Rightarrow> helper_thread" where
  "branch_state e f grp s =
     (let t = cs_thread s; lanes = ht_replayLanes t; seed = hd grp; u = lane_uop e (lanes ! seed); r = reconvergence_of f t;
          b = evaluate_branch e (cs_files s) f r lanes seed; t1 = HT_retireFrontend (up_pc u) t
      in if up_conditional u \<and> outcomes_complete f r lanes seed b then apply_branch e f u b seed t1 else t1)"

definition execute_group :: "replay_env \<Rightarrow> nat \<Rightarrow> replay_template \<Rightarrow> tick \<Rightarrow> nat list \<Rightarrow> replay_cpu \<Rightarrow> replay_cpu" where
  "execute_group e f seed_prog ready_tick grp s =
     (let s1 = fold (execute_step e seed_prog ready_tick) grp s;
          t1 = retireTerminatedLanes (cs_thread s1)
      in s1\<lparr>cs_thread := set_reconvergence f (refreshCurrentGroup (ht_replayLanes t1) f (reconvergence_of f t1)) t1\<rparr>)"

text \<open>A functional unit was granted. The first result is the number of uops issued.\<close>

definition issue_granted :: "replay_env \<Rightarrow> nat \<Rightarrow> nat list \<Rightarrow> nat \<Rightarrow> replay_cpu \<Rightarrow> (nat \<times> replay_cpu) option" where
  "issue_granted e f grp latency s =
     (let sl = ht_replayLanes (cs_thread s) ! hd grp; u = lane_uop e sl;
          ready_tick = en_now e + of_nat latency * en_clockPeriod e;
          next_tick = (if en_vectorUnlimitedFU e then cs_nextIssueTick s
                       else en_now e + of_nat (max 1 (en_issueInterval e)) * en_clockPeriod e)
      in case issue_group e u ready_tick grp (branch_state e f grp s) (cs_files s) of
           None \<Rightarrow> None
         | Some (t3, fs3) \<Rightarrow>
             (let (t4, fs4) = rename_destination f u grp t3 fs3
              in Some (1, execute_group e f (lane_prog e sl) ready_tick grp
                            (s\<lparr>cs_thread := t4, cs_files := fs4, cs_nextIssueTick := next_tick\<rparr>))))"

text \<open>After the group is formed.\<close>

definition issue_formed :: "replay_env \<Rightarrow> nat \<Rightarrow> nat list \<Rightarrow> replay_cpu \<Rightarrow> (nat \<times> replay_cpu) option" where
  "issue_formed e f grp s =
     (let t = cs_thread s; seed = hd grp; u = lane_uop e (ht_replayLanes t ! seed); r = reconvergence_of f t;
          s1 = s\<lparr>cs_thread := HT_retireFrontend (up_pc u) t\<rparr>
      in if up_conditional u \<and> \<not> branch_admitted e (cs_files s) f r (ht_replayLanes t) seed then Some (0, s)
         else if \<not> en_decoded e (up_pc u) then Some (0, s)
         else if \<not> en_vectorUnlimitedFU e \<and> en_now e < cs_nextIssueTick s then Some (0, s1)
         else
           (case (if en_vectorUnlimitedFU e then Some 1 else en_fu e (op_class_of (up_semantic u))) of
              None \<Rightarrow> Some (0, s1)
            | Some latency \<Rightarrow> issue_granted e f grp latency s))"

definition issueDVRReplayLanes :: "replay_env \<Rightarrow> nat \<Rightarrow> replay_cpu \<Rightarrow> (nat \<times> replay_cpu) option" where
  "issueDVRReplayLanes e slots s =
     (if \<not> en_vectorChunkModel e \<or> slots = 0 \<or> ht_replayLanes (cs_thread s) = [] then Some (0, s)
      else if length (ht_virBuffer (cs_thread s)) \<ge> VIRCapacity then Some (0, s)
      else
        (let t = (cs_thread s)\<lparr>ht_replayLanes := prune_lanes e (ht_replayLanes (cs_thread s))\<rparr> in
         if ht_replayLanes t = [] \<or> ht_readyUops t = 0 then Some (0, s\<lparr>cs_thread := t\<rparr>)
         else
           (let context = select_context e t (cs_files s);
                t1 = (case context of None \<Rightarrow> t | Some f \<Rightarrow> reconverge f t);
                (lanes, grp) = form_group e context t1 (cs_files s) [0..<length (ht_replayLanes t1)] (ht_replayLanes t1) [];
                t2 = t1\<lparr>ht_replayLanes := lanes\<rparr>
            in case (context, grp) of
                 (Some f, _ # _) \<Rightarrow> issue_formed e f grp (s\<lparr>cs_thread := t2\<rparr>)
               | _ \<Rightarrow> Some (0, s\<lparr>cs_thread := retireTerminatedLanes t2\<rparr>))))"

end
