(* ===== verification/DVR_Replay_Inv.thy ===== *)
theory DVR_Replay_Inv
  imports DVR_Replay
begin

text \<open>
  What the parts of an issue attempt change: which lanes a group consists of, which next PC and
  which path a branch gives each lane, and which lanes move when the branch is committed.
\<close>

section \<open>Lane identity\<close>

definition lane_key :: "replay_lane \<Rightarrow> nat \<times> nat" where
  "lane_key l = (rl_helperRegs l, rl_lane l)"

text \<open>What no step of the scheduler changes of a lane.\<close>

definition same_lane :: "replay_lane \<Rightarrow> replay_lane \<Rightarrow> bool" where
  "same_lane l l' \<longleftrightarrow> rl_helperRegs l' = rl_helperRegs l \<and> rl_lane l' = rl_lane l \<and> rl_program l' = rl_program l"

lemma same_lane_refl [simp]: "same_lane l l"
  by (simp add: same_lane_def)

lemma same_lane_trans: "same_lane l l1 \<Longrightarrow> same_lane l1 l2 \<Longrightarrow> same_lane l l2"
  by (simp add: same_lane_def)

lemma same_lane_key: "same_lane l l' \<Longrightarrow> lane_key l' = lane_key l"
  by (simp add: same_lane_def lane_key_def)

lemma same_lane_prog: "same_lane l l' \<Longrightarrow> lane_prog e l' = lane_prog e l"
  by (simp add: same_lane_def lane_prog_def)

lemma skip_loop_same: "skip_loop prog m i l = (j, l') \<Longrightarrow> same_lane l l'"
proof (induction prog m i l rule: skip_loop.induct)
  case (1 prog m i l)
  show ?case
  proof (cases "i \<ge> rt_count prog \<or> \<not> skipped (rt_uops prog i)")
    case True
    then show ?thesis using 1(2) by (simp add: skip_loop.simps [of prog m i])
  next
    case False
    let ?l1 = "l\<lparr>rl_helperUops := rl_helperUops l + 1\<rparr>"
    show ?thesis
    proof (cases "rl_helperUops ?l1 \<ge> m \<or> i + 1 \<ge> rt_count prog")
      case True
      then show ?thesis using 1(2) False by (auto simp: skip_loop.simps [of prog m i] same_lane_def)
    next
      case more: False
      have "skip_loop prog m (i + 1) (?l1\<lparr>rl_lanePC := up_pc (rt_uops prog (i + 1))\<rparr>) = (j, l')"
        using 1(2) False more by (simp add: skip_loop.simps [of prog m i])
      from 1(1) [OF False refl more this] show ?thesis by (simp add: same_lane_def)
    qed
  qed
qed

lemma pop_lane_same [simp]: "same_lane l (pop_lane f frame l)"
  by (simp add: pop_lane_def same_lane_def)

lemma clear_path_same [simp]: "same_lane l (clear_path f l)"
  by (simp add: clear_path_def same_lane_def)

lemma visit_lane_same: "same_lane l (snd (visit_lane e c t l))"
  by (auto simp: visit_lane_def Let_def split: option.split prod.split intro: skip_loop_same)
    (auto simp: same_lane_def dest: skip_loop_same)

lemma commit_lane_same [simp]: "same_lane l (commit_lane e u n pc l)"
  by (simp add: commit_lane_def same_lane_def Let_def split: option.split)

lemma drop_path_same [simp]: "same_lane l (drop_path f m l)"
  by (simp add: drop_path_def same_lane_def)

lemma block_path_same [simp]: "same_lane l (block_path f m l)"
  by (simp add: block_path_def same_lane_def)

lemma tag_lane_same [simp]: "same_lane l (tag_lane f b d l)"
  by (simp add: tag_lane_def same_lane_def split: option.split)

text \<open>Lists of lanes with the same members in the same places.\<close>

definition same_lanes :: "replay_lane list \<Rightarrow> replay_lane list \<Rightarrow> bool" where
  "same_lanes ls ls' \<longleftrightarrow> list_all2 same_lane ls ls'"

lemma same_lanes_refl [simp]: "same_lanes ls ls"
  by (simp add: same_lanes_def list_all2_refl)

lemma same_lanes_trans: "same_lanes a b \<Longrightarrow> same_lanes b c \<Longrightarrow> same_lanes a c"
  unfolding same_lanes_def by (rule list_all2_trans [where ?P1.0 = same_lane and ?P2.0 = same_lane]) (auto intro: same_lane_trans)

lemma same_lanes_map: "(\<And>l. same_lane l (g l)) \<Longrightarrow> same_lanes ls (map g ls)"
  by (simp add: same_lanes_def list_all2_conv_all_nth)

lemma same_lanes_update: "i < length ls \<Longrightarrow> same_lane (ls ! i) l \<Longrightarrow> same_lanes ls (ls[i := l])"
  by (auto simp: same_lanes_def list_all2_conv_all_nth nth_list_update)

lemma same_lanes_length: "same_lanes a b \<Longrightarrow> length b = length a"
  by (simp add: same_lanes_def list_all2_lengthD)

lemma same_lanes_nth: "same_lanes a b \<Longrightarrow> i < length a \<Longrightarrow> same_lane (a ! i) (b ! i)"
  by (simp add: same_lanes_def list_all2_conv_all_nth)

lemma same_lanes_keys: "same_lanes a b \<Longrightarrow> map lane_key b = map lane_key a"
  by (rule nth_equalityI) (auto simp: same_lanes_length same_lanes_nth same_lane_key)

text \<open>No two lanes of one register file have the same number.\<close>

definition keys_ok :: "replay_lane list \<Rightarrow> bool" where
  "keys_ok ls \<longleftrightarrow> distinct (map lane_key ls) \<and> (\<forall>l \<in> set ls. rl_lane l < 128)"

lemma keys_ok_same: "same_lanes a b \<Longrightarrow> keys_ok a \<Longrightarrow> keys_ok b"
proof -
  assume s: "same_lanes a b" and k: "keys_ok a"
  have "rl_lane (b ! i) < 128" if "i < length b" for i
    using same_lanes_nth [OF s, of i] same_lanes_length [OF s] that k by (auto simp: keys_ok_def same_lane_def)
  then show "keys_ok b" using k same_lanes_keys [OF s] by (auto simp: keys_ok_def in_set_conv_nth)
qed

lemma keys_inj:
  assumes "keys_ok ls" "i < length ls" "j < length ls" "rl_helperRegs (ls ! i) = rl_helperRegs (ls ! j)" "rl_lane (ls ! i) = rl_lane (ls ! j)"
  shows "i = j"
proof -
  have "map lane_key ls ! i = map lane_key ls ! j" using assms by (simp add: lane_key_def)
  then show ?thesis using assms(1-3) nth_eq_iff_index_eq [of "map lane_key ls" i j] by (simp add: keys_ok_def)
qed

lemma keys_ok_filter: "keys_ok ls \<Longrightarrow> keys_ok (filter P ls)"
  by (auto simp: keys_ok_def distinct_map_filter)

section \<open>Forming a group\<close>

text \<open>Every lane is as before or was visited, and the members of the group were visited and may join.\<close>

lemma form_group_facts:
  assumes "form_group e c t fs is lanes grp = (lanes', grp')" "distinct is" "\<forall>i \<in> set is. i < length lanes"
  shows "length lanes' = length lanes \<and>
    (\<forall>i < length lanes. lanes' ! i = lanes ! i \<or> i \<in> set is \<and> lanes' ! i = snd (visit_lane e c t (lanes ! i))) \<and>
    (\<exists>new. grp' = grp @ new \<and> distinct new \<and> set new \<subseteq> set is \<and>
      (\<forall>i \<in> set new. fst (visit_lane e c t (lanes ! i)) \<and> lanes' ! i = snd (visit_lane e c t (lanes ! i))))"
  using assms
proof (induction "is" arbitrary: lanes grp)
  case (Cons i "is")
  obtain v l where vl: "visit_lane e c t (lanes ! i) = (v, l)" by fastforce
  let ?lanes = "lanes[i := l]"
  have i: "i < length lanes" "i \<notin> set is" using Cons.prems by auto
  have old: "?lanes ! k = lanes ! k" if "k \<noteq> i" for k using that by simp
  consider (stop) "lanes' = ?lanes" "grp' = grp @ [i]" "v"
    | (go) g where "form_group e c t fs is ?lanes g = (lanes', grp')" "g = grp \<or> g = grp @ [i] \<and> v"
  proof -
    let ?j = "v \<and> joins e t fs (case grp of [] \<Rightarrow> None | s # _ \<Rightarrow> Some (?lanes ! s)) l"
    have "(if ?j then (if length grp + 1 = LanesPerVIRCopy then (?lanes, grp @ [i]) else form_group e c t fs is ?lanes (grp @ [i]))
        else form_group e c t fs is ?lanes grp) = (lanes', grp')"
      using Cons.prems(1) vl by (simp add: Let_def)
    then show thesis using stop go [of grp] go [of "grp @ [i]"] by (cases ?j; cases "length grp + 1 = LanesPerVIRCopy") auto
  qed
  then show ?case
  proof cases
    case stop
    then show ?thesis using vl i old by (auto simp: nth_list_update)
  next
    case go
    from Cons.IH [OF go(1)] Cons.prems obtain new where
      IH: "length lanes' = length lanes" "\<And>k. k < length lanes \<Longrightarrow> lanes' ! k = ?lanes ! k \<or> k \<in> set is \<and> lanes' ! k = snd (visit_lane e c t (?lanes ! k))"
        "grp' = g @ new" "distinct new" "set new \<subseteq> set is"
        "\<And>k. k \<in> set new \<Longrightarrow> fst (visit_lane e c t (?lanes ! k)) \<and> lanes' ! k = snd (visit_lane e c t (?lanes ! k))"
      by auto
    have li: "lanes' ! i = l" using IH(2) [OF i(1)] i by auto
    have ne: "k \<in> set is \<Longrightarrow> k \<noteq> i" for k using i(2) by auto
    have A: "lanes' ! k = lanes ! k \<or> k \<in> set (i # is) \<and> lanes' ! k = snd (visit_lane e c t (lanes ! k))" if "k < length lanes" for k
      using IH(2) [OF that] li vl old by (cases "k = i") auto
    have B: "\<And>k. k \<in> set new \<Longrightarrow> fst (visit_lane e c t (lanes ! k)) \<and> lanes' ! k = snd (visit_lane e c t (lanes ! k))"
      using IH(5,6) ne old by (metis subsetD)
    show ?thesis
    proof (cases "g = grp")
      case True
      then show ?thesis using IH(1,3-5) A B by auto
    next
      case False
      then have "g = grp @ [i]" "v" using go(2) by auto
      then have "grp' = grp @ (i # new)" "distinct (i # new)" "set (i # new) \<subseteq> set (i # is)"
        using IH(3-5) i(2) by auto
      moreover have "\<forall>k \<in> set (i # new). fst (visit_lane e c t (lanes ! k)) \<and> lanes' ! k = snd (visit_lane e c t (lanes ! k))"
        using B li vl \<open>v\<close> by auto
      ultimately show ?thesis using IH(1) A by blast
    qed
  qed
qed simp

section \<open>Branch outcomes\<close>

definition path_bit :: "(addr \<times> bool \<times> lane_mask) list \<Rightarrow> addr \<Rightarrow> nat \<Rightarrow> bool" where
  "path_bit ps q n \<longleftrightarrow> (\<exists>d m. (q, d, m) \<in> set ps \<and> test_lane m n)"

definition paths_ok :: "(addr \<times> bool \<times> lane_mask) list \<Rightarrow> bool" where
  "paths_ok ps \<longleftrightarrow> distinct (map fst ps) \<and> (\<forall>p \<in> set ps. length (snd (snd p)) = 2)"

lemma path_index_le: "path_index pc ps \<le> length ps"
  by (induction ps) auto

lemma path_index_iff: "path_index pc ps < length ps \<longleftrightarrow> pc \<in> fst ` set ps"
  by (induction ps) auto

lemma path_index_nth: "path_index pc ps < length ps \<Longrightarrow> fst (ps ! path_index pc ps) = pc"
  by (induction ps) auto

lemma set_update_distinct:
  assumes "distinct xs" "i < length xs"
  shows "set (xs[i := y]) = insert y (set xs - {xs ! i})"
proof -
  have "xs[i := y] = take i xs @ y # drop (Suc i) xs" using assms(2) by (rule upd_conv_take_nth_drop)
  moreover have "set xs - {xs ! i} = set (take i xs) \<union> set (drop (Suc i) xs)"
  proof -
    have x: "xs = take i xs @ xs ! i # drop (Suc i) xs" using assms(2) by (simp add: id_take_nth_drop)
    have "xs ! i \<notin> set (take i xs) \<union> set (drop (Suc i) xs)"
      using assms(1) x by (metis UnE distinct.simps(2) distinct_append disjoint_iff list.set_intros(1))
    moreover have "set xs = insert (xs ! i) (set (take i xs) \<union> set (drop (Suc i) xs))" by (subst x) auto
    ultimately show ?thesis by auto
  qed
  ultimately show ?thesis by auto
qed

lemma add_to_path_facts:
  assumes ok: "paths_ok ps" "length ps < 128" and n: "n < 128"
  shows "paths_ok (add_to_path pc d n ps)"
    and "map fst (add_to_path pc d n ps) = (if pc \<in> fst ` set ps then map fst ps else map fst ps @ [pc])"
    and "k < 128 \<Longrightarrow> path_bit (add_to_path pc d n ps) q k \<longleftrightarrow> path_bit ps q k \<or> q = pc \<and> k = n"
proof -
  let ?i = "path_index pc ps"
  define ps1 where "ps1 = (if pc \<in> fst ` set ps then ps else ps @ [(pc, d, empty_mask)])"
  have idx: "?i < length ps1" "fst (ps1 ! ?i) = pc" "?i < 128"
    using path_index_iff [of pc ps] path_index_nth [of pc ps] path_index_le [of pc ps] ok(2) by (auto simp: ps1_def nth_append)
  have ok1: "paths_ok ps1" using ok(1) by (auto simp: ps1_def paths_ok_def)
  obtain d1 m1 where p: "ps1 ! ?i = (pc, d1, m1)" using idx(2) by (metis prod.collapse)
  have mem: "(pc, d1, m1) \<in> set ps1" using idx(1) p by (metis nth_mem)
  have l: "length m1 = 2" using ok1 mem by (auto simp: paths_ok_def)
  have "?i = length ps \<and> length ps < 128 \<longleftrightarrow> pc \<notin> fst ` set ps"
    using path_index_iff [of pc ps] path_index_le [of pc ps] ok(2) by auto
  then have e: "(if ?i = length ps \<and> length ps < 128 then ps @ [(pc, d, empty_mask)] else ps) = ps1" by (simp add: ps1_def)
  have a: "add_to_path pc d n ps = ps1[?i := (pc, d1, set_lane n m1)]"
    unfolding add_to_path_def Let_def e using p idx(3) by simp
  have f: "map fst (add_to_path pc d n ps) = map fst ps1"
    unfolding a using idx by (metis fst_conv list_update_id map_update nth_map p)
  then show "map fst (add_to_path pc d n ps) = (if pc \<in> fst ` set ps then map fst ps else map fst ps @ [pc])"
    by (simp add: ps1_def)
  have sub: "set (add_to_path pc d n ps) \<subseteq> insert (pc, d1, set_lane n m1) (set ps1)" unfolding a by (rule set_update_subset_insert)
  show "paths_ok (add_to_path pc d n ps)" using ok1 f sub l by (auto simp: paths_ok_def)
  have "distinct ps1" using ok1 by (simp add: paths_ok_def distinct_map)
  then have st: "set (add_to_path pc d n ps) = insert (pc, d1, set_lane n m1) (set ps1 - {(pc, d1, m1)})"
    unfolding a using set_update_distinct [OF _ idx(1)] p by simp
  have one: "(pc, d', m') \<in> set ps1 \<Longrightarrow> (d', m') = (d1, m1)" for d' m'
    using ok1 mem unfolding paths_ok_def by (meson eq_key_imp_eq_value)
  have b1: "path_bit ps1 q k \<longleftrightarrow> path_bit ps q k" if "k < 128" for q k
    using that by (auto simp: path_bit_def ps1_def test_empty_mask)
  show "path_bit (add_to_path pc d n ps) q k \<longleftrightarrow> path_bit ps q k \<or> q = pc \<and> k = n" if k: "k < 128"
  proof (cases "q = pc")
    case True
    have "path_bit (add_to_path pc d n ps) pc k \<longleftrightarrow> test_lane (set_lane n m1) k"
      unfolding path_bit_def st using one by auto
    moreover have "path_bit ps1 pc k \<longleftrightarrow> test_lane m1 k"
    proof
      assume "path_bit ps1 pc k"
      then obtain d' m' where "(pc, d', m') \<in> set ps1" "test_lane m' k" unfolding path_bit_def by blast
      then show "test_lane m1 k" using one by (metis prod.inject)
    qed (use mem in \<open>auto simp: path_bit_def\<close>)
    ultimately show ?thesis using True b1 [OF k, of pc] test_set_lane [OF l n k] by auto
  next
    case False
    then show ?thesis using b1 [OF k, of q] unfolding path_bit_def st by auto
  qed
qed

definition lane_next :: "replay_env \<Rightarrow> helper_files \<Rightarrow> replay_lane \<Rightarrow> addr option" where
  "lane_next e fs l = map_option (\<lambda>d. if d then up_branchTargetPC (lane_uop e l) else up_fallthroughPC (lane_uop e l)) (branch_direction e fs l)"

text \<open>What the evaluation of the first \<open>k\<close> lanes has found.\<close>

definition decides :: "replay_env \<Rightarrow> helper_files \<Rightarrow> nat \<Rightarrow> replay_reconvergence \<Rightarrow> replay_lane list \<Rightarrow> nat \<Rightarrow> nat \<Rightarrow> addr \<Rightarrow> bool" where
  "decides e fs f r lanes seed i pc \<longleftrightarrow> branch_peer f r (lanes ! seed) (lanes ! i) \<and> laneSourcesReady e fs (lanes ! i) \<and>
     lane_next e fs (lanes ! i) = Some pc"

definition outcome_ok :: "replay_env \<Rightarrow> helper_files \<Rightarrow> nat \<Rightarrow> replay_reconvergence \<Rightarrow> replay_lane list \<Rightarrow> nat \<Rightarrow> nat \<Rightarrow> branch_outcome \<Rightarrow> bool" where
  "outcome_ok e fs f r lanes seed k b \<longleftrightarrow>
     (\<forall>n pc. bo_next b n = Some pc \<longleftrightarrow> (\<exists>i < k. rl_lane (lanes ! i) = n \<and> decides e fs f r lanes seed i pc)) \<and>
     paths_ok (bo_paths b) \<and> (\<forall>n < 128. \<forall>pc. path_bit (bo_paths b) pc n \<longleftrightarrow> bo_next b n = Some pc) \<and>
     fst ` set (bo_paths b) \<subseteq> {up_branchTargetPC (lane_uop e (lanes ! seed)), up_fallthroughPC (lane_uop e (lanes ! seed))} \<and>
     (\<forall>pc. seed < k \<and> decides e fs f r lanes seed seed pc \<longrightarrow>
        bo_selected b < length (bo_paths b) \<and> fst (bo_paths b ! bo_selected b) = pc)"

lemma outcome_okD:
  assumes "outcome_ok e fs f r lanes seed k b"
  shows "bo_next b n = Some pc \<longleftrightarrow> (\<exists>i < k. rl_lane (lanes ! i) = n \<and> decides e fs f r lanes seed i pc)"
    and "paths_ok (bo_paths b)" and "n < 128 \<Longrightarrow> path_bit (bo_paths b) pc n \<longleftrightarrow> bo_next b n = Some pc"
    and "fst ` set (bo_paths b) \<subseteq> {up_branchTargetPC (lane_uop e (lanes ! seed)), up_fallthroughPC (lane_uop e (lanes ! seed))}"
    and "seed < k \<Longrightarrow> decides e fs f r lanes seed seed pc \<Longrightarrow> bo_selected b < length (bo_paths b) \<and> fst (bo_paths b ! bo_selected b) = pc"
  using assms by (auto simp: outcome_ok_def)

lemma peer_uop: "branch_peer f r s l \<Longrightarrow> lane_uop e l = lane_uop e s"
  by (simp add: branch_peer_def lane_uop_def lane_prog_def)

lemma peer_file: "branch_peer f r s l \<Longrightarrow> rl_helperRegs l = f"
  by (simp add: branch_peer_def inCurrentGroup_def eligible_def)

lemma evaluate_alt:
  "evaluate_lane e fs f r lanes seed i b =
    (if branch_peer f r (lanes ! seed) (lanes ! i) \<and> laneSourcesReady e fs (lanes ! i) then
       (case branch_direction e fs (lanes ! i) of
          None \<Rightarrow> b
        | Some d \<Rightarrow>
            (let pc = the (lane_next e fs (lanes ! i))
             in b\<lparr>bo_next := (bo_next b)(rl_lane (lanes ! i) \<mapsto> pc), bo_paths := add_to_path pc d (rl_lane (lanes ! i)) (bo_paths b),
                  bo_selected := if i = seed then path_index pc (bo_paths b) else bo_selected b\<rparr>))
     else b)"
  by (simp add: evaluate_lane_def lane_next_def Let_def split: option.split)

lemma evaluate_found:
  assumes ok: "outcome_ok e fs f r lanes seed i b" and keys: "keys_ok lanes" and i: "i < length lanes"
    and d: "decides e fs f r lanes seed i pc"
  shows "outcome_ok e fs f r lanes seed (Suc i) (evaluate_lane e fs f r lanes seed i b)"
proof -
  let ?l = "lanes ! i" and ?u = "lane_uop e (lanes ! seed)"
  have p: "branch_peer f r (lanes ! seed) ?l" "laneSourcesReady e fs ?l" "lane_next e fs ?l = Some pc" using d by (auto simp: decides_def)
  obtain dir where dir: "branch_direction e fs ?l = Some dir" using p(3) by (auto simp: lane_next_def)
  define ps where "ps = add_to_path pc dir (rl_lane ?l) (bo_paths b)"
  define b' where "b' = b\<lparr>bo_next := (bo_next b)(rl_lane ?l \<mapsto> pc), bo_paths := ps,
    bo_selected := if i = seed then path_index pc (bo_paths b) else bo_selected b\<rparr>"
  have e: "evaluate_lane e fs f r lanes seed i b = b'" using p dir by (simp add: evaluate_alt b'_def ps_def Let_def)
  note o = outcome_okD [OF ok]
  have uniq: "j = i" if "j < length lanes" "rl_lane (lanes ! j) = rl_lane ?l" "decides e fs f r lanes seed j q" for j q
  proof -
    have "branch_peer f r (lanes ! seed) (lanes ! j)" using that(3) by (simp add: decides_def)
    then have "rl_helperRegs (lanes ! j) = rl_helperRegs ?l" using peer_file p(1) by metis
    then show ?thesis using keys_inj [OF keys that(1) i] that(2) by simp
  qed
  have fresh: "bo_next b (rl_lane ?l) = None"
  proof (rule ccontr)
    assume "bo_next b (rl_lane ?l) \<noteq> None"
    then obtain q j where "j < i" "rl_lane (lanes ! j) = rl_lane ?l" "decides e fs f r lanes seed j q" using o(1) by auto
    then show False using uniq [of j q] i by simp
  qed
  have n: "rl_lane ?l < 128" using keys i by (simp add: keys_ok_def)
  have "card (fst ` set (bo_paths b)) \<le> card {up_branchTargetPC ?u, up_fallthroughPC ?u}" by (rule card_mono) (use o(4) in auto)
  also have "\<dots> \<le> 2" by (simp add: card_insert_le_m1)
  finally have "length (bo_paths b) \<le> 2" using o(2) by (simp add: paths_ok_def distinct_card [of "map fst (bo_paths b)", simplified])
  then have len: "length (bo_paths b) < 128" by simp
  note a = add_to_path_facts [OF o(2) len n, where pc = pc and d = dir, folded ps_def]
  have nx: "bo_next b' m = Some q \<longleftrightarrow> (\<exists>j < Suc i. rl_lane (lanes ! j) = m \<and> decides e fs f r lanes seed j q)" for m q
  proof (cases "m = rl_lane ?l")
    case True
    have "(\<exists>j < Suc i. rl_lane (lanes ! j) = m \<and> decides e fs f r lanes seed j q) \<longleftrightarrow> decides e fs f r lanes seed i q"
    proof
      assume "\<exists>j < Suc i. rl_lane (lanes ! j) = m \<and> decides e fs f r lanes seed j q"
      then obtain j where j: "j < Suc i" "rl_lane (lanes ! j) = rl_lane ?l" "decides e fs f r lanes seed j q" using True by blast
      then have "j = i" using uniq i by simp
      then show "decides e fs f r lanes seed i q" using j(3) by simp
    qed (use True in blast)
    moreover have "decides e fs f r lanes seed i q \<longleftrightarrow> q = pc" using d by (auto simp: decides_def)
    ultimately show ?thesis using True by (auto simp: b'_def)
  next
    case False
    then show ?thesis using o(1) by (auto simp: b'_def less_Suc_eq)
  qed
  have pcs: "pc \<in> {up_branchTargetPC ?u, up_fallthroughPC ?u}"
    using p(3) peer_uop [OF p(1)] by (auto simp: lane_next_def split: if_splits)
  have mf: "set (map fst ps) = insert pc (fst ` set (bo_paths b))" unfolding a(2) by auto
  have sel: "bo_selected b' < length ps \<and> fst (ps ! bo_selected b') = q"
    if s: "seed < Suc i" "decides e fs f r lanes seed seed q" for q
  proof (cases "seed = i")
    case True
    then have q: "q = pc" using s d by (auto simp: decides_def)
    have "path_index pc (bo_paths b) < length (map fst ps) \<and> map fst ps ! path_index pc (bo_paths b) = pc"
      using path_index_iff [of pc "bo_paths b"] path_index_le [of pc "bo_paths b"] path_index_nth [of pc "bo_paths b"]
      unfolding a(2) by (auto simp: nth_append)
    then show ?thesis using True q by (auto simp: b'_def)
  next
    case False
    then have "bo_selected b < length (bo_paths b) \<and> fst (bo_paths b ! bo_selected b) = q" using o(5) s by simp
    then have "bo_selected b < length (map fst ps) \<and> map fst ps ! bo_selected b = q" unfolding a(2) by (auto simp: nth_append)
    then show ?thesis using False by (auto simp: b'_def)
  qed
  have bits: "path_bit ps q m \<longleftrightarrow> bo_next b' m = Some q" if "m < 128" for m q
    using a(3) [OF that] o(3) [OF that] fresh by (auto simp: b'_def)
  have bp: "bo_paths b' = ps" by (simp add: b'_def)
  have "fst ` set ps \<subseteq> {up_branchTargetPC ?u, up_fallthroughPC ?u}" using mf o(4) pcs by auto
  then show ?thesis unfolding e outcome_ok_def bp using nx a(1) bits sel by blast
qed

lemma evaluate_skip:
  assumes ok: "outcome_ok e fs f r lanes seed i b" and d: "\<And>pc. \<not> decides e fs f r lanes seed i pc"
  shows "outcome_ok e fs f r lanes seed (Suc i) (evaluate_lane e fs f r lanes seed i b)"
proof -
  have "lane_next e fs (lanes ! i) = None" if "branch_peer f r (lanes ! seed) (lanes ! i)" "laneSourcesReady e fs (lanes ! i)"
    using d that by (auto simp: decides_def)
  then have e: "evaluate_lane e fs f r lanes seed i b = b" by (auto simp: evaluate_alt lane_next_def)
  have "(\<exists>j < Suc i. rl_lane (lanes ! j) = n \<and> decides e fs f r lanes seed j pc) \<longleftrightarrow>
      (\<exists>j < i. rl_lane (lanes ! j) = n \<and> decides e fs f r lanes seed j pc)" for n pc using d by (auto simp: less_Suc_eq)
  moreover have "seed < i" if "seed < Suc i" "decides e fs f r lanes seed seed pc" for pc
    using d that by (auto simp: less_Suc_eq)
  ultimately show ?thesis unfolding e outcome_ok_def using outcome_okD [OF ok] by (intro conjI allI impI) auto
qed

lemma evaluate_branch_ok:
  assumes "keys_ok lanes"
  shows "outcome_ok e fs f r lanes seed (length lanes) (evaluate_branch e fs f r lanes seed)"
  unfolding evaluate_branch_def
proof (rule fold_upt_inv [where P = "outcome_ok e fs f r lanes seed"])
  show "outcome_ok e fs f r lanes seed 0 \<lparr>bo_next = (\<lambda>l. None), bo_paths = [], bo_selected = 0\<rparr>"
    by (simp add: outcome_ok_def paths_ok_def path_bit_def)
  fix i b
  assume "i < length lanes" "outcome_ok e fs f r lanes seed i b"
  then show "outcome_ok e fs f r lanes seed (Suc i) (evaluate_lane e fs f r lanes seed i b)"
    by (cases "\<exists>pc. decides e fs f r lanes seed i pc") (auto intro: evaluate_found [OF _ assms] evaluate_skip)
qed simp

section \<open>Committing a branch\<close>

definition committed :: "replay_env \<Rightarrow> nat \<Rightarrow> uop \<Rightarrow> branch_outcome \<Rightarrow> nat \<Rightarrow> replay_lane \<Rightarrow> replay_lane \<Rightarrow> bool" where
  "committed e f u b prog l l' \<longleftrightarrow> rl_active l \<and> rl_helperRegs l = f \<and> rl_program l = prog \<and>
     (\<exists>pc. bo_next b (rl_lane l) = Some pc \<and> l' = commit_lane e u (length (bo_paths b)) pc l)"

text \<open>After \<open>k\<close> lanes: the later ones are untouched, the earlier ones are or have taken the branch.\<close>

definition commit_inv :: "replay_env \<Rightarrow> nat \<Rightarrow> uop \<Rightarrow> branch_outcome \<Rightarrow> nat \<Rightarrow> replay_lane list \<Rightarrow> nat \<Rightarrow> replay_lane list \<Rightarrow> bool" where
  "commit_inv e f u b seed lanes k ls \<longleftrightarrow> length ls = length lanes \<and> (\<forall>i. k \<le> i \<longrightarrow> ls ! i = lanes ! i) \<and>
     (\<forall>i < k. ls ! i = lanes ! i \<or> committed e f u b (rl_program (lanes ! seed)) (lanes ! i) (ls ! i)) \<and>
     (seed < k \<longrightarrow> rl_active (lanes ! seed) \<and> rl_helperRegs (lanes ! seed) = f \<longrightarrow> bo_next b (rl_lane (lanes ! seed)) \<noteq> None \<longrightarrow>
        committed e f u b (rl_program (lanes ! seed)) (lanes ! seed) (ls ! seed)) \<and>
     (\<forall>i < k. seed < i \<and> rl_uopIndex (ls ! seed) \<noteq> rl_uopIndex (lanes ! i) \<longrightarrow> ls ! i = lanes ! i)"

lemma commit_lane_other: "commit_step e f u b seed i lanes ! j = lanes ! j" if "j \<noteq> i"
  using that by (auto simp: commit_step_def Let_def split: option.split)

lemma commit_inv_step:
  assumes I: "commit_inv e f u b seed lanes k ls" and k: "k < length lanes"
  shows "commit_inv e f u b seed lanes (Suc k) (commit_step e f u b seed k ls)"
proof -
  let ?ls = "commit_step e f u b seed k ls" and ?p = "rl_program (lanes ! seed)"
  have o: "length ls = length lanes" "\<And>i. k \<le> i \<Longrightarrow> ls ! i = lanes ! i"
      "\<And>i. i < k \<Longrightarrow> ls ! i = lanes ! i \<or> committed e f u b ?p (lanes ! i) (ls ! i)"
      "seed < k \<Longrightarrow> rl_active (lanes ! seed) \<Longrightarrow> rl_helperRegs (lanes ! seed) = f \<Longrightarrow> bo_next b (rl_lane (lanes ! seed)) \<noteq> None \<Longrightarrow>
        committed e f u b ?p (lanes ! seed) (ls ! seed)"
      "\<And>i. i < k \<Longrightarrow> seed < i \<Longrightarrow> rl_uopIndex (ls ! seed) \<noteq> rl_uopIndex (lanes ! i) \<Longrightarrow> ls ! i = lanes ! i"
    using I by (auto simp: commit_inv_def)
  have same: "?ls ! j = ls ! j" if "j \<noteq> k" for j using commit_lane_other that by blast
  have len: "length ?ls = length lanes" using o(1) by (simp add: commit_step_def Let_def split: option.split)
  have sp: "rl_program (ls ! seed) = ?p"
    using o(2) [of seed] o(3) [of seed] same_lane_prog commit_lane_same by (cases "seed < k") (auto simp: committed_def same_lane_def)
  have at: "?ls ! k = (if (\<exists>pc. bo_next b (rl_lane (lanes ! k)) = Some pc) \<and> rl_active (lanes ! k) \<and> rl_helperRegs (lanes ! k) = f \<and>
        rl_program (lanes ! k) = ?p \<and> rl_uopIndex (lanes ! k) = rl_uopIndex (ls ! seed)
      then commit_lane e u (length (bo_paths b)) (the (bo_next b (rl_lane (lanes ! k)))) (lanes ! k) else lanes ! k)"
    using o(1) o(2) [of k] k sp by (auto simp: commit_step_def Let_def split: option.split)
  show ?thesis unfolding commit_inv_def
  proof (intro conjI allI impI)
    show "length ?ls = length lanes" by (rule len)
    show "?ls ! i = lanes ! i" if "Suc k \<le> i" for i using that same [of i] o(2) [of i] by simp
    show "?ls ! i = lanes ! i \<or> committed e f u b ?p (lanes ! i) (?ls ! i)" if "i < Suc k" for i
      using that same [of i] o(3) [of i] at by (cases "i = k") (auto simp: committed_def)
    show "committed e f u b ?p (lanes ! seed) (?ls ! seed)"
      if "seed < Suc k" "rl_active (lanes ! seed) \<and> rl_helperRegs (lanes ! seed) = f" "bo_next b (rl_lane (lanes ! seed)) \<noteq> None"
      using that o(4) same [of seed] at o(2) [of seed] by (cases "seed = k") (auto simp: committed_def)
    show "?ls ! i = lanes ! i" if "i < Suc k" "seed < i \<and> rl_uopIndex (?ls ! seed) \<noteq> rl_uopIndex (lanes ! i)" for i
      using that o(5) [of i] same [of i] same [of seed] at by (cases "i = k") auto
  qed
qed

lemma commit_branch_inv: "commit_inv e f u b seed lanes (length lanes) (commit_branch e f u b seed lanes)"
  unfolding commit_branch_def
proof (rule fold_upt_inv [where P = "commit_inv e f u b seed lanes"])
  show "commit_inv e f u b seed lanes 0 lanes" by (simp add: commit_inv_def)
qed (simp_all add: commit_inv_step)

text \<open>Deferring paths and tagging lanes leaves the position of a lane alone.\<close>

definition same_place :: "replay_lane \<Rightarrow> replay_lane \<Rightarrow> bool" where
  "same_place l l' \<longleftrightarrow> same_lane l l' \<and> rl_lanePC l' = rl_lanePC l \<and> rl_uopIndex l' = rl_uopIndex l \<and>
     rl_helperUops l' = rl_helperUops l \<and> rl_regs l' = rl_regs l"

lemma same_place_trans: "same_place l l1 \<Longrightarrow> same_place l1 l2 \<Longrightarrow> same_place l l2"
  by (auto simp: same_place_def intro: same_lane_trans)

lemma same_place_simps [simp]:
  "same_place l l" "same_place l (drop_path f m l)" "same_place l (block_path f m l)" "same_place l (tag_lane f b d l)"
  by (simp_all add: same_place_def) (simp_all add: drop_path_def block_path_def tag_lane_def split: option.split)

lemma defer_fold_place:
  "fold (defer_path f u b) ps (ls, st) = (ls', st') \<Longrightarrow> list_all2 same_place ls ls'"
proof (induction ps arbitrary: ls st)
  case (Cons p ps)
  obtain ls1 st1 where d: "defer_path f u b p (ls, st) = (ls1, st1)" by fastforce
  have "list_all2 same_place ls ls1"
    using d by (auto simp: defer_path_def Let_def list_all2_conv_all_nth split: if_splits prod.splits)
  moreover have "list_all2 same_place ls1 ls'" using Cons d by simp
  ultimately show ?case by (rule list_all2_trans [where ?P1.0 = same_place and ?P2.0 = same_place, rotated]) (rule same_place_trans)
qed (simp add: list_all2_refl)

lemma apply_branch_place:
  "list_all2 same_place (commit_branch e f u b seed (ht_replayLanes t)) (ht_replayLanes (apply_branch e f u b seed t))"
proof -
  let ?c = "commit_branch e f u b seed (ht_replayLanes t)" and ?d = "length (bo_paths b) > 1"
  obtain ls st where fd: "fold (defer_path f u b) (rev [0..<length (bo_paths b)]) (?c, rr_stack (reconvergence_of f t)) = (ls, st)" by fastforce
  have p: "list_all2 same_place ?c ls" by (rule defer_fold_place [OF fd])
  define ls1 where "ls1 = (if ?d \<and> up_reconvergencePC u \<noteq> 0 then ls else ?c)"
  have "ht_replayLanes (apply_branch e f u b seed t) = (if bo_paths b = [] then ls1 else map (tag_lane f b ?d) ls1)"
    using fd by (auto simp: apply_branch_def Let_def set_reconvergence_def ls1_def)
  moreover have "list_all2 same_place ?c ls1" using p by (simp add: ls1_def list_all2_refl)
  moreover have "list_all2 same_place ls1 (map (tag_lane f b ?d) ls1)" by (simp add: list_all2_conv_all_nth)
  ultimately show ?thesis
    using list_all2_trans [where ?P1.0 = same_place and ?P2.0 = same_place and ?P3.0 = same_place, OF same_place_trans] by auto
qed

end
