(* ===== verification/DVR_Files.thy ===== *)
theory DVR_Files
  imports DVR_Helper DVR_HelperRegs_Run
begin

text \<open>
  Several helper register files next to each other. Every generation of lanes has a register file of
  its own, and all of them take names from the one free list of the pipeline. What one file does with
  its names leaves the registers of the lanes of the others as they are.
\<close>

section \<open>The register files together\<close>

lemma bank_self [simp]: "h\<lparr>hr_bank := hr_bank h\<rparr> = h"
  by (cases h) simp

lemma HF_get_update:
  "HF_get f (HF_update f g fs) = g (HF_get f fs)"
  "k \<noteq> f \<Longrightarrow> HF_get k (HF_update f g fs) = (HF_get k fs)\<lparr>hr_bank := hr_bank (g (HF_get f fs))\<rparr>"
  by (simp_all add: HF_get_def HF_update_def Let_def)

lemma HF_update_twice: "HF_update f g2 (HF_update f g1 fs) = HF_update f (g2 \<circ> g1) fs"
  by (simp add: HF_update_def Let_def HF_get_def)

lemma HF_update_const: "HF_update f g fs = HF_update f (\<lambda>_. g (HF_get f fs)) fs"
  by (simp add: HF_update_def)

text \<open>All names that the live files hold or that are free.\<close>

definition files_held :: "nat set \<Rightarrow> helper_files \<Rightarrow> phys_reg_id multiset" where
  "files_held L fs = (\<Sum>f \<in> L. held (HF_get f fs))"

definition files_names :: "nat set \<Rightarrow> helper_files \<Rightarrow> phys_reg_id multiset" where
  "files_names L fs = (case hf_bank fs of None \<Rightarrow> {#} | Some b \<Rightarrow> files_held L fs + free_names b)"

type_synonym lane_files = "nat \<Rightarrow> lane_file"

definition files_ok :: "nat set \<Rightarrow> helper_files \<Rightarrow> lane_files \<Rightarrow> bool" where
  "files_ok L fs A \<longleftrightarrow> finite L \<and> (\<forall>f \<in> L. hr_inv (HF_get f fs, A f)) \<and> (\<forall>r. count (files_names L fs) r \<le> 1) \<and>
     (\<forall>b. hf_bank fs = Some b \<longrightarrow> bank_classes b)"

lemma get_bank [simp]: "hr_bank (HF_get f fs) = hf_bank fs"
  by (simp add: HF_get_def)

lemma files_split:
  assumes "finite L" "f \<in> L" "hf_bank fs = Some b"
  shows "files_names L fs = all_names (HF_get f fs) + files_held (L - {f}) fs"
  using assms by (simp add: files_names_def files_held_def all_names_def sum.remove)

lemma held_other: "k \<noteq> f \<Longrightarrow> held (HF_get k (HF_update f g fs)) = held (HF_get k fs)"
  by (simp add: HF_get_update)

lemma files_held_other: "f \<notin> L \<Longrightarrow> files_held L (HF_update f g fs) = files_held L fs"
  unfolding files_held_def by (rule sum.cong [OF refl], rule held_other) auto

text \<open>
  A change of one file that uses only its own names and free ones: \<open>L\<close> are the live files before and
  the changed one may be new.
\<close>

lemma files_change:
  assumes ok: "files_ok L fs A" and h: "hr_inv (h', A')" and own: "own_bank h h'"
    and h0: "hr_bank h = hf_bank fs" "held h = (if f \<in> L then held (HF_get f fs) else {#})"
  shows "files_ok (insert f L) (HF_update f (\<lambda>_. h') fs) (A(f := A'))"
proof -
  let ?fs = "HF_update f (\<lambda>_. h') fs" and ?R = "L - {f}"
  have fin: "finite L" using ok by (simp add: files_ok_def)
  have rest: "files_held ?R ?fs = files_held ?R fs" by (rule files_held_other) simp
  have b': "hf_bank ?fs = hr_bank h'" by (simp add: HF_update_def Let_def)
  have total: "files_names (insert f L) ?fs = (case hf_bank fs of None \<Rightarrow> {#} | Some b \<Rightarrow> all_names h + files_held ?R fs)"
  proof (cases "hf_bank fs")
    case None
    then show ?thesis using own h0 b' by (simp add: files_names_def own_bank_def)
  next
    case (Some b)
    then obtain b1 where b1: "hr_bank h' = Some b1" using own h0(1) by (auto simp: own_bank_def)
    have "files_names (insert f L) ?fs = all_names h' + files_held ?R ?fs"
      using files_split [of "insert f L" f ?fs b1] fin b1 b' by (simp add: HF_get_update)
    then show ?thesis using rest own Some by (simp add: own_bank_def)
  qed
  also have "\<dots> = files_names L fs"
  proof (cases "hf_bank fs")
    case None
    then show ?thesis by (simp add: files_names_def)
  next
    case (Some b)
    then show ?thesis
    proof (cases "f \<in> L")
      case True
      then have "all_names h = all_names (HF_get f fs)" using h0 Some by (simp add: all_names_def)
      then show ?thesis using files_split [OF fin True Some] Some by simp
    next
      case False
      then show ?thesis using h0 Some by (simp add: all_names_def files_names_def)
    qed
  qed
  finally have names: "files_names (insert f L) ?fs = files_names L fs" .
  have "hr_inv (HF_get k ?fs, A k)" if k: "k \<in> L" "k \<noteq> f" for k
  proof (cases "hf_bank fs")
    case None
    then have "hr_bank h' = None" using own h0(1) by (simp add: own_bank_def)
    then have "HF_get k ?fs = HF_get k fs" using k None by (simp add: HF_get_def HF_update_def Let_def)
    then show ?thesis using ok k by (simp add: files_ok_def)
  next
    case (Some b)
    then obtain b1 where b1: "hr_bank h' = Some b1" using own h0(1) by (auto simp: own_bank_def)
    let ?h = "HF_get k fs"
    have g: "HF_get k ?fs = ?h\<lparr>hr_bank := Some b1\<rparr>" using k b1 by (simp add: HF_get_update)
    have cl: "bank_classes b1" using h b1 by (simp add: hr_inv_def phys_ok_def)
    have le: "held ?h \<subseteq># files_held ?R fs"
      using k fin sum.remove [of ?R k "\<lambda>f. held (HF_get f fs)"] by (simp add: files_held_def)
    have "names_unique (HF_get k ?fs)"
    proof -
      have "all_names (HF_get k ?fs) \<subseteq># files_names (insert f L) ?fs"
        using k b1 b' files_split [of "insert f L" k ?fs b1] fin by simp
      then have "count (all_names (HF_get k ?fs)) x \<le> count (files_names (insert f L) ?fs) x" for x by (rule mset_subset_eq_count)
      moreover have "count (files_names (insert f L) ?fs) x \<le> 1" for x unfolding names using ok by (simp add: files_ok_def)
      ultimately show ?thesis unfolding names_unique_def by (meson le_trans)
    qed
    moreover have "rb_values b1 r = rb_values b r" if r: "r \<in># held ?h" for r
    proof -
      have "count (all_names h) r + count (files_held ?R fs) r \<le> 1"
        using ok total names Some unfolding files_ok_def by (metis (mono_tags, lifting) count_union option.simps(5))
      moreover have "0 < count (files_held ?R fs) r" using r le by (meson count_greater_zero_iff mset_subset_eqD)
      ultimately have "count (all_names h) r = 0" by linarith
      then have "r \<notin># all_names h" by (simp add: not_in_iff)
      then show ?thesis using own h0(1) Some b1 by (simp add: own_bank_def bank_frame_def bank_values_def)
    qed
    ultimately have "hr_step (?h, A k) (?h\<lparr>hr_bank := Some b1\<rparr>, A k)"
      using hr_step.other_users [of ?h b b1 "A k"] Some cl g by simp
    then show ?thesis using hr_step_inv ok k g by (simp add: files_ok_def)
  qed
  moreover have "hr_inv (HF_get f ?fs, A')" using h by (simp add: HF_get_update)
  moreover have "bank_classes b1" if "hf_bank ?fs = Some b1" for b1 using h that b' by (simp add: hr_inv_def phys_ok_def)
  moreover have "\<forall>r. count (files_names (insert f L) ?fs) r \<le> 1" unfolding names using ok by (simp add: files_ok_def)
  ultimately show ?thesis using fin by (simp add: files_ok_def)
qed

text \<open>Operations of one file, and a new file.\<close>

lemma ops_inv:
  assumes "hr_op\<^sup>*\<^sup>* s s'" "hr_inv s"
  shows "hr_inv s' \<and> own_bank (fst s) (fst s')"
  using assms
proof (induction rule: rtranclp_induct)
  case base
  then show ?case by (simp add: own_bank_def)
next
  case (step y z)
  then show ?case using op_inv [of "fst y" "snd y" "fst z" "snd z"] own_bank_trans by simp blast
qed

lemma files_ops:
  assumes ok: "files_ok L fs A" "f \<in> L" and s: "hr_op\<^sup>*\<^sup>* (HF_get f fs, A f) (g (HF_get f fs), A')"
  shows "files_ok L (HF_update f g fs) (A(f := A'))"
proof -
  have i: "hr_inv (HF_get f fs, A f)" using ok by (simp add: files_ok_def)
  have "files_ok (insert f L) (HF_update f (\<lambda>_. g (HF_get f fs)) fs) (A(f := A'))"
    by (rule files_change [OF ok(1)]) (use ops_inv [OF s i] ok(2) in auto)
  then show ?thesis using ok(2) HF_update_const [of f g fs] by (simp add: insert_absorb)
qed

lemma new_phys_ok:
  assumes ok: "files_ok L fs A"
  shows "phys_ok (HR_new\<lparr>hr_bank := hf_bank fs\<rparr>)"
proof (cases "hf_bank fs")
  case None
  then have "HR_new\<lparr>hr_bank := hf_bank fs\<rparr> = HR_new" by (simp add: HR_new_def)
  then show ?thesis using hr_new_ok(1) by simp
next
  case (Some b)
  have "count (free_names b) r \<le> 1" for r
    using ok Some by (auto simp: files_ok_def files_names_def) (metis add_leD2)
  then have "names_unique (HR_configureSharedPhysicalBank b HR_new)"
    using held_new by (simp add: names_unique_def all_names_def HR_configureSharedPhysicalBank_def)
  then show ?thesis using hr_new_ok(2) [of b] ok Some by (simp add: files_ok_def HR_configureSharedPhysicalBank_def)
qed

lemma files_start:
  assumes ok: "files_ok L fs A" and f: "f \<notin> L"
  shows "files_ok (insert f L) (HF_update f (\<lambda>_. HR_initialize regs (HR_new\<lparr>hr_bank := hf_bank fs\<rparr>)) fs) (A(f := \<lambda>a l. (regs a, 0)))"
proof -
  let ?h = "HR_new\<lparr>hr_bank := hf_bank fs\<rparr>"
  have hd: "held ?h = {#}" using held_new by simp
  show ?thesis
    using files_change [OF ok, of "HR_initialize regs ?h" "\<lambda>a l. (regs a, 0)" ?h f] start_inv [of ?h regs] hr_initialize_ok(1) [of ?h regs]
      hd f new_phys_ok [OF ok] by simp
qed

text \<open>What a lane reads.\<close>

lemma files_read:
  assumes "files_ok L fs A" "f \<in> L" "a < HR_NumArchitecturalRegs" "l < 128"
  shows "HR_read a l (HF_get f fs) = fst (A f a l)" and "HR_readyAt a l (HF_get f fs) = snd (A f a l)"
  using assms by (auto simp: files_ok_def hr_inv_def hr_view_def prod_eq_iff)

end
