(* ===== verification/DVR_Replay_Scalar.thy ===== *)
theory DVR_Replay_Scalar
  imports DVR_Replay_Inv DVR_Files
begin

text \<open>
  What one lane of the replay means on its own: a scalar run of the recorded program. Every part of
  an issue attempt moves each lane along such a run, whatever groups, masks, reconvergence frames
  and renamed registers it is executed with.
\<close>

section \<open>A scalar run of a recorded program\<close>

datatype position = At addr | Parked nat

definition reg_of :: "(nat \<Rightarrow> reg_val) \<Rightarrow> int \<Rightarrow> reg_val" where
  "reg_of R r = (if 0 \<le> r \<and> r < int HR_NumArchitecturalRegs then R (nat r) else 0)"

definition set_reg :: "int \<Rightarrow> reg_val \<Rightarrow> (nat \<Rightarrow> reg_val) \<Rightarrow> nat \<Rightarrow> reg_val" where
  "set_reg r v R = (if 0 \<le> r \<and> r < int HR_NumArchitecturalRegs then R(nat r := v) else R)"

definition scalar_direction :: "uop \<Rightarrow> (nat \<Rightarrow> reg_val) \<Rightarrow> bool option" where
  "scalar_direction u R =
     (if \<not> up_tainted u then Some (up_branchTaken u) else Uop_evaluateBranch u (reg_of R (up_source0 u)) (reg_of R (up_source1 u)))"

definition scalar_result :: "uop \<Rightarrow> (nat \<Rightarrow> reg_val) \<Rightarrow> reg_val option" where
  "scalar_result u R = Uop_evaluate u (reg_of R (up_source0 u)) (reg_of R (up_source1 u))"

definition successor :: "replay_template \<Rightarrow> nat \<Rightarrow> addr" where
  "successor prog i =
     (let u = rt_uops prog i in
      if up_alternatePath u \<and> up_alternateResumePC u \<noteq> 0 then up_alternateResumePC u
      else if up_control u \<and> \<not> up_conditional u \<and> up_branchTargetPC u \<noteq> 0 then up_branchTargetPC u
      else next_in_program prog i)"

text \<open>
  One instruction of the lane with its own registers. \<open>loads\<close> are the values that memory returned for
  this lane, with the PC of the load. The value of a load that does not depend on the trigger is not
  known to the helper, which goes on with the old register.
\<close>

inductive scalar_step :: "replay_template \<Rightarrow> (addr \<times> reg_val) set \<Rightarrow> position \<times> (nat \<Rightarrow> reg_val) \<Rightarrow>
    position \<times> (nat \<Rightarrow> reg_val) \<Rightarrow> bool" for prog loads where
  nop: "findPC prog pc = Some i \<Longrightarrow> skipped (rt_uops prog i) \<Longrightarrow> i + 1 < rt_count prog \<Longrightarrow>
    scalar_step prog loads (At pc, R) (At (up_pc (rt_uops prog (i + 1))), R)"
| branch: "findPC prog pc = Some i \<Longrightarrow> up_conditional (rt_uops prog i) \<Longrightarrow> scalar_direction (rt_uops prog i) R = Some d \<Longrightarrow>
    scalar_step prog loads (At pc, R)
      (At (if d then up_branchTargetPC (rt_uops prog i) else up_fallthroughPC (rt_uops prog i)), R)"
| unknown_load: "findPC prog pc = Some i \<Longrightarrow> \<not> up_conditional (rt_uops prog i) \<Longrightarrow> scalar_result (rt_uops prog i) R = Some v \<Longrightarrow>
    up_load (rt_uops prog i) \<Longrightarrow> \<not> up_tainted (rt_uops prog i) \<Longrightarrow> scalar_step prog loads (At pc, R) (At (next_in_program prog i), R)"
| request: "findPC prog pc = Some i \<Longrightarrow> \<not> up_conditional (rt_uops prog i) \<Longrightarrow> scalar_result (rt_uops prog i) R = Some v \<Longrightarrow>
    up_load (rt_uops prog i) \<Longrightarrow> up_tainted (rt_uops prog i) \<Longrightarrow> scalar_step prog loads (At pc, R) (Parked i, R)"
| compute: "findPC prog pc = Some i \<Longrightarrow> \<not> up_conditional (rt_uops prog i) \<Longrightarrow> scalar_result (rt_uops prog i) R = Some v \<Longrightarrow>
    \<not> up_load (rt_uops prog i) \<Longrightarrow>
    scalar_step prog loads (At pc, R) (At (successor prog i), set_reg (up_destination (rt_uops prog i)) v R)"
| response: "i < rt_count prog \<Longrightarrow> (up_pc (rt_uops prog i), v) \<in> loads \<Longrightarrow>
    scalar_step prog loads (Parked i, R) (At (next_in_program prog i), set_reg (up_destination (rt_uops prog i)) v R)"

lemma scalar_step_mono: "scalar_step prog loads s s' \<Longrightarrow> loads \<subseteq> loads' \<Longrightarrow> scalar_step prog loads' s s'"
  by (induction rule: scalar_step.induct) (blast intro: scalar_step.intros)+

lemma scalar_steps_mono: "(scalar_step prog loads)\<^sup>*\<^sup>* s s' \<Longrightarrow> loads \<subseteq> loads' \<Longrightarrow> (scalar_step prog loads')\<^sup>*\<^sup>* s s'"
  by (rule rtranclp_mono [THEN predicate2D]) (auto intro: scalar_step_mono)

text \<open>Where a lane is: at the PC of the frame that defers it, at its own PC, or waiting for a load.\<close>

definition in_frame :: "replay_frame list \<Rightarrow> nat \<Rightarrow> bool" where
  "in_frame st n \<longleftrightarrow> (\<exists>fr \<in> set st. test_lane (rf_mask fr) n)"

fun lane_pos :: "replay_frame list \<Rightarrow> replay_lane \<Rightarrow> position" where
  "lane_pos [] l = (if rl_lanePC l = 0 then Parked (rl_uopIndex l) else At (rl_lanePC l))"
| "lane_pos (fr # st) l = (if test_lane (rf_mask fr) (rl_lane l) then At (rf_pc fr) else lane_pos st l)"

lemma lane_pos_free: "\<not> in_frame st (rl_lane l) \<Longrightarrow> lane_pos st l = lane_pos [] l"
  by (induction st) (auto simp: in_frame_def)

lemma lane_pos_cong:
  "rl_lane l' = rl_lane l \<Longrightarrow> rl_lanePC l' = rl_lanePC l \<Longrightarrow> rl_uopIndex l' = rl_uopIndex l \<Longrightarrow> lane_pos st l' = lane_pos st l"
  by (induction st) auto

lemma lane_pos_frame: "rl_lane l' = rl_lane l \<Longrightarrow> in_frame st (rl_lane l) \<Longrightarrow> lane_pos st l' = lane_pos st l"
  by (induction st) (auto simp: in_frame_def)

definition frame_ok :: "replay_frame \<Rightarrow> bool" where
  "frame_ok fr \<longleftrightarrow> length (rf_mask fr) = 2 \<and> rf_pc fr \<noteq> 0 \<and> rf_reconvergencePC fr \<noteq> 0"

fun frames_ok :: "replay_frame list \<Rightarrow> bool" where
  "frames_ok [] = True"
| "frames_ok (fr # st) \<longleftrightarrow> frame_ok fr \<and> (\<forall>n < 128. test_lane (rf_mask fr) n \<longrightarrow> \<not> in_frame st n) \<and> frames_ok st"

text \<open>A deferred lane is blocked and not waiting for a load.\<close>

definition placed :: "replay_frame list \<Rightarrow> replay_lane \<Rightarrow> bool" where
  "placed st l \<longleftrightarrow> (in_frame st (rl_lane l) \<longrightarrow> rl_reconvergenceBlocked l \<and> rl_lanePC l \<noteq> 0)"

text \<open>
  The lanes of one list next to the stacks of their files: every active lane is placed, and its
  position is one that \<open>Q\<close> allows. \<open>P\<close> gives the program of a lane.
\<close>

definition lanes_ok :: "(nat \<times> nat \<Rightarrow> nat) \<Rightarrow> (nat \<times> nat \<Rightarrow> position \<Rightarrow> bool) \<Rightarrow> (nat \<Rightarrow> replay_frame list) \<Rightarrow> replay_lane list \<Rightarrow> bool" where
  "lanes_ok P Q st ls \<longleftrightarrow> keys_ok ls \<and> (\<forall>f. frames_ok (st f)) \<and>
     (\<forall>l \<in> set ls. rl_program l = P (lane_key l) \<and>
       (rl_active l \<longrightarrow> placed (st (rl_helperRegs l)) l \<and> Q (lane_key l) (lane_pos (st (rl_helperRegs l)) l)))"

definition stacks :: "helper_thread \<Rightarrow> nat \<Rightarrow> replay_frame list" where
  "stacks t f = rr_stack (reconvergence_of f t)"

lemma lanes_okD:
  assumes "lanes_ok P Q st ls"
  shows "keys_ok ls" and "frames_ok (st f)" and "l \<in> set ls \<Longrightarrow> rl_program l = P (lane_key l)"
    and "l \<in> set ls \<Longrightarrow> rl_active l \<Longrightarrow> placed (st (rl_helperRegs l)) l"
    and "l \<in> set ls \<Longrightarrow> rl_active l \<Longrightarrow> Q (lane_key l) (lane_pos (st (rl_helperRegs l)) l)"
  using assms by (auto simp: lanes_ok_def)

lemma lanes_ok_filter: "lanes_ok P Q st ls \<Longrightarrow> lanes_ok P Q st (filter B ls)"
  by (auto simp: lanes_ok_def keys_ok_filter)

text \<open>Changing lanes in place.\<close>

lemma lanes_ok_change:
  assumes ok: "lanes_ok P Q st ls" and same: "same_lanes ls ls'" and fr: "\<And>f. frames_ok (st' f)"
    and l: "\<And>i. i < length ls \<Longrightarrow> rl_active (ls' ! i) \<Longrightarrow> rl_active (ls ! i) \<and> placed (st' (rl_helperRegs (ls ! i))) (ls' ! i) \<and>
      Q' (lane_key (ls ! i)) (lane_pos (st' (rl_helperRegs (ls ! i))) (ls' ! i))"
  shows "lanes_ok P Q' st' ls'"
proof -
  have "rl_program l' = P (lane_key l') \<and> (rl_active l' \<longrightarrow> placed (st' (rl_helperRegs l')) l' \<and>
      Q' (lane_key l') (lane_pos (st' (rl_helperRegs l')) l'))" if mem: "l' \<in> set ls'" for l'
  proof -
    obtain i where i: "i < length ls'" "l' = ls' ! i" using mem unfolding in_set_conv_nth by blast
    have "i < length ls" using same_lanes_length [OF same] i(1) by simp
    then have s: "i < length ls" "same_lane (ls ! i) l'" using same_lanes_nth [OF same] i(2) by simp_all
    have k: "lane_key l' = lane_key (ls ! i)" by (rule same_lane_key [OF s(2)])
    have "rl_program (ls ! i) = P (lane_key (ls ! i))" using lanes_okD(3) [OF ok] s(1) by simp
    moreover have "rl_program l' = rl_program (ls ! i)" "rl_helperRegs l' = rl_helperRegs (ls ! i)" using s(2) by (simp_all add: same_lane_def)
    ultimately show ?thesis unfolding k using l [OF s(1)] i(2) by simp
  qed
  then show ?thesis using fr keys_ok_same [OF same lanes_okD(1) [OF ok]] by (simp add: lanes_ok_def)
qed

section \<open>Popping frames\<close>

lemma pop_lane_pos:
  assumes fr: "frames_ok (fr # st)" and l: "rl_lane l < 128" "rl_active l" "rl_helperRegs l = f" "placed (fr # st) l"
  shows "placed st (pop_lane f fr l) \<and> lane_pos st (pop_lane f fr l) = lane_pos (fr # st) l"
proof (cases "test_lane (rf_mask fr) (rl_lane l)")
  case True
  then have "\<not> in_frame st (rl_lane l)" "rf_pc fr \<noteq> 0" using fr l(1) by (auto simp: frame_ok_def)
  then show ?thesis using True l lane_pos_free [of st "pop_lane f fr l"] by (auto simp: pop_lane_def placed_def)
next
  case False
  have "lane_pos st (pop_lane f fr l) = lane_pos st l" using False by (intro lane_pos_cong) (auto simp: pop_lane_def)
  moreover have "in_frame (fr # st) n \<longleftrightarrow> test_lane (rf_mask fr) n \<or> in_frame st n" for n by (simp add: in_frame_def)
  ultimately show ?thesis using False l by (auto simp: pop_lane_def placed_def)
qed

lemma pop_frames_ok:
  assumes "pop_frames f frs ls r = (ls', r')" "lanes_ok P Q (st(f := frs)) ls"
  shows "lanes_ok P Q (st(f := rr_stack r')) ls' \<and> same_lanes ls ls'"
  using assms
proof (induction frs arbitrary: ls r)
  case Nil
  then have "ls' = ls" "rr_stack r' = []" by auto
  then show ?case using Nil.prems(2) by simp
next
  case (Cons fr frs)
  show ?case
  proof (cases "path_ended ls f fr")
    case False
    then have "ls' = ls" "rr_stack r' = fr # frs" using Cons.prems(1) by auto
    then show ?thesis using Cons.prems(2) by simp
  next
    case True
    let ?ls = "map (pop_lane f fr) ls"
    have s: "same_lanes ls ?ls" by (rule same_lanes_map) simp
    note o = lanes_okD [OF Cons.prems(2)]
    have "lanes_ok P Q (st(f := frs)) ?ls"
    proof (rule lanes_ok_change [OF Cons.prems(2) s])
      show "frames_ok ((st(f := frs)) k)" for k using o(2) [of k] o(2) [of f] by (cases "k = f") auto
      fix i
      assume i: "i < length ls" "rl_active (?ls ! i)"
      let ?l = "ls ! i"
      have act: "rl_active ?l" using i by (auto simp: pop_lane_def split: if_splits)
      have n: "rl_lane ?l < 128" using o(1) i(1) by (simp add: keys_ok_def)
      have "placed ((st(f := frs)) (rl_helperRegs ?l)) (pop_lane f fr ?l) \<and>
          lane_pos ((st(f := frs)) (rl_helperRegs ?l)) (pop_lane f fr ?l) = lane_pos ((st(f := fr # frs)) (rl_helperRegs ?l)) ?l"
      proof (cases "rl_helperRegs ?l = f")
        case True
        then show ?thesis using pop_lane_pos [OF _ n act True] o(2) [of f] o(4) [of ?l] i act by simp
      next
        case False
        then show ?thesis using o(4) [of ?l] i act by (simp add: pop_lane_def)
      qed
      then show "rl_active ?l \<and> placed ((st(f := frs)) (rl_helperRegs ?l)) (?ls ! i) \<and>
          Q (lane_key ?l) (lane_pos ((st(f := frs)) (rl_helperRegs ?l)) (?ls ! i))"
        using act i o(5) [of ?l] by simp
    qed
    from Cons.IH [OF _ this] Cons.prems(1) True s same_lanes_trans show ?thesis by (simp add: Let_def)
  qed
qed

lemma pop_frames_sub: "pop_frames f frs ls r = (ls', r') \<Longrightarrow> set (rr_stack r') \<subseteq> set frs"
proof (induction frs arbitrary: ls r)
  case (Cons fr frs)
  then show ?case by (cases "path_ended ls f fr") auto
qed auto

lemma stacks_set [simp]:
  "stacks (set_reconvergence f r t) = (stacks t)(f := rr_stack r)"
  "stacks (t\<lparr>ht_replayLanes := ls\<rparr>) = stacks t"
  by (auto simp: stacks_def fun_eq_iff set_reconvergence_def reconvergence_of_def)

lemma lanes_set [simp]: "ht_replayLanes (set_reconvergence f r t) = ht_replayLanes t"
  by (simp add: set_reconvergence_def)

lemma refresh_stack [simp]: "rr_stack (refreshCurrentGroup ls f r) = rr_stack r"
  by (simp add: refreshCurrentGroup_def Let_def split: option.split)

lemma clear_path_ok:
  assumes "lanes_ok P Q st ls"
  shows "lanes_ok P Q st (map (clear_path f) ls)"
proof (rule lanes_ok_change [OF assms])
  show "same_lanes ls (map (clear_path f) ls)" by (rule same_lanes_map) simp
  show "frames_ok (st k)" for k by (rule lanes_okD(2) [OF assms])
  fix i
  assume i: "i < length ls" "rl_active (map (clear_path f) ls ! i)"
  let ?l = "ls ! i"
  have c: "rl_active (clear_path f ?l) = rl_active ?l" "rl_lane (clear_path f ?l) = rl_lane ?l" "rl_lanePC (clear_path f ?l) = rl_lanePC ?l"
      "rl_uopIndex (clear_path f ?l) = rl_uopIndex ?l" "rl_reconvergenceBlocked (clear_path f ?l) = rl_reconvergenceBlocked ?l"
    by (simp_all add: clear_path_def)
  then show "rl_active ?l \<and> placed (st (rl_helperRegs ?l)) (map (clear_path f) ls ! i) \<and>
      Q (lane_key ?l) (lane_pos (st (rl_helperRegs ?l)) (map (clear_path f) ls ! i))"
    using i lanes_okD(4,5) [OF assms, of ?l] lane_pos_cong [of "clear_path f ?l" ?l] by (simp add: placed_def)
qed

lemma reconverge_ok:
  assumes ok: "lanes_ok P Q (stacks t) (ht_replayLanes t)"
  shows "lanes_ok P Q (stacks (reconverge f t)) (ht_replayLanes (reconverge f t))"
proof -
  let ?r = "refreshCurrentGroup (ht_replayLanes t) f (reconvergence_of f t)"
  obtain ls r1 where p: "pop_frames f (rr_stack ?r) (ht_replayLanes t) ?r = (ls, r1)" by fastforce
  have "(stacks t)(f := rr_stack ?r) = stacks t" by (auto simp: stacks_def)
  then have o: "lanes_ok P Q ((stacks t)(f := rr_stack r1)) ls" using pop_frames_ok [OF p, where st = "stacks t"] ok by simp
  show ?thesis
  proof (cases "rr_stack r1 = []")
    case True
    then have "reconverge f t = set_reconvergence f (r1\<lparr>rr_renamedDestinations := {}\<rparr>) (t\<lparr>ht_replayLanes := map (clear_path f) ls\<rparr>)"
      using p by (simp add: reconverge_def Let_def)
    then show ?thesis using clear_path_ok [OF o] by simp
  next
    case False
    then have "reconverge f t = set_reconvergence f r1 (t\<lparr>ht_replayLanes := ls\<rparr>)" using p by (simp add: reconverge_def Let_def)
    then show ?thesis using o by simp
  qed
qed

text \<open>The lanes named by frames are among \<open>K\<close>.\<close>

definition frames_in :: "(nat \<times> nat) set \<Rightarrow> (nat \<Rightarrow> replay_frame list) \<Rightarrow> bool" where
  "frames_in K st \<longleftrightarrow> (\<forall>f n. n < 128 \<and> in_frame (st f) n \<longrightarrow> (f, n) \<in> K)"

lemma reconverge_frames:
  assumes "frames_in K (stacks t)"
  shows "frames_in K (stacks (reconverge f t))"
proof -
  let ?r = "refreshCurrentGroup (ht_replayLanes t) f (reconvergence_of f t)"
  obtain ls r1 where p: "pop_frames f (rr_stack ?r) (ht_replayLanes t) ?r = (ls, r1)" by fastforce
  have "set (rr_stack r1) \<subseteq> set (stacks t f)" using pop_frames_sub [OF p] by (simp add: stacks_def)
  moreover have "stacks (reconverge f t) = (stacks t)(f := rr_stack r1)" using p by (simp add: reconverge_def Let_def)
  ultimately show ?thesis using assms by (auto simp: frames_in_def in_frame_def)
qed

section \<open>Visiting lanes\<close>

text \<open>
  A program whose instructions have different nonzero PCs and whose branches have two successors.
  The first instruction is the trigger, which the helper does not execute.
\<close>

definition wf_program :: "replay_template \<Rightarrow> bool" where
  "wf_program prog \<longleftrightarrow> distinct (map (\<lambda>i. up_pc (rt_uops prog i)) [1..<rt_count prog]) \<and>
     (\<forall>i \<in> {1..<rt_count prog}. up_pc (rt_uops prog i) \<noteq> 0 \<and>
       (up_conditional (rt_uops prog i) \<longrightarrow> up_branchTargetPC (rt_uops prog i) \<noteq> 0 \<and> up_fallthroughPC (rt_uops prog i) \<noteq> 0))"

lemma findPC_Some: "findPC prog pc = Some i \<Longrightarrow> 1 \<le> i \<and> i < rt_count prog \<and> up_pc (rt_uops prog i) = pc \<and> pc \<noteq> 0"
  by (auto simp: findPC_def find_Some_iff nth_append split: if_splits)

lemma findPC_self:
  assumes "wf_program prog" "1 \<le> i" "i < rt_count prog"
  shows "findPC prog (up_pc (rt_uops prog i)) = Some i"
proof -
  let ?pc = "up_pc (rt_uops prog i)"
  have nz: "?pc \<noteq> 0" using assms by (auto simp: wf_program_def)
  have "\<exists>x \<in> set [1..<rt_count prog]. up_pc (rt_uops prog x) = ?pc" using assms by auto
  then have "findPC prog ?pc \<noteq> None" using nz by (auto simp: findPC_def find_None_iff)
  then obtain j where j: "findPC prog ?pc = Some j" by blast
  have d: "inj_on (\<lambda>i. up_pc (rt_uops prog i)) {1..<rt_count prog}" using assms(1) by (simp add: wf_program_def distinct_map)
  have "j = i" by (rule inj_onD [OF d]) (use findPC_Some [OF j] assms in auto)
  then show ?thesis using j by simp
qed

text \<open>\<open>Q\<close> follows the instructions that are skipped.\<close>

definition nop_step :: "replay_template \<Rightarrow> addr \<Rightarrow> addr \<Rightarrow> bool" where
  "nop_step prog pc pc' \<longleftrightarrow> (\<exists>i. findPC prog pc = Some i \<and> skipped (rt_uops prog i) \<and> i + 1 < rt_count prog \<and> pc' = up_pc (rt_uops prog (i + 1)))"

definition nops_closed :: "programs \<Rightarrow> (nat \<times> nat \<Rightarrow> nat) \<Rightarrow> (nat \<times> nat \<Rightarrow> position \<Rightarrow> bool) \<Rightarrow> bool" where
  "nops_closed programs P Q \<longleftrightarrow> (\<forall>k pc pc'. Q k (At pc) \<and> nop_step (programs (P k)) pc pc' \<longrightarrow> Q k (At pc'))"

lemma nops_closedD:
  assumes "nops_closed programs P Q" "(nop_step (programs (P k)))\<^sup>*\<^sup>* pc pc'" "Q k (At pc)"
  shows "Q k (At pc')"
  using assms(2,3) by (induction rule: rtranclp_induct) (use assms(1) in \<open>unfold nops_closed_def, blast+\<close>)

lemma skip_loop_pos:
  assumes "skip_loop prog m i l = (j, l')" "wf_program prog" "findPC prog (rl_lanePC l) = Some i"
  shows "rl_reconvergenceBlocked l' = rl_reconvergenceBlocked l \<and> (rl_active l' \<longrightarrow> rl_active l) \<and>
    (nop_step prog)\<^sup>*\<^sup>* (rl_lanePC l) (rl_lanePC l') \<and> findPC prog (rl_lanePC l') = Some j"
  using assms
proof (induction prog m i l rule: skip_loop.induct)
  case (1 prog m i l)
  let ?l1 = "l\<lparr>rl_helperUops := rl_helperUops l + 1\<rparr>" and ?pc = "up_pc (rt_uops prog (i + 1))"
  have i: "1 \<le> i" "i < rt_count prog" using findPC_Some [OF 1(4)] by auto
  consider (stop) "\<not> skipped (rt_uops prog i)" | (last) "skipped (rt_uops prog i)" "rl_helperUops ?l1 \<ge> m \<or> i + 1 \<ge> rt_count prog"
    | (more) "skipped (rt_uops prog i)" "\<not> (rl_helperUops ?l1 \<ge> m \<or> i + 1 \<ge> rt_count prog)" by blast
  then show ?case
  proof cases
    case stop
    then show ?thesis using 1(2,4) by (auto simp: skip_loop.simps [of prog m i])
  next
    case last
    then show ?thesis using 1(2,4) i by (auto simp: skip_loop.simps [of prog m i])
  next
    case more
    have s: "skip_loop prog m (i + 1) (?l1\<lparr>rl_lanePC := ?pc\<rparr>) = (j, l')"
      using 1(2) more i by (simp add: skip_loop.simps [of prog m i])
    have nx: "findPC prog ?pc = Some (i + 1)" using findPC_self [OF 1(3)] more by simp
    have "\<not> (rt_count prog \<le> i \<or> \<not> skipped (rt_uops prog i))" using i more by simp
    from 1(1) [OF this refl more(2) s 1(3)] nx
    have "rl_reconvergenceBlocked l' = rl_reconvergenceBlocked l \<and> (rl_active l' \<longrightarrow> rl_active l)" "(nop_step prog)\<^sup>*\<^sup>* ?pc (rl_lanePC l')"
      "findPC prog (rl_lanePC l') = Some j" by auto
    moreover have "nop_step prog (rl_lanePC l) ?pc" using 1(4) more by (auto simp: nop_step_def)
    ultimately show ?thesis by (meson converse_rtranclp_into_rtranclp)
  qed
qed

text \<open>A lane that may join the group: it was in the current group, and its index is that of its PC.\<close>

definition visited :: "replay_env \<Rightarrow> nat \<Rightarrow> replay_reconvergence \<Rightarrow> replay_lane \<Rightarrow> replay_lane \<Rightarrow> bool" where
  "visited e f r l l' \<longleftrightarrow> inCurrentGroup f r l \<and> same_lane l l' \<and> eligible f l' \<and> findPC (lane_prog e l') (rl_lanePC l') = Some (rl_uopIndex l') \<and>
     (nop_step (lane_prog e l))\<^sup>*\<^sup>* (rr_currentPC r) (rl_lanePC l')"

lemma visit_lane_visited:
  assumes v: "visit_lane e c t l = (v, l')" and wf: "wf_program (lane_prog e l)"
  shows "l' = l \<or> \<not> rl_active l' \<or> (\<exists>f. c = Some f \<and> v \<and> visited e f (reconvergence_of f t) l l')"
    and "v \<Longrightarrow> \<exists>f. c = Some f \<and> visited e f (reconvergence_of f t) l l'" and "rl_active l' \<Longrightarrow> rl_active l"
proof -
  consider (same) "l' = l" "\<not> v" | (stopped) "\<not> rl_active l'" "\<not> v"
    | (run) f i j l1 where "c = Some f" "inCurrentGroup f (reconvergence_of f t) l" "findPC (lane_prog e l) (rl_lanePC l) = Some i"
        "skip_loop (lane_prog e l) (en_maxUops e) i l = (j, l1)" "rl_active l1" "v" "l' = l1\<lparr>rl_uopIndex := j\<rparr>"
  proof -
    consider "\<not> rl_active l \<or> \<not> in_program e l" | "rl_active l" "in_program e l" "rl_helperUops l \<ge> en_maxUops e"
      | "rl_active l" "in_program e l" "\<not> rl_helperUops l \<ge> en_maxUops e" by blast
    then show thesis
    proof cases
      case 1
      then have "v = False \<and> l' = l" using v by (auto simp: visit_lane_def)
      then show thesis using same by simp
    next
      case 2
      then have "v = False \<and> l' = l\<lparr>rl_active := False, rl_termination := Timeout\<rparr>" using v by (simp add: visit_lane_def)
      then show thesis using stopped by simp
    next
      case 3
      show thesis
      proof (cases "\<exists>f. c = Some f \<and> inCurrentGroup f (reconvergence_of f t) l")
        case False
        then have "v = False \<and> l' = l" using v 3 by (cases c) (auto simp: visit_lane_def)
        then show thesis using same by simp
      next
        case True
        then obtain f where f: "c = Some f" "inCurrentGroup f (reconvergence_of f t) l" by blast
        show thesis
        proof (cases "findPC (lane_prog e l) (rl_lanePC l)")
          case None
          then have "\<not> rl_active l' \<and> \<not> v" using v 3 f by (auto simp: visit_lane_def)
          then show thesis using stopped by simp
        next
          case (Some i)
          obtain j l1 where s: "skip_loop (lane_prog e l) (en_maxUops e) i l = (j, l1)" by fastforce
          have "visit_lane e c t l = (if \<not> rl_active l1 then (False, l1) else (True, l1\<lparr>rl_uopIndex := j\<rparr>))"
            using 3 f Some s by (simp add: visit_lane_def)
          then show thesis using v stopped run [OF f Some s] by (cases "rl_active l1") auto
        qed
      qed
    qed
  qed
  then have main: "(l' = l \<and> \<not> v) \<or> (\<not> rl_active l' \<and> \<not> v) \<or> (rl_active l \<and> (\<exists>f. c = Some f \<and> v \<and> visited e f (reconvergence_of f t) l l'))"
  proof cases
    case run
    note s = skip_loop_pos [OF run(4) wf run(3)]
    have sl: "same_lane l l1" by (rule skip_loop_same [OF run(4)])
    have "visited e f (reconvergence_of f t) l l'"
      using run s sl by (auto simp: visited_def inCurrentGroup_def eligible_def same_lane_def lane_prog_def)
    then show ?thesis using run s by auto
  qed auto
  have "rl_active l" if "v" using main that by auto
  then show "l' = l \<or> \<not> rl_active l' \<or> (\<exists>f. c = Some f \<and> v \<and> visited e f (reconvergence_of f t) l l')"
    "v \<Longrightarrow> \<exists>f. c = Some f \<and> visited e f (reconvergence_of f t) l l'" "rl_active l' \<Longrightarrow> rl_active l" using main by auto
qed

lemma findPC_0 [simp]: "findPC prog 0 = None"
  by (simp add: findPC_def)

lemma visited_pos:
  assumes v: "visited e f r l l'" and Q: "nops_closed (en_programs e) P Q" and p: "rl_program l = P (lane_key l)"
    and l: "placed st l" "Q (lane_key l) (lane_pos st l)"
  shows "placed st l' \<and> Q (lane_key l) (lane_pos st l') \<and> lane_pos st l' = At (rl_lanePC l')"
proof -
  have s: "rl_lane l' = rl_lane l" "inCurrentGroup f r l" using v by (auto simp: visited_def same_lane_def)
  have nf: "\<not> in_frame st (rl_lane l)" using l(1) s(2) by (auto simp: placed_def inCurrentGroup_def eligible_def)
  have nz: "rl_lanePC l' \<noteq> 0" using v by (auto simp: visited_def)
  have path: "(nop_step (lane_prog e l))\<^sup>*\<^sup>* (rl_lanePC l) (rl_lanePC l')" using v by (simp add: visited_def inCurrentGroup_def)
  have "rl_lanePC l \<noteq> 0"
  proof
    assume "rl_lanePC l = 0"
    then have "rl_lanePC l' = 0" using path by (auto elim: converse_rtranclpE simp: nop_step_def)
    then show False using nz by simp
  qed
  then have "Q (lane_key l) (At (rl_lanePC l))" using l(2) lane_pos_free [OF nf] by simp
  then have "Q (lane_key l) (At (rl_lanePC l'))" using nops_closedD [OF Q, of "lane_key l"] path p by (simp add: lane_prog_def)
  moreover have "lane_pos st l' = At (rl_lanePC l')" using lane_pos_free [of st l'] nf s nz by simp
  ultimately show ?thesis using nf s by (simp add: placed_def)
qed

lemma form_group_ok:
  assumes f: "form_group e c t fs [0..<length ls] ls [] = (ls', grp)" and ok: "lanes_ok P Q st ls"
    and Q: "nops_closed (en_programs e) P Q" and wf: "\<And>k. wf_program (en_programs e (P k))"
  shows "lanes_ok P Q st ls'" and "same_lanes ls ls'" and "distinct grp"
    and "i \<in> set grp \<Longrightarrow> i < length ls \<and> (\<exists>f. c = Some f \<and> visited e f (reconvergence_of f t) (ls ! i) (ls' ! i))"
proof -
  have len: "length ls' = length ls"
    and at: "\<And>i. i < length ls \<Longrightarrow> ls' ! i = ls ! i \<or> ls' ! i = snd (visit_lane e c t (ls ! i))"
    and grp: "distinct grp" "set grp \<subseteq> {0..<length ls}"
      "\<And>i. i \<in> set grp \<Longrightarrow> fst (visit_lane e c t (ls ! i)) \<and> ls' ! i = snd (visit_lane e c t (ls ! i))"
    using form_group_facts [OF f] by auto
  have wl: "wf_program (lane_prog e (ls ! i))" if "i < length ls" for i
    using wf [of "lane_key (ls ! i)"] lanes_okD(3) [OF ok, of "ls ! i"] that by (simp add: lane_prog_def)
  have vis: "ls' ! i = ls ! i \<or> \<not> rl_active (ls' ! i) \<or> (\<exists>f. visited e f (reconvergence_of f t) (ls ! i) (ls' ! i))"
    "rl_active (ls' ! i) \<Longrightarrow> rl_active (ls ! i)" if i: "i < length ls" for i
  proof -
    obtain v l' where v: "visit_lane e c t (ls ! i) = (v, l')" by fastforce
    note w = visit_lane_visited [OF v wl [OF i]]
    show "ls' ! i = ls ! i \<or> \<not> rl_active (ls' ! i) \<or> (\<exists>f. visited e f (reconvergence_of f t) (ls ! i) (ls' ! i))"
      "rl_active (ls' ! i) \<Longrightarrow> rl_active (ls ! i)" using at [OF i] w(1,3) v by auto
  qed
  show same: "same_lanes ls ls'"
    unfolding same_lanes_def list_all2_conv_all_nth using len at visit_lane_same by (metis same_lane_refl)
  show "distinct grp" by (rule grp(1))
  show "lanes_ok P Q st ls'"
  proof (rule lanes_ok_change [OF ok same lanes_okD(2) [OF ok]])
    fix i
    assume i: "i < length ls" "rl_active (ls' ! i)"
    let ?l = "ls ! i"
    have l: "rl_active ?l" "rl_program ?l = P (lane_key ?l)" "placed (st (rl_helperRegs ?l)) ?l" "Q (lane_key ?l) (lane_pos (st (rl_helperRegs ?l)) ?l)"
      using vis(2) [OF i] lanes_okD(3-5) [OF ok, of ?l] i(1) by auto
    then show "rl_active ?l \<and> placed (st (rl_helperRegs ?l)) (ls' ! i) \<and> Q (lane_key ?l) (lane_pos (st (rl_helperRegs ?l)) (ls' ! i))"
      using vis(1) [OF i(1)] i(2) visited_pos [OF _ Q l(2-4)] by auto
  qed
  assume i: "i \<in> set grp"
  then have il: "i < length ls" using grp(2) by auto
  obtain v l' where v: "visit_lane e c t (ls ! i) = (v, l')" by fastforce
  then show "i < length ls \<and> (\<exists>f. c = Some f \<and> visited e f (reconvergence_of f t) (ls ! i) (ls' ! i))"
    using grp(3) [OF i] visit_lane_visited(2) [OF v wl [OF il]] il by simp
qed

end
