(* ===== verification/DVR_Replay_Branch.thy ===== *)
theory DVR_Replay_Branch
  imports DVR_Replay_Scalar
begin

text \<open>
  A branch of a vector group moves every lane that decided along its own direction: the lanes of the
  selected path by their PC, those of the other path by the frame that defers them.
\<close>

section \<open>The selected path\<close>

lemma two_paths:
  assumes "outcome_ok e fs f r lanes seed k b"
  shows "length (bo_paths b) \<le> 2"
proof -
  let ?u = "lane_uop e (lanes ! seed)"
  have "card (fst ` set (bo_paths b)) \<le> card {up_branchTargetPC ?u, up_fallthroughPC ?u}"
    by (rule card_mono) (use outcome_okD(4) [OF assms] in auto)
  also have "\<dots> \<le> 2" by (simp add: card_insert_le_m1)
  finally show ?thesis
    using outcome_okD(2) [OF assms] by (simp add: paths_ok_def distinct_card [of "map fst (bo_paths b)", simplified])
qed

lemma path_index_two:
  assumes ps: "distinct (map fst ps)" "fst ` set ps \<subseteq> {x, y}" and pc: "pc \<in> {x, y}"
  shows "path_index pc ps < 2"
proof (cases "pc \<in> fst ` set ps")
  case True
  have "card (fst ` set ps) \<le> card {x, y}" by (rule card_mono) (use ps in auto)
  also have "\<dots> \<le> 2" by (simp add: card_insert_le_m1)
  finally have "length ps \<le> 2" using ps(1) by (simp add: distinct_card [of "map fst ps", simplified])
  then show ?thesis using True path_index_iff [of pc ps] by linarith
next
  case False
  have "card (fst ` set ps) \<le> card ({x, y} - {pc})" by (rule card_mono) (use ps False in auto)
  also have "\<dots> \<le> 1" using pc by (auto simp: card_insert_if)
  finally have "length ps \<le> 1" using ps(1) by (simp add: distinct_card [of "map fst ps", simplified])
  then show ?thesis using path_index_le [of pc ps] by linarith
qed

lemma selected_two:
  assumes "keys_ok lanes"
  shows "bo_selected (evaluate_branch e fs f r lanes seed) < 2"
proof -
  have "outcome_ok e fs f r lanes seed (length lanes) (evaluate_branch e fs f r lanes seed) \<and>
      bo_selected (evaluate_branch e fs f r lanes seed) < 2"
    unfolding evaluate_branch_def
  proof (rule fold_upt_inv [where P = "\<lambda>i b. outcome_ok e fs f r lanes seed i b \<and> bo_selected b < 2"])
    show "outcome_ok e fs f r lanes seed 0 \<lparr>bo_next = (\<lambda>l. None), bo_paths = [], bo_selected = 0\<rparr> \<and>
        bo_selected \<lparr>bo_next = (\<lambda>l. None), bo_paths = [], bo_selected = 0\<rparr> < 2"
      by (simp add: outcome_ok_def paths_ok_def path_bit_def)
    fix i b
    assume i: "i < length lanes" and b: "outcome_ok e fs f r lanes seed i b \<and> bo_selected b < 2"
    have ok: "outcome_ok e fs f r lanes seed (Suc i) (evaluate_lane e fs f r lanes seed i b)"
      by (cases "\<exists>pc. decides e fs f r lanes seed i pc") (use b i in \<open>auto intro: evaluate_found [OF _ assms] evaluate_skip\<close>)
    have "bo_selected (evaluate_lane e fs f r lanes seed i b) < 2"
    proof (cases "i = seed \<and> (\<exists>pc. decides e fs f r lanes seed i pc)")
      case True
      then obtain pc where d: "decides e fs f r lanes seed seed pc" "i = seed" by blast
      note o = outcome_okD [OF conjunct1 [OF b]]
      obtain dir where dir: "branch_direction e fs (lanes ! seed) = Some dir" "pc = (if dir then up_branchTargetPC (lane_uop e (lanes ! seed)) else up_fallthroughPC (lane_uop e (lanes ! seed)))"
        using d by (auto simp: decides_def lane_next_def)
      have "path_index pc (bo_paths b) < 2"
        by (rule path_index_two [OF _ o(4)]) (use o(2) dir(2) in \<open>auto simp: paths_ok_def\<close>)
      then show ?thesis using d dir by (auto simp: evaluate_alt decides_def Let_def)
    next
      case False
      then show ?thesis using b by (auto simp: evaluate_alt decides_def lane_next_def Let_def split: option.split)
    qed
    then show "outcome_ok e fs f r lanes seed (Suc i) (evaluate_lane e fs f r lanes seed i b) \<and>
        bo_selected (evaluate_lane e fs f r lanes seed i b) < 2" using ok by blast
  qed simp
  then show ?thesis ..
qed

text \<open>Of two paths exactly the other one is deferred.\<close>

lemma defer_other:
  assumes "length (bo_paths b) = 2" "bo_selected b < 2"
  shows "fold (defer_path f u b) (rev [0..<length (bo_paths b)]) s = defer_path f u b (1 - bo_selected b) s"
proof -
  have l: "rev [0..<length (bo_paths b)] = [1, 0]" using assms(1) by (simp add: upt_rec)
  have d: "defer_path f u b (bo_selected b) s = s" for s by (cases s) (simp add: defer_path_def)
  consider "bo_selected b = 0" | "bo_selected b = 1" using assms(2) by linarith
  then show ?thesis unfolding l by cases (use d in simp_all)
qed

section \<open>What a branch does to a lane\<close>

text \<open>The mask of the path that is deferred, if there is one.\<close>

definition deferred :: "uop \<Rightarrow> branch_outcome \<Rightarrow> (addr \<times> bool \<times> lane_mask) option" where
  "deferred u b = (if length (bo_paths b) > 1 \<and> up_reconvergencePC u \<noteq> 0 then Some (bo_paths b ! (1 - bo_selected b)) else None)"

lemma apply_branch_alt:
  fixes e :: replay_env and f seed :: nat and u :: uop and b :: branch_outcome and t :: helper_thread
  assumes b: "length (bo_paths b) \<le> 2" "bo_selected b < 2"
  defines "C \<equiv> commit_branch e f u b seed (ht_replayLanes t)" and "tag \<equiv> map (tag_lane f b (length (bo_paths b) > 1))"
  shows "case deferred u b of
    None \<Rightarrow> stacks (apply_branch e f u b seed t) = stacks t \<and> ht_replayLanes (apply_branch e f u b seed t) = (if bo_paths b = [] then C else tag C)
  | Some (pc, d, m) \<Rightarrow>
      if length (stacks t f) \<ge> ReplayEntries
      then stacks (apply_branch e f u b seed t) = stacks t \<and> ht_replayLanes (apply_branch e f u b seed t) = tag (map (drop_path f m) C)
      else \<exists>fr. rf_pc fr = pc \<and> rf_mask fr = m \<and> rf_reconvergencePC fr = up_reconvergencePC u \<and>
        stacks (apply_branch e f u b seed t) = (stacks t)(f := fr # stacks t f) \<and>
        ht_replayLanes (apply_branch e f u b seed t) = tag (map (block_path f m) C)"
proof (cases "deferred u b")
  case None
  then have "\<not> (length (bo_paths b) > 1 \<and> up_reconvergencePC u \<noteq> 0)" by (auto simp: deferred_def split: if_splits)
  then have "apply_branch e f u b seed t = set_reconvergence f (reconvergence_of f t)
      (t\<lparr>ht_replayLanes := if bo_paths b = [] then C else tag C\<rparr>)"
    unfolding apply_branch_def C_def tag_def Let_def by (simp only: if_False prod.case)
  then show ?thesis using None by (auto simp: stacks_def)
next
  case (Some p)
  obtain pc d m where p: "p = (pc, d, m)" by (cases p)
  have dv: "length (bo_paths b) > 1" "up_reconvergencePC u \<noteq> 0" "bo_paths b ! (1 - bo_selected b) = (pc, d, m)"
    using Some p by (auto simp: deferred_def split: if_splits)
  have two: "length (bo_paths b) = 2" using dv(1) b(1) by simp
  have ne: "bo_paths b \<noteq> []" using two by auto
  have ns: "1 - bo_selected b \<noteq> bo_selected b" by presburger
  let ?st = "rr_stack (reconvergence_of f t)"
  obtain ls st where fd: "defer_path f u b (1 - bo_selected b) (C, ?st) = (ls, st)" by fastforce
  have a: "apply_branch e f u b seed t = set_reconvergence f (refreshCurrentGroup ls f ((reconvergence_of f t)\<lparr>rr_stack := st\<rparr>))
      (t\<lparr>ht_replayLanes := tag ls\<rparr>)"
    using dv ne fd defer_other [OF two b(2), of f u "(C, ?st)"] unfolding apply_branch_def C_def tag_def Let_def by simp
  have st: "stacks (apply_branch e f u b seed t) = (stacks t)(f := st)" "ht_replayLanes (apply_branch e f u b seed t) = tag ls"
    unfolding a by simp_all
  show ?thesis
  proof (cases "length (stacks t f) \<ge> ReplayEntries")
    case True
    then have "ls = map (drop_path f m) C" "st = stacks t f"
      using fd dv(3) ns by (auto simp: defer_path_def Let_def stacks_def split: prod.splits)
    then show ?thesis using st True Some p by simp
  next
    case False
    then have "ls = map (block_path f m) C \<and> (\<exists>fr. rf_pc fr = pc \<and> rf_mask fr = m \<and> rf_reconvergencePC fr = up_reconvergencePC u \<and> st = fr # stacks t f)"
      using fd dv(3) ns by (auto simp: defer_path_def Let_def stacks_def split: prod.splits)
    then show ?thesis using st False Some p by auto
  qed
qed

text \<open>One lane after the branch: dropped, left where it was, or moved by its own outcome.\<close>

definition moved_lane :: "replay_env \<Rightarrow> replay_lane \<Rightarrow> addr \<Rightarrow> replay_lane \<Rightarrow> bool" where
  "moved_lane e l q l' \<longleftrightarrow> rl_lanePC l' = q \<and> findPC (lane_prog e l) q = Some (rl_uopIndex l')"

lemma commit_lane_moved:
  assumes "rl_active (commit_lane e u n q l)"
  shows "moved_lane e l q (commit_lane e u n q l)"
  using assms by (auto simp: commit_lane_def moved_lane_def Let_def split: if_splits option.splits)

lemma commit_branch_lane:
  fixes e :: replay_env and f seed :: nat and u :: uop and b :: branch_outcome and lanes :: "replay_lane list"
  defines "C \<equiv> commit_branch e f u b seed lanes"
  assumes i: "i < length lanes" "rl_active (C ! i)"
  shows "rl_active (lanes ! i) \<and> rl_reconvergenceBlocked (C ! i) = rl_reconvergenceBlocked (lanes ! i) \<and>
    (C ! i = lanes ! i \<or> rl_helperRegs (lanes ! i) = f \<and> (\<exists>q. bo_next b (rl_lane (lanes ! i)) = Some q \<and> moved_lane e (lanes ! i) q (C ! i)))"
proof -
  have "C ! i = lanes ! i \<or> committed e f u b (rl_program (lanes ! seed)) (lanes ! i) (C ! i)"
    using commit_branch_inv [of e f u b seed lanes] i(1) by (simp add: commit_inv_def C_def)
  then show ?thesis
  proof
    assume "committed e f u b (rl_program (lanes ! seed)) (lanes ! i) (C ! i)"
    then obtain q where q: "rl_active (lanes ! i)" "rl_helperRegs (lanes ! i) = f" "bo_next b (rl_lane (lanes ! i)) = Some q"
        "C ! i = commit_lane e u (length (bo_paths b)) q (lanes ! i)" by (auto simp: committed_def)
    then have "moved_lane e (lanes ! i) q (C ! i)" using commit_lane_moved i(2) by simp
    moreover have "rl_reconvergenceBlocked (C ! i) = rl_reconvergenceBlocked (lanes ! i)"
      unfolding q(4) by (simp add: commit_lane_def Let_def split: option.split)
    ultimately show ?thesis using q by blast
  qed (use i in simp)
qed

lemma commit_branch_same: "same_lanes lanes (commit_branch e f u b seed lanes)"
  unfolding same_lanes_def list_all2_conv_all_nth
proof (intro conjI allI impI)
  note I = commit_branch_inv [of e f u b seed lanes]
  show l: "length lanes = length (commit_branch e f u b seed lanes)" using I by (simp add: commit_inv_def)
  fix i
  assume "i < length lanes"
  then have "commit_branch e f u b seed lanes ! i = lanes ! i \<or>
      committed e f u b (rl_program (lanes ! seed)) (lanes ! i) (commit_branch e f u b seed lanes ! i)" using I by (simp add: commit_inv_def)
  then show "same_lane (lanes ! i) (commit_branch e f u b seed lanes ! i)" by (auto simp: committed_def)
qed

lemma tag_fields [simp]:
  "rl_active (tag_lane f b d l) = rl_active l" "rl_lanePC (tag_lane f b d l) = rl_lanePC l" "rl_uopIndex (tag_lane f b d l) = rl_uopIndex l"
  "rl_reconvergenceBlocked (tag_lane f b d l) = rl_reconvergenceBlocked l"
  by (simp_all add: tag_lane_def split: option.split)

text \<open>The lanes of the deferred path are blocked by a new frame or dropped; the others are not touched.\<close>

definition defers :: "nat \<Rightarrow> uop \<Rightarrow> branch_outcome \<Rightarrow> replay_lane \<Rightarrow> bool" where
  "defers f u b l \<longleftrightarrow> rl_helperRegs l = f \<and> (\<exists>pc d m. deferred u b = Some (pc, d, m) \<and> test_lane m (rl_lane l))"

lemma apply_branch_shape:
  fixes e :: replay_env and f seed :: nat and u :: uop and b :: branch_outcome and t :: helper_thread
  defines "ls' \<equiv> ht_replayLanes (apply_branch e f u b seed t)" and "st' \<equiv> stacks (apply_branch e f u b seed t)"
    and "C \<equiv> commit_branch e f u b seed (ht_replayLanes t)"
  assumes b: "length (bo_paths b) \<le> 2" "bo_selected b < 2"
  shows "\<exists>g. ls' = map g C \<and> (\<forall>l. same_lane l (g l) \<and> rl_lanePC (g l) = rl_lanePC l \<and> rl_uopIndex (g l) = rl_uopIndex l \<and>
      (rl_active (g l) \<longrightarrow> rl_active l \<and> rl_reconvergenceBlocked (g l) = (rl_reconvergenceBlocked l \<or> defers f u b l) \<and>
        (defers f u b l \<longrightarrow> st' \<noteq> stacks t)))"
    and "st' = stacks t \<or> (\<exists>fr d. deferred u b = Some (rf_pc fr, d, rf_mask fr) \<and> rf_reconvergencePC fr \<noteq> 0 \<and> st' = (stacks t)(f := fr # stacks t f))"
proof -
  let ?tag = "tag_lane f b (length (bo_paths b) > 1)"
  let ?good = "\<lambda>g. ls' = map g C \<and> (\<forall>l. same_lane l (g l) \<and> rl_lanePC (g l) = rl_lanePC l \<and> rl_uopIndex (g l) = rl_uopIndex l \<and>
      (rl_active (g l) \<longrightarrow> rl_active l \<and> rl_reconvergenceBlocked (g l) = (rl_reconvergenceBlocked l \<or> defers f u b l) \<and>
        (defers f u b l \<longrightarrow> st' \<noteq> stacks t)))"
  let ?new = "\<exists>fr d. deferred u b = Some (rf_pc fr, d, rf_mask fr) \<and> rf_reconvergencePC fr \<noteq> 0 \<and> st' = (stacks t)(f := fr # stacks t f)"
  note A = apply_branch_alt [OF b, where e = e and f = f and u = u and seed = seed and t = t, folded C_def ls'_def st'_def]
  have "Ex ?good \<and> (st' = stacks t \<or> ?new)"
  proof (cases "deferred u b")
    case None
    then have st: "st' = stacks t" and l: "ls' = (if bo_paths b = [] then C else map ?tag C)" using A by simp_all
    have nd: "\<not> defers f u b l" for l using None by (simp add: defers_def)
    have "?good (if bo_paths b = [] then (\<lambda>l. l) else ?tag)" using l nd by simp
    then show ?thesis using st by blast
  next
    case (Some p)
    obtain pc d m where p: "p = (pc, d, m)" by (cases p)
    have rc: "up_reconvergencePC u \<noteq> 0" using Some by (auto simp: deferred_def split: if_splits)
    have df: "defers f u b l \<longleftrightarrow> rl_helperRegs l = f \<and> test_lane m (rl_lane l)" for l using Some p by (auto simp: defers_def)
    show ?thesis
    proof (cases "length (stacks t f) \<ge> ReplayEntries")
      case True
      then have st: "st' = stacks t" and l: "ls' = map ?tag (map (drop_path f m) C)" using A Some p by simp_all
      have "same_lane l (?tag (drop_path f m l))" for l by (rule same_lane_trans [OF drop_path_same tag_lane_same])
      then have "?good (\<lambda>l. ?tag (drop_path f m l))" using l df by (auto simp: drop_path_def)
      then show ?thesis using st by blast
    next
      case False
      then obtain fr where fr: "rf_pc fr = pc" "rf_mask fr = m" "rf_reconvergencePC fr = up_reconvergencePC u"
          "st' = (stacks t)(f := fr # stacks t f)" and l: "ls' = map ?tag (map (block_path f m) C)" using A Some p by auto
      have ne: "st' \<noteq> stacks t"
      proof
        assume "st' = stacks t"
        then have "(stacks t)(f := fr # stacks t f) = stacks t" using fr(4) by simp
        from fun_cong [OF this, of f] show False by simp
      qed
      have "same_lane l (?tag (block_path f m l))" for l by (rule same_lane_trans [OF block_path_same tag_lane_same])
      then have "?good (\<lambda>l. ?tag (block_path f m l))" using l df ne by (auto simp: block_path_def)
      moreover have ?new using Some p fr rc by auto
      ultimately show ?thesis by blast
    qed
  qed
  then show "Ex ?good" "st' = stacks t \<or> ?new" by blast+
qed

lemma apply_branch_lane:
  fixes e :: replay_env and f seed :: nat and u :: uop and b :: branch_outcome and t :: helper_thread
  defines "ls' \<equiv> ht_replayLanes (apply_branch e f u b seed t)" and "st' \<equiv> stacks (apply_branch e f u b seed t)"
    and "ls \<equiv> ht_replayLanes t"
  assumes b: "length (bo_paths b) \<le> 2" "bo_selected b < 2"
  shows "same_lanes ls ls'"
    and "i < length ls \<Longrightarrow> rl_active (ls' ! i) \<Longrightarrow> rl_active (ls ! i) \<and>
      (rl_lanePC (ls' ! i) = rl_lanePC (ls ! i) \<and> rl_uopIndex (ls' ! i) = rl_uopIndex (ls ! i) \<or>
        rl_helperRegs (ls ! i) = f \<and> (\<exists>q. bo_next b (rl_lane (ls ! i)) = Some q \<and> moved_lane e (ls ! i) q (ls' ! i))) \<and>
      rl_reconvergenceBlocked (ls' ! i) = (rl_reconvergenceBlocked (ls ! i) \<or> defers f u b (ls ! i)) \<and>
      (defers f u b (ls ! i) \<longrightarrow> st' \<noteq> stacks t)"
proof -
  let ?C = "commit_branch e f u b seed ls"
  obtain g where l: "ls' = map g ?C" and same: "\<And>l. same_lane l (g l)"
    and place: "\<And>l. rl_lanePC (g l) = rl_lanePC l" "\<And>l. rl_uopIndex (g l) = rl_uopIndex l"
    and act: "\<And>l. rl_active (g l) \<Longrightarrow> rl_active l \<and> rl_reconvergenceBlocked (g l) = (rl_reconvergenceBlocked l \<or> defers f u b l) \<and>
        (defers f u b l \<longrightarrow> st' \<noteq> stacks t)"
    using apply_branch_shape(1) [OF b, where e = e and f = f and u = u and seed = seed and t = t, folded ls'_def st'_def ls_def] by blast
  have C: "same_lanes ls ?C" by (rule commit_branch_same)
  show "same_lanes ls ls'" unfolding l by (rule same_lanes_trans [OF C same_lanes_map [OF same]])
  assume i: "i < length ls" "rl_active (ls' ! i)"
  have at: "ls' ! i = g (?C ! i)" using i(1) same_lanes_length [OF C] l by simp
  have a: "rl_active (?C ! i)" "rl_reconvergenceBlocked (ls' ! i) = (rl_reconvergenceBlocked (?C ! i) \<or> defers f u b (?C ! i))"
      "defers f u b (?C ! i) \<longrightarrow> st' \<noteq> stacks t" using act [of "?C ! i"] i(2) at by auto
  have d: "defers f u b (?C ! i) = defers f u b (ls ! i)" using same_lanes_nth [OF C i(1)] by (simp add: defers_def same_lane_def)
  note c = commit_branch_lane [OF i(1) a(1)]
  have mv: "moved_lane e (ls ! i) q (ls' ! i) = moved_lane e (ls ! i) q (?C ! i)" for q using at place by (simp add: moved_lane_def)
  show "rl_active (ls ! i) \<and>
      (rl_lanePC (ls' ! i) = rl_lanePC (ls ! i) \<and> rl_uopIndex (ls' ! i) = rl_uopIndex (ls ! i) \<or>
        rl_helperRegs (ls ! i) = f \<and> (\<exists>q. bo_next b (rl_lane (ls ! i)) = Some q \<and> moved_lane e (ls ! i) q (ls' ! i))) \<and>
      rl_reconvergenceBlocked (ls' ! i) = (rl_reconvergenceBlocked (ls ! i) \<or> defers f u b (ls ! i)) \<and>
      (defers f u b (ls ! i) \<longrightarrow> st' \<noteq> stacks t)"
    unfolding mv using c a(2,3) d at place by auto
qed

section \<open>Branches are taken lane by lane\<close>

definition lane_regfile :: "helper_files \<Rightarrow> nat \<times> nat \<Rightarrow> nat \<Rightarrow> reg_val" where
  "lane_regfile fs k a = HR_read a (snd k) (HF_get (fst k) fs)"

lemma lane_source_reg: "lane_source fs l r = reg_of (lane_regfile fs (lane_key l)) r"
  by (simp add: lane_source_def reg_of_def lane_regfile_def lane_key_def)

lemma branch_direction_scalar: "branch_direction e fs l = scalar_direction (lane_uop e l) (lane_regfile fs (lane_key l))"
  by (simp add: branch_direction_def scalar_direction_def lane_source_reg Let_def)

definition branches_closed :: "programs \<Rightarrow> (nat \<times> nat \<Rightarrow> nat) \<Rightarrow> (nat \<times> nat \<Rightarrow> position \<Rightarrow> bool) \<Rightarrow> helper_files \<Rightarrow> bool" where
  "branches_closed programs P Q fs \<longleftrightarrow> (\<forall>k pc i d. Q k (At pc) \<and> findPC (programs (P k)) pc = Some i \<and>
     up_conditional (rt_uops (programs (P k)) i) \<and> scalar_direction (rt_uops (programs (P k)) i) (lane_regfile fs k) = Some d \<longrightarrow>
     Q k (At (if d then up_branchTargetPC (rt_uops (programs (P k)) i) else up_fallthroughPC (rt_uops (programs (P k)) i))))"

text \<open>The seed of a group: its index is that of its PC, reached from the PC of the current group.\<close>

definition seed_at :: "replay_env \<Rightarrow> replay_reconvergence \<Rightarrow> replay_lane \<Rightarrow> bool" where
  "seed_at e r s \<longleftrightarrow> findPC (lane_prog e s) (rl_lanePC s) = Some (rl_uopIndex s) \<and> (nop_step (lane_prog e s))\<^sup>*\<^sup>* (rr_currentPC r) (rl_lanePC s)"

lemma seed_at_pc:
  assumes "seed_at e r s"
  shows "rr_currentPC r \<noteq> 0"
proof
  assume "rr_currentPC r = 0"
  then have "rl_lanePC s = 0" using assms by (auto simp: seed_at_def nop_step_def elim: converse_rtranclpE)
  then show False using assms by (simp add: seed_at_def)
qed

text \<open>A lane that decided was in the current group and reaches its own next PC.\<close>

lemma decides_pos:
  assumes d: "decides e fs f r ls seed i q" and i: "i < length ls" and ok: "lanes_ok P Q st ls" and Q: "nops_closed (en_programs e) P Q"
    and B: "branches_closed (en_programs e) P Q fs" and s: "seed_at e r (ls ! seed)" and u: "up_conditional (lane_uop e (ls ! seed))"
  shows "eligible f (ls ! i) \<and> \<not> in_frame (st f) (rl_lane (ls ! i)) \<and> rl_lanePC (ls ! i) \<noteq> 0 \<and>
    Q (lane_key (ls ! i)) (At (rl_lanePC (ls ! i))) \<and> Q (lane_key (ls ! i)) (At q)"
proof -
  let ?l = "ls ! i" and ?s = "ls ! seed"
  let ?prog = "lane_prog e ?s"
  have p: "branch_peer f r ?s ?l" "lane_next e fs ?l = Some q" using d by (auto simp: decides_def)
  have el: "eligible f ?l" "rl_lanePC ?l = rr_currentPC r" "rl_program ?l = rl_program ?s" "rl_helperRegs ?l = f"
    using p(1) by (auto simp: branch_peer_def inCurrentGroup_def eligible_def)
  have act: "rl_active ?l" using el(1) by (simp add: eligible_def)
  have mem: "?l \<in> set ls" using i by simp
  have pk: "en_programs e (P (lane_key ?l)) = ?prog" using lanes_okD(3) [OF ok mem] el(3) by (simp add: lane_prog_def)
  have nf: "\<not> in_frame (st f) (rl_lane ?l)" using lanes_okD(4) [OF ok mem act] el by (auto simp: placed_def eligible_def)
  have nz: "rl_lanePC ?l \<noteq> 0" using seed_at_pc [OF s] el(2) by simp
  have q0: "Q (lane_key ?l) (At (rl_lanePC ?l))" using lanes_okD(5) [OF ok mem act] lane_pos_free [OF nf] nz el(4) by simp
  have "(nop_step ?prog)\<^sup>*\<^sup>* (rl_lanePC ?l) (rl_lanePC ?s)" using s el(2) by (simp add: seed_at_def)
  then have q1: "Q (lane_key ?l) (At (rl_lanePC ?s))" using nops_closedD [OF Q, of "lane_key ?l"] pk q0 by simp
  obtain dir where dir: "scalar_direction (lane_uop e ?s) (lane_regfile fs (lane_key ?l)) = Some dir"
      "q = (if dir then up_branchTargetPC (lane_uop e ?s) else up_fallthroughPC (lane_uop e ?s))"
    using p(2) peer_uop [OF p(1), of e] by (auto simp: lane_next_def branch_direction_scalar)
  have fp: "findPC ?prog (rl_lanePC ?s) = Some (rl_uopIndex ?s)" using s by (simp add: seed_at_def)
  have "Q (lane_key ?l) (At q)"
    unfolding dir(2) using B [unfolded branches_closed_def, rule_format, of "lane_key ?l" "rl_lanePC ?s" "rl_uopIndex ?s" dir] q1 fp u dir(1) pk
    by (cases dir) (simp_all add: lane_uop_def)
  then show ?thesis using el(1) nf nz q0 by blast
qed

lemma deferred_path:
  assumes "deferred u b = Some (pc, d, m)" "length (bo_paths b) \<le> 2"
  shows "(pc, d, m) \<in> set (bo_paths b)"
proof -
  have "1 - bo_selected b < length (bo_paths b)" "bo_paths b ! (1 - bo_selected b) = (pc, d, m)"
    using assms by (auto simp: deferred_def split: if_splits)
  then show ?thesis by (metis nth_mem)
qed

lemma apply_branch_ok:
  fixes e :: replay_env and f seed :: nat and t :: helper_thread and fs :: helper_files
  defines "ls \<equiv> ht_replayLanes t" and "r \<equiv> reconvergence_of f t"
  defines "b \<equiv> evaluate_branch e fs f r ls seed" and "u \<equiv> lane_uop e (ls ! seed)"
  assumes ok: "lanes_ok P Q (stacks t) ls" and Q: "nops_closed (en_programs e) P Q" and B: "branches_closed (en_programs e) P Q fs"
    and wf: "\<And>k. wf_program (en_programs e (P k))" and sd: "seed < length ls" and s: "seed_at e r (ls ! seed)" and u: "up_conditional u"
  shows "lanes_ok P Q (stacks (apply_branch e f u b seed t)) (ht_replayLanes (apply_branch e f u b seed t))"
proof -
  let ?t = "apply_branch e f u b seed t"
  let ?ls = "ht_replayLanes ?t" and ?st = "stacks ?t"
  note keys = lanes_okD(1) [OF ok]
  have O: "outcome_ok e fs f r ls seed (length ls) b" unfolding b_def by (rule evaluate_branch_ok [OF keys])
  note o = outcome_okD [OF O]
  have b2: "length (bo_paths b) \<le> 2" "bo_selected b < 2" unfolding b_def
    using two_paths [OF evaluate_branch_ok [OF keys]] selected_two [OF keys] by auto
  have own: "decides e fs f r ls seed i q" if w: "i < length ls" "rl_helperRegs (ls ! i) = f" "bo_next b (rl_lane (ls ! i)) = Some q" for i q
  proof -
    obtain j where j: "j < length ls" "rl_lane (ls ! j) = rl_lane (ls ! i)" "decides e fs f r ls seed j q" using o(1) w(3) by blast
    then have "rl_helperRegs (ls ! j) = f" using peer_file by (auto simp: decides_def)
    then show ?thesis using keys_inj [OF keys j(1) w(1)] j w(2) by simp
  qed
  have nzq: "q \<noteq> 0" if "q \<in> fst ` set (bo_paths b)" for q
  proof -
    have "wf_program (lane_prog e (ls ! seed))" using wf lanes_okD(3) [OF ok, of "ls ! seed"] sd by (simp add: lane_prog_def)
    then have "up_branchTargetPC u \<noteq> 0 \<and> up_fallthroughPC u \<noteq> 0"
      using s u findPC_Some by (auto simp: seed_at_def wf_program_def u_def lane_uop_def)
    then show ?thesis using o(4) that by (auto simp: u_def)
  qed
  have dq: "test_lane m n \<longleftrightarrow> bo_next b n = Some pc" if "deferred u b = Some (pc, d, m)" "n < 128" for pc d m n
  proof -
    have mem: "(pc, d, m) \<in> set (bo_paths b)" by (rule deferred_path [OF that(1) b2(1)])
    then have "path_bit (bo_paths b) pc n \<longleftrightarrow> test_lane m n"
      using o(2) unfolding path_bit_def paths_ok_def by (metis eq_key_imp_eq_value prod.inject)
    then show ?thesis using o(3) [OF that(2)] by simp
  qed
  have new: "?st = stacks t \<or> (\<exists>fr d. deferred u b = Some (rf_pc fr, d, rf_mask fr) \<and> rf_reconvergencePC fr \<noteq> 0 \<and> ?st = (stacks t)(f := fr # stacks t f))"
    by (rule apply_branch_shape(2) [OF b2])
  show ?thesis
  proof (rule lanes_ok_change [OF ok])
    show "same_lanes ls ?ls" unfolding ls_def by (rule apply_branch_lane(1) [OF b2])
    show "frames_ok (?st k)" for k
      using new
    proof
      assume "\<exists>fr d. deferred u b = Some (rf_pc fr, d, rf_mask fr) \<and> rf_reconvergencePC fr \<noteq> 0 \<and> ?st = (stacks t)(f := fr # stacks t f)"
      then obtain fr d where fr: "deferred u b = Some (rf_pc fr, d, rf_mask fr)" "rf_reconvergencePC fr \<noteq> 0" "?st = (stacks t)(f := fr # stacks t f)" by blast
      have mem: "(rf_pc fr, d, rf_mask fr) \<in> set (bo_paths b)" by (rule deferred_path [OF fr(1) b2(1)])
      then have "frame_ok fr" using o(2) nzq [of "rf_pc fr"] fr(2) by (force simp: frame_ok_def paths_ok_def)
      moreover have "\<not> in_frame (stacks t f) n" if n: "n < 128" "test_lane (rf_mask fr) n" for n
      proof -
        have "bo_next b n = Some (rf_pc fr)" using dq [OF fr(1) n(1)] n(2) by simp
        then obtain j where "j < length ls" "rl_lane (ls ! j) = n" "decides e fs f r ls seed j (rf_pc fr)" using o(1) by blast
        then show ?thesis using decides_pos [OF _ _ ok Q B s u [unfolded u_def]] by blast
      qed
      ultimately show ?thesis using lanes_okD(2) [OF ok] fr(3) by auto
    qed (use lanes_okD(2) [OF ok] in simp)
    fix i
    assume i: "i < length ls" "rl_active (?ls ! i)"
    let ?l = "ls ! i"
    note L = apply_branch_lane(2) [OF b2, of i t, folded ls_def, OF i]
    have n: "rl_lane ?l < 128" "rl_lane (?ls ! i) = rl_lane ?l"
      using keys i(1) same_lanes_nth [OF apply_branch_lane(1) [OF b2], of i t] by (auto simp: keys_ok_def ls_def same_lane_def)
    have l: "rl_active ?l" "placed (stacks t (rl_helperRegs ?l)) ?l" "Q (lane_key ?l) (lane_pos (stacks t (rl_helperRegs ?l)) ?l)"
      using L lanes_okD(4,5) [OF ok, of ?l] i(1) by auto
    have dec: "eligible f ?l \<and> \<not> in_frame (stacks t f) (rl_lane ?l) \<and> rl_lanePC ?l \<noteq> 0 \<and> Q (lane_key ?l) (At (rl_lanePC ?l)) \<and> Q (lane_key ?l) (At q) \<and> q \<noteq> 0"
      if "rl_helperRegs ?l = f" "bo_next b (rl_lane ?l) = Some q" for q
    proof -
      have "path_bit (bo_paths b) q (rl_lane ?l)" using o(3) [OF n(1)] that(2) by simp
      then have "q \<in> fst ` set (bo_paths b)" by (force simp: path_bit_def)
      then show ?thesis using decides_pos [OF own [OF i(1) that] i(1) ok Q B s u [unfolded u_def]] nzq by blast
    qed
    have "placed (?st (rl_helperRegs ?l)) (?ls ! i) \<and> Q (lane_key ?l) (lane_pos (?st (rl_helperRegs ?l)) (?ls ! i))"
    proof (cases "defers f u b ?l")
      case True
      then obtain fr d where fr: "deferred u b = Some (rf_pc fr, d, rf_mask fr)" "?st = (stacks t)(f := fr # stacks t f)" using L new by blast
      have fl: "rl_helperRegs ?l = f" "test_lane (rf_mask fr) (rl_lane ?l)" using True fr(1) by (auto simp: defers_def)
      have nx: "bo_next b (rl_lane ?l) = Some (rf_pc fr)" using dq [OF fr(1) n(1)] fl(2) by simp
      have "rl_lanePC (?ls ! i) \<noteq> 0" using L dec [OF fl(1) nx] nx by (auto simp: moved_lane_def)
      then show ?thesis using True L dec [OF fl(1) nx] fl n(2) fr(2) by (auto simp: placed_def)
    next
      case False
      have fr: "in_frame (?st (rl_helperRegs ?l)) (rl_lane ?l) = in_frame (stacks t (rl_helperRegs ?l)) (rl_lane ?l)"
          "lane_pos (?st (rl_helperRegs ?l)) (?ls ! i) = lane_pos (stacks t (rl_helperRegs ?l)) (?ls ! i)"
        using new False n(2) by (cases "rl_helperRegs ?l = f"; auto simp: defers_def in_frame_def)+
      show ?thesis
      proof (cases "rl_lanePC (?ls ! i) = rl_lanePC ?l \<and> rl_uopIndex (?ls ! i) = rl_uopIndex ?l")
        case True
        then have "lane_pos (stacks t (rl_helperRegs ?l)) (?ls ! i) = lane_pos (stacks t (rl_helperRegs ?l)) ?l" by (intro lane_pos_cong) (use n in auto)
        then show ?thesis using fr l True L False n(2) by (simp add: placed_def)
      next
        case mv: False
        then obtain q where q: "rl_helperRegs ?l = f" "bo_next b (rl_lane ?l) = Some q" "moved_lane e ?l q (?ls ! i)" using L by blast
        then have "rl_lanePC (?ls ! i) = q" by (simp add: moved_lane_def)
        then show ?thesis using fr dec [OF q(1,2)] n(2) q(1) lane_pos_free [of "stacks t f" "?ls ! i"] by (auto simp: placed_def)
      qed
    qed
    then show "rl_active ?l \<and> placed (?st (rl_helperRegs ?l)) (?ls ! i) \<and> Q (lane_key ?l) (lane_pos (?st (rl_helperRegs ?l)) (?ls ! i))"
      using l(1) by blast
  qed
qed

text \<open>A new frame names only lanes of the list.\<close>

lemma apply_branch_frames:
  fixes e :: replay_env and f seed :: nat and t :: helper_thread and fs :: helper_files
  defines "ls \<equiv> ht_replayLanes t" and "r \<equiv> reconvergence_of f t"
  defines "b \<equiv> evaluate_branch e fs f r ls seed"
  assumes keys: "keys_ok ls" and K: "frames_in K (stacks t)" "lane_key ` set ls \<subseteq> K"
  shows "frames_in K (stacks (apply_branch e f u b seed t))"
proof -
  have O: "outcome_ok e fs f r ls seed (length ls) b" unfolding b_def by (rule evaluate_branch_ok [OF keys])
  note o = outcome_okD [OF O]
  have b2: "length (bo_paths b) \<le> 2" "bo_selected b < 2" unfolding b_def
    using two_paths [OF evaluate_branch_ok [OF keys]] selected_two [OF keys] by auto
  have "stacks (apply_branch e f u b seed t) = stacks t \<or> (\<exists>fr d. deferred u b = Some (rf_pc fr, d, rf_mask fr) \<and> rf_reconvergencePC fr \<noteq> 0 \<and>
      stacks (apply_branch e f u b seed t) = (stacks t)(f := fr # stacks t f))"
    by (rule apply_branch_shape(2) [OF b2])
  then show ?thesis
  proof
    assume "\<exists>fr d. deferred u b = Some (rf_pc fr, d, rf_mask fr) \<and> rf_reconvergencePC fr \<noteq> 0 \<and>
      stacks (apply_branch e f u b seed t) = (stacks t)(f := fr # stacks t f)"
    then obtain fr d where fr: "deferred u b = Some (rf_pc fr, d, rf_mask fr)" "stacks (apply_branch e f u b seed t) = (stacks t)(f := fr # stacks t f)" by blast
    have "(f, n) \<in> K" if n: "n < 128" "test_lane (rf_mask fr) n" for n
    proof -
      have "path_bit (bo_paths b) (rf_pc fr) n" using deferred_path [OF fr(1) b2(1)] n(2) by (auto simp: path_bit_def)
      then obtain j where j: "j < length ls" "rl_lane (ls ! j) = n" "decides e fs f r ls seed j (rf_pc fr)" using o(1,3) n(1) by blast
      then have "lane_key (ls ! j) = (f, n)" using peer_file by (auto simp: decides_def lane_key_def)
      then show ?thesis using K(2) j(1) by (metis image_subset_iff nth_mem)
    qed
    then show ?thesis using K(1) unfolding fr(2) frames_in_def in_frame_def by auto
  qed (use K(1) in simp)
qed

end
