(* ===== verification/DVR_Replay_Execute.thy ===== *)
theory DVR_Replay_Execute
  imports DVR_Replay_Branch
begin

text \<open>
  The rest of an issue attempt: retaining the sources, renaming the destination and executing the
  group. Each lane of the group makes one step of its scalar run, on its own registers.
\<close>

section \<open>Lanes with registers\<close>

definition reg_view :: "lane_files \<Rightarrow> nat \<times> nat \<Rightarrow> nat \<Rightarrow> reg_val" where
  "reg_view A k a = fst (A (fst k) a (snd k))"

text \<open>\<open>W\<close> are the states of a lane that its scalar runs reach.\<close>

definition run_closed :: "programs \<Rightarrow> (nat \<times> nat \<Rightarrow> nat) \<Rightarrow> (nat \<times> nat \<Rightarrow> (addr \<times> reg_val) set) \<Rightarrow>
    (nat \<times> nat \<Rightarrow> position \<times> (nat \<Rightarrow> reg_val) \<Rightarrow> bool) \<Rightarrow> bool" where
  "run_closed programs P loads W \<longleftrightarrow> (\<forall>k s s'. W k s \<and> scalar_step (programs (P k)) (loads k) s s' \<longrightarrow> W k s')"

definition lane_at :: "nat set \<Rightarrow> lane_files \<Rightarrow> (nat \<times> nat \<Rightarrow> position \<times> (nat \<Rightarrow> reg_val) \<Rightarrow> bool) \<Rightarrow> nat \<times> nat \<Rightarrow> position \<Rightarrow> bool" where
  "lane_at L A W k pos \<longleftrightarrow> fst k \<in> L \<and> snd k < 128 \<and> W k (pos, reg_view A k)"

lemma run_closedD: "run_closed programs P loads W \<Longrightarrow> scalar_step (programs (P k)) (loads k) s s' \<Longrightarrow> W k s \<Longrightarrow> W k s'"
  unfolding run_closed_def by blast

lemma lane_nops: "run_closed programs P loads W \<Longrightarrow> nops_closed programs P (lane_at L A W)"
  unfolding nops_closed_def lane_at_def nop_step_def by (blast intro: run_closedD scalar_step.nop)

lemma reg_of_view:
  assumes "files_ok L fs A" "fst k \<in> L" "snd k < 128"
  shows "reg_of (lane_regfile fs k) r = reg_of (reg_view A k) r"
  using files_read(1) [OF assms(1,2) _ assms(3)] by (auto simp: reg_of_def lane_regfile_def reg_view_def nat_less_iff)

lemma lane_branches:
  assumes W: "run_closed programs P loads W" and ok: "files_ok L fs A"
  shows "branches_closed programs P (lane_at L A W) fs"
  unfolding branches_closed_def
proof (intro allI impI, elim conjE)
  fix k pc i d
  assume k: "lane_at L A W k (At pc)" "findPC (programs (P k)) pc = Some i" "up_conditional (rt_uops (programs (P k)) i)"
    "scalar_direction (rt_uops (programs (P k)) i) (lane_regfile fs k) = Some d"
  have "scalar_direction (rt_uops (programs (P k)) i) (reg_view A k) = Some d"
    using k(1,4) reg_of_view [OF ok, of k] by (auto simp: scalar_direction_def lane_at_def split: if_splits)
  from run_closedD [OF W scalar_step.branch [OF k(2,3) this]] show "lane_at L A W k (At (if d then up_branchTargetPC (rt_uops (programs (P k)) i)
      else up_fallthroughPC (rt_uops (programs (P k)) i)))"
    using k(1) by (simp only: lane_at_def)
qed

section \<open>Retaining and renaming\<close>

lemma capture_ok:
  assumes "files_ok L fs A" "f \<in> L" "\<forall>l \<in> set ls. rl_helperRegs l = f"
  shows "files_ok L (snd (capture u ls fs)) A"
  using assms
proof (induction ls arbitrary: fs)
  case (Cons l ls)
  let ?g = "\<lambda>h. HR_retainPhysical (source_name fs (up_source1 u) l) (HR_retainPhysical (source_name fs (up_source0 u) l) h)"
  have "hr_op\<^sup>*\<^sup>* (HF_get f fs, A f) (?g (HF_get f fs), A f)"
    by (rule rtranclp.rtrancl_into_rtrancl [OF r_into_rtranclp]) (rule hr_op.retain)+
  then have "files_ok L (HF_update f ?g fs) (A(f := A f))" by (rule files_ops [OF Cons.prems(1,2)])
  then have "files_ok L (retain_lane u l fs) A" using Cons.prems(3) by (simp add: retain_lane_def)
  then show ?case using Cons by (simp add: split_def Let_def)
qed simp

lemma deactivate_ok:
  assumes "lanes_ok P Q st ls" "\<forall>i \<in> set grp. i < length ls"
  shows "lanes_ok P Q st (fold (\<lambda>i ls. ls[i := (ls ! i)\<lparr>rl_active := False\<rparr>]) grp ls) \<and>
    length (fold (\<lambda>i ls. ls[i := (ls ! i)\<lparr>rl_active := False\<rparr>]) grp ls) = length ls \<and>
    (\<forall>i < length ls. fold (\<lambda>i ls. ls[i := (ls ! i)\<lparr>rl_active := False\<rparr>]) grp ls ! i \<in> {ls ! i, (ls ! i)\<lparr>rl_active := False\<rparr>})"
  using assms
proof (induction grp arbitrary: ls)
  case Nil
  show ?case unfolding fold_Nil id_apply using Nil.prems(1) by blast
next
  case (Cons j grp)
  let ?ls = "ls[j := (ls ! j)\<lparr>rl_active := False\<rparr>]"
  have j: "j < length ls" using Cons.prems(2) by simp
  have "lanes_ok P Q st ?ls"
  proof (rule lanes_ok_change [OF Cons.prems(1) same_lanes_update [OF j]])
    show "same_lane (ls ! j) ((ls ! j)\<lparr>rl_active := False\<rparr>)" by (simp add: same_lane_def)
    show "frames_ok (st k)" for k by (rule lanes_okD(2) [OF Cons.prems(1)])
    show "rl_active (ls ! i) \<and> placed (st (rl_helperRegs (ls ! i))) (?ls ! i) \<and> Q (lane_key (ls ! i)) (lane_pos (st (rl_helperRegs (ls ! i))) (?ls ! i))"
      if "i < length ls" "rl_active (?ls ! i)" for i
      using that lanes_okD(4,5) [OF Cons.prems(1), of "ls ! i"] by (cases "i = j") auto
  qed
  note IH = Cons.IH [OF this]
  have "\<forall>i \<in> set grp. i < length ?ls" using Cons.prems(2) by simp
  note IH = IH [OF this]
  have "fold (\<lambda>i ls. ls[i := (ls ! i)\<lparr>rl_active := False\<rparr>]) grp ?ls ! i \<in> {ls ! i, (ls ! i)\<lparr>rl_active := False\<rparr>}" if i: "i < length ls" for i
  proof -
    have "fold (\<lambda>i ls. ls[i := (ls ! i)\<lparr>rl_active := False\<rparr>]) grp ?ls ! i \<in> {?ls ! i, (?ls ! i)\<lparr>rl_active := False\<rparr>}" using IH i by simp
    then show ?thesis using i by (cases "i = j") auto
  qed
  then show ?case using IH by simp
qed

lemma stacks_same:
  "rr_stack r = stacks t f \<Longrightarrow> (stacks t)(f := rr_stack r) = stacks t"
  by auto

lemma markDead_thread [simp]:
  "ht_replayLanes (HT_markDeadSources g xs t) = ht_replayLanes t" "ht_reconvergence (HT_markDeadSources g xs t) = ht_reconvergence t"
  "map du_helperRegs (ht_virBuffer (HT_markDeadSources g xs t)) = map du_helperRegs (ht_virBuffer t)"
  by (simp_all add: HT_markDeadSources_def mark_dead_sources_def Let_def comp_def if_distrib cong: if_cong)

lemma markDead_stacks [simp]: "stacks (HT_markDeadSources g xs t) = stacks t"
  by (simp add: stacks_def reconvergence_of_def fun_eq_iff)

definition stopped_lane :: "replay_lane \<Rightarrow> replay_lane" where
  "stopped_lane l = l\<lparr>rl_active := False\<rparr>"

lemma rename_destination_ok:
  assumes r: "rename_destination f u grp t fs = (t', fs')" and fl: "files_ok L fs A" "f \<in> L"
    and ok: "lanes_ok P Q (stacks t) (ht_replayLanes t)" and grp: "grp \<noteq> []" "\<forall>i \<in> set grp. i < length (ht_replayLanes t) \<and> rl_helperRegs (ht_replayLanes t ! i) = f"
  shows "files_ok L fs' A \<and> stacks t' = stacks t \<and> lanes_ok P Q (stacks t) (ht_replayLanes t') \<and>
    length (ht_replayLanes t') = length (ht_replayLanes t) \<and>
    (\<forall>i < length (ht_replayLanes t). ht_replayLanes t' ! i \<in> {ht_replayLanes t ! i, stopped_lane (ht_replayLanes t ! i)}) \<and>
    map du_helperRegs (ht_virBuffer t') = map du_helperRegs (ht_virBuffer t)"
proof -
  let ?ls = "ht_replayLanes t" and ?r = "reconvergence_of f t"
  let ?gl = "map ((!) ?ls) grp"
  let ?seed = "hd ?gl"
  have sf: "rl_helperRegs ?seed = f" using grp by (cases grp) auto
  let ?h = "HF_get f fs" and ?dest = "nat (up_destination u)" and ?m = "rename_mask f u ?seed ?ls ?gl"
  let ?key = "rename_key u (rl_simtPath ?seed) ?m" and ?v = "vector_destination ?h u ?gl"
  let ?t1 = "set_reconvergence f (?r\<lparr>rr_renamedDestinations := insert ?key (rr_renamedDestinations ?r)\<rparr>) t"
  show ?thesis
  proof (cases "\<not> (?v \<or> scalar_overwrite ?h u ?gl) \<or> ?key \<in> rr_renamedDestinations ?r")
    case True
    then have "t' = t" "fs' = fs" using r sf by (auto simp: rename_destination_def Let_def)
    then show ?thesis using fl ok by simp
  next
    case False
    obtain renamed h1 where rn: "(if ?v then HR_renameVectorMasked ?dest ?m ?h
        else (let (p, h') = HR_renameScalarMasked ?dest ?m ?h in (p \<ge> 0, h'))) = (renamed, h1)" by fastforce
    have dest: "?dest < HR_NumArchitecturalRegs"
      using False by (auto simp: vector_destination_def scalar_overwrite_def renames_dest_def)
    have "hr_op (?h, A f) (h1, A f)"
    proof (cases ?v)
      case True
      then have "h1 = snd (HR_renameVectorMasked ?dest ?m ?h)" using rn by simp
      then show ?thesis using hr_op.rename_vector [OF dest] by simp
    next
      case F: False
      then have "h1 = snd (HR_renameScalarMasked ?dest ?m ?h)" using rn by (auto simp: Let_def split: prod.splits)
      then show ?thesis using hr_op.rename_scalar [OF dest] by simp
    qed
    then have f1: "files_ok L (HF_update f (\<lambda>_. h1) fs) A" using files_ops [OF fl, of "\<lambda>_. h1" "A f"] by auto
    have st: "stacks ?t1 = stacks t" by (auto simp: stacks_def)
    have res: "(t', fs') = (if \<not> renamed then (?t1\<lparr>ht_replayLanes := fold (\<lambda>i ls. ls[i := (ls ! i)\<lparr>rl_active := False\<rparr>]) grp ?ls\<rparr>, HF_update f (\<lambda>_. h1) fs)
        else (HT_markDeadSources f (filter (\<lambda>p. p \<notin> set (HR_physicalMappings ?dest h1)) (HR_physicalMappings ?dest ?h)) ?t1, HF_update f (\<lambda>_. h1) fs))"
      using r [unfolded rename_destination_def Let_def sf] False
      unfolding rn [unfolded Let_def] by (simp only: if_False prod.case)
    have vb: "ht_virBuffer ?t1 = ht_virBuffer t" by (simp add: set_reconvergence_def)
    show ?thesis
    proof (cases renamed)
      case True
      then show ?thesis using res f1 st ok vb by simp
    next
      case False
      have "\<forall>i \<in> set grp. i < length ?ls" using grp by blast
      from deactivate_ok [OF ok this] show ?thesis using res False f1 st vb by (auto simp: stopped_lane_def)
    qed
  qed
qed

section \<open>Executing a lane\<close>

text \<open>A lane of the group that is about to execute: at a branch, or not deferred and at the PC of its index.\<close>

definition exec_ready :: "replay_env \<Rightarrow> nat \<Rightarrow> replay_frame list \<Rightarrow> replay_lane \<Rightarrow> bool" where
  "exec_ready e f st l \<longleftrightarrow> rl_helperRegs l = f \<and>
     (rl_active l \<longrightarrow> up_conditional (lane_uop e l) \<or> \<not> in_frame st (rl_lane l) \<and> findPC (lane_prog e l) (rl_lanePC l) = Some (rl_uopIndex l))"

lemma lane_fields:
  "same_lane l (stop_lane r l)" "\<not> rl_active (stop_lane r l)" "same_lane l (out_of_budget e l)" "\<not> rl_active (out_of_budget e l)"
  by (simp_all add: stop_lane_def out_of_budget_def same_lane_def)

text \<open>What the three ways to go on do to a lane that stays active.\<close>

lemma skip_load_lane:
  "same_lane l (skip_load e l)"
  "rl_active (skip_load e l) \<Longrightarrow> rl_active l \<and> rl_lanePC (skip_load e l) = next_in_program (lane_prog e l) (rl_uopIndex l) \<and> rl_lanePC (skip_load e l) \<noteq> 0"
  by (auto simp: skip_load_def same_lane_def out_of_budget_def stop_lane_def Let_def split: if_splits)

lemma advance_lane_lane:
  "same_lane l (advance_lane e (lane_uop e l) l)"
  "rl_active (advance_lane e (lane_uop e l) l) \<Longrightarrow> rl_active l \<and> rl_lanePC (advance_lane e (lane_uop e l) l) = successor (lane_prog e l) (rl_uopIndex l) \<and>
    rl_lanePC (advance_lane e (lane_uop e l) l) \<noteq> 0"
  by (auto simp: advance_lane_def same_lane_def out_of_budget_def stop_lane_def successor_def lane_uop_def Let_def split: if_splits)

lemma execute_load_lane:
  assumes "execute_load e sp u tk v l s = (l', s')"
  shows "same_lane l l' \<and> cs_files s' = cs_files s \<and> cs_thread s' = cs_thread s \<and>
    (rl_active l' \<longrightarrow> rl_active l \<and> rl_lanePC l' = 0 \<and> rl_uopIndex l' = rl_uopIndex l)"
  using assms
  by (auto simp: execute_load_def enqueue_dependent_def stop_lane_def same_lane_def Let_def split: if_splits)

lemma files_write:
  assumes ok: "files_ok L fs A" "f \<in> L" and r: "0 \<le> r" "r < int HR_NumArchitecturalRegs" and n: "n < 128"
  shows "\<exists>A'. files_ok L (HF_update f (HR_write (nat r) n v tk) fs) A' \<and> reg_view A' (f, n) = set_reg r v (reg_view A (f, n)) \<and>
    (\<forall>k. k \<noteq> (f, n) \<longrightarrow> reg_view A' k = reg_view A k)"
proof -
  let ?A = "A(f := (A f)(nat r := (A f (nat r))(n := (v, tk))))"
  have "hr_op (HF_get f fs, A f) (HR_write (nat r) n v tk (HF_get f fs), (A f)(nat r := (A f (nat r))(n := (v, tk))))"
    by (rule hr_op.write_lane) (use r n in auto)
  then have "files_ok L (HF_update f (HR_write (nat r) n v tk) fs) ?A" using files_ops [OF ok] by blast
  moreover have "reg_view ?A (f, n) = set_reg r v (reg_view A (f, n))" using r by (auto simp: reg_view_def set_reg_def fun_eq_iff)
  moreover have "reg_view ?A k = reg_view A k" if "k \<noteq> (f, n)" for k using that by (cases k) (auto simp: reg_view_def fun_eq_iff)
  ultimately show ?thesis by blast
qed

lemma execute_lane_ok:
  assumes x: "execute_lane e sp tk l s = (l', s')" and fl: "files_ok L (cs_files s) A" "fst (lane_key l) \<in> L" "rl_lane l < 128"
    and W: "run_closed (en_programs e) P loads W" and p: "rl_program l = P (lane_key l)" and rd: "exec_ready e f st l"
    and l: "rl_active l \<Longrightarrow> placed st l \<and> W (lane_key l) (lane_pos st l, reg_view A (lane_key l))"
  shows "\<exists>A'. files_ok L (cs_files s') A' \<and> (\<forall>k. k \<noteq> lane_key l \<longrightarrow> reg_view A' k = reg_view A k) \<and> same_lane l l' \<and>
    cs_thread s' = cs_thread s \<and>
    (rl_active l' \<longrightarrow> rl_active l \<and> placed st l' \<and> W (lane_key l) (lane_pos st l', reg_view A' (lane_key l)))"
proof (cases "up_conditional (lane_uop e l)")
  case True
  then have "l' = l" "s' = s" using x by (auto simp: execute_lane_def Let_def)
  then show ?thesis using fl l by auto
next
  case nc: False
  let ?k = "lane_key l" and ?u = "lane_uop e l" and ?prog = "lane_prog e l" and ?i = "rl_uopIndex l"
  let ?R = "reg_view A ?k"
  have k: "snd ?k < 128" "?k = (rl_helperRegs l, rl_lane l)" using fl(3) by (auto simp: lane_key_def)
  have ev: "Uop_evaluate ?u (lane_source (cs_files s) l (up_source0 ?u)) (lane_source (cs_files s) l (up_source1 ?u)) = scalar_result ?u ?R"
    unfolding lane_source_reg scalar_result_def reg_of_view [OF fl(1,2) k(1)] ..
  have pr: "?prog = en_programs e (P ?k)" using p by (simp add: lane_prog_def)
  have at: "findPC ?prog (rl_lanePC l) = Some ?i" "\<not> in_frame st (rl_lane l)" "W ?k (At (rl_lanePC l), ?R)" if a: "rl_active l"
  proof -
    show f: "findPC ?prog (rl_lanePC l) = Some ?i" "\<not> in_frame st (rl_lane l)" using rd nc a by (auto simp: exec_ready_def)
    then show "W ?k (At (rl_lanePC l), ?R)" using l [OF a] lane_pos_free [OF f(2)] findPC_Some [OF f(1)] by simp
  qed
  have go: "rl_active l \<and> placed st l1 \<and> W ?k (lane_pos st l1, R)" if s: "rl_active l" "same_lane l l1" "W ?k (lane_pos [] l1, R)" for l1 R
  proof -
    have "rl_lane l1 = rl_lane l" using s(2) by (simp add: same_lane_def)
    then show ?thesis using at(2) [OF s(1)] s lane_pos_free [of st l1] by (simp add: placed_def)
  qed
  show ?thesis
  proof (cases "scalar_result ?u ?R")
    case None
    then have "l' = stop_lane External l" "s' = s" using x nc ev by (auto simp: execute_lane_def Let_def)
    then show ?thesis using fl lane_fields by metis
  next
    case (Some v)
    consider (skip) "up_load ?u" "\<not> up_tainted ?u" | (load) "up_load ?u" "up_tainted ?u" | (compute) "\<not> up_load ?u" by blast
    then show ?thesis
    proof cases
      case skip
      then have e: "l' = skip_load e l" "s' = s" using x nc ev Some by (auto simp: execute_lane_def Let_def)
      have "rl_active l \<and> placed st l' \<and> W ?k (lane_pos st l', ?R)" if a: "rl_active l'"
      proof (rule go)
        show act: "rl_active l" "same_lane l l'" using skip_load_lane a e by auto
        have "W ?k (At (next_in_program ?prog ?i), ?R)"
          using run_closedD [OF W scalar_step.unknown_load [OF at(1) [OF act(1), unfolded pr]]] nc Some skip at(3) [OF act(1)] pr
          by (simp add: lane_uop_def)
        then show "W ?k (lane_pos [] l', ?R)" using skip_load_lane(2) [of e l] a e by auto
      qed
      then show ?thesis using fl e skip_load_lane(1) by auto
    next
      case load
      then have e: "execute_load e sp ?u tk v l s = (l', s')" using x nc ev Some by (simp add: execute_lane_def Let_def)
      note el = execute_load_lane [OF e]
      have "rl_active l \<and> placed st l' \<and> W ?k (lane_pos st l', ?R)" if a: "rl_active l'"
      proof (rule go)
        show act: "rl_active l" "same_lane l l'" using el a by auto
        have "W ?k (Parked ?i, ?R)"
          using run_closedD [OF W scalar_step.request [OF at(1) [OF act(1), unfolded pr]]] nc Some load at(3) [OF act(1)] pr
          by (simp add: lane_uop_def)
        then show "W ?k (lane_pos [] l', ?R)" using el a by simp
      qed
      then show ?thesis using fl el by auto
    next
      case compute
      let ?l2 = "(write_result ?u tk v l)\<lparr>rl_regs := (rl_regs (write_result ?u tk v l))(0 := 0)\<rparr>" and ?d = "up_destination ?u"
      have l2: "same_lane l ?l2" "lane_uop e ?l2 = ?u" "rl_active ?l2 = rl_active l" "lane_prog e ?l2 = ?prog" "rl_uopIndex ?l2 = ?i"
        by (simp_all add: write_result_def same_lane_def lane_uop_def lane_prog_def)
      let ?fs = "if 0 \<le> ?d \<and> ?d < int HR_NumArchitecturalRegs then HF_update (rl_helperRegs l) (HR_write (nat ?d) (rl_lane l) v tk) (cs_files s) else cs_files s"
      have e: "l' = advance_lane e ?u ?l2" "s' = s\<lparr>cs_files := ?fs\<rparr>"
        using x nc ev Some compute by (auto simp: execute_lane_def Let_def)
      obtain A' where A': "files_ok L ?fs A'" "reg_view A' ?k = set_reg ?d v ?R" "\<And>k. k \<noteq> ?k \<Longrightarrow> reg_view A' k = reg_view A k"
      proof (cases "0 \<le> ?d \<and> ?d < int HR_NumArchitecturalRegs")
        case True
        then show thesis using that files_write [OF fl(1), of "rl_helperRegs l" ?d "rl_lane l" v tk] fl(2,3) k by auto
      next
        case False
        then show thesis using that [of A] fl(1) by (auto simp: set_reg_def)
      qed
      have sl: "same_lane l l'" unfolding e(1) using same_lane_trans [OF l2(1)] advance_lane_lane(1) [of ?l2 e] l2(2) by simp
      have "rl_active l \<and> placed st l' \<and> W ?k (lane_pos st l', reg_view A' ?k)" if a: "rl_active l'"
      proof (rule go)
        have al: "rl_active ?l2 \<and> rl_lanePC l' = successor ?prog ?i \<and> rl_lanePC l' \<noteq> 0"
          using advance_lane_lane(2) [of e ?l2] a l2(2,4,5) e(1) by auto
        then show act: "rl_active l" using l2(3) by simp
        show "same_lane l l'" by (rule sl)
        have "W ?k (At (successor ?prog ?i), set_reg ?d v ?R)"
          using run_closedD [OF W scalar_step.compute [OF at(1) [OF act, unfolded pr]]] nc Some compute at(3) [OF act] pr
          by (simp add: lane_uop_def)
        then show "W ?k (lane_pos [] l', reg_view A' ?k)" using al A'(2) by auto
      qed
      then show ?thesis using A'(1,3) e(2) sl by auto
    qed
  qed
qed

section \<open>Executing the group\<close>

definition lanes_of :: "replay_cpu \<Rightarrow> replay_lane list" where
  "lanes_of s = ht_replayLanes (cs_thread s)"

text \<open>What an issue attempt keeps: \<open>L\<close> are the live files and \<open>A\<close> their registers by lane.\<close>

definition cpu_ok :: "(nat \<times> nat \<Rightarrow> nat) \<Rightarrow> (nat \<times> nat \<Rightarrow> position \<times> (nat \<Rightarrow> reg_val) \<Rightarrow> bool) \<Rightarrow> nat set \<Rightarrow> lane_files \<Rightarrow> replay_cpu \<Rightarrow> bool" where
  "cpu_ok P W L A s \<longleftrightarrow> files_ok L (cs_files s) A \<and> lanes_ok P (lane_at L A W) (stacks (cs_thread s)) (lanes_of s) \<and>
     set (map rl_helperRegs (lanes_of s)) \<subseteq> L \<and> set (map du_helperRegs (ht_virBuffer (cs_thread s))) \<subseteq> L"

definition only_lanes :: "lane_files \<Rightarrow> lane_files \<Rightarrow> replay_lane list \<Rightarrow> bool" where
  "only_lanes A A' ls \<longleftrightarrow> (\<forall>k. k \<notin> lane_key ` set ls \<longrightarrow> reg_view A' k = reg_view A k)"

lemma execute_step_ok:
  fixes sp :: replay_template and tk :: tick
  assumes ok: "cpu_ok P W L A s" and W: "run_closed (en_programs e) P loads W" and i: "i < length (lanes_of s)"
    and rd: "exec_ready e f (stacks (cs_thread s) f) (lanes_of s ! i)"
  defines "s' \<equiv> execute_step e sp tk i s"
  shows "\<exists>A'. cpu_ok P W L A' s' \<and> only_lanes A A' (lanes_of s) \<and> same_lanes (lanes_of s) (lanes_of s') \<and>
    stacks (cs_thread s') = stacks (cs_thread s) \<and> (\<forall>j. j \<noteq> i \<longrightarrow> lanes_of s' ! j = lanes_of s ! j)"
proof -
  let ?l = "lanes_of s ! i" and ?st = "stacks (cs_thread s)"
  obtain l' s1 where x: "execute_lane e sp tk ?l s = (l', s1)" by fastforce
  have fl: "files_ok L (cs_files s) A" and lo: "lanes_ok P (lane_at L A W) ?st (lanes_of s)" using ok by (auto simp: cpu_ok_def)
  have mem: "?l \<in> set (lanes_of s)" using i by simp
  have f: "rl_helperRegs ?l = f" "f \<in> L" using rd mem ok by (auto simp: exec_ready_def cpu_ok_def)
  have n: "rl_lane ?l < 128" using lanes_okD(1) [OF lo] mem by (simp add: keys_ok_def)
  obtain A' where A': "files_ok L (cs_files s1) A'" "\<And>k. k \<noteq> lane_key ?l \<Longrightarrow> reg_view A' k = reg_view A k" "same_lane ?l l'"
      "cs_thread s1 = cs_thread s" "rl_active l' \<Longrightarrow> rl_active ?l \<and> placed (?st f) l' \<and> W (lane_key ?l) (lane_pos (?st f) l', reg_view A' (lane_key ?l))"
    using execute_lane_ok [OF x fl _ n W lanes_okD(3) [OF lo mem] rd] f lanes_okD(4,5) [OF lo mem] by (auto simp: lane_key_def lane_at_def)
  have s': "lanes_of s' = (lanes_of s)[i := l']" "cs_files s' = cs_files s1" "stacks (cs_thread s') = ?st"
      "ht_virBuffer (cs_thread s') = ht_virBuffer (cs_thread s)"
    using x A'(4) by (auto simp: s'_def execute_step_def lanes_of_def Let_def)
  have same: "same_lanes (lanes_of s) (lanes_of s')" unfolding s'(1) by (rule same_lanes_update [OF i A'(3)])
  have "lanes_ok P (lane_at L A' W) ?st (lanes_of s')"
  proof (rule lanes_ok_change [OF lo same lanes_okD(2) [OF lo]])
    fix j
    assume j: "j < length (lanes_of s)" "rl_active (lanes_of s' ! j)"
    let ?lj = "lanes_of s ! j"
    show "rl_active ?lj \<and> placed (?st (rl_helperRegs ?lj)) (lanes_of s' ! j) \<and>
        lane_at L A' W (lane_key ?lj) (lane_pos (?st (rl_helperRegs ?lj)) (lanes_of s' ! j))"
    proof (cases "j = i")
      case True
      then show ?thesis using A'(5) j s'(1) i f n by (simp add: lane_at_def lane_key_def)
    next
      case False
      then have "lane_key ?lj \<noteq> lane_key ?l" using keys_inj [OF lanes_okD(1) [OF lo] j(1) i] by (auto simp: lane_key_def)
      then show ?thesis using A'(2) lanes_okD(4,5) [OF lo, of ?lj] j False s'(1) by (simp add: lane_at_def)
    qed
  qed
  moreover have "set (map rl_helperRegs (lanes_of s')) \<subseteq> L"
  proof -
    have "map rl_helperRegs (lanes_of s') = map rl_helperRegs (lanes_of s)"
      by (rule nth_equalityI) (use same_lanes_length [OF same] same_lanes_nth [OF same] in \<open>auto simp: same_lane_def\<close>)
    then show ?thesis using ok by (simp add: cpu_ok_def)
  qed
  ultimately have "cpu_ok P W L A' s'" using A'(1) s' ok by (simp add: cpu_ok_def)
  moreover have "only_lanes A A' (lanes_of s)" using A'(2) mem by (auto simp: only_lanes_def)
  moreover have "\<forall>j. j \<noteq> i \<longrightarrow> lanes_of s' ! j = lanes_of s ! j" unfolding s'(1) by simp
  ultimately show ?thesis using same s'(3) by blast
qed

lemma only_lanes_trans:
  assumes "only_lanes A A1 ls" "same_lanes ls ls1" "only_lanes A1 A2 ls1"
  shows "only_lanes A A2 ls"
proof -
  have "lane_key ` set ls1 = lane_key ` set ls" using same_lanes_keys [OF assms(2)] by (metis set_map)
  then show ?thesis using assms(1,3) by (simp add: only_lanes_def)
qed

lemma execute_group_ok:
  assumes "cpu_ok P W L A s" "run_closed (en_programs e) P loads W" "distinct grp"
    and "\<forall>i \<in> set grp. i < length (lanes_of s) \<and> exec_ready e f (stacks (cs_thread s) f) (lanes_of s ! i)"
  shows "\<exists>A'. cpu_ok P W L A' (fold (execute_step e sp tk) grp s) \<and> only_lanes A A' (lanes_of s) \<and>
    same_lanes (lanes_of s) (lanes_of (fold (execute_step e sp tk) grp s)) \<and>
    stacks (cs_thread (fold (execute_step e sp tk) grp s)) = stacks (cs_thread s)"
  using assms
proof (induction grp arbitrary: s A)
  case Nil
  then show ?case by (auto simp: only_lanes_def)
next
  case (Cons i grp)
  let ?s = "execute_step e sp tk i s"
  have i: "i < length (lanes_of s)" "exec_ready e f (stacks (cs_thread s) f) (lanes_of s ! i)" using Cons.prems(4) by auto
  obtain A1 where A1: "cpu_ok P W L A1 ?s" "only_lanes A A1 (lanes_of s)" "same_lanes (lanes_of s) (lanes_of ?s)"
      "stacks (cs_thread ?s) = stacks (cs_thread s)" "\<And>j. j \<noteq> i \<Longrightarrow> lanes_of ?s ! j = lanes_of s ! j"
    using execute_step_ok [OF Cons.prems(1,2) i, of sp tk] by blast
  have "\<forall>j \<in> set grp. j < length (lanes_of ?s) \<and> exec_ready e f (stacks (cs_thread ?s) f) (lanes_of ?s ! j)"
  proof
    fix j
    assume j: "j \<in> set grp"
    then have "j \<noteq> i" using Cons.prems(3) by auto
    then show "j < length (lanes_of ?s) \<and> exec_ready e f (stacks (cs_thread ?s) f) (lanes_of ?s ! j)"
      using Cons.prems(4) A1(4) A1(5) [of j] same_lanes_length [OF A1(3)] j by simp
  qed
  from Cons.IH [OF A1(1) Cons.prems(2) _ this] Cons.prems(3)
  obtain A2 where "cpu_ok P W L A2 (fold (execute_step e sp tk) grp ?s)" "only_lanes A1 A2 (lanes_of ?s)"
      "same_lanes (lanes_of ?s) (lanes_of (fold (execute_step e sp tk) grp ?s))"
      "stacks (cs_thread (fold (execute_step e sp tk) grp ?s)) = stacks (cs_thread ?s)" by auto
  then show ?case using only_lanes_trans [OF A1(2,3)] same_lanes_trans [OF A1(3)] A1(4) by auto
qed

section \<open>An issue attempt\<close>

lemma issueReplayChunk_thread:
  "HT_issueReplayChunk tk t = Some t' \<Longrightarrow> ht_replayLanes t' = ht_replayLanes t \<and> stacks t' = stacks t \<and> ht_virBuffer t' = ht_virBuffer t"
  by (auto simp: HT_issueReplayChunk_def stacks_def reconvergence_of_def Let_def fun_eq_iff split: if_splits)

lemma issue_group_ok:
  assumes g: "issue_group e u tk grp t fs = Some (t', fs')" and fl: "files_ok L fs A" "f \<in> L" and grp: "grp \<noteq> []"
    "\<forall>i \<in> set grp. rl_helperRegs (ht_replayLanes t ! i) = f"
  shows "files_ok L fs' A \<and> ht_replayLanes t' = ht_replayLanes t \<and> stacks t' = stacks t \<and>
    set (map du_helperRegs (ht_virBuffer t')) \<subseteq> insert f (set (map du_helperRegs (ht_virBuffer t)))"
proof -
  let ?gl = "map ((!) (ht_replayLanes t)) grp"
  obtain names fs1 where c: "capture u ?gl fs = (names, fs1)" by fastforce
  have "files_ok L (snd (capture u ?gl fs)) A" by (rule capture_ok [OF fl]) (use grp in auto)
  moreover have "rl_helperRegs (hd ?gl) = f" using grp by (cases grp) auto
  moreover have t2: "HT_issueReplayChunk tk (enter_vir (new_uop e u tk ?gl names) t) = Some t'" "fs' = fs1"
    using g c by (auto simp: issue_group_def)
  moreover have "stacks (enter_vir d t) = stacks t" "ht_replayLanes (enter_vir d t) = ht_replayLanes t"
      "ht_virBuffer (enter_vir d t) = ht_virBuffer t @ [d]" for d
    by (simp_all add: stacks_def reconvergence_of_def fun_eq_iff enter_vir_def)
  moreover have "du_helperRegs (new_uop e u tk ?gl names) = rl_helperRegs (hd ?gl)" by (simp add: new_uop_def Let_def)
  ultimately show ?thesis using c issueReplayChunk_thread [OF t2(1)] by auto
qed

text \<open>
  The condition under which an attempt follows the scalar runs: no lane of the group has been deferred
  by the branch while its index already points behind it. The loop over the group would execute the
  first instruction of the deferred path at once, and again when the frame is popped.
\<close>

definition regular_group :: "replay_env \<Rightarrow> nat \<Rightarrow> nat list \<Rightarrow> replay_cpu \<Rightarrow> bool" where
  "regular_group e f grp s \<longleftrightarrow> list_all (\<lambda>i. let l = ht_replayLanes (branch_state e f grp s) ! i in
     rl_active l \<and> rl_reconvergenceBlocked l \<longrightarrow> up_conditional (lane_uop e l)) grp"

lemma issue_formed_cases:
  assumes "issue_formed e f grp s = Some (n, s')"
  obtains (nothing) "n = 0" "s' = s \<or> s' = s\<lparr>cs_thread := HT_retireFrontend (up_pc (lane_uop e (lanes_of s ! hd grp))) (cs_thread s)\<rparr>"
  | (granted) latency where "issue_granted e f grp latency s = Some (n, s')"
  using assms unfolding issue_formed_def lanes_of_def Let_def by (auto split: if_splits option.splits)

lemma issue_granted_cases:
  assumes "issue_granted e f grp latency s = Some (n, s')"
  defines "sl \<equiv> lanes_of s ! hd grp"
  obtains tk nt t3 fs3 t4 fs4 where "n = 1" "issue_group e (lane_uop e sl) tk grp (branch_state e f grp s) (cs_files s) = Some (t3, fs3)"
      "rename_destination f (lane_uop e sl) grp t3 fs3 = (t4, fs4)"
      "s' = execute_group e f (lane_prog e sl) tk grp (s\<lparr>cs_thread := t4, cs_files := fs4, cs_nextIssueTick := nt\<rparr>)"
  using assms unfolding issue_granted_def lanes_of_def Let_def by (auto split: option.splits prod.splits)

lemma retireFrontend_thread [simp]:
  "ht_replayLanes (HT_retireFrontend pc t) = ht_replayLanes t" "reconvergence_of f (HT_retireFrontend pc t) = reconvergence_of f t"
  "stacks (HT_retireFrontend pc t) = stacks t" "ht_virBuffer (HT_retireFrontend pc t) = ht_virBuffer t"
  by (simp_all add: HT_retireFrontend_def reconvergence_of_def stacks_def fun_eq_iff)

lemma apply_branch_vir [simp]: "ht_virBuffer (apply_branch e f u b seed t) = ht_virBuffer t"
  by (simp add: apply_branch_def set_reconvergence_def Let_def split: prod.split)

text \<open>A group as it was formed.\<close>

definition group_ok :: "replay_env \<Rightarrow> nat \<Rightarrow> nat list \<Rightarrow> replay_cpu \<Rightarrow> bool" where
  "group_ok e f grp s \<longleftrightarrow> grp \<noteq> [] \<and> distinct grp \<and> (\<forall>i \<in> set grp. i < length (lanes_of s) \<and> rl_helperRegs (lanes_of s ! i) = f \<and>
     seed_at e (reconvergence_of f (cs_thread s)) (lanes_of s ! i))"

lemma branch_state_ok:
  assumes ok: "cpu_ok P W L A s" and W: "run_closed (en_programs e) P loads W" and wf: "\<And>k. wf_program (en_programs e (P k))"
    and g: "group_ok e f grp s"
  shows "lanes_ok P (lane_at L A W) (stacks (branch_state e f grp s)) (ht_replayLanes (branch_state e f grp s))"
    and "same_lanes (lanes_of s) (ht_replayLanes (branch_state e f grp s))"
    and "ht_virBuffer (branch_state e f grp s) = ht_virBuffer (cs_thread s)"
    and "i \<in> set grp \<Longrightarrow> rl_active (ht_replayLanes (branch_state e f grp s) ! i) \<Longrightarrow>
      findPC (lane_prog e (ht_replayLanes (branch_state e f grp s) ! i)) (rl_lanePC (ht_replayLanes (branch_state e f grp s) ! i)) =
        Some (rl_uopIndex (ht_replayLanes (branch_state e f grp s) ! i))"
proof -
  let ?t = "cs_thread s" and ?fs = "cs_files s" and ?seed = "hd grp"
  let ?ls = "ht_replayLanes ?t" and ?r = "reconvergence_of f ?t"
  let ?u = "lane_uop e (?ls ! ?seed)" and ?b = "evaluate_branch e ?fs f ?r ?ls ?seed"
  let ?t1 = "HT_retireFrontend (up_pc ?u) ?t" and ?t' = "branch_state e f grp s"
  have fl: "files_ok L ?fs A" and lo: "lanes_ok P (lane_at L A W) (stacks ?t) ?ls" using ok by (auto simp: cpu_ok_def lanes_of_def)
  have grp: "grp \<noteq> []" "\<And>i. i \<in> set grp \<Longrightarrow> i < length ?ls \<and> seed_at e ?r (?ls ! i)" using g by (auto simp: group_ok_def lanes_of_def)
  have sd: "?seed < length ?ls" "seed_at e ?r (?ls ! ?seed)" using grp(2) [of ?seed] grp(1) by auto
  consider (no) "?t' = ?t1" | (yes) "?t' = apply_branch e f ?u ?b ?seed ?t1" "up_conditional ?u"
  proof (cases "up_conditional ?u \<and> outcomes_complete f ?r ?ls ?seed ?b")
    case True
    then have "?t' = apply_branch e f ?u ?b ?seed ?t1" unfolding branch_state_def Let_def by (rule if_P)
    then show thesis using yes True by blast
  next
    case False
    then have "?t' = ?t1" unfolding branch_state_def Let_def by (rule if_not_P)
    then show thesis using no by blast
  qed
  then have "lanes_ok P (lane_at L A W) (stacks ?t') (ht_replayLanes ?t') \<and> same_lanes ?ls (ht_replayLanes ?t') \<and> ht_virBuffer ?t' = ht_virBuffer ?t \<and>
      (i \<in> set grp \<longrightarrow> rl_active (ht_replayLanes ?t' ! i) \<longrightarrow> findPC (lane_prog e (?ls ! i)) (rl_lanePC (ht_replayLanes ?t' ! i)) =
        Some (rl_uopIndex (ht_replayLanes ?t' ! i)))" for i
  proof cases
    case no
    then show ?thesis using lo grp(2) by (auto simp: seed_at_def)
  next
    case yes
    have b2: "length (bo_paths ?b) \<le> 2" "bo_selected ?b < 2"
      using two_paths [OF evaluate_branch_ok [OF lanes_okD(1) [OF lo]]] selected_two [OF lanes_okD(1) [OF lo]] by auto
    have "lanes_ok P (lane_at L A W) (stacks ?t') (ht_replayLanes ?t')"
      unfolding yes(1) using apply_branch_ok [of P "lane_at L A W" ?t1 e ?fs ?seed f] lo lane_nops [OF W] lane_branches [OF W fl] wf sd yes(2) by simp
    moreover have "same_lanes ?ls (ht_replayLanes ?t')" unfolding yes(1) using apply_branch_lane(1) [OF b2, of ?t1] by simp
    moreover have "findPC (lane_prog e (?ls ! i)) (rl_lanePC (ht_replayLanes ?t' ! i)) = Some (rl_uopIndex (ht_replayLanes ?t' ! i))"
      if i: "i \<in> set grp" "rl_active (ht_replayLanes ?t' ! i)"
    proof -
      have il: "i < length (ht_replayLanes ?t1)" using grp(2) i by simp
      note L = apply_branch_lane(2) [OF b2 il, where e = e and f = f and u = ?u and seed = ?seed, folded yes(1), OF i(2)]
      show ?thesis using L grp(2) [OF i(1)] by (auto simp: seed_at_def moved_lane_def)
    qed
    ultimately show ?thesis using yes(1) by simp
  qed
  note F = this
  show "lanes_ok P (lane_at L A W) (stacks ?t') (ht_replayLanes ?t')" "ht_virBuffer ?t' = ht_virBuffer ?t" using F by auto
  show sl: "same_lanes (lanes_of s) (ht_replayLanes ?t')" using F by (simp add: lanes_of_def)
  assume i: "i \<in> set grp" "rl_active (ht_replayLanes ?t' ! i)"
  have "same_lane (?ls ! i) (ht_replayLanes ?t' ! i)" using same_lanes_nth [OF sl] grp(2) [OF i(1)] by (simp add: lanes_of_def)
  then show "findPC (lane_prog e (ht_replayLanes ?t' ! i)) (rl_lanePC (ht_replayLanes ?t' ! i)) = Some (rl_uopIndex (ht_replayLanes ?t' ! i))"
    using F i by (simp add: same_lane_def lane_prog_def)
qed

lemma lanes_files:
  assumes "same_lanes a b"
  shows "map rl_helperRegs b = map rl_helperRegs a"
  by (rule nth_equalityI) (use same_lanes_length [OF assms] same_lanes_nth [OF assms] in \<open>auto simp: same_lane_def\<close>)

lemma execute_group_thread:
  fixes e :: replay_env and grp :: "nat list" and s :: replay_cpu and sp :: replay_template and tk :: tick
  defines "s1 \<equiv> fold (execute_step e sp tk) grp s"
  shows "lanes_of (execute_group e f sp tk grp s) = filter rl_active (lanes_of s1)"
    "stacks (cs_thread (execute_group e f sp tk grp s)) = stacks (cs_thread s1)"
    "cs_files (execute_group e f sp tk grp s) = cs_files s1"
    "ht_virBuffer (cs_thread (execute_group e f sp tk grp s)) = ht_virBuffer (cs_thread s1)"
proof -
  have "reconvergence_of k (retireTerminatedLanes t) = reconvergence_of k t" for k t
    by (simp add: retireTerminatedLanes_def reconvergence_of_def)
  then show "stacks (cs_thread (execute_group e f sp tk grp s)) = stacks (cs_thread s1)"
    by (auto simp: execute_group_def s1_def Let_def stacks_def)
qed (simp_all add: execute_group_def s1_def lanes_of_def retireTerminatedLanes_def set_reconvergence_def Let_def)

definition no_new_lanes :: "replay_lane list \<Rightarrow> replay_lane list \<Rightarrow> bool" where
  "no_new_lanes ls ls' \<longleftrightarrow> lane_key ` set ls' \<subseteq> lane_key ` set ls"

lemma issue_granted_ok:
  assumes ok: "cpu_ok P W L A s" and W: "run_closed (en_programs e) P loads W" and wf: "\<And>k. wf_program (en_programs e (P k))"
    and g: "group_ok e f grp s" and reg: "regular_group e f grp s" and i: "issue_granted e f grp latency s = Some (n, s')"
  shows "(\<exists>A'. cpu_ok P W L A' s' \<and> only_lanes A A' (lanes_of s) \<and> no_new_lanes (lanes_of s) (lanes_of s')) \<and>
    stacks (cs_thread s') = stacks (branch_state e f grp s)"
proof -
  let ?u = "lane_uop e (lanes_of s ! hd grp)" and ?sp = "lane_prog e (lanes_of s ! hd grp)" and ?t2 = "branch_state e f grp s"
  note B = branch_state_ok [OF ok W wf g]
  obtain tk nt t3 fs3 t4 fs4 where I: "issue_group e ?u tk grp ?t2 (cs_files s) = Some (t3, fs3)" "rename_destination f ?u grp t3 fs3 = (t4, fs4)"
      "s' = execute_group e f ?sp tk grp (s\<lparr>cs_thread := t4, cs_files := fs4, cs_nextIssueTick := nt\<rparr>)"
    using issue_granted_cases [OF i] by metis
  have grp: "grp \<noteq> []" "distinct grp" "\<forall>i \<in> set grp. i < length (lanes_of s) \<and> rl_helperRegs (lanes_of s ! i) = f"
    using g by (auto simp: group_ok_def)
  have fl: "files_ok L (cs_files s) A" and vb: "set (map du_helperRegs (ht_virBuffer (cs_thread s))) \<subseteq> L"
    and hl: "set (map rl_helperRegs (lanes_of s)) \<subseteq> L" using ok by (auto simp: cpu_ok_def)
  have fL: "f \<in> L" using grp hl by (cases grp) auto
  have gl: "\<forall>i \<in> set grp. i < length (ht_replayLanes ?t2) \<and> rl_helperRegs (ht_replayLanes ?t2 ! i) = f"
    using grp(3) same_lanes_length [OF B(2)] same_lanes_nth [OF B(2)] by (auto simp: same_lane_def)
  have G0: "files_ok L fs3 A" "ht_replayLanes t3 = ht_replayLanes ?t2" "stacks t3 = stacks ?t2"
      "set (map du_helperRegs (ht_virBuffer t3)) \<subseteq> insert f (set (map du_helperRegs (ht_virBuffer (cs_thread s))))"
    using issue_group_ok [OF I(1) fl fL grp(1)] gl B(3) by simp_all
  have "set (map du_helperRegs (ht_virBuffer t3)) \<subseteq> L" by (rule order_trans [OF G0(4)]) (use vb fL in simp)
  note G = G0(1-3) this
  have R: "files_ok L fs4 A" "stacks t4 = stacks ?t2" "lanes_ok P (lane_at L A W) (stacks ?t2) (ht_replayLanes t4)"
      "length (ht_replayLanes t4) = length (ht_replayLanes ?t2)"
      "\<And>i. i < length (ht_replayLanes ?t2) \<Longrightarrow> ht_replayLanes t4 ! i \<in> {ht_replayLanes ?t2 ! i, stopped_lane (ht_replayLanes ?t2 ! i)}"
      "map du_helperRegs (ht_virBuffer t4) = map du_helperRegs (ht_virBuffer t3)"
    using rename_destination_ok [OF I(2) G(1) fL _ grp(1), where P = P and Q = "lane_at L A W"] B(1) G(2,3) gl by auto
  let ?s4 = "s\<lparr>cs_thread := t4, cs_files := fs4, cs_nextIssueTick := nt\<rparr>"
  have same: "same_lanes (lanes_of s) (lanes_of ?s4)"
  proof -
    have "same_lane (ht_replayLanes ?t2 ! i) (ht_replayLanes t4 ! i)" if "i < length (ht_replayLanes ?t2)" for i
      using R(5) [OF that] by (auto simp: stopped_lane_def same_lane_def)
    then have "same_lanes (ht_replayLanes ?t2) (ht_replayLanes t4)" using R(4) by (simp add: same_lanes_def list_all2_conv_all_nth)
    then show ?thesis using same_lanes_trans [OF B(2)] by (simp add: lanes_of_def)
  qed
  have c4: "cpu_ok P W L A ?s4"
    using R(1-3,6) G(4) lanes_files [OF same] hl unfolding cpu_ok_def by (simp add: lanes_of_def)
  have rd: "\<forall>i \<in> set grp. i < length (lanes_of ?s4) \<and> exec_ready e f (stacks (cs_thread ?s4) f) (lanes_of ?s4 ! i)"
  proof
    fix i
    assume i: "i \<in> set grp"
    let ?l = "ht_replayLanes ?t2 ! i" and ?l4 = "ht_replayLanes t4 ! i"
    have il: "i < length (ht_replayLanes ?t2)" "rl_helperRegs ?l = f" using gl i by auto
    have four: "?l4 = ?l \<or> \<not> rl_active ?l4 \<and> rl_helperRegs ?l4 = rl_helperRegs ?l" using R(5) [OF il(1)] by (auto simp: stopped_lane_def)
    have "up_conditional (lane_uop e ?l) \<or> \<not> in_frame (stacks ?t2 f) (rl_lane ?l) \<and> findPC (lane_prog e ?l) (rl_lanePC ?l) = Some (rl_uopIndex ?l)"
      if a: "rl_active ?l"
    proof (cases "up_conditional (lane_uop e ?l)")
      case False
      then have "\<not> rl_reconvergenceBlocked ?l" using reg a i by (auto simp: regular_group_def list_all_iff Let_def)
      then have "\<not> in_frame (stacks ?t2 f) (rl_lane ?l)" using lanes_okD(4) [OF B(1), of ?l] il a by (auto simp: placed_def)
      then show ?thesis using B(4) [OF i a] by blast
    qed simp
    then show "i < length (lanes_of ?s4) \<and> exec_ready e f (stacks (cs_thread ?s4) f) (lanes_of ?s4 ! i)"
      using four il R(2,4) by (auto simp: exec_ready_def lanes_of_def)
  qed
  obtain A' where A': "cpu_ok P W L A' (fold (execute_step e ?sp tk) grp ?s4)" "only_lanes A A' (lanes_of ?s4)"
      "same_lanes (lanes_of ?s4) (lanes_of (fold (execute_step e ?sp tk) grp ?s4))"
      "stacks (cs_thread (fold (execute_step e ?sp tk) grp ?s4)) = stacks t4"
    using execute_group_ok [OF c4 W grp(2) rd] by auto
  note E = execute_group_thread [where e = e and f = f and sp = ?sp and tk = tk and grp = grp and s = ?s4, folded I(3)]
  have "cpu_ok P W L A' s'"
    using A'(1) lanes_ok_filter unfolding cpu_ok_def E by auto
  moreover have keys: "lane_key ` set (lanes_of ?s4) = lane_key ` set (lanes_of s)" using same_lanes_keys [OF same] by (metis set_map)
  moreover have "no_new_lanes (lanes_of s) (lanes_of s')"
    unfolding no_new_lanes_def E keys [symmetric] using same_lanes_keys [OF A'(3)] by (metis filter_is_subset image_mono set_map)
  moreover have "stacks (cs_thread s') = stacks ?t2" unfolding E using A'(4) R(2) by simp
  ultimately show ?thesis using A'(2) by (auto simp: only_lanes_def)
qed

lemma branch_state_frames:
  assumes "keys_ok (lanes_of s)" "frames_in K (stacks (cs_thread s))" "lane_key ` set (lanes_of s) \<subseteq> K"
  shows "frames_in K (stacks (branch_state e f grp s))"
proof -
  let ?t = "cs_thread s"
  let ?ls = "ht_replayLanes ?t" and ?r = "reconvergence_of f ?t"
  let ?u = "lane_uop e (?ls ! hd grp)" and ?b = "evaluate_branch e (cs_files s) f ?r ?ls (hd grp)"
  let ?t1 = "HT_retireFrontend (up_pc ?u) ?t"
  have "branch_state e f grp s = (if up_conditional ?u \<and> outcomes_complete f ?r ?ls (hd grp) ?b then apply_branch e f ?u ?b (hd grp) ?t1 else ?t1)"
    unfolding branch_state_def Let_def ..
  moreover have "frames_in K (stacks (apply_branch e f ?u ?b (hd grp) ?t1))"
    using apply_branch_frames [where t = ?t1 and K = K and e = e and fs = "cs_files s" and f = f and seed = "hd grp" and u = ?u] assms
    by (simp add: lanes_of_def)
  ultimately show ?thesis using assms(2) by simp
qed

end
