(* ===== verification/DVR_Replay_Attempt.thy ===== *)
theory DVR_Replay_Attempt
  imports DVR_Replay_Execute
begin

text \<open>
  A whole call of \<open>CPU::issueDVRReplayLanes\<close>: pruning, reconvergence, forming the group, and the issue.
  Every lane that is active afterwards has made steps of its scalar run.
\<close>

section \<open>A whole attempt\<close>

definition with_thread :: "replay_cpu \<Rightarrow> helper_thread \<Rightarrow> replay_cpu" where
  "with_thread s t = s\<lparr>cs_thread := t\<rparr>"

lemma with_thread_simps [simp]:
  "cs_thread (with_thread s t) = t" "cs_files (with_thread s t) = cs_files s" "lanes_of (with_thread s t) = ht_replayLanes t"
  by (simp_all add: with_thread_def lanes_of_def)

text \<open>The stages of an attempt: after pruning, after reconvergence, and with the group.\<close>

definition pruned_thread :: "replay_env \<Rightarrow> replay_cpu \<Rightarrow> helper_thread" where
  "pruned_thread e s = (cs_thread s)\<lparr>ht_replayLanes := prune_lanes e (ht_replayLanes (cs_thread s))\<rparr>"

definition reconverged_thread :: "replay_env \<Rightarrow> replay_cpu \<Rightarrow> helper_thread" where
  "reconverged_thread e s = (case select_context e (pruned_thread e s) (cs_files s) of
     None \<Rightarrow> pruned_thread e s | Some f \<Rightarrow> reconverge f (pruned_thread e s))"

definition formed_lanes :: "replay_env \<Rightarrow> replay_cpu \<Rightarrow> replay_lane list \<times> nat list" where
  "formed_lanes e s = (let t = reconverged_thread e s in
     form_group e (select_context e (pruned_thread e s) (cs_files s)) t (cs_files s) [0..<length (ht_replayLanes t)] (ht_replayLanes t) [])"

text \<open>An attempt whose group is regular, if it forms one.\<close>

definition regular_attempt :: "replay_env \<Rightarrow> replay_cpu \<Rightarrow> bool" where
  "regular_attempt e s =
     (case (select_context e (pruned_thread e s) (cs_files s), formed_lanes e s) of
        (Some f, lanes, _ # _) \<Rightarrow> regular_group e f (snd (formed_lanes e s)) (with_thread s ((reconverged_thread e s)\<lparr>ht_replayLanes := lanes\<rparr>))
      | _ \<Rightarrow> True)"

text \<open>The ways an attempt can go: nothing to do, nothing left after pruning, no group, or a group is formed.\<close>

lemma attempt_cases:
  assumes i: "issueDVRReplayLanes e slots s = Some (n, s')" and fg: "formed_lanes e s = (lanes, grp)"
  obtains (idle) "n = 0" "s' = s" | (pruned) "n = 0" "s' = with_thread s (pruned_thread e s)"
  | (nogroup) "n = 0" "s' = with_thread s (retireTerminatedLanes ((reconverged_thread e s)\<lparr>ht_replayLanes := lanes\<rparr>))"
  | (group_formed) f where "select_context e (pruned_thread e s) (cs_files s) = Some f" "grp \<noteq> []"
      "issue_formed e f grp (with_thread s ((reconverged_thread e s)\<lparr>ht_replayLanes := lanes\<rparr>)) = Some (n, s')"
      "slots \<noteq> 0" "length (ht_virBuffer (cs_thread s)) < VIRCapacity" "ht_readyUops (cs_thread s) \<noteq> 0"
proof -
  let ?t = "pruned_thread e s" and ?c = "select_context e (pruned_thread e s) (cs_files s)"
  let ?t2 = "(reconverged_thread e s)\<lparr>ht_replayLanes := lanes\<rparr>"
  let ?C1 = "\<not> en_vectorChunkModel e \<or> slots = 0 \<or> ht_replayLanes (cs_thread s) = []"
  let ?C2 = "length (ht_virBuffer (cs_thread s)) \<ge> VIRCapacity" and ?C3 = "ht_replayLanes ?t = [] \<or> ht_readyUops ?t = 0"
  let ?r = "case (?c, grp) of (Some f, _ # _) \<Rightarrow> issue_formed e f grp (with_thread s ?t2) | _ \<Rightarrow> Some (0, with_thread s (retireTerminatedLanes ?t2))"
  have "issueDVRReplayLanes e slots s =
      (if ?C1 then Some (0, s) else if ?C2 then Some (0, s) else if ?C3 then Some (0, with_thread s ?t) else ?r)"
    using fg unfolding issueDVRReplayLanes_def formed_lanes_def Let_def pruned_thread_def [symmetric] reconverged_thread_def [symmetric] with_thread_def
    by (simp only: prod.case option.case list.case split: option.split list.split)
  then consider "issueDVRReplayLanes e slots s = Some (0, s)" | "issueDVRReplayLanes e slots s = Some (0, with_thread s ?t)"
    | "issueDVRReplayLanes e slots s = ?r" "\<not> ?C1" "\<not> ?C2" "\<not> ?C3" by argo
  then show thesis
  proof cases
    case 1
    then have "Some (n, s') = Some (0, s)" using i by argo
    then show thesis using idle by blast
  next
    case 2
    then have "Some (n, s') = Some (0, with_thread s ?t)" using i by argo
    then show thesis using pruned by blast
  next
    case 3
    show thesis
    proof (cases "?c = None \<or> grp = []")
      case True
      then have "?r = Some (0, with_thread s (retireTerminatedLanes ?t2))" by (cases ?c; cases grp; simp)
      then have "Some (n, s') = Some (0, with_thread s (retireTerminatedLanes ?t2))" using i 3(1) by argo
      then show thesis using nogroup by blast
    next
      case False
      then obtain f a as where c: "?c = Some f" "grp = a # as" by (cases ?c; cases grp) auto
      then have "?r = issue_formed e f grp (with_thread s ?t2)" by simp
      then have "issue_formed e f grp (with_thread s ?t2) = Some (n, s')" using i 3(1) by argo
      moreover have "slots \<noteq> 0" "length (ht_virBuffer (cs_thread s)) < VIRCapacity" "ht_readyUops (cs_thread s) \<noteq> 0"
        using 3(2-4) by (auto simp: pruned_thread_def)
      ultimately show thesis using group_formed [of f] c by blast
    qed
  qed
qed

lemma pruned_stacks [simp]: "stacks (pruned_thread e s) = stacks (cs_thread s)"
  by (simp add: pruned_thread_def stacks_def reconvergence_of_def fun_eq_iff)

lemma cpu_ok_thread:
  "cpu_ok P W L A (with_thread s t) \<longleftrightarrow> files_ok L (cs_files s) A \<and> lanes_ok P (lane_at L A W) (stacks t) (ht_replayLanes t) \<and>
     set (map rl_helperRegs (ht_replayLanes t)) \<subseteq> L \<and> set (map du_helperRegs (ht_virBuffer t)) \<subseteq> L"
  by (simp add: cpu_ok_def)

lemma cpu_ok_filter:
  assumes "cpu_ok P W L A (with_thread s t)"
  shows "cpu_ok P W L A (with_thread s (t\<lparr>ht_replayLanes := filter B (ht_replayLanes t)\<rparr>))"
  using assms lanes_ok_filter by (auto simp: cpu_ok_thread)

lemma pop_frames_same: "pop_frames f frs ls r = (ls', r') \<Longrightarrow> same_lanes ls ls'"
proof (induction frs arbitrary: ls r)
  case (Cons fr frs)
  show ?case
  proof (cases "path_ended ls f fr")
    case True
    then have "same_lanes (map (pop_lane f fr) ls) ls'" using Cons by simp
    then show ?thesis using same_lanes_trans [OF same_lanes_map [of "pop_lane f fr" ls]] by simp
  qed (use Cons.prems in auto)
qed simp

lemma reconverge_same:
  "same_lanes (ht_replayLanes t) (ht_replayLanes (reconverge f t))" "ht_virBuffer (reconverge f t) = ht_virBuffer t"
proof -
  let ?r = "refreshCurrentGroup (ht_replayLanes t) f (reconvergence_of f t)"
  obtain ls r1 where p: "pop_frames f (rr_stack ?r) (ht_replayLanes t) ?r = (ls, r1)" by fastforce
  have s: "same_lanes (ht_replayLanes t) ls" by (rule pop_frames_same [OF p])
  have "same_lanes ls (map (clear_path f) ls)" by (rule same_lanes_map) simp
  then show "same_lanes (ht_replayLanes t) (ht_replayLanes (reconverge f t))"
    using p s same_lanes_trans [OF s] by (simp add: reconverge_def Let_def)
  show "ht_virBuffer (reconverge f t) = ht_virBuffer t" using p by (simp add: reconverge_def Let_def set_reconvergence_def)
qed

lemma same_no_new: "same_lanes ls ls' \<Longrightarrow> no_new_lanes ls ls'"
  unfolding no_new_lanes_def by (metis order_refl same_lanes_keys set_map)

lemma no_new_trans: "no_new_lanes a b \<Longrightarrow> no_new_lanes b c \<Longrightarrow> no_new_lanes a c"
  by (auto simp: no_new_lanes_def)

lemma no_new_filter: "no_new_lanes ls (filter B ls)"
  by (auto simp: no_new_lanes_def)

lemma only_lanes_mono: "only_lanes A A' ls \<Longrightarrow> no_new_lanes ls0 ls \<Longrightarrow> only_lanes A A' ls0"
  by (auto simp: only_lanes_def no_new_lanes_def)

text \<open>The state in which the group is formed.\<close>

lemma formed_ok:
  assumes ok: "cpu_ok P W L A (with_thread s t)" and W: "run_closed (en_programs e) P loads W" and wf: "\<And>k. wf_program (en_programs e (P k))"
    and f: "form_group e c t (cs_files s) [0..<length (ht_replayLanes t)] (ht_replayLanes t) [] = (lanes, grp)"
  defines "t2 \<equiv> t\<lparr>ht_replayLanes := lanes\<rparr>"
  shows "cpu_ok P W L A (with_thread s t2)" and "no_new_lanes (ht_replayLanes t) lanes"
    and "c = Some g \<Longrightarrow> grp \<noteq> [] \<Longrightarrow> group_ok e g grp (with_thread s t2)" and "c = None \<Longrightarrow> grp = []"
proof -
  have lo: "lanes_ok P (lane_at L A W) (stacks t) (ht_replayLanes t)" using ok by (simp add: cpu_ok_thread)
  note F = form_group_ok [OF f lo lane_nops [OF W] wf]
  show "cpu_ok P W L A (with_thread s t2)"
    using ok F(1) lanes_files [OF F(2)] unfolding cpu_ok_thread t2_def by simp
  show "no_new_lanes (ht_replayLanes t) lanes" by (rule same_no_new [OF F(2)])
  show "grp = []" if "c = None" using F(4) that by (metis list.set_intros(1) neq_Nil_conv option.distinct(1))
  show "group_ok e g grp (with_thread s t2)" if c: "c = Some g" "grp \<noteq> []"
  proof -
    have "i < length lanes \<and> rl_helperRegs (lanes ! i) = g \<and> seed_at e (reconvergence_of g t2) (lanes ! i)" if i: "i \<in> set grp" for i
    proof -
      have v: "i < length (ht_replayLanes t)" "visited e g (reconvergence_of g t) (ht_replayLanes t ! i) (lanes ! i)" using F(4) [OF i] c by auto
      moreover have "reconvergence_of g t2 = reconvergence_of g t" by (simp add: t2_def reconvergence_of_def)
      moreover have "lane_prog e (ht_replayLanes t ! i) = lane_prog e (lanes ! i)" using v(2) same_lane_prog by (auto simp: visited_def)
      ultimately show ?thesis using same_lanes_length [OF F(2)] by (simp add: visited_def eligible_def seed_at_def)
    qed
    then show ?thesis using c(2) F(3) by (simp add: group_ok_def t2_def)
  qed
qed

lemma attempt_ok:
  assumes ok: "cpu_ok P W L A s" and W: "run_closed (en_programs e) P loads W" and wf: "\<And>k. wf_program (en_programs e (P k))"
    and reg: "regular_attempt e s" and i: "issueDVRReplayLanes e slots s = Some (n, s')"
    and K: "frames_in K (stacks (cs_thread s))" "lane_key ` set (lanes_of s) \<subseteq> K"
  shows "(\<exists>A'. cpu_ok P W L A' s' \<and> only_lanes A A' (lanes_of s) \<and> no_new_lanes (lanes_of s) (lanes_of s')) \<and>
    frames_in K (stacks (cs_thread s'))"
proof -
  have refl: "only_lanes A A ls" for ls by (simp add: only_lanes_def)
  let ?t = "pruned_thread e s"
  let ?c = "select_context e ?t (cs_files s)"
  define t1 where "t1 = reconverged_thread e s"
  obtain lanes grp where f0: "formed_lanes e s = (lanes, grp)" by fastforce
  then have fg: "form_group e ?c t1 (cs_files s) [0..<length (ht_replayLanes t1)] (ht_replayLanes t1) [] = (lanes, grp)"
    by (simp add: formed_lanes_def t1_def Let_def)
  let ?t2 = "t1\<lparr>ht_replayLanes := lanes\<rparr>"
  have s0: "with_thread s (cs_thread s) = s" by (simp add: with_thread_def)
  have c0: "cpu_ok P W L A (with_thread s ?t)"
    using cpu_ok_filter [of P W L A s "cs_thread s"] ok s0 by (simp add: prune_lanes_def pruned_thread_def)
  have n0: "no_new_lanes (lanes_of s) (ht_replayLanes ?t)" by (simp add: prune_lanes_def pruned_thread_def lanes_of_def no_new_filter)
  have c1: "cpu_ok P W L A (with_thread s t1)" "no_new_lanes (lanes_of s) (ht_replayLanes t1)"
  proof -
    have "cpu_ok P W L A (with_thread s (reconverge f ?t)) \<and> no_new_lanes (lanes_of s) (ht_replayLanes (reconverge f ?t))" for f
    proof -
      have same: "same_lanes (ht_replayLanes ?t) (ht_replayLanes (reconverge f ?t))" by (rule reconverge_same(1))
      have "lanes_ok P (lane_at L A W) (stacks (reconverge f ?t)) (ht_replayLanes (reconverge f ?t))"
        by (rule reconverge_ok) (use c0 in \<open>simp only: cpu_ok_thread\<close>)
      then have "cpu_ok P W L A (with_thread s (reconverge f ?t))"
        using c0 reconverge_same(2) [of f ?t] lanes_files [OF same] unfolding cpu_ok_thread by simp
      then show ?thesis using no_new_trans [OF n0 same_no_new [OF same]] by blast
    qed
    then show "cpu_ok P W L A (with_thread s t1)" "no_new_lanes (lanes_of s) (ht_replayLanes t1)"
      using c0 n0 unfolding t1_def reconverged_thread_def by (cases ?c; simp)+
  qed
  have k1: "frames_in K (stacks t1)"
    unfolding t1_def reconverged_thread_def using K(1) reconverge_frames [of K ?t] pruned_stacks [of e s] by (cases ?c; simp)
  note F = formed_ok [OF c1(1) W wf fg]
  have n2: "no_new_lanes (lanes_of s) lanes" by (rule no_new_trans [OF c1(2) F(2)])
  from i f0 show ?thesis
  proof (cases rule: attempt_cases)
    case idle
    then show ?thesis using ok refl K by (auto simp: no_new_lanes_def)
  next
    case pruned
    then show ?thesis using c0 n0 refl K by auto
  next
    case nogroup
    have "cpu_ok P W L A s'" using cpu_ok_filter [OF F(1)] nogroup by (simp add: retireTerminatedLanes_def t1_def)
    moreover have "no_new_lanes (lanes_of s) (lanes_of s')"
      using no_new_trans [OF n2 no_new_filter] nogroup by (simp add: retireTerminatedLanes_def)
    ultimately show ?thesis using refl k1 nogroup by (auto simp: retireTerminatedLanes_def t1_def)
  next
    case (group_formed f)
    let ?s2 = "with_thread s ?t2"
    have g: "group_ok e f grp ?s2" by (rule F(3) [OF group_formed(1,2)])
    have r: "regular_group e f grp ?s2"
    proof -
      obtain a as where "grp = a # as" using group_formed(2) by (cases grp) auto
      then show ?thesis using reg f0 group_formed(1) by (simp add: regular_attempt_def t1_def)
    qed
    from group_formed(3) [folded t1_def] show ?thesis
    proof (cases rule: issue_formed_cases)
      case nothing
      then show ?thesis using F(1) n2 refl k1 by (intro conjI exI [of _ A]) (auto simp: cpu_ok_def with_thread_def lanes_of_def)
    next
      case (granted latency)
      from issue_granted_ok [OF F(1) W wf g r granted]
      obtain A' where A': "cpu_ok P W L A' s'" "only_lanes A A' lanes" "no_new_lanes lanes (lanes_of s')"
        and st: "stacks (cs_thread s') = stacks (branch_state e f grp ?s2)" by auto
      have "frames_in K (stacks (branch_state e f grp ?s2))"
      proof (rule branch_state_frames)
        show "keys_ok (lanes_of ?s2)" using F(1) by (auto simp: cpu_ok_def dest: lanes_okD(1))
        show "frames_in K (stacks (cs_thread ?s2))" "lane_key ` set (lanes_of ?s2) \<subseteq> K" using k1 K(2) n2 by (auto simp: no_new_lanes_def)
      qed
      then show ?thesis using A'(1) only_lanes_mono [OF A'(2) n2] no_new_trans [OF n2 A'(3)] st by auto
    qed
  qed
qed

end
