(* ===== verification/DVR_Replay_Run.thy ===== *)
theory DVR_Replay_Run
  imports DVR_Replay_Attempt
begin

text \<open>
  Runs of the helper's vector replay: register files are set up, source values and load values arrive,
  issue attempts are made and vector copies retire, in any order. Every active lane is at all times
  where a scalar run of the recorded program is, with the same registers.
\<close>

section \<open>The events of a replay\<close>

datatype replay_event =
  StartFile nat nat
| SourceValue nat nat reg_val
| LoadValue nat nat addr reg_val
| Attempt replay_env nat
| RetireCopies tick
| Restart
| Elsewhere

text \<open>The register files of a run with their programs, the value a lane started with, and the values its loads got.\<close>

definition started :: "replay_event list \<Rightarrow> nat set" where
  "started evs = {f. \<exists>p. StartFile f p \<in> set evs}"

definition lane_loads :: "replay_event list \<Rightarrow> nat \<times> nat \<Rightarrow> (addr \<times> reg_val) set" where
  "lane_loads evs k = {(pc, v). LoadValue (fst k) (snd k) pc v \<in> set evs}"

definition new_file :: "programs \<Rightarrow> nat \<Rightarrow> nat \<Rightarrow> helper_files \<Rightarrow> helper_files" where
  "new_file programs f p fs = HF_update f (\<lambda>_. snd (HR_vectorize (nat (rt_triggerDestination (programs p)))
     (HR_initialize (rt_initialRegs (programs p)) (HR_new\<lparr>hr_bank := hf_bank fs\<rparr>)))) fs"

text \<open>
  A register file is set up for one program, as \<open>launchDVRStridePrefetches\<close> and the nested launch do, and every
  lane of it gets one source value. Loads answer a request of the lane. In between, vector copies
  retire, a launch may clear the helper, and the rest of the processor works: it leaves the lanes,
  the frames and the register files alone and takes and frees other names of the bank.
\<close>

inductive replay_run :: "programs \<Rightarrow> replay_event list \<Rightarrow> replay_cpu \<Rightarrow> bool" for programs where
  empty: "ht_replayLanes (cs_thread s) = [] \<Longrightarrow> ht_reconvergence (cs_thread s) = (\<lambda>f. None) \<Longrightarrow> ht_virBuffer (cs_thread s) = [] \<Longrightarrow>
    (\<forall>b. hf_bank (cs_files s) = Some b \<longrightarrow> bank_classes b \<and> (\<forall>r. count (free_names b) r \<le> 1)) \<Longrightarrow> replay_run programs [] s"
| start: "replay_run programs evs s \<Longrightarrow> f \<notin> started evs \<Longrightarrow> 0 \<le> rt_triggerDestination (programs p) \<Longrightarrow>
    rt_triggerDestination (programs p) < int HR_NumArchitecturalRegs \<Longrightarrow>
    replay_run programs (StartFile f p # evs) (s\<lparr>cs_files := new_file programs f p (cs_files s)\<rparr>)"
| source: "replay_run programs evs s \<Longrightarrow> sn_helperRegs d = Some f \<Longrightarrow> sn_replay d = Some p \<Longrightarrow> StartFile f p \<in> set evs \<Longrightarrow>
    sn_lane d < 128 \<Longrightarrow> (\<forall>w. SourceValue f (sn_lane d) w \<notin> set evs) \<Longrightarrow>
    HT_enqueueReplayLane programs d v (cs_thread s) (cs_files s) = (b, n, t', fs') \<Longrightarrow>
    replay_run programs (SourceValue f (sn_lane d) v # evs) (s\<lparr>cs_thread := t', cs_files := fs'\<rparr>)"
| load: "replay_run programs evs s \<Longrightarrow> sn_helperRegs d = Some f \<Longrightarrow>
    HT_resumeDependentLane programs d pc v (cs_thread s) (cs_files s) = (b, n, t', fs') \<Longrightarrow>
    replay_run programs (LoadValue f (sn_lane d) pc v # evs) (s\<lparr>cs_thread := t', cs_files := fs'\<rparr>)"
| attempt: "replay_run programs evs s \<Longrightarrow> en_programs e = programs \<Longrightarrow> regular_attempt e s \<Longrightarrow>
    issueDVRReplayLanes e slots s = Some (n, s') \<Longrightarrow> replay_run programs (Attempt e slots # evs) s'"
| retire: "replay_run programs evs s \<Longrightarrow> HT_retireCompletedVIR now (cs_thread s) (cs_files s) = (n, t', fs') \<Longrightarrow>
    replay_run programs (RetireCopies now # evs) (s\<lparr>cs_thread := t', cs_files := fs'\<rparr>)"
| restart: "replay_run programs evs s \<Longrightarrow>
    replay_run programs (Restart # evs) (s\<lparr>cs_thread := HT_begin i pc uops units budget res model rep tid (cs_thread s)\<rparr>)"
| elsewhere: "replay_run programs evs s \<Longrightarrow> ht_replayLanes (cs_thread s') = ht_replayLanes (cs_thread s) \<Longrightarrow>
    ht_reconvergence (cs_thread s') = ht_reconvergence (cs_thread s) \<Longrightarrow> ht_virBuffer (cs_thread s') = ht_virBuffer (cs_thread s) \<Longrightarrow>
    hf_files (cs_files s') = hf_files (cs_files s) \<Longrightarrow> (hf_bank (cs_files s') = None) = (hf_bank (cs_files s) = None) \<Longrightarrow>
    (\<forall>b b'. hf_bank (cs_files s) = Some b \<longrightarrow> hf_bank (cs_files s') = Some b' \<longrightarrow> bank_classes b' \<and>
      (\<forall>r. count (files_names (started evs) (cs_files s')) r \<le> 1) \<and>
      (\<forall>r. r \<in># files_held (started evs) (cs_files s) \<longrightarrow> rb_values b' r = rb_values b r)) \<Longrightarrow>
    replay_run programs (Elsewhere # evs) s'"

text \<open>Where the scalar runs of a lane can be.\<close>

definition lane_start :: "replay_template \<Rightarrow> reg_val \<Rightarrow> position \<times> (nat \<Rightarrow> reg_val)" where
  "lane_start prog v = (At (up_pc (rt_uops prog 1)), set_reg (rt_triggerDestination prog) v (rt_initialRegs prog))"

definition file_program :: "replay_event list \<Rightarrow> nat \<Rightarrow> nat" where
  "file_program evs f = (case List.find (\<lambda>ev. case ev of StartFile g p \<Rightarrow> g = f | _ \<Rightarrow> False) evs of Some (StartFile g p) \<Rightarrow> p | _ \<Rightarrow> 0)"

definition scalar_reach :: "programs \<Rightarrow> replay_event list \<Rightarrow> nat \<times> nat \<Rightarrow> position \<times> (nat \<Rightarrow> reg_val) \<Rightarrow> bool" where
  "scalar_reach programs evs k st \<longleftrightarrow> (\<exists>v. SourceValue (fst k) (snd k) v \<in> set evs \<and>
     (scalar_step (programs (file_program evs (fst k))) (lane_loads evs k))\<^sup>*\<^sup>* (lane_start (programs (file_program evs (fst k))) v) st)"

section \<open>Files\<close>

lemma files_retire:
  assumes "files_ok L fs A" "f \<in> L"
  shows "files_ok L (HF_update f (fold HR_releasePhysical ps) fs) A"
proof -
  have "hr_op\<^sup>*\<^sup>* (h, B) (fold HR_releasePhysical ps h, B)" for h B
  proof (induction ps arbitrary: h)
    case (Cons p ps)
    have "hr_op (h, B) (HR_releasePhysical p h, B)" by (rule hr_op.release)
    then show ?case using Cons [of "HR_releasePhysical p h"] by (simp add: converse_rtranclp_into_rtranclp)
  qed simp
  then show ?thesis using files_ops [OF assms, of "fold HR_releasePhysical ps" "A f"] by simp
qed

lemma release_sources_ok:
  assumes "files_ok L fs A" "du_helperRegs d \<in> L"
  shows "files_ok L (release_sources d fs) A"
proof -
  have "release_sources d fs = HF_update (du_helperRegs d) (fold HR_releasePhysical (du_source0Physical d @ du_source1Physical d)) fs"
    by (simp add: release_sources_def comp_def)
  then show ?thesis using files_retire [OF assms] by (simp only:)
qed

lemma retire_loop_ok:
  assumes "retire_loop now ds copies fs = (n, ds', copies', fs')" "files_ok L fs A" "du_helperRegs ` set ds \<subseteq> L"
  shows "files_ok L fs' A \<and> set ds' \<subseteq> set ds"
  using assms
proof (induction now ds copies fs arbitrary: n ds' copies' fs' rule: retire_loop.induct)
  case (2 now d ds copies fs)
  show ?case
  proof (cases "du_state d = Issued \<and> du_completeCycle d \<le> now")
    case True
    obtain n1 ds1 c1 fs1 where r: "retire_loop now ds (copies(du_copy d := retire_copy d (copies (du_copy d)))) (release_sources d fs) = (n1, ds1, c1, fs1)"
      by (metis prod.exhaust)
    have "files_ok L fs1 A \<and> set ds1 \<subseteq> set ds"
      using 2(1) [OF True r release_sources_ok [OF 2(4)]] 2(5) by simp
    moreover have "ds' = ds1" "fs' = fs1" using 2(3) True r by auto
    ultimately show ?thesis by auto
  next
    case False
    obtain n1 ds1 c1 fs1 where r: "retire_loop now ds copies fs = (n1, ds1, c1, fs1)" by (metis prod.exhaust)
    have "files_ok L fs1 A \<and> set ds1 \<subseteq> set ds" using 2(2) [OF False r 2(4)] 2(5) by simp
    moreover have "ds' = d # ds1" "fs' = fs1" using 2(3) False r by auto
    ultimately show ?thesis by auto
  qed
qed simp

lemma files_elsewhere:
  assumes ok: "files_ok L fs A" and same: "hf_files fs' = hf_files fs" "(hf_bank fs' = None) = (hf_bank fs = None)"
    and b: "\<forall>b b'. hf_bank fs = Some b \<longrightarrow> hf_bank fs' = Some b' \<longrightarrow> bank_classes b' \<and> (\<forall>r. count (files_names L fs') r \<le> 1) \<and>
      (\<forall>r. r \<in># files_held L fs \<longrightarrow> rb_values b' r = rb_values b r)"
  shows "files_ok L fs' A"
proof (cases "hf_bank fs")
  case None
  then have "HF_get f fs' = HF_get f fs" "hf_bank fs' = None" "files_names L fs' = files_names L fs" for f
    using same by (simp_all add: HF_get_def files_names_def)
  then show ?thesis using ok None by (simp add: files_ok_def)
next
  case (Some b0)
  then obtain b1 where b1: "hf_bank fs' = Some b1" using same(2) by auto
  have fin: "finite L" using ok by (simp add: files_ok_def)
  have g: "HF_get f fs' = (HF_get f fs)\<lparr>hr_bank := Some b1\<rparr>" for f using same(1) b1 by (simp add: HF_get_def)
  have un: "count (files_names L fs') r \<le> 1" for r using b Some b1 by blast
  have "hr_inv (HF_get f fs', A f)" if f: "f \<in> L" for f
  proof -
    have sub: "held (HF_get f fs) \<subseteq># files_held L fs" using f fin by (simp add: files_held_def sum.remove)
    have "count (all_names (HF_get f fs')) r \<le> count (files_names L fs') r" for r
      using files_split [OF fin f b1] by simp
    then have "names_unique (HF_get f fs')" using un unfolding names_unique_def by (meson le_trans)
    moreover have "rb_values b1 r = rb_values b0 r" if "r \<in># held (HF_get f fs)" for r
      using b Some b1 mset_subset_eqD [OF sub that] by blast
    ultimately have "hr_step (HF_get f fs, A f) (HF_get f fs', A f)"
      using hr_step.other_users [of "HF_get f fs" b0 b1 "A f"] Some b b1 unfolding g by simp
    then show ?thesis using hr_step_inv ok f by (auto simp: files_ok_def)
  qed
  moreover have "bank_classes b" if "hf_bank fs' = Some b" for b using assms(4) Some b1 that by simp
  ultimately show ?thesis using un fin by (simp add: files_ok_def)
qed

lemma new_file_ok:
  assumes ok: "files_ok L fs A" "f \<notin> L" and d: "0 \<le> rt_triggerDestination (programs p)" "rt_triggerDestination (programs p) < int HR_NumArchitecturalRegs"
  shows "files_ok (insert f L) (new_file programs f p fs) (A(f := \<lambda>a l. (rt_initialRegs (programs p) a, 0)))"
proof -
  let ?regs = "rt_initialRegs (programs p)" and ?a = "nat (rt_triggerDestination (programs p))"
  let ?h0 = "HR_new\<lparr>hr_bank := hf_bank fs\<rparr>"
  let ?h = "HR_initialize ?regs ?h0" and ?A = "A(f := \<lambda>a l. (?regs a, 0))"
  let ?fs = "HF_update f (\<lambda>_. ?h) fs"
  have s: "files_ok (insert f L) ?fs ?A" by (rule files_start [OF ok])
  have g: "HF_get f ?fs = ?h" by (simp add: HF_get_update)
  have a: "?a < HR_NumArchitecturalRegs" using d by linarith
  have "0 \<le> HR_scalarMapping ?a ?h"
    using hr_initialize_ok(3) [OF new_phys_ok [OF ok(1)] a, of ?regs] a by (simp add: HR_scalarMapping_def init_mapping_def no_mapping_def)
  then have "hr_op (HF_get f ?fs, ?A f) (snd (HR_vectorize ?a ?h), ?A f)" unfolding g by (rule hr_op.vectorize [OF a])
  then have "files_ok (insert f L) (HF_update f (\<lambda>_. snd (HR_vectorize ?a ?h)) ?fs) (?A(f := ?A f))"
    by (intro files_ops [OF s]) auto
  then show ?thesis by (simp add: new_file_def HF_update_twice comp_def)
qed

section \<open>The invariant\<close>

definition keys_used :: "replay_event list \<Rightarrow> (nat \<times> nat) set" where
  "keys_used evs = {(f, n). \<exists>v. SourceValue f n v \<in> set evs}"

text \<open>
  A lane that has not started yet still has the registers of the snapshot.
\<close>

definition replay_inv :: "programs \<Rightarrow> replay_event list \<Rightarrow> lane_files \<Rightarrow> replay_cpu \<Rightarrow> bool" where
  "replay_inv programs evs A s \<longleftrightarrow>
     cpu_ok (\<lambda>k. file_program evs (fst k)) (scalar_reach programs evs) (started evs) A s \<and>
     lane_key ` set (lanes_of s) \<subseteq> keys_used evs \<and> frames_in (keys_used evs) (stacks (cs_thread s)) \<and>
     fst ` keys_used evs \<subseteq> started evs \<and>
     (\<forall>f p. StartFile f p \<in> set evs \<longrightarrow> file_program evs f = p) \<and>
     (\<forall>f \<in> started evs. \<forall>n < 128. (f, n) \<notin> keys_used evs \<longrightarrow> reg_view A (f, n) = rt_initialRegs (programs (file_program evs f)))"

lemma event_simps [simp]:
  "started (SourceValue f n v # evs) = started evs" "started (LoadValue f n pc v # evs) = started evs"
  "started (Attempt e k # evs) = started evs" "started (RetireCopies now # evs) = started evs" "started (Restart # evs) = started evs"
  "started (Elsewhere # evs) = started evs" "started (StartFile f p # evs) = insert f (started evs)"
  "file_program (SourceValue f n v # evs) = file_program evs" "file_program (LoadValue f n pc v # evs) = file_program evs"
  "file_program (Attempt e k # evs) = file_program evs" "file_program (RetireCopies now # evs) = file_program evs"
  "file_program (Restart # evs) = file_program evs" "file_program (Elsewhere # evs) = file_program evs"
  "file_program (StartFile f p # evs) = (file_program evs)(f := p)"
  "keys_used (SourceValue f n v # evs) = insert (f, n) (keys_used evs)" "keys_used (LoadValue f n pc v # evs) = keys_used evs"
  "keys_used (Attempt e k # evs) = keys_used evs" "keys_used (RetireCopies now # evs) = keys_used evs" "keys_used (Restart # evs) = keys_used evs"
  "keys_used (Elsewhere # evs) = keys_used evs" "keys_used (StartFile f p # evs) = keys_used evs"
  by (auto simp: started_def file_program_def keys_used_def fun_eq_iff)

lemma reach_closed: "run_closed programs (\<lambda>k. file_program evs (fst k)) (lane_loads evs) (scalar_reach programs evs)"
  unfolding run_closed_def scalar_reach_def by (meson rtranclp.rtrancl_into_rtrancl)

lemma reach_mono:
  assumes "scalar_reach programs evs k st" "file_program (ev # evs) (fst k) = file_program evs (fst k)"
  shows "scalar_reach programs (ev # evs) k st"
proof -
  have "lane_loads evs k \<subseteq> lane_loads (ev # evs) k" by (auto simp: lane_loads_def)
  then show ?thesis using assms scalar_steps_mono unfolding scalar_reach_def by (metis list.set_intros(2))
qed

lemma lanes_ok_weaken:
  assumes "lanes_ok P Q st ls" "\<And>l. l \<in> set ls \<Longrightarrow> P' (lane_key l) = P (lane_key l)"
    "\<And>l pos. l \<in> set ls \<Longrightarrow> Q (lane_key l) pos \<Longrightarrow> Q' (lane_key l) pos"
  shows "lanes_ok P' Q' st ls"
  using assms by (simp add: lanes_ok_def)

text \<open>An event that changes neither lanes nor frames.\<close>

lemma cpu_ok_weaken:
  assumes ok: "cpu_ok P W L A s" and t: "ht_replayLanes (cs_thread s') = lanes_of s" "stacks (cs_thread s') = stacks (cs_thread s)"
      "set (map du_helperRegs (ht_virBuffer (cs_thread s'))) \<subseteq> set (map du_helperRegs (ht_virBuffer (cs_thread s)))"
    and fl: "files_ok L' (cs_files s') A'" "L \<subseteq> L'"
    and k: "\<And>k. fst k \<in> L \<Longrightarrow> P' k = P k \<and> reg_view A' k = reg_view A k \<and> (\<forall>st. W k st \<longrightarrow> W' k st)"
  shows "cpu_ok P' W' L' A' s'"
proof -
  have lo: "lanes_ok P (lane_at L A W) (stacks (cs_thread s)) (lanes_of s)" and hl: "set (map rl_helperRegs (lanes_of s)) \<subseteq> L"
    using ok by (auto simp: cpu_ok_def)
  have m: "fst (lane_key l) \<in> L" if "l \<in> set (lanes_of s)" for l using hl that by (auto simp: lane_key_def)
  have "lanes_ok P' (lane_at L' A' W') (stacks (cs_thread s)) (lanes_of s)"
    by (rule lanes_ok_weaken [OF lo]) (use k [OF m] fl(2) in \<open>auto simp: lane_at_def\<close>)
  moreover have "set (map du_helperRegs (ht_virBuffer (cs_thread s'))) \<subseteq> L'" using t(3) ok fl(2) unfolding cpu_ok_def by blast
  moreover have "set (map rl_helperRegs (lanes_of s)) \<subseteq> L'" using hl fl(2) by blast
  ultimately show ?thesis using fl(1) t unfolding cpu_ok_def by (simp add: lanes_of_def)
qed

lemma quiet_event:
  assumes I: "replay_inv programs evs A s" and t: "ht_replayLanes (cs_thread s') = lanes_of s" "stacks (cs_thread s') = stacks (cs_thread s)"
      "set (map du_helperRegs (ht_virBuffer (cs_thread s'))) \<subseteq> set (map du_helperRegs (ht_virBuffer (cs_thread s)))"
    and fl: "files_ok (started evs) (cs_files s') A"
    and ev: "started (ev # evs) = started evs" "file_program (ev # evs) = file_program evs" "keys_used (ev # evs) = keys_used evs"
      "\<And>f p. ev \<noteq> StartFile f p"
  shows "replay_inv programs (ev # evs) A s'"
proof -
  have "cpu_ok (\<lambda>k. file_program (ev # evs) (fst k)) (scalar_reach programs (ev # evs)) (started (ev # evs)) A s'"
    unfolding ev by (rule cpu_ok_weaken [OF _ t fl order_refl]) (use I reach_mono ev(2) in \<open>auto simp: replay_inv_def\<close>)
  moreover have "StartFile f p \<in> set (ev # evs) \<longleftrightarrow> StartFile f p \<in> set evs" for f p using ev(4) [of f p] by auto
  ultimately show ?thesis using I t ev(1-3) unfolding replay_inv_def by (simp add: lanes_of_def)
qed

lemma start_event:
  assumes I: "replay_inv programs evs A s" and f: "f \<notin> started evs" and d: "0 \<le> rt_triggerDestination (programs p)"
    "rt_triggerDestination (programs p) < int HR_NumArchitecturalRegs"
  shows "replay_inv programs (StartFile f p # evs) (A(f := \<lambda>a l. (rt_initialRegs (programs p) a, 0)))
    (s\<lparr>cs_files := new_file programs f p (cs_files s)\<rparr>)" (is "replay_inv _ ?evs ?A ?s")
proof -
  have ok: "cpu_ok (\<lambda>k. file_program evs (fst k)) (scalar_reach programs evs) (started evs) A s" using I by (simp add: replay_inv_def)
  have "files_ok (started evs) (cs_files s) A" using ok by (simp add: cpu_ok_def)
  then have fl: "files_ok (insert f (started evs)) (new_file programs f p (cs_files s)) ?A"
    using new_file_ok [where programs = programs and p = p] f d by blast
  have "cpu_ok (\<lambda>k. file_program ?evs (fst k)) (scalar_reach programs ?evs) (started ?evs) ?A ?s"
  proof (rule cpu_ok_weaken [OF ok])
    fix k :: "nat \<times> nat"
    assume "fst k \<in> started evs"
    then have "fst k \<noteq> f" using f by auto
    then show "file_program ?evs (fst k) = file_program evs (fst k) \<and> reg_view ?A k = reg_view A k \<and>
        (\<forall>st. scalar_reach programs evs k st \<longrightarrow> scalar_reach programs ?evs k st)"
      using reach_mono by (auto simp: reg_view_def fun_eq_iff)
  qed (use fl in \<open>auto simp: lanes_of_def\<close>)
  moreover have "file_program ?evs g = q" if "StartFile g q \<in> set ?evs" for g q
    using that I f by (auto simp: replay_inv_def started_def)
  moreover have "reg_view ?A (g, n) = rt_initialRegs (programs (file_program ?evs g))"
    if "g \<in> started ?evs" "n < 128" "(g, n) \<notin> keys_used ?evs" for g n
  proof (cases "g = f")
    case True
    then show ?thesis by (simp add: reg_view_def fun_eq_iff)
  next
    case False
    then show ?thesis using that I by (simp add: replay_inv_def reg_view_def fun_eq_iff)
  qed
  ultimately show ?thesis using I by (auto simp: replay_inv_def lanes_of_def)
qed

text \<open>A lane joins with its source value.\<close>

lemma enqueue_cases:
  assumes "HT_enqueueReplayLane programs d v t fs = (b, n, t', fs')" "sn_helperRegs d = Some f" "sn_replay d = Some p"
  obtains (refused) "t' = t" "fs' = fs"
  | (taken) l where "1 < rt_count (programs p)" "ht_replayLanes t' = ht_replayLanes t @ [l]" "stacks t' = stacks t" "ht_virBuffer t' = ht_virBuffer t"
      "rl_program l = p" "rl_helperRegs l = f" "rl_lane l = sn_lane d" "rl_active l" "rl_lanePC l = up_pc (rt_uops (programs p) 1)"
      "0 \<le> rt_triggerDestination (programs p)" "rt_triggerDestination (programs p) < int HR_NumArchitecturalRegs"
      "fs' = HF_update f (HR_write (nat (rt_triggerDestination (programs p))) (sn_lane d) v 0) fs"
proof (cases "rt_count (programs p) \<le> 1 \<or> rt_triggerDestination (programs p) < 0 \<or> rt_triggerDestination (programs p) \<ge> int HR_NumArchitecturalRegs")
  case True
  then have "t' = t" "fs' = fs" using assms by (auto simp: HT_enqueueReplayLane_def Let_def)
  then show thesis by (rule refused)
next
  case False
  let ?l = "new_lane (programs p) p f d v"
  have t': "t' = snd (wake_uop (add_lane ?l t))" and fs': "fs' = HF_update f (HR_write (nat (rt_triggerDestination (programs p))) (sn_lane d) v 0) fs"
    using assms False by (auto simp: HT_enqueueReplayLane_def Let_def split: prod.splits)
  have w: "ht_replayLanes (snd (wake_uop t)) = ht_replayLanes t" "stacks (snd (wake_uop t)) = stacks t" "ht_virBuffer (snd (wake_uop t)) = ht_virBuffer t" for t
    by (simp_all add: wake_uop_def stacks_def reconvergence_of_def fun_eq_iff)
  have "rr_stack (join_group pc m r) = rr_stack r" for pc m r by (simp add: join_group_def Let_def)
  then have "stacks (add_lane ?l t) = stacks t" by (auto simp: add_lane_def stacks_def reconvergence_of_def Let_def split: option.split)
  moreover have "ht_replayLanes (add_lane ?l t) = ht_replayLanes t @ [?l]" "ht_virBuffer (add_lane ?l t) = ht_virBuffer t" by (simp_all add: add_lane_def Let_def)
  ultimately show thesis using False t' fs' w by (intro taken [of ?l]) (simp_all add: new_lane_def)
qed

lemma lanes_ok_snoc:
  assumes "lanes_ok P Q st ls" "lane_key l \<notin> lane_key ` set ls" "rl_lane l < 128" "rl_program l = P (lane_key l)"
    "placed (st (rl_helperRegs l)) l" "Q (lane_key l) (lane_pos (st (rl_helperRegs l)) l)"
  shows "lanes_ok P Q st (ls @ [l])"
  using assms by (auto simp: lanes_ok_def keys_ok_def)

lemma frames_in_mono: "frames_in K st \<Longrightarrow> K \<subseteq> K' \<Longrightarrow> frames_in K' st"
  unfolding frames_in_def by blast

lemma source_refused:
  assumes I: "replay_inv programs evs A s" and f: "f \<in> started evs"
  shows "replay_inv programs (SourceValue f n v # evs) A s" (is "replay_inv _ ?evs _ _")
proof -
  have "cpu_ok (\<lambda>k. file_program ?evs (fst k)) (scalar_reach programs ?evs) (started ?evs) A s"
    unfolding event_simps by (rule cpu_ok_weaken) (use I reach_mono in \<open>auto simp: replay_inv_def cpu_ok_def lanes_of_def\<close>)
  then show ?thesis using I f by (auto simp: replay_inv_def intro: frames_in_mono)
qed

lemma source_event:
  assumes I: "replay_inv programs evs A s" and d: "sn_helperRegs d = Some f" "sn_replay d = Some p" "StartFile f p \<in> set evs"
    and n: "sn_lane d < 128" "(f, sn_lane d) \<notin> keys_used evs" and wf: "wf_program (programs p)"
    and e: "HT_enqueueReplayLane programs d v (cs_thread s) (cs_files s) = (b, m, t', fs')"
  shows "\<exists>A'. replay_inv programs (SourceValue f (sn_lane d) v # evs) A' (s\<lparr>cs_thread := t', cs_files := fs'\<rparr>)"
    (is "\<exists>A'. replay_inv _ ?evs A' ?s")
proof -
  have f: "f \<in> started evs" "file_program evs f = p" using d(3) I by (auto simp: started_def replay_inv_def)
  let ?k = "(f, sn_lane d)"
  from e d(1,2) show ?thesis
  proof (cases rule: enqueue_cases)
    case refused
    then have "?s = s" by simp
    then show ?thesis using source_refused [OF I f(1)] by auto
  next
    case (taken l)
    have ok: "cpu_ok (\<lambda>k. file_program evs (fst k)) (scalar_reach programs evs) (started evs) A s" using I by (simp add: replay_inv_def)
    then have fl: "files_ok (started evs) (cs_files s) A" and lo: "lanes_ok (\<lambda>k. file_program evs (fst k)) (lane_at (started evs) A (scalar_reach programs evs)) (stacks (cs_thread s)) (lanes_of s)"
      by (auto simp: cpu_ok_def)
    obtain A' where A': "files_ok (started evs) fs' A'" "reg_view A' ?k = set_reg (rt_triggerDestination (programs p)) v (reg_view A ?k)"
        "\<And>k. k \<noteq> ?k \<Longrightarrow> reg_view A' k = reg_view A k"
      using files_write [OF fl f(1) taken(10,11) n(1), of v 0] taken(12) by blast
    have kl: "lane_key l = ?k" using taken by (simp add: lane_key_def)
    have new: "?k \<notin> lane_key ` set (lanes_of s)" using I n(2) by (auto simp: replay_inv_def)
    have nf: "\<not> in_frame (stacks (cs_thread s) f) (sn_lane d)" using I n by (auto simp: replay_inv_def frames_in_def)
    have pc: "rl_lanePC l \<noteq> 0" using wf taken(1,9) by (simp add: wf_program_def)
    have "reg_view A ?k = rt_initialRegs (programs p)" using I f n by (auto simp: replay_inv_def)
    then have reach: "scalar_reach programs ?evs ?k (At (rl_lanePC l), reg_view A' ?k)"
      using f(2) taken(9) A'(2) by (auto simp: scalar_reach_def lane_start_def)
    have "lanes_ok (\<lambda>k. file_program ?evs (fst k)) (lane_at (started ?evs) A' (scalar_reach programs ?evs)) (stacks (cs_thread s)) (lanes_of s @ [l])"
    proof (rule lanes_ok_snoc)
      show "lanes_ok (\<lambda>k. file_program ?evs (fst k)) (lane_at (started ?evs) A' (scalar_reach programs ?evs)) (stacks (cs_thread s)) (lanes_of s)"
      proof (rule lanes_ok_weaken [OF lo])
        fix l0 pos
        assume l0: "l0 \<in> set (lanes_of s)" "lane_at (started evs) A (scalar_reach programs evs) (lane_key l0) pos"
        have "reg_view A' (lane_key l0) = reg_view A (lane_key l0)" by (rule A'(3)) (use imageI [OF l0(1), of lane_key] new in metis)
        then show "lane_at (started ?evs) A' (scalar_reach programs ?evs) (lane_key l0) pos"
          using l0(2) reach_mono [of programs evs "lane_key l0" "(pos, reg_view A (lane_key l0))" "SourceValue f (sn_lane d) v"] by (simp add: lane_at_def)
      qed simp
      show "placed (stacks (cs_thread s) (rl_helperRegs l)) l" using nf taken by (simp add: placed_def)
      have "lane_pos (stacks (cs_thread s) (rl_helperRegs l)) l = At (rl_lanePC l)"
        using nf taken pc lane_pos_free [of "stacks (cs_thread s) f" l] by simp
      then show "lane_at (started ?evs) A' (scalar_reach programs ?evs) (lane_key l) (lane_pos (stacks (cs_thread s) (rl_helperRegs l)) l)"
        using reach kl f(1) n(1) by (simp add: lane_at_def)
    qed (use kl new taken n(1) f(2) in auto)
    then have "cpu_ok (\<lambda>k. file_program ?evs (fst k)) (scalar_reach programs ?evs) (started ?evs) A' ?s"
      using A'(1) ok taken f(1) by (simp add: cpu_ok_def lanes_of_def)
    moreover have "lane_key ` set (lanes_of ?s) \<subseteq> keys_used ?evs" using I taken kl by (auto simp: replay_inv_def lanes_of_def)
    moreover have "frames_in (keys_used ?evs) (stacks (cs_thread ?s))" using I taken(3) by (auto simp: replay_inv_def intro: frames_in_mono)
    moreover have "reg_view A' (g, m) = rt_initialRegs (programs (file_program ?evs g))" if "g \<in> started ?evs" "m < 128" "(g, m) \<notin> keys_used ?evs" for g m
      using that I A'(3) by (auto simp: replay_inv_def)
    ultimately show ?thesis using I f by (intro exI [of _ A']) (auto simp: replay_inv_def)
  qed
qed

text \<open>A load answers.\<close>

lemma update_first_nth:
  assumes "List.find P xs = Some x"
  obtains i where "i < length xs" "xs ! i = x" "P x" "update_first P g xs = xs[i := g x]"
  using assms
proof (induction xs arbitrary: thesis)
  case (Cons y ys)
  show ?case
  proof (cases "P y")
    case True
    then show ?thesis using Cons.prems(1) [of 0] Cons.prems(2) by simp
  next
    case False
    then obtain i where "i < length ys" "ys ! i = x" "P x" "update_first P g ys = ys[i := g x]" using Cons.IH Cons.prems(2) by auto
    then show ?thesis using Cons.prems(1) [of "Suc i"] False by simp
  qed
qed simp

lemma resume_cases:
  assumes "HT_resumeDependentLane programs d pc v t fs = (b, n, t', fs')" "sn_helperRegs d = Some f"
  obtains (unknown) "t' = t" "fs' = fs"
  | (parked) p i where "i < length (ht_replayLanes t)" "parked_at programs p f (sn_lane d) pc (ht_replayLanes t ! i)"
      "ht_replayLanes t' = (ht_replayLanes t)[i := resume_lane (programs p) v (ht_replayLanes t ! i)]" "stacks t' = stacks t"
      "ht_virBuffer t' = ht_virBuffer t"
      "fs' = (let dest = up_destination (rt_uops (programs p) (rl_uopIndex (ht_replayLanes t ! i))) in
         if 0 \<le> dest \<and> dest < int HR_NumArchitecturalRegs then HF_update f (HR_write (nat dest) (sn_lane d) v 0) fs else fs)"
proof (cases "sn_replay d")
  case None
  then show thesis using assms unknown by (simp add: HT_resumeDependentLane_def)
next
  case (Some p)
  let ?P = "parked_at programs p f (sn_lane d) pc"
  show thesis
  proof (cases "pc = 0 \<or> List.find ?P (ht_replayLanes t) = None")
    case True
    then show thesis using assms Some unknown by (cases "pc = 0") (simp_all add: HT_resumeDependentLane_def)
  next
    case False
    then obtain l where l: "List.find ?P (ht_replayLanes t) = Some l" by blast
    obtain i where i: "i < length (ht_replayLanes t)" "ht_replayLanes t ! i = l" "?P l"
        "update_first ?P (resume_lane (programs p) v) (ht_replayLanes t) = (ht_replayLanes t)[i := resume_lane (programs p) v l]"
      by (rule update_first_nth [OF l])
    have w: "ht_replayLanes (snd (wake_uop t)) = ht_replayLanes t" "stacks (snd (wake_uop t)) = stacks t" "ht_virBuffer (snd (wake_uop t)) = ht_virBuffer t" for t
      by (simp_all add: wake_uop_def stacks_def reconvergence_of_def fun_eq_iff)
    have n: "rl_lane l = sn_lane d" using i(3) by (simp add: parked_at_def)
    have "t' = snd (wake_uop (t\<lparr>ht_replayLanes := (ht_replayLanes t)[i := resume_lane (programs p) v l]\<rparr>))"
      "fs' = (let dest = up_destination (rt_uops (programs p) (rl_uopIndex l)) in
         if 0 \<le> dest \<and> dest < int HR_NumArchitecturalRegs then HF_update f (HR_write (nat dest) (sn_lane d) v 0) fs else fs)"
      using assms Some False l i(4) n by (auto simp: HT_resumeDependentLane_def Let_def split: prod.splits)
    then show thesis using parked [OF i(1), of p] i(2,3) w by simp
  qed
qed

lemma resume_lane_facts:
  "same_lane l (resume_lane prog v l)"
  "rl_active (resume_lane prog v l) \<Longrightarrow> rl_active l \<and> rl_lanePC (resume_lane prog v l) = next_in_program prog (rl_uopIndex l) \<and> rl_lanePC (resume_lane prog v l) \<noteq> 0"
  by (auto simp: resume_lane_def same_lane_def next_in_program_def Let_def split: if_splits)

lemma load_event:
  assumes I: "replay_inv programs evs A s" and d: "sn_helperRegs d = Some f"
    and e: "HT_resumeDependentLane programs d pc v (cs_thread s) (cs_files s) = (b, n, t', fs')"
  shows "\<exists>A'. replay_inv programs (LoadValue f (sn_lane d) pc v # evs) A' (s\<lparr>cs_thread := t', cs_files := fs'\<rparr>)"
    (is "\<exists>A'. replay_inv _ ?evs A' ?s")
proof -
  have ok: "cpu_ok (\<lambda>k. file_program evs (fst k)) (scalar_reach programs evs) (started evs) A s" using I by (simp add: replay_inv_def)
  then have fl: "files_ok (started evs) (cs_files s) A"
    and lo: "lanes_ok (\<lambda>k. file_program evs (fst k)) (lane_at (started evs) A (scalar_reach programs evs)) (stacks (cs_thread s)) (lanes_of s)"
    and hl: "set (map rl_helperRegs (lanes_of s)) \<subseteq> started evs" by (auto simp: cpu_ok_def)
  from e d show ?thesis
  proof (cases rule: resume_cases)
    case unknown
    then show ?thesis using fl by (intro exI [of _ A] quiet_event [OF I]) (auto simp: lanes_of_def)
  next
    case (parked p i)
    let ?ls = "lanes_of s" and ?st = "stacks (cs_thread s)"
    let ?l = "?ls ! i" and ?k = "(f, sn_lane d)"
    let ?l' = "resume_lane (programs p) v ?l" and ?dest = "up_destination (rt_uops (programs p) (rl_uopIndex (?ls ! i)))"
    have i: "i < length ?ls" using parked(1) by (simp add: lanes_of_def)
    have l: "rl_active ?l" "rl_helperRegs ?l = f" "rl_program ?l = p" "rl_lane ?l = sn_lane d" "rl_lanePC ?l = 0"
        "rl_uopIndex ?l < rt_count (programs p)" "up_pc (rt_uops (programs p) (rl_uopIndex ?l)) = pc"
      using parked(2) by (auto simp: parked_at_def lanes_of_def)
    have kl: "lane_key ?l = ?k" using l by (simp add: lane_key_def)
    have f: "f \<in> started evs" using hl i l(2) by (metis imageI list.set_map nth_mem subsetD)
    have n: "sn_lane d < 128" using lanes_okD(1) [OF lo] nth_mem [OF i] unfolding keys_ok_def l(4) [symmetric] by blast
    have fp: "file_program evs f = p" using lanes_okD(3) [OF lo, of ?l] i l(3) kl by simp
    have nf: "\<not> in_frame (?st f) (sn_lane d)" using lanes_okD(4) [OF lo, of ?l] i l by (auto simp: placed_def)
    have at: "scalar_reach programs evs ?k (Parked (rl_uopIndex ?l), reg_view A ?k)"
      using lanes_okD(5) [OF lo, of ?l] i l(1,2,4,5) kl nf lane_pos_free [of "?st f" ?l] by (simp add: lane_at_def)
    obtain A' where A': "files_ok (started evs) fs' A'" "reg_view A' ?k = set_reg ?dest v (reg_view A ?k)"
        "\<And>k. k \<noteq> ?k \<Longrightarrow> reg_view A' k = reg_view A k"
    proof (cases "0 \<le> ?dest \<and> ?dest < int HR_NumArchitecturalRegs")
      case True
      then show thesis using that files_write [OF fl f, of ?dest "sn_lane d" v 0] n parked(6) by (auto simp: Let_def lanes_of_def)
    next
      case False
      then have "fs' = cs_files s" using parked(6) by (auto simp: Let_def lanes_of_def)
      then show thesis using that [of A] fl False by (auto simp: set_reg_def)
    qed
    have "scalar_reach programs ?evs ?k (Parked (rl_uopIndex ?l), reg_view A ?k)" by (rule reach_mono [OF at]) simp
    then have go: "scalar_reach programs ?evs ?k (At (next_in_program (programs p) (rl_uopIndex ?l)), reg_view A' ?k)"
    proof (rule run_closedD [OF reach_closed, rotated])
      show "scalar_step (programs (file_program ?evs (fst ?k))) (lane_loads ?evs ?k) (Parked (rl_uopIndex ?l), reg_view A ?k)
          (At (next_in_program (programs p) (rl_uopIndex ?l)), reg_view A' ?k)"
        using scalar_step.response [OF l(6), of v "lane_loads ?evs ?k"] l(7) fp A'(2) by (simp add: lane_loads_def)
    qed
    have same: "same_lanes ?ls (?ls[i := ?l'])" by (rule same_lanes_update [OF i resume_lane_facts(1)])
    have lw: "lanes_ok (\<lambda>k. file_program ?evs (fst k)) (lane_at (started evs) A (scalar_reach programs evs)) ?st ?ls" using lo by simp
    have "lanes_ok (\<lambda>k. file_program ?evs (fst k)) (lane_at (started ?evs) A' (scalar_reach programs ?evs)) ?st (?ls[i := ?l'])"
    proof (rule lanes_ok_change [OF lw same lanes_okD(2) [OF lw]])
      fix j
      assume j: "j < length ?ls" "rl_active (?ls[i := ?l'] ! j)"
      let ?lj = "?ls ! j"
      show "rl_active ?lj \<and> placed (?st (rl_helperRegs ?lj)) (?ls[i := ?l'] ! j) \<and>
          lane_at (started ?evs) A' (scalar_reach programs ?evs) (lane_key ?lj) (lane_pos (?st (rl_helperRegs ?lj)) (?ls[i := ?l'] ! j))"
      proof (cases "j = i")
        case True
        then have a: "rl_active ?l'" using j i by simp
        have n': "rl_lane ?l' = sn_lane d" using resume_lane_facts(1) [of ?l "programs p" v] l(4) by (simp add: same_lane_def)
        have "lane_pos (?st f) ?l' = lane_pos [] ?l'" using lane_pos_free nf n' by metis
        moreover have "lane_pos [] ?l' = (if rl_lanePC ?l' = 0 then Parked (rl_uopIndex ?l') else At (rl_lanePC ?l'))" by simp
        ultimately have "lane_pos (?st f) ?l' = At (next_in_program (programs p) (rl_uopIndex ?l))"
          using resume_lane_facts(2) [OF a] by presburger
        then show ?thesis using True i l go kl f n nf n' by (simp add: lane_at_def placed_def)
      next
        case False
        then have ne: "lane_key ?lj \<noteq> ?k" using keys_inj [OF lanes_okD(1) [OF lo] j(1) i] kl by (auto simp: lane_key_def)
        have lj: "rl_active ?lj" using j False by simp
        have "lane_at (started evs) A (scalar_reach programs evs) (lane_key ?lj) (lane_pos (?st (rl_helperRegs ?lj)) ?lj)"
          using lanes_okD(5) [OF lo] j(1) lj by simp
        then have "lane_at (started ?evs) A' (scalar_reach programs ?evs) (lane_key ?lj) (lane_pos (?st (rl_helperRegs ?lj)) ?lj)"
          using A'(3) [OF ne] reach_mono [where ev = "LoadValue f (sn_lane d) pc v"] unfolding lane_at_def by simp
        then show ?thesis using lanes_okD(4) [OF lo, of ?lj] j(1) lj False by simp
      qed
    qed
    then have "cpu_ok (\<lambda>k. file_program ?evs (fst k)) (scalar_reach programs ?evs) (started ?evs) A' ?s"
      using A'(1) ok parked(3-5) lanes_files [OF same] by (simp add: cpu_ok_def lanes_of_def)
    moreover have "lane_key ` set (lanes_of ?s) \<subseteq> keys_used ?evs"
      using I same_lanes_keys [OF same] parked(3) by (simp add: replay_inv_def lanes_of_def) (metis set_map)
    moreover have "reg_view A' (g, m) = rt_initialRegs (programs (file_program ?evs g))" if "g \<in> started ?evs" "m < 128" "(g, m) \<notin> keys_used ?evs" for g m
    proof -
      have "?k \<in> keys_used evs" using I i kl by (metis (no_types, lifting) image_subset_iff nth_mem replay_inv_def)
      then have "(g, m) \<noteq> ?k" using that by auto
      then show ?thesis using that I A'(3) by (auto simp: replay_inv_def)
    qed
    ultimately show ?thesis using I parked(4) by (intro exI [of _ A']) (auto simp: replay_inv_def)
  qed
qed

section \<open>The other events and the invariant of a run\<close>

lemma empty_run:
  assumes "lanes_of s = []" "ht_reconvergence (cs_thread s) = (\<lambda>f. None)" "ht_virBuffer (cs_thread s) = []"
    and b: "\<forall>b. hf_bank (cs_files s) = Some b \<longrightarrow> bank_classes b \<and> (\<forall>r. count (free_names b) r \<le> 1)"
  shows "replay_inv programs [] A s"
proof -
  have "files_ok {} (cs_files s) A"
    using b by (cases "hf_bank (cs_files s)") (auto simp: files_ok_def files_names_def files_held_def)
  moreover have "stacks (cs_thread s) = (\<lambda>f. [])" using assms(2) by (simp add: stacks_def reconvergence_of_def new_reconvergence_def fun_eq_iff)
  ultimately show ?thesis using assms(1,3)
    by (simp add: replay_inv_def cpu_ok_def lanes_ok_def keys_ok_def keys_used_def started_def frames_in_def in_frame_def)
qed

lemma retire_event:
  assumes I: "replay_inv programs evs A s" and e: "HT_retireCompletedVIR now (cs_thread s) (cs_files s) = (n, t', fs')"
  shows "replay_inv programs (RetireCopies now # evs) A (s\<lparr>cs_thread := t', cs_files := fs'\<rparr>)"
proof -
  obtain ds' copies' where r: "retire_loop now (ht_virBuffer (cs_thread s)) (ht_virCopies (cs_thread s)) (cs_files s) = (n, ds', copies', fs')"
      and t': "t' = (cs_thread s)\<lparr>ht_virBuffer := ds', ht_virCopies := copies'\<rparr>"
    using e by (auto simp: HT_retireCompletedVIR_def split: prod.splits)
  have "files_ok (started evs) (cs_files s) A" "du_helperRegs ` set (ht_virBuffer (cs_thread s)) \<subseteq> started evs"
    using I by (auto simp: replay_inv_def cpu_ok_def)
  note ok = retire_loop_ok [OF r this]
  have "stacks t' = stacks (cs_thread s)" using t' by (simp add: stacks_def reconvergence_of_def fun_eq_iff)
  then show ?thesis using ok t' by (intro quiet_event [OF I]) (auto simp: lanes_of_def)
qed

lemma restart_event:
  assumes I: "replay_inv programs evs A s"
  shows "replay_inv programs (Restart # evs) A (s\<lparr>cs_thread := HT_begin i pc uops units budget res model rep tid (cs_thread s)\<rparr>)"
    (is "replay_inv _ _ _ ?s")
proof -
  have t: "lanes_of ?s = []" "ht_virBuffer (cs_thread ?s) = []" "stacks (cs_thread ?s) = (\<lambda>f. [])"
    by (simp_all add: HT_begin_def Let_def lanes_of_def stacks_def reconvergence_of_def new_reconvergence_def fun_eq_iff)
  then show ?thesis using I by (simp add: replay_inv_def cpu_ok_def lanes_ok_def keys_ok_def frames_in_def in_frame_def)
qed

lemma elsewhere_event:
  assumes I: "replay_inv programs evs A s" and t: "ht_replayLanes (cs_thread s') = ht_replayLanes (cs_thread s)"
      "ht_reconvergence (cs_thread s') = ht_reconvergence (cs_thread s)" "ht_virBuffer (cs_thread s') = ht_virBuffer (cs_thread s)"
    and fs: "hf_files (cs_files s') = hf_files (cs_files s)" "(hf_bank (cs_files s') = None) = (hf_bank (cs_files s) = None)"
      "\<forall>b b'. hf_bank (cs_files s) = Some b \<longrightarrow> hf_bank (cs_files s') = Some b' \<longrightarrow> bank_classes b' \<and>
        (\<forall>r. count (files_names (started evs) (cs_files s')) r \<le> 1) \<and>
        (\<forall>r. r \<in># files_held (started evs) (cs_files s) \<longrightarrow> rb_values b' r = rb_values b r)"
  shows "replay_inv programs (Elsewhere # evs) A s'"
proof -
  have "files_ok (started evs) (cs_files s) A" using I by (simp add: replay_inv_def cpu_ok_def)
  then have "files_ok (started evs) (cs_files s') A" by (rule files_elsewhere [OF _ fs])
  moreover have "stacks (cs_thread s') = stacks (cs_thread s)" using t(2) by (simp add: stacks_def reconvergence_of_def fun_eq_iff)
  ultimately show ?thesis using t by (intro quiet_event [OF I]) (auto simp: lanes_of_def)
qed

lemma attempt_event:
  assumes I: "replay_inv programs evs A s" and wf: "\<And>p. wf_program (programs p)" and p: "en_programs e = programs"
    and reg: "regular_attempt e s" and i: "issueDVRReplayLanes e slots s = Some (n, s')"
  shows "\<exists>A'. replay_inv programs (Attempt e slots # evs) A' s'" (is "\<exists>A'. replay_inv _ ?evs A' _")
proof -
  have ok: "cpu_ok (\<lambda>k. file_program ?evs (fst k)) (scalar_reach programs ?evs) (started ?evs) A s"
    unfolding event_simps by (rule cpu_ok_weaken) (use I reach_mono in \<open>auto simp: replay_inv_def cpu_ok_def lanes_of_def\<close>)
  have K: "frames_in (keys_used evs) (stacks (cs_thread s))" "lane_key ` set (lanes_of s) \<subseteq> keys_used evs"
    using I by (auto simp: replay_inv_def)
  have c: "run_closed (en_programs e) (\<lambda>k. file_program ?evs (fst k)) (lane_loads ?evs) (scalar_reach programs ?evs)"
    unfolding p by (rule reach_closed)
  obtain A' where A': "cpu_ok (\<lambda>k. file_program ?evs (fst k)) (scalar_reach programs ?evs) (started ?evs) A' s'"
      "only_lanes A A' (lanes_of s)" "no_new_lanes (lanes_of s) (lanes_of s')" "frames_in (keys_used evs) (stacks (cs_thread s'))"
    using attempt_ok [OF ok c _ reg i K] wf p by auto
  have "lane_key ` set (lanes_of s') \<subseteq> keys_used ?evs" using K(2) A'(3) by (auto simp: no_new_lanes_def)
  moreover have "reg_view A' (f, m) = reg_view A (f, m)" if "(f, m) \<notin> keys_used evs" for f m
    using that A'(2) K(2) unfolding only_lanes_def by blast
  ultimately show ?thesis using I A'(1,4) by (intro exI [of _ A']) (auto simp: replay_inv_def)
qed

lemma replay_run_inv:
  assumes "replay_run programs evs s" and wf: "\<And>p. wf_program (programs p)"
  shows "\<exists>A. replay_inv programs evs A s"
  using assms(1)
proof induction
  case (empty s)
  then show ?case using empty_run [of s programs] by (auto simp: lanes_of_def)
next
  case (start evs s f p)
  then show ?case using start_event by blast
next
  case (source evs s d f p v b n t' fs')
  have "(f, sn_lane d) \<notin> keys_used evs" using source.hyps by (simp add: keys_used_def)
  then show ?case using source source_event wf by blast
next
  case (load evs s d f pc v b n t' fs')
  then show ?case using load_event by blast
next
  case (attempt evs s e slots n s')
  then show ?case using attempt_event [where programs = programs and e = e] wf by blast
next
  case (retire evs s now n t' fs')
  then show ?case using retire_event by blast
next
  case (restart evs s i pc uops units budget res model rep tid)
  then show ?case using restart_event by blast
next
  case (elsewhere evs s s')
  then obtain A where "replay_inv programs evs A s" by blast
  from elsewhere_event [OF this elsewhere.hyps(2-7)] show ?case by blast
qed

section \<open>Properties\<close>


text \<open>A program with a divergent branch and a load after the join, and the source value 7 for lane 3.\<close>

definition sample_program :: replay_template where
  "sample_program = \<lparr>rt_triggerPC = 0x100, rt_stridePC = 0x100, rt_loopControlPC = 0, rt_finalLoadPC = 0x110, rt_count = 5,
     rt_scalarCount = 5, rt_triggerDestination = 10, rt_continuePastFLR = True,
     rt_uops = (\<lambda>i. [empty_uop\<lparr>up_pc := 0x100\<rparr>,
       empty_uop\<lparr>up_pc := 0x104, up_semantic := BranchNotEqual, up_source0 := 10, up_source1 := 0, up_control := True,
         up_conditional := True, up_tainted := True, up_branchTargetPC := 0x10c, up_fallthroughPC := 0x108, up_reconvergencePC := 0x110\<rparr>,
       empty_uop\<lparr>up_pc := 0x108, up_semantic := AddImmediate, up_source0 := 10, up_destination := 11, up_immediate := 0x2000,
         up_intDestinations := 1, up_tainted := True\<rparr>,
       empty_uop\<lparr>up_pc := 0x10c, up_semantic := AddImmediate, up_source0 := 10, up_destination := 11, up_immediate := 0x4000,
         up_intDestinations := 1, up_tainted := True\<rparr>,
       empty_uop\<lparr>up_pc := 0x110, up_semantic := LoadDouble, up_source0 := 11, up_destination := 12, up_intDestinations := 1,
         up_load := True, up_tainted := True\<rparr>] ! i),
     rt_initialRegs = (\<lambda>a. 0), rt_valid = True\<rparr>"

definition sample_sender :: sender_state where
  "sample_sender = \<lparr>sn_nested = False, sn_relations = \<lparr>rel_count = 0, rel_scales = (\<lambda>i. 0), rel_offsets = (\<lambda>i. 0),
     rel_masks = (\<lambda>i. 0), rel_patterns = (\<lambda>i. 0)\<rparr>, sn_replay = Some 0, sn_helperRegs = Some 0, sn_predicate = None, sn_lane = 3, sn_tid = 0\<rparr>"

definition sample_cpu :: replay_cpu where
  "sample_cpu = \<lparr>cs_thread = HT_new\<lparr>ht_vectorChunkModel := True\<rparr>, cs_files = \<lparr>hf_files = (\<lambda>i. HR_new), hf_bank = None\<rparr>, cs_nextIssueTick = 0,
     cs_queue = [], cs_queuedAddresses = {}, cs_queuedDependentLines = {}, cs_outstandingLines = {}, cs_completedLines = {},
     cs_alternateLines = {}\<rparr>"

definition sample_run :: replay_cpu where
  "sample_run = (let s1 = sample_cpu\<lparr>cs_files := new_file (\<lambda>p. sample_program) 0 0 (cs_files sample_cpu)\<rparr>;
     (b, n, t, fs) = HT_enqueueReplayLane (\<lambda>p. sample_program) sample_sender 7 (cs_thread s1) (cs_files s1)
     in s1\<lparr>cs_thread := t, cs_files := fs\<rparr>)"

lemma sample_wf: "wf_program sample_program"
  by code_simp

lemma sample_is_run: "replay_run (\<lambda>p. sample_program) [SourceValue 0 3 7, StartFile 0 0] sample_run"
proof -
  let ?s1 = "sample_cpu\<lparr>cs_files := new_file (\<lambda>p. sample_program) 0 0 (cs_files sample_cpu)\<rparr>"
  have "replay_run (\<lambda>p. sample_program) [] sample_cpu" by (rule replay_run.empty) (simp_all add: sample_cpu_def HT_new_def)
  then have r: "replay_run (\<lambda>p. sample_program) [StartFile 0 0] ?s1"
    by (rule replay_run.start) (simp_all add: started_def sample_program_def HR_NumArchitecturalRegs_def)
  obtain b n t fs where e: "HT_enqueueReplayLane (\<lambda>p. sample_program) sample_sender 7 (cs_thread ?s1) (cs_files ?s1) = (b, n, t, fs)"
    by (metis prod.exhaust)
  have "replay_run (\<lambda>p. sample_program) [SourceValue 0 (sn_lane sample_sender) 7, StartFile 0 0] (?s1\<lparr>cs_thread := t, cs_files := fs\<rparr>)"
    by (rule replay_run.source [OF r, of _ _ 0, OF _ _ _ _ _ e]) (simp_all add: sample_sender_def)
  then show ?thesis using e by (simp add: sample_run_def Let_def sample_sender_def)
qed

lemma sample_lanes: "ht_replayLanes (cs_thread sample_run) = [new_lane sample_program 0 0 sample_sender 7]"
  by (simp add: sample_run_def sample_cpu_def HT_new_def HT_enqueueReplayLane_def sample_sender_def sample_program_def
      HR_NumArchitecturalRegs_def wake_uop_def add_lane_def Let_def split_beta)




end
