(* ===== verification/DVR_Replay_Stranded.thy ===== *)
theory DVR_Replay_Stranded
  imports DVR_Replay_Run
begin

text \<open>
  What an attempt does with lanes that wait. A lane that is blocked and in no frame is never touched
  again, a branch does not move the lanes behind its seed, and an attempt never fails.
\<close>

section \<open>A blocked lane without a frame\<close>

definition stranded :: "replay_lane \<Rightarrow> helper_thread \<Rightarrow> bool" where
  "stranded l t \<longleftrightarrow> keys_ok (ht_replayLanes t) \<and> l \<in> set (ht_replayLanes t) \<and> rl_active l \<and> rl_reconvergenceBlocked l \<and>
     \<not> in_frame (stacks t (rl_helperRegs l)) (rl_lane l)"

lemma pop_frames_stranded:
  assumes "pop_frames f frs ls r = (ls', r')" "l \<in> set ls" "rl_reconvergenceBlocked l" "rl_helperRegs l = f \<longrightarrow> \<not> in_frame frs (rl_lane l)"
  shows "l \<in> set ls'"
  using assms
proof (induction frs arbitrary: ls r)
  case (Cons fr frs)
  show ?case
  proof (cases "path_ended ls f fr")
    case True
    have "pop_lane f fr l = l" using Cons.prems(3,4) by (auto simp: pop_lane_def in_frame_def)
    then have "l \<in> set (map (pop_lane f fr) ls)" using Cons.prems(2) by (metis image_eqI list.set_map)
    then show ?thesis using Cons.IH [of "map (pop_lane f fr) ls"] Cons.prems True by (auto simp: in_frame_def)
  qed (use Cons.prems in simp)
qed simp

lemma clear_path_blocked: "rl_reconvergenceBlocked l \<Longrightarrow> l \<in> set ls \<Longrightarrow> l \<in> set (map (clear_path f) ls)"
  by (auto simp: clear_path_def eligible_def intro: image_eqI [of _ _ l])

lemma reconverge_stranded:
  assumes "stranded l t"
  shows "stranded l (reconverge f t)"
proof -
  let ?r = "refreshCurrentGroup (ht_replayLanes t) f (reconvergence_of f t)"
  obtain ls r1 where p: "pop_frames f (rr_stack ?r) (ht_replayLanes t) ?r = (ls, r1)" by fastforce
  have l: "l \<in> set (ht_replayLanes t)" "rl_active l" "rl_reconvergenceBlocked l" "\<not> in_frame (stacks t (rl_helperRegs l)) (rl_lane l)"
    using assms by (auto simp: stranded_def)
  have m: "l \<in> set ls" by (rule pop_frames_stranded [OF p l(1,3)]) (use l(4) in \<open>auto simp: stacks_def\<close>)
  have "l \<in> set (ht_replayLanes (reconverge f t))" using p m clear_path_blocked [OF l(3)] by (simp add: reconverge_def Let_def)
  moreover have "keys_ok (ht_replayLanes (reconverge f t))" using assms keys_ok_same [OF reconverge_same(1)] by (simp add: stranded_def)
  moreover have "\<not> in_frame (stacks (reconverge f t) (rl_helperRegs l)) (rl_lane l)"
  proof -
    have "rl_lane l < 128" using assms by (auto simp: stranded_def keys_ok_def)
    moreover have "frames_in {k. in_frame (stacks t (fst k)) (snd k)} (stacks (reconverge f t))"
      by (rule reconverge_frames) (simp add: frames_in_def)
    ultimately show ?thesis using l(4) unfolding frames_in_def by fastforce
  qed
  ultimately show ?thesis using l by (simp add: stranded_def)
qed

text \<open>The group does not take the lane.\<close>

definition budget_left :: "replay_env \<Rightarrow> replay_lane \<Rightarrow> bool" where
  "budget_left e l \<longleftrightarrow> in_program e l \<and> rl_helperUops l < en_maxUops e"

lemma visit_blocked: "rl_reconvergenceBlocked l \<Longrightarrow> budget_left e l \<Longrightarrow> visit_lane e c t l = (False, l)"
  by (simp add: visit_lane_def budget_left_def inCurrentGroup_def eligible_def split: option.split)

lemma form_group_stranded:
  assumes f: "form_group e c t fs [0..<length ls] ls [] = (lanes, grp)" and i: "i < length ls"
    and b: "rl_reconvergenceBlocked (ls ! i)" "budget_left e (ls ! i)"
  shows "lanes ! i = ls ! i" and "i \<notin> set grp" and "length lanes = length ls"
proof -
  have F: "length lanes = length ls" "lanes ! i = ls ! i \<or> lanes ! i = snd (visit_lane e c t (ls ! i))"
      "\<forall>j \<in> set grp. fst (visit_lane e c t (ls ! j))" using form_group_facts [OF f] i by auto
  show "lanes ! i = ls ! i" using F(2) visit_blocked [OF b, of c t] by (metis snd_conv)
  show "i \<notin> set grp" using F(3) visit_blocked [OF b, of c t] by (metis fst_conv)
  show "length lanes = length ls" by (rule F(1))
qed

text \<open>A branch does not decide for the lane.\<close>

lemma blocked_undecided:
  assumes k: "keys_ok ls" and i: "i < length ls" "rl_helperRegs (ls ! i) = f" "rl_reconvergenceBlocked (ls ! i)"
  shows "bo_next (evaluate_branch e fs f r ls seed) (rl_lane (ls ! i)) = None"
proof (rule ccontr)
  assume "bo_next (evaluate_branch e fs f r ls seed) (rl_lane (ls ! i)) \<noteq> None"
  then obtain j pc where j: "j < length ls" "rl_lane (ls ! j) = rl_lane (ls ! i)" "decides e fs f r ls seed j pc"
    using outcome_okD(1) [OF evaluate_branch_ok [OF k]] by blast
  have p: "branch_peer f r (ls ! seed) (ls ! j)" using j(3) by (simp add: decides_def)
  have "j = i" using keys_inj [OF k j(1) i(1)] j(2) i(2) peer_file [OF p] by simp
  then show False using p i(3) by (simp add: branch_peer_def inCurrentGroup_def eligible_def)
qed

lemma apply_branch_stranded:
  fixes e :: replay_env and fs :: helper_files and r :: replay_reconvergence and f seed :: nat and t :: helper_thread
  assumes k: "keys_ok (ht_replayLanes t)" and i: "i < length (ht_replayLanes t)" and l: "ht_replayLanes t ! i = l" "rl_reconvergenceBlocked l"
    and st: "\<not> in_frame (stacks t (rl_helperRegs l)) (rl_lane l)"
  defines "b \<equiv> evaluate_branch e fs f r (ht_replayLanes t) seed"
  shows "ht_replayLanes (apply_branch e f u b seed t) ! i = l \<and> \<not> in_frame (stacks (apply_branch e f u b seed t) (rl_helperRegs l)) (rl_lane l) \<and>
    same_lanes (ht_replayLanes t) (ht_replayLanes (apply_branch e f u b seed t))"
proof -
  let ?C = "commit_branch e f u b seed (ht_replayLanes t)"
  have b2: "length (bo_paths b) \<le> 2" "bo_selected b < 2"
    using two_paths [OF evaluate_branch_ok [OF k]] selected_two [OF k] by (auto simp: b_def)
  have nx: "rl_helperRegs l = f \<Longrightarrow> bo_next b (rl_lane l) = None" using blocked_undecided [OF k i] l by (simp add: b_def)
  have C: "?C ! i = l" "length ?C = length (ht_replayLanes t)"
    using commit_branch_inv [of e f u b seed "ht_replayLanes t"] i l nx by (auto simp: commit_inv_def committed_def)
  have tag: "tag_lane f b d l = l" for d using nx by (auto simp: tag_lane_def split: option.split)
  have m: "\<not> (rl_helperRegs l = f \<and> test_lane m (rl_lane l))" if "deferred u b = Some (pc, d, m)" for pc d m
  proof
    assume h: "rl_helperRegs l = f \<and> test_lane m (rl_lane l)"
    have "path_bit (bo_paths b) pc (rl_lane l)" using deferred_path [OF that b2(1)] h by (auto simp: path_bit_def)
    moreover have "rl_lane l < 128" using k i l(1) by (auto simp: keys_ok_def)
    ultimately show False using outcome_okD(3) [OF evaluate_branch_ok [OF k, of e fs f r seed, folded b_def]] nx h by simp
  qed
  note A = apply_branch_alt [OF b2, where e = e and f = f and u = u and seed = seed and t = t]
  have "ht_replayLanes (apply_branch e f u b seed t) ! i = l \<and> \<not> in_frame (stacks (apply_branch e f u b seed t) (rl_helperRegs l)) (rl_lane l)"
  proof (cases "deferred u b")
    case None
    then show ?thesis using A C i tag st by auto
  next
    case (Some p)
    obtain pc d m' where p: "p = (pc, d, m')" by (cases p)
    have nm: "\<not> (rl_helperRegs l = f \<and> test_lane m' (rl_lane l))" using m Some p by blast
    then have same: "drop_path f m' l = l" "block_path f m' l = l" by (auto simp: drop_path_def block_path_def)
    show ?thesis using A Some p C i tag st same nm by (auto simp: in_frame_def split: if_splits)
  qed
  then show ?thesis using apply_branch_lane(1) [OF b2] by blast
qed

lemma branch_state_stranded:
  assumes "keys_ok (lanes_of s)" "i < length (lanes_of s)" "lanes_of s ! i = l" "rl_reconvergenceBlocked l"
    "\<not> in_frame (stacks (cs_thread s) (rl_helperRegs l)) (rl_lane l)"
  shows "ht_replayLanes (branch_state e f grp s) ! i = l \<and> \<not> in_frame (stacks (branch_state e f grp s) (rl_helperRegs l)) (rl_lane l) \<and>
    same_lanes (lanes_of s) (ht_replayLanes (branch_state e f grp s))"
proof -
  let ?t1 = "HT_retireFrontend (up_pc (lane_uop e (ht_replayLanes (cs_thread s) ! hd grp))) (cs_thread s)"
  have 0: "keys_ok (ht_replayLanes ?t1)" "i < length (ht_replayLanes ?t1)" "ht_replayLanes ?t1 ! i = l"
      "\<not> in_frame (stacks ?t1 (rl_helperRegs l)) (rl_lane l)" using assms by (simp_all add: lanes_of_def)
  note A = apply_branch_stranded [OF 0(1-3) assms(4) 0(4), where e = e and fs = "cs_files s" and f = f and
      r = "reconvergence_of f (cs_thread s)" and seed = "hd grp" and u = "lane_uop e (ht_replayLanes (cs_thread s) ! hd grp)", unfolded retireFrontend_thread]
  show ?thesis
  proof (cases "up_conditional (lane_uop e (ht_replayLanes (cs_thread s) ! hd grp)) \<and>
      outcomes_complete f (reconvergence_of f (cs_thread s)) (ht_replayLanes (cs_thread s)) (hd grp)
        (evaluate_branch e (cs_files s) f (reconvergence_of f (cs_thread s)) (ht_replayLanes (cs_thread s)) (hd grp))")
    case True
    then have "branch_state e f grp s = apply_branch e f (lane_uop e (ht_replayLanes (cs_thread s) ! hd grp))
        (evaluate_branch e (cs_files s) f (reconvergence_of f (cs_thread s)) (ht_replayLanes (cs_thread s)) (hd grp)) (hd grp) ?t1"
      unfolding branch_state_def Let_def by (rule if_P)
    then show ?thesis using A unfolding lanes_of_def by simp
  next
    case False
    then have "branch_state e f grp s = ?t1" unfolding branch_state_def Let_def by (rule if_not_P)
    then show ?thesis using assms by (simp add: lanes_of_def)
  qed
qed

text \<open>Issuing and executing the group changes only the lanes of the group.\<close>

definition off_group :: "nat list \<Rightarrow> replay_lane list \<Rightarrow> replay_lane list \<Rightarrow> bool" where
  "off_group grp ls ls' \<longleftrightarrow> same_lanes ls ls' \<and> (\<forall>i. i \<notin> set grp \<longrightarrow> ls' ! i = ls ! i)"

lemma off_group_fold:
  assumes "\<And>i ls. \<exists>l. same_lane (ls ! i) l \<and> g i ls = ls[i := l]" "\<forall>i \<in> set grp. i < length ls"
  shows "off_group grp ls (fold g grp ls)"
  using assms(2)
proof (induction grp arbitrary: ls)
  case (Cons i grp)
  obtain l where l: "same_lane (ls ! i) l" "g i ls = ls[i := l]" using assms(1) by blast
  have s: "same_lanes ls (ls[i := l])" using same_lanes_update l(1) Cons.prems by simp
  have "off_group grp (ls[i := l]) (fold g grp (ls[i := l]))" using Cons by simp
  then show ?case using l(2) same_lanes_trans [OF s] by (auto simp: off_group_def)
qed (simp add: off_group_def)

lemma rename_off_group:
  assumes r: "rename_destination f u grp t fs = (t', fs')" and g: "\<forall>i \<in> set grp. i < length (ht_replayLanes t)"
  shows "off_group grp (ht_replayLanes t) (ht_replayLanes t')" and "stacks t' = stacks t"
proof -
  let ?f = "fold (\<lambda>i ls. ls[i := (ls ! i)\<lparr>rl_active := False\<rparr>]) grp"
  have d: "off_group grp (ht_replayLanes t) (?f (ht_replayLanes t))"
    by (rule off_group_fold [OF _ g]) (rule exI, rule conjI [OF _ refl], simp add: same_lane_def)
  have st: "(stacks t)(f := rr_stack (reconvergence_of f t)) = stacks t" by (rule fun_upd_idem) (simp add: stacks_def)
  have lt: "stacks (t\<lparr>ht_replayLanes := ls\<rparr>) = stacks t" for t ls by (simp add: stacks_def reconvergence_of_def fun_eq_iff)
  have "(ht_replayLanes t' = ht_replayLanes t \<or> ht_replayLanes t' = ?f (ht_replayLanes t)) \<and> stacks t' = stacks t"
    using r unfolding rename_destination_def Let_def by (auto simp: st lt split: if_splits prod.splits)
  then show "off_group grp (ht_replayLanes t) (ht_replayLanes t')" "stacks t' = stacks t" using d by (auto simp: off_group_def)
qed

lemma issue_group_thread:
  assumes "issue_group e u tk grp t fs = Some (t', fs')"
  shows "ht_replayLanes t' = ht_replayLanes t \<and> stacks t' = stacks t"
proof -
  obtain d where "HT_issueReplayChunk tk (enter_vir d t) = Some t'" using assms by (auto simp: issue_group_def Let_def split: prod.splits)
  moreover have "stacks (enter_vir d t) = stacks t" by (simp add: stacks_def reconvergence_of_def fun_eq_iff enter_vir_def)
  ultimately show ?thesis using issueReplayChunk_thread [of tk "enter_vir d t" t'] by (simp add: enter_vir_def)
qed

lemma execute_lane_same: "same_lane l (fst (execute_lane e sp tk l s))"
  by (auto simp: execute_lane_def execute_load_def skip_load_def advance_lane_def out_of_budget_def stop_lane_def write_result_def same_lane_def
      Let_def split: option.split)

lemma execute_lane_thread: "cs_thread (snd (execute_lane e sp tk l s)) = cs_thread s"
  by (auto simp: execute_lane_def execute_load_def enqueue_dependent_def Let_def split: option.split)

lemma execute_off_group:
  assumes "\<forall>i \<in> set grp. i < length (lanes_of s)"
  shows "off_group grp (lanes_of s) (lanes_of (fold (execute_step e sp tk) grp s)) \<and>
    stacks (cs_thread (fold (execute_step e sp tk) grp s)) = stacks (cs_thread s)"
  using assms
proof (induction grp arbitrary: s)
  case (Cons i grp)
  let ?s = "execute_step e sp tk i s" and ?l = "fst (execute_lane e sp tk (lanes_of s ! i) s)"
  have s1: "lanes_of ?s = (lanes_of s)[i := ?l]" "stacks (cs_thread ?s) = stacks (cs_thread s)"
    using execute_lane_thread [of e sp tk "lanes_of s ! i" s]
    by (auto simp: execute_step_def lanes_of_def stacks_def reconvergence_of_def Let_def fun_eq_iff split: prod.splits)
  have same: "same_lanes (lanes_of s) (lanes_of ?s)" unfolding s1 using same_lanes_update [OF _ execute_lane_same] Cons.prems by simp
  have "off_group grp (lanes_of ?s) (lanes_of (fold (execute_step e sp tk) grp ?s)) \<and>
      stacks (cs_thread (fold (execute_step e sp tk) grp ?s)) = stacks (cs_thread ?s)"
    using Cons same_lanes_length [OF same] by simp
  then show ?case using same_lanes_trans [OF same] s1 by (auto simp: off_group_def)
qed (simp add: off_group_def)

section \<open>Attempts\<close>

lemma stranded_filter: "stranded l t \<Longrightarrow> B l \<Longrightarrow> stranded l (t\<lparr>ht_replayLanes := filter B (ht_replayLanes t)\<rparr>)"
  by (auto simp: stranded_def keys_ok_filter stacks_def reconvergence_of_def)

lemma off_group_stranded:
  assumes "off_group grp ls (ht_replayLanes t)" "keys_ok ls" "i < length ls" "ls ! i = l" "i \<notin> set grp" "rl_active l" "rl_reconvergenceBlocked l"
    "\<not> in_frame (stacks t (rl_helperRegs l)) (rl_lane l)"
  shows "stranded l t"
proof -
  have "same_lanes ls (ht_replayLanes t)" "ht_replayLanes t ! i = l" using assms(1,4,5) by (auto simp: off_group_def)
  then show ?thesis using assms keys_ok_same same_lanes_length nth_mem [of i "ht_replayLanes t"] by (metis stranded_def)
qed

lemma issue_granted_stranded:
  assumes g: "issue_granted e f grp latency s = Some (n, s')" and k: "keys_ok (lanes_of s)"
    and i: "i < length (lanes_of s)" "lanes_of s ! i = l" "i \<notin> set grp" "\<forall>j \<in> set grp. j < length (lanes_of s)"
    and l: "rl_active l" "rl_reconvergenceBlocked l" "\<not> in_frame (stacks (cs_thread s) (rl_helperRegs l)) (rl_lane l)"
  shows "stranded l (cs_thread s')"
  using g
proof (cases rule: issue_granted_cases)
  case (1 tk nt t3 fs3 t4 fs4)
  let ?tb = "branch_state e f grp s" and ?s4 = "s\<lparr>cs_thread := t4, cs_files := fs4, cs_nextIssueTick := nt\<rparr>" and ?sp = "lane_prog e (lanes_of s ! hd grp)"
  have B: "ht_replayLanes ?tb ! i = l" "\<not> in_frame (stacks ?tb (rl_helperRegs l)) (rl_lane l)" "same_lanes (lanes_of s) (ht_replayLanes ?tb)"
    using branch_state_stranded [OF k i(1,2) l(2,3)] by auto
  have t3: "ht_replayLanes t3 = ht_replayLanes ?tb" "stacks t3 = stacks ?tb"
    using issue_group_thread [OF 1(2)] by auto
  have j: "\<forall>j \<in> set grp. j < length (ht_replayLanes t3)" using i(4) same_lanes_length [OF B(3)] t3(1) by simp
  note R = rename_off_group [OF 1(3) j]
  have len: "\<forall>j \<in> set grp. j < length (lanes_of ?s4)" using j R(1) same_lanes_length by (auto simp: off_group_def lanes_of_def)
  note E = execute_off_group [OF len, of e ?sp tk]
  let ?s5 = "fold (execute_step e ?sp tk) grp ?s4"
  have "off_group grp (ht_replayLanes t3) (lanes_of ?s5)" using R(1) E same_lanes_trans by (auto simp: off_group_def lanes_of_def)
  moreover have "stacks (cs_thread ?s5) = stacks ?tb" using E R(2) t3(2) by simp
  moreover have "keys_ok (ht_replayLanes t3)" using keys_ok_same [OF B(3) k] t3(1) by simp
  ultimately have s5: "stranded l (cs_thread ?s5)"
    using off_group_stranded [of grp "ht_replayLanes t3" "cs_thread ?s5" i l] i same_lanes_length [OF B(3)] t3 B l by (simp add: lanes_of_def)
  have "lanes_of s' = filter rl_active (lanes_of ?s5)" "stacks (cs_thread s') = stacks (cs_thread ?s5)"
    unfolding 1(4) by (rule execute_group_thread(1,2))+
  then show ?thesis using s5 l(1) by (auto simp: stranded_def keys_ok_filter lanes_of_def)
qed

text \<open>From the reconverged state on.\<close>

lemma attempt_rest_stranded:
  assumes st: "stranded l (reconverged_thread e s)" and b: "budget_left e l" and f0: "formed_lanes e s = (lanes, grp)"
  defines "t2 \<equiv> (reconverged_thread e s)\<lparr>ht_replayLanes := lanes\<rparr>"
  shows "stranded l (retireTerminatedLanes t2)"
    and "issue_formed e f grp (with_thread s t2) = Some (n, s') \<Longrightarrow> stranded l (cs_thread s')"
proof -
  let ?t1 = "reconverged_thread e s" and ?c = "select_context e (pruned_thread e s) (cs_files s)"
  have fg: "form_group e ?c ?t1 (cs_files s) [0..<length (ht_replayLanes ?t1)] (ht_replayLanes ?t1) [] = (lanes, grp)"
    using f0 by (simp add: formed_lanes_def Let_def)
  obtain i where i: "i < length (ht_replayLanes ?t1)" "ht_replayLanes ?t1 ! i = l" using st by (auto simp: stranded_def in_set_conv_nth)
  have bl: "rl_reconvergenceBlocked (ht_replayLanes ?t1 ! i)" "budget_left e (ht_replayLanes ?t1 ! i)" using st i b by (auto simp: stranded_def)
  note G = form_group_stranded [OF fg i(1) bl]
  have F: "\<forall>j < length (ht_replayLanes ?t1). lanes ! j = ht_replayLanes ?t1 ! j \<or> lanes ! j = snd (visit_lane e ?c ?t1 (ht_replayLanes ?t1 ! j))"
      "\<forall>j \<in> set grp. j < length (ht_replayLanes ?t1)" using form_group_facts [OF fg] by auto
  have "same_lanes (ht_replayLanes ?t1) lanes"
    unfolding same_lanes_def list_all2_conv_all_nth using F(1) G(3) visit_lane_same by (metis same_lane_refl)
  then have k: "keys_ok lanes" using st keys_ok_same by (auto simp: stranded_def)
  have l2: "lanes ! i = l" "i < length lanes" using G i by auto
  have s2: "stacks t2 = stacks ?t1" by (simp add: t2_def stacks_def reconvergence_of_def fun_eq_iff)
  have l: "rl_active l" "rl_reconvergenceBlocked l" "\<not> in_frame (stacks t2 (rl_helperRegs l)) (rl_lane l)" using st s2 by (auto simp: stranded_def)
  have t2: "stranded l t2" using k l l2 nth_mem [OF l2(2)] by (auto simp: stranded_def t2_def)
  then show "stranded l (retireTerminatedLanes t2)" unfolding retireTerminatedLanes_def using stranded_filter [where B = rl_active] l(1) by blast
  assume "issue_formed e f grp (with_thread s t2) = Some (n, s')"
  then show "stranded l (cs_thread s')"
  proof (cases rule: issue_formed_cases)
    case nothing
    then show ?thesis using t2 by (auto simp: stranded_def)
  next
    case (granted latency)
    then show ?thesis
      by (rule issue_granted_stranded [where i = i]) (use k l l2 G(2,3) F(2) in \<open>auto simp: t2_def\<close>)
  qed
qed

lemma attempt_stranded:
  assumes st: "stranded l (cs_thread s)" and b: "budget_left e l" and a: "issueDVRReplayLanes e slots s = Some (n, s')"
  shows "stranded l (cs_thread s')"
proof -
  have p: "stranded l (pruned_thread e s)"
    unfolding pruned_thread_def prune_lanes_def by (rule stranded_filter [OF st]) (use st b in \<open>auto simp: stranded_def budget_left_def\<close>)
  then have r: "stranded l (reconverged_thread e s)" by (simp add: reconverged_thread_def reconverge_stranded split: option.split)
  obtain lanes grp where f0: "formed_lanes e s = (lanes, grp)" by fastforce
  from a f0 show ?thesis
  proof (cases rule: attempt_cases)
    case idle
    then show ?thesis using st by simp
  next
    case pruned
    then show ?thesis using p by simp
  next
    case nogroup
    then show ?thesis using attempt_rest_stranded(1) [OF r b f0] by simp
  next
    case (group_formed f)
    then show ?thesis using attempt_rest_stranded(2) [OF r b f0] by blast
  qed
qed

text \<open>Any further attempts of the same helper, with load responses in between.\<close>

inductive attempts :: "programs \<Rightarrow> nat \<Rightarrow> replay_cpu \<Rightarrow> replay_cpu \<Rightarrow> bool" for programs max_uops where
  none: "attempts programs max_uops s s"
| more: "attempts programs max_uops s s1 \<Longrightarrow> en_programs e = programs \<Longrightarrow> en_maxUops e = max_uops \<Longrightarrow>
    issueDVRReplayLanes e slots s1 = Some (n, s2) \<Longrightarrow> attempts programs max_uops s s2"
| respond: "attempts programs max_uops s s1 \<Longrightarrow> sn_helperRegs d = Some g \<Longrightarrow>
    HT_resumeDependentLane programs d pc v (cs_thread s1) (cs_files s1) = (b, n, t, fs) \<Longrightarrow>
    attempts programs max_uops s (s1\<lparr>cs_thread := t, cs_files := fs\<rparr>)"

lemma resume_stranded:
  assumes st: "stranded l t" and pc: "rl_lanePC l \<noteq> 0"
    and r: "HT_resumeDependentLane programs d lpc v t fs = (b, n, t', fs')" "sn_helperRegs d = Some g"
  shows "stranded l t'"
  using r
proof (cases rule: resume_cases)
  case unknown
  then show ?thesis using st by simp
next
  case (parked p i)
  obtain j where j: "j < length (ht_replayLanes t)" "ht_replayLanes t ! j = l" using st by (auto simp: stranded_def in_set_conv_nth)
  have "j \<noteq> i" using parked(2) j(2) pc by (auto simp: parked_at_def)
  then have "ht_replayLanes t' ! j = l" "j < length (ht_replayLanes t')" using parked(3) j by auto
  then have "l \<in> set (ht_replayLanes t')" by (metis nth_mem)
  moreover have "keys_ok (ht_replayLanes t')"
    using st keys_ok_same [OF same_lanes_update [OF parked(1) resume_lane_facts(1)]] parked(3) by (simp add: stranded_def)
  ultimately show ?thesis using st parked(4) by (simp add: stranded_def)
qed

lemma attempts_stranded:
  assumes "attempts programs max_uops s s'" "stranded l (cs_thread s)" "rl_lanePC l \<noteq> 0"
    and b: "rl_uopIndex l < rt_count (programs (rl_program l))" "rl_helperUops l < max_uops"
  shows "stranded l (cs_thread s')"
  using assms(1,2)
proof induction
  case (more s s1 e slots n s2)
  have "budget_left e l" using b more.hyps by (simp add: budget_left_def in_program_def lane_prog_def)
  then show ?case using attempt_stranded more by blast
next
  case (respond s s1 d g pc v b n t fs)
  then show ?case using resume_stranded [OF _ assms(3)] by simp
qed

text \<open>Popping the only frame puts a lane that waits at the join into this state.\<close>

lemma pop_strands:
  assumes k: "keys_ok (ht_replayLanes t)" and l: "l \<in> set (ht_replayLanes t)" "eligible f l" and fr: "stacks t f = [fr]"
    "rl_lanePC l = rf_reconvergencePC fr" "\<not> test_lane (rf_mask fr) (rl_lane l)"
  shows "stranded (l\<lparr>rl_reconvergenceBlocked := True\<rparr>) (reconverge f t)"
proof -
  let ?ls = "ht_replayLanes t" and ?l = "l\<lparr>rl_reconvergenceBlocked := True\<rparr>"
  let ?r = "refreshCurrentGroup ?ls f (reconvergence_of f t)"
  let ?ps = "map (pop_lane f fr) ?ls"
  have e: "path_ended ?ls f fr" using l fr(2) by (auto simp: path_ended_def list_ex_iff)
  have st: "rr_stack ?r = [fr]" using fr(1) by (simp add: stacks_def)
  have p: "pop_frames f (rr_stack ?r) ?ls ?r = (?ps, ?r\<lparr>rr_currentPC := rf_pc fr, rr_currentMask := rf_mask fr, rr_currentValid := rf_pc fr \<noteq> 0, rr_stack := []\<rparr>)"
    unfolding st using e by simp
  have "pop_lane f fr l = ?l" using l(2) fr(2,3) by (auto simp: pop_lane_def eligible_def)
  then have "?l \<in> set ?ps" using l(1) by (metis image_eqI list.set_map)
  then have m: "?l \<in> set (map (clear_path f) ?ps)" by (rule clear_path_blocked [rotated]) simp
  have "ht_replayLanes (reconverge f t) = map (clear_path f) ?ps" "stacks (reconverge f t) f = []"
    unfolding reconverge_def Let_def p by simp_all
  moreover have "keys_ok (ht_replayLanes (reconverge f t))" by (rule keys_ok_same [OF reconverge_same(1) k])
  ultimately show ?thesis using m l(2) by (auto simp: stranded_def eligible_def in_frame_def)
qed

section \<open>The account of an attempt\<close>

definition counters :: "helper_thread \<Rightarrow> u32 \<times> u32 \<times> bool \<times> nat" where
  "counters t = (ht_issuedUops t, ht_readyUops t, ht_vectorChunkModel t, length (ht_virBuffer t))"

lemma counters_simps [simp]:
  "counters (t\<lparr>ht_replayLanes := ls\<rparr>) = counters t" "counters (set_reconvergence f r t) = counters t"
  "counters (HT_retireFrontend pc t) = counters t" "counters (retireTerminatedLanes t) = counters t"
  "counters (HT_markDeadSources g xs t) = counters t"
  by (simp_all add: counters_def set_reconvergence_def HT_retireFrontend_def retireTerminatedLanes_def HT_markDeadSources_def)

lemma counters_stages [simp]:
  "counters (reconverge f t) = counters t" "counters (apply_branch e f u b seed t) = counters t"
  by (simp_all add: reconverge_def apply_branch_def Let_def split: prod.split)

lemma counters_branch [simp]: "counters (branch_state e f grp s) = counters (cs_thread s)"
  by (simp add: branch_state_def Let_def)

lemma counters_reconverged [simp]: "counters (reconverged_thread e s) = counters (cs_thread s)"
  by (simp add: reconverged_thread_def pruned_thread_def split: option.split)

lemma counters_rename: "rename_destination f u grp t fs = (t', fs') \<Longrightarrow> counters t' = counters t"
  unfolding rename_destination_def Let_def by (auto split: if_splits prod.splits)

lemma counters_execute: "counters (cs_thread (fold (execute_step e sp tk) grp s)) = counters (cs_thread s)"
proof (induction grp arbitrary: s)
  case (Cons i grp)
  have "counters (cs_thread (execute_step e sp tk i s)) = counters (cs_thread s)"
    using execute_lane_thread [of e sp tk "ht_replayLanes (cs_thread s) ! i" s] by (auto simp: execute_step_def Let_def split: prod.splits)
  then show ?case using Cons by simp
qed simp

lemma counters_issue:
  assumes "issue_group e u tk grp t fs = Some (t', fs')"
  shows "counters t' = (ht_issuedUops t + 1, ht_readyUops t - 1, ht_vectorChunkModel t, length (ht_virBuffer t) + 1)"
proof -
  obtain d where d: "HT_issueReplayChunk tk (enter_vir d t) = Some t'" using assms by (auto simp: issue_group_def Let_def split: prod.splits)
  have "ht_issuedUops t' = ht_issuedUops (enter_vir d t) + 1 \<and> ht_readyUops t' = ht_readyUops (enter_vir d t) - 1 \<and>
      ht_vectorChunkModel t' = ht_vectorChunkModel (enter_vir d t) \<and> ht_virBuffer t' = ht_virBuffer (enter_vir d t)"
    using d unfolding HT_issueReplayChunk_def Let_def by (auto split: if_splits)
  then show ?thesis by (simp add: counters_def enter_vir_def)
qed

lemma issue_group_some:
  assumes "ht_vectorChunkModel t" "ht_readyUops t \<noteq> 0"
  shows "issue_group e u tk grp t fs \<noteq> None"
  using assms by (simp add: issue_group_def HT_issueReplayChunk_def enter_vir_def Let_def split: prod.split)

lemma issue_formed_some:
  assumes "ht_vectorChunkModel (cs_thread s)" "ht_readyUops (cs_thread s) \<noteq> 0"
  shows "issue_formed e f grp s \<noteq> None"
proof -
  have "ht_vectorChunkModel (branch_state e f grp s)" "ht_readyUops (branch_state e f grp s) \<noteq> 0"
    using counters_branch [of e f grp s] assms by (simp_all add: counters_def)
  note S = issue_group_some [OF this]
  have "issue_granted e f grp latency s \<noteq> None" for latency
    using S unfolding issue_granted_def Let_def by (auto split: option.split prod.split)
  then show ?thesis unfolding issue_formed_def Let_def by (auto split: option.split)
qed

lemma attempt_some:
  assumes m: "en_vectorChunkModel e \<longrightarrow> ht_vectorChunkModel (cs_thread s)"
  shows "issueDVRReplayLanes e slots s \<noteq> None"
proof -
  let ?c = "select_context e (pruned_thread e s) (cs_files s)"
  obtain lanes grp where f0: "formed_lanes e s = (lanes, grp)" by fastforce
  let ?t2 = "(reconverged_thread e s)\<lparr>ht_replayLanes := lanes\<rparr>"
  have "issue_formed e f grp (with_thread s ?t2) \<noteq> None" if "en_vectorChunkModel e" "ht_readyUops (pruned_thread e s) \<noteq> 0" for f
    using that m counters_reconverged [of e s] by (intro issue_formed_some) (auto simp: counters_def pruned_thread_def)
  then show ?thesis
    using f0 unfolding issueDVRReplayLanes_def formed_lanes_def Let_def pruned_thread_def [symmetric] reconverged_thread_def [symmetric] with_thread_def
    by (auto split: option.split list.split)
qed

lemma granted_counters:
  assumes "issue_granted e f grp latency s = Some (n, s')"
  shows "n = 1 \<and> counters (cs_thread s') = (ht_issuedUops (cs_thread s) + 1, ht_readyUops (cs_thread s) - 1, ht_vectorChunkModel (cs_thread s),
    length (ht_virBuffer (cs_thread s)) + 1)"
  using assms
proof (cases rule: issue_granted_cases)
  case (1 tk nt t3 fs3 t4 fs4)
  have "counters (cs_thread s') = counters t3"
    unfolding 1(4) execute_group_def Let_def using counters_execute counters_rename [OF 1(3)] by simp
  then show ?thesis using counters_issue [OF 1(2)] counters_branch [of e f grp s] 1(1) by (auto simp: counters_def)
qed

section \<open>Properties\<close>

text \<open>
  C18. Lanes that reach the join are lost. When the last deferred path is resumed because lanes of the
  first path have reached the reconvergence point, these lanes are blocked, and nothing ever unblocks
  them: whatever attempts and load responses follow, they stay where they are, although the code
  takes all surviving lanes to be at a common point again.
\<close>

theorem reconverged_lane_stranded:
  assumes k: "keys_ok (ht_replayLanes (cs_thread s))"
    and l: "l \<in> set (ht_replayLanes (cs_thread s))" "eligible f l" "budget_left e l"
    and fr: "stacks (cs_thread s) f = [fr]" "rl_lanePC l = rf_reconvergencePC fr" "rf_reconvergencePC fr \<noteq> 0"
      "\<not> test_lane (rf_mask fr) (rl_lane l)"
    and c: "select_context e (pruned_thread e s) (cs_files s) = Some f"
    and a: "issueDVRReplayLanes e slots s = Some (1, s1)"
    and later: "attempts (en_programs e) (en_maxUops e) s1 s2"
  shows "l\<lparr>rl_reconvergenceBlocked := True\<rparr> \<in> set (ht_replayLanes (cs_thread s2)) \<and>
    \<not> in_frame (stacks (cs_thread s2) f) (rl_lane l)"
proof -
  let ?l = "l\<lparr>rl_reconvergenceBlocked := True\<rparr>"
  have lf: "rl_helperRegs l = f" "rl_active l" using l(2) by (auto simp: eligible_def)
  have b: "budget_left e ?l" using l(3) by (simp add: budget_left_def in_program_def lane_prog_def)
  have "keys_ok (ht_replayLanes (pruned_thread e s))" "l \<in> set (ht_replayLanes (pruned_thread e s))"
    using k l lf(2) keys_ok_filter by (auto simp: pruned_thread_def prune_lanes_def budget_left_def)
  then have "stranded ?l (reconverge f (pruned_thread e s))" by (rule pop_strands) (use l fr in auto)
  then have r: "stranded ?l (reconverged_thread e s)" by (simp add: reconverged_thread_def c)
  obtain lanes grp where f0: "formed_lanes e s = (lanes, grp)" by fastforce
  from a f0 have "stranded ?l (cs_thread s1)"
  proof (cases rule: attempt_cases)
    case (group_formed g)
    then show ?thesis using attempt_rest_stranded(2) [OF r b f0] by blast
  qed simp_all
  then have "stranded ?l (cs_thread s2)"
    by (rule attempts_stranded [OF later]) (use fr b in \<open>auto simp: budget_left_def in_program_def lane_prog_def\<close>)
  then show ?thesis using lf(1) by (simp add: stranded_def)
qed

text \<open>Two lanes of one branch: lane 0 has reached the join, lane 1 is deferred.\<close>

definition join_program :: replay_template where
  "join_program = \<lparr>rt_triggerPC = 0x100, rt_stridePC = 0x100, rt_loopControlPC = 0, rt_finalLoadPC = 0x108, rt_count = 3, rt_scalarCount = 3,
     rt_triggerDestination = 10, rt_continuePastFLR = True,
     rt_uops = (\<lambda>i. empty_uop\<lparr>up_pc := 0x100 + 4 * of_nat i, up_semantic := AddImmediate, up_immediate := 1, up_intDestinations := 1\<rparr>),
     rt_initialRegs = (\<lambda>a. 0), rt_valid = True\<rparr>"

definition join_env :: replay_env where
  "join_env = \<lparr>en_programs = (\<lambda>p. join_program), en_maxUops = 20, en_now = 5, en_clockPeriod = 1, en_vectorChunkModel = True,
     en_vectorUnlimitedFU = True, en_issueInterval = 1, en_dependentPrefetch = True, en_cacheLineSize = 64, en_decoded = (\<lambda>pc. True),
     en_fu = (\<lambda>c. Some 1), en_relations = (\<lambda>t pc. None)\<rparr>"

definition join_lane :: "nat \<Rightarrow> nat \<Rightarrow> bool \<Rightarrow> replay_lane" where
  "join_lane n i blocked = (new_lane join_program 0 0 (sample_sender\<lparr>sn_lane := n\<rparr>) 0)
     \<lparr>rl_lanePC := 0x100 + 4 * of_nat i, rl_uopIndex := i, rl_reconvergenceBlocked := blocked\<rparr>"

definition join_frame :: replay_frame where
  "join_frame = \<lparr>rf_currentPC = 0x104, rf_currentMask = set_lane 0 empty_mask, rf_reconvergencePC = 0x108, rf_pc = 0x104,
     rf_mask = set_lane 1 empty_mask, rf_alternatePath = True, rf_takenPath = True\<rparr>"

definition join_cpu :: replay_cpu where
  "join_cpu = sample_cpu\<lparr>cs_thread := HT_new\<lparr>ht_vectorChunkModel := True, ht_readyUops := 3,
     ht_replayLanes := [join_lane 0 2 False, join_lane 1 1 True],
     ht_reconvergence := [0 \<mapsto> new_reconvergence\<lparr>rr_stack := [join_frame]\<rparr>]\<rparr>\<rparr>"

lemma join_issues: "map_option fst (issueDVRReplayLanes join_env 4 join_cpu) = Some 1"
  by code_simp

lemma join_context: "select_context join_env (pruned_thread join_env join_cpu) (cs_files join_cpu) = Some 0"
  by code_simp

theorem reconverged_lane_stranded_witness:
  "(join_lane 0 2 False)\<lparr>rl_reconvergenceBlocked := True\<rparr> \<in>
     set (ht_replayLanes (cs_thread (snd (the (issueDVRReplayLanes join_env 4 join_cpu))))) \<and>
   \<not> in_frame (stacks (cs_thread (snd (the (issueDVRReplayLanes join_env 4 join_cpu)))) 0) (rl_lane (join_lane 0 2 False))"
proof -
  obtain s1 where s1: "issueDVRReplayLanes join_env 4 join_cpu = Some (1, s1)" using join_issues by auto
  have ls: "ht_replayLanes (cs_thread join_cpu) = [join_lane 0 2 False, join_lane 1 1 True]" by (simp add: join_cpu_def)
  have lane: "rl_lane (join_lane n i b) = n" "rl_helperRegs (join_lane n i b) = 0" "rl_active (join_lane n i b)" "rl_uopIndex (join_lane n i b) = i"
      "rl_program (join_lane n i b) = 0" "rl_helperUops (join_lane n i b) = 0" "rl_lanePC (join_lane n i b) = 0x100 + 4 * of_nat i"
      "rl_reconvergenceBlocked (join_lane n i b) = b" for n i b
    by (simp_all add: join_lane_def new_lane_def)
  have "keys_ok (ht_replayLanes (cs_thread join_cpu))" by (simp add: ls keys_ok_def lane_key_def lane)
  moreover have "eligible 0 (join_lane 0 2 False)" "budget_left join_env (join_lane 0 2 False)"
    by (simp_all add: eligible_def budget_left_def in_program_def lane_prog_def lane join_env_def join_program_def)
  moreover have "stacks (cs_thread join_cpu) 0 = [join_frame]" by (simp add: join_cpu_def stacks_def reconvergence_of_def)
  moreover have "\<not> test_lane (rf_mask join_frame) 0" by code_simp
  ultimately show ?thesis
    using reconverged_lane_stranded [OF _ _ _ _ _ _ _ _ join_context s1 attempts.none, of "join_lane 0 2 False" join_frame] s1
    by (simp add: ls lane join_frame_def)
qed

text \<open>
  C26. A branch moves no lane behind its seed. The loop that commits the next PCs of the whole branch group
  compares each lane with the seed through the seed's own record. Once the seed has moved, every
  later lane of the group keeps its PC, its index and its budget, although the loop is meant for
  every active lane of the group and the outcome of each is known.
\<close>

theorem branch_commit_stops_at_seed:
  assumes i: "seed < i" "i < length (ht_replayLanes t)"
    and peer: "rl_uopIndex (ht_replayLanes t ! i) = rl_uopIndex (ht_replayLanes t ! seed)"
    and moved: "rl_uopIndex (ht_replayLanes (apply_branch e f u b seed t) ! seed) \<noteq> rl_uopIndex (ht_replayLanes t ! seed)"
  shows "rl_lanePC (ht_replayLanes (apply_branch e f u b seed t) ! i) = rl_lanePC (ht_replayLanes t ! i) \<and>
    rl_uopIndex (ht_replayLanes (apply_branch e f u b seed t) ! i) = rl_uopIndex (ht_replayLanes t ! i) \<and>
    rl_helperUops (ht_replayLanes (apply_branch e f u b seed t) ! i) = rl_helperUops (ht_replayLanes t ! i)"
proof -
  let ?ls = "ht_replayLanes t" and ?C = "commit_branch e f u b seed (ht_replayLanes t)" and ?ls' = "ht_replayLanes (apply_branch e f u b seed t)"
  have I: "commit_inv e f u b seed ?ls (length ?ls) ?C" by (rule commit_branch_inv)
  have len: "length ?C = length ?ls" using I by (simp add: commit_inv_def)
  have P: "same_place (?C ! j) (?ls' ! j)" if "j < length ?ls" for j
    using apply_branch_place [of e f u b seed t] that len by (simp add: list_all2_conv_all_nth)
  have "rl_uopIndex (?C ! seed) \<noteq> rl_uopIndex (?ls ! i)" using P [of seed] i moved peer by (simp add: same_place_def)
  then have "?C ! i = ?ls ! i" using I i by (simp add: commit_inv_def)
  then show ?thesis using P [OF i(2)] by (simp add: same_place_def)
qed

definition fork_program :: replay_template where
  "fork_program = join_program\<lparr>rt_uops := (\<lambda>i. if i = 1
     then empty_uop\<lparr>up_pc := 0x104, up_semantic := BranchEqual, up_control := True, up_conditional := True, up_tainted := True,
       up_branchTargetPC := 0x108, up_fallthroughPC := 0x108, up_reconvergencePC := 0x108\<rparr>
     else rt_uops join_program i)\<rparr>"

definition fork_thread :: helper_thread where
  "fork_thread = HT_new\<lparr>ht_replayLanes := [join_lane 0 1 False, join_lane 1 1 False]\<rparr>"

definition fork_outcome :: branch_outcome where
  "fork_outcome = \<lparr>bo_next = (\<lambda>n. Some 0x108), bo_paths = [(0x108, True, set_lane 0 (set_lane 1 empty_mask))], bo_selected = 0\<rparr>"

theorem branch_commit_stops_at_seed_witness:
  "rl_lanePC (ht_replayLanes (apply_branch (join_env\<lparr>en_programs := \<lambda>p. fork_program\<rparr>) 0 (rt_uops fork_program 1) fork_outcome 0 fork_thread) ! 0) = 0x108 \<and>
   rl_lanePC (ht_replayLanes (apply_branch (join_env\<lparr>en_programs := \<lambda>p. fork_program\<rparr>) 0 (rt_uops fork_program 1) fork_outcome 0 fork_thread) ! 1) = 0x104"
proof -
  let ?t = "apply_branch (join_env\<lparr>en_programs := \<lambda>p. fork_program\<rparr>) 0 (rt_uops fork_program 1) fork_outcome 0 fork_thread"
  have m: "rl_uopIndex (ht_replayLanes ?t ! 0) = 2" "rl_lanePC (ht_replayLanes ?t ! 0) = 0x108" by code_simp+
  have "rl_lanePC (join_lane 1 1 False) = 0x104" by code_simp
  moreover have "rl_uopIndex (join_lane n i b) = i" for n i b by (simp add: join_lane_def)
  ultimately show ?thesis
    using m branch_commit_stops_at_seed [of 0 1 fork_thread "join_env\<lparr>en_programs := \<lambda>p. fork_program\<rparr>" 0 "rt_uops fork_program 1" fork_outcome]
    by (simp add: fork_thread_def)
qed



end
