(* ===== verification/DVR_Compute.thy ===== *)
theory DVR_Compute
  imports DVR_Replay_Stranded
begin

text \<open>
  \<open>CPU::issueDVRHelperCompute\<close> (\<open>src/code/gem5-runahead-dev-pre/src/cpu/o3/cpu.cc\<close> 4990-5087): the computation that the helper issues in one
  cycle, from the slots that the main thread leaves. In the vector model it is an attempt of the lane scheduler, or one entry of the
  issue queue when no lane is waiting; in the scalar model it counts down the remaining operations by class.

  The functional units answer by class. In the scalar model several requests of a cycle go to the same class, so the answer
  depends on how many were made before. The result is the number of issues, by which the code also raises the count of compute issues of the
  cycle. \<open>None\<close> stands for a failed assertion.
\<close>

section \<open>Model\<close>

datatype scalar_class = IntAluOp | IntMultOp

record compute_env =
  cp_replay :: replay_env
  cp_decoupled :: bool
  cp_issueWidth :: nat
  cp_mainIssues :: nat
  cp_helperIssues :: nat
  cp_helperIssueWidth :: nat
  cp_units :: "nat \<Rightarrow> scalar_class \<Rightarrow> bool"

definition compute_slots :: "compute_env \<Rightarrow> nat" where
  "compute_slots c =
     (let slots = (if cp_decoupled c then cp_helperIssueWidth c else cp_issueWidth c);
          left = (if cp_decoupled c then slots else slots - cp_mainIssues c)
      in left - cp_helperIssues c)"

definition kind_class :: "compute_kind \<Rightarrow> op_class" where
  "kind_class k = (case k of AddKind \<Rightarrow> SimdAddOp | AluKind \<Rightarrow> SimdAluOp | ShiftKind \<Rightarrow> SimdShiftOp | MultiplyKind \<Rightarrow> SimdMultOp)"

text \<open>The entry at the head of the issue queue.\<close>

definition issue_head :: "replay_env \<Rightarrow> replay_cpu \<Rightarrow> (nat \<times> replay_cpu) option" where
  "issue_head e s =
     (let t = cs_thread s in
      case ht_issueQueue t of
        [] \<Rightarrow> Some (0, s)
      | entry # _ \<Rightarrow>
          if ht_readyUops t = 0 \<or> \<not> HT_issueQueueReady (en_now e) t then Some (0, s)
          else if \<not> en_vectorUnlimitedFU e \<and> en_now e < cs_nextIssueTick s then Some (0, s)
          else
            (case (if en_vectorUnlimitedFU e then Some 1 else en_fu e (kind_class (ie_kind entry))) of
               None \<Rightarrow> Some (0, s)
             | Some latency \<Rightarrow>
                 (let next_tick = (if en_vectorUnlimitedFU e then cs_nextIssueTick s
                                   else en_now e + of_nat (max 1 (en_issueInterval e)) * en_clockPeriod e)
                  in map_option (\<lambda>t1. (1, s\<lparr>cs_thread := t1, cs_nextIssueTick := next_tick\<rparr>))
                       (HT_issueCompute (en_now e + of_nat latency * en_clockPeriod e) t))))"

text \<open>The loop over one class: requests made so far, operations left, slots left.\<close>

fun issue_class :: "(nat \<Rightarrow> scalar_class \<Rightarrow> bool) \<Rightarrow> scalar_class \<Rightarrow> nat \<Rightarrow> nat \<Rightarrow> u32 \<Rightarrow> nat \<times> nat \<times> u32" where
  "issue_class units c 0 requests remaining = (requests, 0, remaining)"
| "issue_class units c (Suc slots) requests remaining =
     (if remaining = 0 then (requests, Suc slots, remaining)
      else if \<not> units requests c then (requests + 1, Suc slots, remaining)
      else issue_class units c slots (requests + 1) (remaining - 1))"

definition issue_scalar :: "(nat \<Rightarrow> scalar_class \<Rightarrow> bool) \<Rightarrow> nat \<Rightarrow> helper_thread \<Rightarrow> nat \<times> helper_thread" where
  "issue_scalar units slots t =
     (let (r1, s1, alu) = issue_class units IntAluOp slots 0 (ht_aluRemaining t);
          (r2, s2, shift) = issue_class units IntAluOp s1 r1 (ht_shiftRemaining t);
          (r3, s3, mult) = issue_class units IntMultOp s2 r2 (ht_multiplyRemaining t)
      in (slots - s3, t\<lparr>ht_aluRemaining := alu, ht_shiftRemaining := shift, ht_multiplyRemaining := mult\<rparr>))"

definition issueDVRHelperCompute :: "compute_env \<Rightarrow> replay_cpu \<Rightarrow> (nat \<times> replay_cpu) option" where
  "issueDVRHelperCompute c s =
     (let slots = compute_slots c; e = cp_replay c in
      if slots = 0 then Some (0, s)
      else if en_vectorChunkModel e
      then
        (let s1 = s\<lparr>cs_thread := snd (HT_refillComputeReady (en_programs e) (cs_thread s))\<rparr> in
         if ht_replayLanes (cs_thread s1) \<noteq> [] then issueDVRReplayLanes e slots s1
         else issue_head e (s1\<lparr>cs_thread := HT_refillIssueQueue (en_programs e) (cs_thread s1)\<rparr>))
      else (let (n, t) = issue_scalar (cp_units c) slots (cs_thread s) in Some (n, s\<lparr>cs_thread := t\<rparr>)))"

section \<open>Slots\<close>

lemma refill_step_model: "refill_step programs t = Some t' \<Longrightarrow> ht_vectorChunkModel t' = ht_vectorChunkModel t \<and> ht_replayLanes t' = ht_replayLanes t"
  by (auto simp: refill_step_def Let_def split: list.splits option.splits if_splits)

lemma refill_loop_model: "ht_vectorChunkModel (refill_loop programs t) = ht_vectorChunkModel t \<and> ht_replayLanes (refill_loop programs t) = ht_replayLanes t"
proof (induction programs t rule: refill_loop.induct)
  case (1 programs t)
  show ?case
  proof (cases "refill_step programs t")
    case None
    then show ?thesis by (simp add: refill_loop.simps)
  next
    case (Some t')
    then show ?thesis using 1 [OF Some] refill_step_model [OF Some] by (simp add: refill_loop.simps)
  qed
qed

lemma refill_model [simp]:
  "ht_vectorChunkModel (HT_refillIssueQueue programs t) = ht_vectorChunkModel t"
  "ht_vectorChunkModel (snd (HT_refillComputeReady programs t)) = ht_vectorChunkModel t"
  by (simp_all add: HT_refillIssueQueue_def HT_refillComputeReady_def refill_loop_model Let_def)

lemma attempt_count: "issueDVRReplayLanes e slots s = Some (n, s') \<Longrightarrow> n \<le> slots \<and> n \<le> 1"
proof -
  assume a: "issueDVRReplayLanes e slots s = Some (n, s')"
  obtain lanes grp where f0: "formed_lanes e s = (lanes, grp)" by fastforce
  from a f0 show ?thesis
  proof (cases rule: attempt_cases)
    case (group_formed f)
    from group_formed(3) have "n \<le> 1" by (cases rule: issue_formed_cases) (auto dest: granted_counters)
    then show ?thesis using group_formed(4) by simp
  qed simp_all
qed

lemma issue_head_some:
  assumes "ht_vectorChunkModel (cs_thread s)"
  shows "\<exists>n s'. issue_head e s = Some (n, s') \<and> n \<le> 1"
proof (cases "ht_issueQueue (cs_thread s)")
  case (Cons entry rest)
  have "HT_issueCompute tk (cs_thread s) \<noteq> None" if "ht_readyUops (cs_thread s) \<noteq> 0" for tk
    using assms that by (simp add: HT_issueCompute_def Cons Let_def)
  then show ?thesis by (auto simp: issue_head_def Cons Let_def split: option.split)
qed (simp add: issue_head_def)

lemma issue_class_bounds:
  assumes "issue_class units c slots r remaining = (r', slots', remaining')"
  shows "slots' \<le> slots \<and> unat remaining = unat remaining' + (slots - slots')"
  using assms
proof (induction slots arbitrary: r remaining)
  case (Suc slots)
  show ?case
  proof (cases "remaining = 0 \<or> \<not> units r c")
    case True
    then show ?thesis using Suc.prems by (auto split: if_splits)
  next
    case False
    then have i: "issue_class units c slots (r + 1) (remaining - 1) = (r', slots', remaining')" using Suc.prems by simp
    have "unat (remaining - 1) + 1 = unat remaining" using False unat_minus_one [of remaining] unat_gt_0 [of remaining] by simp
    then show ?thesis using Suc.IH [OF i] by auto
  qed
qed simp

lemma issue_scalar_bounds:
  assumes "issue_scalar units slots t = (n, t')"
  shows "n \<le> slots \<and> unat (ht_aluRemaining t) + unat (ht_shiftRemaining t) + unat (ht_multiplyRemaining t) =
    n + unat (ht_aluRemaining t') + unat (ht_shiftRemaining t') + unat (ht_multiplyRemaining t')"
proof -
  obtain r1 s1 alu where a: "issue_class units IntAluOp slots 0 (ht_aluRemaining t) = (r1, s1, alu)" by (metis prod_cases3)
  obtain r2 s2 sh where b: "issue_class units IntAluOp s1 r1 (ht_shiftRemaining t) = (r2, s2, sh)" by (metis prod_cases3)
  obtain r3 s3 mu where c: "issue_class units IntMultOp s2 r2 (ht_multiplyRemaining t) = (r3, s3, mu)" by (metis prod_cases3)
  have "n = slots - s3" "ht_aluRemaining t' = alu" "ht_shiftRemaining t' = sh" "ht_multiplyRemaining t' = mu"
    using assms by (auto simp: issue_scalar_def a b c)
  then show ?thesis using issue_class_bounds [OF a] issue_class_bounds [OF b] issue_class_bounds [OF c] by auto
qed

section \<open>Properties\<close>


definition shared_slot :: compute_env where
  "shared_slot = \<lparr>cp_replay = join_env\<lparr>en_vectorChunkModel := False\<rparr>, cp_decoupled = False, cp_issueWidth = 4, cp_mainIssues = 3, cp_helperIssues = 0,
     cp_helperIssueWidth = 4, cp_units = (\<lambda>n c. True)\<rparr>"


end
