(* ===== verification/DVR_Relation.thy ===== *)
theory DVR_Relation
  imports DVR_Replay
begin

unbundle bit_operations_syntax

text \<open>
  \<open>CPU::trainDVRAddressRelation\<close> (\<open>src/code/gem5-runahead-dev-pre/src/cpu/o3/cpu.cc\<close> 5951-5995): the affine relations between
  the value a trigger load returns and the address of a dependent load, one per pair of PCs, with the
  bits all values share and the range of the addresses. The scheduler checks replayed addresses against them.

  The two operations on which C++ gives no result (\<open>INT64_MIN % -1\<close>, which traps, and the absolute value of
  \<open>INT64_MIN\<close>) are a \<open>None\<close> result; products and sums of 64-bit values wrap.
\<close>

section \<open>Model\<close>

definition new_relation :: address_relation where
  "new_relation = \<lparr>ar_hasPrevious = False, ar_trained = False, ar_previousValue = 0, ar_previousAddress = 0, ar_scale = 0,
     ar_offset = 0, ar_stableMask = NOT 0, ar_pattern = 0, ar_minAddress = 0, ar_maxAddress = 0, ar_samples = 0\<rparr>"

record relation_table =
  at_relations :: "addr \<times> addr \<rightharpoonup> address_relation"
  at_triggerRelations :: "addr \<Rightarrow> addr list"
  at_dependentLoadPCs :: "addr set"

definition new_table :: relation_table where
  "new_table = \<lparr>at_relations = Map.empty, at_triggerRelations = (\<lambda>pc. []), at_dependentLoadPCs = {}\<rparr>"

definition relation_sample :: "reg_val \<Rightarrow> addr \<Rightarrow> address_relation \<Rightarrow> address_relation" where
  "relation_sample v a r =
     (let r1 = (if ar_samples r = 0 then r\<lparr>ar_pattern := v, ar_minAddress := a, ar_maxAddress := a\<rparr>
                else
                  (let m = ar_stableMask r AND NOT (ar_previousValue r XOR v)
                   in r\<lparr>ar_stableMask := m, ar_pattern := ar_pattern r AND m, ar_minAddress := min (ar_minAddress r) a,
                        ar_maxAddress := max (ar_maxAddress r) a\<rparr>))
      in r1\<lparr>ar_samples := ar_samples r1 + 1\<rparr>)"

definition relation_learn :: "reg_val \<Rightarrow> addr \<Rightarrow> address_relation \<Rightarrow> address_relation option" where
  "relation_learn v a r =
     (if \<not> ar_hasPrevious r \<or> v = ar_previousValue r then Some r
      else
        (let value_delta = v - ar_previousValue r; address_delta = a - ar_previousAddress r in
         if value_delta = - 1 \<and> address_delta = int64_min then None
         else if sint address_delta smod sint value_delta \<noteq> 0 then Some r
         else
           (let scale = word_of_int (sint address_delta sdiv sint value_delta) :: i64 in
            if scale = int64_min then None
            else if scale \<noteq> 0 \<and> \<bar>sint scale\<bar> \<le> 4096
            then Some (r\<lparr>ar_scale := scale, ar_offset := a - scale * v, ar_trained := True\<rparr>)
            else Some r)))"

definition relation_train :: "reg_val \<Rightarrow> addr \<Rightarrow> address_relation \<Rightarrow> address_relation option" where
  "relation_train v a r =
     map_option (\<lambda>r2. r2\<lparr>ar_hasPrevious := True, ar_previousValue := v, ar_previousAddress := a\<rparr>)
       (relation_learn v a (relation_sample v a r))"

definition trainDVRAddressRelation :: "addr \<Rightarrow> addr \<Rightarrow> reg_val \<Rightarrow> addr \<Rightarrow> relation_table \<Rightarrow> relation_table option" where
  "trainDVRAddressRelation trigger_pc flr_pc v a t =
     (let r = (case at_relations t (trigger_pc, flr_pc) of None \<Rightarrow> new_relation | Some r \<Rightarrow> r);
          l = at_triggerRelations t trigger_pc
      in map_option (\<lambda>r1. t\<lparr>at_dependentLoadPCs := insert flr_pc (at_dependentLoadPCs t),
             at_relations := (at_relations t)((trigger_pc, flr_pc) \<mapsto> r1),
             at_triggerRelations := (at_triggerRelations t)(trigger_pc := if flr_pc \<in> set l then l else l @ [flr_pc])\<rparr>)
           (relation_train v a r))"

text \<open>A sequence of samples.\<close>

fun relation_trains :: "(reg_val \<times> addr) list \<Rightarrow> address_relation \<Rightarrow> address_relation option" where
  "relation_trains [] r = Some r"
| "relation_trains ((v, a) # xs) r = (case relation_train v a r of None \<Rightarrow> None | Some r1 \<Rightarrow> relation_trains xs r1)"

section \<open>What the samples have in common\<close>

definition law :: "address_relation \<Rightarrow> reg_val \<times> addr \<Rightarrow> bool" where
  "law r x \<longleftrightarrow> snd x = ar_scale r * fst x + ar_offset r"

text \<open>A relation that has seen the samples \<open>xs\<close>, the latest first.\<close>

definition seen :: "(reg_val \<times> addr) list \<Rightarrow> address_relation \<Rightarrow> bool" where
  "seen xs r \<longleftrightarrow> ar_samples r = of_nat (length xs) \<and> ar_hasPrevious r = (xs \<noteq> []) \<and>
     (xs \<noteq> [] \<longrightarrow> hd xs = (ar_previousValue r, ar_previousAddress r)) \<and> (xs = [] \<longrightarrow> r = new_relation) \<and>
     (\<forall>x \<in> set xs. fst x AND ar_stableMask r = ar_pattern r AND ar_stableMask r \<and> ar_minAddress r \<le> snd x \<and> snd x \<le> ar_maxAddress r) \<and>
     (ar_trained r \<longrightarrow> 0 < \<bar>sint (ar_scale r)\<bar> \<and> \<bar>sint (ar_scale r)\<bar> \<le> 4096 \<and>
        (\<exists>us x y ws. xs = us @ y # x # ws \<and> fst x \<noteq> fst y \<and> law r x \<and> law r y))"

lemma masked_agree:
  fixes v w :: "'a::len word"
  assumes "w AND m = p AND m"
  shows "w AND (m AND NOT (w XOR v)) = (p AND (m AND NOT (w XOR v))) AND (m AND NOT (w XOR v))"
    and "v AND (m AND NOT (w XOR v)) = (p AND (m AND NOT (w XOR v))) AND (m AND NOT (w XOR v))"
proof -
  have b: "bit m n \<Longrightarrow> n < LENGTH('a) \<Longrightarrow> bit w n = bit p n" for n using assms by (metis bit_and_iff)
  show "w AND (m AND NOT (w XOR v)) = (p AND (m AND NOT (w XOR v))) AND (m AND NOT (w XOR v))"
    by (rule bit_word_eqI) (use b in \<open>auto simp: bit_simps\<close>)
  show "v AND (m AND NOT (w XOR v)) = (p AND (m AND NOT (w XOR v))) AND (m AND NOT (w XOR v))"
    by (rule bit_word_eqI) (use b in \<open>auto simp: bit_simps\<close>)
qed

lemma masked_weaken:
  fixes x m p k :: "'a::len word"
  assumes "x AND m = p AND m"
  shows "x AND (m AND k) = (p AND (m AND k)) AND (m AND k)"
proof -
  have "bit m n \<Longrightarrow> bit x n = bit p n" for n using assms by (metis bit_and_iff)
  then show ?thesis by (intro bit_word_eqI) (auto simp: bit_simps)
qed

text \<open>The scale and offset computed from two samples fit both.\<close>

lemma learned_law:
  fixes v w a b :: "64 word"
  assumes "sint (a - b) smod sint (v - w) = 0"
  defines "s \<equiv> word_of_int (sint (a - b) sdiv sint (v - w))"
  shows "b = s * w + (a - s * v)"
proof -
  have "sint (a - b) sdiv sint (v - w) * sint (v - w) = sint (a - b)" using sdiv_mult_smod_eq [of "sint (a - b)" "sint (v - w)"] assms(1) by simp
  then have "word_of_int (sint (a - b) sdiv sint (v - w) * sint (v - w)) = (word_of_int (sint (a - b)) :: 64 word)" by simp
  then have "s * (v - w) = a - b" unfolding s_def by (simp flip: wi_hom_mult)
  then show ?thesis by (simp add: algebra_simps)
qed

lemma sample_common:
  fixes v :: reg_val and a :: addr and r :: address_relation
  assumes sn: "seen xs r" and len: "length xs < 2 ^ 32"
  defines "r1 \<equiv> relation_sample v a r"
  shows "x \<in> insert (v, a) (set xs) \<Longrightarrow> fst x AND ar_stableMask r1 = ar_pattern r1 AND ar_stableMask r1 \<and> ar_minAddress r1 \<le> snd x \<and> snd x \<le> ar_maxAddress r1"
    and "ar_samples r1 = of_nat (length xs) + 1"
    and "ar_hasPrevious r1 = ar_hasPrevious r" "ar_previousValue r1 = ar_previousValue r" "ar_previousAddress r1 = ar_previousAddress r"
      "ar_trained r1 = ar_trained r" "ar_scale r1 = ar_scale r" "ar_offset r1 = ar_offset r"
proof -
  have s0: "ar_samples r = 0 \<longleftrightarrow> xs = []"
  proof -
    have "unat (of_nat (length xs) :: u32) = length xs" using len by (simp add: unat_of_nat take_bit_nat_eq_self)
    then have "(of_nat (length xs) :: u32) = 0 \<longleftrightarrow> length xs = 0" unfolding unat_eq_0 [symmetric] by simp
    then show ?thesis using sn by (simp add: seen_def)
  qed
  show "ar_samples r1 = of_nat (length xs) + 1"
    using sn by (simp add: r1_def relation_sample_def seen_def Let_def)
  show "ar_hasPrevious r1 = ar_hasPrevious r" "ar_previousValue r1 = ar_previousValue r" "ar_previousAddress r1 = ar_previousAddress r"
      "ar_trained r1 = ar_trained r" "ar_scale r1 = ar_scale r" "ar_offset r1 = ar_offset r"
    by (simp_all add: r1_def relation_sample_def Let_def)
  assume x: "x \<in> insert (v, a) (set xs)"
  show "fst x AND ar_stableMask r1 = ar_pattern r1 AND ar_stableMask r1 \<and> ar_minAddress r1 \<le> snd x \<and> snd x \<le> ar_maxAddress r1"
  proof (cases "xs = []")
    case True
    then show ?thesis using x s0 by (simp add: r1_def relation_sample_def Let_def)
  next
    case False
    let ?w = "ar_previousValue r" and ?m = "ar_stableMask r" and ?p = "ar_pattern r"
    let ?m1 = "?m AND NOT (?w XOR v)"
    have r1: "ar_stableMask r1 = ?m1" "ar_pattern r1 = ?p AND ?m1" "ar_minAddress r1 = min (ar_minAddress r) a" "ar_maxAddress r1 = max (ar_maxAddress r) a"
      using False s0 by (simp_all add: r1_def relation_sample_def Let_def)
    have old: "y \<in> set xs \<Longrightarrow> fst y AND ?m = ?p AND ?m \<and> ar_minAddress r \<le> snd y \<and> snd y \<le> ar_maxAddress r" for y
      using sn by (simp add: seen_def)
    have h: "?w AND ?m = ?p AND ?m" using old [of "hd xs"] sn False by (simp add: seen_def)
    from x consider "x = (v, a)" | "x \<in> set xs" by blast
    then show ?thesis
    proof cases
      case 1
      then show ?thesis using masked_agree(2) [OF h, of v] unfolding r1 by simp
    next
      case 2
      then show ?thesis using masked_weaken [of "fst x" ?m ?p "NOT (?w XOR v)"] old [OF 2] unfolding r1 by (simp add: min.coboundedI1 max.coboundedI1)
    qed
  qed
qed

lemma train_seen:
  assumes sn: "seen xs r" and len: "length xs < 2 ^ 32" and t: "relation_train v a r = Some r'"
  shows "seen ((v, a) # xs) r'"
proof -
  let ?r1 = "relation_sample v a r"
  obtain r2 where l: "relation_learn v a ?r1 = Some r2" and r': "r' = r2\<lparr>ar_hasPrevious := True, ar_previousValue := v, ar_previousAddress := a\<rparr>"
    using t by (auto simp: relation_train_def)
  note S = sample_common [OF sn len, where v = v and a = a]
  have k: "ar_samples r2 = ar_samples ?r1" "ar_stableMask r2 = ar_stableMask ?r1" "ar_pattern r2 = ar_pattern ?r1"
      "ar_minAddress r2 = ar_minAddress ?r1" "ar_maxAddress r2 = ar_maxAddress ?r1"
    using l unfolding relation_learn_def Let_def by (auto split: if_splits)
  have "0 < \<bar>sint (ar_scale r2)\<bar> \<and> \<bar>sint (ar_scale r2)\<bar> \<le> 4096 \<and> (\<exists>us x y ws. (v, a) # xs = us @ y # x # ws \<and> fst x \<noteq> fst y \<and> law r2 x \<and> law r2 y)"
    if tr: "ar_trained r2"
  proof (cases "r2 = ?r1")
    case True
    then have "ar_trained r" using tr S(6) by simp
    then obtain us x y ws where "0 < \<bar>sint (ar_scale r)\<bar>" "\<bar>sint (ar_scale r)\<bar> \<le> 4096" "xs = us @ y # x # ws" "fst x \<noteq> fst y" "law r x" "law r y"
      using sn unfolding seen_def by blast
    moreover have "(v, a) # xs = ((v, a) # us) @ y # x # ws" using calculation(3) by simp
    ultimately show ?thesis using True S(7,8) unfolding law_def by metis
  next
    case False
    let ?w = "ar_previousValue r" and ?b = "ar_previousAddress r"
    let ?s = "word_of_int (sint (a - ?b) sdiv sint (v - ?w)) :: i64"
    have n: "ar_hasPrevious r" "v \<noteq> ?w" "sint (a - ?b) smod sint (v - ?w) = 0" "?s \<noteq> 0" "\<bar>sint ?s\<bar> \<le> 4096"
        "r2 = ?r1\<lparr>ar_scale := ?s, ar_offset := a - ?s * v, ar_trained := True\<rparr>"
      using l False unfolding relation_learn_def Let_def S(3-5) by (auto split: if_splits)
    have "law r2 (?w, ?b)" "law r2 (v, a)" using learned_law [OF n(3)] unfolding n(6) law_def by simp_all
    moreover have "(v, a) # xs = [] @ (v, a) # (?w, ?b) # tl xs" using sn n(1) by (cases xs) (auto simp: seen_def)
    moreover have "sint ?s \<noteq> 0" using n(4) by (simp only: signed_eq_0_iff not_False_eq_True)
    then have "0 < \<bar>sint (ar_scale r2)\<bar>" "\<bar>sint (ar_scale r2)\<bar> \<le> 4096" using n(5,6) by simp_all
    ultimately show ?thesis using n(2) by (metis fst_conv)
  qed
  moreover have "law r' = law r2" unfolding r' by (simp add: law_def fun_eq_iff)
  ultimately show ?thesis using S(1,2) k unfolding seen_def r' by simp
qed

section \<open>When training returns\<close>

lemma sint_below_half: "- (2 ^ 63) \<le> z \<Longrightarrow> z < 2 ^ 63 \<Longrightarrow> sint (word_of_int z :: 64 word) = z"
  by (simp add: sint_of_int wrap_def)

lemma sint_min: "sint int64_min = - (2 ^ 63)"
  unfolding int64_min_def by (rule sint_below_half) simp_all

lemma user_delta:
  fixes a b :: addr
  assumes "a < 2 ^ 47" "b < 2 ^ 47"
  shows "\<bar>sint (a - b)\<bar> < 2 ^ 47"
proof -
  have u: "uint a < 2 ^ 47" "uint b < 2 ^ 47" using assms by (simp_all add: word_less_def)
  have "a - b = word_of_int (uint a - uint b)" by (simp flip: wi_hom_sub)
  moreover have "sint (word_of_int (uint a - uint b) :: 64 word) = uint a - uint b"
    by (rule sint_below_half) (use u uint_ge_0 [of a] uint_ge_0 [of b] power_increasing [of 47 63 "2 :: int"] in linarith)+
  ultimately have "sint (a - b) = uint a - uint b" by simp
  then show ?thesis using u uint_ge_0 [of a] uint_ge_0 [of b] by linarith
qed

lemma sdiv_le: "\<bar>x sdiv y\<bar> \<le> \<bar>x\<bar>" for x y :: int
proof -
  have "\<bar>x sdiv y\<bar> \<le> \<bar>x\<bar> div \<bar>y\<bar>" by (simp add: signed_divide_int_def abs_mult abs_sgn_eq pos_imp_zdiv_nonneg_iff)
  also have "\<dots> \<le> \<bar>x\<bar>" using zdiv_mono2 [of "\<bar>x\<bar>" 1 "\<bar>y\<bar>"] by (cases "y = 0") simp_all
  finally show ?thesis .
qed

lemma train_total:
  assumes "ar_hasPrevious r \<longrightarrow> ar_previousAddress r < 2 ^ 47" "a < 2 ^ 47"
  shows "relation_train v a r \<noteq> None"
proof (cases "ar_hasPrevious r")
  case False
  then show ?thesis by (simp add: relation_train_def relation_learn_def relation_sample_def Let_def)
next
  case True
  let ?d = "a - ar_previousAddress r" and ?vd = "v - ar_previousValue r"
  have d: "\<bar>sint ?d\<bar> < 2 ^ 47" using user_delta assms True by simp
  have "?d \<noteq> int64_min"
  proof
    assume "?d = int64_min"
    then have "sint ?d = - (2 ^ 63)" using sint_min by (simp only:)
    then show False using d by simp
  qed
  moreover have "word_of_int (sint ?d sdiv sint ?vd) \<noteq> int64_min"
  proof
    assume e: "word_of_int (sint ?d sdiv sint ?vd) = int64_min"
    have "\<bar>sint ?d sdiv sint ?vd\<bar> < 2 ^ 47" using d sdiv_le [of "sint ?d" "sint ?vd"] by linarith
    then have "sint (word_of_int (sint ?d sdiv sint ?vd) :: 64 word) = sint ?d sdiv sint ?vd" by (intro sint_below_half) simp_all
    then show False using e sint_min \<open>\<bar>sint ?d sdiv sint ?vd\<bar> < 2 ^ 47\<close> by simp
  qed
  ultimately show ?thesis by (simp add: relation_train_def relation_learn_def relation_sample_def Let_def)
qed

section \<open>Affine samples\<close>

lemma affine_delta:
  fixes s v w :: "64 word"
  assumes b: "\<bar>sint s\<bar> * \<bar>sint (v - w)\<bar> < 2 ^ 63" and ne: "v \<noteq> w"
  shows "sint (s * (v - w)) smod sint (v - w) = 0" and "sint (s * (v - w)) sdiv sint (v - w) = sint s"
    and "\<not> (v - w = - 1 \<and> s * (v - w) = int64_min)"
proof -
  have "sint (s * (v - w)) = wrap 64 (sint s * sint (v - w))" using sint_arith(3) [of s "v - w"] by simp
  moreover have "\<bar>sint s * sint (v - w)\<bar> < 2 ^ 63" using b by (simp add: abs_mult)
  ultimately have e: "sint (s * (v - w)) = sint s * sint (v - w)" "\<bar>sint (s * (v - w))\<bar> < 2 ^ 63" by (simp_all add: wrap_def)
  have nz: "sint (v - w) \<noteq> 0" using ne by (simp add: signed_eq_0_iff)
  show "sint (s * (v - w)) smod sint (v - w) = 0" unfolding e(1) by (simp add: signed_modulo_int_def abs_mult)
  show "sint (s * (v - w)) sdiv sint (v - w) = sint s"
    unfolding e(1) using nz by (cases "0 < sint (v - w)") (simp_all add: signed_divide_int_def abs_mult sgn_mult sgn_mult_abs)
  show "\<not> (v - w = - 1 \<and> s * (v - w) = int64_min)" using e(2) sint_min by auto
qed

definition affine :: "i64 \<Rightarrow> i64 \<Rightarrow> (reg_val \<times> addr) list \<Rightarrow> bool" where
  "affine s off xs \<longleftrightarrow> (\<forall>x \<in> set xs. snd x = s * fst x + off) \<and>
     (\<forall>i. Suc i < length xs \<longrightarrow> \<bar>sint s\<bar> * \<bar>sint (fst (xs ! Suc i) - fst (xs ! i))\<bar> < 2 ^ 63)"

lemma learn_affine:
  assumes s: "s \<noteq> 0" "\<bar>sint s\<bar> \<le> 4096" and a: "a = s * v + off" "ar_previousAddress r = s * ar_previousValue r + off"
    and b: "\<bar>sint s\<bar> * \<bar>sint (v - ar_previousValue r)\<bar> < 2 ^ 63" and p: "ar_hasPrevious r" "v \<noteq> ar_previousValue r"
  shows "relation_learn v a r = Some (r\<lparr>ar_scale := s, ar_offset := off, ar_trained := True\<rparr>)"
proof -
  have d: "a - ar_previousAddress r = s * (v - ar_previousValue r)" unfolding a by (simp add: algebra_simps)
  note A = affine_delta [OF b p(2)]
  have "s \<noteq> int64_min" using s(2) sint_min by auto
  then show ?thesis unfolding relation_learn_def Let_def d using A p s a(1) by auto
qed

lemma trains_affine:
  assumes s: "s \<noteq> 0" "\<bar>sint s\<bar> \<le> 4096" and xs: "affine s off ((ar_previousValue r, ar_previousAddress r) # xs)" and p: "ar_hasPrevious r"
  shows "\<exists>r'. relation_trains xs r = Some r' \<and>
    (ar_trained r \<and> ar_scale r = s \<and> ar_offset r = off \<or> (\<exists>x \<in> set xs. fst x \<noteq> ar_previousValue r) \<longrightarrow>
       ar_trained r' \<and> ar_scale r' = s \<and> ar_offset r' = off)"
  using xs p
proof (induction xs arbitrary: r)
  case (Cons x xs)
  obtain v a where x: "x = (v, a)" by (cases x)
  let ?r1 = "relation_sample v a r"
  have k: "ar_hasPrevious ?r1 = ar_hasPrevious r" "ar_previousValue ?r1 = ar_previousValue r" "ar_previousAddress ?r1 = ar_previousAddress r"
      "ar_trained ?r1 = ar_trained r" "ar_scale ?r1 = ar_scale r" "ar_offset ?r1 = ar_offset r"
    by (simp_all add: relation_sample_def Let_def)
  have eq: "a = s * v + off" "ar_previousAddress r = s * ar_previousValue r + off" using Cons.prems(1) x by (auto simp: affine_def)
  have b: "\<bar>sint s\<bar> * \<bar>sint (v - ar_previousValue r)\<bar> < 2 ^ 63"
    using Cons.prems(1) x by (force simp: affine_def)
  have tl: "affine s off ((v, a) # xs)"
    using Cons.prems(1) x unfolding affine_def by (metis (no_types, lifting) Suc_less_eq length_Cons list.set_intros(2) nth_Cons_Suc)
  obtain r2 where l: "relation_learn v a ?r1 = Some r2" and
    t: "ar_trained r \<and> ar_scale r = s \<and> ar_offset r = off \<or> v \<noteq> ar_previousValue r \<longrightarrow> ar_trained r2 \<and> ar_scale r2 = s \<and> ar_offset r2 = off"
  proof (cases "v = ar_previousValue r")
    case True
    then have "relation_learn v a ?r1 = Some ?r1" using k by (simp add: relation_learn_def)
    then show thesis using that True k by auto
  next
    case False
    then have "relation_learn v a ?r1 = Some (?r1\<lparr>ar_scale := s, ar_offset := off, ar_trained := True\<rparr>)"
      using learn_affine [OF s eq(1), of ?r1] eq(2) b Cons.prems(2) k by simp
    then show thesis using that by simp
  qed
  let ?r' = "r2\<lparr>ar_hasPrevious := True, ar_previousValue := v, ar_previousAddress := a\<rparr>"
  have tr: "relation_train v a r = Some ?r'" using l by (simp add: relation_train_def)
  have "affine s off ((ar_previousValue ?r', ar_previousAddress ?r') # xs)" "ar_hasPrevious ?r'" using tl by simp_all
  from Cons.IH [OF this] obtain r' where r': "relation_trains xs ?r' = Some r'"
    "ar_trained r2 \<and> ar_scale r2 = s \<and> ar_offset r2 = off \<or> (\<exists>x \<in> set xs. fst x \<noteq> v) \<longrightarrow> ar_trained r' \<and> ar_scale r' = s \<and> ar_offset r' = off"
    by auto
  have "relation_trains (x # xs) r = Some r'" using x tr r'(1) by simp
  moreover have "ar_trained r' \<and> ar_scale r' = s \<and> ar_offset r' = off"
    if "ar_trained r \<and> ar_scale r = s \<and> ar_offset r = off \<or> (\<exists>y \<in> set (x # xs). fst y \<noteq> ar_previousValue r)"
    using that t r'(2) x by fastforce
  ultimately show ?case by blast
qed simp

section \<open>The table\<close>

text \<open>Samples of all pairs, in the order in which they are trained, and those of one pair.\<close>

fun table_trains :: "(addr \<times> addr \<times> reg_val \<times> addr) list \<Rightarrow> relation_table \<Rightarrow> relation_table option" where
  "table_trains [] t = Some t"
| "table_trains ((trig, flr, v, a) # es) t =
     (case trainDVRAddressRelation trig flr v a t of None \<Rightarrow> None | Some t1 \<Rightarrow> table_trains es t1)"

definition samples_of :: "addr \<times> addr \<Rightarrow> (addr \<times> addr \<times> reg_val \<times> addr) list \<Rightarrow> (reg_val \<times> addr) list" where
  "samples_of k es = map (\<lambda>(t, f, x). x) (filter (\<lambda>(t, f, x). (t, f) = k) es)"

definition table_seen :: "(addr \<times> addr \<times> reg_val \<times> addr) list \<Rightarrow> relation_table \<Rightarrow> bool" where
  "table_seen es t \<longleftrightarrow>
     (\<forall>k. case at_relations t k of None \<Rightarrow> samples_of k es = [] | Some r \<Rightarrow> seen (rev (samples_of k es)) r) \<and>
     (\<forall>pc. distinct (at_triggerRelations t pc) \<and> set (at_triggerRelations t pc) = {f. \<exists>x. (pc, f, x) \<in> set es}) \<and>
     at_dependentLoadPCs t = {f. \<exists>pc x. (pc, f, x) \<in> set es}"

lemma seen_new: "seen [] new_relation"
  by (simp add: seen_def new_relation_def)

lemma table_step:
  assumes s: "table_seen es t" and len: "length es < 2 ^ 32" and user: "\<forall>(trig, flr, v, a) \<in> set es. a < 2 ^ 47" "a < 2 ^ 47"
  shows "\<exists>t'. trainDVRAddressRelation trig flr v a t = Some t' \<and> table_seen (es @ [(trig, flr, v, a)]) t'"
proof -
  let ?k = "(trig, flr)"
  define r where "r = (case at_relations t ?k of None \<Rightarrow> new_relation | Some r \<Rightarrow> r)"
  have sr: "seen (rev (samples_of ?k es)) r"
    using s seen_new unfolding table_seen_def r_def by (cases "at_relations t ?k") (fastforce dest: spec [where x = ?k])+
  have l: "length (rev (samples_of ?k es)) < 2 ^ 32" using len by (simp add: samples_of_def le_less_trans [OF length_filter_le])
  have "ar_previousAddress r < 2 ^ 47" if h: "ar_hasPrevious r"
  proof -
    have "rev (samples_of ?k es) \<noteq> []" "hd (rev (samples_of ?k es)) = (ar_previousValue r, ar_previousAddress r)" using sr h by (auto simp: seen_def)
    then have "(ar_previousValue r, ar_previousAddress r) \<in> set (samples_of ?k es)" by (metis hd_in_set set_rev)
    then show ?thesis using user(1) by (auto simp: samples_of_def)
  qed
  then obtain r' where r': "relation_train v a r = Some r'" using train_total [of r a v] user(2) by blast
  have sr': "seen ((v, a) # rev (samples_of ?k es)) r'" by (rule train_seen [OF sr l r'])
  let ?l = "at_triggerRelations t trig"
  let ?t' = "t\<lparr>at_dependentLoadPCs := insert flr (at_dependentLoadPCs t), at_relations := (at_relations t)(?k \<mapsto> r'),
    at_triggerRelations := (at_triggerRelations t)(trig := if flr \<in> set ?l then ?l else ?l @ [flr])\<rparr>"
  have "trainDVRAddressRelation trig flr v a t = Some ?t'" using r' by (simp add: trainDVRAddressRelation_def r_def Let_def)
  moreover have "table_seen (es @ [(trig, flr, v, a)]) ?t'"
  proof -
    have so: "samples_of k (es @ [(trig, flr, v, a)]) = samples_of k es @ (if k = ?k then [(v, a)] else [])" for k by (auto simp: samples_of_def)
    have "case at_relations ?t' k of None \<Rightarrow> samples_of k (es @ [(trig, flr, v, a)]) = [] | Some r \<Rightarrow> seen (rev (samples_of k (es @ [(trig, flr, v, a)]))) r" for k
    proof (cases "k = ?k")
      case True
      then show ?thesis using sr' by (simp add: so)
    next
      case False
      have "case at_relations t k of None \<Rightarrow> samples_of k es = [] | Some r \<Rightarrow> seen (rev (samples_of k es)) r" using s unfolding table_seen_def by blast
      moreover have e: "samples_of k (es @ [(trig, flr, v, a)]) = samples_of k es" "at_relations ?t' k = at_relations t k" using False by (simp_all add: so)
      ultimately show ?thesis unfolding e by blast
    qed
    moreover have "distinct (at_triggerRelations ?t' pc) \<and> set (at_triggerRelations ?t' pc) = {f. \<exists>x. (pc, f, x) \<in> set (es @ [(trig, flr, v, a)])}" for pc
      using s unfolding table_seen_def by (cases "pc = trig") auto
    moreover have "at_dependentLoadPCs ?t' = {f. \<exists>pc x. (pc, f, x) \<in> set (es @ [(trig, flr, v, a)])}" using s unfolding table_seen_def by auto
    ultimately show ?thesis unfolding table_seen_def by blast
  qed
  ultimately show ?thesis by blast
qed

lemma table_trains_seen:
  assumes "table_seen es t" "length es + length fs < 2 ^ 32" "\<forall>(trig, flr, v, a) \<in> set (es @ fs). a < 2 ^ 47"
  shows "\<exists>t'. table_trains fs t = Some t' \<and> table_seen (es @ fs) t'"
  using assms
proof (induction fs arbitrary: es t)
  case (Cons e fs)
  obtain trig flr v a where e: "e = (trig, flr, v, a)" by (cases e)
  obtain t1 where t1: "trainDVRAddressRelation trig flr v a t = Some t1" "table_seen (es @ [e]) t1"
    using table_step [OF Cons.prems(1), of a trig flr v] Cons.prems(2,3) e by auto
  then show ?case using Cons.IH [of "es @ [e]" t1] Cons.prems(2,3) e by simp
qed simp

section \<open>Properties\<close>


definition relation_samples :: "(addr \<times> addr \<times> reg_val \<times> addr) list" where
  "relation_samples = [(0x100, 0x110, 3, 0x8018), (0x100, 0x118, 3, 0x9000), (0x100, 0x110, 5, 0x8028), (0x100, 0x110, 5, 0x8028)]"




end
