(* ===== verification/DVR_Request.thy ===== *)
theory DVR_Request
  imports DVR_Relation DVR_Predicate DVR_Quality
begin

unbundle bit_operations_syntax

text \<open>
  The helper's memory requests (\<open>src/code/gem5-runahead-dev-pre/src/cpu/o3/cpu.cc\<close>): the prefetch queue and its
  service (5090-5334), the responses (5336-5635), the scalar replay of a source value (5672-5876), the start of the helper
  (5637-5670), and the accounting of lanes and demands (3710-3807).

  A packet in flight is a record with the fields of the request and of its sender state. What the
  functions ask of the rest of the simulator is in the environment: the time, the slots that the
  main thread has taken, address translation (\<open>None\<close> is a fault), the two answers of the data port,
  and the address of the new packet, which is its identity for the quality tracker. The vector
  instruction register that a template may carry (\<open>continuation\<close>) feeds only statistics here and is
  left out with them. \<open>None\<close> stands for a failed assertion or an exception of the quality tracker.
\<close>

section \<open>Data\<close>

datatype load_state = Allocated | TranslationFault | Retry | WaitingResponse | Writeback | LoadCompleted | LoadDropped

record load_entry =
  le_virtualAddress :: addr
  le_physicalAddress :: addr
  le_pc :: addr
  le_lane :: nat
  le_tid :: nat
  le_source :: bool
  le_nested :: bool
  le_state :: load_state
  le_allocatedTick :: tick
  le_issueTick :: tick
  le_responseTick :: tick

record predicate_generation =
  pg_generation :: u64
  pg_expectedLanes :: nat
  pg_terminalLanes :: nat
  pg_terminalMask :: lane_mask
  pg_tracker :: lane_predicate_tracker
  pg_divergenceCounted :: bool
  pg_reported :: bool
  pg_sourceTranslationFaulted :: bool

record packet =
  pk_id :: u64
  pk_vaddr :: addr
  pk_paddr :: addr
  pk_bytes :: nat
  pk_pc :: addr
  pk_source :: bool
  pk_oracle :: bool
  pk_loadId :: nat
  pk_issueTick :: tick
  pk_valueResponse :: bool
  pk_sender :: sender_state

record request_env =
  qe_programs :: programs
  qe_now :: tick
  qe_cacheLineSize :: addr
  qe_decoupledIssue :: bool
  qe_issueWidth :: nat
  qe_lsuWidth :: nat
  qe_mainIssues :: nat
  qe_mainALU :: nat
  qe_mainLSU :: nat
  qe_computeIssues :: nat
  qe_freeLoadEntry :: "nat \<Rightarrow> bool"
  qe_translate :: "addr \<Rightarrow> nat \<Rightarrow> addr option"
  qe_tryTiming :: bool
  qe_sendTiming :: bool
  qe_packet :: u64
  qe_vectorChunkModel :: bool
  qe_elementsPerChunk :: nat
  qe_dependentPrefetch :: bool
  qe_maxUops :: u32
  qe_relations :: "addr \<Rightarrow> addr \<Rightarrow> address_relation option"

record request_cpu =
  rc_thread :: helper_thread
  rc_files :: helper_files
  rc_predicates :: "nat \<Rightarrow> predicate_generation"
  rc_quality :: quality_tracker
  rc_queue :: "prefetch_address list"
  rc_queuedAddresses :: "addr set"
  rc_queuedLines :: "addr set"
  rc_outstandingAddresses :: "addr set"
  rc_outstandingLines :: "addr \<rightharpoonup> nat"
  rc_dependentLines :: "addr \<rightharpoonup> nat"
  rc_dependentCompleted :: "addr set"
  rc_completedLines :: "addr \<rightharpoonup> tick"
  rc_alternateLines :: "addr set"
  rc_oracleLines :: "addr set"
  rc_entries :: "nat \<rightharpoonup> load_entry"
  rc_nextLoadId :: nat
  rc_occupancy :: nat
  rc_helperIssues :: nat
  rc_lsuIssues :: nat
  rc_nextHelperId :: u64

definition DvrHelperIssueWidth :: nat where
  "DvrHelperIssueWidth = 4"

definition DvrHelperLoadQueueCapacity :: nat where
  "DvrHelperLoadQueueCapacity = 16"

definition request_line :: "request_env \<Rightarrow> addr \<Rightarrow> addr" where
  "request_line e address = address AND NOT (qe_cacheLineSize e - 1)"

section \<open>Lanes and demands\<close>

definition finishDVRPredicateGeneration :: "bool \<Rightarrow> predicate_generation \<Rightarrow> predicate_generation" where
  "finishDVRPredicateGeneration replaced g =
     (if pg_reported g then g
      else if replaced \<and> pg_terminalLanes g < pg_expectedLanes g then g\<lparr>pg_reported := True\<rparr>
      else if pg_terminalLanes g < pg_expectedLanes g then g
      else g\<lparr>pg_reported := True\<rparr>)"

text \<open>The value is \<open>None\<close> for a lane that ends without one.\<close>

definition retire_generation :: "nat \<Rightarrow> reg_val option \<Rightarrow> predicate_generation \<Rightarrow> predicate_generation" where
  "retire_generation lane value g =
     (if pg_reported g \<or> lane \<ge> pg_expectedLanes g \<or> test_lane (pg_terminalMask g) lane then g
      else
        (let g1 = g\<lparr>pg_terminalMask := set_lane lane (pg_terminalMask g), pg_terminalLanes := pg_terminalLanes g + 1\<rparr>;
             g2 = (case value of
                     None \<Rightarrow> g1
                   | Some v \<Rightarrow>
                       (let tr = snd (Predicate_observe lane v (pg_tracker g1))
                        in g1\<lparr>pg_tracker := tr, pg_divergenceCounted := pg_divergenceCounted g1 \<or> Predicate_divergent tr\<rparr>))
         in finishDVRPredicateGeneration False g2))"

definition retireDVRPredicateLane :: "nat option \<Rightarrow> nat \<Rightarrow> reg_val option \<Rightarrow> request_cpu \<Rightarrow> request_cpu" where
  "retireDVRPredicateLane generation lane value s =
     (case generation of
        None \<Rightarrow> s
      | Some i \<Rightarrow> s\<lparr>rc_predicates := (rc_predicates s)(i := retire_generation lane value (rc_predicates s i))\<rparr>)"

text \<open>A demand load: whether its line was prefetched, and the line then counts no longer.\<close>

definition accountDVRDemand :: "request_env \<Rightarrow> addr \<Rightarrow> request_cpu \<Rightarrow> bool \<times> request_cpu" where
  "accountDVRDemand e address s =
     (let line = request_line e address in
      if rc_completedLines s line \<noteq> None then (True, s\<lparr>rc_completedLines := (rc_completedLines s)(line := None)\<rparr>)
      else (False, s))"

section \<open>Issuing a request\<close>

definition dvrPrefetchBytes :: "programs \<Rightarrow> prefetch_address \<Rightarrow> nat" where
  "dvrPrefetchBytes programs p =
     (case pa_replay p of
        None \<Rightarrow> 1
      | Some r \<Rightarrow>
          (let prog = programs r;
               load_uop = (if pa_source p then Some 0
                           else List.find (\<lambda>i. up_pc (rt_uops prog i) = pa_pc p \<and> up_load (rt_uops prog i)) [0..<rt_count prog])
           in if rt_count prog = 0 then 1
              else (case load_uop of
                      None \<Rightarrow> 1
                    | Some i \<Rightarrow> if up_loadBytes (rt_uops prog i) = 0 then 1 else min (up_loadBytes (rt_uops prog i)) 8)))"

definition bump :: "'a \<Rightarrow> ('a \<rightharpoonup> nat) \<Rightarrow> 'a \<rightharpoonup> nat" where
  "bump k m = m(k \<mapsto> (case m k of None \<Rightarrow> 0 | Some n \<Rightarrow> n) + 1)"

definition drop_one :: "'a \<Rightarrow> ('a \<rightharpoonup> nat) \<Rightarrow> 'a \<rightharpoonup> nat" where
  "drop_one k m = (case m k of None \<Rightarrow> m | Some n \<Rightarrow> if n - 1 = 0 then m(k := None) else m(k \<mapsto> n - 1))"

text \<open>The slots that stop a request before it leaves the queue.\<close>

definition slots_taken :: "request_env \<Rightarrow> prefetch_address \<Rightarrow> request_cpu \<Rightarrow> bool" where
  "slots_taken e p s \<longleftrightarrow> rc_helperIssues s \<ge> DvrHelperIssueWidth \<or>
     \<not> qe_decoupledIssue e \<and> (qe_mainIssues e + rc_helperIssues s + qe_computeIssues e \<ge> qe_issueWidth e \<or> qe_mainALU e \<ge> qe_issueWidth e) \<or>
     qe_mainLSU e + rc_lsuIssues s \<ge> qe_lsuWidth e \<or> rc_occupancy s \<ge> DvrHelperLoadQueueCapacity \<or> \<not> qe_freeLoadEntry e (pa_tid p)"

definition pop_request :: "request_env \<Rightarrow> prefetch_address \<Rightarrow> request_cpu \<Rightarrow> request_cpu" where
  "pop_request e p s =
     s\<lparr>rc_queue := tl (rc_queue s), rc_queuedAddresses := rc_queuedAddresses s - {pa_address p},
       rc_queuedLines := if pa_source p then rc_queuedLines s else rc_queuedLines s - {request_line e (pa_address p)}\<rparr>"

definition push_back_request :: "request_env \<Rightarrow> prefetch_address \<Rightarrow> request_cpu \<Rightarrow> request_cpu" where
  "push_back_request e p s =
     s\<lparr>rc_queue := p # rc_queue s, rc_queuedAddresses := insert (pa_address p) (rc_queuedAddresses s),
       rc_queuedLines := if \<not> pa_source p \<and> \<not> pa_oracle p then insert (request_line e (pa_address p)) (rc_queuedLines s)
                         else rc_queuedLines s\<rparr>"

definition new_entry :: "tick \<Rightarrow> prefetch_address \<Rightarrow> load_entry" where
  "new_entry now p = \<lparr>le_virtualAddress = pa_address p, le_physicalAddress = 0, le_pc = pa_pc p, le_lane = pa_lane p, le_tid = pa_tid p,
     le_source = pa_source p, le_nested = pa_nested p, le_state = Allocated, le_allocatedTick = now, le_issueTick = 0, le_responseTick = 0\<rparr>"

definition allocate_entry :: "request_env \<Rightarrow> prefetch_address \<Rightarrow> request_cpu \<Rightarrow> request_cpu" where
  "allocate_entry e p s =
     (let i = rc_nextLoadId s in
      s\<lparr>rc_nextLoadId := i + 1,
        rc_entries := if rc_entries s i = None then (rc_entries s)(i \<mapsto> new_entry (qe_now e) p) else rc_entries s\<rparr>)"

text \<open>\<open>finish_helper_entry\<close>: the entry takes its last state and leaves the table.\<close>

definition erase_entry :: "nat \<Rightarrow> request_cpu \<Rightarrow> request_cpu" where
  "erase_entry i s = s\<lparr>rc_entries := (rc_entries s)(i := None)\<rparr>"

definition end_lane :: "prefetch_address \<Rightarrow> request_cpu \<Rightarrow> request_cpu" where
  "end_lane p s = (if pa_source p then retireDVRPredicateLane (pa_predicate p) (pa_lane p) None s else s)"

definition fault_generation :: "prefetch_address \<Rightarrow> request_cpu \<Rightarrow> request_cpu" where
  "fault_generation p s =
     (case pa_predicate p of
        Some g \<Rightarrow> if pa_source p then s\<lparr>rc_predicates := (rc_predicates s)(g := (rc_predicates s g)\<lparr>pg_sourceTranslationFaulted := True\<rparr>)\<rparr> else s
      | None \<Rightarrow> s)"

definition new_packet :: "request_env \<Rightarrow> prefetch_address \<Rightarrow> nat \<Rightarrow> addr \<Rightarrow> packet" where
  "new_packet e p i paddr =
     \<lparr>pk_id = qe_packet e, pk_vaddr = pa_address p, pk_paddr = paddr, pk_bytes = dvrPrefetchBytes (qe_programs e) p, pk_pc = pa_pc p,
      pk_source = pa_source p, pk_oracle = pa_oracle p, pk_loadId = i, pk_issueTick = qe_now e,
      pk_valueResponse = (\<not> pa_source p \<and> (case pa_replay p of None \<Rightarrow> False | Some r \<Rightarrow> rt_continuePastFLR (qe_programs e r))),
      pk_sender = \<lparr>sn_nested = pa_nested p, sn_relations = pa_relations p, sn_replay = pa_replay p, sn_helperRegs = pa_helperRegs p,
        sn_predicate = pa_predicate p, sn_lane = pa_lane p, sn_tid = pa_tid p\<rparr>\<rparr>"

text \<open>The packet has been accepted.\<close>

definition account_issue :: "request_env \<Rightarrow> packet \<Rightarrow> request_cpu \<Rightarrow> request_cpu option" where
  "account_issue e k s =
     (case (HT_issue (rc_thread s), Quality_issued (pk_id k) (request_line e (pk_paddr k)) (of_nat (pk_bytes k)) (qe_now e) (rc_quality s)) of
        (Some t, Inr q) \<Rightarrow>
          (let line = request_line e (pk_vaddr k) in
           Some (s\<lparr>rc_thread := t, rc_quality := q, rc_occupancy := rc_occupancy s + 1, rc_helperIssues := rc_helperIssues s + 1,
             rc_lsuIssues := rc_lsuIssues s + 1,
             rc_entries := (case rc_entries s (pk_loadId k) of
                 None \<Rightarrow> rc_entries s
               | Some en \<Rightarrow> (rc_entries s)(pk_loadId k \<mapsto> en\<lparr>le_physicalAddress := pk_paddr k, le_issueTick := qe_now e, le_state := WaitingResponse\<rparr>)),
             rc_outstandingLines := bump line (rc_outstandingLines s),
             rc_outstandingAddresses := insert (pk_vaddr k) (rc_outstandingAddresses s),
             rc_dependentLines := if \<not> pk_source k \<and> \<not> pk_oracle k then bump line (rc_dependentLines s) else rc_dependentLines s\<rparr>))
      | _ \<Rightarrow> None)"

text \<open>A request that has left the queue.\<close>

definition send_request :: "request_env \<Rightarrow> prefetch_address \<Rightarrow> request_cpu \<Rightarrow> (packet option \<times> request_cpu) option" where
  "send_request e p s =
     (let i = rc_nextLoadId s; s1 = allocate_entry e p s; bytes = dvrPrefetchBytes (qe_programs e) p;
          line_offset = pa_address p AND (qe_cacheLineSize e - 1)
      in if unat line_offset + bytes > unat (qe_cacheLineSize e) then Some (None, end_lane p (erase_entry i s1))
         else
           (case qe_translate e (pa_address p) (pa_tid p) of
              None \<Rightarrow> Some (None, end_lane p (erase_entry i (fault_generation p s1)))
            | Some paddr \<Rightarrow>
                if \<not> qe_tryTiming e \<or> \<not> qe_sendTiming e then Some (None, push_back_request e p (erase_entry i s1))
                else (let k = new_packet e p i paddr in map_option (\<lambda>s2. (Some k, s2)) (account_issue e k s1))))"

definition serviceDVRPrefetchRequest :: "request_env \<Rightarrow> request_cpu \<Rightarrow> (packet option \<times> request_cpu) option" where
  "serviceDVRPrefetchRequest e s =
     (case rc_queue s of
        [] \<Rightarrow> Some (None, s)
      | p # _ \<Rightarrow>
          if pa_readyTick p > qe_now e then Some (None, s)
          else
            (let s1 = s\<lparr>rc_thread := snd (HT_wakeForMemoryRequest (rc_thread s))\<rparr> in
             if \<not> HT_canIssue True (rc_thread s1) \<or> slots_taken e p s1 then Some (None, s1)
             else
               (let s2 = pop_request e p s1;
                    masked = (pa_source p \<and> (case pa_predicate p of None \<Rightarrow> False | Some g \<Rightarrow> pg_sourceTranslationFaulted (rc_predicates s2 g)))
                in if masked then Some (None, retireDVRPredicateLane (pa_predicate p) (pa_lane p) None s2)
                   else send_request e p s2)))"

text \<open>The loop of one cycle. Every call has the environment of its moment; the packets come latest first.\<close>

fun service_loop :: "nat \<Rightarrow> (nat \<Rightarrow> request_env) \<Rightarrow> nat \<Rightarrow> packet list \<Rightarrow> request_cpu \<Rightarrow> (packet list \<times> request_cpu) option" where
  "service_loop 0 es n ks s = Some (ks, s)"
| "service_loop (Suc m) es n ks s =
     (if rc_queue s = [] \<or> rc_helperIssues s \<ge> DvrHelperIssueWidth then Some (ks, s)
      else
        (case serviceDVRPrefetchRequest (es n) s of
           None \<Rightarrow> None
         | Some (k, s1) \<Rightarrow>
             (let ks1 = (case k of None \<Rightarrow> ks | Some k' \<Rightarrow> k' # ks) in
              if rc_helperIssues s1 = rc_helperIssues s then Some (ks1, s1) else service_loop m es (n + 1) ks1 s1)))"

definition serviceDVRPrefetchQueue :: "(nat \<Rightarrow> request_env) \<Rightarrow> request_cpu \<Rightarrow> (packet list \<times> request_cpu) option" where
  "serviceDVRPrefetchQueue es s = service_loop DvrHelperIssueWidth es 0 [] s"

section \<open>Values of loads\<close>

definition raw_value :: "8 word list \<Rightarrow> reg_val" where
  "raw_value data = fold (\<lambda>i raw. raw OR push_bit (i * 8) (ucast (data ! i))) [0..<min (length data) 8] 0"

text \<open>The narrowing cast and the extension back, by the semantic of the load.\<close>

fun load_value :: "semantic \<Rightarrow> reg_val \<Rightarrow> reg_val" where
  "load_value LoadByteSigned raw = scast (ucast raw :: 8 word)"
| "load_value LoadByteUnsigned raw = ucast (ucast raw :: 8 word)"
| "load_value LoadHalfSigned raw = scast (ucast raw :: 16 word)"
| "load_value LoadHalfUnsigned raw = ucast (ucast raw :: 16 word)"
| "load_value LoadWordSigned raw = scast (ucast raw :: 32 word)"
| "load_value LoadWordUnsigned raw = ucast (ucast raw :: 32 word)"
| "load_value _ raw = raw"

definition dependent_value :: "programs \<Rightarrow> packet \<Rightarrow> reg_val \<Rightarrow> reg_val" where
  "dependent_value programs k raw =
     (case sn_replay (pk_sender k) of
        None \<Rightarrow> raw
      | Some p \<Rightarrow>
          (case List.find (\<lambda>i. up_pc (rt_uops (programs p) i) = pk_pc k) [1..<rt_count (programs p)] of
             None \<Rightarrow> raw
           | Some i \<Rightarrow> load_value (up_semantic (rt_uops (programs p) i)) raw))"

definition source_value :: "programs \<Rightarrow> packet \<Rightarrow> reg_val \<Rightarrow> reg_val" where
  "source_value programs k raw =
     (case sn_replay (pk_sender k) of
        None \<Rightarrow> raw
      | Some p \<Rightarrow> if rt_count (programs p) = 0 then raw else load_value (up_semantic (rt_uops (programs p) 0)) raw)"

section \<open>Scalar replay of a source value\<close>

definition second_operand_semantics :: "semantic list" where
  "second_operand_semantics = [Add, Sub, And, Or, Xor, ShiftLeft, ShiftRightLogical, ShiftRightArithmetic, Multiply, AddWord, SubWord]"

definition replayed_loads :: "semantic list" where
  "replayed_loads = [LoadAddress, LoadByteSigned, LoadByteUnsigned, LoadHalfSigned, LoadHalfUnsigned, LoadWordSigned, LoadWordUnsigned, LoadDouble]"

text \<open>The second operand: zero unless the semantic is listed or the instruction is a branch. \<open>None\<close> rejects.\<close>

definition walk_source1 :: "uop \<Rightarrow> (nat \<Rightarrow> reg_val) \<Rightarrow> reg_val option" where
  "walk_source1 u regs =
     (if up_semantic u \<in> set second_operand_semantics \<or> up_conditional u
      then (if up_conditional u \<and> up_source1 u < 0 then Some 0
            else if up_source1 u < 0 \<or> up_source1 u \<ge> int HR_NumArchitecturalRegs then None
            else Some (regs (nat (up_source1 u))))
      else Some 0)"

definition walk_find :: "replay_template \<Rightarrow> addr \<Rightarrow> nat option" where
  "walk_find prog pc = List.find (\<lambda>i. up_pc (rt_uops prog i) = pc) [1..<rt_count prog]"

text \<open>
  The interpreter stops at the first load, with its index, its address and whether a branch left the recorded
  path; \<open>None\<close> is a rejected chain. The step budget is the code's own.
\<close>

fun replay_walk :: "replay_template \<Rightarrow> nat \<Rightarrow> nat \<Rightarrow> (nat \<Rightarrow> reg_val) \<Rightarrow> bool \<Rightarrow> (nat \<times> addr \<times> bool) option" where
  "replay_walk prog 0 index regs alternate = None"
| "replay_walk prog (Suc steps) index regs alternate =
     (if index \<ge> rt_scalarCount prog then None
      else
        (let u = rt_uops prog index in
         if up_source0 u \<ge> int HR_NumArchitecturalRegs then None
         else
           (let source0 = (if 0 \<le> up_source0 u then regs (nat (up_source0 u)) else 0) in
            case walk_source1 u regs of
              None \<Rightarrow> None
            | Some source1 \<Rightarrow>
                if up_conditional u
                then
                  (case (if up_tainted u then Uop_evaluateBranch u source0 source1 else Some (up_branchTaken u)) of
                     None \<Rightarrow> None
                   | Some taken \<Rightarrow>
                       (let next_pc = (if taken then up_branchTargetPC u else up_fallthroughPC u);
                            captured = (if up_branchTaken u then up_branchTargetPC u else up_fallthroughPC u)
                        in if next_pc = 0 then None
                           else (case walk_find prog next_pc of
                                   None \<Rightarrow> None
                                 | Some j \<Rightarrow> replay_walk prog steps j regs (alternate \<or> next_pc \<noteq> captured))))
                else if up_control u \<and> up_branchTargetPC u \<noteq> 0
                then
                  (if up_intDestinations u \<noteq> 0 then None
                   else (case walk_find prog (up_branchTargetPC u) of
                           None \<Rightarrow> None
                         | Some j \<Rightarrow> replay_walk prog steps j regs alternate))
                else if skipped u then replay_walk prog steps (index + 1) regs alternate
                else
                  (case Uop_evaluate u source0 source1 of
                     None \<Rightarrow> None
                   | Some result \<Rightarrow>
                       if up_semantic u \<in> set replayed_loads then Some (index, result, alternate)
                       else if up_destination u \<le> 0 \<or> up_destination u \<ge> int HR_NumArchitecturalRegs then None
                       else replay_walk prog steps (index + 1) ((regs(nat (up_destination u) := result))(0 := 0)) alternate))))"

definition line_known :: "addr \<Rightarrow> request_cpu \<Rightarrow> bool" where
  "line_known line s \<longleftrightarrow> line \<in> rc_queuedLines s \<or> rc_dependentLines s line \<noteq> None \<or> line \<in> rc_dependentCompleted s"

definition dependent_address :: "addr \<Rightarrow> addr \<Rightarrow> packet \<Rightarrow> prefetch_address" where
  "dependent_address address pc k =
     \<lparr>pa_address = address, pa_pc = pc, pa_tid = sn_tid (pk_sender k), pa_readyTick = 0, pa_source = False, pa_oracle = False,
      pa_nested = sn_nested (pk_sender k), pa_relations = \<lparr>rel_count = 0, rel_scales = (\<lambda>i. 0), rel_offsets = (\<lambda>i. 0), rel_masks = (\<lambda>i. 0),
        rel_patterns = (\<lambda>i. 0)\<rparr>, pa_replay = None, pa_helperRegs = None, pa_predicate = None, pa_lane = 0\<rparr>"

definition push_dependent :: "request_env \<Rightarrow> prefetch_address \<Rightarrow> request_cpu \<Rightarrow> request_cpu" where
  "push_dependent e p s =
     s\<lparr>rc_queue := p # rc_queue s, rc_queuedAddresses := insert (pa_address p) (rc_queuedAddresses s),
       rc_queuedLines := insert (request_line e (pa_address p)) (rc_queuedLines s)\<rparr>"

definition user_address :: "addr \<Rightarrow> bool" where
  "user_address a \<longleftrightarrow> 4096 \<le> a \<and> a < push_bit 47 1"

text \<open>The trained relation of this load, if there is one, must give the same address.\<close>

definition relation_agrees :: "request_env \<Rightarrow> addr \<Rightarrow> addr \<Rightarrow> reg_val \<Rightarrow> addr \<Rightarrow> bool" where
  "relation_agrees e trigger_pc pc value address \<longleftrightarrow>
     (case qe_relations e trigger_pc pc of
        None \<Rightarrow> True
      | Some r \<Rightarrow> \<not> ar_trained r \<or>
          (let expected = ar_scale r * value + ar_offset r
           in 0 \<le> sint expected \<and> expected = address \<and> ar_minAddress r \<le> address \<and> address \<le> ar_maxAddress r))"

definition replayDVRSource :: "request_env \<Rightarrow> packet \<Rightarrow> reg_val \<Rightarrow> request_cpu \<Rightarrow> bool \<times> request_cpu" where
  "replayDVRSource e k value s =
     (case sn_replay (pk_sender k) of
        None \<Rightarrow> (False, s)
      | Some p \<Rightarrow>
          (let prog = qe_programs e p in
           if \<not> rt_valid prog \<or> rt_scalarCount prog \<le> 1 then (False, s)
           else
             (case replay_walk prog (2 * rt_count prog) 1 (((rt_initialRegs prog)(0 := 0))(nat (rt_triggerDestination prog) := value)) False of
                None \<Rightarrow> (False, s)
              | Some (i, address, alternate) \<Rightarrow>
                  (let u = rt_uops prog i; line = request_line e address;
                       d = (dependent_address address (up_pc u) k)\<lparr>pa_replay := Some p, pa_predicate := sn_predicate (pk_sender k),
                             pa_lane := sn_lane (pk_sender k)\<rparr>
                   in if \<not> relation_agrees e (rt_triggerPC prog) (up_pc u) value address \<or> \<not> user_address address then (False, s)
                      else if line_known line s \<or> length (rc_queue s) \<ge> DvrMaxQueuedPrefetches then (True, s)
                      else (True, (push_dependent e d s)\<lparr>rc_alternateLines :=
                              if up_alternatePath u \<or> alternate then insert line (rc_alternateLines s) else rc_alternateLines s\<rparr>)))))"

text \<open>Without a template: the affine relations the request carries, the first usable one.\<close>

fun affine_dependents :: "request_env \<Rightarrow> packet \<Rightarrow> reg_val \<Rightarrow> nat list \<Rightarrow> request_cpu \<Rightarrow> request_cpu" where
  "affine_dependents e k value [] s = s"
| "affine_dependents e k value (i # is) s =
     (let rel = sn_relations (pk_sender k); address = rel_scales rel i * value + rel_offsets rel i; line = request_line e address in
      if rel_count rel > 1 \<and> value AND rel_masks rel i \<noteq> rel_patterns rel i \<or> \<not> user_address address then affine_dependents e k value is s
      else if line_known line s then s
      else if length (rc_queue s) \<ge> DvrMaxQueuedPrefetches then affine_dependents e k value is s
      else push_dependent e (dependent_address address (pk_pc k) k) s)"

section \<open>Responses\<close>

definition dvrHelperWorkUnits :: "request_env \<Rightarrow> nat \<Rightarrow> nat" where
  "dvrHelperWorkUnits e lanes =
     (if \<not> qe_vectorChunkModel e then lanes else (lanes + qe_elementsPerChunk e - 1) div qe_elementsPerChunk e)"

definition startDVRHelper :: "request_env \<Rightarrow> addr \<Rightarrow> nat \<Rightarrow> nat \<Rightarrow> resource_counts \<Rightarrow> nat option \<Rightarrow> nat \<Rightarrow> request_cpu \<Rightarrow> request_cpu" where
  "startDVRHelper e trigger_pc program_uops lanes resources replay tid s =
     (if program_uops = 0 \<or> lanes = 0 then s
      else
        (let units = dvrHelperWorkUnits e lanes;
             scaled = \<lparr>rs_alu = rs_alu resources * units, rs_shift = rs_shift resources * units, rs_multiply = rs_multiply resources * units,
                       rs_lsu = rs_lsu resources * units\<rparr>
         in if HT_active (rc_thread s)
            then s\<lparr>rc_thread := HT_extend trigger_pc (of_nat program_uops) (of_nat units) scaled (qe_vectorChunkModel e) replay (rc_thread s)\<rparr>
            else s\<lparr>rc_thread := HT_begin (rc_nextHelperId s) trigger_pc (of_nat program_uops) (of_nat units) (qe_maxUops e) scaled
                     (qe_vectorChunkModel e) replay tid (rc_thread s), rc_nextHelperId := rc_nextHelperId s + 1\<rparr>))"

text \<open>The books of the request that has come back.\<close>

definition account_response :: "request_env \<Rightarrow> packet \<Rightarrow> request_cpu \<Rightarrow> request_cpu option" where
  "account_response e k s =
     (case Quality_completed (pk_id k) (qe_now e) (rc_quality s) of
        Inl _ \<Rightarrow> None
      | Inr q \<Rightarrow>
          if rc_occupancy s = 0 then None
          else
            (let line = request_line e (pk_vaddr k); dependent = (\<not> pk_source k \<and> \<not> pk_oracle k);
                 last = (case rc_dependentLines s line of None \<Rightarrow> False | Some n \<Rightarrow> n - 1 = 0)
             in Some (s\<lparr>rc_quality := q, rc_occupancy := rc_occupancy s - 1,
               rc_entries := (case rc_entries s (pk_loadId k) of
                   None \<Rightarrow> rc_entries s
                 | Some en \<Rightarrow> (rc_entries s)(pk_loadId k \<mapsto> en\<lparr>le_state := Writeback, le_responseTick := qe_now e\<rparr>)),
               rc_oracleLines := if pk_oracle k then insert line (rc_oracleLines s) else rc_oracleLines s,
               rc_outstandingAddresses := rc_outstandingAddresses s - {pk_vaddr k},
               rc_outstandingLines := drop_one line (rc_outstandingLines s),
               rc_dependentLines := if dependent then drop_one line (rc_dependentLines s) else rc_dependentLines s,
               rc_dependentCompleted := if dependent \<and> last then insert line (rc_dependentCompleted s) else rc_dependentCompleted s,
               rc_completedLines := (rc_completedLines s)(line \<mapsto> qe_now e)\<rparr>)))"

definition value_response :: "request_env \<Rightarrow> packet \<Rightarrow> 8 word list option \<Rightarrow> request_cpu \<Rightarrow> request_cpu" where
  "value_response e k data s =
     (case data of
        Some bytes \<Rightarrow>
          if \<not> pk_source k \<and> pk_valueResponse k
          then (let (_, _, t, fs) = HT_resumeDependentLane (qe_programs e) (pk_sender k) (pk_pc k)
                      (dependent_value (qe_programs e) k (raw_value bytes)) (rc_thread s) (rc_files s)
                in s\<lparr>rc_thread := t, rc_files := fs\<rparr>)
          else s
      | None \<Rightarrow> s)"

definition replays :: "request_env \<Rightarrow> packet \<Rightarrow> bool" where
  "replays e k \<longleftrightarrow> qe_vectorChunkModel e \<and> (case sn_replay (pk_sender k) of None \<Rightarrow> False | Some p \<Rightarrow> rt_count (qe_programs e p) > 1)"

text \<open>A source value: the lane joins the vector replay, or else the scalar replay is tried.\<close>

definition enqueue_source :: "request_env \<Rightarrow> packet \<Rightarrow> reg_val \<Rightarrow> request_cpu \<Rightarrow> bool \<times> request_cpu" where
  "enqueue_source e k v s =
     (if replays e k
      then (let (taken, _, t, fs) = HT_enqueueReplayLane (qe_programs e) (pk_sender k) v (rc_thread s) (rc_files s)
            in (taken, s\<lparr>rc_thread := t, rc_files := fs\<rparr>))
      else (False, s))"

definition match_source :: "request_env \<Rightarrow> packet \<Rightarrow> reg_val \<Rightarrow> request_cpu \<Rightarrow> bool \<times> request_cpu" where
  "match_source e k v s =
     (let (taken, s1) = enqueue_source e k v s
      in if taken \<or> \<not> qe_dependentPrefetch e then (taken, s1) else replayDVRSource e k v s1)"

definition source_response :: "request_env \<Rightarrow> packet \<Rightarrow> 8 word list option \<Rightarrow> request_cpu \<Rightarrow> request_cpu" where
  "source_response e k data s =
     (if \<not> pk_source k then s
      else
        (case data of
           None \<Rightarrow> retireDVRPredicateLane (sn_predicate (pk_sender k)) (sn_lane (pk_sender k)) None s
         | Some bytes \<Rightarrow>
             (let v = source_value (qe_programs e) k (raw_value bytes);
                  s1 = retireDVRPredicateLane (sn_predicate (pk_sender k)) (sn_lane (pk_sender k)) (Some v) s;
                  (matched, s2) = match_source e k v s1
              in if qe_dependentPrefetch e \<and> \<not> matched \<and> sn_replay (pk_sender k) = None
                 then affine_dependents e k v [0..<rel_count (sn_relations (pk_sender k))] s2 else s2)))"

text \<open>The data is \<open>None\<close> when the response carries none.\<close>

definition completeDVRPrefetch :: "request_env \<Rightarrow> packet \<Rightarrow> 8 word list option \<Rightarrow> request_cpu \<Rightarrow> request_cpu option" where
  "completeDVRPrefetch e k data s =
     map_option (\<lambda>s1.
       (let s2 = erase_entry (pk_loadId k) (source_response e k data (value_response e k data s1));
            s3 = s2\<lparr>rc_thread := HT_complete (rc_thread s2)\<rparr>
        in if \<not> HT_active (rc_thread s3) \<and> rc_queue s3 \<noteq> []
           then startDVRHelper e (pk_pc k) 1 1 \<lparr>rs_alu = 0, rs_shift = 0, rs_multiply = 0, rs_lsu = 0\<rparr> None (sn_tid (pk_sender k)) s3
           else s3)) (account_response e k s)"

end
