(* ===== verification/DVR_Request_Run.thy ===== *)
theory DVR_Request_Run
  imports DVR_Request DVR_Replay_Run
begin

text \<open>
  Runs of the helper's memory requests: requests are issued and answered in any order while the rest of the
  processor fills the queue and works on the helper. The books always agree with the packets in flight, and no
  assertion of the two functions fails.
\<close>

section \<open>Counting maps\<close>

definition tally :: "('a \<Rightarrow> 'b) \<Rightarrow> 'a list \<Rightarrow> 'b \<rightharpoonup> nat" where
  "tally f ks x = (case length (filter (\<lambda>k. f k = x) ks) of 0 \<Rightarrow> None | Suc n \<Rightarrow> Some (Suc n))"

lemma tally_Nil [simp]: "tally f [] = Map.empty"
  by (simp add: tally_def fun_eq_iff)

lemma bump_tally: "bump (f k) (tally f ks) = tally f (k # ks)"
  by (auto simp: bump_def tally_def fun_eq_iff split: nat.split)

lemma filter_remove1_length:
  assumes "k \<in> set ks"
  shows "length (filter P (remove1 k ks)) = length (filter P ks) - (if P k then 1 else 0)"
  using assms
proof (induction ks)
  case (Cons j ks)
  show ?case
  proof (cases "j = k")
    case False
    then have "k \<in> set ks" using Cons.prems by simp
    moreover have "P k \<Longrightarrow> 0 < length (filter P ks)" using calculation by (auto simp: filter_empty_conv)
    ultimately show ?thesis using Cons.IH False by simp
  qed simp
qed simp

lemma filter_remove1_pos: "k \<in> set ks \<Longrightarrow> P k \<Longrightarrow> 0 < length (filter P ks)"
  by (auto simp: filter_empty_conv)

lemma drop_tally:
  assumes k: "k \<in> set ks"
  shows "drop_one (f k) (tally f ks) = tally f (remove1 k ks)"
proof
  fix x
  let ?n = "length (filter (\<lambda>j. f j = x) ks)"
  have l: "length (filter (\<lambda>j. f j = x) (remove1 k ks)) = ?n - (if f k = x then 1 else 0)" by (rule filter_remove1_length [OF k])
  show "drop_one (f k) (tally f ks) x = tally f (remove1 k ks) x"
  proof (cases "f k = x")
    case True
    have "0 < ?n" by (rule filter_remove1_pos [OF k]) (use True in simp)
    then obtain m where "?n = Suc m" by (cases ?n) auto
    then show ?thesis using True l by (auto simp: drop_one_def tally_def split: nat.split)
  next
    case False
    have "drop_one (f k) (tally f ks) x = tally f ks x" using False by (auto simp: drop_one_def split: option.split)
    then show ?thesis using l False by (simp add: tally_def)
  qed
qed

lemma drop_tally_filter:
  assumes "k \<in> set ks" "P k"
  shows "drop_one (f k) (tally f (filter P ks)) = tally f (filter P (remove1 k ks))"
proof -
  have "filter P (remove1 k ks) = remove1 k (filter P ks)" using filter_remove1 [of P k ks] assms by simp
  then show ?thesis using drop_tally [of k "filter P ks" f] assms by simp
qed

section \<open>The books\<close>

definition dependent :: "packet \<Rightarrow> bool" where
  "dependent k \<longleftrightarrow> \<not> pk_source k \<and> \<not> pk_oracle k"

definition packet_line :: "addr \<Rightarrow> packet \<Rightarrow> addr" where
  "packet_line size_of_line k = pk_vaddr k AND NOT (size_of_line - 1)"

definition waiting :: "packet \<Rightarrow> load_entry \<Rightarrow> bool" where
  "waiting k en \<longleftrightarrow> le_state en = WaitingResponse \<and> le_virtualAddress en = pk_vaddr k \<and> le_physicalAddress en = pk_paddr k \<and>
     le_pc en = pk_pc k \<and> le_source en = pk_source k \<and> le_lane en = sn_lane (pk_sender k)"

definition requests_ok :: "addr \<Rightarrow> packet list \<Rightarrow> request_cpu \<Rightarrow> bool" where
  "requests_ok ls ks s \<longleftrightarrow> distinct (map pk_id ks) \<and> distinct (map pk_loadId ks) \<and>
     rc_occupancy s = length ks \<and> length ks \<le> DvrHelperLoadQueueCapacity \<and>
     dom (rc_entries s) = pk_loadId ` set ks \<and> (\<forall>k \<in> set ks. \<exists>en. rc_entries s (pk_loadId k) = Some en \<and> waiting k en) \<and>
     (\<forall>k \<in> set ks. pk_loadId k < rc_nextLoadId s) \<and>
     rc_outstandingLines s = tally (packet_line ls) ks \<and> rc_dependentLines s = tally (packet_line ls) (filter dependent ks) \<and>
     rc_outstandingAddresses s \<subseteq> pk_vaddr ` set ks \<and> dom (qt_outstanding (rc_quality s)) = pk_id ` set ks"

text \<open>What the books are made of.\<close>

definition same_books :: "request_cpu \<Rightarrow> request_cpu \<Rightarrow> bool" where
  "same_books s s' \<longleftrightarrow> rc_occupancy s' = rc_occupancy s \<and> rc_entries s' = rc_entries s \<and> rc_nextLoadId s \<le> rc_nextLoadId s' \<and>
     rc_outstandingLines s' = rc_outstandingLines s \<and> rc_dependentLines s' = rc_dependentLines s \<and>
     rc_outstandingAddresses s' = rc_outstandingAddresses s \<and> dom (qt_outstanding (rc_quality s')) = dom (qt_outstanding (rc_quality s))"

lemma same_books_ok: "same_books s s' \<Longrightarrow> requests_ok ls ks s \<Longrightarrow> requests_ok ls ks s'"
  unfolding same_books_def requests_ok_def by (metis order_less_le_trans)

lemma same_books_refl [simp]: "same_books s s"
  by (simp add: same_books_def)

lemma same_books_trans: "same_books s s1 \<Longrightarrow> same_books s1 s2 \<Longrightarrow> same_books s s2"
  by (auto simp: same_books_def)

lemma books_retire [simp]: "same_books s (retireDVRPredicateLane g n v s)"
  by (simp add: retireDVRPredicateLane_def same_books_def split: option.split)

lemma books_simps [simp]:
  "same_books s (pop_request e p s)" "same_books s (push_back_request e p s)" "same_books s (end_lane p s)" "same_books s (fault_generation p s)"
  "same_books s (push_dependent e p s)" "same_books s (s\<lparr>rc_thread := t\<rparr>)" "same_books s (s\<lparr>rc_thread := t, rc_files := fs\<rparr>)"
  "same_books s (startDVRHelper e pc n l r rp tid s)"
  by (simp_all add: pop_request_def push_back_request_def end_lane_def fault_generation_def push_dependent_def startDVRHelper_def Let_def
      same_books_def retireDVRPredicateLane_def split: option.split)

lemma books_affine [simp]: "same_books s (affine_dependents e k v is s)"
  by (induction "is") (simp_all add: Let_def)

lemma books_replay: "replayDVRSource e k v s = (b, s') \<Longrightarrow> same_books s s'"
  by (auto simp: replayDVRSource_def Let_def push_dependent_def same_books_def split: option.splits if_splits)

lemma books_enqueue: "enqueue_source e k v s = (b, s') \<Longrightarrow> same_books s s'"
  by (auto simp: enqueue_source_def split: if_splits prod.splits)

lemma books_match: "match_source e k v s = (b, s') \<Longrightarrow> same_books s s'"
  by (auto simp: match_source_def split: if_splits prod.splits dest!: books_enqueue books_replay intro: same_books_trans)

lemma books_source [simp]: "same_books s (source_response e k data s)"
proof (cases "pk_source k")
  case True
  show ?thesis
  proof (cases data)
    case (Some bytes)
    let ?v = "source_value (qe_programs e) k (raw_value bytes)"
    let ?s1 = "retireDVRPredicateLane (sn_predicate (pk_sender k)) (sn_lane (pk_sender k)) (Some ?v) s"
    obtain matched s2 where m: "match_source e k ?v ?s1 = (matched, s2)" by fastforce
    have "same_books s s2" using same_books_trans [OF books_retire books_match [OF m]] .
    then show ?thesis using Some True m same_books_trans [OF _ books_affine] by (auto simp: source_response_def Let_def)
  qed (simp add: source_response_def True)
qed (simp add: source_response_def)

lemma books_value [simp]: "same_books s (value_response e k data s)"
  by (auto simp: value_response_def split: option.split prod.split)

section \<open>Issuing\<close>

lemma next_id_free:
  assumes "requests_ok ls ks s"
  shows "rc_nextLoadId s \<notin> pk_loadId ` set ks" "rc_entries s (rc_nextLoadId s) = None"
proof -
  have d: "dom (rc_entries s) = pk_loadId ` set ks" and l: "\<forall>k \<in> set ks. pk_loadId k < rc_nextLoadId s" using assms unfolding requests_ok_def by blast+
  show n: "rc_nextLoadId s \<notin> pk_loadId ` set ks" using l by auto
  then show "rc_entries s (rc_nextLoadId s) = None" using d by auto
qed

lemma erased_books:
  assumes "requests_ok ls ks s"
  shows "same_books s (erase_entry (rc_nextLoadId s) (allocate_entry e p s))"
    and "same_books s (erase_entry (rc_nextLoadId s) (fault_generation p (allocate_entry e p s)))"
proof -
  have "rc_entries s (rc_nextLoadId s) = None" by (rule next_id_free [OF assms])
  then have "(rc_entries s)(rc_nextLoadId s := None) = rc_entries s" by (simp add: fun_upd_idem)
  then show "same_books s (erase_entry (rc_nextLoadId s) (allocate_entry e p s))"
      "same_books s (erase_entry (rc_nextLoadId s) (fault_generation p (allocate_entry e p s)))"
    by (auto simp: same_books_def erase_entry_def allocate_entry_def fault_generation_def Let_def split: option.split)
qed

lemma packet_line_request: "qe_cacheLineSize e = ls \<Longrightarrow> request_line e (pk_vaddr k) = packet_line ls k"
  by (simp add: request_line_def packet_line_def)

lemma account_issue_fields:
  assumes "account_issue e k s = Some s'" and "rc_entries s (pk_loadId k) = Some en"
  shows "Quality_issued (pk_id k) (request_line e (pk_paddr k)) (of_nat (pk_bytes k)) (qe_now e) (rc_quality s) = Inr (rc_quality s')"
    "rc_occupancy s' = rc_occupancy s + 1" "rc_nextLoadId s' = rc_nextLoadId s"
    "rc_entries s' = (rc_entries s)(pk_loadId k \<mapsto> en\<lparr>le_physicalAddress := pk_paddr k, le_issueTick := qe_now e, le_state := WaitingResponse\<rparr>)"
    "rc_outstandingLines s' = bump (request_line e (pk_vaddr k)) (rc_outstandingLines s)"
    "rc_outstandingAddresses s' = insert (pk_vaddr k) (rc_outstandingAddresses s)"
    "rc_dependentLines s' = (if dependent k then bump (request_line e (pk_vaddr k)) (rc_dependentLines s) else rc_dependentLines s)"
  using assms unfolding account_issue_def Let_def dependent_def by (auto split: option.splits sum.splits)

lemma issue_ok:
  fixes e :: request_env and p :: prefetch_address and paddr :: addr and s :: request_cpu
  assumes ok: "requests_ok ls ks s" and cap: "rc_occupancy s < DvrHelperLoadQueueCapacity" and e: "qe_cacheLineSize e = ls"
    and ready: "ht_readyUops (rc_thread s) \<noteq> 0" and fresh: "qe_packet e \<notin> pk_id ` set ks"
  defines "k \<equiv> new_packet e p (rc_nextLoadId s) paddr"
  shows "\<exists>s'. account_issue e k (allocate_entry e p s) = Some s' \<and> requests_ok ls (k # ks) s'"
proof -
  let ?i = "rc_nextLoadId s" and ?s1 = "allocate_entry e p s"
  note o = ok [unfolded requests_ok_def]
  have free: "rc_entries s ?i = None" "?i \<notin> pk_loadId ` set ks" by (rule next_id_free [OF ok])+
  have k: "pk_id k = qe_packet e" "pk_loadId k = ?i" "pk_vaddr k = pa_address p" "pk_paddr k = paddr" "pk_pc k = pa_pc p" "pk_source k = pa_source p"
      "pk_oracle k = pa_oracle p" "sn_lane (pk_sender k) = pa_lane p" by (simp_all add: k_def new_packet_def)
  have s1: "rc_thread ?s1 = rc_thread s" "rc_quality ?s1 = rc_quality s" "rc_entries ?s1 = (rc_entries s)(?i \<mapsto> new_entry (qe_now e) p)"
      "rc_nextLoadId ?s1 = ?i + 1" "rc_occupancy ?s1 = rc_occupancy s" "rc_outstandingLines ?s1 = rc_outstandingLines s"
      "rc_dependentLines ?s1 = rc_dependentLines s" "rc_outstandingAddresses ?s1 = rc_outstandingAddresses s"
    using free(1) by (simp_all add: allocate_entry_def Let_def)
  obtain t where t: "HT_issue (rc_thread ?s1) = Some t" using ready s1(1) by (auto simp: HT_issue_def Let_def)
  have "qt_outstanding (rc_quality s) (qe_packet e) = None" using o fresh by (metis domIff)
  then obtain q where q: "Quality_issued (pk_id k) (request_line e (pk_paddr k)) (of_nat (pk_bytes k)) (qe_now e) (rc_quality ?s1) = Inr q"
      "dom (qt_outstanding q) = insert (qe_packet e) (dom (qt_outstanding (rc_quality s)))"
    using s1(2) k(1) by (auto simp: Quality_issued_def)
  obtain s' where s': "account_issue e k ?s1 = Some s'" using t q(1) by (simp add: account_issue_def Let_def)
  have new: "rc_entries ?s1 (pk_loadId k) = Some (new_entry (qe_now e) p)" by (simp add: s1(3) k(2))
  note f = account_issue_fields [OF s' new, unfolded s1 k(2-4) packet_line_request [OF e, of k, unfolded k(3)]]
  have f1: "rc_quality s' = q" using f(1) q(1) s1(2) k(1) k(2-4) by simp
  have "waiting k ((new_entry (qe_now e) p)\<lparr>le_physicalAddress := paddr, le_issueTick := qe_now e, le_state := WaitingResponse\<rparr>)"
    by (simp add: waiting_def new_entry_def k)
  then have en: "\<forall>j \<in> set (k # ks). \<exists>en. rc_entries s' (pk_loadId j) = Some en \<and> waiting j en" using o free(2) k(2) unfolding f(4) by auto
  have d: "dom (rc_entries s') = insert ?i (dom (rc_entries s))" by (simp add: f(4))
  have lines: "rc_outstandingLines s' = tally (packet_line ls) (k # ks)" "rc_dependentLines s' = tally (packet_line ls) (filter dependent (k # ks))"
    unfolding f(5,7) using o by (auto simp: bump_tally)
  have "\<forall>j \<in> set (k # ks). pk_loadId j < rc_nextLoadId s'" using o k(2) f(3) by (auto simp: less_Suc_eq)
  moreover have "distinct (map pk_id (k # ks)) \<and> distinct (map pk_loadId (k # ks))" using o k(1,2) fresh free(2) by simp
  moreover have "rc_occupancy s' = length (k # ks) \<and> length (k # ks) \<le> DvrHelperLoadQueueCapacity" using o f(2) cap by simp
  moreover have "dom (rc_entries s') = pk_loadId ` set (k # ks) \<and> dom (qt_outstanding (rc_quality s')) = pk_id ` set (k # ks)"
    using o d f1 q(2) k(1,2) by simp
  moreover have "rc_outstandingAddresses s' \<subseteq> pk_vaddr ` set (k # ks)" using o f(6) k(3) by auto
  ultimately show ?thesis unfolding requests_ok_def s' using en lines by blast
qed

text \<open>The packets in flight after a call.\<close>

fun in_flight :: "packet option \<Rightarrow> packet list \<Rightarrow> packet list" where
  "in_flight None ks = ks"
| "in_flight (Some k) ks = k # ks"

lemma send_ok:
  assumes ok: "requests_ok ls ks s" and cap: "rc_occupancy s < DvrHelperLoadQueueCapacity" and e: "qe_cacheLineSize e = ls"
    and ready: "ht_readyUops (rc_thread s) \<noteq> 0" and fresh: "qe_packet e \<notin> pk_id ` set ks"
  shows "\<exists>k s'. send_request e p s = Some (k, s') \<and> requests_ok ls (in_flight k ks) s'"
proof -
  let ?i = "rc_nextLoadId s" and ?s1 = "allocate_entry e p s"
  note er = erased_books [OF ok, where e = e and p = p]
  have keep: "requests_ok ls ks (end_lane p (erase_entry ?i ?s1))" "requests_ok ls ks (end_lane p (erase_entry ?i (fault_generation p ?s1)))"
      "requests_ok ls ks (push_back_request e p (erase_entry ?i ?s1))"
    using same_books_ok [OF same_books_trans [OF er(1) books_simps(3)] ok] same_books_ok [OF same_books_trans [OF er(2) books_simps(3)] ok]
      same_books_ok [OF same_books_trans [OF er(1) books_simps(2)] ok] by blast+
  show ?thesis
  proof (cases "qe_translate e (pa_address p) (pa_tid p)")
    case None
    then show ?thesis using keep by (auto simp: send_request_def Let_def intro!: exI [of _ None])
  next
    case (Some paddr)
    obtain s' where "account_issue e (new_packet e p ?i paddr) ?s1 = Some s'" "requests_ok ls (new_packet e p ?i paddr # ks) s'"
      using issue_ok [OF ok cap e ready fresh, of p paddr] by blast
    then have "requests_ok ls (in_flight (Some (new_packet e p ?i paddr)) ks) s'" by simp
    with Some \<open>account_issue e _ ?s1 = Some s'\<close> keep show ?thesis
      by (cases "qe_tryTiming e \<and> qe_sendTiming e") (force simp: send_request_def Let_def)+
  qed
qed

lemma service_ok:
  assumes ok: "requests_ok ls ks s" and e: "qe_cacheLineSize e = ls" and fresh: "qe_packet e \<notin> pk_id ` set ks"
  shows "\<exists>k s'. serviceDVRPrefetchRequest e s = Some (k, s') \<and> requests_ok ls (in_flight k ks) s'"
proof (cases "rc_queue s")
  case (Cons p q)
  let ?s1 = "s\<lparr>rc_thread := snd (HT_wakeForMemoryRequest (rc_thread s))\<rparr>"
  let ?s2 = "pop_request e p ?s1"
  have ok1: "requests_ok ls ks ?s1" by (rule same_books_ok [OF books_simps(6) ok])
  have ok2: "requests_ok ls ks ?s2" by (rule same_books_ok [OF books_simps(1) ok1])
  show ?thesis
  proof (cases "pa_readyTick p > qe_now e \<or> \<not> HT_canIssue True (rc_thread ?s1) \<or> slots_taken e p ?s1")
    case True
    then show ?thesis using ok ok1 by (auto simp: serviceDVRPrefetchRequest_def Cons Let_def intro!: exI [of _ None])
  next
    case False
    let ?masked = "pa_source p \<and> (case pa_predicate p of None \<Rightarrow> False | Some g \<Rightarrow> pg_sourceTranslationFaulted (rc_predicates ?s2 g))"
    have eq: "serviceDVRPrefetchRequest e s = (if ?masked then Some (None, retireDVRPredicateLane (pa_predicate p) (pa_lane p) None ?s2) else send_request e p ?s2)"
      using False by (simp add: serviceDVRPrefetchRequest_def Cons Let_def)
    have "rc_occupancy ?s2 < DvrHelperLoadQueueCapacity" "ht_readyUops (rc_thread ?s2) \<noteq> 0"
      using False by (auto simp: slots_taken_def HT_canIssue_def pop_request_def)
    then have "\<exists>k s'. send_request e p ?s2 = Some (k, s') \<and> requests_ok ls (in_flight k ks) s'" by (rule send_ok [OF ok2 _ e _ fresh])
    moreover have "requests_ok ls (in_flight None ks) (retireDVRPredicateLane (pa_predicate p) (pa_lane p) None ?s2)"
      using same_books_ok [OF books_retire ok2] by simp
    ultimately show ?thesis unfolding eq by (cases ?masked) auto
  qed
qed (use ok in \<open>auto simp: serviceDVRPrefetchRequest_def intro!: exI [of _ None]\<close>)

section \<open>Responses\<close>

lemma account_response_fields:
  assumes "account_response e k s = Some s'" and "rc_entries s (pk_loadId k) = Some en"
  shows "Quality_completed (pk_id k) (qe_now e) (rc_quality s) = Inr (rc_quality s')" "rc_occupancy s' = rc_occupancy s - 1"
    "rc_nextLoadId s' = rc_nextLoadId s"
    "rc_entries s' = (rc_entries s)(pk_loadId k \<mapsto> en\<lparr>le_state := Writeback, le_responseTick := qe_now e\<rparr>)"
    "rc_outstandingLines s' = drop_one (request_line e (pk_vaddr k)) (rc_outstandingLines s)"
    "rc_outstandingAddresses s' = rc_outstandingAddresses s - {pk_vaddr k}"
    "rc_dependentLines s' = (if dependent k then drop_one (request_line e (pk_vaddr k)) (rc_dependentLines s) else rc_dependentLines s)"
  using assms unfolding account_response_def Let_def dependent_def by (auto split: option.splits sum.splits if_splits)

text \<open>What follows the accounting leaves the books alone, until the entry is erased.\<close>

definition after_accounting :: "request_env \<Rightarrow> packet \<Rightarrow> 8 word list option \<Rightarrow> request_cpu \<Rightarrow> request_cpu" where
  "after_accounting e k data s = source_response e k data (value_response e k data s)"

lemma books_after [simp]: "same_books s (after_accounting e k data s)"
  unfolding after_accounting_def by (rule same_books_trans [OF books_value books_source])

lemma erase_same_books: "same_books s s' \<Longrightarrow> same_books (erase_entry i s) (erase_entry i s')"
  by (auto simp: same_books_def erase_entry_def)

lemma complete_books:
  assumes "account_response e k s = Some s1"
  shows "\<exists>s'. completeDVRPrefetch e k data s = Some s' \<and> same_books (erase_entry (pk_loadId k) s1) s'"
proof -
  let ?s2 = "erase_entry (pk_loadId k) (after_accounting e k data s1)"
  let ?s3 = "?s2\<lparr>rc_thread := HT_complete (rc_thread ?s2)\<rparr>"
  let ?s4 = "startDVRHelper e (pk_pc k) 1 1 \<lparr>rs_alu = 0, rs_shift = 0, rs_multiply = 0, rs_lsu = 0\<rparr> None (sn_tid (pk_sender k)) ?s3"
  have "same_books (erase_entry (pk_loadId k) s1) ?s2" by (rule erase_same_books [OF books_after])
  then have b3: "same_books (erase_entry (pk_loadId k) s1) ?s3" by (rule same_books_trans [OF _ books_simps(6)])
  have b4: "same_books (erase_entry (pk_loadId k) s1) ?s4" by (rule same_books_trans [OF b3 books_simps(8)])
  have "completeDVRPrefetch e k data s = Some (if \<not> HT_active (rc_thread ?s3) \<and> rc_queue ?s3 \<noteq> [] then ?s4 else ?s3)"
    unfolding completeDVRPrefetch_def assms after_accounting_def Let_def by (simp only: option.map)
  then show ?thesis using b3 b4 by auto
qed

lemma response_ok:
  assumes ok: "requests_ok ls ks s" and k: "k \<in> set ks" and e: "qe_cacheLineSize e = ls"
  shows "\<exists>s'. completeDVRPrefetch e k data s = Some s' \<and> requests_ok ls (remove1 k ks) s'"
proof -
  note o = ok [unfolded requests_ok_def]
  have "pk_id k \<in> dom (qt_outstanding (rc_quality s))" using o k by blast
  then obtain r where r: "qt_outstanding (rc_quality s) (pk_id k) = Some r" by blast
  obtain q where q: "Quality_completed (pk_id k) (qe_now e) (rc_quality s) = Inr q" "dom (qt_outstanding q) = dom (qt_outstanding (rc_quality s)) - {pk_id k}"
    using r by (auto simp: Quality_completed_def)
  have "rc_occupancy s = length ks" using o by blast
  then have occ: "rc_occupancy s \<noteq> 0" using k by auto
  obtain s1 where s1: "account_response e k s = Some s1" using q(1) occ by (simp add: account_response_def Let_def)
  obtain en where en: "rc_entries s (pk_loadId k) = Some en" using o k by blast
  note f = account_response_fields [OF s1 en, unfolded packet_line_request [OF e]]
  let ?s2 = "erase_entry (pk_loadId k) s1" and ?ks = "remove1 k ks"
  have q2: "dom (qt_outstanding (rc_quality s1)) = dom (qt_outstanding (rc_quality s)) - {pk_id k}" using q f(1) by simp
  have ids: "distinct (map pk_id ks)" "distinct (map pk_loadId ks)" using o by blast+
  have rem: "set ?ks = set ks - {k}" using ids by (intro set_remove1_eq) (simp add: distinct_map)
  have img: "pk_loadId ` set ?ks = pk_loadId ` set ks - {pk_loadId k}" "pk_id ` set ?ks = pk_id ` set ks - {pk_id k}"
    unfolding rem using ids k by (auto simp: distinct_map inj_on_def)
  have e2: "rc_entries ?s2 = (rc_entries s)(pk_loadId k := None)" by (simp add: erase_entry_def f(4))
  have other: "pk_loadId j \<noteq> pk_loadId k" if "j \<in> set ?ks" for j using that ids k unfolding rem by (auto simp: distinct_map inj_on_def)
  have "distinct (map pk_id ?ks) \<and> distinct (map pk_loadId ?ks)" using ids by (auto simp: distinct_map rem intro: inj_on_subset)
  moreover have "rc_occupancy ?s2 = length ?ks" using \<open>rc_occupancy s = length ks\<close> k f(2) by (simp add: erase_entry_def length_remove1)
  moreover have "length ?ks \<le> DvrHelperLoadQueueCapacity" using length_remove1 [of k ks] o by (metis diff_le_self dual_order.trans)
  moreover have "dom (rc_entries ?s2) = pk_loadId ` set ?ks" unfolding e2 img using o by simp
  moreover have "\<forall>j \<in> set ?ks. \<exists>en. rc_entries ?s2 (pk_loadId j) = Some en \<and> waiting j en" unfolding e2 using o other rem by simp
  moreover have "\<forall>j \<in> set ?ks. pk_loadId j < rc_nextLoadId ?s2" using o rem f(3) by (simp add: erase_entry_def)
  moreover have "rc_outstandingLines ?s2 = tally (packet_line ls) ?ks" using o f(5) drop_tally [OF k] by (simp add: erase_entry_def)
  moreover have "rc_dependentLines ?s2 = tally (packet_line ls) (filter dependent ?ks)"
    using o f(7) drop_tally_filter [OF k, of dependent] by (auto simp: erase_entry_def filter_remove1)
  moreover have "rc_outstandingAddresses ?s2 \<subseteq> pk_vaddr ` set ?ks" using o f(6) unfolding rem by (auto simp: erase_entry_def)
  moreover have "dom (qt_outstanding (rc_quality ?s2)) = pk_id ` set ?ks" using o q2 unfolding img by (simp add: erase_entry_def)
  ultimately have "requests_ok ls ?ks ?s2" unfolding requests_ok_def by blast
  then show ?thesis using complete_books [OF s1, of data] same_books_ok by blast
qed

section \<open>Runs\<close>

text \<open>
  Requests are issued, with packets that are not in flight, and answered in any order. In between the rest of the
  processor fills the queue, replays lanes and counts demands; it leaves the books alone.
\<close>

inductive request_run :: "addr \<Rightarrow> packet list \<Rightarrow> request_cpu \<Rightarrow> bool" for ls where
  start: "rc_occupancy s = 0 \<Longrightarrow> rc_entries s = Map.empty \<Longrightarrow> rc_outstandingLines s = Map.empty \<Longrightarrow> rc_dependentLines s = Map.empty \<Longrightarrow>
    rc_outstandingAddresses s = {} \<Longrightarrow> qt_outstanding (rc_quality s) = Map.empty \<Longrightarrow> request_run ls [] s"
| service: "request_run ls ks s \<Longrightarrow> qe_cacheLineSize e = ls \<Longrightarrow> qe_packet e \<notin> pk_id ` set ks \<Longrightarrow>
    serviceDVRPrefetchRequest e s = Some (k, s') \<Longrightarrow> request_run ls (in_flight k ks) s'"
| respond: "request_run ls ks s \<Longrightarrow> qe_cacheLineSize e = ls \<Longrightarrow> k \<in> set ks \<Longrightarrow> completeDVRPrefetch e k data s = Some s' \<Longrightarrow>
    request_run ls (remove1 k ks) s'"
| elsewhere: "request_run ls ks s \<Longrightarrow> same_books s s' \<Longrightarrow> request_run ls ks s'"

lemma request_run_ok: "request_run ls ks s \<Longrightarrow> requests_ok ls ks s"
proof (induction rule: request_run.induct)
  case (start s)
  then show ?case by (simp add: requests_ok_def)
next
  case (service ks s e k s')
  then show ?case using service_ok [OF service.IH service.hyps(2,3)] by auto
next
  case (respond ks s e k data s')
  then show ?case using response_ok [OF respond.IH respond.hyps(3,2), of data] by auto
next
  case (elsewhere ks s s')
  then show ?case by (blast intro: same_books_ok)
qed

lemma service_packet:
  assumes "serviceDVRPrefetchRequest e s = Some (Some k, s')"
  shows "pk_id k = qe_packet e"
proof -
  have "pk_id k = qe_packet e" if "send_request e p s1 = Some (Some k, s')" for p s1
    using that by (auto simp: send_request_def Let_def new_packet_def split: option.splits if_splits)
  then show ?thesis using assms by (auto simp: serviceDVRPrefetchRequest_def Let_def split: list.splits if_splits option.splits)
qed

text \<open>A whole cycle, with a new packet for every call, is part of a run.\<close>

lemma cycle_runs:
  assumes "request_run ls ks s" and "\<And>i. qe_cacheLineSize (es i) = ls" and "inj (\<lambda>i. qe_packet (es i))"
    and "\<And>i. n \<le> i \<Longrightarrow> qe_packet (es i) \<notin> pk_id ` set ks"
  shows "\<exists>ks' s'. service_loop m es n ks s = Some (ks', s') \<and> request_run ls ks' s'"
  using assms
proof (induction m arbitrary: n ks s)
  case (Suc m)
  obtain k s1 where k: "serviceDVRPrefetchRequest (es n) s = Some (k, s1)"
    using service_ok [OF request_run_ok [OF Suc.prems(1)] Suc.prems(2,4)] by blast
  have r: "request_run ls (in_flight k ks) s1" by (rule request_run.service [OF Suc.prems(1,2) _ k]) (simp add: Suc.prems(4))
  have f: "(case k of None \<Rightarrow> ks | Some k' \<Rightarrow> k' # ks) = in_flight k ks" by (cases k) simp_all
  have id: "pk_id k' = qe_packet (es n)" if "k = Some k'" for k' using service_packet k that by blast
  have fresh: "qe_packet (es i) \<notin> pk_id ` set (in_flight k ks)" if "n + 1 \<le> i" for i
    using Suc.prems(3) Suc.prems(4) [of i] id that by (cases k) (auto dest: injD)
  show ?case unfolding service_loop.simps Let_def k using Suc.prems(1) r Suc.IH [OF r Suc.prems(2,3) fresh] by (auto simp: f)
qed simp

text \<open>
  C5. The books of the helper's memory requests agree with the packets in flight, whatever the order of requests and responses: at
  most sixteen packets are in flight and the occupancy counts them; the load entries are theirs, each waiting for
  its response at its addresses; the counts of outstanding lines and of outstanding dependent lines are
  the numbers of packets of that line; the quality tracker knows the packets. So issuing a request never fails
  an assertion or the tracker's duplicate check, and neither does any response.
\<close>

theorem requests_accounted:
  assumes "request_run ls ks s"
  shows "rc_occupancy s = length ks \<and> length ks \<le> 16 \<and>
    dom (rc_entries s) = pk_loadId ` set ks \<and> (\<forall>k \<in> set ks. \<exists>en. rc_entries s (pk_loadId k) = Some en \<and> waiting k en) \<and>
    rc_outstandingLines s = tally (packet_line ls) ks \<and> rc_dependentLines s = tally (packet_line ls) (filter dependent ks) \<and>
    dom (qt_outstanding (rc_quality s)) = pk_id ` set ks \<and>
    (\<forall>e. qe_cacheLineSize e = ls \<and> qe_packet e \<notin> pk_id ` set ks \<longrightarrow> serviceDVRPrefetchRequest e s \<noteq> None) \<and>
    (\<forall>e. \<forall>k \<in> set ks. \<forall>data. qe_cacheLineSize e = ls \<longrightarrow> completeDVRPrefetch e k data s \<noteq> None)"
proof -
  have ok: "requests_ok ls ks s" by (rule request_run_ok [OF assms])
  have "serviceDVRPrefetchRequest e s \<noteq> None" if "qe_cacheLineSize e = ls \<and> qe_packet e \<notin> pk_id ` set ks" for e
    using service_ok [OF ok, of e] that by auto
  moreover have "completeDVRPrefetch e k data s \<noteq> None" if "k \<in> set ks" "qe_cacheLineSize e = ls" for e k data
    using response_ok [OF ok that, of data] by auto
  ultimately show ?thesis using ok unfolding requests_ok_def DvrHelperLoadQueueCapacity_def by blast
qed

text \<open>A source request and a dependent request of one line, serviced one after the other.\<close>

definition line_request :: "addr \<Rightarrow> bool \<Rightarrow> prefetch_address" where
  "line_request address source =
     \<lparr>pa_address = address, pa_pc = 0x100, pa_tid = 0, pa_readyTick = 0, pa_source = source, pa_oracle = False, pa_nested = False,
      pa_relations = \<lparr>rel_count = 0, rel_scales = (\<lambda>i. 0), rel_offsets = (\<lambda>i. 0), rel_masks = (\<lambda>i. 0), rel_patterns = (\<lambda>i. 0)\<rparr>,
      pa_replay = None, pa_helperRegs = None, pa_predicate = None, pa_lane = 0\<rparr>"

definition line_env :: "u64 \<Rightarrow> request_env" where
  "line_env packet_id =
     \<lparr>qe_programs = (\<lambda>p. sample_program), qe_now = 5, qe_cacheLineSize = 64, qe_decoupledIssue = True, qe_issueWidth = 8, qe_lsuWidth = 2, qe_mainIssues = 0,
      qe_mainALU = 0, qe_mainLSU = 0, qe_computeIssues = 0, qe_freeLoadEntry = (\<lambda>tid. True), qe_translate = (\<lambda>a tid. Some a), qe_tryTiming = True,
      qe_sendTiming = True, qe_packet = packet_id, qe_vectorChunkModel = True, qe_elementsPerChunk = 8, qe_dependentPrefetch = True, qe_maxUops = 64,
      qe_relations = (\<lambda>t pc. None)\<rparr>"

definition line_cpu :: request_cpu where
  "line_cpu =
     \<lparr>rc_thread = HT_new, rc_files = \<lparr>hf_files = (\<lambda>i. HR_new), hf_bank = None\<rparr>,
      rc_predicates = (\<lambda>g. \<lparr>pg_generation = 0, pg_expectedLanes = 0, pg_terminalLanes = 0, pg_terminalMask = [],
        pg_tracker = \<lparr>pt_lanes = 0, pt_paths = 0, pt_masks = [], pt_patterns = [], pt_selected = [], pt_unmatched = [], pt_observed = []\<rparr>,
        pg_divergenceCounted = False, pg_reported = False, pg_sourceTranslationFaulted = False\<rparr>),
      rc_quality = \<lparr>qt_counts = zero_counters, qt_shadow = \<lparr>sc_sets = [[]], sc_ways = 1, sc_lineBytes = 64\<rparr>, qt_outstanding = Map.empty, qt_byLine = [],
        qt_prefetched = Map.empty, qt_late = {}, qt_victims = {}\<rparr>,
      rc_queue = [line_request 0x1000 True, line_request 0x1008 False], rc_queuedAddresses = {0x1000, 0x1008}, rc_queuedLines = {0x1000},
      rc_outstandingAddresses = {}, rc_outstandingLines = Map.empty, rc_dependentLines = Map.empty, rc_dependentCompleted = {},
      rc_completedLines = Map.empty, rc_alternateLines = {}, rc_oracleLines = {}, rc_entries = Map.empty, rc_nextLoadId = 0, rc_occupancy = 0,
      rc_helperIssues = 0, rc_lsuIssues = 0, rc_nextHelperId = 0\<rparr>"

definition line_packets :: "packet list" where
  "line_packets = [new_packet (line_env 2) (line_request 0x1008 False) 1 0x1008, new_packet (line_env 1) (line_request 0x1000 True) 0 0x1000]"

lemmas service_simps = serviceDVRPrefetchRequest_def send_request_def account_issue_def allocate_entry_def pop_request_def slots_taken_def HT_canIssue_def
  HT_wakeForMemoryRequest_def HT_issue_def Quality_issued_def dvrPrefetchBytes_def DvrHelperIssueWidth_def DvrHelperLoadQueueCapacity_def
  line_env_def line_request_def new_packet_def

lemma first_serviced: "\<exists>s1. serviceDVRPrefetchRequest (line_env 1) line_cpu = Some (Some (line_packets ! 1), s1) \<and>
    rc_queue s1 = [line_request 0x1008 False] \<and> rc_nextLoadId s1 = 1 \<and> rc_occupancy s1 = 1 \<and> rc_helperIssues s1 = 1 \<and> rc_lsuIssues s1 = 1 \<and>
    ht_state (rc_thread s1) = HelperDraining \<and> ht_readyUops (rc_thread s1) = 0 \<and> ht_issuedUops (rc_thread s1) = 1 \<and> ht_maxUops (rc_thread s1) = 1 \<and>
    qt_outstanding (rc_quality s1) 2 = None"
  by (simp add: service_simps line_cpu_def line_packets_def Let_def HT_new_def)

lemma second_serviced:
  assumes "rc_queue s1 = [line_request 0x1008 False]" "rc_nextLoadId s1 = 1" "rc_occupancy s1 = 1" "rc_helperIssues s1 = 1" "rc_lsuIssues s1 = 1"
    and "ht_state (rc_thread s1) = HelperDraining" "ht_readyUops (rc_thread s1) = 0" "ht_issuedUops (rc_thread s1) = 1" "ht_maxUops (rc_thread s1) = 1"
    and "qt_outstanding (rc_quality s1) 2 = None"
  shows "\<exists>s2. serviceDVRPrefetchRequest (line_env 2) s1 = Some (Some (line_packets ! 0), s2)"
  using assms by (simp add: service_simps line_packets_def Let_def)

lemma line_run: "\<exists>s. request_run 64 line_packets s"
proof -
  have r0: "request_run 64 [] line_cpu" by (rule request_run.start) (simp_all add: line_cpu_def)
  obtain s1 where s1: "serviceDVRPrefetchRequest (line_env 1) line_cpu = Some (Some (line_packets ! 1), s1)"
      "rc_queue s1 = [line_request 0x1008 False]" "rc_nextLoadId s1 = 1" "rc_occupancy s1 = 1" "rc_helperIssues s1 = 1" "rc_lsuIssues s1 = 1"
      "ht_state (rc_thread s1) = HelperDraining" "ht_readyUops (rc_thread s1) = 0" "ht_issuedUops (rc_thread s1) = 1" "ht_maxUops (rc_thread s1) = 1"
      "qt_outstanding (rc_quality s1) 2 = None"
    using first_serviced by blast
  have r1: "request_run 64 [line_packets ! 1] s1"
    using request_run.service [OF r0 _ _ s1(1)] by (simp add: line_env_def)
  obtain s2 where s2: "serviceDVRPrefetchRequest (line_env 2) s1 = Some (Some (line_packets ! 0), s2)" using second_serviced [OF s1(2-)] by blast
  have "request_run 64 (in_flight (Some (line_packets ! 0)) [line_packets ! 1]) s2"
    by (rule request_run.service [OF r1 _ _ s2]) (simp_all add: line_env_def line_packets_def new_packet_def)
  moreover have "line_packets = in_flight (Some (line_packets ! 0)) [line_packets ! 1]" by (simp add: line_packets_def)
  ultimately show ?thesis by metis
qed

theorem requests_accounted_witness:
  "\<exists>s. request_run 64 line_packets s \<and> rc_occupancy s = 2 \<and> rc_outstandingLines s 0x1000 = Some 2 \<and> rc_dependentLines s 0x1000 = Some 1 \<and>
    dom (qt_outstanding (rc_quality s)) = {1, 2}"
proof -
  obtain s where s: "request_run 64 line_packets s" using line_run by blast
  have t: "tally (packet_line 64) line_packets 0x1000 = Some 2" "tally (packet_line 64) (filter dependent line_packets) 0x1000 = Some 1"
    by (simp_all add: tally_def packet_line_def dependent_def line_packets_def new_packet_def line_request_def)
  have "length line_packets = 2" "pk_id ` set line_packets = {1, 2}" by (auto simp: line_packets_def new_packet_def line_env_def)
  then show ?thesis using requests_accounted [OF s] s t by (intro exI [of _ s]) simp
qed

end
