(* ===== verification/DVR_Request_Walk.thy ===== *)
theory DVR_Request_Walk
  imports DVR_Request_Run
begin

text \<open>
  The scalar replay of a source value (\<open>CPU::replayDVRSource\<close>) and the vector replay agree: the address it requests is the one a lane
  of the vector replay computes. The exception is the second operand of word products and of remainders.
\<close>

section \<open>Operands\<close>

definition dropped_operand_semantics :: "semantic list" where
  "dropped_operand_semantics = [MultiplyWord, Remainder, RemainderUnsigned, RemainderWord, RemainderUnsignedWord]"

lemma compute_second_operand:
  assumes "sem \<notin> set second_operand_semantics" "sem \<notin> set dropped_operand_semantics"
  shows "Uop_compute sem imm a b = Uop_compute sem imm a b'"
  using assms by (cases sem) (simp_all add: second_operand_semantics_def dropped_operand_semantics_def)

lemma walk_source1_reg:
  assumes "walk_source1 u regs = Some b" "up_semantic u \<in> set second_operand_semantics \<or> up_conditional u"
  shows "b = reg_of regs (up_source1 u)"
  using assms by (auto simp: walk_source1_def reg_of_def split: if_splits)

lemma walk_result:
  assumes b: "walk_source1 u regs = Some b" and a: "up_source0 u < int HR_NumArchitecturalRegs"
    and sem: "up_semantic u \<notin> set dropped_operand_semantics"
  shows "Uop_evaluate u (if 0 \<le> up_source0 u then regs (nat (up_source0 u)) else 0) b = scalar_result u regs"
proof -
  have s0: "(if 0 \<le> up_source0 u then regs (nat (up_source0 u)) else 0) = reg_of regs (up_source0 u)" using a by (simp add: reg_of_def)
  show ?thesis
  proof (cases "up_semantic u \<in> set second_operand_semantics")
    case True
    then show ?thesis using walk_source1_reg [OF b] by (simp add: s0 scalar_result_def)
  next
    case False
    then show ?thesis using compute_second_operand [OF False sem] by (simp add: s0 scalar_result_def Uop_evaluate_def)
  qed
qed

section \<open>Programs\<close>

text \<open>
  No word product and no remainder; a jump computes its link value and writes no register; loads are what
  the recorder marked as loads; no instruction resumes an alternate path.
\<close>

definition plain_uop :: "uop \<Rightarrow> bool" where
  "plain_uop u \<longleftrightarrow> up_semantic u \<notin> set dropped_operand_semantics \<and> (up_load u \<longleftrightarrow> up_semantic u \<in> set replayed_loads) \<and>
     (up_alternatePath u \<longrightarrow> up_alternateResumePC u = 0) \<and>
     (up_control u \<and> \<not> up_conditional u \<and> up_branchTargetPC u \<noteq> 0 \<longrightarrow> up_semantic u = AddImmediate \<and> up_destination u < 0)"

definition plain_program :: "replay_template \<Rightarrow> bool" where
  "plain_program prog \<longleftrightarrow> wf_program prog \<and> rt_scalarCount prog \<le> rt_count prog \<and> rt_initialRegs prog 0 = 0 \<and>
     0 < rt_triggerDestination prog \<and> rt_triggerDestination prog < int HR_NumArchitecturalRegs \<and>
     (\<forall>i \<in> {1..<rt_count prog}. plain_uop (rt_uops prog i))"

lemma walk_find_pc: "walk_find prog pc = Some j \<Longrightarrow> 1 \<le> j \<and> j < rt_count prog \<and> up_pc (rt_uops prog j) = pc"
  by (auto simp: walk_find_def find_Some_iff)

section \<open>The walk\<close>

text \<open>One step of the walk: the position and the registers after it.\<close>

definition walk_next :: "replay_template \<Rightarrow> nat \<Rightarrow> (nat \<Rightarrow> reg_val) \<Rightarrow> nat \<Rightarrow> (nat \<Rightarrow> reg_val) \<Rightarrow> bool" where
  "walk_next prog i R j R' \<longleftrightarrow> 1 \<le> j \<and> R' 0 = 0 \<and>
     (j < rt_count prog \<longrightarrow> scalar_step prog {} (At (up_pc (rt_uops prog i)), R) (At (up_pc (rt_uops prog j)), R'))"

lemma jump_step:
  assumes f: "findPC prog pc = Some i" and pl: "plain_uop (rt_uops prog i)"
    and j: "\<not> up_conditional (rt_uops prog i)" "up_control (rt_uops prog i)" "up_branchTargetPC (rt_uops prog i) \<noteq> 0"
  shows "scalar_step prog {} (At pc, R) (At (up_branchTargetPC (rt_uops prog i)), R)"
proof -
  let ?u = "rt_uops prog i"
  have u: "up_semantic ?u = AddImmediate" "up_destination ?u < 0" "\<not> (up_alternatePath ?u \<and> up_alternateResumePC ?u \<noteq> 0)" "\<not> up_load ?u"
    using pl j by (auto simp: plain_uop_def replayed_loads_def)
  obtain v where v: "scalar_result ?u R = Some v" by (simp add: scalar_result_def Uop_evaluate_def u)
  have "scalar_step prog {} (At pc, R) (At (successor prog i), set_reg (up_destination ?u) v R)" by (rule scalar_step.compute [OF f j(1) v u(4)])
  moreover have "successor prog i = up_branchTargetPC ?u" "set_reg (up_destination ?u) v R = R" using u j by (auto simp: successor_def set_reg_def)
  ultimately show ?thesis by simp
qed

lemma compute_step:
  assumes f: "findPC prog pc = Some i" and pl: "plain_uop (rt_uops prog i)" and nx: "i + 1 < rt_count prog"
    and c: "\<not> up_conditional (rt_uops prog i)" "\<not> (up_control (rt_uops prog i) \<and> up_branchTargetPC (rt_uops prog i) \<noteq> 0)"
      "up_semantic (rt_uops prog i) \<notin> set replayed_loads" "scalar_result (rt_uops prog i) R = Some v"
    and d: "0 < up_destination (rt_uops prog i)" "up_destination (rt_uops prog i) < int HR_NumArchitecturalRegs"
  shows "scalar_step prog {} (At pc, R) (At (up_pc (rt_uops prog (i + 1))), R(nat (up_destination (rt_uops prog i)) := v))"
proof -
  have l: "\<not> up_load (rt_uops prog i)" using pl c(3) by (simp add: plain_uop_def)
  have "successor prog i = up_pc (rt_uops prog (i + 1))" using pl c(2) nx by (auto simp: successor_def plain_uop_def next_in_program_def Let_def)
  then show ?thesis using scalar_step.compute [OF f c(1,4) l, of "{}"] d by (simp add: set_reg_def)
qed

lemma walk_unfold:
  assumes w: "replay_walk prog (Suc steps) i R alt = Some res" and p: "plain_program prog" and i: "1 \<le> i" and R: "R 0 = 0"
  shows "i < rt_scalarCount prog \<and>
    (up_semantic (rt_uops prog i) \<in> set replayed_loads \<and> scalar_result (rt_uops prog i) R = Some (fst (snd res)) \<and> fst res = i \<or>
     (\<exists>j R' alt'. walk_next prog i R j R' \<and> replay_walk prog steps j R' alt' = Some res))"
proof -
  let ?u = "rt_uops prog i" and ?pc = "up_pc (rt_uops prog i)"
  let ?a = "if 0 \<le> up_source0 ?u then R (nat (up_source0 ?u)) else 0"
  have wf: "wf_program prog" using p by (simp add: plain_program_def)
  have lt: "i < rt_scalarCount prog" using w by (simp split: if_splits)
  then have ic: "i < rt_count prog" using p by (simp add: plain_program_def)
  have pl: "plain_uop ?u" using p i ic by (simp add: plain_program_def)
  have f: "findPC prog ?pc = Some i" by (rule findPC_self [OF wf i ic])
  have s0: "up_source0 ?u < int HR_NumArchitecturalRegs" using w by (simp add: Let_def split: if_splits)
  obtain b where b: "walk_source1 ?u R = Some b" using w by (simp add: Let_def split: if_splits option.splits)
  have sem: "up_semantic ?u \<notin> set dropped_operand_semantics" using pl by (simp add: plain_uop_def)
  have res: "Uop_evaluate ?u ?a b = scalar_result ?u R" by (rule walk_result [OF b s0 sem])
  have out: "\<not> i \<ge> rt_scalarCount prog" "\<not> up_source0 ?u \<ge> int HR_NumArchitecturalRegs" using lt s0 by simp_all
  note w' = w [unfolded replay_walk.simps Let_def if_not_P [OF out(1)] if_not_P [OF out(2)] b option.case res]
  consider (branch) "up_conditional ?u" | (jump) "\<not> up_conditional ?u" "up_control ?u" "up_branchTargetPC ?u \<noteq> 0"
    | (skip) "\<not> up_conditional ?u" "\<not> (up_control ?u \<and> up_branchTargetPC ?u \<noteq> 0)" "skipped ?u"
    | (eval) "\<not> up_conditional ?u" "\<not> (up_control ?u \<and> up_branchTargetPC ?u \<noteq> 0)" "\<not> skipped ?u" by blast
  then show ?thesis
  proof cases
    case branch
    let ?d = "if up_tainted ?u then Uop_evaluateBranch ?u ?a b else Some (up_branchTaken ?u)"
    obtain d where d: "?d = Some d" using w' branch by (cases ?d) auto
    let ?t = "if d then up_branchTargetPC ?u else up_fallthroughPC ?u"
    have "scalar_direction ?u R = Some d" using d walk_source1_reg [OF b] branch s0 by (auto simp: scalar_direction_def reg_of_def split: if_splits)
    then have st: "scalar_step prog {} (At ?pc, R) (At ?t, R)" by (rule scalar_step.branch [OF f branch])
    obtain j alt' where j: "walk_find prog ?t = Some j" "replay_walk prog steps j R alt' = Some res"
      using w' branch unfolding if_P [OF branch] d by (auto split: option.splits if_splits)
    have "walk_next prog i R j R" using walk_find_pc [OF j(1)] st R by (simp add: walk_next_def)
    then show ?thesis using lt j(2) by blast
  next
    case jump
    then obtain j where j: "walk_find prog (up_branchTargetPC ?u) = Some j" "replay_walk prog steps j R alt = Some res"
      using w' by (auto split: option.splits if_splits)
    have "walk_next prog i R j R" using jump_step [OF f pl jump, of R] walk_find_pc [OF j(1)] R by (simp add: walk_next_def)
    then show ?thesis using lt j(2) by blast
  next
    case skip
    then have r: "replay_walk prog steps (i + 1) R alt = Some res" using w' by auto
    have "walk_next prog i R (i + 1) R" using scalar_step.nop [OF f skip(3)] R by (auto simp: walk_next_def)
    then show ?thesis using lt r by blast
  next
    case eval
    obtain v where v: "scalar_result ?u R = Some v" using w' eval by (auto split: option.splits)
    show ?thesis
    proof (cases "up_semantic ?u \<in> set replayed_loads")
      case True
      then have "res = (i, v, alt)" using w' eval v by auto
      then show ?thesis using lt True v by simp
    next
      case False
      let ?R = "R(nat (up_destination ?u) := v)"
      have d: "0 < up_destination ?u" "up_destination ?u < int HR_NumArchitecturalRegs" and r: "replay_walk prog steps (i + 1) (?R(0 := 0)) alt = Some res"
        using w' eval v False by (auto split: if_splits)
      have R': "?R(0 := 0) = ?R" using R d(1) by (auto simp: fun_eq_iff)
      have "walk_next prog i R (i + 1) ?R" using compute_step [OF f pl _ eval(1,2) False v d] d(1) R by (auto simp: walk_next_def)
      then show ?thesis using lt r R' by auto
    qed
  qed
qed

lemma walk_reaches:
  assumes "replay_walk prog steps i R alt = Some res" and p: "plain_program prog" and "1 \<le> i" and "R 0 = 0"
  shows "\<exists>R'. (scalar_step prog {})\<^sup>*\<^sup>* (At (up_pc (rt_uops prog i)), R) (At (up_pc (rt_uops prog (fst res))), R') \<and>
    up_semantic (rt_uops prog (fst res)) \<in> set replayed_loads \<and> scalar_result (rt_uops prog (fst res)) R' = Some (fst (snd res)) \<and>
    i < rt_scalarCount prog"
  using assms(1,3,4)
proof (induction steps arbitrary: i R alt)
  case (Suc steps)
  note u = walk_unfold [OF Suc.prems(1) p Suc.prems(2,3)]
  then consider (load) "up_semantic (rt_uops prog i) \<in> set replayed_loads" "scalar_result (rt_uops prog i) R = Some (fst (snd res))" "fst res = i"
    | (step) j R' alt' where "walk_next prog i R j R'" "replay_walk prog steps j R' alt' = Some res" by blast
  then show ?case
  proof cases
    case load
    then show ?thesis using u by (intro exI [of _ R]) simp
  next
    case step
    obtain R'' where r: "(scalar_step prog {})\<^sup>*\<^sup>* (At (up_pc (rt_uops prog j)), R') (At (up_pc (rt_uops prog (fst res))), R'')"
        "up_semantic (rt_uops prog (fst res)) \<in> set replayed_loads" "scalar_result (rt_uops prog (fst res)) R'' = Some (fst (snd res))" "j < rt_scalarCount prog"
      using Suc.IH [OF step(2)] step(1) by (auto simp: walk_next_def)
    have "j < rt_count prog" using r(4) p by (simp add: plain_program_def)
    then have "scalar_step prog {} (At (up_pc (rt_uops prog i)), R) (At (up_pc (rt_uops prog j)), R')" using step(1) by (simp add: walk_next_def)
    then show ?thesis using r u by (blast intro: converse_rtranclp_into_rtranclp)
  qed
qed simp


definition sample_packet :: packet where
  "sample_packet = \<lparr>pk_id = 1, pk_vaddr = 0x1000, pk_paddr = 0x1000, pk_bytes = 8, pk_pc = 0x100, pk_source = True, pk_oracle = False, pk_loadId = 0,
     pk_issueTick = 0, pk_valueResponse = False, pk_sender = sample_sender\<rparr>"

lemma sample_plain: "plain_program sample_program"
proof -
  have "{1..<rt_count sample_program} = {1, 2, 3, 4}" by (auto simp: sample_program_def)
  then show ?thesis unfolding plain_program_def using sample_wf
    by (simp add: sample_program_def plain_uop_def replayed_loads_def dropped_operand_semantics_def empty_uop_def HR_NumArchitecturalRegs_def)
qed

lemma sample_replay: "replay_walk sample_program (2 * rt_count sample_program) 1
    (((rt_initialRegs sample_program)(0 := 0))(nat (rt_triggerDestination sample_program) := 7)) False = Some (4, 0x4007, True)"
  by code_simp


text \<open>
  Why word products are excluded: their second operand is not in the list of \<open>replayDVRSource\<close>, so the product is computed with zero
  and the address of the load that follows does not depend on the source value at all. The vector replay uses both operands.
\<close>

lemma word_product_dropped:
  assumes "up_semantic (rt_uops prog 1) = MultiplyWord" "\<not> up_conditional (rt_uops prog 1)" "\<not> up_control (rt_uops prog 1)"
    and "0 < up_destination (rt_uops prog 1)" "up_destination (rt_uops prog 1) < int HR_NumArchitecturalRegs"
    and "up_source0 (rt_uops prog 1) < int HR_NumArchitecturalRegs"
    and "up_semantic (rt_uops prog 2) = LoadDouble" "\<not> up_conditional (rt_uops prog 2)" "\<not> up_control (rt_uops prog 2)"
    and "up_source0 (rt_uops prog 2) = up_destination (rt_uops prog 1)" "2 < rt_scalarCount prog"
  shows "replay_walk prog (Suc (Suc n)) 1 R alt = Some (2, up_immediate (rt_uops prog 2), alt)"
proof -
  have s1: "walk_source1 (rt_uops prog 1) R = Some 0" "\<And>R'. walk_source1 (rt_uops prog 2) R' = Some 0"
    using assms by (simp_all add: walk_source1_def second_operand_semantics_def)
  have ev: "\<And>a. Uop_evaluate (rt_uops prog 1) a 0 = Some 0" "\<And>a. Uop_evaluate (rt_uops prog 2) 0 a = Some (up_immediate (rt_uops prog 2))"
    using assms by (simp_all add: Uop_evaluate_def sext32_def low32_def)
  have no: "up_semantic (rt_uops prog 1) \<notin> set replayed_loads" "up_semantic (rt_uops prog 2) \<in> set replayed_loads"
      "\<not> skipped (rt_uops prog 1)" "\<not> skipped (rt_uops prog 2)" using assms by (simp_all add: replayed_loads_def skipped_def)
  have two: "replay_walk prog (Suc n) 2 R' alt = Some (2, up_immediate (rt_uops prog 2), alt)" if "R' (nat (up_destination (rt_uops prog 1))) = 0" for R'
    using assms s1(2) [of R'] ev(2) no(2,4) that by (simp add: Let_def)
  show ?thesis using assms s1(1) ev(1) no(1,3) two by (simp add: Let_def numeral_2_eq_2)
qed

end
