(* ===== verification/DVR_Launch.thy ===== *)
theory DVR_Launch
  imports DVR_Request_Run DVR_LoopBound DVR_NDM
begin

unbundle bit_operations_syntax

text \<open>
  The launch of a helper program (\<open>src/code/gem5-runahead-dev-pre/src/cpu/o3/cpu.cc\<close>): the ordinary launch after a
  discovery (3068-3310), the plain vector runahead launch (3312-3339) and the nested launch (3476-3701).
  A launch turns the recording into a replay template, sets up a register file, chooses the trained address relations
  of the trigger with the bits that tell them apart, starts the helper and queues one source
  request per future iteration.

  The new template, register file and predicate generation get indices that the environment chooses. A
  register file that could not be set up is destroyed again. The vector instruction register of a template feeds
  statistics only and is left out. \<open>None\<close> is the failed assertion on the new register file.
\<close>

section \<open>Relations of the trigger\<close>

definition MaxRelations :: nat where
  "MaxRelations = 4"

definition trained_relations :: "addr \<Rightarrow> relation_table \<Rightarrow> address_relation list" where
  "trained_relations pc t =
     take MaxRelations (filter ar_trained (List.map_filter (\<lambda>flr. at_relations t (pc, flr)) (at_triggerRelations t pc)))"

definition stable_relations :: "address_relation list \<Rightarrow> relation_set" where
  "stable_relations rs =
     (let at_index = (\<lambda>f i. if i < length rs then f (rs ! i) else 0)
      in \<lparr>rel_count = length rs, rel_scales = at_index ar_scale, rel_offsets = at_index ar_offset, rel_masks = at_index ar_stableMask,
          rel_patterns = at_index (\<lambda>r. ar_pattern r AND ar_stableMask r)\<rparr>)"

text \<open>The bits that are stable on this path and on another one, with different values.\<close>

definition discriminating :: "relation_set \<Rightarrow> nat \<Rightarrow> reg_val" where
  "discriminating rel lhs =
     fold (\<lambda>rhs d. if lhs = rhs then d
         else d OR (rel_masks rel lhs AND rel_masks rel rhs AND (rel_patterns rel lhs XOR rel_patterns rel rhs))) [0..<rel_count rel] 0"

definition discriminated :: "relation_set \<Rightarrow> relation_set" where
  "discriminated rel =
     (if rel_count rel > 1
      then rel\<lparr>rel_masks := \<lambda>i. if i < rel_count rel then discriminating rel i else rel_masks rel i,
               rel_patterns := \<lambda>i. if i < rel_count rel then rel_patterns rel i AND discriminating rel i else rel_patterns rel i\<rparr>
      else rel)"

definition launch_relations :: "addr \<Rightarrow> relation_table \<Rightarrow> relation_set" where
  "launch_relations pc t = discriminated (stable_relations (trained_relations pc t))"

definition new_generation :: "u64 \<Rightarrow> nat \<Rightarrow> relation_set \<Rightarrow> predicate_generation" where
  "new_generation generation lanes rel =
     \<lparr>pg_generation = generation, pg_expectedLanes = lanes, pg_terminalLanes = 0, pg_terminalMask = empty_mask,
      pg_tracker = Predicate_begin lanes (rel_count rel) (map (rel_masks rel) [0..<MaxRelations]) (map (rel_patterns rel) [0..<MaxRelations])
        Predicate_initial,
      pg_divergenceCounted = False, pg_reported = False, pg_sourceTranslationFaulted = False\<rparr>"

section \<open>The template\<close>

definition scalar_count :: "recorder \<Rightarrow> nat" where
  "scalar_count r = fold (\<lambda>i n. if up_load (rc_uops r ! i) then i + 1 else n) [1..<rc_count r] 0"

definition external_ok :: "u32 \<Rightarrow> bool" where
  "external_ok external \<longleftrightarrow> list_all (\<lambda>reg. bit external reg \<longrightarrow> reg < HR_NumArchitecturalRegs) [0..<32]"

text \<open>The check can never fail: a 32-bit mask names no other register.\<close>

lemma external_never_rejects: "external_ok external"
  by (auto simp: external_ok_def list_all_iff HR_NumArchitecturalRegs_def)

definition direct_jump :: "uop \<Rightarrow> bool" where
  "direct_jump u \<longleftrightarrow> up_control u \<and> \<not> up_conditional u \<and> up_branchTargetPC u \<noteq> 0 \<and> up_intDestinations u = 0"

definition terminal_indirect :: "uop \<Rightarrow> bool" where
  "terminal_indirect u \<longleftrightarrow> up_control u \<and> \<not> up_conditional u \<and> up_branchTargetPC u = 0 \<and> up_intDestinations u = 0"

text \<open>The nested launch does not accept indirect jumps at the end.\<close>

fun validate_uops :: "bool \<Rightarrow> uop list \<Rightarrow> u32 \<Rightarrow> bool \<Rightarrow> bool" where
  "validate_uops indirect [] defined_regs valid = valid"
| "validate_uops indirect (u # us) defined_regs valid =
     validate_uops indirect us (defined_regs OR up_intDestinations u)
       (valid \<and> external_ok (up_intSources u AND NOT defined_regs) \<and>
        (up_semantic u = Unsupported \<longrightarrow> skipped u \<or> direct_jump u \<or> indirect \<and> terminal_indirect u))"

definition representable :: "int \<Rightarrow> bool" where
  "representable d \<longleftrightarrow> 0 < d \<and> d < int HR_NumArchitecturalRegs"

definition make_template :: "bool \<Rightarrow> addr \<Rightarrow> addr \<Rightarrow> loop_bound \<Rightarrow> recorder \<Rightarrow> (nat \<Rightarrow> reg_val) \<Rightarrow> replay_template" where
  "make_template indirect pc flr lb r finish_regs =
     (let n = rc_count r; scalar = scalar_count r; d = (if n \<noteq> 0 then up_destination (rc_uops r ! 0) else - 1)
      in \<lparr>rt_triggerPC = pc, rt_stridePC = if lb_loopTargetPC lb \<noteq> 0 then lb_loopTargetPC lb else pc, rt_loopControlPC = lb_loopBranchPC lb,
          rt_finalLoadPC = if n \<noteq> 0 \<and> scalar > 1 then up_pc (rc_uops r ! (scalar - 1)) else 0, rt_count = n, rt_scalarCount = scalar,
          rt_triggerDestination = d, rt_continuePastFLR = Recorder_hasConditionalBetween flr (lb_loopBranchPC lb) r,
          rt_uops = (\<lambda>i. if i < n then rc_uops r ! i else empty_uop), rt_initialRegs = finish_regs,
          rt_valid = (n \<noteq> 0 \<and> scalar > 1 \<and> representable d \<and>
            validate_uops indirect (map (\<lambda>i. rc_uops r ! i) [1..<scalar]) (1 OR (if representable d then push_bit (nat d) 1 else 0)) True)\<rparr>)"

section \<open>Launching\<close>

record launch_env =
  lv_request :: request_env
  lv_recorder :: recorder
  lv_loopBound :: loop_bound
  lv_finalLoadPC :: addr
  lv_maxLanes :: nat
  lv_template :: nat
  lv_file :: nat
  lv_predicate :: nat

record launch_cpu =
  lc_requests :: request_cpu
  lc_programs :: programs
  lc_relations :: relation_table
  lc_nextPredicate :: u64
  lc_activePredicate :: "nat option"

definition new_helper_file :: "replay_template \<Rightarrow> reg_bank option \<Rightarrow> bool \<times> helper_regs" where
  "new_helper_file prog bank =
     (let h = HR_initialize (rt_initialRegs prog) (HR_new\<lparr>hr_bank := bank\<rparr>)
      in if 0 \<le> rt_triggerDestination prog \<and> rt_triggerDestination prog < int HR_NumArchitecturalRegs
         then HR_vectorize (nat (rt_triggerDestination prog)) h else (True, h))"

definition queue_lane :: "prefetch_address \<Rightarrow> request_cpu \<Rightarrow> request_cpu" where
  "queue_lane r s =
     (if pa_address r \<in> rc_queuedAddresses s \<or> pa_address r \<in> rc_outstandingAddresses s
      then retireDVRPredicateLane (pa_predicate r) (pa_lane r) None s
      else s\<lparr>rc_queue := rc_queue s @ [r], rc_queuedAddresses := insert (pa_address r) (rc_queuedAddresses s)\<rparr>)"

definition start_launch :: "launch_env \<Rightarrow> addr \<Rightarrow> replay_template \<Rightarrow> nat \<Rightarrow> nat \<Rightarrow> nat \<Rightarrow> prefetch_address list \<Rightarrow> launch_cpu \<Rightarrow> launch_cpu option" where
  "start_launch v pc prog uops lanes tid requests s =
     (let q = lc_requests s; fs = rc_files q; (ok, h) = new_helper_file prog (hf_bank fs)
      in if \<not> ok then Some (s\<lparr>lc_requests := q\<lparr>rc_files := fs\<lparr>hf_bank := hr_bank (HR_releaseAll h)\<rparr>\<rparr>\<rparr>)
         else if \<not> HR_conservationValid h then None
         else
           (let q1 = q\<lparr>rc_files := HF_update (lv_file v) (\<lambda>_. h) fs\<rparr>;
                q2 = startDVRHelper (lv_request v) pc uops lanes (Recorder_resourceCounts (lv_recorder v)) (Some (lv_template v)) tid q1
            in Some (s\<lparr>lc_requests := fold queue_lane requests q2, lc_programs := (lc_programs s)(lv_template v := prog)\<rparr>)))"

definition source_request :: "launch_env \<Rightarrow> addr \<Rightarrow> nat \<Rightarrow> bool \<Rightarrow> relation_set \<Rightarrow> nat option \<Rightarrow> addr \<Rightarrow> nat \<Rightarrow> prefetch_address" where
  "source_request v pc tid nested rel predicate address lane =
     \<lparr>pa_address = address, pa_pc = pc, pa_tid = tid, pa_readyTick = 0, pa_source = True, pa_oracle = False, pa_nested = nested,
      pa_relations = rel, pa_replay = Some (lv_template v), pa_helperRegs = Some (lv_file v), pa_predicate = predicate, pa_lane = lane\<rparr>"

definition admitted_lanes :: "nat \<Rightarrow> request_cpu \<Rightarrow> nat" where
  "admitted_lanes lanes q = min (min lanes Predicate_MaxLanes) (DvrMaxQueuedPrefetches - min (length (rc_queue q)) DvrMaxQueuedPrefetches)"

definition lane_address :: "addr \<Rightarrow> i64 \<Rightarrow> nat \<Rightarrow> addr" where
  "lane_address base stride lane = base + stride * of_nat lane"

definition launchDVRStridePrefetches :: "launch_env \<Rightarrow> nat \<Rightarrow> addr \<Rightarrow> addr \<Rightarrow> i64 \<Rightarrow> nat \<Rightarrow> (nat \<Rightarrow> reg_val) \<Rightarrow> launch_cpu \<Rightarrow> launch_cpu option" where
  "launchDVRStridePrefetches v tid current_address pc stride lanes0 finish_regs s =
     (let lanes = admitted_lanes lanes0 (lc_requests s) in
      if lanes = 0 then Some s
      else
        (let rel = launch_relations pc (lc_relations s); several = (rel_count rel > 1);
             predicate = (if several then Some (lv_predicate v) else None);
             s1 = (if several
                   then s\<lparr>lc_requests := (lc_requests s)\<lparr>rc_predicates := (rc_predicates (lc_requests s))
                            (lv_predicate v := new_generation (lc_nextPredicate s) lanes rel)\<rparr>,
                          lc_nextPredicate := lc_nextPredicate s + 1, lc_activePredicate := predicate\<rparr>
                   else s\<lparr>lc_activePredicate := None\<rparr>);
             prog = make_template True pc (lv_finalLoadPC v) (lv_loopBound v) (lv_recorder v) finish_regs
         in start_launch v pc prog (max 1 (rt_count prog)) lanes tid
              (map (\<lambda>lane. source_request v pc tid False rel predicate (lane_address current_address stride lane) (lane - 1)) [1..<lanes + 1]) s1))"

definition launchDVRVectorRunahead :: "launch_env \<Rightarrow> nat \<Rightarrow> addr \<Rightarrow> addr \<Rightarrow> i64 \<Rightarrow> request_cpu \<Rightarrow> request_cpu" where
  "launchDVRVectorRunahead v tid current_address pc stride s =
     (let lanes = min (lv_maxLanes v) Predicate_MaxLanes;
          s1 = s\<lparr>rc_queue := [], rc_queuedAddresses := {}, rc_queuedLines := {}\<rparr>;
          s2 = startDVRHelper (lv_request v) pc 1 lanes \<lparr>rs_alu = 0, rs_shift = 0, rs_multiply = 0, rs_lsu = 1\<rparr> None tid s1;
          requests = map (\<lambda>lane. \<lparr>pa_address = lane_address current_address stride lane, pa_pc = pc, pa_tid = tid, pa_readyTick = 0,
             pa_source = True, pa_oracle = False, pa_nested = False, pa_relations = stable_relations [], pa_replay = None, pa_helperRegs = None,
             pa_predicate = None, pa_lane = lane - 1\<rparr>) [1..<lanes + 1]
      in s2\<lparr>rc_queue := requests, rc_queuedAddresses := set (map pa_address requests)\<rparr>)"

section \<open>Nested launch\<close>

record invocation_batch =
  ib_triggerPC :: addr
  ib_bases :: "addr list"
  ib_innerLanes :: "nat list"
  ib_innerStrides :: "i64 list"
  ib_count :: nat

definition empty_batch :: invocation_batch where
  "empty_batch = \<lparr>ib_triggerPC = 0, ib_bases = replicate 16 0, ib_innerLanes = replicate 16 0, ib_innerStrides = replicate 16 0, ib_count = 0\<rparr>"

text \<open>The invocations to flatten: start, lanes and stride of each.\<close>

definition nested_invocations :: "ndm \<Rightarrow> invocation_batch \<Rightarrow> (addr \<times> nat \<times> i64) list" where
  "nested_invocations n b =
     (if nm_state n = Vectorizing
      then map (\<lambda>i. let inv = nm_invocations n ! i in (oi_innerStart inv, oi_innerLanes inv, oi_innerStride inv)) [0..<min (nm_invocationCount n) 16]
      else map (\<lambda>i. (ib_bases b ! i, ib_innerLanes b ! i, ib_innerStrides b ! i)) [0..<min (ib_count b) (length (ib_bases b))])"

definition flattened_lanes :: "(addr \<times> nat \<times> i64) list \<Rightarrow> nat" where
  "flattened_lanes invs = fold (\<lambda>(base, lanes, stride) flattened. flattened + min (min lanes Predicate_MaxLanes) (Predicate_MaxLanes - flattened)) invs 0"

definition total_inner_lanes :: "(addr \<times> nat \<times> i64) list \<Rightarrow> nat" where
  "total_inner_lanes invs = fold (\<lambda>(base, lanes, stride) total. total + min lanes Predicate_MaxLanes) invs 0"

text \<open>The two loops over invocations and their lanes, with the number of the flattened lane.\<close>

fun inner_loop :: "addr \<Rightarrow> i64 \<Rightarrow> nat \<Rightarrow> nat \<Rightarrow> nat \<Rightarrow> (nat \<times> addr) list" where
  "inner_loop base stride 0 lane flat_lane = []"
| "inner_loop base stride (Suc remaining) lane flat_lane =
     (if flat_lane < Predicate_MaxLanes
      then (flat_lane, lane_address base stride lane) # inner_loop base stride remaining (lane + 1) (flat_lane + 1)
      else [])"

fun outer_loop :: "(addr \<times> nat \<times> i64) list \<Rightarrow> nat \<Rightarrow> (nat \<times> addr) list" where
  "outer_loop [] flat_lane = []"
| "outer_loop ((base, lanes, stride) # invs) flat_lane =
     (let xs = inner_loop base stride lanes 1 flat_lane in xs @ outer_loop invs (flat_lane + length xs))"

definition launchDVRNestedPrefetches :: "launch_env \<Rightarrow> nat \<Rightarrow> addr \<Rightarrow> (nat \<Rightarrow> reg_val) \<Rightarrow> ndm \<Rightarrow> invocation_batch \<Rightarrow> launch_cpu \<Rightarrow>
    (invocation_batch \<times> launch_cpu) option" where
  "launchDVRNestedPrefetches v tid pc finish_regs n b s =
     (let prog = make_template False pc (lv_finalLoadPC v) (lv_loopBound v) (lv_recorder v) finish_regs;
          rel = stable_relations (trained_relations pc (lc_relations s));
          invs = nested_invocations n b; flattened = flattened_lanes invs;
          available = DvrMaxQueuedPrefetches - min (length (rc_queue (lc_requests s))) DvrMaxQueuedPrefetches;
          ok = fst (new_helper_file prog (hf_bank (rc_files (lc_requests s))))
      in if flattened = 0 \<or> available < flattened then Some (b, s)
         else map_option (\<lambda>s1. (if ok then empty_batch else b, s1))
                (start_launch v pc prog (rt_count prog) flattened tid
                  (map (\<lambda>(lane, address). source_request v pc tid True rel None address lane) (outer_loop invs 0)) s))"

section \<open>Telling relations apart\<close>

lemma fold_or_bit: "bit (fold (\<lambda>x d. if P x then d else d OR f x) xs (d0 :: 'a::len word)) n \<longleftrightarrow> bit d0 n \<or> (\<exists>x \<in> set xs. \<not> P x \<and> bit (f x) n)"
  by (induction xs arbitrary: d0) (auto simp: bit_simps)

lemma discriminating_bit:
  "bit (discriminating rel i) n \<longleftrightarrow> (\<exists>j < rel_count rel. j \<noteq> i \<and> bit (rel_masks rel i) n \<and> bit (rel_masks rel j) n \<and>
     (bit (rel_patterns rel i) n \<noteq> bit (rel_patterns rel j) n))"
  unfolding discriminating_def fold_or_bit by (auto simp: bit_simps)

text \<open>A value of one path, and a path that can be told from it.\<close>

definition conforms :: "relation_set \<Rightarrow> nat \<Rightarrow> reg_val \<Rightarrow> bool" where
  "conforms rel i v \<longleftrightarrow> v AND rel_masks rel i = rel_patterns rel i AND rel_masks rel i"

definition told_apart :: "relation_set \<Rightarrow> nat \<Rightarrow> nat \<Rightarrow> bool" where
  "told_apart rel i j \<longleftrightarrow> rel_masks rel i AND rel_masks rel j AND (rel_patterns rel i XOR rel_patterns rel j) \<noteq> 0"

lemma conforms_bit: "conforms rel i v \<Longrightarrow> bit (rel_masks rel i) n \<Longrightarrow> bit v n = bit (rel_patterns rel i) n"
  unfolding conforms_def by (metis bit_and_iff)

lemma told_apart_bit:
  assumes "told_apart rel i j"
  obtains n where "bit (rel_masks rel i) n" "bit (rel_masks rel j) n" "bit (rel_patterns rel i) n \<noteq> bit (rel_patterns rel j) n"
proof -
  obtain n where "bit (rel_masks rel i AND rel_masks rel j AND (rel_patterns rel i XOR rel_patterns rel j)) n"
    using assms unfolding told_apart_def by (metis bit_0_eq bit_eqI bot_apply bot_bool_def)
  then show thesis using that by (auto simp: bit_simps)
qed

lemma own_path_matches:
  assumes "conforms rel i v"
  shows "v AND discriminating rel i = (rel_patterns rel i AND discriminating rel i)"
  by (rule bit_word_eqI) (use conforms_bit [OF assms] in \<open>auto simp: bit_and_iff discriminating_bit\<close>)

lemma other_path_differs:
  assumes "conforms rel i v" "told_apart rel i j" "i < rel_count rel" "i \<noteq> j"
  shows "discriminating rel j \<noteq> 0" "v AND discriminating rel j \<noteq> rel_patterns rel j AND discriminating rel j"
proof -
  obtain n where n: "bit (rel_masks rel i) n" "bit (rel_masks rel j) n" "bit (rel_patterns rel i) n \<noteq> bit (rel_patterns rel j) n"
    using told_apart_bit [OF assms(2)] by blast
  then have d: "bit (discriminating rel j) n" using assms(3,4) by (auto simp: discriminating_bit)
  then show "discriminating rel j \<noteq> 0" by auto
  have "bit v n \<noteq> bit (rel_patterns rel j) n" using conforms_bit [OF assms(1) n(1)] n(3) by simp
  then show "v AND discriminating rel j \<noteq> rel_patterns rel j AND discriminating rel j" using d by (metis bit_and_iff)
qed

lemma told_apart_sym: "told_apart rel i j = told_apart rel j i"
  by (simp add: told_apart_def ac_simps)

lemma masked_patterns:
  fixes ps ms :: "u64 list"
  shows "length (fold (\<lambda>p ps. ps[p := ps ! p AND ms ! p]) [0..<n] ps) = length ps"
    and "p < length ps \<Longrightarrow> fold (\<lambda>p ps. ps[p := ps ! p AND ms ! p]) [0..<n] ps ! p = (if p < n then ps ! p AND ms ! p else ps ! p)"
proof -
  show l: "length (fold (\<lambda>p ps. ps[p := ps ! p AND ms ! p]) [0..<n] ps) = length ps" for n by (induction n) simp_all
  show "p < length ps \<Longrightarrow> fold (\<lambda>p ps. ps[p := ps ! p AND ms ! p]) [0..<n] ps ! p = (if p < n then ps ! p AND ms ! p else ps ! p)"
  proof (induction n)
    case (Suc n)
    then show ?case using l [of n] by (auto simp: nth_list_update less_Suc_eq)
  qed simp
qed

lemma generation_paths:
  fixes rel :: relation_set and g :: u64 and lanes :: nat
  assumes n: "1 < rel_count rel" "rel_count rel \<le> MaxRelations"
  defines "t \<equiv> pg_tracker (new_generation g lanes (discriminated rel))"
  shows "pt_paths t = rel_count rel" and "pt_lanes t = min lanes Predicate_MaxLanes"
    and "p < rel_count rel \<Longrightarrow> pt_masks t ! p = discriminating rel p"
    and "p < rel_count rel \<Longrightarrow> pt_patterns t ! p = rel_patterns rel p AND discriminating rel p"
proof -
  have m: "MaxRelations = Predicate_MaxPaths" by (simp add: MaxRelations_def Predicate_MaxPaths_def)
  show "pt_paths t = rel_count rel" "pt_lanes t = min lanes Predicate_MaxLanes"
    using n by (simp_all add: t_def new_generation_def Predicate_begin_def Let_def discriminated_def m)
  show "pt_masks t ! p = discriminating rel p" if "p < rel_count rel"
    using n that by (simp add: t_def new_generation_def Predicate_begin_def Let_def discriminated_def)
  show "pt_patterns t ! p = rel_patterns rel p AND discriminating rel p" if "p < rel_count rel"
    using n that m by (simp add: t_def new_generation_def Predicate_begin_def Let_def discriminated_def masked_patterns and.assoc)
qed

lemma one_path:
  assumes n: "1 < rel_count rel" "rel_count rel \<le> MaxRelations" and i: "i < rel_count rel" "conforms rel i v"
    and apart: "\<And>j. j < rel_count rel \<Longrightarrow> j \<noteq> i \<Longrightarrow> told_apart rel i j"
  shows "matching_paths (pg_tracker (new_generation g lanes (discriminated rel))) v = {i}"
proof -
  let ?t = "pg_tracker (new_generation g lanes (discriminated rel))"
  note p = generation_paths [OF n, where g = g and lanes = lanes]
  obtain j where j: "j < rel_count rel" "j \<noteq> i" using n i by (metis less_numeral_extra(4) less_one nat_neq_iff not_less_eq zero_less_one order_less_trans)
  have di: "discriminating rel i \<noteq> 0"
  proof -
    obtain b where "bit (rel_masks rel i) b" "bit (rel_masks rel j) b" "bit (rel_patterns rel i) b \<noteq> bit (rel_patterns rel j) b"
      using told_apart_bit [OF apart [OF j]] by blast
    then have "bit (discriminating rel i) b" using j by (auto simp: discriminating_bit)
    then show ?thesis by auto
  qed
  have "path_matches ?t v i" using di own_path_matches [OF i(2)] p i(1) by (simp add: path_matches_def)
  moreover have "\<not> path_matches ?t v k" if "k < rel_count rel" "k \<noteq> i" for k
    using other_path_differs [OF i(2) apart [OF that] i(1)] that p by (auto simp: path_matches_def)
  ultimately show ?thesis using i(1) p(1) by (auto simp: matching_paths_def)
qed

text \<open>What training knows of the samples of a chosen relation.\<close>

lemma trained_index:
  assumes "i < length (trained_relations pc t)"
  shows "\<exists>flr. at_relations t (pc, flr) = Some (trained_relations pc t ! i)"
proof -
  have "trained_relations pc t ! i \<in> set (trained_relations pc t)" using assms by simp
  then have "trained_relations pc t ! i \<in> set (List.map_filter (\<lambda>flr. at_relations t (pc, flr)) (at_triggerRelations t pc))"
    unfolding trained_relations_def by (meson filter_is_subset in_set_takeD subsetD)
  then show ?thesis by (auto simp: List.map_filter_def)
qed

lemma sample_conforms:
  assumes t: "table_seen es t" and r: "at_relations t (pc, flr) = Some r" and e: "(pc, flr, v, a) \<in> set es"
  shows "v AND ar_stableMask r = ar_pattern r AND ar_stableMask r"
proof -
  have "case at_relations t (pc, flr) of None \<Rightarrow> samples_of (pc, flr) es = [] | Some r \<Rightarrow> seen (rev (samples_of (pc, flr) es)) r"
    using t unfolding table_seen_def by blast
  then have "seen (rev (samples_of (pc, flr) es)) r" by (simp add: r)
  moreover have "(v, a) \<in> set (rev (samples_of (pc, flr) es))" using e by (force simp: samples_of_def)
  ultimately show ?thesis unfolding seen_def by fastforce
qed

end
