(* ===== verification/DVR_Launch_Run.thy ===== *)
theory DVR_Launch_Run
  imports DVR_Launch
begin

text \<open>
  What a launch does to the components it feeds: the lanes it queues and the lanes it gives up, the paths its
  predicates select, and the flattening of nested invocations.
\<close>

section \<open>Register files\<close>

definition bank_ready :: "reg_bank option \<Rightarrow> bool" where
  "bank_ready bank \<longleftrightarrow> (\<forall>b. bank = Some b \<longrightarrow> bank_classes b \<and> (\<forall>r. count (free_names b) r \<le> 1))"

lemma bank_ready_phys:
  assumes "bank_ready bank"
  shows "phys_ok (HR_new\<lparr>hr_bank := bank\<rparr>)"
proof -
  have "files_ok {} \<lparr>hf_files = (\<lambda>i. HR_new), hf_bank = bank\<rparr> (\<lambda>f a l. (0, 0))"
    using assms by (auto simp: bank_ready_def files_ok_def files_names_def files_held_def split: option.split)
  from new_phys_ok [OF this] show ?thesis by simp
qed

lemma new_file_conserves:
  assumes "bank_ready bank"
  shows "HR_conservationValid (snd (new_helper_file prog bank))"
proof -
  let ?h = "HR_initialize (rt_initialRegs prog) (HR_new\<lparr>hr_bank := bank\<rparr>)" and ?A = "\<lambda>a (l :: nat). (rt_initialRegs prog a, 0 :: tick)"
  let ?a = "nat (rt_triggerDestination prog)"
  have p: "phys_ok (HR_new\<lparr>hr_bank := bank\<rparr>)" by (rule bank_ready_phys [OF assms])
  have i: "hr_inv (?h, ?A)" by (rule start_inv [OF p])
  show ?thesis
  proof (cases "0 \<le> rt_triggerDestination prog \<and> rt_triggerDestination prog < int HR_NumArchitecturalRegs")
    case True
    then have a: "?a < HR_NumArchitecturalRegs" by linarith
    have "0 \<le> HR_scalarMapping ?a ?h"
      using hr_initialize_ok(3) [OF p a, of "rt_initialRegs prog"] a by (simp add: HR_scalarMapping_def init_mapping_def no_mapping_def)
    then have "hr_inv (snd (HR_vectorize ?a ?h), ?A)" using op_inv [OF hr_op.vectorize [OF a] i] by blast
    then show ?thesis using True by (auto simp: new_helper_file_def Let_def hr_inv_def intro: conservation_holds)
  next
    case False
    then show ?thesis using i by (auto simp: new_helper_file_def Let_def hr_inv_def intro: conservation_holds)
  qed
qed

section \<open>Queueing\<close>

text \<open>Which requests of a list are queued, given the addresses that are known.\<close>

fun fresh_requests :: "addr set \<Rightarrow> prefetch_address list \<Rightarrow> prefetch_address list" where
  "fresh_requests known [] = []"
| "fresh_requests known (r # rs) =
     (if pa_address r \<in> known then fresh_requests known rs else r # fresh_requests (insert (pa_address r) known) rs)"

lemma fresh_subset: "set (fresh_requests known rs) \<subseteq> set rs"
proof (induction rs arbitrary: known)
  case (Cons r rs)
  then show ?case using Cons.IH [of known] Cons.IH [of "insert (pa_address r) known"] by auto
qed simp

lemma fresh_distinct: "distinct (map f rs) \<Longrightarrow> distinct (map f (fresh_requests known rs))"
proof (induction rs arbitrary: known)
  case (Cons r rs)
  have "set (fresh_requests k rs) \<subseteq> set rs" for k by (rule fresh_subset)
  then show ?case using Cons by fastforce
qed simp

lemma fresh_length: "length (fresh_requests known rs) \<le> length rs"
proof (induction rs arbitrary: known)
  case (Cons r rs)
  then show ?case using Cons.IH [of known] Cons.IH [of "insert (pa_address r) known"] by (simp add: le_SucI)
qed simp

lemma fresh_addresses:
  "distinct (map pa_address (fresh_requests known rs)) \<and> pa_address ` set (fresh_requests known rs) \<inter> known = {} \<and>
   pa_address ` set rs \<subseteq> known \<union> pa_address ` set (fresh_requests known rs)"
proof (induction rs arbitrary: known)
  case (Cons r rs)
  show ?case
  proof (cases "pa_address r \<in> known")
    case True
    then show ?thesis using Cons.IH [of known] by auto
  next
    case False
    then show ?thesis using Cons.IH [of "insert (pa_address r) known"] by auto
  qed
qed simp

lemma retire_frame [simp]:
  "rc_queue (retireDVRPredicateLane g n w s) = rc_queue s" "rc_queuedAddresses (retireDVRPredicateLane g n w s) = rc_queuedAddresses s"
  "rc_outstandingAddresses (retireDVRPredicateLane g n w s) = rc_outstandingAddresses s"
  by (simp_all add: retireDVRPredicateLane_def split: option.split)

lemma queue_lanes:
  "rc_queue (fold queue_lane rs s) = rc_queue s @ fresh_requests (rc_queuedAddresses s \<union> rc_outstandingAddresses s) rs"
proof (induction rs arbitrary: s)
  case (Cons r rs)
  show ?case
  proof (cases "pa_address r \<in> rc_queuedAddresses s \<or> pa_address r \<in> rc_outstandingAddresses s")
    case True
    then have "queue_lane r s = retireDVRPredicateLane (pa_predicate r) (pa_lane r) None s" by (simp add: queue_lane_def)
    then show ?thesis using True Cons.IH [of "queue_lane r s"] by auto
  next
    case False
    then have "queue_lane r s = s\<lparr>rc_queue := rc_queue s @ [r], rc_queuedAddresses := insert (pa_address r) (rc_queuedAddresses s)\<rparr>"
      by (simp add: queue_lane_def)
    then show ?thesis using False Cons.IH [of "queue_lane r s"] by auto
  qed
qed simp

section \<open>Lanes given up\<close>

definition terminal :: "nat \<Rightarrow> request_cpu \<Rightarrow> nat set \<Rightarrow> bool" where
  "terminal g s D \<longleftrightarrow> (let p = rc_predicates s g in length (pg_terminalMask p) = 2 \<and> lane_set (pg_terminalMask p) = D \<and>
     D \<subseteq> {..<pg_expectedLanes p} \<and> pg_expectedLanes p \<le> 128 \<and> pg_terminalLanes p = card D \<and> pg_reported p = (card D \<ge> pg_expectedLanes p))"

lemma terminal_give_up:
  assumes t: "terminal g s D" and n: "n < pg_expectedLanes (rc_predicates s g)" "n \<notin> D"
  shows "terminal g (retireDVRPredicateLane (Some g) n None s) (insert n D)"
proof -
  let ?p = "rc_predicates s g"
  have c: "length (pg_terminalMask ?p) = 2" "lane_set (pg_terminalMask ?p) = D" "D \<subseteq> {..<pg_expectedLanes ?p}" "pg_expectedLanes ?p \<le> 128"
      "pg_terminalLanes ?p = card D" "pg_reported ?p = (card D \<ge> pg_expectedLanes ?p)" using t by (auto simp: terminal_def Let_def)
  have fin: "finite D" using c(3) finite_subset by blast
  have "card D < card {..<pg_expectedLanes ?p}" by (rule psubset_card_mono) (use c(3) n in auto)
  then have r: "\<not> pg_reported ?p" using c(6) by simp
  have "\<not> test_lane (pg_terminalMask ?p) n" using c(2,4) n by (auto simp: lane_set_def)
  then have "retire_generation n None ?p = finishDVRPredicateGeneration False
      (?p\<lparr>pg_terminalMask := set_lane n (pg_terminalMask ?p), pg_terminalLanes := pg_terminalLanes ?p + 1\<rparr>)"
    using r n(1) by (simp add: retire_generation_def Let_def)
  moreover have "card (insert n D) = card D + 1" using fin n(2) by simp
  moreover have "lane_set (set_lane n (pg_terminalMask ?p)) = insert n D" using c(1,2,4) n(1) by (simp add: lane_set_set)
  ultimately show ?thesis using c n(1) r
    by (auto simp: terminal_def Let_def retireDVRPredicateLane_def finishDVRPredicateGeneration_def)
qed

lemma expected_retire [simp]: "pg_expectedLanes (rc_predicates (retireDVRPredicateLane h n w s) g) = pg_expectedLanes (rc_predicates s g)"
  by (auto simp: retireDVRPredicateLane_def retire_generation_def finishDVRPredicateGeneration_def Let_def split: option.split)

lemma expected_queue [simp]: "pg_expectedLanes (rc_predicates (queue_lane r s) g) = pg_expectedLanes (rc_predicates s g)"
  by (simp add: queue_lane_def)

lemma queue_terminal:
  assumes "terminal g s D" and "distinct (map pa_lane rs)" and "\<forall>r \<in> set rs. pa_predicate r = Some g \<and> pa_lane r < pg_expectedLanes (rc_predicates s g) \<and> pa_lane r \<notin> D"
  shows "terminal g (fold queue_lane rs s) (D \<union> pa_lane ` (set rs - set (fresh_requests (rc_queuedAddresses s \<union> rc_outstandingAddresses s) rs)))"
  using assms
proof (induction rs arbitrary: s D)
  case (Cons r rs)
  let ?K = "rc_queuedAddresses s \<union> rc_outstandingAddresses s"
  have n: "pa_lane r \<notin> pa_lane ` set rs" using Cons.prems(2) by simp
  then have r: "r \<notin> set rs" "\<forall>x \<in> set rs. pa_lane x \<noteq> pa_lane r" by (blast, metis imageI)
  show ?case
  proof (cases "pa_address r \<in> ?K")
    case True
    then have q: "queue_lane r s = retireDVRPredicateLane (Some g) (pa_lane r) None s" using Cons.prems(3) by (simp add: queue_lane_def)
    have "terminal g (queue_lane r s) (insert (pa_lane r) D)" unfolding q by (rule terminal_give_up [OF Cons.prems(1)]) (use Cons.prems(3) in auto)
    then have "terminal g (fold queue_lane rs (queue_lane r s)) (insert (pa_lane r) D \<union> pa_lane ` (set rs - set (fresh_requests ?K rs)))"
      using Cons.IH [of "queue_lane r s" "insert (pa_lane r) D"] Cons.prems(2,3) q r(2) by auto
    moreover have "set (r # rs) - set (fresh_requests ?K (r # rs)) = insert r (set rs - set (fresh_requests ?K rs))"
      using True r fresh_subset [of ?K rs] by auto
    ultimately show ?thesis by simp
  next
    case False
    let ?s = "queue_lane r s"
    have q: "?s = s\<lparr>rc_queue := rc_queue s @ [r], rc_queuedAddresses := insert (pa_address r) (rc_queuedAddresses s)\<rparr>"
      using False by (simp add: queue_lane_def)
    have "terminal g ?s D" using Cons.prems(1) by (simp add: q terminal_def)
    then have "terminal g (fold queue_lane rs ?s) (D \<union> pa_lane ` (set rs - set (fresh_requests (insert (pa_address r) ?K) rs)))"
      using Cons.IH [of ?s D] Cons.prems(2,3) q by auto
    moreover have "set (r # rs) - set (fresh_requests ?K (r # rs)) = set rs - set (fresh_requests (insert (pa_address r) ?K) rs)"
      using False r by auto
    ultimately show ?thesis by simp
  qed
qed simp

section \<open>The launch\<close>

lemma start_helper_frame [simp]:
  "rc_queue (startDVRHelper e pc n l r rp tid s) = rc_queue s" "rc_queuedAddresses (startDVRHelper e pc n l r rp tid s) = rc_queuedAddresses s"
  "rc_outstandingAddresses (startDVRHelper e pc n l r rp tid s) = rc_outstandingAddresses s"
  "rc_predicates (startDVRHelper e pc n l r rp tid s) = rc_predicates s"
  by (simp_all add: startDVRHelper_def Let_def)

lemma start_launch_effect:
  assumes "bank_ready (hf_bank (rc_files (lc_requests s)))"
  shows "\<exists>s'. start_launch v pc prog uops lanes tid rs s = Some s' \<and>
    (if fst (new_helper_file prog (hf_bank (rc_files (lc_requests s))))
     then \<exists>q. lc_requests s' = fold queue_lane rs q \<and> rc_queue q = rc_queue (lc_requests s) \<and> rc_queuedAddresses q = rc_queuedAddresses (lc_requests s) \<and>
       rc_outstandingAddresses q = rc_outstandingAddresses (lc_requests s) \<and> rc_predicates q = rc_predicates (lc_requests s) \<and>
       lc_programs s' (lv_template v) = prog
     else rc_queue (lc_requests s') = rc_queue (lc_requests s))"
proof -
  let ?q = "lc_requests s" and ?bank = "hf_bank (rc_files (lc_requests s))"
  obtain ok h where h: "new_helper_file prog ?bank = (ok, h)" by fastforce
  have c: "HR_conservationValid h" using new_file_conserves [OF assms, of prog] h by simp
  show ?thesis
  proof (cases ok)
    case True
    let ?q2 = "startDVRHelper (lv_request v) pc uops lanes (Recorder_resourceCounts (lv_recorder v)) (Some (lv_template v)) tid
      (?q\<lparr>rc_files := HF_update (lv_file v) (\<lambda>_. h) (rc_files ?q)\<rparr>)"
    have "start_launch v pc prog uops lanes tid rs s = Some (s\<lparr>lc_requests := fold queue_lane rs ?q2, lc_programs := (lc_programs s)(lv_template v := prog)\<rparr>)"
      using True c by (simp add: start_launch_def Let_def h)
    then show ?thesis using True h by (auto intro!: exI [of _ ?q2])
  next
    case False
    then show ?thesis using h by (simp add: start_launch_def Let_def)
  qed
qed

definition stride_requests :: "launch_env \<Rightarrow> nat \<Rightarrow> addr \<Rightarrow> addr \<Rightarrow> i64 \<Rightarrow> relation_set \<Rightarrow> nat option \<Rightarrow> nat \<Rightarrow> prefetch_address list" where
  "stride_requests v tid current pc stride rel predicate lanes =
     map (\<lambda>lane. source_request v pc tid False rel predicate (lane_address current stride lane) (lane - 1)) [1..<lanes + 1]"

lemma stride_requests_lanes:
  "map pa_lane (stride_requests v tid current pc stride rel predicate lanes) = [0..<lanes]"
  "r \<in> set (stride_requests v tid current pc stride rel predicate lanes) \<Longrightarrow> pa_source r \<and> pa_replay r = Some (lv_template v) \<and>
     pa_helperRegs r = Some (lv_file v) \<and> pa_predicate r = predicate \<and> pa_lane r < lanes \<and> pa_address r = lane_address current stride (pa_lane r + 1)"
  "length (stride_requests v tid current pc stride rel predicate lanes) = lanes"
proof -
  show "map pa_lane (stride_requests v tid current pc stride rel predicate lanes) = [0..<lanes]"
    by (induction lanes) (simp_all add: stride_requests_def source_request_def)
  show "r \<in> set (stride_requests v tid current pc stride rel predicate lanes) \<Longrightarrow> pa_source r \<and> pa_replay r = Some (lv_template v) \<and>
     pa_helperRegs r = Some (lv_file v) \<and> pa_predicate r = predicate \<and> pa_lane r < lanes \<and> pa_address r = lane_address current stride (pa_lane r + 1)"
    by (auto simp: stride_requests_def source_request_def)
qed (simp add: stride_requests_def)

lemma launch_prepared:
  fixes s :: launch_cpu
  assumes "admitted_lanes lanes0 (lc_requests s) \<noteq> 0"
  shows "\<exists>s1. launchDVRStridePrefetches v tid current pc stride lanes0 regs s =
      start_launch v pc (make_template True pc (lv_finalLoadPC v) (lv_loopBound v) (lv_recorder v) regs)
        (max 1 (rt_count (make_template True pc (lv_finalLoadPC v) (lv_loopBound v) (lv_recorder v) regs))) (admitted_lanes lanes0 (lc_requests s)) tid
        (stride_requests v tid current pc stride (launch_relations pc (lc_relations s))
          (if 1 < rel_count (launch_relations pc (lc_relations s)) then Some (lv_predicate v) else None) (admitted_lanes lanes0 (lc_requests s))) s1 \<and>
    rc_files (lc_requests s1) = rc_files (lc_requests s) \<and> rc_queue (lc_requests s1) = rc_queue (lc_requests s) \<and>
    rc_queuedAddresses (lc_requests s1) = rc_queuedAddresses (lc_requests s) \<and> rc_outstandingAddresses (lc_requests s1) = rc_outstandingAddresses (lc_requests s) \<and>
    (1 < rel_count (launch_relations pc (lc_relations s)) \<longrightarrow> rc_predicates (lc_requests s1) (lv_predicate v) =
       new_generation (lc_nextPredicate s) (admitted_lanes lanes0 (lc_requests s)) (launch_relations pc (lc_relations s)))"
proof (cases "1 < rel_count (launch_relations pc (lc_relations s))")
  case True
  then show ?thesis using assms by (auto simp: launchDVRStridePrefetches_def Let_def stride_requests_def
    intro!: exI [of _ "s\<lparr>lc_requests := (lc_requests s)\<lparr>rc_predicates := (rc_predicates (lc_requests s))
      (lv_predicate v := new_generation (lc_nextPredicate s) (admitted_lanes lanes0 (lc_requests s)) (launch_relations pc (lc_relations s)))\<rparr>,
      lc_nextPredicate := lc_nextPredicate s + 1, lc_activePredicate := Some (lv_predicate v)\<rparr>"])
next
  case False
  then show ?thesis using assms by (auto simp: launchDVRStridePrefetches_def Let_def stride_requests_def
    intro!: exI [of _ "s\<lparr>lc_activePredicate := None\<rparr>"])
qed

lemma fresh_stride:
  fixes v :: launch_env and K :: "addr set" and tid lanes :: nat and current pc :: addr and stride :: i64 and rel :: relation_set and predicate :: "nat option"
  defines "RS \<equiv> stride_requests v tid current pc stride rel predicate lanes"
  shows "distinct (map pa_lane (fresh_requests K RS))" "distinct (map pa_address (fresh_requests K RS))"
    "r \<in> set (fresh_requests K RS) \<Longrightarrow> pa_source r \<and> pa_lane r < lanes \<and> pa_address r = lane_address current stride (pa_lane r + 1) \<and>
       pa_address r \<notin> K \<and> pa_replay r = Some (lv_template v) \<and> pa_helperRegs r = Some (lv_file v)"
    "n < lanes \<Longrightarrow> n \<in> pa_lane ` set (fresh_requests K RS) \<or> lane_address current stride (n + 1) \<in> K \<union> pa_address ` set (fresh_requests K RS)"
    "pa_lane ` (set RS - set (fresh_requests K RS)) = {..<lanes} - pa_lane ` set (fresh_requests K RS)"
proof -
  have l: "map pa_lane RS = [0..<lanes]" unfolding RS_def by (rule stride_requests_lanes)
  have d: "distinct (map pa_lane RS)" by (simp add: l)
  have img: "pa_lane ` set RS = {..<lanes}" using arg_cong [OF l, of set] by auto
  show "distinct (map pa_lane (fresh_requests K RS))" by (rule fresh_distinct [OF d])
  show "distinct (map pa_address (fresh_requests K RS))" using fresh_addresses by blast
  show "pa_source r \<and> pa_lane r < lanes \<and> pa_address r = lane_address current stride (pa_lane r + 1) \<and>
       pa_address r \<notin> K \<and> pa_replay r = Some (lv_template v) \<and> pa_helperRegs r = Some (lv_file v)" if "r \<in> set (fresh_requests K RS)"
  proof -
    have "r \<in> set RS" using that fresh_subset by blast
    moreover have "pa_address r \<notin> K" using that fresh_addresses [of K RS] by blast
    ultimately show ?thesis using stride_requests_lanes(2) unfolding RS_def by blast
  qed
  show "n \<in> pa_lane ` set (fresh_requests K RS) \<or> lane_address current stride (n + 1) \<in> K \<union> pa_address ` set (fresh_requests K RS)" if "n < lanes"
  proof -
    have "n \<in> pa_lane ` set RS" using that img by simp
    then obtain r where r: "r \<in> set RS" "pa_lane r = n" by auto
    then have "pa_address r = lane_address current stride (n + 1)" using stride_requests_lanes(2) unfolding RS_def by blast
    moreover have "pa_address r \<in> K \<union> pa_address ` set (fresh_requests K RS)" using r(1) fresh_addresses [of K RS] by blast
    ultimately show ?thesis by simp
  qed
  have "inj_on pa_lane (set RS)" using d by (simp add: distinct_map)
  then show "pa_lane ` (set RS - set (fresh_requests K RS)) = {..<lanes} - pa_lane ` set (fresh_requests K RS)"
    using inj_on_image_set_diff [of pa_lane "set RS" "set RS" "set (fresh_requests K RS)"] fresh_subset [of K RS] img by auto
qed

lemma new_generation_terminal:
  assumes "rc_predicates s g = new_generation i lanes rel" "0 < lanes" "lanes \<le> 128"
  shows "terminal g s {}"
  using assms by (simp add: terminal_def new_generation_def lane_set_empty)

lemma launch_terminal:
  fixes s :: request_cpu and v :: launch_env
  assumes g: "rc_predicates s g = new_generation i lanes rel" and n: "lanes \<noteq> 0" "lanes \<le> 128"
  defines "K \<equiv> rc_queuedAddresses s \<union> rc_outstandingAddresses s"
  shows "lane_set (pg_terminalMask (rc_predicates (fold queue_lane (stride_requests v tid current pc stride rel' (Some g) lanes) s) g)) =
    {..<lanes} - pa_lane ` set (fresh_requests K (stride_requests v tid current pc stride rel' (Some g) lanes))"
proof -
  let ?RS = "stride_requests v tid current pc stride rel' (Some g) lanes"
  have d: "distinct (map pa_lane ?RS)" by (simp add: stride_requests_lanes(1))
  have t: "terminal g s {}" by (rule new_generation_terminal [OF g]) (use n in simp_all)
  have "\<forall>r \<in> set ?RS. pa_predicate r = Some g \<and> pa_lane r < pg_expectedLanes (rc_predicates s g) \<and> pa_lane r \<notin> {}"
    using stride_requests_lanes(2) by (fastforce simp: g new_generation_def)
  from queue_terminal [OF t d this] show ?thesis unfolding terminal_def Let_def K_def [symmetric] by (simp add: fresh_stride(5))
qed

lemma launch_effect:
  fixes s :: launch_cpu and v :: launch_env
  assumes bank: "bank_ready (hf_bank (rc_files (lc_requests s)))" and nonzero: "admitted_lanes lanes0 (lc_requests s) \<noteq> 0"
    and small: "admitted_lanes lanes0 (lc_requests s) \<le> 128"
  shows "\<exists>s'. launchDVRStridePrefetches v tid current pc stride lanes0 regs s = Some s' \<and>
    (if fst (new_helper_file (make_template True pc (lv_finalLoadPC v) (lv_loopBound v) (lv_recorder v) regs) (hf_bank (rc_files (lc_requests s))))
     then rc_queue (lc_requests s') = rc_queue (lc_requests s) @ fresh_requests (rc_queuedAddresses (lc_requests s) \<union> rc_outstandingAddresses (lc_requests s))
         (stride_requests v tid current pc stride (launch_relations pc (lc_relations s))
           (if 1 < rel_count (launch_relations pc (lc_relations s)) then Some (lv_predicate v) else None) (admitted_lanes lanes0 (lc_requests s))) \<and>
       (1 < rel_count (launch_relations pc (lc_relations s)) \<longrightarrow> lane_set (pg_terminalMask (rc_predicates (lc_requests s') (lv_predicate v))) =
          {..<admitted_lanes lanes0 (lc_requests s)} - pa_lane ` set (fresh_requests (rc_queuedAddresses (lc_requests s) \<union> rc_outstandingAddresses (lc_requests s))
            (stride_requests v tid current pc stride (launch_relations pc (lc_relations s))
              (if 1 < rel_count (launch_relations pc (lc_relations s)) then Some (lv_predicate v) else None) (admitted_lanes lanes0 (lc_requests s)))))
     else rc_queue (lc_requests s') = rc_queue (lc_requests s))"
proof -
  let ?q = "lc_requests s" and ?prog = "make_template True pc (lv_finalLoadPC v) (lv_loopBound v) (lv_recorder v) regs"
  let ?lanes = "admitted_lanes lanes0 ?q" and ?rel = "launch_relations pc (lc_relations s)"
  let ?RS = "stride_requests v tid current pc stride ?rel (if 1 < rel_count ?rel then Some (lv_predicate v) else None) ?lanes"
  obtain s1 where s1: "launchDVRStridePrefetches v tid current pc stride lanes0 regs s = start_launch v pc ?prog (max 1 (rt_count ?prog)) ?lanes tid ?RS s1"
      "rc_files (lc_requests s1) = rc_files ?q" "rc_queue (lc_requests s1) = rc_queue ?q" "rc_queuedAddresses (lc_requests s1) = rc_queuedAddresses ?q"
      "rc_outstandingAddresses (lc_requests s1) = rc_outstandingAddresses ?q"
      "1 < rel_count ?rel \<Longrightarrow> rc_predicates (lc_requests s1) (lv_predicate v) = new_generation (lc_nextPredicate s) ?lanes ?rel"
    using launch_prepared [OF nonzero] by blast
  have bank1: "bank_ready (hf_bank (rc_files (lc_requests s1)))" using bank by (simp add: s1)
  obtain s' where s': "start_launch v pc ?prog (max 1 (rt_count ?prog)) ?lanes tid ?RS s1 = Some s'" and
    eff: "if fst (new_helper_file ?prog (hf_bank (rc_files ?q))) then \<exists>q. lc_requests s' = fold queue_lane ?RS q \<and> rc_queue q = rc_queue ?q \<and>
        rc_queuedAddresses q = rc_queuedAddresses ?q \<and> rc_outstandingAddresses q = rc_outstandingAddresses ?q \<and> rc_predicates q = rc_predicates (lc_requests s1)
      else rc_queue (lc_requests s') = rc_queue ?q"
    using start_launch_effect [OF bank1, of v pc ?prog "max 1 (rt_count ?prog)" ?lanes tid ?RS] unfolding s1(2-5) by meson
  show ?thesis
  proof (cases "fst (new_helper_file ?prog (hf_bank (rc_files ?q)))")
    case True
    then obtain q1 where q1: "lc_requests s' = fold queue_lane ?RS q1" "rc_queue q1 = rc_queue ?q" "rc_queuedAddresses q1 = rc_queuedAddresses ?q"
        "rc_outstandingAddresses q1 = rc_outstandingAddresses ?q" "rc_predicates q1 = rc_predicates (lc_requests s1)" using eff by auto
    have "lane_set (pg_terminalMask (rc_predicates (lc_requests s') (lv_predicate v))) =
        {..<?lanes} - pa_lane ` set (fresh_requests (rc_queuedAddresses ?q \<union> rc_outstandingAddresses ?q) ?RS)" if m: "1 < rel_count ?rel"
    proof -
      have g: "rc_predicates q1 (lv_predicate v) = new_generation (lc_nextPredicate s) ?lanes ?rel" using q1(5) s1(6) [OF m] by simp
      show ?thesis using launch_terminal [OF g nonzero small, of v tid current pc stride ?rel] m by (simp add: q1)
    qed
    moreover have "rc_queue (lc_requests s') = rc_queue ?q @ fresh_requests (rc_queuedAddresses ?q \<union> rc_outstandingAddresses ?q) ?RS"
      using queue_lanes [of ?RS q1] q1 by simp
    ultimately show ?thesis using True s1(1) s' by simp
  next
    case False
    then show ?thesis using s1(1) s' eff by simp
  qed
qed

section \<open>Flattening\<close>

lemma inner_loop_map:
  "inner_loop base stride n lane k = map (\<lambda>j. (k + j, lane_address base stride (lane + j))) [0..<min n (Predicate_MaxLanes - k)]"
proof (induction n arbitrary: lane k)
  case (Suc n)
  show ?case
  proof (cases "k < Predicate_MaxLanes")
    case True
    then have m: "min (Suc n) (Predicate_MaxLanes - k) = Suc (min n (Predicate_MaxLanes - Suc k))" by simp
    show ?thesis unfolding m upt_conv_Cons [OF zero_less_Suc] using True Suc.IH [of "lane + 1" "k + 1"]
      by (simp add: map_Suc_upt [symmetric] o_def del: upt_Suc)
  qed simp
qed simp

text \<open>All lanes of all invocations, one after the other.\<close>

definition flat_addresses :: "(addr \<times> nat \<times> i64) list \<Rightarrow> addr list" where
  "flat_addresses invs = concat (map (\<lambda>(base, lanes, stride). map (lane_address base stride) [1..<lanes + 1]) invs)"

lemma flat_addresses_simps [simp]:
  "flat_addresses [] = []" "flat_addresses ((base, lanes, stride) # invs) = map (lane_address base stride) [1..<lanes + 1] @ flat_addresses invs"
  by (simp_all add: flat_addresses_def)

lemma upt_join: "a \<le> b \<Longrightarrow> b \<le> c \<Longrightarrow> [a..<b] @ [b..<c] = [a..<c]"
  by (metis le_add_diff_inverse upt_add_eq_append)

lemma outer_loop_lanes:
  assumes "k \<le> Predicate_MaxLanes"
  shows "map snd (outer_loop invs k) = take (Predicate_MaxLanes - k) (flat_addresses invs) \<and>
    map fst (outer_loop invs k) = [k..<min Predicate_MaxLanes (k + length (flat_addresses invs))]"
  using assms
proof (induction invs arbitrary: k)
  case (Cons i invs)
  obtain base lanes stride where i: "i = (base, lanes, stride)" by (cases i)
  let ?n = "min lanes (Predicate_MaxLanes - k)"
  have inner: "inner_loop base stride lanes 1 k = map (\<lambda>j. (k + j, lane_address base stride (1 + j))) [0..<?n]" by (rule inner_loop_map)
  have snd1: "map (\<lambda>j. lane_address base stride (1 + j)) [0..<?n] = take (Predicate_MaxLanes - k) (map (lane_address base stride) [1..<lanes + 1])"
    by (rule nth_equalityI) (simp_all add: min.commute del: upt_Suc)
  have fst1: "map (\<lambda>j. k + j) [0..<?n] = [k..<k + ?n]" by (simp add: map_add_upt add.commute)
  have IH: "map snd (outer_loop invs (k + ?n)) = take (Predicate_MaxLanes - (k + ?n)) (flat_addresses invs)"
      "map fst (outer_loop invs (k + ?n)) = [k + ?n..<min Predicate_MaxLanes (k + ?n + length (flat_addresses invs))]"
    using Cons.IH [of "k + ?n"] Cons.prems by simp_all
  have all: "flat_addresses (i # invs) = map (lane_address base stride) [1..<lanes + 1] @ flat_addresses invs" by (simp add: i del: upt_Suc)
  have "Predicate_MaxLanes - (k + ?n) = Predicate_MaxLanes - k - lanes" by simp
  then have s: "map snd (outer_loop (i # invs) k) = take (Predicate_MaxLanes - k) (flat_addresses (i # invs))"
    using IH(1) snd1 by (simp add: i inner [unfolded One_nat_def] all Let_def o_def del: upt_Suc)
  have "[k..<k + ?n] @ [k + ?n..<min Predicate_MaxLanes (k + ?n + length (flat_addresses invs))] =
      [k..<min Predicate_MaxLanes (k + (lanes + length (flat_addresses invs)))]"
    using upt_join [of k "k + ?n" "min Predicate_MaxLanes (k + ?n + length (flat_addresses invs))"] Cons.prems
    by (cases "lanes \<le> Predicate_MaxLanes - k") (auto simp: add.assoc)
  then have "map fst (outer_loop (i # invs) k) = [k..<min Predicate_MaxLanes (k + length (flat_addresses (i # invs)))]"
    using IH(2) fst1 by (simp add: i inner [unfolded One_nat_def] all Let_def o_def del: upt_Suc)
  then show ?case using s by blast
qed simp

lemma flattened_from:
  assumes "k \<le> Predicate_MaxLanes"
  shows "fold (\<lambda>(base, lanes, stride) f. f + min (min lanes Predicate_MaxLanes) (Predicate_MaxLanes - f)) invs k =
    min Predicate_MaxLanes (k + length (flat_addresses invs))"
  using assms
proof (induction invs arbitrary: k)
  case (Cons i invs)
  obtain base lanes stride where i: "i = (base, lanes, stride)" by (cases i)
  let ?k = "k + min (min lanes Predicate_MaxLanes) (Predicate_MaxLanes - k)"
  have "?k \<le> Predicate_MaxLanes" using Cons.prems by simp
  moreover have "min Predicate_MaxLanes (?k + x) = min Predicate_MaxLanes (k + (lanes + x))" for x using Cons.prems by linarith
  ultimately show ?case using Cons.IH [of ?k] by (simp add: i del: upt_Suc)
qed simp

lemma total_from:
  "min Predicate_MaxLanes (fold (\<lambda>(base, lanes, stride) t. t + min lanes Predicate_MaxLanes) invs k) = min Predicate_MaxLanes (k + length (flat_addresses invs))"
proof (induction invs arbitrary: k)
  case (Cons i invs)
  obtain base lanes stride where i: "i = (base, lanes, stride)" by (cases i)
  show ?case using Cons.IH [of "k + min lanes Predicate_MaxLanes"] by (simp add: i min_def del: upt_Suc)
qed simp

section \<open>Properties\<close>

text \<open>
  C33. A launch gives every lane exactly one fate. It never fails the assertion on its register file and never queues more than 256 requests.
  What it queues are source requests for different lanes below 128 and different addresses that were not queued or outstanding, each
  at its place in the stride, all with the new template and register file. If the register file could be set
  up, every other lane has an address that is queued or outstanding already, and when the launch
  has a predicate generation exactly these lanes are terminal in it.
\<close>

theorem stride_launch_lanes:
  assumes bank: "bank_ready (hf_bank (rc_files (lc_requests s)))"
  shows "let q = lc_requests s; lanes = admitted_lanes lanes0 q;
      prog = make_template True pc (lv_finalLoadPC v) (lv_loopBound v) (lv_recorder v) regs
    in \<exists>s' rs. launchDVRStridePrefetches v tid current pc stride lanes0 regs s = Some s' \<and> rc_queue (lc_requests s') = rc_queue q @ rs \<and>
      length (rc_queue (lc_requests s')) \<le> max (length (rc_queue q)) 256 \<and> distinct (map pa_lane rs) \<and> distinct (map pa_address rs) \<and>
      (\<forall>r \<in> set rs. pa_source r \<and> pa_lane r < lanes \<and> pa_lane r < 128 \<and> pa_address r = lane_address current stride (pa_lane r + 1) \<and>
         pa_address r \<notin> rc_queuedAddresses q \<union> rc_outstandingAddresses q \<and> pa_replay r = Some (lv_template v) \<and> pa_helperRegs r = Some (lv_file v)) \<and>
      (fst (new_helper_file prog (hf_bank (rc_files q))) \<longrightarrow>
         (\<forall>n < lanes. n \<in> pa_lane ` set rs \<or> lane_address current stride (n + 1) \<in> rc_queuedAddresses q \<union> rc_outstandingAddresses q \<union> pa_address ` set rs) \<and>
         (lanes \<noteq> 0 \<and> rel_count (launch_relations pc (lc_relations s)) > 1 \<longrightarrow>
            lane_set (pg_terminalMask (rc_predicates (lc_requests s') (lv_predicate v))) = {..<lanes} - pa_lane ` set rs))"
proof -
  let ?q = "lc_requests s" and ?prog = "make_template True pc (lv_finalLoadPC v) (lv_loopBound v) (lv_recorder v) regs"
  let ?lanes = "admitted_lanes lanes0 ?q" and ?rel = "launch_relations pc (lc_relations s)"
  let ?ok = "fst (new_helper_file ?prog (hf_bank (rc_files ?q)))"
  let ?K = "rc_queuedAddresses ?q \<union> rc_outstandingAddresses ?q"
  have n: "?lanes \<le> 128" "length (rc_queue ?q) + ?lanes \<le> max (length (rc_queue ?q)) 256" by (simp_all add: admitted_lanes_def Predicate_MaxLanes_def DvrMaxQueuedPrefetches_def)
  show ?thesis
  proof (cases "?lanes = 0")
    case True
    then show ?thesis by (auto simp: launchDVRStridePrefetches_def Let_def intro!: exI [of _ s] exI [of _ "[]"])
  next
    case nonzero: False
    let ?RS = "stride_requests v tid current pc stride ?rel (if 1 < rel_count ?rel then Some (lv_predicate v) else None) ?lanes"
    let ?rs = "fresh_requests ?K ?RS"
    obtain s' where s': "launchDVRStridePrefetches v tid current pc stride lanes0 regs s = Some s'" and
      eff: "if ?ok then rc_queue (lc_requests s') = rc_queue ?q @ ?rs \<and> (1 < rel_count ?rel \<longrightarrow>
          lane_set (pg_terminalMask (rc_predicates (lc_requests s') (lv_predicate v))) = {..<?lanes} - pa_lane ` set ?rs)
        else rc_queue (lc_requests s') = rc_queue ?q"
      using launch_effect [OF bank nonzero n(1)] by blast
    show ?thesis
    proof (cases ?ok)
      case False
      then show ?thesis using s' eff by (auto simp: Let_def intro!: exI [of _ s'] exI [of _ "[]"])
    next
      case True
      then have queue: "rc_queue (lc_requests s') = rc_queue ?q @ ?rs" and gen: "1 < rel_count ?rel \<Longrightarrow>
          lane_set (pg_terminalMask (rc_predicates (lc_requests s') (lv_predicate v))) = {..<?lanes} - pa_lane ` set ?rs" using eff by simp_all
      have "length ?rs \<le> ?lanes" using fresh_length [of ?K ?RS] by (simp only: stride_requests_lanes(3))
      then have len: "length (rc_queue (lc_requests s')) \<le> max (length (rc_queue ?q)) 256" unfolding queue length_append using n(2) by linarith
      have reqs: "\<forall>r \<in> set ?rs. pa_source r \<and> pa_lane r < ?lanes \<and> pa_lane r < 128 \<and> pa_address r = lane_address current stride (pa_lane r + 1) \<and>
          pa_address r \<notin> ?K \<and> pa_replay r = Some (lv_template v) \<and> pa_helperRegs r = Some (lv_file v)"
        by (intro ballI) (drule fresh_stride(3), use n(1) in auto)
      show ?thesis unfolding Let_def
        by (intro exI [of _ s'] exI [of _ ?rs] conjI impI allI s' queue len reqs fresh_stride(1,2)) (erule fresh_stride(4), rule gen, simp)
    qed
  qed
qed


text \<open>
  C30. Training, launch and response agree on the path of a lane. Take any training history on user addresses. If a lane's source value was
  seen with one of the chosen relations of the trigger, and that relation can be told from each other one by a bit that was stable for both
  with different values, then the predicates of a launch put the lane on the path of exactly this relation, whatever the
  other lanes return, and never among the unmatched ones.
\<close>

theorem launch_classifies:
  assumes es: "length es < 2 ^ 32" "\<forall>(trig, flr, v, a) \<in> set es. a < 2 ^ 47" "table_trains es new_table = Some t"
    and i: "i < length (trained_relations pc t)" "at_relations t (pc, flr) = Some (trained_relations pc t ! i)" "(pc, flr, v, a) \<in> set es"
    and apart: "1 < length (trained_relations pc t)"
      "\<forall>j < length (trained_relations pc t). j \<noteq> i \<longrightarrow> told_apart (stable_relations (trained_relations pc t)) i j"
    and l: "map_of responses lane = Some v" "lane < lanes" "lanes \<le> 128"
  shows "let tracker = fold Predicate_response responses (pg_tracker (new_generation g lanes (launch_relations pc t)))
    in (\<forall>p < length (trained_relations pc t). lane \<in> lane_set (pt_selected tracker ! p) \<longleftrightarrow> p = i) \<and> lane \<notin> lane_set (pt_unmatched tracker)"
proof -
  let ?rs = "trained_relations pc t" and ?rel = "stable_relations (trained_relations pc t)"
  let ?start = "pg_tracker (new_generation g lanes (launch_relations pc t))"
  let ?t = "fold Predicate_response responses ?start"
  have four: "length ?rs \<le> MaxRelations" by (simp add: trained_relations_def)
  have n: "rel_count ?rel = length ?rs" by (simp add: stable_relations_def Let_def)
  have "table_seen [] new_table" by (simp add: table_seen_def new_table_def samples_of_def)
  then have seen: "table_seen es t" using table_trains_seen [of "[]" new_table es] es by auto
  have "conforms ?rel i v" using sample_conforms [OF seen i(2,3)] i(1) by (simp add: conforms_def stable_relations_def Let_def and.assoc)
  then have m: "matching_paths ?start v = {i}"
    unfolding launch_relations_def using one_path [of ?rel i v g lanes] n i(1) apart four by simp
  have c: "classified ?t responses"
    unfolding new_generation_def predicate_generation.simps by (rule classified_responses) (simp_all add: MaxRelations_def)
  have p: "pt_lanes ?t = lanes" "matching_paths ?t v = {i}"
    using generation_paths(2) [of ?rel g lanes] n apart(1) four l(3) m
    by (simp_all add: responses_config launch_relations_def Predicate_MaxLanes_def)
  have "lane \<in> lane_set (pt_selected ?t ! k) \<longleftrightarrow> k = i" if "k < length ?rs" for k
    using c that four l(1,2) p unfolding classified_def MaxRelations_def by fastforce
  moreover have "lane \<notin> lane_set (pt_unmatched ?t)" using c l(1,2) p unfolding classified_def by fastforce
  ultimately show ?thesis by simp
qed

definition path_samples :: "(addr \<times> addr \<times> reg_val \<times> addr) list" where
  "path_samples = [(0x100, 0x110, 2, 0x8010), (0x100, 0x110, 4, 0x8020), (0x100, 0x118, 0x102, 0x9408), (0x100, 0x118, 0x104, 0x9410)]"

lemma path_relations:
  "map_option (\<lambda>t. map (\<lambda>r. (ar_stableMask r, ar_pattern r)) (trained_relations 0x100 t)) (table_trains path_samples new_table) =
     Some [(0xfffffffffffffff9, 0), (0xfffffffffffffff9, 0x100)]"
  "map_option (\<lambda>t. at_relations t (0x100, 0x118) = Some (trained_relations 0x100 t ! 1)) (table_trains path_samples new_table) = Some True"
  by code_simp+

theorem launch_classifies_witness:
  "\<exists>t. table_trains path_samples new_table = Some t \<and>
    (let tracker = fold Predicate_response [(5, 0x102), (6, 2)] (pg_tracker (new_generation 0 8 (launch_relations 0x100 t)))
     in 5 \<in> lane_set (pt_selected tracker ! 1) \<and> 5 \<notin> lane_set (pt_selected tracker ! 0))"
proof -
  have es: "length path_samples < 2 ^ 32" "\<forall>(trig, flr, v, a) \<in> set path_samples. a < 2 ^ 47" by (simp_all add: path_samples_def)
  obtain t where t: "table_trains path_samples new_table = Some t" using path_relations(1) by fastforce
  have rs: "map (\<lambda>r. (ar_stableMask r, ar_pattern r)) (trained_relations 0x100 t) = [(0xfffffffffffffff9, 0), (0xfffffffffffffff9, 0x100)]"
    and flr: "at_relations t (0x100, 0x118) = Some (trained_relations 0x100 t ! 1)" using path_relations t by simp_all
  have two: "length (trained_relations 0x100 t) = 2" using arg_cong [OF rs, of length] by simp
  have "ar_stableMask (trained_relations 0x100 t ! j) = 0xfffffffffffffff9 \<and> ar_pattern (trained_relations 0x100 t ! j) = (if j = 0 then 0 else 0x100)" if "j < 2" for j
    using arg_cong [OF rs, of "\<lambda>xs. xs ! j"] two that by (auto simp: less_2_cases_iff)
  then have apart: "\<forall>j < length (trained_relations 0x100 t). j \<noteq> 1 \<longrightarrow> told_apart (stable_relations (trained_relations 0x100 t)) 1 j"
    by (auto simp: two told_apart_def stable_relations_def Let_def less_2_cases_iff)
  have "(0x100, 0x118, 0x102, 0x9408) \<in> set path_samples" by (simp add: path_samples_def)
  from launch_classifies [OF es t _ flr this _ apart, of "[(5, 0x102), (6, 2)]" 5 8 0]
  show ?thesis using t two by (simp add: Let_def)
qed

text \<open>A launch of three lanes where the first two addresses are queued already.\<close>

definition three_lanes :: launch_env where
  "three_lanes = \<lparr>lv_request = line_env 1, lv_recorder = Recorder_empty,
     lv_loopBound = \<lparr>lb_triggerPC = 0, lb_finalLoadPC = 0, lb_lastComparePC = 0, lb_loopBranchPC = 0, lb_loopTargetPC = 0, lb_source0 = - 1, lb_source1 = - 1,
       lb_compareDestination = - 1, lb_branchValue0 = 0, lb_branchValue1 = 0, lb_branchValuesValid = False, lb_comparison = SignedLess, lb_seenBranch = False,
       lb_earlyExitSeen = False\<rparr>,
     lv_finalLoadPC = 0, lv_maxLanes = 128, lv_template = 0, lv_file = 0, lv_predicate = 0\<rparr>"

definition three_cpu :: launch_cpu where
  "three_cpu = \<lparr>lc_requests = line_cpu, lc_programs = (\<lambda>p. sample_program), lc_relations = new_table, lc_nextPredicate = 0, lc_activePredicate = None\<rparr>"

theorem stride_launch_lanes_witness:
  "\<exists>s' rs. launchDVRStridePrefetches three_lanes 0 0xff8 0x100 8 3 (\<lambda>r. 0) three_cpu = Some s' \<and>
    rc_queue (lc_requests s') = rc_queue line_cpu @ rs \<and> pa_lane ` set rs = {2}"
proof -
  let ?q = "lc_requests three_cpu" and ?prog = "make_template True 0x100 (lv_finalLoadPC three_lanes) (lv_loopBound three_lanes) (lv_recorder three_lanes) (\<lambda>r. 0)"
  have bank: "bank_ready (hf_bank (rc_files ?q))" by (simp add: bank_ready_def three_cpu_def line_cpu_def)
  have n: "admitted_lanes 3 ?q = 3" by (simp add: admitted_lanes_def three_cpu_def line_cpu_def Predicate_MaxLanes_def DvrMaxQueuedPrefetches_def)
  have ok: "fst (new_helper_file ?prog (hf_bank (rc_files ?q)))"
    by (simp add: new_helper_file_def make_template_def three_lanes_def Recorder_empty_def Let_def)
  have K: "rc_queuedAddresses ?q \<union> rc_outstandingAddresses ?q = {0x1000, 0x1008}" by (simp add: three_cpu_def line_cpu_def)
  have a: "lane_address 0xff8 8 1 = 0x1000" "lane_address 0xff8 8 2 = 0x1008" "lane_address 0xff8 8 3 = 0x1010" by (simp_all add: lane_address_def)
  note launched = stride_launch_lanes [OF bank, where ?lanes0.0 = 3 and pc = "0x100" and v = three_lanes and regs = "\<lambda>r. 0" and tid = 0 and current = "0xff8" and stride = 8,
    unfolded Let_def n K]
  obtain s' rs where s': "launchDVRStridePrefetches three_lanes 0 0xff8 0x100 8 3 (\<lambda>r. 0) three_cpu = Some s'" "rc_queue (lc_requests s') = rc_queue ?q @ rs"
    and r: "\<forall>r \<in> set rs. pa_source r \<and> pa_lane r < 3 \<and> pa_lane r < 128 \<and> pa_address r = lane_address 0xff8 8 (pa_lane r + 1) \<and> pa_address r \<notin> {0x1000, 0x1008} \<and>
        pa_replay r = Some (lv_template three_lanes) \<and> pa_helperRegs r = Some (lv_file three_lanes)"
    and g: "fst (new_helper_file ?prog (hf_bank (rc_files ?q))) \<longrightarrow>
        (\<forall>n < 3. n \<in> pa_lane ` set rs \<or> lane_address 0xff8 8 (n + 1) \<in> {0x1000, 0x1008} \<union> pa_address ` set rs) \<and>
        ((3 :: nat) \<noteq> 0 \<and> rel_count (launch_relations 0x100 (lc_relations three_cpu)) > 1 \<longrightarrow>
          lane_set (pg_terminalMask (rc_predicates (lc_requests s') (lv_predicate three_lanes))) = {..<3} - pa_lane ` set rs)"
    using launched by (elim exE conjE)
  have f: "\<forall>n < 3. n \<in> pa_lane ` set rs \<or> lane_address 0xff8 8 (n + 1) \<in> {0x1000, 0x1008} \<union> pa_address ` set rs" using g ok by blast
  have two: "pa_lane r = 2" if "r \<in> set rs" for r
  proof -
    have "pa_lane r < 3" "pa_address r = lane_address 0xff8 8 (pa_lane r + 1)" "pa_address r \<notin> {0x1000, 0x1008}" using r that by blast+
    then show ?thesis using a by (auto simp: less_Suc_eq numeral_3_eq_3 numeral_2_eq_2)
  qed
  have "2 \<in> pa_lane ` set rs \<or> (0x1010 :: addr) \<in> pa_address ` set rs" using f [rule_format, of 2] a(3) by auto
  then have "rs \<noteq> []" by auto
  then have "pa_lane ` set rs = {2}" using two by (cases rs) auto
  then show ?thesis using s' by (auto simp: three_cpu_def)
qed

end
