(* ===== verification/PRE_SST.thy ===== *)
theory PRE_SST
  imports DVR_LRU "HOL-Library.AList"
begin

text \<open>
  The stalling slice table of precise runahead, \<open>SST\<close>
  (\<open>src/code/gem5-runahead-dev-pre/src/cpu/o3/pre.hh\<close> 598-632, \<open>pre.cc\<close> 2680-2733): a hash map into a
  recency list that always has \<open>numEntries\<close> nodes.
\<close>

section \<open>Stalling slice table: model\<close>

text \<open>
  The nodes of the \<open>std::list\<close> have an identity, which is what the iterators of the map hold:
  a node is a pair of its identity and its address, and the map goes from addresses to
  identities. \<open>splice\<close> moves a node to the front and keeps its identity.
\<close>

type_synonym node = "nat \<times> addr"

record sst =
  st_L :: "node list"
  st_M :: "(addr \<times> nat) list"
  st_numEntries :: nat

definition SST_new :: "nat \<Rightarrow> sst option" where
  "SST_new entries =
     (if entries > 0 then Some \<lparr>st_L = map (\<lambda>i. (i, 0)) [0..<entries], st_M = [], st_numEntries = entries\<rparr>
      else None)"

definition to_front :: "nat \<Rightarrow> node list \<Rightarrow> node list" where
  "to_front i L = filter (\<lambda>nd. fst nd = i) L @ filter (\<lambda>nd. fst nd \<noteq> i) L"

definition SST_addInst :: "addr \<Rightarrow> sst \<Rightarrow> sst" where
  "SST_addInst a s =
     (case map_of (st_M s) a of
        Some i \<Rightarrow> s\<lparr>st_L := to_front i (st_L s)\<rparr>
      | None \<Rightarrow>
          (let M = (if length (st_M s) = st_numEntries s
                    then AList.delete (snd (last (st_L s))) (st_M s) else st_M s);
               back = fst (last (st_L s));
               L = to_front back (butlast (st_L s) @ [(back, a)])
           in s\<lparr>st_L := L, st_M := AList.update a (fst (hd L)) M\<rparr>))"

definition SST_hasInst :: "addr \<Rightarrow> sst \<Rightarrow> bool \<times> sst" where
  "SST_hasInst a s =
     (case map_of (st_M s) a of
        Some i \<Rightarrow> (True, s\<lparr>st_L := to_front i (st_L s)\<rparr>)
      | None \<Rightarrow> (False, s))"

section \<open>Stalling slice table: the list is a bounded recency list\<close>

definition SST_keys :: "sst \<Rightarrow> addr list" where
  "SST_keys s = map snd (take (length (st_M s)) (st_L s))"

definition sst_ok :: "nat \<Rightarrow> sst \<Rightarrow> bool" where
  "sst_ok cap s \<longleftrightarrow> 0 < cap \<and> st_numEntries s = cap \<and> length (st_L s) = cap \<and>
     distinct (map fst (st_L s)) \<and> length (st_M s) \<le> cap \<and> distinct (map fst (st_M s)) \<and>
     distinct (SST_keys s) \<and>
     map_of (st_M s) = map_of (map prod.swap (take (length (st_M s)) (st_L s)))"

lemma to_front_split:
  assumes "distinct (map fst (xs @ (i, a) # ys))"
  shows "to_front i (xs @ (i, a) # ys) = (i, a) # xs @ ys"
proof -
  have "filter (\<lambda>nd. fst nd = i) zs = [] \<and> filter (\<lambda>nd. fst nd \<noteq> i) zs = zs" if "i \<notin> fst ` set zs" for zs :: "node list"
    using that by (induction zs) auto
  then show ?thesis using assms by (simp add: to_front_def)
qed

lemma remove1_map_snd:
  "distinct (map snd (xs @ (i, a) # ys)) \<Longrightarrow> remove1 a (map snd (xs @ (i, a) # ys)) = map snd (xs @ ys)"
  by (simp add: remove1_append)

lemma map_of_swap_iff:
  assumes "distinct (map snd xs)"
  shows "map_of (map prod.swap xs) a = Some i \<longleftrightarrow> (i, a) \<in> set xs"
proof -
  have "distinct (map fst (map prod.swap xs))" using assms by (simp add: comp_def)
  then show ?thesis by (subst map_of_eq_Some_iff) (auto simp: image_iff intro: bexI [of _ "(i, a)"])
qed

lemma map_of_swap_cong:
  assumes "distinct (map snd xs)" "distinct (map snd ys)" "set xs = set ys"
  shows "map_of (map prod.swap xs) = map_of (map prod.swap ys)"
proof (rule ext)
  fix a
  show "map_of (map prod.swap xs) a = map_of (map prod.swap ys) a"
    using map_of_swap_iff [OF assms(1), of a] map_of_swap_iff [OF assms(2), of a] assms(3)
    by (cases "map_of (map prod.swap xs) a"; cases "map_of (map prod.swap ys) a") auto
qed

lemma sst_lookup: "sst_ok cap s \<Longrightarrow> map_of (st_M s) a \<noteq> None \<longleftrightarrow> a \<in> set (SST_keys s)"
  by (auto simp: sst_ok_def SST_keys_def map_of_eq_None_iff image_iff)

text \<open>A hit, whether by \<open>addInst\<close> or by \<open>hasInst\<close>, moves the node to the front.\<close>

lemma sst_hit:
  assumes ok: "sst_ok cap s" and hit: "map_of (st_M s) a = Some i"
  defines "s' \<equiv> s\<lparr>st_L := to_front i (st_L s)\<rparr>"
  shows "sst_ok cap s'" "SST_keys s' = lru_touch cap a (SST_keys s)"
proof -
  let ?k = "length (st_M s)"
  have d: "distinct (map fst (st_L s))" "distinct (map snd (take ?k (st_L s)))"
    "?k \<le> length (st_L s)" "length (st_L s) = cap"
    and m: "map_of (st_M s) = map_of (map prod.swap (take ?k (st_L s)))"
    using ok by (auto simp: sst_ok_def SST_keys_def)
  have "(i, a) \<in> set (take ?k (st_L s))" using hit map_of_swap_iff [OF d(2)] unfolding m by blast
  then obtain xs ys where t: "take ?k (st_L s) = xs @ (i, a) # ys" by (meson split_list)
  then obtain zs where L: "st_L s = xs @ (i, a) # ys @ zs"
    by (metis append_take_drop_id append.assoc append_Cons)
  have dL: "distinct (map fst (xs @ (i, a) # ys @ zs))" using d(1) by (simp only: L)
  have L': "st_L s' = ((i, a) # xs @ ys) @ zs"
    unfolding s'_def using to_front_split [OF dL] by (simp add: L)
  have "length (take ?k (st_L s)) = ?k" using d(3) by simp
  then have len: "length ((i, a) # xs @ ys) = ?k" unfolding t by simp
  then have take': "take ?k (st_L s') = (i, a) # xs @ ys" unfolding L' by (simp flip: len)
  have dk: "distinct (map snd (xs @ (i, a) # ys))" using d(2) t by simp
  have keys: "SST_keys s' = a # map snd (xs @ ys)" using take' by (simp add: SST_keys_def s'_def)
  have "SST_keys s = map snd (xs @ (i, a) # ys)" by (simp add: SST_keys_def t)
  moreover have "length (SST_keys s) \<le> cap" using d(3,4) by (simp add: SST_keys_def)
  ultimately show touch: "SST_keys s' = lru_touch cap a (SST_keys s)"
    using keys dk by (subst lru_touch_hit) (simp_all add: remove1_append)
  have "map_of (map prod.swap (take ?k (st_L s))) = map_of (map prod.swap (take ?k (st_L s')))"
    using dk unfolding t take' by (intro map_of_swap_cong) auto
  moreover have "distinct (map fst (st_L s'))" using dL unfolding L' by auto
  moreover have "length (st_L s') = cap" using d(4) unfolding L L' by simp
  moreover have "distinct (SST_keys s')" using keys dk by auto
  ultimately show "sst_ok cap s'" using ok m by (simp add: sst_ok_def s'_def)
qed

text \<open>
  A miss first makes room: the evicted address leaves the map, and the last node becomes free.
\<close>

lemma update_append: "a \<notin> fst ` set M \<Longrightarrow> AList.update a v M = M @ [(a, v)]"
  by (induction M) auto

lemma length_delete_mem:
  assumes "distinct (map fst M)" "x \<in> fst ` set M"
  shows "length (AList.delete x M) = length M - 1"
proof -
  have "length (AList.delete x M) = length (removeAll x (map fst M))" by (metis delete_keys length_map)
  also have "\<dots> = length (remove1 x (map fst M))" using assms(1) by (simp add: distinct_remove1_removeAll)
  finally show ?thesis using assms(2) by (simp add: length_remove1)
qed

lemma sst_evict:
  assumes ok: "sst_ok cap s"
  defines "M \<equiv> if length (st_M s) = st_numEntries s then AList.delete (snd (last (st_L s))) (st_M s) else st_M s"
  shows "length M < cap" "distinct (map fst M)" "length M = min (length (st_M s)) (cap - 1)"
    "map_of M = map_of (map prod.swap (take (length M) (st_L s)))"
proof -
  have f: "0 < cap" "st_numEntries s = cap" "length (st_L s) = cap" "length (st_M s) \<le> cap"
    "distinct (map fst (st_M s))" "distinct (map snd (take (length (st_M s)) (st_L s)))"
    and m: "map_of (st_M s) = map_of (map prod.swap (take (length (st_M s)) (st_L s)))"
    using ok by (auto simp: sst_ok_def SST_keys_def)
  have "length M < cap \<and> distinct (map fst M) \<and> length M = min (length (st_M s)) (cap - 1) \<and>
    map_of M = map_of (map prod.swap (take (length M) (st_L s)))"
  proof (cases "length (st_M s) = cap")
    case True
    obtain b x where bx: "last (st_L s) = (b, x)" by fastforce
    have L: "st_L s = butlast (st_L s) @ [(b, x)]" using f(1,3) bx by (metis append_butlast_last_id length_greater_0_conv)
    have all: "map_of (st_M s) = map_of (map prod.swap (st_L s))" "distinct (map snd (st_L s))" using m f(3,6) True by simp_all
    have dl: "distinct (map snd (butlast (st_L s) @ [(b, x)]))" using all(2) L by simp
    have "map_of (st_M s) x = Some b" using all(1) map_of_swap_iff [OF all(2)] L by (metis in_set_conv_decomp)
    then have x: "x \<in> fst ` set (st_M s)" by (metis map_of_eq_None_iff option.distinct(1))
    have M: "M = AList.delete x (st_M s)" using True f(2) bx by (simp add: M_def)
    have len: "length M = cap - 1" using length_delete_mem [OF f(5) x] True by (simp add: M)
    have "map_of M = (map_of (map prod.swap (butlast (st_L s) @ [(b, x)])))(x := None)"
      unfolding M delete_conv' using all(1) L by simp
    also have "\<dots> = map_of (map prod.swap (butlast (st_L s)))"
    proof (rule ext)
      fix y
      have "map_of (map prod.swap (butlast (st_L s))) x = None"
        using dl by (auto simp: map_of_eq_None_iff image_iff)
      then show "((map_of (map prod.swap (butlast (st_L s) @ [(b, x)])))(x := None)) y =
          map_of (map prod.swap (butlast (st_L s))) y"
        by (simp add: map_add_def split: option.split)
    qed
    finally have "map_of M = map_of (map prod.swap (take (length M) (st_L s)))"
      using len f(3) by (simp add: butlast_conv_take)
    moreover have "distinct (map fst M)" unfolding M using f(5) by (rule distinct_delete)
    ultimately show ?thesis using len f(1) True by simp
  next
    case False
    then show ?thesis using f m by (simp add: M_def)
  qed
  then show "length M < cap" "distinct (map fst M)" "length M = min (length (st_M s)) (cap - 1)"
    "map_of M = map_of (map prod.swap (take (length M) (st_L s)))" by auto
qed

lemma sst_miss:
  assumes ok: "sst_ok cap s" and miss: "map_of (st_M s) a = None"
  shows "sst_ok cap (SST_addInst a s)" "SST_keys (SST_addInst a s) = lru_touch cap a (SST_keys s)"
proof -
  define M where "M = (if length (st_M s) = st_numEntries s
    then AList.delete (snd (last (st_L s))) (st_M s) else st_M s)"
  note ev = sst_evict [OF ok, folded M_def]
  have f: "0 < cap" "st_numEntries s = cap" "length (st_L s) = cap" "length (st_M s) \<le> cap"
    "distinct (map fst (st_L s))" "distinct (SST_keys s)"
    using ok by (auto simp: sst_ok_def)
  obtain b x where bx: "last (st_L s) = (b, x)" by fastforce
  have L: "st_L s = butlast (st_L s) @ [(b, x)]" using f(1,3) bx by (metis append_butlast_last_id length_greater_0_conv)
  have "distinct (map fst (butlast (st_L s) @ [(b, x)]))" using f(5) L by simp
  then have d: "distinct (map fst (butlast (st_L s) @ [(b, a)]))" by simp
  let ?L = "(b, a) # butlast (st_L s)"
  have front: "to_front b (butlast (st_L s) @ [(b, a)]) = ?L" using to_front_split [OF d] by simp
  have pre: "take (length M) (butlast (st_L s)) = take (length M) (st_L s)"
    using ev(1) f(3) by (simp add: butlast_conv_take min_absorb1)
  have keys: "map snd (take (length M) (st_L s)) = take (length M) (SST_keys s)"
    using ev(3) by (simp add: SST_keys_def take_map min_def)
  have a: "a \<notin> set (SST_keys s)" using sst_lookup [OF ok, of a] miss by simp
  then have "a \<notin> set (take (length M) (SST_keys s))" by (meson in_set_takeD)
  then have aM: "a \<notin> fst ` set M"
    using ev(4) keys by (metis (no_types, lifting) map_of_eq_None_iff image_image list.set_map fst_swap image_cong)
  have s': "SST_addInst a s = s\<lparr>st_L := ?L, st_M := M @ [(a, b)]\<rparr>"
    using miss aM by (simp add: SST_addInst_def Let_def bx front update_append flip: M_def)
  have tk: "take (length (M @ [(a, b)])) ?L = (b, a) # take (length M) (st_L s)" using pre by simp
  have k': "SST_keys (SST_addInst a s) = a # take (length M) (SST_keys s)"
    unfolding SST_keys_def s' using tk keys by (simp add: SST_keys_def)
  have lk: "length (SST_keys s) = length (st_M s)" using f(3,4) by (simp add: SST_keys_def)
  show touch: "SST_keys (SST_addInst a s) = lru_touch cap a (SST_keys s)"
    unfolding k' using lru_touch_miss [OF a, of cap] lk f(1,4) ev(3) by (auto simp: butlast_conv_take)
  have "map_of M a = None" using aM by (simp add: map_of_eq_None_iff)
  then have "map_of (M @ [(a, b)]) = (map_of M)(a \<mapsto> b)"
    by (intro ext) (simp add: map_add_def split: option.split)
  also have "\<dots> = map_of (map prod.swap ((b, a) # take (length M) (st_L s)))" by (simp flip: ev(4))
  finally have "map_of (M @ [(a, b)]) = map_of (map prod.swap ((b, a) # take (length M) (st_L s)))" .
  moreover have "distinct (SST_keys (SST_addInst a s))" unfolding touch using f(6) by simp
  ultimately show "sst_ok cap (SST_addInst a s)"
    using f ev(1,2) aM d tk unfolding sst_ok_def s' by auto
qed

interpretation slice_table: lru_store SST_addInst SST_keys cap "\<lambda>a. True" "sst_ok cap" for cap
proof
  fix a s assume ok: "sst_ok cap s"
  show "sst_ok cap (SST_addInst a s)"
    using sst_miss(1) [OF ok, of a] sst_hit(1) [OF ok, of a]
    by (cases "map_of (st_M s) a") (simp_all add: SST_addInst_def)
  show "SST_keys (SST_addInst a s) = (if True then lru_touch cap a (SST_keys s) else SST_keys s)"
    using sst_miss(2) [OF ok, of a] sst_hit(2) [OF ok, of a]
    by (cases "map_of (st_M s) a") (simp_all add: SST_addInst_def)
  show "distinct (SST_keys s)" "0 < cap" using ok by (simp_all add: sst_ok_def)
qed

datatype sst_call = Add addr | Query addr

fun sst_step :: "sst_call \<Rightarrow> bool list \<times> sst \<Rightarrow> bool list \<times> sst" where
  "sst_step (Add a) (h, s) = (h, SST_addInst a s)"
| "sst_step (Query a) (h, s) = (let (hit, s') = SST_hasInst a s in (h @ [hit], s'))"

text \<open>The specification: a recency list, and the hits and misses it answers.\<close>

fun lru_step :: "nat \<Rightarrow> sst_call \<Rightarrow> bool list \<times> addr list \<Rightarrow> bool list \<times> addr list" where
  "lru_step cap (Add a) (h, xs) = (h, lru_touch cap a xs)"
| "lru_step cap (Query a) (h, xs) = (h @ [a \<in> set xs], if a \<in> set xs then lru_touch cap a xs else xs)"

lemma sst_new_ok: "0 < n \<Longrightarrow> SST_new n = Some s \<Longrightarrow> sst_ok n s \<and> SST_keys s = []"
  by (auto simp: SST_new_def sst_ok_def SST_keys_def comp_def)

lemma sst_query:
  assumes "sst_ok cap s"
  shows "fst (SST_hasInst a s) = (a \<in> set (SST_keys s))" "sst_ok cap (snd (SST_hasInst a s))"
    "SST_keys (snd (SST_hasInst a s)) = (if a \<in> set (SST_keys s) then lru_touch cap a (SST_keys s) else SST_keys s)"
  using sst_lookup [OF assms, of a] sst_hit [OF assms, of a] assms
  by (auto simp: SST_hasInst_def split: option.splits)

lemma sst_step_refines:
  assumes "sst_ok cap s"
  shows "sst_ok cap (snd (sst_step c (h, s)))"
    "(fst (sst_step c (h, s)), SST_keys (snd (sst_step c (h, s)))) = lru_step cap c (h, SST_keys s)"
  using slice_table.inv_touch [OF assms] slice_table.keys_touch [OF assms] sst_query [OF assms]
  by (cases c; simp add: case_prod_beta Let_def)+

lemma sst_run_refines:
  assumes "sst_ok cap s"
  shows "sst_ok cap (snd (fold sst_step cs (h, s))) \<and>
    (fst (fold sst_step cs (h, s)), SST_keys (snd (fold sst_step cs (h, s)))) = fold (lru_step cap) cs (h, SST_keys s)"
  using assms
proof (induction cs rule: rev_induct)
  case (snoc c cs)
  then show ?case
    using sst_step_refines [of cap "snd (fold sst_step cs (h, s))" c "fst (fold sst_step cs (h, s))"] by simp
qed simp

text \<open>
  C34 (refinement). The stalling slice table, its hash map and its spliced list, implements a
  bounded LRU list: on any sequence of \<open>addInst\<close> and \<open>hasInst\<close> calls from construction, the hits
  reported are those of the specification; and after \<open>addInst x\<close> the table keeps \<open>x\<close> through
  further additions exactly while they are of fewer than \<open>numEntries\<close> distinct addresses.
\<close>

theorem sst_is_lru:
  assumes "SST_new n = Some s" and "x \<notin> set ys"
  shows "fst (fold sst_step cs ([], s)) = fst (fold (lru_step n) cs ([], [])) \<and>
    fst (SST_hasInst x (fold SST_addInst ys (SST_addInst x (snd (fold sst_step cs ([], s)))))) =
      (card (set ys) < n)"
proof -
  have "0 < n" using assms(1) by (simp add: SST_new_def split: if_splits)
  from sst_new_ok [OF this assms(1)] have ok: "sst_ok n s" and e: "SST_keys s = []" by auto
  let ?t = "snd (fold sst_step cs ([], s))"
  from sst_run_refines [OF ok, of cs "[]"] have t: "sst_ok n ?t"
    and h: "(fst (fold sst_step cs ([], s)), SST_keys ?t) = fold (lru_step n) cs ([], [])" using e by auto
  have "sst_ok n (fold SST_addInst ys (SST_addInst x ?t))"
    using slice_table.inv_touches [OF slice_table.inv_touch [OF t]] .
  from sst_query(1) [OF this, of x] slice_table.reuse_distance [OF t _ assms(2)]
  have "fst (SST_hasInst x (fold SST_addInst ys (SST_addInst x ?t))) = (card (set ys) < n)" by simp
  then show ?thesis using h by (metis fst_conv)
qed

theorem sst_is_lru_witness:
  "fst (SST_hasInst 4 (fold SST_addInst [8, 12] (SST_addInst 4 (the (SST_new 3))))) \<and>
   \<not> fst (SST_hasInst 4 (fold SST_addInst [8, 12] (SST_addInst 4 (the (SST_new 2)))))"
proof -
  have new: "SST_new 3 = Some (the (SST_new 3))" "SST_new 2 = Some (the (SST_new 2))" by (simp_all add: SST_new_def)
  show ?thesis
    using sst_is_lru [OF new(1), of 4 "[8, 12]" "[]"] sst_is_lru [OF new(2), of 4 "[8, 12]" "[]"] by simp
qed

end
