(* ===== verification/PRE_Misp.thy ===== *)
theory PRE_Misp
  imports DVR_Prelude
begin

unbundle bit_operations_syntax

text \<open>
  The branch misprediction table of precise runahead, \<open>MispTable\<close>
  (\<open>src/code/gem5-runahead-dev-pre/src/cpu/o3/pre.hh\<close> 634-664, \<open>pre.cc\<close> 2735-2799): eight rows of eight
  cells, each with an LRU rank, a reference count and a misprediction count held in \<open>short\<close>.
  The constructor sets the ranks only, so the memory it starts from is its argument.
\<close>

section \<open>Model\<close>

type_synonym i16 = "16 word"

record cell =
  mc_pc :: addr
  mc_lru :: i16
  mc_ref :: i16
  mc_misp :: i16

type_synonym row = "cell list"

definition MAX_REF :: i16 where
  "MAX_REF = 256"

definition HIGH :: "i16 \<Rightarrow> i16 \<Rightarrow> bool" where
  "HIGH ref misp \<longleftrightarrow> sint ref \<ge> 64 \<and> sint misp \<ge> sint ref div 8"

definition Misp_new :: "row list \<Rightarrow> row list" where
  "Misp_new raw = map (\<lambda>i. map (\<lambda>j. (raw ! i ! j)\<lparr>mc_lru := of_nat j\<rparr>) [0..<8]) [0..<8]"

definition Misp_rowIdx :: "addr \<Rightarrow> nat" where
  "Misp_rowIdx pc = unat (drop_bit 1 pc AND 7)"

definition Misp_find :: "addr \<Rightarrow> row \<Rightarrow> nat option" where
  "Misp_find pc row = List.find (\<lambda>i. mc_pc (row ! i) = pc) [0..<8]"

definition Misp_bump :: "(cell \<Rightarrow> nat \<Rightarrow> bool) \<Rightarrow> row \<Rightarrow> row" where
  "Misp_bump P row =
     fold (\<lambda>j row. if P (row ! j) j then row[j := (row ! j)\<lparr>mc_lru := mc_lru (row ! j) + 1\<rparr>] else row) [0..<8] row"

definition Misp_count :: "bool \<Rightarrow> cell \<Rightarrow> cell" where
  "Misp_count misp c =
     (let c1 = c\<lparr>mc_ref := mc_ref c + 1\<rparr>;
          c2 = (if misp then c1\<lparr>mc_misp := mc_misp c1 + 1\<rparr> else c1)
      in if mc_ref c2 = MAX_REF
         then c2\<lparr>mc_ref := signed_drop_bit 1 (mc_ref c2), mc_misp := signed_drop_bit 1 (mc_misp c2)\<rparr>
         else c2)"

definition Misp_hit :: "nat \<Rightarrow> bool \<Rightarrow> row \<Rightarrow> row" where
  "Misp_hit i misp row =
     (let row1 = row[i := Misp_count misp (row ! i)]; lru = mc_lru (row1 ! i);
          row2 = Misp_bump (\<lambda>c j. j \<noteq> i \<and> sint (mc_lru c) < sint lru) row1
      in row2[i := (row2 ! i)\<lparr>mc_lru := 0\<rparr>])"

text \<open>One iteration of the loop behind a miss, which does not leave the loop.\<close>

definition Misp_replace :: "addr \<Rightarrow> bool \<Rightarrow> nat \<Rightarrow> row \<Rightarrow> row" where
  "Misp_replace pc misp i row =
     (if mc_lru (row ! i) = 7
      then Misp_bump (\<lambda>c j. j \<noteq> i)
             (row[i := \<lparr>mc_pc = pc, mc_lru = 0, mc_ref = 1, mc_misp = (if misp then 1 else 0)\<rparr>])
      else row)"

definition Misp_miss :: "addr \<Rightarrow> bool \<Rightarrow> row \<Rightarrow> row" where
  "Misp_miss pc misp row = fold (Misp_replace pc misp) [0..<8] row"

definition Misp_add :: "addr \<Rightarrow> bool \<Rightarrow> row list \<Rightarrow> row list" where
  "Misp_add pc misp t =
     (let k = Misp_rowIdx pc; row = t ! k
      in t[k := (case Misp_find pc row of
             Some i \<Rightarrow> Misp_hit i misp row
           | None \<Rightarrow> Misp_miss pc misp row)])"

definition Misp_high :: "addr \<Rightarrow> row list \<Rightarrow> bool" where
  "Misp_high pc t =
     (let row = t ! Misp_rowIdx pc
      in case Misp_find pc row of
           Some i \<Rightarrow> HIGH (mc_ref (row ! i)) (mc_misp (row ! i))
         | None \<Rightarrow> False)"

section \<open>Ranks stay a permutation\<close>

definition cell_ok :: "cell \<Rightarrow> bool" where
  "cell_ok c \<longleftrightarrow> mc_lru c < 8 \<and> mc_misp c \<le> mc_ref c \<and> mc_ref c < 256"

definition row_ok :: "row \<Rightarrow> bool" where
  "row_ok row \<longleftrightarrow> length row = 8 \<and> distinct (map mc_lru row) \<and> (\<forall>c \<in> set row. cell_ok c)"

definition table_ok :: "row list \<Rightarrow> bool" where
  "table_ok t \<longleftrightarrow> length t = 8 \<and> (\<forall>row \<in> set t. row_ok row)"

definition rot :: "i16 \<Rightarrow> i16 \<Rightarrow> i16" where
  "rot l v = (if v = l then 0 else if v < l then v + 1 else v)"

lemma unat_less8: "v < 8 \<longleftrightarrow> unat v < 8" for v :: i16
  by (simp add: word_less_nat_alt)

lemma unat_suc8: "v < 8 \<Longrightarrow> unat (v + 1) = Suc (unat v)" for v :: i16
  by (simp add: unat_less8 unat_word_ariths)

lemma unat_rot:
  "v < 8 \<Longrightarrow> unat (rot l v) = (if unat v = unat l then 0 else if unat v < unat l then Suc (unat v) else unat v)"
  by (simp add: rot_def unat_suc8 word_less_nat_alt word_unat_eq_iff)

lemma rot_less: "l < 8 \<Longrightarrow> v < 8 \<Longrightarrow> rot l v < 8"
  unfolding unat_less8 [of "rot l v"] unat_rot by (auto simp: unat_less8)

lemma rot_inj: "l < 8 \<Longrightarrow> inj_on (rot l) {v. v < 8}"
proof (rule inj_onI, clarify)
  fix v w assume "v < 8" "w < 8" "rot l v = rot l w"
  then have "unat (rot l v) = unat (rot l w)" by simp
  then have "unat v = unat w" unfolding unat_rot [OF \<open>v < 8\<close>] unat_rot [OF \<open>w < 8\<close>] by (auto split: if_splits)
  then show "v = w" by (simp add: word_unat_eq_iff)
qed

lemma sint_small: "unat v \<le> 256 \<Longrightarrow> sint v = int (unat v)" for v :: i16
proof -
  assume "unat v \<le> 256"
  then have "int (unat v) \<le> 256" by linarith
  then have "uint v \<le> 256" by simp
  then have "sint v = uint v" unfolding sint_uint
    by (intro signed_take_bit_int_eq_self) (auto intro: order_trans [OF _ uint_ge_0])
  then show ?thesis by simp
qed

lemma bump_nth:
  "length row = 8 \<Longrightarrow> length (Misp_bump P row) = 8"
  "length row = 8 \<Longrightarrow> j < 8 \<Longrightarrow> Misp_bump P row ! j =
    (if P (row ! j) j then (row ! j)\<lparr>mc_lru := mc_lru (row ! j) + 1\<rparr> else row ! j)"
  using fold_map_update [of 8 row P "\<lambda>j c. c\<lparr>mc_lru := mc_lru c + 1\<rparr>"] by (simp_all add: Misp_bump_def)

text \<open>
  Both ways of touching a cell: its contents change, and its rank moves to the front.
\<close>

definition touched :: "nat \<Rightarrow> cell \<Rightarrow> row \<Rightarrow> row \<Rightarrow> bool" where
  "touched i c row row' \<longleftrightarrow> length row' = 8 \<and>
     (\<forall>j < 8. row' ! j = (if j = i then c\<lparr>mc_lru := 0\<rparr> else (row ! j)\<lparr>mc_lru := rot (mc_lru (row ! i)) (mc_lru (row ! j))\<rparr>))"

lemma row_ok_nth: "row_ok row \<Longrightarrow> j < 8 \<Longrightarrow> cell_ok (row ! j)"
  by (simp add: row_ok_def)

lemma rank_unique: "row_ok row \<Longrightarrow> i < 8 \<Longrightarrow> j < 8 \<Longrightarrow> mc_lru (row ! i) = mc_lru (row ! j) \<longleftrightarrow> i = j"
  using nth_eq_iff_index_eq [of "map mc_lru row" i j] by (auto simp: row_ok_def)

lemma row_ok_touched:
  assumes ok: "row_ok row" and i: "i < 8" and t: "touched i c row row'" and c: "mc_misp c \<le> mc_ref c" "mc_ref c < 256"
  shows "row_ok row'"
proof -
  let ?l = "mc_lru (row ! i)"
  have r8: "mc_lru (row ! j) < 8" if "j < 8" for j using row_ok_nth [OF ok that] by (simp add: cell_ok_def)
  have ranks: "mc_lru (row' ! j) = rot ?l (mc_lru (row ! j))" if "j < 8" for j
    using t that by (simp add: touched_def rot_def)
  have len: "length row' = 8" using t by (simp add: touched_def)
  have "distinct (map mc_lru row')"
    unfolding distinct_conv_nth using ranks r8 len rank_unique [OF ok] inj_onD [OF rot_inj [OF r8 [OF i]]]
    by (auto, blast)
  moreover have "cell_ok (row' ! j)" if j: "j < 8" for j
  proof (cases "j = i")
    case True
    then show ?thesis using t i c by (simp add: touched_def cell_ok_def)
  next
    case False
    then show ?thesis using t j row_ok_nth [OF ok j] rot_less [OF r8 [OF i] r8 [OF j]]
      by (simp add: touched_def cell_ok_def)
  qed
  ultimately show ?thesis using len by (auto simp: row_ok_def in_set_conv_nth)
qed

lemma hit_touched:
  assumes ok: "row_ok row" and i: "i < 8"
  shows "touched i (Misp_count misp (row ! i)) row (Misp_hit i misp row)"
proof -
  let ?c = "Misp_count misp (row ! i)" and ?row = "row[i := Misp_count misp (row ! i)]"
  have len: "length row = 8" using ok by (simp add: row_ok_def)
  have lru: "mc_lru ?c = mc_lru (row ! i)" by (simp add: Misp_count_def Let_def)
  have r8: "mc_lru (row ! j) < 8" if "j < 8" for j using row_ok_nth [OF ok that] by (simp add: cell_ok_def)
  have "rot (mc_lru (row ! i)) (mc_lru (row ! j)) =
      (if sint (mc_lru (row ! j)) < sint (mc_lru (row ! i)) then mc_lru (row ! j) + 1 else mc_lru (row ! j))"
    if "j < 8" "j \<noteq> i" for j
  proof -
    have "sint (mc_lru (row ! m)) = int (unat (mc_lru (row ! m)))" if "m < 8" for m
      using r8 [OF that] by (intro sint_small) (simp add: unat_less8)
    then show ?thesis using rank_unique [OF ok i that(1)] that i by (auto simp: rot_def word_less_def)
  qed
  then show ?thesis
    unfolding touched_def Misp_hit_def Let_def using len i lru by (auto simp: bump_nth nth_list_update)
qed

lemma replace_touched:
  assumes ok: "row_ok row" and i: "i < 8" and l: "mc_lru (row ! i) = 7"
  shows "touched i \<lparr>mc_pc = pc, mc_lru = 0, mc_ref = 1, mc_misp = (if misp then 1 else 0)\<rparr> row (Misp_replace pc misp i row)"
proof -
  have len: "length row = 8" using ok by (simp add: row_ok_def)
  have "mc_lru (row ! j) + 1 = rot 7 (mc_lru (row ! j))" if "j < 8" "j \<noteq> i" for j
  proof -
    have "mc_lru (row ! j) < 8" using row_ok_nth [OF ok that(1)] by (simp add: cell_ok_def)
    moreover have "mc_lru (row ! j) \<noteq> 7" using rank_unique [OF ok i that(1)] that(2) l by auto
    ultimately show ?thesis by (auto simp: rot_def word_less_nat_alt word_unat_eq_iff)
  qed
  then show ?thesis
    unfolding touched_def Misp_replace_def using len i l by (auto simp: bump_nth nth_list_update)
qed

section \<open>What an addition does\<close>

text \<open>The counters as natural numbers, halved when the references reach 256.\<close>

definition count_branch :: "bool \<Rightarrow> nat \<times> nat \<Rightarrow> nat \<times> nat" where
  "count_branch b = (\<lambda>(r, m).
     let m' = (if b then Suc m else m) in if r = 255 then (128, m' div 2) else (Suc r, m'))"

definition counters :: "addr \<Rightarrow> row \<Rightarrow> (nat \<times> nat) option" where
  "counters pc row = map_option (\<lambda>i. (unat (mc_ref (row ! i)), unat (mc_misp (row ! i)))) (Misp_find pc row)"

lemma count_ok:
  assumes "mc_misp c \<le> mc_ref c" "mc_ref c < 256"
  shows "(unat (mc_ref (Misp_count b c)), unat (mc_misp (Misp_count b c))) =
      count_branch b (unat (mc_ref c), unat (mc_misp c))"
    "mc_misp (Misp_count b c) \<le> mc_ref (Misp_count b c)" "mc_ref (Misp_count b c) < 256"
    "mc_pc (Misp_count b c) = mc_pc c"
proof -
  have n: "unat (mc_misp c) \<le> unat (mc_ref c)" "unat (mc_ref c) < 256"
    using assms by (simp_all add: word_le_nat_alt word_less_nat_alt)
  then have suc: "unat (mc_ref c + 1) = Suc (unat (mc_ref c))" "unat (mc_misp c + 1) = Suc (unat (mc_misp c))"
    by (simp_all add: unat_word_ariths)
  have full: "mc_ref c + 1 = MAX_REF \<longleftrightarrow> unat (mc_ref c) = 255"
    unfolding word_unat_eq_iff suc by (simp add: MAX_REF_def)
  have half: "unat (signed_drop_bit 1 w) = unat w div 2" if "unat w \<le> 256" for w :: i16
  proof -
    have "sint (signed_drop_bit 1 w) = uint w div 2"
      using sint_small [OF that] by (simp add: sint_signed_drop_bit_eq drop_bit_eq_div)
    also have "\<dots> = int (unat w div 2)" by (simp add: zdiv_int)
    finally have "word_of_int (sint (signed_drop_bit 1 w)) = (word_of_int (int (unat w div 2)) :: i16)" by (rule arg_cong)
    then have "signed_drop_bit 1 w = of_nat (unat w div 2)" by simp
    moreover have "unat (of_nat (unat w div 2) :: i16) = unat w div 2" using that by (simp add: unat_of_nat)
    ultimately show ?thesis by simp
  qed
  show pc: "mc_pc (Misp_count b c) = mc_pc c" by (simp add: Misp_count_def Let_def)
  show eq: "(unat (mc_ref (Misp_count b c)), unat (mc_misp (Misp_count b c))) =
      count_branch b (unat (mc_ref c), unat (mc_misp c))"
    using n full by (auto simp: Misp_count_def Let_def count_branch_def suc half half [unfolded One_nat_def] MAX_REF_def)
  from eq n show "mc_misp (Misp_count b c) \<le> mc_ref (Misp_count b c)" "mc_ref (Misp_count b c) < 256"
    unfolding word_le_nat_alt word_less_nat_alt by (auto simp: count_branch_def Let_def split: if_splits)
qed

text \<open>
  The loop behind a miss in closed form: \<open>chain ls i\<close> counts the cells replaced before index \<open>i\<close>,
  since every replacement raises the ranks of the cells still to come.
\<close>

definition chain :: "i16 list \<Rightarrow> nat \<Rightarrow> nat" where
  "chain ls i = fold (\<lambda>j k. if ls ! j + of_nat k = 7 then Suc k else k) [0..<i] 0"

definition replaced :: "row \<Rightarrow> nat \<Rightarrow> bool" where
  "replaced row j \<longleftrightarrow> mc_lru (row ! j) + of_nat (chain (map mc_lru row) j) = 7"

lemma chain_0 [simp]: "chain ls 0 = 0"
  by (simp add: chain_def)

lemma chain_Suc:
  "i < length row \<Longrightarrow> chain (map mc_lru row) (Suc i) = (if replaced row i then Suc else id) (chain (map mc_lru row) i)"
  by (simp add: chain_def replaced_def)

definition fresh :: "addr \<Rightarrow> bool \<Rightarrow> cell \<Rightarrow> bool" where
  "fresh pc b c \<longleftrightarrow> mc_pc c = pc \<and> mc_ref c = 1 \<and> mc_misp c = (if b then 1 else 0)"

lemma miss_prefix:
  fixes pc :: addr and b :: bool
  assumes len: "length row = 8" and "i \<le> 8"
  defines "row' \<equiv> \<lambda>i. fold (Misp_replace pc b) [0..<i] row"
  shows "length (row' i) = 8 \<and> (\<forall>j < 8. if j < i \<and> replaced row j then fresh pc b (row' i ! j)
    else row' i ! j = (row ! j)\<lparr>mc_lru := mc_lru (row ! j) + of_nat (chain (map mc_lru row) i)\<rparr>)"
  using assms(2)
proof (induction i)
  case 0
  then show ?case using len by (simp add: row'_def)
next
  case (Suc i)
  let ?k = "chain (map mc_lru row) i"
  have IH: "length (row' i) = 8" and cells: "\<And>j. j < 8 \<Longrightarrow> if j < i \<and> replaced row j then fresh pc b (row' i ! j)
    else row' i ! j = (row ! j)\<lparr>mc_lru := mc_lru (row ! j) + of_nat ?k\<rparr>" using Suc by auto
  have step: "row' (Suc i) = Misp_replace pc b i (row' i)" by (simp add: row'_def)
  have now: "mc_lru (row' i ! i) = mc_lru (row ! i) + of_nat ?k" using cells [of i] Suc.prems by simp
  show ?case
  proof (cases "replaced row i")
    case True
    then have l: "mc_lru (row' i ! i) = 7" using now by (simp add: replaced_def)
    have k: "chain (map mc_lru row) (Suc i) = Suc ?k" using chain_Suc [of i row] True len Suc.prems by simp
    have "if j < Suc i \<and> replaced row j then fresh pc b (row' (Suc i) ! j)
        else row' (Suc i) ! j = (row ! j)\<lparr>mc_lru := mc_lru (row ! j) + of_nat (Suc ?k)\<rparr>" if j: "j < 8" for j
    proof (cases "j = i")
      case True
      then show ?thesis using \<open>replaced row i\<close> l IH Suc.prems
        by (simp add: step Misp_replace_def bump_nth fresh_def)
    next
      case False
      then have "row' (Suc i) ! j = (row' i ! j)\<lparr>mc_lru := mc_lru (row' i ! j) + 1\<rparr>"
        using l IH j by (simp add: step Misp_replace_def bump_nth)
      then show ?thesis using cells [OF j] False by (auto simp: less_Suc_eq fresh_def ac_simps split: if_splits)
    qed
    moreover have "length (row' (Suc i)) = 8" using IH by (simp add: step Misp_replace_def bump_nth)
    ultimately show ?thesis unfolding k by blast
  next
    case False
    then have "mc_lru (row' i ! i) \<noteq> 7" using now by (simp add: replaced_def)
    then show ?thesis using IH cells False chain_Suc [of i row] len Suc.prems
      by (auto simp: step Misp_replace_def less_Suc_eq)
  qed
qed

lemma miss_cells:
  assumes "length row = 8" "j < 8"
  shows "if replaced row j then fresh pc b (Misp_miss pc b row ! j) else mc_pc (Misp_miss pc b row ! j) = mc_pc (row ! j)"
    and "length (Misp_miss pc b row) = 8"
  using miss_prefix [OF assms(1), of 8 pc b] assms(2) by (auto simp: Misp_miss_def split: if_splits)

lemma row_ok_replace:
  assumes ok: "row_ok row" and i: "i < 8"
  shows "row_ok (Misp_replace pc b i row)"
proof (cases "mc_lru (row ! i) = 7")
  case True
  show ?thesis by (rule row_ok_touched [OF ok i replace_touched [OF ok i True, of pc b]]) auto
next
  case False
  then show ?thesis using ok by (simp add: Misp_replace_def)
qed

lemma row_ok_miss: "row_ok row \<Longrightarrow> row_ok (Misp_miss pc b row)"
  unfolding Misp_miss_def by (rule fold_upt_inv) (auto intro: row_ok_replace)

lemma row_ok_hit: "row_ok row \<Longrightarrow> i < 8 \<Longrightarrow> row_ok (Misp_hit i b row)"
  using row_ok_touched [OF _ _ hit_touched] count_ok(2,3) row_ok_nth unfolding cell_ok_def by blast

lemma row_index: "Misp_rowIdx pc < 8"
proof -
  have "drop_bit 1 pc AND 7 = take_bit 3 (drop_bit 1 pc)" by (simp add: take_bit_eq_mask mask_eq_exp_minus_1)
  then have "Misp_rowIdx pc = take_bit 3 (unat (drop_bit 1 pc))" unfolding Misp_rowIdx_def by (simp only: unsigned_take_bit_eq)
  also have "\<dots> < 2 ^ 3" by (rule take_bit_nat_less_exp)
  finally show ?thesis by simp
qed

lemma table_ok_add: "table_ok t \<Longrightarrow> table_ok (Misp_add pc b t)"
  using row_index [of pc] unfolding table_ok_def Misp_add_def Let_def
  by (auto simp: Misp_find_def find_upt_Some row_ok_hit row_ok_miss split: option.splits
      dest!: set_update_subset_insert [THEN subsetD])

lemma find_bound: "Misp_find pc row = Some i \<Longrightarrow> i < 8"
  by (simp add: Misp_find_def find_upt_Some)

lemma counters_hit:
  assumes ok: "row_ok row" and f: "Misp_find pc row = Some i"
  shows "counters pc (Misp_hit i b row) = Some (count_branch b (unat (mc_ref (row ! i)), unat (mc_misp (row ! i))))"
proof -
  have i: "i < 8" and pc: "mc_pc (row ! i) = pc" and first: "\<And>j. j < i \<Longrightarrow> mc_pc (row ! j) \<noteq> pc"
    using f by (auto simp: Misp_find_def find_upt_Some)
  have t: "touched i (Misp_count b (row ! i)) row (Misp_hit i b row)" by (rule hit_touched [OF ok i])
  have c: "mc_misp (row ! i) \<le> mc_ref (row ! i)" "mc_ref (row ! i) < 256"
    using row_ok_nth [OF ok i] by (simp_all add: cell_ok_def)
  have "Misp_find pc (Misp_hit i b row) = Some i"
    using t i first pc count_ok(4) [OF c] by (auto simp: Misp_find_def find_upt_Some touched_def)
  then show ?thesis using t i count_ok(1) [OF c, of b] by (simp add: counters_def touched_def)
qed

lemma rank_exists:
  assumes "row_ok row" "v < 8"
  shows "\<exists>p < 8. mc_lru (row ! p) = v"
proof -
  have sub: "set (map (unat \<circ> mc_lru) row) \<subseteq> {..<8}" using assms(1) by (auto simp: row_ok_def cell_ok_def unat_less8)
  have "distinct (map (unat \<circ> mc_lru) row)"
    using assms(1) by (auto simp: row_ok_def distinct_map comp_inj_on_iff inj_on_def word_unat_eq_iff)
  then have "card (set (map (unat \<circ> mc_lru) row)) = 8" using assms(1) by (simp add: distinct_card row_ok_def del: set_map)
  then have "set (map (unat \<circ> mc_lru) row) = {..<8}" using sub by (intro card_subset_eq) auto
  then have "unat v \<in> set (map (unat \<circ> mc_lru) row)" using assms(2) by (simp add: unat_less8)
  then show ?thesis using assms(1) by (auto simp: in_set_conv_nth row_ok_def word_unat_eq_iff)
qed

lemma replaced_exists:
  assumes ok: "row_ok row"
  shows "\<exists>j < 8. replaced row j"
proof -
  obtain p where p: "p < 8" "mc_lru (row ! p) = 7" using rank_exists [OF ok, of 7] by auto
  have len: "length row = 8" using ok by (simp add: row_ok_def)
  have "chain (map mc_lru row) i = 0" if "i \<le> 8" "\<forall>j < i. \<not> replaced row j" for i
    using that by (induction i) (simp_all add: chain_Suc len)
  note none = this [of p]
  show ?thesis
  proof (cases "\<exists>j < p. replaced row j")
    case True
    then show ?thesis using p(1) by (meson less_trans)
  next
    case False
    then have "replaced row p" using none p by (simp add: replaced_def)
    then show ?thesis using p(1) by blast
  qed
qed

lemma miss_pcs:
  assumes len: "length row = 8" and old: "\<And>j. j < 8 \<Longrightarrow> mc_pc (row ! j) \<noteq> pc" and j: "j < 8"
  shows "mc_pc (Misp_miss pc b row ! j) = pc \<longleftrightarrow> replaced row j"
  using miss_cells(1) [OF len j, of pc b] old [OF j] by (auto simp: fresh_def split: if_splits)

lemma counters_miss:
  assumes ok: "row_ok row" and f: "Misp_find pc row = None"
  shows "counters pc (Misp_miss pc b row) = Some (1, if b then 1 else 0)"
proof -
  have len: "length row = 8" using ok by (simp add: row_ok_def)
  have old: "mc_pc (row ! j) \<noteq> pc" if "j < 8" for j using f that by (auto simp: Misp_find_def find_upt_None)
  note iff = miss_pcs [OF len old, of _ b]
  obtain i where i: "Misp_find pc (Misp_miss pc b row) = Some i"
    using replaced_exists [OF ok] iff by (cases "Misp_find pc (Misp_miss pc b row)") (auto simp: Misp_find_def find_upt_None)
  then have "i < 8" "replaced row i" using iff by (auto simp: Misp_find_def find_upt_Some)
  then have "fresh pc b (Misp_miss pc b row ! i)" using miss_cells(1) [OF len, of i pc b] by simp
  then show ?thesis using i by (simp add: counters_def fresh_def)
qed

section \<open>Properties\<close>

text \<open>
  Every addition keeps the ranks of each row a permutation of 0 to 7 and the
  counts within \<open>misp \<le> ref < 256\<close>, so the \<open>short\<close> fields never overflow; the branch is resident
  afterwards, with its counters advanced by one (and halved at 256), or restarted at one if it
  was absent; and \<open>high\<close> answers whether it has at least 64 references of which at least an
  eighth were mispredicted.
\<close>

theorem misp_add_effect:
  assumes "table_ok t"
  shows "table_ok (Misp_add pc b t) \<and>
    counters pc (Misp_add pc b t ! Misp_rowIdx pc) =
      Some (case counters pc (t ! Misp_rowIdx pc) of
              None \<Rightarrow> (1, if b then 1 else 0)
            | Some c \<Rightarrow> count_branch b c) \<and>
    Misp_high pc t = (case counters pc (t ! Misp_rowIdx pc) of
              None \<Rightarrow> False
            | Some (r, m) \<Rightarrow> 64 \<le> r \<and> r div 8 \<le> m)"
proof -
  let ?k = "Misp_rowIdx pc"
  let ?row = "t ! ?k"
  have k: "?k < 8" by (rule row_index)
  have ok: "row_ok ?row" using assms k by (simp add: table_ok_def)
  have row': "Misp_add pc b t ! ?k = (case Misp_find pc ?row of Some i \<Rightarrow> Misp_hit i b ?row | None \<Rightarrow> Misp_miss pc b ?row)"
    using assms k by (simp add: Misp_add_def Let_def table_ok_def)
  have "counters pc (Misp_add pc b t ! ?k) = Some (case counters pc ?row of
      None \<Rightarrow> (1, if b then 1 else 0) | Some c \<Rightarrow> count_branch b c)"
  proof (cases "Misp_find pc ?row")
    case None
    then show ?thesis using counters_miss [OF ok None, of b] by (simp add: row') (simp add: counters_def)
  next
    case (Some i)
    then show ?thesis using counters_hit [OF ok Some, of b] by (simp add: row') (simp add: counters_def)
  qed
  moreover have "HIGH (mc_ref c) (mc_misp c) \<longleftrightarrow> 64 \<le> unat (mc_ref c) \<and> unat (mc_ref c) div 8 \<le> unat (mc_misp c)"
    if "cell_ok c" for c
  proof -
    have "unat (mc_ref c) \<le> 256" "unat (mc_misp c) \<le> 256"
      using that by (simp_all add: cell_ok_def word_less_nat_alt word_le_nat_alt)
    then have "HIGH (mc_ref c) (mc_misp c) \<longleftrightarrow> 64 \<le> int r \<and> int r div 8 \<le> int m"
      if "r = unat (mc_ref c)" "m = unat (mc_misp c)" for r m using that by (simp add: HIGH_def sint_small)
    moreover have "64 \<le> int r \<and> int r div 8 \<le> int m \<longleftrightarrow> 64 \<le> r \<and> r div 8 \<le> m" for r m
    proof -
      have "int r div 8 = int (r div 8)" by (simp add: zdiv_int)
      then show ?thesis by (intro conj_cong iffI; linarith)
    qed
    ultimately show ?thesis by blast
  qed
  then have "Misp_high pc t = (case counters pc ?row of None \<Rightarrow> False | Some (r, m) \<Rightarrow> 64 \<le> r \<and> r div 8 \<le> m)"
    using row_ok_nth [OF ok] find_bound [of pc ?row]
    by (cases "Misp_find pc ?row") (simp_all add: Misp_high_def counters_def Let_def)
  ultimately show ?thesis using table_ok_add [OF assms] by blast
qed

text \<open>
  C36 (error). The loop behind a miss goes on after replacing the least recently used cell, and
  the ranks it raises on the way can make a later cell the least recent one: a new branch takes
  a single cell exactly if the second least recent cell comes before the least recent one in the
  row. Otherwise it takes several.
\<close>

theorem misp_miss_copies:
  assumes "row_ok row" and "\<forall>c \<in> set row. mc_pc c \<noteq> pc"
    and "p < 8" and "mc_lru (row ! p) = 7" and "q < 8" and "mc_lru (row ! q) = 6"
  shows "(card {j. j < 8 \<and> mc_pc (Misp_miss pc b row ! j) = pc} = 1) = (q < p)"
proof -
  have len: "length row = 8" using assms(1) by (simp add: row_ok_def)
  have rank7: "mc_lru (row ! j) = 7 \<longleftrightarrow> j = p" if "j < 8" for j
    using rank_unique [OF assms(1) that assms(3)] assms(4) by simp
  have "w + 1 = 7 \<longleftrightarrow> w = 6" for w :: i16 using add_right_cancel [of w 1 6] by simp
  then have rank6: "mc_lru (row ! j) + 1 = 7 \<longleftrightarrow> j = q" if "j < 8" for j
    using rank_unique [OF assms(1) that assms(5)] assms(6) by simp
  have c0: "chain (map mc_lru row) i = 0" if "i \<le> p" for i
    using that
  proof (induction i)
    case (Suc i)
    then have "mc_lru (row ! i) \<noteq> 7" using rank7 [of i] assms(3) by simp
    then show ?case using Suc assms(3) by (simp add: chain_Suc len replaced_def)
  qed simp
  have c1: "chain (map mc_lru row) i = 1" if "p < i" "i \<le> 8" "\<not> (p < q \<and> q < i)" for i
    using that
  proof (induction i)
    case (Suc i)
    show ?case
    proof (cases "i = p")
      case True
      then show ?thesis using c0 [of p] assms(3,4) by (simp add: chain_Suc len replaced_def)
    next
      case False
      then have "i \<noteq> q" using Suc.prems by auto
      then have "mc_lru (row ! i) + 1 \<noteq> 7" using rank6 [of i] Suc.prems by simp
      moreover have "chain (map mc_lru row) i = 1" using Suc False by (intro Suc.IH) auto
      ultimately show ?thesis using Suc.prems by (simp add: chain_Suc len replaced_def)
    qed
  qed simp
  have rep: "replaced row p" using c0 [of p] assms(4) by (simp add: replaced_def)
  have "{j. j < 8 \<and> mc_pc (Misp_miss pc b row ! j) = pc} = {j. j < 8 \<and> replaced row j}"
    using miss_pcs [OF len, of pc _ b] assms(2) len by auto
  moreover have "(card {j. j < 8 \<and> replaced row j} = 1) = (q < p)"
  proof (cases "q < p")
    case True
    have "j = p" if "j < 8" "replaced row j" for j
    proof (cases j p rule: linorder_cases)
      case less
      then show ?thesis using that c0 [of j] rank7 [of j] by (simp add: replaced_def)
    next
      case greater
      then have "chain (map mc_lru row) j = 1" using c1 [of j] True that(1) by simp
      then show ?thesis using that rank6 [of j] True greater by (simp add: replaced_def)
    qed
    then have "{j. j < 8 \<and> replaced row j} = {p}" using rep assms(3) by blast
    then show ?thesis using True by simp
  next
    case False
    then have "p < q" using assms(4,6) by (cases "p = q") auto
    then have "replaced row q" using c1 [of q] assms(5,6) by (simp add: replaced_def)
    then have "{p, q} \<subseteq> {j. j < 8 \<and> replaced row j}" using rep assms(3,5) by auto
    from card_mono [OF _ this] show ?thesis using \<open>p < q\<close> by auto
  qed
  ultimately show ?thesis by simp
qed

section \<open>Witnesses\<close>

definition zero_row :: row where
  "zero_row = replicate 8 \<lparr>mc_pc = 0, mc_lru = 0, mc_ref = 0, mc_misp = 0\<rparr>"

definition demo_misp :: "row list" where
  "demo_misp = Misp_new (replicate 8 zero_row)"

text \<open>
  Seven branches of row 0 fill the cells 7 to 1; the eighth then takes the cells 0 and 7 and so
  evicts the first of them, although a cell is free.
\<close>

definition demo_branches :: "addr list" where
  "demo_branches = [16, 32, 48, 64, 80, 96, 112]"

definition demo_row :: row where
  "demo_row = fold (\<lambda>pc t. Misp_add pc False t) demo_branches demo_misp ! 0"


theorem misp_miss_copies_witness:
  "card {j. j < 8 \<and> mc_pc (Misp_miss 128 False demo_row ! j) = 128} \<noteq> 1"
proof -
  have ok: "row_ok demo_row" "\<forall>c \<in> set demo_row. mc_pc c \<noteq> 128" by code_simp+
  have r: "mc_lru (demo_row ! 0) = 7" "mc_lru (demo_row ! 7) = 6" by code_simp+
  show ?thesis using misp_miss_copies [OF ok, of 0 7 False] r by simp
qed

end
