(* ===== verification/Spec2Isabelle.thy ===== *)
theory Spec2Isabelle
  imports DVR_Predicate DVR_Quality DVR_Nested DVR_NDM DVR_Stride DVR_Discovery DVR_Taint DVR_Rename
    DVR_LoopBound DVR_VIR_Execute DVR_VIR_Resume DVR_HelperRegs_Run DVR_Compute DVR_Request_Walk DVR_Launch_Run PRE_SST PRE_Misp
begin

text \<open>
  Decoupled Vector Runahead (DVR) in gem5's out-of-order CPU.

  All sources named below are in \<open>src/code/gem5-runahead-dev-pre/src/cpu/o3/\<close>. The repository is
  gem5 with a runahead prototype; the prototype's own logic is in the classes of \<open>pre.hh\<close>,
  \<open>pre.cc\<close>, \<open>dvr_predicate\<close>, \<open>dvr_nested\<close> and \<open>dvr_quality\<close>, which the pipeline calls at dispatch, commit, squash and
  memory response, the helper register file and helper thread of \<open>cpu.hh\<close>, and the functions of \<open>cpu.cc\<close>
  that schedule the helper's lanes and its memory requests.

  \<^bold>\<open>How the parts work together.\<close> The stride detector watches committed loads and nominates one
  with a constant stride. The discovery controller then observes one iteration of the loop around
  that load, while the taint tracker follows the data flow from it to the final dependent load
  (FLR), the recorder stores the instructions with their decoded operations, and the loop bound
  detector watches the compare and the closing branch (LCR) to infer how many iterations remain.
  The rename table assigns vector registers, the helper register file holds the values of all
  lanes in registers of its own or borrowed from the pipeline, and the vector instruction register replays the
  recording for up to 128 future iterations (lanes), either in one pass or lane by lane as the
  source loads return; the lane predicate tracker classifies the responses by path. In the pipeline the helper
  thread holds the lanes: a source response adds one, the scheduler forms groups of lanes at one PC, executes
  them on the helper register file, defers the other side of a divergent branch on a stack of
  reconvergence frames, and queues the addresses of dependent loads as prefetch requests; the value that
  comes back lets the lane go on. Address relations, learned at commit, check these addresses. If too few
  iterations remain, nested discovery looks for a strided load of the outer loop. The quality
  tracker measures the prefetches. The stalling slice table and the misprediction table belong to
  the precise runahead part of the same file.

  \<^bold>\<open>Theories, in the order of the code.\<close>

  \<^item> \<open>DVR_Prelude\<close>: type names of the model (\<open>addr\<close>, \<open>u64\<close>, \<open>lane_mask\<close>, ...), 128-lane masks as
    two 64-bit words with their set view, folds over index ranges, first-match searches, finite
    maps as updates, and the locale \<open>event_machine\<close> (a step function with an invariant; runs of
    calls keep it) with its extensions \<open>counted_machine\<close>, \<open>commit_window\<close> and \<open>speculative_log\<close>,
    which the trackers and controllers interpret.
  \<^item> \<open>DVR_LRU\<close>: recency lists, and the locale \<open>lru_store\<close> (a bounded store that behaves as a recency
    list) with the reuse-distance law proved once; the quality tracker's shadow cache and the
    slice table interpret it.
  \<^item> \<open>DVR_Predicate\<close> (\<open>dvr_predicate.cc\<close>, \<open>DVRLanePredicateTracker\<close>): classification of lanes by path.
  \<^item> \<open>DVR_Quality\<close> (\<open>dvr_quality.cc\<close>, \<open>DVRQualityTracker\<close>): relations between the counters after any
    calls, totality of \<open>completedLine\<close>, the shadow cache as an LRU cache.
  \<^item> \<open>DVR_Nested\<close> (\<open>dvr_nested.cc\<close>, \<open>DVRNestedController\<close>): the frame array refines a bounded stack.
  \<^item> \<open>DVR_NDM\<close> (\<open>dvr_nested.cc\<close>, \<open>DVRNestedDiscoveryMode\<close>): its state machine, soundness and
    completeness of the outer stride search, the plan of a vectorised outer loop, the window.
  \<^item> \<open>DVR_Stride\<close> (\<open>pre.cc\<close>, \<open>DVRStrideDetector\<close>): each table entry is trained as if it were alone,
    when a stride is detected, exact undo of speculative updates.
  \<^item> \<open>DVR_Discovery\<close> (\<open>DVRDiscoveryController\<close>): states, completion, timeout and the squash case.
  \<^item> \<open>DVR_Inst\<close>: the register and instruction interface that the next three read.
  \<^item> \<open>DVR_Taint\<close> (\<open>DVRVectorTaintTracker\<close>): refinement of a data flow slice, exact undo.
  \<^item> \<open>DVR_Uop\<close>, \<open>DVR_Decode\<close>: \<open>Uop::evaluate\<close>, \<open>evaluateBranch\<close> and the RISC-V decoder at 64 and 32
    bits, against the integer semantics of the operations and the instruction formats.
  \<^item> \<open>DVR_Recorder\<close> (\<open>DVRInstructionRecorder\<close>): the stored trace, insertion of alternate paths,
    reconvergence points.
  \<^item> \<open>DVR_Rename\<close> (\<open>DVRVectorRenameTable\<close>): the allocation of vector registers.
  \<^item> \<open>DVR_LoopBound\<close> (\<open>DVRLoopBoundDetector\<close>): the inferred bound is the number of iterations of the
    loop unless the rounding overflows; soundness of the closing branch.
  \<^item> \<open>DVR_VIR\<close>, \<open>DVR_VIR_Execute\<close>, \<open>DVR_VIR_Resume\<close> (\<open>DVRVectorInstructionRegister\<close>): the data and
    the steps the interpreters share, the one-pass interpreter as a scalar run, and the
    response-driven interpreters with the independence of waiting lanes.
  \<^item> \<open>O3_FreeList\<close> (\<open>free_list.hh\<close>, \<open>regfile.hh\<close>): the free lists and registers that the helper
    shares with the pipeline, and the locale \<open>name_pool\<close> (taking a name removes it from the pool,
    giving one adds it), interpreted on them.
  \<^item> \<open>DVR_HelperRegs\<close> (\<open>cpu.hh\<close>, \<open>DVRHelperVectorRegisterFile\<close>): the helper's register file.
    \<open>DVR_HelperRegs_Inv\<close> has the invariant of the physical registers and of the names they hold,
    \<open>DVR_HelperRegs_View\<close> that of the mappings (every register of every lane has a slot of its own),
    \<open>DVR_HelperRegs_Rename\<close> the three renaming loops, and \<open>DVR_HelperRegs_Run\<close> the runs: the file
    refines one private register per architectural register and lane, names are conserved, and a
    partial rename strands registers.
  \<^item> \<open>DVR_Helper\<close> (\<open>cpu.hh\<close>, \<open>DVRHelperThread\<close>): the helper thread with its front end, issue queue, instruction buffer,
    lanes and frames. \<open>DVR_Replay\<close> (\<open>cpu.cc\<close>, \<open>issueDVRReplayLanes\<close>): one issue attempt of the vector replay, from the
    pruning of lanes to the requests of dependent loads. The functional units and the trained relations are
    arguments.
  \<^item> \<open>DVR_Replay_Inv\<close>, \<open>DVR_Files\<close>, \<open>DVR_Replay_Scalar\<close>, \<open>DVR_Replay_Branch\<close>, \<open>DVR_Replay_Execute\<close>, \<open>DVR_Replay_Attempt\<close>: what each
    part of an attempt keeps, with \<open>scalar_step\<close>, the run of one lane on its own registers, as the reference.
    \<open>DVR_Replay_Run\<close>: after any run of source values, attempts, load values, retirements, restarts and other work
    every active lane is where a scalar run of its program is, with the registers of that run. The programs have
    different nonzero PCs and branches with two successors (\<open>wf_program\<close>); an attempt is \<open>regular_attempt\<close>, which excludes the
    case that a lane deferred by a branch is still executed in the same attempt; the register files live as long as the run.
    \<open>DVR_Replay_Stranded\<close>: two ways in which the scheduler loses lanes, and the accounting of an attempt.
  \<^item> \<open>DVR_Relation\<close> (\<open>trainDVRAddressRelation\<close>): what a trained relation says is true of its samples, and an affine
    dependence is learned exactly.
  \<^item> \<open>DVR_Request\<close> (\<open>serviceDVRPrefetchQueue\<close>, \<open>completeDVRPrefetch\<close>, \<open>replayDVRSource\<close>, \<open>startDVRHelper\<close> and the lane accounting): the
    prefetch requests. \<open>DVR_Request_Run\<close>: the books agree with the packets in flight in every order of
    requests and responses. \<open>DVR_Request_Walk\<close>: the scalar replay requests the address the scalar run of a lane computes.
  \<^item> \<open>DVR_Compute\<close> (\<open>issueDVRHelperCompute\<close>): the computation of a cycle stays within the slots that are left.
  \<^item> \<open>DVR_Launch\<close> (\<open>launchDVRStridePrefetches\<close>, \<open>launchDVRVectorRunahead\<close>, \<open>launchDVRNestedPrefetches\<close>): the launch of a helper program from
    the recording, the loop bound, the relations and the nested plan. \<open>DVR_Launch_Run\<close>: every lane of a launch is requested once or given
    up, its predicates put a trained value on its own path, and nested invocations are flattened in order.
  \<^item> \<open>PRE_SST\<close>, \<open>PRE_Misp\<close> (\<open>SST\<close>, \<open>MispTable\<close>): the slice table refines a bounded LRU list; the
    replacement and the counts of the misprediction table.

  \<^bold>\<open>Modelling choices.\<close> A class is a record and a method a function that returns the new state,
  with an option or an event datatype where the method reports failure. Addresses and register
  values are 64-bit words, counters are natural numbers where the code cannot reach their width
  (each theory says which) and words where it can. Hash maps are finite maps; where iteration
  order or iterators matter, the order or the node identity is kept. A loop with a budget
  (\<open>max_helper_uops\<close>, the commit windows) recurses on that budget, so its bound is the code's
  own and no other fuel is used. A \<open>DynInst\<close> is the record of the fields and predicates that the
  code reads from it. Memory that a constructor leaves uninitialised is an argument.

  Shared pointers to templates, register files and generations are indices into functions. An assertion that
  fails, or an exception, is a \<open>None\<close> result. In the runs of the scheduler and of the requests, the rest of the
  processor is a step that leaves the state in question alone.

  \<^bold>\<open>Not modelled.\<close> The completion of a nested context and the construction of
  alternate paths, which read the decoded instruction cache, and the instruction fetch of the helper; the hooks in \<open>cpu.cc\<close>, \<open>commit.cc\<close>, \<open>iew.cc\<close>, \<open>fetch.cc\<close> and \<open>rename.cc\<close>, which
  call the components from the pipeline with its ports, events and statistics; the rest of gem5
  (pipeline stages, memory system, instruction sets, event queue), vendored libraries and scripts.
\<close>

end
